(* ===== verification/Jd_Prelude.thy ===== *)
theory Jd_Prelude
  imports Main "HOL-Library.Word" "HOL-Library.Monad_Syntax"
begin

text \<open>
  Shared vocabulary of the development: machine integers, byte arrays with checked
  accesses, little-endian encodings, the 32-bit wrap-around clock, and the generic
  lemmas the component theories use.

  Conventions of every component theory:
  \<^item> \<open>JD_PANIC()\<close> and a failing \<open>JD_ASSERT\<close> both end in \<open>hw_panic()\<close>, which does not
    return.  A function that can reach one of them returns an \<open>option\<close>, and \<open>None\<close> is
    the halted device.  A memory access outside the array it is made in is undefined
    behaviour in C and is \<open>None\<close> as well, so that a theorem \<open>f x = Some y\<close> says that the
    call neither panics nor leaves its buffers.
  \<^item> Integers that index or measure buffers are \<open>nat\<close> with the truncation of the C
    store written out (\<open>u8\<close>, \<open>u16\<close>, \<open>u32\<close>); integers on which the code works bitwise
    or modulo their width (identifiers, flags, checksums, clocks) are words.
\<close>

unbundle bit_operations_syntax

named_theorems jd_simps \<open>rewrite rules of the model's accessors and primitives\<close>
named_theorems jd_mem \<open>laws of the checked memory primitives\<close>
named_theorems jd_inv \<open>preservation lemmas of the component invariants\<close>

type_synonym byte = "8 word"
type_synonym mem = "byte list"

section \<open>Truncating stores\<close>

definition u8 :: "nat \<Rightarrow> nat" where
  "u8 n = n mod 256"

definition u16 :: "nat \<Rightarrow> nat" where
  "u16 n = n mod 65536"

definition u32 :: "nat \<Rightarrow> nat" where
  "u32 n = n mod 4294967296"

lemma u8_id [simp]: "n < 256 \<Longrightarrow> u8 n = n"
  by (simp add: u8_def)

lemma u16_id [simp]: "n < 65536 \<Longrightarrow> u16 n = n"
  by (simp add: u16_def)

lemma u32_id [simp]: "n < 4294967296 \<Longrightarrow> u32 n = n"
  by (simp add: u32_def)

definition sub32 :: "nat \<Rightarrow> nat \<Rightarrow> nat" where
  "sub32 a b = (a + (4294967296 - b mod 4294967296)) mod 4294967296"

lemma sub32_le: "b \<le> a \<Longrightarrow> a < 4294967296 \<Longrightarrow> sub32 a b = a - b"
  by (simp add: sub32_def mod_if)

section \<open>Alignment\<close>

text \<open>\<open>ALIGN(x)\<close> of jd\_util.c and the rounding in \<open>FRM_SIZE\<close> and \<open>ev_size\<close>:
  \<open>((x) + 3) & ~3\<close> on a non-negative \<open>int\<close>.\<close>

definition align4 :: "nat \<Rightarrow> nat" where
  "align4 n = (n + 3) div 4 * 4"

lemma align4_ge: "n \<le> align4 n"
  unfolding align4_def by arith

lemma align4_lt: "align4 n < n + 4"
  unfolding align4_def by arith

lemma align4_dvd: "4 dvd align4 n"
  by (simp add: align4_def)

lemma align4_id: "4 dvd n \<Longrightarrow> align4 n = n"
  by (auto simp: align4_def)

lemma align4_mono: "m \<le> n \<Longrightarrow> align4 m \<le> align4 n"
  by (simp add: align4_def div_le_mono)

lemma align4_least: "n \<le> m \<Longrightarrow> 4 dvd m \<Longrightarrow> align4 n \<le> m"
  by (metis align4_id align4_mono)

lemma align4_add: "4 dvd m \<Longrightarrow> align4 (m + n) = m + align4 n"
  unfolding align4_def by presburger

lemma align4_gap: "align4 a < b \<Longrightarrow> align4 a + 4 \<le> align4 b"
  unfolding align4_def by presburger

section \<open>Checked memory\<close>

definition rd8 :: "mem \<Rightarrow> nat \<Rightarrow> byte option" where
  "rd8 m i = (if i < length m then Some (m ! i) else None)"

definition wr8 :: "mem \<Rightarrow> nat \<Rightarrow> byte \<Rightarrow> mem option" where
  "wr8 m i b = (if i < length m then Some (m[i := b]) else None)"

definition rd_mem :: "mem \<Rightarrow> nat \<Rightarrow> nat \<Rightarrow> mem option" where
  "rd_mem m off n = (if off + n \<le> length m then Some (take n (drop off m)) else None)"

definition patch :: "mem \<Rightarrow> nat \<Rightarrow> mem \<Rightarrow> mem" where
  "patch m off src = take off m @ src @ drop (off + length src) m"

definition wr_mem :: "mem \<Rightarrow> nat \<Rightarrow> mem \<Rightarrow> mem option" where
  "wr_mem m off src = (if off + length src \<le> length m then Some (patch m off src) else None)"

definition jd_assert :: "bool \<Rightarrow> unit option" where
  "jd_assert c = (if c then Some () else None)"

lemma jd_assert_True [simp]: "jd_assert True = Some ()"
  by (simp add: jd_assert_def)

lemma jd_assert_False [simp]: "jd_assert False = None"
  by (simp add: jd_assert_def)

lemma jd_assert_Some [simp]: "jd_assert c = Some u \<longleftrightarrow> c"
  by (simp add: jd_assert_def)

lemma rd8_Some [simp]: "i < length m \<Longrightarrow> rd8 m i = Some (m ! i)"
  by (simp add: rd8_def)

lemma rd8_Some_iff: "rd8 m i = Some b \<longleftrightarrow> i < length m \<and> b = m ! i"
  by (auto simp: rd8_def)

lemma wr8_Some [simp]: "i < length m \<Longrightarrow> wr8 m i b = Some (m[i := b])"
  by (simp add: wr8_def)

lemma rd_mem_Some [simp]: "off + n \<le> length m \<Longrightarrow> rd_mem m off n = Some (take n (drop off m))"
  by (simp add: rd_mem_def)

lemma rd_mem_Some_iff:
  "rd_mem m off n = Some r \<longleftrightarrow> off + n \<le> length m \<and> r = take n (drop off m)"
  by (auto simp: rd_mem_def)

lemma wr_mem_Some [simp]: "off + length src \<le> length m \<Longrightarrow> wr_mem m off src = Some (patch m off src)"
  by (simp add: wr_mem_def)

lemma wr_mem_Some_iff:
  "wr_mem m off src = Some r \<longleftrightarrow> off + length src \<le> length m \<and> r = patch m off src"
  by (auto simp: wr_mem_def)

lemma length_patch [simp]: "off + length src \<le> length m \<Longrightarrow> length (patch m off src) = length m"
  by (simp add: patch_def)

lemma patch_Nil [simp]: "patch m off [] = m"
  by (simp add: patch_def)

lemma patch_nth:
  assumes "off + length src \<le> length m" "i < length m"
  shows "patch m off src ! i = (if off \<le> i \<and> i < off + length src then src ! (i - off) else m ! i)"
  using assms by (auto simp: patch_def nth_append min_def)

lemma take_drop_patch_same [jd_mem]:
  assumes "off + length src \<le> length m"
  shows "take (length src) (drop off (patch m off src)) = src"
  using assms by (simp add: patch_def)

lemma take_drop_patch_disjoint [jd_mem]:
  assumes "off + length src \<le> length m" "p + n \<le> off \<or> off + length src \<le> p"
  shows "take n (drop p (patch m off src)) = take n (drop p m)"
proof (cases "p + n \<le> length m")
  case True
  with assms show ?thesis
    by (intro nth_equalityI) (auto simp: patch_nth)
next
  case False
  show ?thesis
  proof (rule nth_equalityI)
    show "length (take n (drop p (patch m off src))) = length (take n (drop p m))"
      using assms by simp
  next
    fix i
    assume "i < length (take n (drop p (patch m off src)))"
    with assms False show "take n (drop p (patch m off src)) ! i = take n (drop p m) ! i"
      by (auto simp: patch_nth)
  qed
qed

lemma nth_patch_disjoint [jd_mem]:
  assumes "off + length src \<le> length m" "i < off \<or> off + length src \<le> i" "i < length m"
  shows "patch m off src ! i = m ! i"
  using assms by (auto simp: patch_nth)

lemma patch_patch_append:
  assumes "off + length xs + length ys \<le> length m"
  shows "patch (patch m off xs) (off + length xs) ys = patch m off (xs @ ys)"
  using assms by (simp add: patch_def ac_simps)

lemma take_append_take_drop: "take a xs @ take b (drop a xs) = take (a + b) xs"
  by (simp add: take_add)

section \<open>Little-endian integers\<close>

fun le_bytes :: "nat \<Rightarrow> 'a::len word \<Rightarrow> mem" where
  "le_bytes 0 w = []"
| "le_bytes (Suc n) w = ucast w # le_bytes n (drop_bit 8 w)"

fun le_word :: "mem \<Rightarrow> 'a::len word" where
  "le_word [] = 0"
| "le_word (b # bs) = ucast b OR push_bit 8 (le_word bs)"

lemma length_le_bytes [simp]: "length (le_bytes n w) = n"
  by (induction n arbitrary: w) auto

lemma bit_le_word_le_bytes:
  fixes w :: "'a::len word"
  shows "bit (le_word (le_bytes n w) :: 'a word) i \<longleftrightarrow> i < 8 * n \<and> bit w i"
proof (induction n arbitrary: w i)
  case 0
  then show ?case by simp
next
  case (Suc n)
  show ?case
    by (cases "i < 8")
       (auto simp: bit_or_iff bit_push_bit_iff bit_drop_bit_eq bit_unsigned_iff Suc.IH
             dest: bit_imp_le_length)
qed

lemma le_word_le_bytes:
  fixes w :: "'a::len word"
  assumes "LENGTH('a) \<le> 8 * n"
  shows "le_word (le_bytes n w) = w"
  using assms by (intro bit_word_eqI) (auto simp: bit_le_word_le_bytes)

lemma le_word_le_bytes_16 [simp]: "le_word (le_bytes 2 (w :: 16 word)) = w"
  by (rule le_word_le_bytes) simp

lemma le_word_le_bytes_32 [simp]: "le_word (le_bytes 4 (w :: 32 word)) = w"
  by (rule le_word_le_bytes) simp

lemma le_word_le_bytes_64 [simp]: "le_word (le_bytes 8 (w :: 64 word)) = w"
  by (rule le_word_le_bytes) simp

lemma unat_byte_lt: "unat (b :: byte) < 256"
  using unsigned_less [of b] by simp

lemma unat_16_lt: "unat (w :: 16 word) < 65536"
  using unsigned_less [of w] by simp

lemma unat_of_nat_byte: "unat (of_nat n :: byte) = n mod 256"
  by (simp add: unat_of_nat take_bit_eq_mod)

lemma unat_of_nat_16: "unat (of_nat n :: 16 word) = n mod 65536"
  by (simp add: unat_of_nat take_bit_eq_mod)

lemma unat_of_nat_32: "unat (of_nat n :: 32 word) = n mod 4294967296"
  by (simp add: unat_of_nat take_bit_eq_mod)

lemma byte_all:
  assumes "list_all P (map of_nat [0..<256])"
  shows "P (x :: byte)"
proof -
  have "of_nat (unat x) = x" by simp
  moreover have "unat x \<in> set [0..<256]" using unat_byte_lt [of x] by simp
  ultimately have "x \<in> set (map of_nat [0..<256])" by (metis image_eqI set_map)
  with assms show ?thesis by (simp only: list_all_iff)
qed

text \<open>Unfoldings for the simplifier, to evaluate loops over the bits of a byte.\<close>

lemma funpow_8: "(f ^^ 8) x = f (f (f (f (f (f (f (f x)))))))"
  by (simp add: eval_nat_numeral)

lemma upt_8: "[0..<8] = [0, 1, 2, 3, 4, 5, 6, 7]"
  by (simp add: upt_rec)

text \<open>Two functions on bytes that are additive for XOR agree when they agree on the
  eight powers of two.\<close>

lemma byte_additive_eqI:
  fixes f g :: "byte \<Rightarrow> 'a::len word"
  assumes f: "\<And>a b. f (a XOR b) = f a XOR f b" and g: "\<And>a b. g (a XOR b) = g a XOR g b"
    and basis: "list_all (\<lambda>k. f (push_bit k 1) = g (push_bit k 1)) [0..<8]"
  shows "f x = g x"
proof -
  have z: "f 0 = 0" "g 0 = 0"
    using f [of 0 0] g [of 0 0] by simp_all
  have "f (take_bit n x) = g (take_bit n x)" if "n \<le> 8" for n
    using that
  proof (induction n)
    case 0
    show ?case by (simp add: z)
  next
    case (Suc n)
    have "take_bit (Suc n) x = take_bit n x XOR (if bit x n then push_bit n 1 else 0)"
      by (rule bit_word_eqI)
         (auto simp: bit_take_bit_iff bit_xor_iff bit_push_bit_iff less_Suc_eq bit_1_iff bit_exp_iff)
    moreover have "f (push_bit n 1) = g (push_bit n 1)"
      using basis Suc.prems by (simp only: list_all_iff) auto
    ultimately show ?case using Suc by (simp add: f g z)
  qed
  from this [of 8] show ?thesis by (simp add: take_bit_word_eq_self)
qed

section \<open>The microsecond clock\<close>

text \<open>\<open>is_before\<close>, \<open>in_past\<close> and \<open>in_future\<close> of jd\_util.h; the global \<open>now\<close> is an
  argument.\<close>

definition is_before :: "32 word \<Rightarrow> 32 word \<Rightarrow> bool" where
  "is_before a b \<longleftrightarrow> drop_bit 31 (b - a) = 0"

definition in_past :: "32 word \<Rightarrow> 32 word \<Rightarrow> bool" where
  "in_past now moment = is_before moment now"

definition in_future :: "32 word \<Rightarrow> 32 word \<Rightarrow> bool" where
  "in_future now moment = is_before now moment"

lemma drop_bit_31_eq_0_iff: "drop_bit 31 (x :: 32 word) = 0 \<longleftrightarrow> unat x < 2147483648"
proof -
  have "drop_bit 31 x = 0 \<longleftrightarrow> unat (drop_bit 31 x) = 0"
    by (simp only: unat_eq_0)
  also have "\<dots> \<longleftrightarrow> unat x div 2147483648 = 0"
    by (simp only: unat_drop_bit_eq) (simp add: drop_bit_eq_div)
  also have "\<dots> \<longleftrightarrow> unat x < 2147483648"
    by (simp add: div_eq_0_iff)
  finally show ?thesis .
qed

lemma is_before_iff: "is_before a b \<longleftrightarrow> unat (b - a) < 2147483648"
  by (simp add: is_before_def drop_bit_31_eq_0_iff)

lemma is_before_refl [simp]: "is_before a a"
  by (simp add: is_before_iff)

lemma is_before_add:
  "unat d < 2147483648 \<Longrightarrow> is_before a (a + d)"
  by (simp add: is_before_iff)

lemma not_is_before_add:
  assumes "0 < unat d" "unat d < 2147483648"
  shows "\<not> is_before (a + d) a"
proof -
  have "unat (- d) = 4294967296 - unat d"
    using assms unat_sub_if_size [of 0 d] by (simp add: word_size)
  with assms show ?thesis by (simp add: is_before_iff)
qed

section \<open>Option monad\<close>

lemma bind_Some_iff:
  "Option.bind x f = Some y \<longleftrightarrow> (\<exists>a. x = Some a \<and> f a = Some y)"
  by (cases x) auto

end
