(* ===== verification/Jd_Util.thy ===== *)
theory Jd_Util
  imports Jd_Prelude
begin

text \<open>
  The arithmetic half of source/jd\_util.c: the FNV hashes, the xorshift generator, the
  CRC-16 used on the wire, and the periodic-sampling helpers.  The static \<open>seed\<close> and the
  global \<open>now\<close> are arguments, and an updated \<open>seed\<close> or \<open>*sample\<close> is returned.
\<close>

section \<open>Hashes\<close>

definition jd_hash_fnv1a :: "mem \<Rightarrow> 32 word" where
  "jd_hash_fnv1a data = foldl (\<lambda>h d. (h XOR ucast d) * 0x1000193) 0x811c9dc5 data"

definition hash_fnv1 :: "mem \<Rightarrow> 32 word" where
  "hash_fnv1 data = foldl (\<lambda>h d. (h * 0x1000193) XOR ucast d) 0x811c9dc5 data"

definition mkcd_hash :: "mem \<Rightarrow> int \<Rightarrow> 32 word" where
  "mkcd_hash buf bits =
     (if bits < 1 then 0
      else (let h = hash_fnv1 buf in
        if bits \<ge> 32 then h
        else (h XOR drop_bit (nat bits) h) AND (push_bit (nat bits) 1 - 1)))"

section \<open>Random numbers\<close>

definition jd_seed_random :: "32 word \<Rightarrow> 32 word \<Rightarrow> 32 word" where
  "jd_seed_random seed s = (seed * 0x1000193) XOR s"

definition xorshift :: "32 word \<Rightarrow> 32 word" where
  "xorshift x =
     (let x = x XOR push_bit 13 x;
          x = x XOR drop_bit 17 x;
          x = x XOR push_bit 5 x
      in x)"

definition jd_random :: "32 word \<Rightarrow> 32 word \<times> 32 word" where
  "jd_random seed =
     (let seed = (if seed = 0 then jd_seed_random seed 13 else seed);
          x = xorshift seed
      in (x, x))"

function random_mask :: "32 word \<Rightarrow> 32 word \<Rightarrow> 32 word" where
  "random_mask msk v = (if msk > v then random_mask (drop_bit 1 msk) v else msk)"
  by pat_completeness auto
termination
proof (relation "measure (\<lambda>(msk, v). unat msk)")
  fix msk v :: "32 word"
  assume "msk > v"
  then have "0 < unat msk"
    by (metis not_gr_zero unat_0_iff word_not_simps(1))
  then show "((drop_bit 1 msk, v), msk, v) \<in> measure (\<lambda>(msk, v). unat msk)"
    by (simp only: in_measure prod.case unat_drop_bit_eq) (simp add: drop_bit_eq_div)
qed simp

declare random_mask.simps [simp del]

definition jd_random_around :: "32 word \<Rightarrow> 32 word \<Rightarrow> 32 word \<times> 32 word" where
  "jd_random_around seed v =
     (let msk = random_mask 0xfffffff v;
          (r, seed) = jd_random seed
      in ((v - drop_bit 1 msk) + (r AND msk), seed))"

section \<open>CRC-16\<close>

definition crc16_step :: "16 word \<Rightarrow> byte \<Rightarrow> 16 word" where
  "crc16_step crc data =
     (let x = ucast (drop_bit 8 crc) XOR data;
          x = x XOR drop_bit 4 x
      in push_bit 8 crc XOR push_bit 12 (ucast x) XOR push_bit 5 (ucast x) XOR ucast x)"

definition jd_crc16 :: "mem \<Rightarrow> 16 word" where
  "jd_crc16 data = foldl crc16_step 0xffff data"

section \<open>Periodic sampling\<close>

definition jd_should_sample :: "32 word \<Rightarrow> 32 word \<Rightarrow> 32 word \<Rightarrow> bool \<times> 32 word" where
  "jd_should_sample now sample period =
     (if in_future now sample then (False, sample)
      else (let sample = sample + period in
        (True, if \<not> in_future now sample then now + period else sample)))"

definition jd_should_sample_ms :: "32 word \<Rightarrow> 32 word \<Rightarrow> 32 word \<Rightarrow> bool \<times> 32 word" where
  "jd_should_sample_ms now_ms sample period =
     (if in_future now_ms sample then (False, sample)
      else (let sample = sample + period in
        (True, if \<not> in_future now_ms sample then now_ms + period else sample)))"

definition jd_should_sample_delay :: "32 word \<Rightarrow> 32 word \<Rightarrow> 32 word \<Rightarrow> bool \<times> 32 word" where
  "jd_should_sample_delay now sample period =
     (if in_future now sample then (False, sample) else (True, now + period))"

section \<open>The generator never sticks at zero\<close>

lemma xor_shift_left_inj:
  fixes x :: "'a::len word"
  assumes "0 < n" "x XOR push_bit n x = 0"
  shows "x = 0"
proof -
  from assms(2) have eq: "x = push_bit n x"
    by (metis xor_self_eq bit.xor_left_self xor.right_neutral)
  have "\<not> bit x i" for i
  proof (induction i rule: less_induct)
    case (less i)
    show ?case
    proof
      assume "bit x i"
      with eq have "bit (push_bit n x) i" by simp
      then have "n \<le> i" "bit x (i - n)" by (auto simp: bit_push_bit_iff)
      with less assms(1) show False by (metis diff_less le_zero_eq not_gr_zero)
    qed
  qed
  then show ?thesis by (intro bit_word_eqI) simp
qed

lemma xor_shift_right_inj:
  fixes x :: "'a::len word"
  assumes "0 < n" "x XOR drop_bit n x = 0"
  shows "x = 0"
proof -
  from assms(2) have eq: "x = drop_bit n x"
    by (metis xor_self_eq bit.xor_left_self xor.right_neutral)
  have "\<not> bit x (LENGTH('a) - 1 - i)" for i
  proof (induction i rule: less_induct)
    case (less i)
    show ?case
    proof
      assume b: "bit x (LENGTH('a) - 1 - i)"
      with eq have "bit x (n + (LENGTH('a) - 1 - i))"
        by (metis bit_drop_bit_eq comp_def)
      then have lt: "n + (LENGTH('a) - 1 - i) < LENGTH('a)" by (rule bit_imp_le_length)
      define j where "j = LENGTH('a) - 1 - (n + (LENGTH('a) - 1 - i))"
      have "j < i" "LENGTH('a) - 1 - j = n + (LENGTH('a) - 1 - i)"
        using lt assms(1) by (auto simp: j_def)
      with less \<open>bit x (n + (LENGTH('a) - 1 - i))\<close> show False by metis
    qed
  qed
  then have "\<not> bit x i" if "i < LENGTH('a)" for i
    using that by (metis diff_diff_cancel One_nat_def Suc_pred' diff_Suc_eq_diff_pred less_Suc_eq_le len_gt_0)
  then show ?thesis by (intro bit_word_eqI) auto
qed

lemma xorshift_nonzero: "x \<noteq> 0 \<Longrightarrow> xorshift x \<noteq> 0"
  unfolding xorshift_def Let_def
  using xor_shift_left_inj [of 13 x] xor_shift_right_inj [of 17 "x XOR push_bit 13 x"]
    xor_shift_left_inj [of 5 "(x XOR push_bit 13 x) XOR drop_bit 17 (x XOR push_bit 13 x)"]
  by auto

lemma jd_random_nonzero: "fst (jd_random seed) \<noteq> 0"
  by (auto simp: jd_random_def Let_def jd_seed_random_def intro!: xorshift_nonzero)

lemma jd_random_seed: "snd (jd_random seed) = fst (jd_random seed)"
  by (simp add: jd_random_def Let_def)

section \<open>Bounds of the randomised delay\<close>

lemma random_mask_le: "random_mask msk v \<le> v"
  by (induction msk v rule: random_mask.induct) (subst random_mask.simps, auto)

lemma jd_random_around_nat:
  "\<exists>k \<le> unat (random_mask 0xfffffff v).
     fst (jd_random_around seed v) =
       of_nat (unat v - unat (random_mask 0xfffffff v) div 2 + k)"
proof -
  define m where "m = random_mask 0xfffffff v"
  define r where "r = fst (jd_random seed)"
  have mv: "m \<le> v" unfolding m_def by (rule random_mask_le)
  have le: "unat (r AND m) \<le> unat m"
    by (metis word_and_le1 word_le_nat_alt)
  have half: "unat (drop_bit 1 m) = unat m div 2"
    by (simp only: unat_drop_bit_eq) (simp add: drop_bit_eq_div)
  have "unat m div 2 \<le> unat v"
    using mv by (simp add: word_le_nat_alt)
  then have "v - drop_bit 1 m = of_nat (unat v - unat m div 2)"
    by (metis half of_nat_diff of_nat_unat ucast_id)
  then have "fst (jd_random_around seed v) = of_nat (unat v - unat m div 2 + unat (r AND m))"
    by (simp add: jd_random_around_def m_def [symmetric] r_def split_beta Let_def)
  with le show ?thesis unfolding m_def by blast
qed

lemma jd_random_around_range:
  assumes "unat v < 2147483648"
  shows "unat v - unat v div 2 \<le> unat (fst (jd_random_around seed v)) \<and>
    unat (fst (jd_random_around seed v)) \<le> unat v + (unat v + 1) div 2"
proof -
  let ?m = "unat (random_mask 0xfffffff v)"
  obtain k where k: "k \<le> ?m"
    and eq: "fst (jd_random_around seed v) = of_nat (unat v - ?m div 2 + k)"
    using jd_random_around_nat by blast
  have mv: "?m \<le> unat v"
    using random_mask_le [of "0xfffffff" v] by (simp add: word_le_nat_alt)
  have up: "unat v - ?m div 2 + k \<le> unat v + (unat v + 1) div 2"
    using k mv by linarith
  with assms have lt: "unat v - ?m div 2 + k < 4294967296"
    by linarith
  have "unat (fst (jd_random_around seed v)) = unat v - ?m div 2 + k"
    unfolding eq unat_of_nat_32 using lt by (rule mod_less)
  with up mv show ?thesis by linarith
qed

section \<open>The wire CRC is CRC-16-CCITT\<close>

text \<open>Reference: one bit at a time, polynomial \<open>0x1021\<close>, most significant bit first, as
  the comment on \<open>jd_crc16\<close> in jd\_util.h says.\<close>

definition crc16_bit :: "16 word \<Rightarrow> 16 word" where
  "crc16_bit c = (if bit c 15 then push_bit 1 c XOR 0x1021 else push_bit 1 c)"

definition crc16_ref_step :: "16 word \<Rightarrow> byte \<Rightarrow> 16 word" where
  "crc16_ref_step crc d = (crc16_bit ^^ 8) (crc XOR push_bit 8 (ucast d))"

definition crc16_ref :: "mem \<Rightarrow> 16 word" where
  "crc16_ref data = foldl crc16_ref_step 0xffff data"

lemma crc16_bit_xor: "crc16_bit (a XOR b) = crc16_bit a XOR crc16_bit b"
  by (auto simp: crc16_bit_def bit_xor_iff push_bit_xor ac_simps)

lemma crc16_bit_funpow_xor:
  "(crc16_bit ^^ n) (a XOR b) = (crc16_bit ^^ n) a XOR (crc16_bit ^^ n) b"
  by (induction n) (simp_all add: crc16_bit_xor)

lemma crc16_bit_low:
  "n \<le> 8 \<Longrightarrow> (crc16_bit ^^ n) (ucast (lo :: byte)) = push_bit n (ucast lo)"
proof (induction n)
  case 0
  then show ?case by simp
next
  case (Suc n)
  then have "\<not> bit (push_bit n (ucast lo :: 16 word)) 15"
    by (auto simp: bit_push_bit_iff bit_unsigned_iff dest: bit_imp_le_length)
  with Suc show ?case by (simp add: crc16_bit_def push_bit_push_bit)
qed

lemma ucast_xor_byte: "(ucast (a XOR b :: byte) :: 16 word) = ucast a XOR ucast b"
  by (rule bit_word_eqI) (auto simp: bit_xor_iff bit_unsigned_iff)

lemma crc16_bit_high:
  "(crc16_bit ^^ 8) (push_bit 8 (ucast (x :: byte))) =
     (let x = x XOR drop_bit 4 x in push_bit 12 (ucast x) XOR push_bit 5 (ucast x) XOR ucast x)"
proof (rule byte_additive_eqI [where f = "\<lambda>x. (crc16_bit ^^ 8) (push_bit 8 (ucast x))"])
  show "list_all (\<lambda>k. (crc16_bit ^^ 8) (push_bit 8 (ucast (push_bit k 1 :: byte))) =
      (let x = push_bit k (1 :: byte) XOR drop_bit 4 (push_bit k 1)
       in push_bit 12 (ucast x) XOR push_bit 5 (ucast x) XOR ucast x)) [0..<8]"
    by (simp add: crc16_bit_def funpow_8 upt_8)
qed (simp_all add: ucast_xor_byte push_bit_xor drop_bit_xor crc16_bit_funpow_xor Let_def ac_simps)

lemma word16_split: "(c :: 16 word) = push_bit 8 (ucast (ucast (drop_bit 8 c) :: byte)) XOR ucast (ucast c :: byte)"
  by (rule bit_word_eqI)
     (auto simp: bit_xor_iff bit_push_bit_iff bit_unsigned_iff bit_drop_bit_eq)

lemma push_bit_8_low: "push_bit 8 (ucast (ucast (c :: 16 word) :: byte)) = push_bit 8 c"
  by (rule bit_word_eqI) (auto simp: bit_push_bit_iff bit_unsigned_iff)

lemma crc16_step_ref: "crc16_step crc d = crc16_ref_step crc d"
proof -
  define hi where "hi = (ucast (drop_bit 8 crc) :: byte)"
  define lo where "lo = (ucast crc :: byte)"
  have "crc XOR push_bit 8 (ucast d) = push_bit 8 (ucast (hi XOR d)) XOR ucast lo"
    by (subst word16_split [of crc]) (simp add: hi_def lo_def ucast_xor_byte push_bit_xor ac_simps)
  then have "crc16_ref_step crc d =
      (crc16_bit ^^ 8) (push_bit 8 (ucast (hi XOR d))) XOR push_bit 8 (ucast lo)"
    by (simp only: crc16_ref_step_def crc16_bit_funpow_xor crc16_bit_low)
  then show ?thesis
    by (simp only: crc16_bit_high)
       (simp add: crc16_step_def Let_def hi_def lo_def push_bit_8_low ac_simps)
qed

lemma jd_crc16_ref: "jd_crc16 data = crc16_ref data"
  by (simp only: jd_crc16_def crc16_ref_def crc16_step_ref [abs_def])

section \<open>Properties\<close>

text \<open>The pseudo-random generator never returns zero and never gets stuck at the zero state,
  from any seed.\<close>

theorem jd_random_never_zero: "fst (jd_random seed) \<noteq> 0 \<and> snd (jd_random seed) \<noteq> 0"
  using jd_random_nonzero [of seed] by (simp add: jd_random_seed)

text \<open>A randomised delay around \<open>v\<close> lies between half of \<open>v\<close> and one and a half times \<open>v\<close>,
  rounded up, without wrap-around.\<close>

theorem jd_random_around_bounds:
  assumes "unat v < 2147483648"
  shows "unat v - unat v div 2 \<le> unat (fst (jd_random_around seed v)) \<and>
    unat (fst (jd_random_around seed v)) \<le> unat v + (unat v + 1) div 2"
  using assms by (rule jd_random_around_range)

theorem jd_random_around_bounds_witness:
  "unat (150 :: 32 word) - unat (150 :: 32 word) div 2 \<le> unat (fst (jd_random_around 9 150)) \<and>
    unat (fst (jd_random_around 9 150)) \<le> unat (150 :: 32 word) + (unat (150 :: 32 word) + 1) div 2"
  by (rule jd_random_around_bounds) simp

text \<open>The nibble-shuffling \<open>jd_crc16\<close> computes CRC-16-CCITT with initial value \<open>0xffff\<close>, for data
  of every length.\<close>

theorem jd_crc16_ccitt: "jd_crc16 data = crc16_ref data"
  by (rule jd_crc16_ref)

end
