(* ===== verification/Jd_Frame.thy ===== *)
theory Jd_Frame
  imports Jd_Util
begin

text \<open>
  The wire frame of inc/jd\_physical.h and the frame operations of source/jd\_util.c.
  \<open>jd_frame_t\<close> and \<open>jd_packet_t\<close> are two views of one buffer: the packet header
  \<open>service_size\<close>, \<open>service_index\<close>, \<open>service_command\<close> is the first four bytes of the
  frame's \<open>data\<close>.  A frame is a record whose \<open>frm_data\<close> is the memory that belongs to the
  buffer (\<open>JD_SERIAL_PAYLOAD_SIZE + 4\<close> bytes for a \<open>jd_frame_t\<close>, fewer for a frame that
  lies in a queue); accesses outside it are \<open>None\<close>.
\<close>

section \<open>Constants\<close>

definition JD_SERIAL_PAYLOAD_SIZE :: nat where "JD_SERIAL_PAYLOAD_SIZE = 236"
definition JD_SERIAL_FULL_HEADER_SIZE :: nat where "JD_SERIAL_FULL_HEADER_SIZE = 16"
definition JD_FRAME_FLAG_COMMAND :: byte where "JD_FRAME_FLAG_COMMAND = 0x01"
definition JD_FRAME_FLAG_ACK_REQUESTED :: byte where "JD_FRAME_FLAG_ACK_REQUESTED = 0x02"
definition JD_FRAME_FLAG_BROADCAST :: byte where "JD_FRAME_FLAG_BROADCAST = 0x04"
definition JD_FRAME_FLAG_LOOPBACK :: byte where "JD_FRAME_FLAG_LOOPBACK = 0x40"
definition JD_FRAME_FLAG_VNEXT :: byte where "JD_FRAME_FLAG_VNEXT = 0x80"
definition JD_SERVICE_INDEX_CONTROL :: nat where "JD_SERVICE_INDEX_CONTROL = 0"
definition JD_SERVICE_INDEX_MASK :: nat where "JD_SERVICE_INDEX_MASK = 0x3f"
definition JD_SERVICE_INDEX_CRC_ACK :: nat where "JD_SERVICE_INDEX_CRC_ACK = 0x3f"
definition JD_SERVICE_INDEX_STREAM :: nat where "JD_SERVICE_INDEX_STREAM = 0x3e"
definition JD_SERVICE_INDEX_BROADCAST :: nat where "JD_SERVICE_INDEX_BROADCAST = 0x3d"
definition JD_SERVICE_INDEX_MAX_NORMAL :: nat where "JD_SERVICE_INDEX_MAX_NORMAL = 0x30"
definition JD_DEVICE_IDENTIFIER_BROADCAST_MARK :: "64 word" where
  "JD_DEVICE_IDENTIFIER_BROADCAST_MARK = 0xAAAAAAAA00000000"

lemmas jd_frame_consts =
  JD_SERIAL_PAYLOAD_SIZE_def JD_SERIAL_FULL_HEADER_SIZE_def JD_FRAME_FLAG_COMMAND_def
  JD_FRAME_FLAG_ACK_REQUESTED_def JD_FRAME_FLAG_BROADCAST_def JD_FRAME_FLAG_LOOPBACK_def
  JD_FRAME_FLAG_VNEXT_def JD_SERVICE_INDEX_CONTROL_def JD_SERVICE_INDEX_MASK_def
  JD_SERVICE_INDEX_CRC_ACK_def JD_SERVICE_INDEX_STREAM_def JD_SERVICE_INDEX_BROADCAST_def
  JD_SERVICE_INDEX_MAX_NORMAL_def JD_DEVICE_IDENTIFIER_BROADCAST_MARK_def

section \<open>Frames\<close>

record jd_frame =
  frm_crc :: "16 word"
  frm_size :: byte
  frm_flags :: byte
  frm_device_identifier :: "64 word"
  frm_data :: mem

definition zero_frame :: jd_frame where
  "zero_frame = \<lparr>frm_crc = 0, frm_size = 0, frm_flags = 0, frm_device_identifier = 0,
     frm_data = replicate (JD_SERIAL_PAYLOAD_SIZE + 4) 0\<rparr>"

definition JD_FRAME_SIZE :: "jd_frame \<Rightarrow> nat" where
  "JD_FRAME_SIZE f = unat (frm_size f) + 12"

definition flag_set :: "jd_frame \<Rightarrow> byte \<Rightarrow> bool" where
  "flag_set f b \<longleftrightarrow> frm_flags f AND b \<noteq> 0"

text \<open>The packed memory image of the struct, and its inverse.\<close>

definition frame_bytes :: "jd_frame \<Rightarrow> mem" where
  "frame_bytes f = le_bytes 2 (frm_crc f) @ [frm_size f, frm_flags f] @
     le_bytes 8 (frm_device_identifier f) @ frm_data f"

definition frame_of_bytes :: "mem \<Rightarrow> jd_frame" where
  "frame_of_bytes m = \<lparr>frm_crc = le_word (take 2 m), frm_size = m ! 2, frm_flags = m ! 3,
     frm_device_identifier = le_word (take 8 (drop 4 m)), frm_data = drop 12 m\<rparr>"

text \<open>The packet header at the start of the data.\<close>

definition pkt_service_size :: "jd_frame \<Rightarrow> nat" where
  "pkt_service_size f = unat (frm_data f ! 0)"

definition pkt_service_index :: "jd_frame \<Rightarrow> nat" where
  "pkt_service_index f = unat (frm_data f ! 1)"

definition pkt_service_command :: "jd_frame \<Rightarrow> nat" where
  "pkt_service_command f = unat (frm_data f ! 2) + 256 * unat (frm_data f ! 3)"

definition pkt_data :: "jd_frame \<Rightarrow> mem" where
  "pkt_data f = take (pkt_service_size f) (drop 4 (frm_data f))"

section \<open>Operations of jd\_util.c\<close>

definition jd_frame_crc_ok :: "jd_frame \<Rightarrow> bool option" where
  "jd_frame_crc_ok f = do {
     d \<leftarrow> rd_mem (frame_bytes f) 2 (JD_FRAME_SIZE f - 2);
     Some (jd_crc16 d = frm_crc f) }"

definition jd_compute_crc :: "jd_frame \<Rightarrow> jd_frame option" where
  "jd_compute_crc f = do {
     d \<leftarrow> rd_mem (frame_bytes f) 2 (JD_FRAME_SIZE f - 2);
     Some (f\<lparr>frm_crc := jd_crc16 d\<rparr>) }"

text \<open>\<open>jd_word_move\<close> copies \<open>numbytes / 4\<close> words from left to right through \<open>uint32_t\<close>
  pointers; source and destination are offsets in one array, so that overlap is as in the
  code.  Dereferencing a misaligned \<open>uint32_t *\<close> is undefined.\<close>

fun word_move_loop :: "mem \<Rightarrow> nat \<Rightarrow> nat \<Rightarrow> nat \<Rightarrow> mem option" where
  "word_move_loop m dp sp 0 = Some m"
| "word_move_loop m dp sp (Suc n) = do {
     w \<leftarrow> rd_mem m sp 4;
     m \<leftarrow> wr_mem m dp w;
     word_move_loop m (dp + 4) (sp + 4) n }"

definition jd_word_move :: "mem \<Rightarrow> nat \<Rightarrow> nat \<Rightarrow> nat \<Rightarrow> mem option" where
  "jd_word_move m dst src numbytes =
     (if numbytes div 4 = 0 then Some m
      else if dst mod 4 = 0 \<and> src mod 4 = 0 then word_move_loop m dst src (numbytes div 4)
      else None)"

definition jd_shift_frame :: "jd_frame \<Rightarrow> (bool \<times> jd_frame) option" where
  "jd_shift_frame frame = do {
     let psize = unat (frm_size frame);
     sz \<leftarrow> rd8 (frm_data frame) 0;
     let oldsz = unat sz + 4;
     if align4 oldsz \<ge> psize then Some (False, frame)
     else do {
       mark \<leftarrow> rd8 (frm_data frame) oldsz;
       ptr \<leftarrow> (if mark = 0xff then map_option unat (rd8 (frm_data frame) (oldsz + 1))
              else Some (align4 oldsz));
       if mark = 0xff \<and> (ptr \<ge> psize \<or> ptr \<le> oldsz) then Some (False, frame)
       else do {
         let frame = frame\<lparr>frm_flags := frm_flags frame AND NOT JD_FRAME_FLAG_ACK_REQUESTED\<rparr>;
         src \<leftarrow> rd8 (frm_data frame) ptr;
         let newsz = unat src + 4;
         if ptr + newsz > psize then Some (False, frame)
         else do {
           d \<leftarrow> jd_word_move (frm_data frame) 0 ptr (newsz + 3);
           d \<leftarrow> wr8 d newsz 0xff;
           d \<leftarrow> wr8 d (newsz + 1) (of_nat (ptr + align4 newsz));
           Some (True, frame\<lparr>frm_data := d\<rparr>)
         }
       }
     } }"

definition jd_pkt_set_broadcast :: "jd_frame \<Rightarrow> 32 word \<Rightarrow> jd_frame option" where
  "jd_pkt_set_broadcast f service_class = do {
     d \<leftarrow> wr8 (frm_data f) 1 (of_nat JD_SERVICE_INDEX_BROADCAST);
     Some (f\<lparr>frm_flags := frm_flags f OR JD_FRAME_FLAG_BROADCAST,
             frm_device_identifier := ucast service_class OR JD_DEVICE_IDENTIFIER_BROADCAST_MARK,
             frm_data := d\<rparr>) }"

definition jd_reset_frame :: "jd_frame \<Rightarrow> jd_frame" where
  "jd_reset_frame f = f\<lparr>frm_size := 0\<rparr>"

text \<open>The four header bytes, as the four \<open>*dst++\<close> stores write them.\<close>

definition pkt_header :: "nat \<Rightarrow> nat \<Rightarrow> nat \<Rightarrow> mem" where
  "pkt_header service_size service_num service_cmd =
     [of_nat service_size, of_nat service_num, of_nat (service_cmd mod 256),
      of_nat (service_cmd div 256)]"

lemma length_pkt_header [simp]: "length (pkt_header n s c) = 4"
  by (simp add: pkt_header_def)

text \<open>\<open>jd_push_in_frame\<close> writes the packet header and returns the offset of the payload,
  or \<open>NULL\<close> (inner \<open>None\<close>) when the packet does not fit.  \<open>szLeft\<close> and
  \<open>service_size + 4\<close> are \<open>unsigned\<close>.\<close>

definition jd_push_in_frame :: "jd_frame \<Rightarrow> nat \<Rightarrow> nat \<Rightarrow> nat \<Rightarrow> (jd_frame \<times> nat option) option" where
  "jd_push_in_frame frame service_num service_cmd service_size =
     (if service_num div 256 \<noteq> 0 then None
      else if service_cmd div 65536 \<noteq> 0 then None
      else (let dst = unat (frm_size frame);
                szLeft = sub32 JD_SERIAL_PAYLOAD_SIZE dst in
        if u32 (service_size + 4) > szLeft then Some (frame, None)
        else do {
          d \<leftarrow> wr_mem (frm_data frame) dst (pkt_header service_size service_num service_cmd);
          Some (frame\<lparr>frm_data := d,
                  frm_size := frm_size frame + of_nat (align4 (u32 (service_size + 4)))\<rparr>,
                Some (dst + 4)) }))"

text \<open>The loop \<open>for (;;) { handle; if (!jd_shift_frame(frame)) break; }\<close> of
  \<open>jd_services_process_frame\<close>, as the list of the frames its body sees.\<close>

fun frame_loop :: "nat \<Rightarrow> jd_frame \<Rightarrow> jd_frame list option" where
  "frame_loop 0 f = None"
| "frame_loop (Suc n) f = do {
     (more, f') \<leftarrow> jd_shift_frame f;
     if more then do { rest \<leftarrow> frame_loop n f'; Some (f # rest) } else Some [f] }"

section \<open>The word copy is a memmove\<close>

lemma word_move_loop_patch:
  assumes "dp \<le> sp" "sp + 4 * n \<le> length m"
  shows "word_move_loop m dp sp n = Some (patch m dp (take (4 * n) (drop sp m)))"
  using assms
proof (induction n arbitrary: m dp sp)
  case 0
  then show ?case by simp
next
  case (Suc n)
  let ?w = "take 4 (drop sp m)"
  let ?m = "patch m dp ?w"
  have w: "length ?w = 4" and len: "length ?m = length m"
    using Suc.prems by auto
  have "word_move_loop ?m (dp + 4) (sp + 4) n = Some (patch ?m (dp + 4) (take (4 * n) (drop (sp + 4) ?m)))"
    using Suc.prems len by (intro Suc.IH) simp_all
  moreover have "take (4 * n) (drop (sp + 4) ?m) = take (4 * n) (drop (sp + 4) m)"
    using Suc.prems w by (intro take_drop_patch_disjoint) simp_all
  moreover have "patch ?m (dp + 4) (take (4 * n) (drop (sp + 4) m)) =
      patch m dp (?w @ take (4 * n) (drop (sp + 4) m))"
    using patch_patch_append [of dp ?w "take (4 * n) (drop (sp + 4) m)" m] Suc.prems w by simp
  moreover have "?w @ take (4 * n) (drop (sp + 4) m) = take (4 * Suc n) (drop sp m)"
    by (metis drop_drop add.commute mult_Suc_right take_append_take_drop)
  ultimately show ?case using Suc.prems w by simp
qed

lemma jd_word_move_patch:
  assumes "dst \<le> src" "4 dvd dst" "4 dvd src" "src + n div 4 * 4 \<le> length m"
  shows "jd_word_move m dst src n = Some (patch m dst (take (n div 4 * 4) (drop src m)))"
  using assms word_move_loop_patch [of dst src "n div 4" m]
  by (auto simp: jd_word_move_def mult.commute)

section \<open>One step of the packet loop\<close>

definition pkt_size :: "jd_frame \<Rightarrow> nat" where
  "pkt_size f = pkt_service_size f + 4"

definition pkt_bytes :: "jd_frame \<Rightarrow> mem" where
  "pkt_bytes f = take (pkt_size f) (frm_data f)"

text \<open>A frame buffer that covers the declared size, rounded up to words.\<close>

definition frame_ok :: "jd_frame \<Rightarrow> bool" where
  "frame_ok f \<longleftrightarrow> unat (frm_size f) \<le> 240 \<and> align4 (unat (frm_size f)) \<le> length (frm_data f) \<and>
     4 \<le> length (frm_data f)"

text \<open>Where the next packet starts: behind the current one, or where a skip mark says.\<close>

definition skip_marked :: "jd_frame \<Rightarrow> bool" where
  "skip_marked f \<longleftrightarrow> align4 (pkt_size f) < unat (frm_size f) \<and> frm_data f ! pkt_size f = 0xff"

definition next_ptr :: "jd_frame \<Rightarrow> nat" where
  "next_ptr f = (if skip_marked f then unat (frm_data f ! (pkt_size f + 1)) else align4 (pkt_size f))"

definition skip_ok :: "jd_frame \<Rightarrow> bool" where
  "skip_ok f \<longleftrightarrow> 4 dvd next_ptr f \<and> (skip_marked f \<longrightarrow> pkt_size f < next_ptr f)"

definition shifted :: "jd_frame \<Rightarrow> jd_frame" where
  "shifted f = (let p = next_ptr f; n = unat (frm_data f ! p) + 4 in
     f\<lparr>frm_flags := frm_flags f AND NOT JD_FRAME_FLAG_ACK_REQUESTED,
       frm_data := (patch (frm_data f) 0 (take (align4 n) (drop p (frm_data f))))
         [n := 0xff, n + 1 := of_nat (p + align4 n)]\<rparr>)"

lemma not_skip_marked_ok: "\<not> skip_marked f \<Longrightarrow> skip_ok f"
  by (simp add: skip_ok_def next_ptr_def align4_dvd)

lemma next_ptr_ge: "skip_ok f \<Longrightarrow> pkt_size f \<le> next_ptr f"
  by (auto simp: skip_ok_def next_ptr_def align4_ge split: if_splits)

lemma pkt_size_ge: "4 \<le> pkt_size f"
  by (simp add: pkt_size_def)

lemma frame_ok_index:
  assumes "frame_ok f" "i < align4 (unat (frm_size f))"
  shows "i < length (frm_data f)"
  using assms by (simp add: frame_ok_def)

lemma rd8_size: "frame_ok f \<Longrightarrow> rd8 (frm_data f) 0 = Some (frm_data f ! 0)"
  by (rule rd8_Some) (auto simp: frame_ok_def)

lemma jd_shift_frame_end:
  assumes "frame_ok f" "skip_ok f" "unat (frm_size f) \<le> next_ptr f"
  shows "jd_shift_frame f = Some (False, f)"
proof (cases "align4 (pkt_size f) < unat (frm_size f)")
  case False
  then show ?thesis
    using rd8_size [OF assms(1)]
    by (simp add: jd_shift_frame_def pkt_size_def pkt_service_size_def)
next
  case True
  with assms have m: "skip_marked f"
    by (auto simp: next_ptr_def split: if_splits)
  have "pkt_size f + 1 < length (frm_data f)"
    using frame_ok_index [OF assms(1), of "pkt_size f + 1"] align4_gap [OF True]
      align4_ge [of "pkt_size f"] by simp
  with m True assms show ?thesis
    using rd8_size [OF assms(1)]
    by (simp add: jd_shift_frame_def skip_marked_def next_ptr_def pkt_size_def pkt_service_size_def)
qed

lemma next_ptr_inner:
  assumes "frame_ok f" "skip_ok f" "next_ptr f < unat (frm_size f)"
  shows "align4 (pkt_size f) < unat (frm_size f)" "pkt_size f + 1 < length (frm_data f)"
    "next_ptr f < length (frm_data f)"
proof -
  show a: "align4 (pkt_size f) < unat (frm_size f)"
    using assms by (auto simp: next_ptr_def skip_marked_def split: if_splits)
  then show "pkt_size f + 1 < length (frm_data f)"
    using frame_ok_index [OF assms(1), of "pkt_size f + 1"] align4_gap [OF a]
      align4_ge [of "pkt_size f"] by simp
  show "next_ptr f < length (frm_data f)"
    using frame_ok_index [OF assms(1), of "next_ptr f"] assms(3) align4_ge [of "unat (frm_size f)"]
    by simp
qed

lemma jd_shift_frame_unfold:
  assumes "frame_ok f" "skip_ok f" "next_ptr f < unat (frm_size f)"
  shows "jd_shift_frame f =
    (let p = next_ptr f; n = unat (frm_data f ! p) + 4;
         f1 = f\<lparr>frm_flags := frm_flags f AND NOT JD_FRAME_FLAG_ACK_REQUESTED\<rparr> in
     if p + n > unat (frm_size f) then Some (False, f1)
     else do {
       d \<leftarrow> jd_word_move (frm_data f) 0 p (n + 3);
       d \<leftarrow> wr8 d n 0xff;
       d \<leftarrow> wr8 d (n + 1) (of_nat (p + align4 n));
       Some (True, f1\<lparr>frm_data := d\<rparr>) })"
proof -
  note in_range = next_ptr_inner [OF assms]
  have ne: "skip_marked f \<longleftrightarrow> frm_data f ! pkt_size f = 0xff"
    using in_range(1) by (simp add: skip_marked_def)
  have r: "rd8 (frm_data f) (pkt_size f) = Some (frm_data f ! pkt_size f)"
    "rd8 (frm_data f) (next_ptr f) = Some (frm_data f ! next_ptr f)"
    using in_range by simp_all
  have ps: "unat (frm_data f ! 0) + 4 = pkt_size f"
    by (simp add: pkt_size_def pkt_service_size_def)
  show ?thesis
  proof (cases "skip_marked f")
    case True
    with in_range have "rd8 (frm_data f) (Suc (pkt_size f)) = Some (frm_data f ! Suc (pkt_size f))"
      "unat (frm_data f ! Suc (pkt_size f)) = next_ptr f"
      by (simp_all add: next_ptr_def)
    with True assms in_range(1) r show ?thesis
      by (simp only: jd_shift_frame_def Let_def rd8_size [OF assms(1)] Option.bind_lunit ps)
         (simp add: ne skip_ok_def add_ac)
  next
    case False
    then have "align4 (pkt_size f) = next_ptr f"
      by (simp add: next_ptr_def)
    with False in_range(1) r show ?thesis
      by (simp only: jd_shift_frame_def Let_def rd8_size [OF assms(1)] Option.bind_lunit ps)
         (simp add: ne add_ac)
  qed
qed

lemma shifted_simps [simp]:
  "frm_size (shifted f) = frm_size f" "length (frm_data (shifted f)) = length (patch (frm_data f) 0
     (take (align4 (unat (frm_data f ! next_ptr f) + 4)) (drop (next_ptr f) (frm_data f))))"
  "frm_device_identifier (shifted f) = frm_device_identifier f" "frm_crc (shifted f) = frm_crc f"
  by (simp_all add: shifted_def Let_def)

text \<open>The bounds that hold when the next packet lies inside the declared size.\<close>

lemma shift_bounds:
  assumes "frame_ok f" "skip_ok f" "n = unat (frm_data f ! next_ptr f) + 4"
    "next_ptr f + n \<le> unat (frm_size f)"
  shows "4 \<le> next_ptr f" "next_ptr f + align4 n \<le> length (frm_data f)"
    "next_ptr f + align4 n \<le> align4 (unat (frm_size f))" "n + 1 < length (frm_data f)"
    "align4 n < unat (frm_size f)" "next_ptr f + align4 n < 256"
proof -
  show p4: "4 \<le> next_ptr f"
    using next_ptr_ge [OF assms(2)] pkt_size_ge [of f] by simp
  have d: "4 dvd next_ptr f" using assms(2) by (simp add: skip_ok_def)
  have "align4 (next_ptr f + n) \<le> align4 (unat (frm_size f))"
    using assms(4) by (rule align4_mono)
  then show le: "next_ptr f + align4 n \<le> align4 (unat (frm_size f))"
    using align4_add [OF d] by simp
  then show "next_ptr f + align4 n \<le> length (frm_data f)"
    using assms(1) by (simp add: frame_ok_def)
  then show "n + 1 < length (frm_data f)"
    using p4 align4_ge [of n] by simp
  show "align4 n < unat (frm_size f)"
    using le p4 align4_lt [of "unat (frm_size f)"] by simp
  show "next_ptr f + align4 n < 256"
    using le assms(1) align4_lt [of "unat (frm_size f)"] by (simp add: frame_ok_def)
qed

lemma jd_shift_frame_step:
  assumes "frame_ok f" "skip_ok f" "n = unat (frm_data f ! next_ptr f) + 4"
    "next_ptr f + n \<le> unat (frm_size f)"
  shows "jd_shift_frame f = Some (True, shifted f)"
proof -
  note b = shift_bounds [OF assms]
  have lt: "next_ptr f < unat (frm_size f)" using assms(3,4) by simp
  have "jd_word_move (frm_data f) 0 (next_ptr f) (n + 3) =
      Some (patch (frm_data f) 0 (take (align4 n) (drop (next_ptr f) (frm_data f))))"
    using jd_word_move_patch [of 0 "next_ptr f" "n + 3" "frm_data f"] b assms(2)
    by (simp add: align4_def skip_ok_def)
  with assms(3,4) b show ?thesis
    unfolding jd_shift_frame_unfold [OF assms(1,2) lt]
    by (simp add: shifted_def Let_def)
qed

lemma jd_shift_frame_truncated:
  assumes "frame_ok f" "skip_ok f" "next_ptr f < unat (frm_size f)"
    "unat (frm_size f) < next_ptr f + (unat (frm_data f ! next_ptr f) + 4)"
  shows "jd_shift_frame f =
    Some (False, f\<lparr>frm_flags := frm_flags f AND NOT JD_FRAME_FLAG_ACK_REQUESTED\<rparr>)"
  using assms(4) by (simp add: jd_shift_frame_unfold [OF assms(1-3)] Let_def)

text \<open>What the shifted buffer holds: the next packet in front, the skip mark behind it,
  and everything from the packet after it unchanged.\<close>

lemma shifted_data:
  assumes "frame_ok f" "skip_ok f" "n = unat (frm_data f ! next_ptr f) + 4"
    "next_ptr f + n \<le> unat (frm_size f)"
  shows "length (frm_data (shifted f)) = length (frm_data f)"
    "i < n \<Longrightarrow> frm_data (shifted f) ! i = frm_data f ! (next_ptr f + i)"
    "frm_data (shifted f) ! n = 0xff"
    "frm_data (shifted f) ! (n + 1) = of_nat (next_ptr f + align4 n)"
    "next_ptr f + align4 n \<le> i \<Longrightarrow> i < length (frm_data f) \<Longrightarrow>
       frm_data (shifted f) ! i = frm_data f ! i"
proof -
  note b = shift_bounds [OF assms]
  let ?w = "take (align4 n) (drop (next_ptr f) (frm_data f))"
  have w: "length ?w = align4 n" using b by simp
  have d: "frm_data (shifted f) =
      (patch (frm_data f) 0 ?w)[n := 0xff, n + 1 := of_nat (next_ptr f + align4 n)]"
    by (simp add: shifted_def Let_def assms(3))
  have lp: "length (patch (frm_data f) 0 ?w) = length (frm_data f)"
    using w b by (intro length_patch) simp
  show "length (frm_data (shifted f)) = length (frm_data f)"
    by (simp only: d length_list_update lp)
  show "frm_data (shifted f) ! n = 0xff" "frm_data (shifted f) ! (n + 1) = of_nat (next_ptr f + align4 n)"
    using b by (simp_all add: d lp del: of_nat_add)
  show "frm_data (shifted f) ! i = frm_data f ! (next_ptr f + i)" if "i < n"
    using that b align4_ge [of n] w by (simp add: d patch_nth)
  show "frm_data (shifted f) ! i = frm_data f ! i"
    if "next_ptr f + align4 n \<le> i" "i < length (frm_data f)"
    using that b align4_ge [of n] w by (simp add: d patch_nth)
qed

lemma shifted_ok:
  assumes "frame_ok f" "skip_ok f" "n = unat (frm_data f ! next_ptr f) + 4"
    "next_ptr f + n \<le> unat (frm_size f)"
  shows "frame_ok (shifted f)" "pkt_size (shifted f) = n" "skip_marked (shifted f)"
    "next_ptr (shifted f) = next_ptr f + align4 n" "skip_ok (shifted f)"
proof -
  note b = shift_bounds [OF assms] and s = shifted_data [OF assms]
  show "frame_ok (shifted f)"
    using assms(1) s(1) by (simp add: frame_ok_def del: shifted_simps(2))
  show ps: "pkt_size (shifted f) = n"
    using s(2) [of 0] assms(3) by (simp add: pkt_size_def pkt_service_size_def)
  show m: "skip_marked (shifted f)"
    using b(5) s(3) by (simp add: skip_marked_def ps)
  show np: "next_ptr (shifted f) = next_ptr f + align4 n"
    using m s(4) b(6) by (simp only: next_ptr_def if_True ps unat_of_nat_byte) simp
  show "skip_ok (shifted f)"
    using assms(2) b(1) align4_ge [of n] by (simp add: skip_ok_def np ps align4_dvd)
qed

section \<open>The packet loop ends on every frame\<close>

lemma frame_loop_total:
  assumes "frame_ok f" "skip_ok f" "unat (frm_size f) \<le> next_ptr f + 4 * n"
  shows "\<exists>fs. frame_loop (Suc n) f = Some fs"
  using assms
proof (induction n arbitrary: f)
  case 0
  then show ?case by (simp add: jd_shift_frame_end)
next
  case (Suc n)
  define k where "k = unat (frm_data f ! next_ptr f) + 4"
  consider "unat (frm_size f) \<le> next_ptr f"
    | "next_ptr f < unat (frm_size f)" "unat (frm_size f) < next_ptr f + k"
    | "next_ptr f + k \<le> unat (frm_size f)" by linarith
  then show ?case
  proof cases
    case 1
    with Suc.prems show ?thesis by (simp add: jd_shift_frame_end)
  next
    case 2
    with Suc.prems show ?thesis by (simp add: jd_shift_frame_truncated k_def)
  next
    case 3
    note ok = shifted_ok [OF Suc.prems(1,2) k_def 3]
    have "4 \<le> align4 k" using align4_ge [of k] by (simp add: k_def)
    then have "unat (frm_size (shifted f)) \<le> next_ptr (shifted f) + 4 * n"
      using Suc.prems(3) by (simp add: ok(4))
    then obtain fs where "frame_loop (Suc n) (shifted f) = Some fs"
      using Suc.IH [OF ok(1,5)] by blast
    then show ?thesis
      using jd_shift_frame_step [OF Suc.prems(1,2) k_def 3]
      by (subst frame_loop.simps(2)) (simp del: frame_loop.simps)
  qed
qed

section \<open>Frames hold sequences of packets\<close>

text \<open>\<open>packets_at D p e bs\<close>: the packets \<open>bs\<close> (header and payload bytes) lie one after the
  other in \<open>D\<close>, word aligned, from offset \<open>p\<close> up to the end \<open>e\<close>.\<close>

fun packets_at :: "mem \<Rightarrow> nat \<Rightarrow> nat \<Rightarrow> mem list \<Rightarrow> bool" where
  "packets_at D p e [] \<longleftrightarrow> e \<le> p"
| "packets_at D p e (b # bs) \<longleftrightarrow>
     4 \<le> length b \<and> p + length b \<le> e \<and> take (length b) (drop p D) = b \<and>
     unat (b ! 0) + 4 = length b \<and> packets_at D (p + align4 (length b)) e bs"

lemma packets_at_cong:
  assumes "packets_at D p e bs" "e \<le> length D" "\<And>i. p \<le> i \<Longrightarrow> i < e \<Longrightarrow> D' ! i = D ! i" "e \<le> length D'"
  shows "packets_at D' p e bs"
  using assms
proof (induction bs arbitrary: p)
  case Nil
  then show ?case by simp
next
  case (Cons b bs)
  have "p + length b \<le> e" using Cons.prems(1) by simp
  then have "take (length b) (drop p D') = take (length b) (drop p D)"
    using Cons.prems(2-4) by (intro nth_equalityI) simp_all
  moreover have "packets_at D' (p + align4 (length b)) e bs"
    using Cons.prems by (intro Cons.IH) auto
  ultimately show ?case using Cons.prems(1) by simp
qed

lemma packets_at_snoc:
  assumes "packets_at D p e bs" "4 dvd p" "4 dvd e" "p \<le> e"
    "4 \<le> length c" "unat (c ! 0) + 4 = length c" "take (length c) (drop e D) = c"
    "e + length c \<le> e'" "e' \<le> e + align4 (length c)"
  shows "packets_at D p e' (bs @ [c])"
  using assms
proof (induction bs arbitrary: p)
  case Nil
  then show ?case by simp
next
  case (Cons b bs)
  then have "align4 (p + length b) \<le> e"
    by (intro align4_least) auto
  then have "p + align4 (length b) \<le> e"
    using align4_add [OF Cons.prems(2)] by simp
  then have "packets_at D (p + align4 (length b)) e' (bs @ [c])"
    using Cons.prems by (intro Cons.IH) (auto simp: align4_dvd)
  then show ?case using Cons.prems by simp
qed

text \<open>The loop delivers exactly the packets of the frame, in order.\<close>

lemma frame_loop_packets:
  assumes "frame_ok f" "skip_ok f" "length (frm_data f) = length D"
    "\<And>i. next_ptr f \<le> i \<Longrightarrow> i < length D \<Longrightarrow> frm_data f ! i = D ! i"
    "packets_at D (next_ptr f) (unat (frm_size f)) bs"
  shows "\<exists>fs. frame_loop (Suc (length bs)) f = Some fs \<and> map pkt_bytes fs = pkt_bytes f # bs"
  using assms
proof (induction bs arbitrary: f)
  case Nil
  then show ?case by (simp add: jd_shift_frame_end)
next
  case (Cons c cs)
  let ?p = "next_ptr f"
  define n where "n = unat (frm_data f ! ?p) + 4"
  have inD: "?p + length c \<le> length D"
    using Cons.prems(1,3,5) align4_ge [of "unat (frm_size f)"] by (simp add: frame_ok_def)
  have c: "take (length c) (drop ?p D) = c" "4 \<le> length c" using Cons.prems(5) by simp_all
  then have nth_c: "D ! (?p + i) = c ! i" if "i < length c" for i
    using that inD by (metis nth_take nth_drop add_leD1)
  have nc: "n = length c"
    using Cons.prems(5) nth_c [of 0] Cons.prems(4) [of ?p] inD c(2)
    by (cases "c = []") (auto simp: n_def)
  then have fit: "?p + n \<le> unat (frm_size f)" using Cons.prems(5) by simp
  note step = jd_shift_frame_step [OF Cons.prems(1,2) n_def fit]
    and ok = shifted_ok [OF Cons.prems(1,2) n_def fit]
    and sd = shifted_data [OF Cons.prems(1,2) n_def fit]
  have "pkt_bytes (shifted f) = c"
  proof (rule nth_equalityI)
    show "length (pkt_bytes (shifted f)) = length c"
      using sd(1) inD Cons.prems(3) by (simp add: pkt_bytes_def ok(2) nc)
    show "pkt_bytes (shifted f) ! i = c ! i" if "i < length (pkt_bytes (shifted f))" for i
      using that sd(2) [of i] nth_c [of i] Cons.prems(4) [of "?p + i"] inD
      by (simp add: pkt_bytes_def ok(2) nc)
  qed
  moreover have "\<exists>fs. frame_loop (Suc (length cs)) (shifted f) = Some fs \<and>
      map pkt_bytes fs = pkt_bytes (shifted f) # cs"
  proof (rule Cons.IH [OF ok(1,5)])
    show "length (frm_data (shifted f)) = length D" using sd(1) Cons.prems(3) by simp
    show "frm_data (shifted f) ! i = D ! i" if "next_ptr (shifted f) \<le> i" "i < length D" for i
      using that sd(5) [of i] Cons.prems(3) Cons.prems(4) [of i] by (simp add: ok(4))
    show "packets_at D (next_ptr (shifted f)) (unat (frm_size (shifted f))) cs"
      using Cons.prems(5) by (simp add: ok(4) nc)
  qed
  ultimately show ?case
    using step by (subst frame_loop.simps(2)) (auto simp del: frame_loop.simps)
qed

section \<open>Building a frame\<close>

text \<open>The use of \<open>jd_push_in_frame\<close> that \<open>jd_send\<close> and \<open>jd_opipe_write_ex\<close> share: reserve
  the header, then copy the payload to the returned address.  The flag is false when the
  packet did not fit.\<close>

definition frame_append :: "jd_frame \<Rightarrow> nat \<Rightarrow> nat \<Rightarrow> mem \<Rightarrow> (jd_frame \<times> bool) option" where
  "frame_append f num cmd payload = do {
     (f, trg) \<leftarrow> jd_push_in_frame f num cmd (length payload);
     case trg of None \<Rightarrow> Some (f, False)
     | Some off \<Rightarrow> do {
         d \<leftarrow> wr_mem (frm_data f) off payload;
         Some (f\<lparr>frm_data := d\<rparr>, True) } }"

definition pkt_image :: "nat \<Rightarrow> nat \<Rightarrow> mem \<Rightarrow> mem" where
  "pkt_image num cmd payload = pkt_header (length payload) num cmd @ payload"

lemma length_pkt_image [simp]: "length (pkt_image num cmd payload) = length payload + 4"
  by (simp add: pkt_image_def)

lemma pkt_image_0 [simp]: "pkt_image num cmd payload ! 0 = of_nat (length payload)"
  by (simp add: pkt_image_def pkt_header_def)

definition appended :: "jd_frame \<Rightarrow> nat \<Rightarrow> nat \<Rightarrow> mem \<Rightarrow> jd_frame" where
  "appended f num cmd payload =
     f\<lparr>frm_data := patch (frm_data f) (unat (frm_size f)) (pkt_image num cmd payload),
       frm_size := frm_size f + of_nat (align4 (length payload + 4))\<rparr>"

text \<open>The invariant of a frame under construction.\<close>

definition acc_ok :: "jd_frame \<Rightarrow> bool" where
  "acc_ok f \<longleftrightarrow> length (frm_data f) = 240 \<and> unat (frm_size f) \<le> 236 \<and> 4 dvd unat (frm_size f)"

lemma acc_ok_frame_ok: "acc_ok f \<Longrightarrow> frame_ok f"
  by (auto simp: acc_ok_def frame_ok_def align4_id)

lemma align4_236: "n \<le> 236 \<Longrightarrow> align4 n \<le> 236"
  by (rule align4_least) simp_all

lemma frame_append_fits:
  assumes "acc_ok f" "num < 256" "cmd < 65536" "unat (frm_size f) + 4 + length payload \<le> 236"
  shows "frame_append f num cmd payload = Some (appended f num cmd payload, True)"
    "acc_ok (appended f num cmd payload)"
    "unat (frm_size (appended f num cmd payload)) = unat (frm_size f) + align4 (length payload + 4)"
proof -
  let ?f = "appended f num cmd payload"
  let ?s = "unat (frm_size f)" and ?h = "pkt_header (length payload) num cmd"
  have d: "length (frm_data f) = 240" and s: "?s \<le> 236" "4 dvd ?s"
    using assms(1) by (auto simp: acc_ok_def)
  have sub: "sub32 JD_SERIAL_PAYLOAD_SIZE ?s = 236 - ?s"
    using s by (simp add: JD_SERIAL_PAYLOAD_SIZE_def sub32_le)
  have pp: "patch (patch (frm_data f) ?s ?h) (?s + 4) payload =
      patch (frm_data f) ?s (pkt_image num cmd payload)"
    using patch_patch_append [of ?s ?h payload "frm_data f"] assms(4) d
    by (simp add: pkt_image_def)
  have num: "num div 256 = 0" "cmd div 65536 = 0" using assms(2,3) by simp_all
  show "frame_append f num cmd payload = Some (?f, True)"
    using assms(4) d s pp num
    by (simp add: frame_append_def jd_push_in_frame_def appended_def sub Let_def del: div_eq_0_iff)
  have "align4 (?s + (length payload + 4)) \<le> 236"
    using assms(4) by (intro align4_236) simp
  then have le: "?s + align4 (length payload + 4) \<le> 236"
    using align4_add [OF s(2)] by simp
  have "unat (frm_size f + of_nat (align4 (length payload + 4))) =
      (?s + align4 (length payload + 4)) mod 256"
    by (simp add: unat_word_ariths unat_of_nat_byte mod_simps)
  with le show sz: "unat (frm_size ?f) = ?s + align4 (length payload + 4)"
    by (simp add: appended_def)
  show "acc_ok ?f"
    using le s d sz assms(4) by (simp add: acc_ok_def align4_dvd appended_def)
qed

lemma frame_append_full:
  assumes "acc_ok f" "num < 256" "cmd < 65536" "length payload < 4294967292"
    "236 < unat (frm_size f) + 4 + length payload"
  shows "frame_append f num cmd payload = Some (f, False)"
proof -
  have "unat (frm_size f) \<le> 236" using assms(1) by (simp add: acc_ok_def)
  then have "sub32 JD_SERIAL_PAYLOAD_SIZE (unat (frm_size f)) < u32 (length payload + 4)"
    using assms(4,5) by (simp add: JD_SERIAL_PAYLOAD_SIZE_def sub32_le)
  then show ?thesis
    using assms(2,3) by (simp add: frame_append_def jd_push_in_frame_def Let_def)
qed

lemma frame_append_packets:
  assumes "acc_ok f" "num < 256" "cmd < 65536" "unat (frm_size f) + 4 + length payload \<le> 236"
    "packets_at (frm_data f) 0 (unat (frm_size f)) bs"
    "frame_append f num cmd payload = Some (f', True)"
  shows "packets_at (frm_data f') 0 (unat (frm_size f')) (bs @ [pkt_image num cmd payload])"
proof -
  note a = frame_append_fits [OF assms(1-4)]
  let ?s = "unat (frm_size f)" and ?c = "pkt_image num cmd payload"
  have f': "frm_data f' = patch (frm_data f) ?s ?c" "unat (frm_size f') = ?s + align4 (length ?c)"
    using a assms(6) by (simp_all add: appended_def)
  have len: "?s + length ?c \<le> length (frm_data f)" and d: "4 dvd ?s" "?s \<le> length (frm_data f)"
    using assms(1,4) by (auto simp: acc_ok_def)
  have "packets_at (frm_data f') 0 ?s bs"
    unfolding f' using assms(5) len d by (intro packets_at_cong [OF assms(5)]) (auto simp: patch_nth)
  then show ?thesis
    using len d assms(4) take_drop_patch_same [OF len]
    by (intro packets_at_snoc) (auto simp: f' align4_ge unat_of_nat_byte)
qed

section \<open>Properties\<close>



text \<open>Packets put into a frame one after the other, as successive calls of \<open>jd_send\<close> do.\<close>

fun frame_append_all :: "jd_frame \<Rightarrow> (nat \<times> nat \<times> mem) list \<Rightarrow> jd_frame option" where
  "frame_append_all f [] = Some f"
| "frame_append_all f ((num, cmd, payload) # ps) = do {
     (f, ok) \<leftarrow> frame_append f num cmd payload;
     if ok then frame_append_all f ps else None }"

fun pkt_valid :: "nat \<times> nat \<times> mem \<Rightarrow> bool" where
  "pkt_valid (num, cmd, payload) \<longleftrightarrow> num < 256 \<and> cmd < 65536 \<and> length payload \<le> 255"

lemma frame_append_all_packets:
  "acc_ok f \<Longrightarrow> list_all pkt_valid ps \<Longrightarrow> packets_at (frm_data f) 0 (unat (frm_size f)) bs \<Longrightarrow>
     frame_append_all f ps = Some g \<Longrightarrow>
     acc_ok g \<and> packets_at (frm_data g) 0 (unat (frm_size g)) (bs @ map (\<lambda>(n, c, d). pkt_image n c d) ps)"
proof (induction ps arbitrary: f bs)
  case Nil
  then show ?case by simp
next
  case (Cons p ps)
  obtain n c d where p: "p = (n, c, d)" by (cases p)
  with Cons.prems(2) have v: "n < 256" "c < 65536" "length d \<le> 255" by simp_all
  have fits: "unat (frm_size f) + 4 + length d \<le> 236"
  proof (rule ccontr)
    assume "\<not> ?thesis"
    then have "frame_append f n c d = Some (f, False)" using Cons.prems(1) v by (intro frame_append_full) simp_all
    with Cons.prems(4) p show False by simp
  qed
  note a = frame_append_fits [OF Cons.prems(1) v(1,2) fits]
  from frame_append_packets [OF Cons.prems(1) v(1,2) fits Cons.prems(3) a(1)]
    Cons.IH [OF a(2), of "bs @ [pkt_image n c d]"] Cons.prems(2,4) p a(1)
  show ?case by simp
qed

lemma frame_loop_append_all:
  assumes "acc_ok f" "frm_size f = 0" "ps \<noteq> []" "list_all pkt_valid ps"
    and "frame_append_all f ps = Some g" "\<not> skip_marked g"
  shows "\<exists>fs. frame_loop (length ps) g = Some fs \<and> map pkt_bytes fs = map (\<lambda>(n, c, d). pkt_image n c d) ps"
proof -
  let ?bs = "map (\<lambda>(n, c, d). pkt_image n c d) ps"
  have g: "acc_ok g" "packets_at (frm_data g) 0 (unat (frm_size g)) ?bs"
    using frame_append_all_packets [OF assms(1,4) _ assms(5), of "[]"] assms(2) by simp_all
  obtain b bs where bs: "?bs = b # bs" using assms(3) by (cases ps) auto
  have b: "4 \<le> length b" "length b \<le> unat (frm_size g)" "take (length b) (frm_data g) = b" "unat (b ! 0) + 4 = length b"
    "packets_at (frm_data g) (align4 (length b)) (unat (frm_size g)) bs"
    using g(2) bs by simp_all
  have b0: "frm_data g ! 0 = b ! 0" using b(1,3) by (metis nth_take less_le_trans zero_less_numeral)
  then have sz: "pkt_size g = length b" using b(4) by (simp add: pkt_size_def pkt_service_size_def)
  then have pb: "pkt_bytes g = b" using b(3) by (simp add: pkt_bytes_def)
  have np: "next_ptr g = align4 (length b)" using assms(6) sz by (simp add: next_ptr_def)
  have "\<exists>fs. frame_loop (Suc (length bs)) g = Some fs \<and> map pkt_bytes fs = pkt_bytes g # bs"
    using b(5) np by (intro frame_loop_packets [OF acc_ok_frame_ok [OF g(1)] not_skip_marked_ok [OF assms(6)]]) simp_all
  moreover have "length ps = Suc (length bs)" using bs by (metis length_Cons length_map)
  ultimately show ?thesis using bs pb by simp
qed

text \<open>The packets of a frame keep its address and direction.\<close>

lemma jd_shift_frame_header:
  "jd_shift_frame f = Some (r, g) \<Longrightarrow> frm_device_identifier g = frm_device_identifier f \<and>
     flag_set g JD_FRAME_FLAG_COMMAND = flag_set f JD_FRAME_FLAG_COMMAND"
proof -
  have "(x AND NOT (2 :: byte)) AND 1 = x AND 1" for x :: byte
    by (rule bit_word_eqI) (auto simp: bit_simps)
  then show "jd_shift_frame f = Some (r, g) \<Longrightarrow> ?thesis"
    by (auto simp: jd_shift_frame_def bind_Some_iff Let_def flag_set_def JD_FRAME_FLAG_COMMAND_def
        JD_FRAME_FLAG_ACK_REQUESTED_def split: if_splits)
qed

lemma frame_loop_header:
  "frame_loop n f = Some fs \<Longrightarrow> g \<in> set fs \<Longrightarrow> frm_device_identifier g = frm_device_identifier f \<and>
     flag_set g JD_FRAME_FLAG_COMMAND = flag_set f JD_FRAME_FLAG_COMMAND"
proof (induction n arbitrary: f fs)
  case 0
  then show ?case by simp
next
  case (Suc n)
  then obtain r h where h: "jd_shift_frame f = Some (r, h)" by (auto simp: bind_Some_iff)
  show ?case
    using Suc.prems Suc.IH [of h] jd_shift_frame_header [OF h] h by (auto simp: bind_Some_iff split: if_splits)
qed

text \<open>C30: Packing and unpacking.  The packets put into an empty frame are delivered by the packet
  loop complete, unchanged and in order (when the byte behind the first one is not taken for a skip
  mark).\<close>

theorem frame_pack_unpack:
  assumes "acc_ok f" "frm_size f = 0" "ps \<noteq> []" "list_all pkt_valid ps"
    and "frame_append_all f ps = Some g" "\<not> skip_marked g"
  shows "\<exists>fs. frame_loop (length ps) g = Some fs \<and> map pkt_bytes fs = map (\<lambda>(n, c, d). pkt_image n c d) ps"
  using assms by (rule frame_loop_append_all)

theorem frame_pack_unpack_witness:
  "\<exists>fs. frame_loop (length [(1 :: nat, 2 :: nat, [7 :: byte]), (3, 4, [])]) (the (frame_append_all zero_frame [(1, 2, [7]), (3, 4, [])])) = Some fs \<and>
    map pkt_bytes fs = map (\<lambda>(n, c, d). pkt_image n c d) [(1, 2, [7]), (3, 4, [])]"
proof (rule frame_pack_unpack)
  show "acc_ok zero_frame" by (simp add: acc_ok_def zero_frame_def JD_SERIAL_PAYLOAD_SIZE_def)
  then have z: "acc_ok zero_frame" .
  note a = frame_append_fits [OF z, of 1 2 "[7]"]
  have s0: "unat (frm_size zero_frame) = 0" by (simp add: zero_frame_def)
  note b = frame_append_fits [OF a(2), of 3 4 "[]"]
  show "frame_append_all zero_frame [(1, 2, [7]), (3, 4, [])] =
      Some (the (frame_append_all zero_frame [(1, 2, [7]), (3, 4, [])]))"
    using a b s0 by (simp add: align4_def)
  show "\<not> skip_marked (the (frame_append_all zero_frame [(1, 2, [7]), (3, 4, [])]))"
    using a b s0 by (simp add: align4_def skip_marked_def appended_def patch_def zero_frame_def JD_SERIAL_PAYLOAD_SIZE_def
        pkt_size_def pkt_service_size_def pkt_image_def pkt_header_def nth_append)
qed (simp_all add: zero_frame_def)

end
