(* ===== verification/Jd_Fifo.thy ===== *)
theory Jd_Fifo
  imports Jd_Prelude
begin

text \<open>
  The contract that source/jd\_queue.c and source/jd\_bqueue.c share: a bounded first-in
  first-out buffer.  \<open>push\<close> returns the new buffer and the C status code (0 for success)
  and appends the items of its argument or leaves the contents alone; \<open>pop\<close> takes a
  prefix.  Neither panics nor leaves its memory (the \<open>option\<close> is always \<open>Some\<close>) when the
  invariant holds.  \<open>fifo_run\<close> drives any such buffer through a sequence of operations,
  as the callers in interrupt and main context interleave them.
\<close>

datatype ('x, 'k) fifo_op = Push 'x | Pop 'k

fun fifo_run :: "('q \<Rightarrow> 'x \<Rightarrow> ('q \<times> int) option) \<Rightarrow> ('q \<Rightarrow> 'k \<Rightarrow> ('q \<times> 'a list) option) \<Rightarrow>
    ('x \<Rightarrow> 'a list) \<Rightarrow> ('x, 'k) fifo_op list \<Rightarrow> 'q \<Rightarrow> ('q \<times> 'a list \<times> 'a list) option" where
  "fifo_run push pop items [] q = Some (q, [], [])"
| "fifo_run push pop items (Push x # ops) q = do {
     (q, r) \<leftarrow> push q x;
     (q, acc, out) \<leftarrow> fifo_run push pop items ops q;
     Some (q, (if r = 0 then items x else []) @ acc, out) }"
| "fifo_run push pop items (Pop k # ops) q = do {
     (q, xs) \<leftarrow> pop q k;
     (q, acc, out) \<leftarrow> fifo_run push pop items ops q;
     Some (q, acc, xs @ out) }"

fun op_valid :: "('x \<Rightarrow> bool) \<Rightarrow> ('x, 'k) fifo_op \<Rightarrow> bool" where
  "op_valid valid (Push x) = valid x"
| "op_valid valid (Pop k) = True"

locale fifo =
  fixes inv :: "'q \<Rightarrow> bool"
    and abs :: "'q \<Rightarrow> 'a list"
    and valid :: "'x \<Rightarrow> bool"
    and items :: "'x \<Rightarrow> 'a list"
    and amount :: "'k \<Rightarrow> nat"
    and push :: "'q \<Rightarrow> 'x \<Rightarrow> ('q \<times> int) option"
    and pop :: "'q \<Rightarrow> 'k \<Rightarrow> ('q \<times> 'a list) option"
  assumes push_law: "inv q \<Longrightarrow> valid x \<Longrightarrow>
      \<exists>q' r. push q x = Some (q', r) \<and> inv q' \<and>
        (if r = 0 then abs q' = abs q @ items x else abs q' = abs q)"
    and pop_law: "inv q \<Longrightarrow>
      \<exists>q'. pop q k = Some (q', take (amount k) (abs q)) \<and> inv q' \<and> abs q' = drop (amount k) (abs q)"
begin

lemma run_fifo:
  assumes "inv q" "list_all (op_valid valid) ops"
  shows "\<exists>q' acc out. fifo_run push pop items ops q = Some (q', acc, out) \<and> inv q' \<and>
    abs q @ acc = out @ abs q'"
  using assms
proof (induction ops arbitrary: q)
  case Nil
  then show ?case by simp
next
  case (Cons a ops)
  show ?case
  proof (cases a)
    case (Push x)
    obtain q1 r where q1: "push q x = Some (q1, r)" "inv q1"
      "abs q1 = abs q @ (if r = 0 then items x else [])"
      using push_law [of q x] Cons.prems Push by fastforce
    obtain q' acc out where "fifo_run push pop items ops q1 = Some (q', acc, out)" "inv q'"
      "abs q1 @ acc = out @ abs q'"
      using Cons.IH [OF q1(2)] Cons.prems by auto
    with q1 Push show ?thesis by simp
  next
    case (Pop k)
    obtain q1 where q1: "pop q k = Some (q1, take (amount k) (abs q))" "inv q1"
      "abs q1 = drop (amount k) (abs q)"
      using pop_law [OF Cons.prems(1)] by blast
    obtain q' acc out where r: "fifo_run push pop items ops q1 = Some (q', acc, out)" "inv q'"
      "abs q1 @ acc = out @ abs q'"
      using Cons.IH [OF q1(2)] Cons.prems by auto
    have "abs q @ acc = take (amount k) (abs q) @ (abs q1 @ acc)"
      by (simp add: q1(3))
    with q1 r Pop show ?thesis by simp
  qed
qed

end

text \<open>A bounded buffer also says when it accepts: whatever fits is taken.\<close>

locale bounded_fifo = fifo +
  fixes fits :: "'b \<Rightarrow> 'c \<Rightarrow> bool"
  assumes push_fits: "inv q \<Longrightarrow> valid x \<Longrightarrow> fits q x \<Longrightarrow> push q x = Some (q', r) \<Longrightarrow> r = 0"
begin

lemma push_appends:
  assumes "inv q" "valid x" "fits q x"
  shows "\<exists>q'. push q x = Some (q', 0) \<and> inv q' \<and> abs q' = abs q @ items x"
  using push_law [OF assms(1,2)] push_fits [OF assms] by fastforce

end

end
