(* ===== verification/Jd_Queue.thy ===== *)
theory Jd_Queue
  imports Jd_Frame Jd_Fifo
begin

text \<open>
  source/jd\_queue.c: the ring buffer of variable-size frames behind the send, receive and
  USB queues.  \<open>front\<close> and \<open>back\<close> are byte offsets; when a frame does not fit before the
  end of the buffer the writer restarts at offset 0 and \<open>curr_size\<close> remembers where the
  older frames end.  A pointer into \<open>data\<close> is an offset.
\<close>

record jd_queue =
  q_front :: nat
  q_back :: nat
  q_size :: nat
  q_curr_size :: nat
  q_data :: mem

definition FRM_SIZE :: "jd_frame \<Rightarrow> nat" where
  "FRM_SIZE f = align4 (JD_FRAME_SIZE f)"

text \<open>\<open>FRM_SIZE\<close> of a frame that lies at an offset of the buffer.\<close>

definition frm_size_at :: "mem \<Rightarrow> nat \<Rightarrow> nat option" where
  "frm_size_at m off = map_option (\<lambda>b. align4 (unat b + 12)) (rd8 m (off + 2))"

definition jd_queue_will_fit :: "jd_queue \<Rightarrow> nat \<Rightarrow> bool" where
  "jd_queue_will_fit q sz =
     (if q_front q \<le> q_back q then q_back q + sz \<le> q_size q \<or> q_front q > sz
      else q_back q + sz < q_front q)"

definition queue_reserve :: "jd_queue \<Rightarrow> nat \<Rightarrow> jd_queue \<times> int" where
  "queue_reserve q sz =
     (if q_front q \<le> q_back q then
        (if q_back q + sz \<le> q_size q then (q\<lparr>q_back := u16 (q_back q + sz)\<rparr>, 0)
         else if q_front q > sz then (q\<lparr>q_curr_size := q_back q, q_back := u16 sz\<rparr>, 0)
         else (q, -1))
      else
        (if q_back q + sz < q_front q then (q\<lparr>q_back := u16 (q_back q + sz)\<rparr>, 0)
         else (q, -2)))"

definition jd_queue_push :: "jd_queue \<Rightarrow> jd_frame \<Rightarrow> (jd_queue \<times> int) option" where
  "jd_queue_push q pkt =
     (if frm_size pkt = 0 then None
      else do {
        let sz = FRM_SIZE pkt;
        let (q, ret) = queue_reserve q sz;
        q \<leftarrow> (if ret = 0 then do {
                src \<leftarrow> rd_mem (frame_bytes pkt) 0 sz;
                jd_assert (sz \<le> q_back q);
                d \<leftarrow> wr_mem (q_data q) (q_back q - sz) src;
                Some (q\<lparr>q_data := d\<rparr>) }
              else Some q);
        jd_assert (q_front q \<le> q_size q);
        jd_assert (q_back q \<le> q_size q);
        jd_assert (q_curr_size q \<le> q_size q);
        Some (q, ret) })"

definition jd_queue_front :: "jd_queue \<Rightarrow> nat option" where
  "jd_queue_front q =
     (if q_front q \<noteq> q_back q then
        (if q_front q \<ge> q_curr_size q then Some 0 else Some (q_front q))
      else None)"

definition jd_queue_shift :: "jd_queue \<Rightarrow> jd_queue option" where
  "jd_queue_shift q = do {
     pkt \<leftarrow> jd_queue_front q;
     sz \<leftarrow> frm_size_at (q_data q) pkt;
     if q_front q \<ge> q_curr_size q then do {
       jd_assert (q_front q = q_curr_size q);
       Some (q\<lparr>q_front := u16 sz, q_curr_size := q_size q\<rparr>) }
     else Some (q\<lparr>q_front := u16 (q_front q + sz)\<rparr>) }"

definition jd_queue_clear :: "jd_queue \<Rightarrow> jd_queue" where
  "jd_queue_clear q = q\<lparr>q_back := 0, q_front := 0\<rparr>"

definition jd_queue_alloc :: "nat \<Rightarrow> jd_queue" where
  "jd_queue_alloc sz =
     \<lparr>q_front = 0, q_back = 0, q_size = u16 sz, q_curr_size = u16 sz,
      q_data = replicate sz 0\<rparr>"

text \<open>Reading the frame at the front and releasing it, as every consumer of the queue
  does with \<open>jd_queue_front\<close> and \<open>jd_queue_shift\<close>.\<close>

definition queue_front_bytes :: "jd_queue \<Rightarrow> mem option" where
  "queue_front_bytes q = do {
     off \<leftarrow> jd_queue_front q;
     sz \<leftarrow> frm_size_at (q_data q) off;
     rd_mem (q_data q) off sz }"

definition queue_pop :: "jd_queue \<Rightarrow> unit \<Rightarrow> (jd_queue \<times> mem list) option" where
  "queue_pop q u =
     (case jd_queue_front q of
        None \<Rightarrow> Some (q, [])
      | Some off \<Rightarrow> do {
          b \<leftarrow> queue_front_bytes q;
          q \<leftarrow> jd_queue_shift q;
          Some (q, [b]) })"

section \<open>The queue as a list of frame images\<close>

definition frame_image :: "jd_frame \<Rightarrow> mem" where
  "frame_image f = take (FRM_SIZE f) (frame_bytes f)"

definition block_ok :: "mem \<Rightarrow> bool" where
  "block_ok b \<longleftrightarrow> 12 \<le> length b \<and> length b = align4 (unat (b ! 2) + 12)"

fun tiled :: "mem \<Rightarrow> nat \<Rightarrow> nat \<Rightarrow> mem list \<Rightarrow> bool" where
  "tiled D p e [] \<longleftrightarrow> p = e"
| "tiled D p e (b # bs) \<longleftrightarrow>
     block_ok b \<and> p + length b \<le> e \<and> take (length b) (drop p D) = b \<and> tiled D (p + length b) e bs"

function walk :: "mem \<Rightarrow> nat \<Rightarrow> nat \<Rightarrow> mem list" where
  "walk D p e =
     (if p < e then
        (let n = align4 (unat (D ! (p + 2)) + 12) in take n (drop p D) # walk D (p + n) e)
      else [])"
  by pat_completeness auto
termination
proof (relation "measure (\<lambda>(D, p, e). e - p)")
  fix D :: mem and p e n :: nat
  assume "p < e" "n = align4 (unat (D ! (p + 2)) + 12)"
  moreover have "12 \<le> align4 (unat (D ! (p + 2)) + 12)"
    using align4_ge [of "unat (D ! (p + 2)) + 12"] by simp
  ultimately show "((D, p + n, e), D, p, e) \<in> measure (\<lambda>(D, p, e). e - p)"
    by simp
qed simp

declare walk.simps [simp del]

definition queue_frames :: "jd_queue \<Rightarrow> mem list" where
  "queue_frames q =
     (if q_front q \<le> q_back q then walk (q_data q) (q_front q) (q_back q)
      else walk (q_data q) (q_front q) (q_curr_size q) @ walk (q_data q) 0 (q_back q))"

text \<open>The representation: frames tile one segment, or two when the writer has wrapped.\<close>

definition queue_rep :: "jd_queue \<Rightarrow> mem list \<Rightarrow> bool" where
  "queue_rep q bs \<longleftrightarrow>
     q_size q < 65536 \<and> length (q_data q) = q_size q \<and>
     (if q_front q \<le> q_back q then
        q_back q \<le> q_size q \<and> q_curr_size q = q_size q \<and>
        tiled (q_data q) (q_front q) (q_back q) bs
      else
        q_front q \<le> q_curr_size q \<and> q_curr_size q \<le> q_size q \<and> 0 < q_back q \<and>
        (\<exists>as cs. bs = as @ cs \<and> tiled (q_data q) (q_front q) (q_curr_size q) as \<and>
           tiled (q_data q) 0 (q_back q) cs))"

definition queue_inv :: "jd_queue \<Rightarrow> bool" where
  "queue_inv q \<longleftrightarrow> queue_rep q (queue_frames q)"

definition frame_pushable :: "jd_frame \<Rightarrow> bool" where
  "frame_pushable f \<longleftrightarrow> frm_size f \<noteq> 0 \<and> FRM_SIZE f \<le> length (frame_bytes f)"

lemma tiled_le: "tiled D p e bs \<Longrightarrow> p \<le> e"
  by (induction bs arbitrary: p) fastforce+

lemma tiled_walk:
  assumes "tiled D p e bs" "e \<le> length D"
  shows "walk D p e = bs"
  using assms
proof (induction bs arbitrary: p)
  case Nil
  then show ?case by (simp add: walk.simps)
next
  case (Cons b bs)
  then have b: "block_ok b" "p + length b \<le> e" "take (length b) (drop p D) = b" by auto
  then have "D ! (p + 2) = b ! 2"
    using Cons.prems(2) nth_take [of 2 "length b" "drop p D"] by (auto simp: block_ok_def)
  with b Cons show ?case
    by (subst walk.simps) (auto simp: block_ok_def Let_def)
qed

lemma queue_rep_wrapI:
  assumes "q_size q < 65536" "length (q_data q) = q_size q" "q_back q < q_front q"
    "q_front q \<le> q_curr_size q" "q_curr_size q \<le> q_size q" "0 < q_back q"
    "tiled (q_data q) (q_front q) (q_curr_size q) as" "tiled (q_data q) 0 (q_back q) cs"
  shows "queue_rep q (as @ cs)"
  using assms by (auto simp: queue_rep_def)

lemma queue_rep_frames: "queue_rep q bs \<Longrightarrow> queue_frames q = bs"
  by (auto simp: queue_rep_def queue_frames_def tiled_walk split: if_splits)

lemma queue_rep_inv: "queue_rep q bs \<Longrightarrow> queue_inv q"
  by (simp add: queue_inv_def queue_rep_frames)

lemma tiled_cong:
  assumes "tiled D p e bs" "\<And>i. p \<le> i \<Longrightarrow> i < e \<Longrightarrow> D' ! i = D ! i" "e \<le> length D" "e \<le> length D'"
  shows "tiled D' p e bs"
  using assms
proof (induction bs arbitrary: p)
  case Nil
  then show ?case by simp
next
  case (Cons b bs)
  then have "p + length b \<le> e" by simp
  then have "take (length b) (drop p D') = take (length b) (drop p D)"
    using Cons.prems(2-4) by (intro nth_equalityI) simp_all
  with Cons show ?case by simp
qed

lemma tiled_patch_outside:
  assumes "tiled D p e bs" "off + length src \<le> length D" "e \<le> off \<or> off + length src \<le> p" "e \<le> length D"
  shows "tiled (patch D off src) p e bs"
  using assms by (intro tiled_cong [OF assms(1)]) (auto simp: patch_nth)

lemma tiled_snoc:
  assumes "tiled D p e bs" "block_ok b" "take (length b) (drop e D) = b"
  shows "tiled D p (e + length b) (bs @ [b])"
  using assms
proof (induction bs arbitrary: p)
  case Nil
  then show ?case by simp
next
  case (Cons c bs)
  then show ?case using tiled_le by fastforce
qed

lemma frame_image_len: "frame_pushable f \<Longrightarrow> length (frame_image f) = FRM_SIZE f"
  by (simp add: frame_image_def frame_pushable_def)

lemma FRM_SIZE_ge: "12 \<le> FRM_SIZE f"
  using align4_ge [of "JD_FRAME_SIZE f"] by (simp add: FRM_SIZE_def JD_FRAME_SIZE_def)

lemma FRM_SIZE_lt: "FRM_SIZE f < 65536"
  using align4_lt [of "JD_FRAME_SIZE f"] unat_byte_lt [of "frm_size f"]
  by (simp add: FRM_SIZE_def JD_FRAME_SIZE_def)

lemma frame_bytes_2: "frame_bytes f ! 2 = frm_size f"
  by (simp add: frame_bytes_def nth_append)

lemma frame_image_ok: "frame_pushable f \<Longrightarrow> block_ok (frame_image f)"
  using FRM_SIZE_ge [of f]
  by (simp add: block_ok_def frame_image_len) (simp add: frame_image_def frame_bytes_2 FRM_SIZE_def JD_FRAME_SIZE_def)

section \<open>Pushing\<close>

definition push_into :: "jd_queue \<Rightarrow> jd_frame \<Rightarrow> jd_queue" where
  "push_into q pkt = (let q' = fst (queue_reserve q (FRM_SIZE pkt)) in
     q'\<lparr>q_data := patch (q_data q) (q_back q' - FRM_SIZE pkt) (frame_image pkt)\<rparr>)"

lemma push_linear_rep:
  assumes "queue_rep q bs" "frame_pushable f" "q_front q \<le> q_back q"
    "q_back q + FRM_SIZE f \<le> q_size q"
  shows "queue_rep (push_into q f) (bs @ [frame_image f])"
proof -
  have r: "tiled (q_data q) (q_front q) (q_back q) bs" "length (q_data q) = q_size q" "q_size q < 65536"
    "q_curr_size q = q_size q"
    using assms(1,3) by (simp_all add: queue_rep_def)
  let ?D = "patch (q_data q) (q_back q) (frame_image f)"
  have len: "q_back q + length (frame_image f) \<le> length (q_data q)"
    using assms(2,4) r by (simp add: frame_image_len)
  have "tiled ?D (q_front q) (q_back q + length (frame_image f)) (bs @ [frame_image f])"
    using assms(2) len r
    by (intro tiled_snoc tiled_patch_outside frame_image_ok take_drop_patch_same) simp_all
  then show ?thesis
    using assms r len
    by (simp add: queue_rep_def push_into_def queue_reserve_def Let_def frame_image_len)
qed

lemma push_wrap_rep:
  assumes "queue_rep q bs" "frame_pushable f" "q_front q \<le> q_back q"
    "q_size q < q_back q + FRM_SIZE f" "FRM_SIZE f < q_front q"
  shows "queue_rep (push_into q f) (bs @ [frame_image f])"
proof -
  have r: "tiled (q_data q) (q_front q) (q_back q) bs" "length (q_data q) = q_size q" "q_size q < 65536"
    "q_back q \<le> q_size q"
    using assms(1,3) by (simp_all add: queue_rep_def)
  let ?D = "patch (q_data q) 0 (frame_image f)"
  have len: "0 + length (frame_image f) \<le> length (q_data q)"
    using assms(2-5) r by (simp add: frame_image_len)
  have "tiled ?D (q_front q) (q_back q) bs"
    using assms(2,5) r len by (intro tiled_patch_outside) (simp_all add: frame_image_len)
  moreover have "tiled ?D 0 (length (frame_image f)) [frame_image f]"
    using tiled_snoc [of ?D 0 0 "[]" "frame_image f"] assms(2) len take_drop_patch_same [OF len]
    by (simp add: frame_image_ok)
  ultimately show ?thesis
    using assms(2-5) r len FRM_SIZE_ge [of f] FRM_SIZE_lt [of f]
    by (intro queue_rep_wrapI)
       (simp_all add: push_into_def queue_reserve_def Let_def frame_image_len)
qed

lemma push_second_rep:
  assumes "queue_rep q bs" "frame_pushable f" "q_back q < q_front q"
    "q_back q + FRM_SIZE f < q_front q"
  shows "queue_rep (push_into q f) (bs @ [frame_image f])"
proof -
  obtain as cs where r: "bs = as @ cs" "tiled (q_data q) (q_front q) (q_curr_size q) as"
    "tiled (q_data q) 0 (q_back q) cs" "length (q_data q) = q_size q" "q_size q < 65536"
    "q_front q \<le> q_curr_size q" "q_curr_size q \<le> q_size q" "0 < q_back q"
    using assms(1,3) by (auto simp: queue_rep_def)
  let ?D = "patch (q_data q) (q_back q) (frame_image f)"
  have len: "q_back q + length (frame_image f) \<le> length (q_data q)"
    using assms(2,4) r by (simp add: frame_image_len)
  have "tiled ?D 0 (q_back q + length (frame_image f)) (cs @ [frame_image f])"
    using assms(2,3) len r
    by (intro tiled_snoc tiled_patch_outside frame_image_ok take_drop_patch_same) simp_all
  moreover have "tiled ?D (q_front q) (q_curr_size q) as"
    using assms(2,4) r len by (intro tiled_patch_outside) (simp_all add: frame_image_len)
  ultimately have "queue_rep (push_into q f) (as @ (cs @ [frame_image f]))"
    using assms(2-4) r len
    by (intro queue_rep_wrapI)
       (simp_all add: push_into_def queue_reserve_def Let_def frame_image_len)
  then show ?thesis by (simp add: r(1))
qed

lemma queue_rep_back_le: "queue_rep q bs \<Longrightarrow> q_back q \<le> q_size q \<and> q_front q \<le> q_size q \<and> q_curr_size q \<le> q_size q"
  by (auto simp: queue_rep_def split: if_splits)

lemma jd_queue_push_fits:
  assumes "queue_rep q bs" "frame_pushable f" "jd_queue_will_fit q (FRM_SIZE f)"
  shows "jd_queue_push q f = Some (push_into q f, 0)" "queue_rep (push_into q f) (bs @ [frame_image f])"
proof -
  show rep: "queue_rep (push_into q f) (bs @ [frame_image f])"
    using assms push_linear_rep [OF assms(1,2)] push_wrap_rep [OF assms(1,2)]
      push_second_rep [OF assms(1,2)]
    by (cases "q_front q \<le> q_back q"; cases "q_back q + FRM_SIZE f \<le> q_size q")
       (auto simp: jd_queue_will_fit_def)
  have ret: "snd (queue_reserve q (FRM_SIZE f)) = 0"
    using assms(3) by (auto simp: queue_reserve_def jd_queue_will_fit_def split: if_splits)
  have bck: "FRM_SIZE f \<le> q_back (fst (queue_reserve q (FRM_SIZE f)))"
    and data: "q_data (fst (queue_reserve q (FRM_SIZE f))) = q_data q"
    and sz: "q_size (fst (queue_reserve q (FRM_SIZE f))) = q_size q"
    using assms FRM_SIZE_lt [of f]
    by (auto simp: queue_reserve_def jd_queue_will_fit_def queue_rep_def split: if_splits)
  have le: "q_back (push_into q f) \<le> length (q_data q)"
    using queue_rep_back_le [OF rep] assms(1) sz
    by (simp add: push_into_def Let_def queue_rep_def)
  have "q_back (push_into q f) = q_back (fst (queue_reserve q (FRM_SIZE f)))"
    by (simp add: push_into_def Let_def)
  with le bck have w: "wr_mem (q_data q) (q_back (fst (queue_reserve q (FRM_SIZE f))) - FRM_SIZE f) (frame_image f) =
      Some (q_data (push_into q f))"
    using assms(2) by (simp add: frame_image_len push_into_def Let_def)
  have src: "rd_mem (frame_bytes f) 0 (FRM_SIZE f) = Some (frame_image f)"
    using assms(2) by (simp add: frame_image_def frame_pushable_def)
  show "jd_queue_push q f = Some (push_into q f, 0)"
    using queue_rep_back_le [OF rep] assms(2) ret bck data src w
    by (simp add: jd_queue_push_def Let_def split_beta frame_pushable_def)
       (simp add: push_into_def Let_def)
qed

lemma jd_queue_push_full:
  assumes "queue_rep q bs" "frame_pushable f" "\<not> jd_queue_will_fit q (FRM_SIZE f)"
  shows "\<exists>r. r \<noteq> 0 \<and> jd_queue_push q f = Some (q, r)"
  using assms queue_rep_back_le [OF assms(1)]
  by (auto simp: jd_queue_push_def queue_reserve_def jd_queue_will_fit_def frame_pushable_def
      split: if_splits)

section \<open>Reading and releasing the front\<close>

lemma tiled_front:
  assumes "tiled D p e (b # bs)" "e \<le> length D"
  shows "frm_size_at D p = Some (length b)" "rd_mem D p (length b) = Some b" "12 \<le> length b"
proof -
  have b: "block_ok b" "p + length b \<le> e" "take (length b) (drop p D) = b" using assms(1) by auto
  then have "D ! (p + 2) = b ! 2"
    using assms(2) nth_take [of 2 "length b" "drop p D"] by (auto simp: block_ok_def)
  with b assms(2) show "frm_size_at D p = Some (length b)" "rd_mem D p (length b) = Some b" "12 \<le> length b"
    by (auto simp: frm_size_at_def block_ok_def)
qed

lemma jd_queue_front_empty: "queue_rep q [] \<longleftrightarrow> queue_inv q \<and> jd_queue_front q = None"
proof
  assume r: "queue_rep q []"
  then have "q_front q = q_back q"
    by (auto simp: queue_rep_def split: if_splits)
  with r show "queue_inv q \<and> jd_queue_front q = None"
    by (simp add: queue_rep_inv jd_queue_front_def)
next
  assume a: "queue_inv q \<and> jd_queue_front q = None"
  then have "q_front q = q_back q"
    by (simp add: jd_queue_front_def split: if_splits)
  then have "queue_frames q = []"
    by (simp add: queue_frames_def walk.simps)
  with a show "queue_rep q []" by (simp add: queue_inv_def)
qed

lemma jd_queue_front_rep:
  assumes "queue_rep q (b # bs)"
  obtains off where "jd_queue_front q = Some off" "queue_front_bytes q = Some b"
    "frm_size_at (q_data q) off = Some (length b)" "off + length b \<le> length (q_data q)"
    "off = (if q_front q \<ge> q_curr_size q then 0 else q_front q)"
proof (cases "q_front q \<le> q_back q")
  case True
  with assms have t: "tiled (q_data q) (q_front q) (q_back q) (b # bs)" "q_back q \<le> length (q_data q)"
    and c: "q_curr_size q = length (q_data q)"
    by (simp_all add: queue_rep_def)
  then have lt: "q_front q < q_back q" "q_front q + length b \<le> q_back q" using tiled_front [OF t] by auto
  with t c that [of "q_front q"] tiled_front [OF t] show ?thesis
    by (simp add: jd_queue_front_def queue_front_bytes_def)
next
  case False
  then obtain as cs where r: "b # bs = as @ cs" "tiled (q_data q) (q_front q) (q_curr_size q) as"
    "tiled (q_data q) 0 (q_back q) cs" "q_front q \<le> q_curr_size q" "q_curr_size q \<le> length (q_data q)"
    using assms by (auto simp: queue_rep_def)
  show ?thesis
  proof (cases as)
    case Nil
    with r False have t: "tiled (q_data q) 0 (q_back q) (b # bs)" "q_back q \<le> length (q_data q)"
      and e: "q_front q = q_curr_size q" by auto
    then have "length b \<le> q_back q" by simp
    with False t e that [of 0] tiled_front [OF t] show ?thesis
      by (simp add: jd_queue_front_def queue_front_bytes_def)
  next
    case (Cons a as')
    with r have t: "tiled (q_data q) (q_front q) (q_curr_size q) (b # as')" by simp
    then have "q_front q + length b \<le> q_curr_size q" "q_front q < q_curr_size q"
      using tiled_front [OF t r(5)] by auto
    with False t r(5) that [of "q_front q"] tiled_front [OF t r(5)] show ?thesis
      by (simp add: jd_queue_front_def queue_front_bytes_def)
  qed
qed

lemma jd_queue_shift_rep:
  assumes "queue_rep q (b # bs)"
  shows "\<exists>q'. jd_queue_shift q = Some q' \<and> queue_rep q' bs"
proof -
  obtain off where o: "jd_queue_front q = Some off" "frm_size_at (q_data q) off = Some (length b)"
    "off + length b \<le> length (q_data q)" using jd_queue_front_rep [OF assms] by metis
  have sz: "q_size q < 65536" "length (q_data q) = q_size q" using assms by (simp_all add: queue_rep_def)
  show ?thesis
  proof (cases "q_front q \<le> q_back q")
    case True
    with assms have t: "tiled (q_data q) (q_front q) (q_back q) (b # bs)" "q_back q \<le> length (q_data q)"
      and c: "q_curr_size q = length (q_data q)"
      by (simp_all add: queue_rep_def)
    have f: "q_front q + length b \<le> q_back q" "12 \<le> length b" using t(1) tiled_front [OF t] by auto
    with o sz t c show ?thesis
      by (simp add: jd_queue_shift_def queue_rep_def)
  next
    case False
    then obtain as cs where r: "b # bs = as @ cs" "tiled (q_data q) (q_front q) (q_curr_size q) as"
      "tiled (q_data q) 0 (q_back q) cs" "q_front q \<le> q_curr_size q" "q_curr_size q \<le> q_size q"
      "0 < q_back q"
      using assms by (auto simp: queue_rep_def)
    show ?thesis
    proof (cases as)
      case Nil
      with r False have t: "tiled (q_data q) 0 (q_back q) (b # bs)"
        and e: "q_front q = q_curr_size q" by auto
      then have "length b \<le> q_back q" "tiled (q_data q) (length b) (q_back q) bs" by auto
      with o sz e r False show ?thesis
        by (simp add: jd_queue_shift_def queue_rep_def)
    next
      case (Cons a as')
      with r have t: "tiled (q_data q) (q_front q) (q_curr_size q) (b # as')" "bs = as' @ cs" by auto
      then have f: "q_front q + length b \<le> q_curr_size q" "q_front q < q_curr_size q"
        using tiled_front [OF t(1)] r sz by auto
      have "queue_rep (q\<lparr>q_front := q_front q + length b\<rparr>) (as' @ cs)"
        using f sz r(3-6) t False by (intro queue_rep_wrapI) simp_all
      with o f sz r t(2) show ?thesis
        by (simp add: jd_queue_shift_def)
    qed
  qed
qed

lemma queue_pop_law:
  assumes "queue_inv q"
  shows "\<exists>q'. queue_pop q u = Some (q', take 1 (queue_frames q)) \<and> queue_inv q' \<and>
    queue_frames q' = drop 1 (queue_frames q)"
proof (cases "queue_frames q")
  case Nil
  have "queue_rep q []" using assms unfolding queue_inv_def Nil .
  then have "jd_queue_front q = None" by (simp only: jd_queue_front_empty)
  with Nil assms show ?thesis by (simp add: queue_pop_def)
next
  case (Cons b bs)
  have rep: "queue_rep q (b # bs)" using assms unfolding queue_inv_def Cons .
  then obtain q' where "jd_queue_shift q = Some q'" "queue_rep q' bs"
    using jd_queue_shift_rep by blast
  moreover obtain off where "jd_queue_front q = Some off" "queue_front_bytes q = Some b"
    using jd_queue_front_rep [OF rep] by metis
  ultimately show ?thesis using Cons queue_rep_inv [of q' bs] queue_rep_frames [of q' bs]
    by (simp add: queue_pop_def)
qed

lemma queue_push_law:
  assumes "queue_inv q" "frame_pushable f"
  shows "\<exists>q' r. jd_queue_push q f = Some (q', r) \<and> queue_inv q' \<and>
    (if r = 0 then queue_frames q' = queue_frames q @ [frame_image f] else queue_frames q' = queue_frames q)"
proof (cases "jd_queue_will_fit q (FRM_SIZE f)")
  case True
  with assms have p: "jd_queue_push q f = Some (push_into q f, 0)"
    and rep: "queue_rep (push_into q f) (queue_frames q @ [frame_image f])"
    using jd_queue_push_fits [of q "queue_frames q" f] by (simp_all only: queue_inv_def)
  from p queue_rep_inv [OF rep] queue_rep_frames [OF rep] show ?thesis by simp
next
  case False
  then obtain r where "r \<noteq> 0" "jd_queue_push q f = Some (q, r)"
    using assms jd_queue_push_full [of q "queue_frames q" f] by (auto simp only: queue_inv_def)
  with assms show ?thesis by simp
qed

text \<open>A frame that is being transmitted from the front of the queue stays where it is
  while more frames are pushed.\<close>

lemma jd_queue_push_front:
  assumes "queue_inv q" "frame_pushable f" "jd_queue_front q = Some off" "jd_queue_push q f = Some (q', r)"
  shows "jd_queue_front q' = Some off"
proof (cases "jd_queue_will_fit q (FRM_SIZE f)")
  case False
  then obtain r' where "jd_queue_push q f = Some (q, r')"
    using jd_queue_push_full [OF assms(1) [unfolded queue_inv_def] assms(2)] by blast
  with assms(3,4) show ?thesis by simp
next
  case True
  then have q': "q' = push_into q f"
    using jd_queue_push_fits(1) [OF assms(1) [unfolded queue_inv_def] assms(2)] assms(4) by simp
  have r: "queue_rep q (queue_frames q)" using assms(1) by (simp only: queue_inv_def)
  show ?thesis
    using r True assms(3) FRM_SIZE_ge [of f] FRM_SIZE_lt [of f]
    by (auto simp: q' jd_queue_front_def push_into_def queue_reserve_def Let_def queue_rep_def
        jd_queue_will_fit_def split: if_splits)
qed

lemma queue_alloc_rep: "n < 65536 \<Longrightarrow> queue_rep (jd_queue_alloc n) []"
  by (simp add: queue_rep_def jd_queue_alloc_def)

text \<open>The frame queue is a bounded FIFO of frame images.\<close>

interpretation fq: bounded_fifo queue_inv queue_frames frame_pushable "\<lambda>f. [frame_image f]" "\<lambda>_. 1"
  jd_queue_push queue_pop "\<lambda>q f. jd_queue_will_fit q (FRM_SIZE f)"
proof unfold_locales
  fix q f assume "queue_inv q" "frame_pushable f"
  then show "\<exists>q' r. jd_queue_push q f = Some (q', r) \<and> queue_inv q' \<and>
    (if r = 0 then queue_frames q' = queue_frames q @ [frame_image f] else queue_frames q' = queue_frames q)"
    by (rule queue_push_law)
next
  fix q and k :: unit assume "queue_inv q"
  then show "\<exists>q'. queue_pop q k = Some (q', take 1 (queue_frames q)) \<and> queue_inv q' \<and>
    queue_frames q' = drop 1 (queue_frames q)"
    by (rule queue_pop_law)
next
  fix q f q' r
  assume "queue_inv q" "frame_pushable f" "jd_queue_will_fit q (FRM_SIZE f)"
    "jd_queue_push q f = Some (q', r)"
  then show "r = 0"
    using jd_queue_push_fits(1) [of q "queue_frames q" f] by (simp add: queue_inv_def)
qed

section \<open>Properties\<close>

text \<open>C5: The frame queue is a lossless FIFO.  From an allocated queue of any size below 64 KiB, every
  sequence of pushes of non-empty frames and of pops runs without a panic or an access outside of the
  buffer; the accepted frames are, byte for byte and in order, the popped frames followed by those
  still queued.\<close>

theorem jd_queue_fifo:
  assumes "n < 65536" "list_all (op_valid frame_pushable) ops"
  shows "\<exists>q acc out. fifo_run jd_queue_push queue_pop (\<lambda>f. [frame_image f]) ops (jd_queue_alloc n) = Some (q, acc, out) \<and>
    queue_inv q \<and> acc = out @ queue_frames q"
  using fq.run_fifo [OF queue_rep_inv [OF queue_alloc_rep [OF assms(1)]] assms(2)]
    queue_rep_frames [OF queue_alloc_rep [OF assms(1)]] by simp

theorem jd_queue_fifo_witness:
  "\<exists>q acc out. fifo_run jd_queue_push queue_pop (\<lambda>f. [frame_image f])
      [Push (zero_frame\<lparr>frm_size := 4\<rparr>), Push (zero_frame\<lparr>frm_size := 8\<rparr>), Pop ()] (jd_queue_alloc 32) = Some (q, acc, out) \<and>
    queue_inv q \<and> acc = out @ queue_frames q"
  by (rule jd_queue_fifo)
    (simp_all add: frame_pushable_def FRM_SIZE_def JD_FRAME_SIZE_def align4_def zero_frame_def frame_bytes_def
      JD_SERIAL_PAYLOAD_SIZE_def)

end
