(* ===== verification/Jd_Bus.thy ===== *)
theory Jd_Bus
  imports Jd_Queue "HOL-Library.Code_Target_Nat"
begin

text \<open>
  The transport: source/jd\_physical.c, source/interfaces/tx\_queue.c,
  source/interfaces/simple\_rx.c and the part of source/jd\_usb.c that is called from them.
  The files call each other in a circle (a sent frame is looped back to the receive queue,
  a received frame is forwarded to USB, a queued frame starts the physical layer), so their
  static variables form one record and the functions are in one theory, callees first.

  The build configuration is a client with a USB bridge: \<open>JD_CLIENT\<close>, \<open>JD_SEND_FRAME\<close>,
  \<open>JD_RX_QUEUE\<close>, \<open>JD_PHYSICAL\<close> and \<open>JD_USB_BRIDGE\<close> are 1, \<open>JD_NET_BRIDGE\<close>,
  \<open>JD_RAW_FRAME\<close>, \<open>JD_DEVICESCRIPT\<close> and \<open>JD_HANDLE_ALL_PACKETS\<close> are 0.  Hardware calls
  are parameters or fields: \<open>jd_device_id()\<close> is \<open>device_id\<close>, \<open>tim_get_micros()\<close> is
  \<open>micros\<close>, \<open>tim_set_timer\<close> stores its arguments in \<open>timer\<close>, and the results of
  \<open>uart_start_tx\<close> and \<open>uart_wait_high\<close> are arguments.  Logging, LED blinks, interrupt masks
  and \<open>JD_WAKE_MAIN\<close> have no effect on this state and are left out.
\<close>

datatype timer_cb = Cb_flush_tx_queue | Cb_tick | Cb_rx_timeout | Cb_setup_rx_timeout

record jd_diagnostics =
  bus_lo_error :: "32 word"
  bus_uart_error :: "32 word"
  bus_timeout_error :: "32 word"
  packets_received :: "32 word"
  packets_dropped :: "32 word"

record bus =
  device_id :: "64 word"
  micros :: "64 word"
  now_us :: "32 word"
  rnd_seed :: "32 word"
  in_irq :: bool
  phys_status :: byte
  txPending :: bool
  txFrame :: "nat option"
  start_tx :: "32 word"
  rxFrame :: jd_frame
  timer :: "(32 word \<times> timer_cb) option"
  diagnostics :: jd_diagnostics
  send_queue :: jd_queue
  q_sending :: bool
  tx_acc_buffer :: jd_frame
  rx_queue :: jd_queue
  packets_sent :: byte
  usb_fwd_en :: bool
  usb_queue :: "jd_queue option"
  usb_frame_gap :: nat

definition JD_STATUS_RX_ACTIVE :: byte where "JD_STATUS_RX_ACTIVE = 0x01"
definition JD_STATUS_TX_ACTIVE :: byte where "JD_STATUS_TX_ACTIVE = 0x02"
definition JD_STATUS_TX_QUEUED :: byte where "JD_STATUS_TX_QUEUED = 0x04"
definition JD_WR_OVERHEAD :: "32 word" where "JD_WR_OVERHEAD = 8"
definition JD_MIN_MAX_SLEEP :: "32 word" where "JD_MIN_MAX_SLEEP = 10000"

lemmas jd_status_consts = JD_STATUS_RX_ACTIVE_def JD_STATUS_TX_ACTIVE_def JD_STATUS_TX_QUEUED_def

definition has_status :: "'a bus_scheme \<Rightarrow> byte \<Rightarrow> bool" where
  "has_status s b \<longleftrightarrow> phys_status s AND b \<noteq> 0"

section \<open>Timers and pending transmissions (jd\_physical.c)\<close>

definition set_tick_timer :: "byte \<Rightarrow> 'a bus_scheme \<Rightarrow> 'a bus_scheme" where
  "set_tick_timer statusClear s =
     (let s = (if statusClear \<noteq> 0 then s\<lparr>phys_status := phys_status s AND NOT statusClear\<rparr> else s) in
      if \<not> has_status s JD_STATUS_RX_ACTIVE then
        (if txPending s \<and> \<not> has_status s JD_STATUS_TX_ACTIVE then
           (let (r, sd) = jd_random_around (rnd_seed s) 150 in
            s\<lparr>phys_status := phys_status s OR JD_STATUS_TX_QUEUED, rnd_seed := sd,
              timer := Some (r - JD_WR_OVERHEAD, Cb_flush_tx_queue)\<rparr>)
         else
           s\<lparr>phys_status := phys_status s AND NOT JD_STATUS_TX_QUEUED,
             timer := Some (JD_MIN_MAX_SLEEP, Cb_tick)\<rparr>)
      else s)"

definition jd_packet_ready :: "'a bus_scheme \<Rightarrow> 'a bus_scheme" where
  "jd_packet_ready s =
     (let s = s\<lparr>txPending := True\<rparr> in
      if phys_status s = 0 then set_tick_timer 0 s else s)"

definition tx_done :: "'a bus_scheme \<Rightarrow> 'a bus_scheme" where
  "tx_done s = set_tick_timer JD_STATUS_TX_ACTIVE s"

definition jd_is_busy :: "'a bus_scheme \<Rightarrow> bool" where
  "jd_is_busy s \<longleftrightarrow> phys_status s \<noteq> 0"

section \<open>Forwarding to USB (jd\_usb.c)\<close>

definition jd_usb_send_frame :: "jd_frame \<Rightarrow> 'a bus_scheme \<Rightarrow> ('a bus_scheme \<times> int) option" where
  "jd_usb_send_frame frame s =
     (if \<not> usb_fwd_en s then Some (s, 0)
      else do {
        uq \<leftarrow> usb_queue s;
        (uq, r) \<leftarrow> jd_queue_push uq frame;
        let s = s\<lparr>usb_queue := Some uq\<rparr>;
        let s = (if r = 0 then (if usb_frame_gap s = 2 then s\<lparr>usb_frame_gap := 0\<rparr> else s)
                 else (if usb_frame_gap s = 0 then s\<lparr>usb_frame_gap := 1\<rparr> else s));
        Some (s, r) })"

section \<open>Receive queue (simple\_rx.c)\<close>

definition jd_services_needs_frame :: "64 word \<Rightarrow> jd_frame \<Rightarrow> bool" where
  "jd_services_needs_frame self frame =
     (if flag_set frame JD_FRAME_FLAG_COMMAND then
        flag_set frame JD_FRAME_FLAG_BROADCAST \<or> frm_device_identifier frame = self
      else True)"

definition jd_rx_init :: "nat \<Rightarrow> jd_queue option \<Rightarrow> jd_queue" where
  "jd_rx_init rx_queue_size q = (case q of None \<Rightarrow> jd_queue_alloc rx_queue_size | Some q \<Rightarrow> q)"

definition jd_rx_frame_received_core ::
  "jd_frame \<Rightarrow> bool \<Rightarrow> 'a bus_scheme \<Rightarrow> ('a bus_scheme \<times> jd_frame \<times> int) option" where
  "jd_rx_frame_received_core frame is_loop s = do {
     s \<leftarrow> (if \<not> is_loop then map_option fst (jd_usb_send_frame frame s) else Some s);
     if \<not> jd_services_needs_frame (device_id s) frame then Some (s, frame, 0)
     else do {
       let frame = frame\<lparr>frm_flags := (if is_loop then frm_flags frame OR JD_FRAME_FLAG_LOOPBACK
              else frm_flags frame AND NOT JD_FRAME_FLAG_LOOPBACK)\<rparr>;
       (rq, r) \<leftarrow> jd_queue_push (rx_queue s) frame;
       Some (s\<lparr>rx_queue := rq\<rparr>, frame, r) } }"

definition jd_rx_frame_received :: "jd_frame \<Rightarrow> 'a bus_scheme \<Rightarrow> ('a bus_scheme \<times> jd_frame \<times> int) option" where
  "jd_rx_frame_received frame s = jd_rx_frame_received_core frame False s"

definition jd_rx_frame_received_loopback ::
  "jd_frame \<Rightarrow> 'a bus_scheme \<Rightarrow> ('a bus_scheme \<times> jd_frame \<times> int) option" where
  "jd_rx_frame_received_loopback frame s = jd_rx_frame_received_core frame True s"

definition jd_rx_get_frame :: "'a bus_scheme \<Rightarrow> nat option" where
  "jd_rx_get_frame s = jd_queue_front (rx_queue s)"

definition jd_rx_release_frame :: "'a bus_scheme \<Rightarrow> 'a bus_scheme option" where
  "jd_rx_release_frame s = map_option (\<lambda>q. s\<lparr>rx_queue := q\<rparr>) (jd_queue_shift (rx_queue s))"

definition jd_rx_has_frame :: "'a bus_scheme \<Rightarrow> bool" where
  "jd_rx_has_frame s \<longleftrightarrow> jd_queue_front (rx_queue s) \<noteq> None"

section \<open>Send queue (tx\_queue.c)\<close>

definition jd_need_to_send :: "64 word \<Rightarrow> jd_frame \<Rightarrow> bool" where
  "jd_need_to_send self f =
     (if flag_set f JD_FRAME_FLAG_COMMAND \<and> frm_device_identifier f = self then False else True)"

definition jd_send_frame_raw :: "jd_frame \<Rightarrow> 'a bus_scheme \<Rightarrow> ('a bus_scheme \<times> jd_frame \<times> int) option" where
  "jd_send_frame_raw f s = do {
     (s, r) \<leftarrow> (if jd_need_to_send (device_id s) f then do {
                  (sq, r) \<leftarrow> jd_queue_push (send_queue s) f;
                  Some (s\<lparr>send_queue := sq\<rparr>, r) }
                else Some (s, 0));
     (s, f, _) \<leftarrow> jd_rx_frame_received_loopback f s;
     Some (jd_packet_ready s, f, r) }"

definition jd_send_frame :: "jd_frame \<Rightarrow> 'a bus_scheme \<Rightarrow> ('a bus_scheme \<times> jd_frame \<times> int) option" where
  "jd_send_frame f s = do {
     (s, _) \<leftarrow> jd_usb_send_frame f s;
     jd_send_frame_raw f s }"

definition jd_send_frame_with_crc ::
  "jd_frame \<Rightarrow> 'a bus_scheme \<Rightarrow> ('a bus_scheme \<times> jd_frame \<times> int) option" where
  "jd_send_frame_with_crc f s = do {
     f \<leftarrow> jd_compute_crc (f\<lparr>frm_device_identifier := device_id s\<rparr>);
     jd_send_frame f s }"

definition jd_tx_will_fit :: "nat \<Rightarrow> 'a bus_scheme \<Rightarrow> bool" where
  "jd_tx_will_fit sz s = jd_queue_will_fit (send_queue s) sz"

definition jd_tx_is_idle :: "'a bus_scheme \<Rightarrow> bool" where
  "jd_tx_is_idle s =
     (if q_sending s \<or> jd_queue_front (send_queue s) \<noteq> None then False
      else if frm_size (tx_acc_buffer s) \<noteq> 0 then False
      else True)"

definition jd_tx_init :: "nat \<Rightarrow> jd_queue option \<Rightarrow> jd_queue" where
  "jd_tx_init send_frame_size q = (case q of None \<Rightarrow> jd_queue_alloc send_frame_size | Some q \<Rightarrow> q)"

definition jd_send :: "nat \<Rightarrow> nat \<Rightarrow> mem \<Rightarrow> 'a bus_scheme \<Rightarrow> ('a bus_scheme \<times> int) option" where
  "jd_send service_num service_cmd data s =
     (if in_irq s then None
      else do {
        (f, ok) \<leftarrow> frame_append (tx_acc_buffer s) service_num service_cmd data;
        if ok then Some (s\<lparr>tx_acc_buffer := f\<rparr>, 0)
        else do {
          (s, f, _) \<leftarrow> jd_send_frame_with_crc (tx_acc_buffer s) s;
          (f, ok) \<leftarrow> frame_append (jd_reset_frame f) service_num service_cmd data;
          jd_assert ok;
          Some (s\<lparr>tx_acc_buffer := f\<rparr>, 0) } })"

definition jd_tx_get_frame :: "'a bus_scheme \<Rightarrow> ('a bus_scheme \<times> nat option) option" where
  "jd_tx_get_frame s = do {
     jd_assert (\<not> q_sending s);
     (case jd_queue_front (send_queue s) of
        Some f \<Rightarrow> Some (s\<lparr>q_sending := True\<rparr>, Some f)
      | None \<Rightarrow> Some (s, None)) }"

definition poke_ready :: "'a bus_scheme \<Rightarrow> 'a bus_scheme" where
  "poke_ready s = (if jd_queue_front (send_queue s) \<noteq> None then jd_packet_ready s else s)"

definition jd_tx_frame_sent :: "'a bus_scheme \<Rightarrow> 'a bus_scheme option" where
  "jd_tx_frame_sent s = do {
     jd_assert (q_sending s);
     sq \<leftarrow> jd_queue_shift (send_queue s);
     Some (poke_ready (s\<lparr>send_queue := sq, q_sending := False\<rparr>)) }"

definition jd_services_packet_queued :: "'a bus_scheme \<Rightarrow> 'a bus_scheme" where
  "jd_services_packet_queued s = s\<lparr>packets_sent := packets_sent s + 1\<rparr>"

definition jd_tx_flush :: "'a bus_scheme \<Rightarrow> 'a bus_scheme option" where
  "jd_tx_flush s =
     (if in_irq s then None
      else if frm_size (tx_acc_buffer s) = 0 then Some s
      else do {
        (s, f, _) \<leftarrow> jd_send_frame_with_crc (tx_acc_buffer s) s;
        let s = jd_services_packet_queued s;
        Some (s\<lparr>tx_acc_buffer := jd_reset_frame f\<rparr>) })"

section \<open>The physical layer (jd\_physical.c)\<close>

definition jd_tx_completed :: "'a bus_scheme \<Rightarrow> 'a bus_scheme option" where
  "jd_tx_completed s = do {
     s \<leftarrow> jd_tx_frame_sent s;
     Some (tx_done (s\<lparr>txFrame := None\<rparr>)) }"

definition tick :: "'a bus_scheme \<Rightarrow> 'a bus_scheme option" where
  "tick s = do {
     (if has_status s JD_STATUS_TX_ACTIVE then
        jd_assert (\<not> (ucast (micros s) - start_tx s :: 32 word) > 0x20000)
      else Some ());
     Some (set_tick_timer 0 s) }"

text \<open>\<open>uart_ok\<close> tells whether \<open>uart_start_tx\<close> returned a non-negative value.\<close>

definition flush_tx_queue :: "bool \<Rightarrow> 'a bus_scheme \<Rightarrow> 'a bus_scheme option" where
  "flush_tx_queue uart_ok s =
     (if phys_status s AND (JD_STATUS_RX_ACTIVE OR JD_STATUS_TX_ACTIVE) \<noteq> 0 then Some s
      else do {
        let s = s\<lparr>phys_status := phys_status s OR JD_STATUS_TX_ACTIVE, txPending := False\<rparr>;
        s \<leftarrow> (case txFrame s of
                Some f \<Rightarrow> Some s
              | None \<Rightarrow> do {
                  (s, f) \<leftarrow> jd_tx_get_frame s;
                  Some (s\<lparr>txFrame := f\<rparr>) });
        if txFrame s = None then Some (tx_done s)
        else do {
          let s = s\<lparr>start_tx := ucast (micros s)\<rparr>;
          if \<not> uart_ok then
            Some ((tx_done (s\<lparr>diagnostics := (diagnostics s)\<lparr>bus_lo_error := bus_lo_error (diagnostics s) + 1\<rparr>\<rparr>))
                    \<lparr>txPending := True\<rparr>)
          else Some (set_tick_timer 0 s) } })"

definition rx_timeout :: "'a bus_scheme \<Rightarrow> 'a bus_scheme" where
  "rx_timeout s =
     set_tick_timer JD_STATUS_RX_ACTIVE
       (s\<lparr>diagnostics := (diagnostics s)\<lparr>bus_timeout_error := bus_timeout_error (diagnostics s) + 1\<rparr>\<rparr>)"

definition setup_rx_timeout :: "'a bus_scheme \<Rightarrow> 'a bus_scheme" where
  "setup_rx_timeout s =
     (if has_status s JD_STATUS_RX_ACTIVE then
        (if take 8 (frame_bytes (rxFrame s)) = replicate 8 0 then rx_timeout s
         else s\<lparr>timer := Some (of_nat (JD_FRAME_SIZE (rxFrame s) * 12 + 60), Cb_rx_timeout)\<rparr>)
      else set_tick_timer 0 s)"

text \<open>\<open>line_high\<close> tells whether \<open>uart_wait_high\<close> succeeded.\<close>

definition jd_line_falling :: "bool \<Rightarrow> 'a bus_scheme \<Rightarrow> 'a bus_scheme option" where
  "jd_line_falling line_high s =
     (if has_status s JD_STATUS_RX_ACTIVE then None
      else do {
        let s = s\<lparr>phys_status := phys_status s OR JD_STATUS_RX_ACTIVE\<rparr>;
        m \<leftarrow> wr_mem (frame_bytes (rxFrame s)) 0 (replicate 16 0);
        let s = s\<lparr>rxFrame := frame_of_bytes m\<rparr>;
        if \<not> line_high then Some (rx_timeout s)
        else if has_status s JD_STATUS_RX_ACTIVE then Some (s\<lparr>timer := Some (250, Cb_setup_rx_timeout)\<rparr>)
        else Some s })"

definition uart_error :: "'a bus_scheme \<Rightarrow> 'a bus_scheme" where
  "uart_error s = s\<lparr>diagnostics := (diagnostics s)\<lparr>bus_uart_error := bus_uart_error (diagnostics s) + 1\<rparr>\<rparr>"

definition count_dropped :: "'a bus_scheme \<Rightarrow> 'a bus_scheme" where
  "count_dropped s = s\<lparr>diagnostics := (diagnostics s)\<lparr>packets_dropped := packets_dropped (diagnostics s) + 1\<rparr>\<rparr>"

definition count_received :: "'a bus_scheme \<Rightarrow> 'a bus_scheme" where
  "count_received s = s\<lparr>diagnostics := (diagnostics s)\<lparr>packets_received := packets_received (diagnostics s) + 1\<rparr>\<rparr>"

definition jd_rx_completed :: "int \<Rightarrow> 'a bus_scheme \<Rightarrow> 'a bus_scheme option" where
  "jd_rx_completed dataLeft s = do {
     let s = set_tick_timer JD_STATUS_RX_ACTIVE s;
     let frame = rxFrame s;
     if frm_size frame = 0 then Some s
     else if dataLeft < 0 then Some (uart_error s)
     else do {
       let txSize = nat ((252 - dataLeft) mod 4294967296);
       let declaredSize = JD_FRAME_SIZE frame;
       if txSize < declaredSize then Some (uart_error s)
       else do {
         d \<leftarrow> rd_mem (frame_bytes frame) 2 (declaredSize - 2);
         if jd_crc16 d \<noteq> frm_crc frame then Some (uart_error s)
         else if declaredSize > JD_SERIAL_PAYLOAD_SIZE + JD_SERIAL_FULL_HEADER_SIZE \<or>
                 pkt_service_size frame > JD_SERIAL_PAYLOAD_SIZE then Some (uart_error s)
         else if flag_set frame JD_FRAME_FLAG_VNEXT then Some (count_dropped s)
         else do {
           (s, frame, err) \<leftarrow> jd_rx_frame_received frame (count_received s);
           let s = s\<lparr>rxFrame := frame\<rparr>;
           Some (if err \<noteq> 0 then count_dropped s else s) } } } }"

section \<open>What each helper leaves alone\<close>

text \<open>The fields the invariants speak about; the timer bookkeeping changes none of them.\<close>

definition same_core :: "'a bus_scheme \<Rightarrow> 'a bus_scheme \<Rightarrow> bool" where
  "same_core s t \<longleftrightarrow> device_id t = device_id s \<and> in_irq t = in_irq s \<and> txFrame t = txFrame s \<and>
     rxFrame t = rxFrame s \<and> send_queue t = send_queue s \<and> q_sending t = q_sending s \<and>
     tx_acc_buffer t = tx_acc_buffer s \<and> rx_queue t = rx_queue s \<and> usb_fwd_en t = usb_fwd_en s \<and>
     usb_queue t = usb_queue s"

lemma same_core_refl [simp]: "same_core s s"
  by (simp add: same_core_def)

lemma same_core_trans: "same_core s t \<Longrightarrow> same_core t u \<Longrightarrow> same_core s u"
  by (simp add: same_core_def)

lemma set_tick_timer_core: "same_core s (set_tick_timer c s)"
  by (simp add: same_core_def set_tick_timer_def Let_def split_beta)

lemma jd_packet_ready_core: "same_core s (jd_packet_ready s)"
  using set_tick_timer_core [of "s\<lparr>txPending := True\<rparr>" 0]
  by (simp add: jd_packet_ready_def Let_def same_core_def)

lemma tx_done_core: "same_core s (tx_done s)"
  by (simp add: tx_done_def set_tick_timer_core)

lemma poke_ready_core: "same_core s (poke_ready s)"
  by (simp add: poke_ready_def jd_packet_ready_core)

lemma rx_timeout_core: "same_core s (rx_timeout s)"
  using set_tick_timer_core [of "s\<lparr>diagnostics := (diagnostics s)\<lparr>bus_timeout_error :=
    bus_timeout_error (diagnostics s) + 1\<rparr>\<rparr>" JD_STATUS_RX_ACTIVE]
  by (simp add: rx_timeout_def same_core_def)

lemma setup_rx_timeout_core: "same_core s (setup_rx_timeout s)"
  using rx_timeout_core [of s] set_tick_timer_core [of s 0]
  by (auto simp: setup_rx_timeout_def same_core_def)

section \<open>Invariant\<close>

definition bus_inv :: "'a bus_scheme \<Rightarrow> bool" where
  "bus_inv s \<longleftrightarrow> queue_inv (send_queue s) \<and> queue_inv (rx_queue s) \<and> acc_ok (tx_acc_buffer s) \<and>
     length (frm_data (rxFrame s)) = 240 \<and>
     (usb_fwd_en s \<longrightarrow> (\<exists>q. usb_queue s = Some q \<and> queue_inv q)) \<and>
     (q_sending s \<longleftrightarrow> txFrame s \<noteq> None) \<and>
     (\<forall>off. txFrame s = Some off \<longrightarrow> jd_queue_front (send_queue s) = Some off)"

lemma bus_inv_core: "same_core s t \<Longrightarrow> bus_inv t = bus_inv s"
  by (simp add: bus_inv_def same_core_def)

text \<open>A frame whose payload may have new flags but is otherwise the same.\<close>

definition same_payload :: "jd_frame \<Rightarrow> jd_frame \<Rightarrow> bool" where
  "same_payload f g \<longleftrightarrow> frm_size g = frm_size f \<and> frm_data g = frm_data f \<and> frm_crc g = frm_crc f \<and>
     frm_device_identifier g = frm_device_identifier f"

lemma length_frame_bytes [simp]: "length (frame_bytes f) = 12 + length (frm_data f)"
  by (simp add: frame_bytes_def)

lemma frame_pushable_iff:
  "frame_pushable f \<longleftrightarrow> frm_size f \<noteq> 0 \<and> align4 (unat (frm_size f)) \<le> length (frm_data f)"
  using align4_add [of 12 "unat (frm_size f)"]
  by (auto simp: frame_pushable_def FRM_SIZE_def JD_FRAME_SIZE_def add.commute)

lemma same_payload_pushable: "same_payload f g \<Longrightarrow> frame_pushable g = frame_pushable f"
  by (simp add: same_payload_def frame_pushable_iff)

lemma acc_ok_pushable: "acc_ok f \<Longrightarrow> frm_size f \<noteq> 0 \<Longrightarrow> frame_pushable f"
  by (auto simp: acc_ok_def frame_pushable_iff align4_id)

lemma acc_ok_same_payload: "same_payload f g \<Longrightarrow> acc_ok g = acc_ok f"
  by (simp add: same_payload_def acc_ok_def)

lemma acc_ok_reset: "acc_ok f \<Longrightarrow> acc_ok (jd_reset_frame f)"
  by (simp add: acc_ok_def jd_reset_frame_def)

section \<open>USB forwarding and the receive queue\<close>

text \<open>The fields a frame on its way to the receive side does not touch.\<close>

definition same_tx :: "'a bus_scheme \<Rightarrow> 'a bus_scheme \<Rightarrow> bool" where
  "same_tx s t \<longleftrightarrow> device_id t = device_id s \<and> in_irq t = in_irq s \<and> txFrame t = txFrame s \<and>
     rxFrame t = rxFrame s \<and> send_queue t = send_queue s \<and> q_sending t = q_sending s \<and>
     tx_acc_buffer t = tx_acc_buffer s"

lemma same_core_tx: "same_core s t \<Longrightarrow> same_tx s t"
  by (simp add: same_core_def same_tx_def)

lemma same_tx_trans: "same_tx s t \<Longrightarrow> same_tx t u \<Longrightarrow> same_tx s u"
  by (simp add: same_tx_def)

lemma jd_usb_send_frame_ok:
  assumes "bus_inv s" "frame_pushable f"
  shows "\<exists>t r. jd_usb_send_frame f s = Some (t, r) \<and> bus_inv t \<and> same_tx s t \<and> rx_queue t = rx_queue s"
proof (cases "usb_fwd_en s")
  case False
  with assms show ?thesis by (simp add: jd_usb_send_frame_def same_tx_def)
next
  case True
  then obtain uq where uq: "usb_queue s = Some uq" "queue_inv uq" using assms(1) by (auto simp: bus_inv_def)
  obtain uq' r where "jd_queue_push uq f = Some (uq', r)" "queue_inv uq'"
    using fq.push_law [OF uq(2) assms(2)] by blast
  with True uq assms(1) show ?thesis
    by (simp add: jd_usb_send_frame_def Let_def bus_inv_def same_tx_def)
qed

lemma jd_rx_core_ok:
  assumes "bus_inv s" "frame_pushable f"
  shows "\<exists>t g r. jd_rx_frame_received_core f lp s = Some (t, g, r) \<and> bus_inv t \<and> same_tx s t \<and>
    same_payload f g \<and>
    queue_frames (rx_queue t) = queue_frames (rx_queue s) @
      (if jd_services_needs_frame (device_id s) f \<and> r = 0 then [frame_image g] else [])"
proof -
  obtain s1 where s1: "(if \<not> lp then map_option fst (jd_usb_send_frame f s) else Some s) = Some s1"
    "bus_inv s1" "same_tx s s1" "rx_queue s1 = rx_queue s"
    using jd_usb_send_frame_ok [OF assms] assms(1) by (cases lp) (auto simp: same_tx_def)
  define g where "g = f\<lparr>frm_flags := (if lp then frm_flags f OR JD_FRAME_FLAG_LOOPBACK
              else frm_flags f AND NOT JD_FRAME_FLAG_LOOPBACK)\<rparr>"
  have g: "same_payload f g" by (simp add: g_def same_payload_def)
  then have "frame_pushable g" using assms(2) by (simp add: same_payload_pushable)
  moreover have "queue_inv (rx_queue s1)" using s1(2) by (simp add: bus_inv_def)
  ultimately obtain rq r where q: "jd_queue_push (rx_queue s1) g = Some (rq, r)" "queue_inv rq"
    "queue_frames rq = queue_frames (rx_queue s1) @ (if r = 0 then [frame_image g] else [])"
    using fq.push_law [of "rx_queue s1" g] by fastforce
  have dev: "device_id s1 = device_id s" using s1(3) by (simp add: same_tx_def)
  show ?thesis
  proof (cases "jd_services_needs_frame (device_id s) f")
    case False
    with s1 dev show ?thesis
      by (simp add: jd_rx_frame_received_core_def same_payload_def)
  next
    case True
    have "bus_inv (s1\<lparr>rx_queue := rq\<rparr>)"
      using s1(2) q by (simp add: bus_inv_def)
    moreover have "same_tx s (s1\<lparr>rx_queue := rq\<rparr>)"
      using s1(3) by (simp add: same_tx_def)
    ultimately show ?thesis
      using True s1 dev q g by (simp add: jd_rx_frame_received_core_def Let_def g_def)
  qed
qed

section \<open>Sending a frame\<close>

text \<open>What \<open>jd_send_frame\<close> adds to the send queue.\<close>

definition queued_image :: "jd_frame \<Rightarrow> 'a bus_scheme \<Rightarrow> mem list" where
  "queued_image f s =
     (if jd_need_to_send (device_id s) f \<and> jd_queue_will_fit (send_queue s) (FRM_SIZE f)
      then [frame_image f] else [])"

lemma send_queue_push_inv:
  assumes "bus_inv s" "frame_pushable f" "jd_queue_push (send_queue s) f = Some (sq, r)"
  shows "bus_inv (s\<lparr>send_queue := sq\<rparr>)"
    "queue_frames sq = queue_frames (send_queue s) @
       (if jd_queue_will_fit (send_queue s) (FRM_SIZE f) then [frame_image f] else [])"
proof -
  have q: "queue_inv (send_queue s)" using assms(1) by (simp add: bus_inv_def)
  have "queue_inv sq"
    using fq.push_law [OF q assms(2)] assms(3) by auto
  moreover have "jd_queue_front sq = Some off" if "txFrame s = Some off" for off
    using that assms jd_queue_push_front [OF q assms(2) _ assms(3)] by (simp add: bus_inv_def)
  ultimately show "bus_inv (s\<lparr>send_queue := sq\<rparr>)"
    using assms(1) by (simp add: bus_inv_def)
  show "queue_frames sq = queue_frames (send_queue s) @
       (if jd_queue_will_fit (send_queue s) (FRM_SIZE f) then [frame_image f] else [])"
  proof (cases "jd_queue_will_fit (send_queue s) (FRM_SIZE f)")
    case True
    then show ?thesis using fq.push_appends [OF q assms(2)] assms(3) by auto
  next
    case False
    then show ?thesis
      using jd_queue_push_full [OF q [unfolded queue_inv_def] assms(2)] assms(3) by auto
  qed
qed

lemma jd_send_frame_raw_ok:
  assumes "bus_inv s" "frame_pushable f"
  shows "\<exists>t g r. jd_send_frame_raw f s = Some (t, g, r) \<and> bus_inv t \<and> same_payload f g \<and>
    in_irq t = in_irq s \<and> device_id t = device_id s \<and> tx_acc_buffer t = tx_acc_buffer s \<and>
    rxFrame t = rxFrame s \<and> txFrame t = txFrame s \<and>
    queue_frames (send_queue t) = queue_frames (send_queue s) @ queued_image f s"
proof -
  obtain s1 r where s1: "(if jd_need_to_send (device_id s) f then do {
                  (sq, r) \<leftarrow> jd_queue_push (send_queue s) f;
                  Some (s\<lparr>send_queue := sq\<rparr>, r) } else Some (s, 0)) = Some (s1, r)"
    and inv: "bus_inv s1" and same: "in_irq s1 = in_irq s" "device_id s1 = device_id s"
      "tx_acc_buffer s1 = tx_acc_buffer s" "rxFrame s1 = rxFrame s" "txFrame s1 = txFrame s"
    and frames: "queue_frames (send_queue s1) = queue_frames (send_queue s) @ queued_image f s"
  proof (cases "jd_need_to_send (device_id s) f")
    case False
    with assms that [of s 0] show ?thesis by (simp add: queued_image_def)
  next
    case True
    have "queue_inv (send_queue s)" using assms(1) by (simp add: bus_inv_def)
    then obtain sq r where p: "jd_queue_push (send_queue s) f = Some (sq, r)"
      using fq.push_law assms(2) by blast
    with True send_queue_push_inv [OF assms p] that [of "s\<lparr>send_queue := sq\<rparr>" r] show ?thesis
      by (simp add: queued_image_def)
  qed
  obtain s2 g r2 where s2: "jd_rx_frame_received_core f True s1 = Some (s2, g, r2)" "bus_inv s2"
    "same_tx s1 s2" "same_payload f g"
    using jd_rx_core_ok [OF inv assms(2), of True] by blast
  have core: "same_core s2 (jd_packet_ready s2)" by (rule jd_packet_ready_core)
  then have "bus_inv (jd_packet_ready s2)" using s2(2) by (simp add: bus_inv_core)
  moreover have "send_queue (jd_packet_ready s2) = send_queue s1" "in_irq (jd_packet_ready s2) = in_irq s"
    "device_id (jd_packet_ready s2) = device_id s" "tx_acc_buffer (jd_packet_ready s2) = tx_acc_buffer s"
    "rxFrame (jd_packet_ready s2) = rxFrame s" "txFrame (jd_packet_ready s2) = txFrame s"
    using core s2(3) same by (simp_all add: same_core_def same_tx_def)
  moreover have "jd_send_frame_raw f s = Some (jd_packet_ready s2, g, r)"
    unfolding jd_send_frame_raw_def s1 by (simp add: jd_rx_frame_received_loopback_def s2(1))
  ultimately show ?thesis using s2(4) frames by simp
qed

lemma jd_send_frame_ok:
  assumes "bus_inv s" "frame_pushable f"
  shows "\<exists>t g r. jd_send_frame f s = Some (t, g, r) \<and> bus_inv t \<and> same_payload f g \<and>
    in_irq t = in_irq s \<and> device_id t = device_id s \<and> tx_acc_buffer t = tx_acc_buffer s \<and>
    rxFrame t = rxFrame s \<and> txFrame t = txFrame s \<and>
    queue_frames (send_queue t) = queue_frames (send_queue s) @ queued_image f s"
proof -
  obtain s1 r where s1: "jd_usb_send_frame f s = Some (s1, r)" "bus_inv s1" "same_tx s s1"
    using jd_usb_send_frame_ok [OF assms] by blast
  have "queued_image f s1 = queued_image f s" using s1(3) by (simp add: queued_image_def same_tx_def)
  with jd_send_frame_raw_ok [OF s1(2) assms(2)] s1 show ?thesis
    by (auto simp: jd_send_frame_def same_tx_def)
qed

text \<open>The frame that \<open>jd_send_frame_with_crc\<close> puts on the wire.\<close>

definition crc_frame :: "64 word \<Rightarrow> jd_frame \<Rightarrow> jd_frame" where
  "crc_frame self f = (let f = f\<lparr>frm_device_identifier := self\<rparr> in
     f\<lparr>frm_crc := jd_crc16 (take (JD_FRAME_SIZE f - 2) (drop 2 (frame_bytes f)))\<rparr>)"

lemma jd_compute_crc_ok:
  assumes "unat (frm_size f) \<le> length (frm_data f)"
  shows "jd_compute_crc f = Some (f\<lparr>frm_crc := jd_crc16 (take (JD_FRAME_SIZE f - 2) (drop 2 (frame_bytes f)))\<rparr>)"
  using assms by (simp add: jd_compute_crc_def JD_FRAME_SIZE_def)

lemma crc_frame_simps [simp]:
  "frm_size (crc_frame d f) = frm_size f" "frm_data (crc_frame d f) = frm_data f"
  "frm_flags (crc_frame d f) = frm_flags f" "frm_device_identifier (crc_frame d f) = d"
  by (simp_all add: crc_frame_def Let_def)

lemma crc_frame_acc_ok [simp]: "acc_ok (crc_frame d f) = acc_ok f"
  by (simp add: acc_ok_def)

lemma jd_send_frame_with_crc_ok:
  assumes "bus_inv s" "acc_ok f" "frm_size f \<noteq> 0"
  shows "\<exists>t g r. jd_send_frame_with_crc f s = Some (t, g, r) \<and> bus_inv t \<and>
    same_payload (crc_frame (device_id s) f) g \<and> in_irq t = in_irq s \<and> device_id t = device_id s \<and>
    tx_acc_buffer t = tx_acc_buffer s \<and> rxFrame t = rxFrame s \<and> txFrame t = txFrame s \<and>
    queue_frames (send_queue t) = queue_frames (send_queue s) @ queued_image (crc_frame (device_id s) f) s"
proof -
  have "unat (frm_size f) \<le> length (frm_data f)" using assms(2) by (simp add: acc_ok_def)
  then have c: "jd_compute_crc (f\<lparr>frm_device_identifier := device_id s\<rparr>) = Some (crc_frame (device_id s) f)"
    using jd_compute_crc_ok [of "f\<lparr>frm_device_identifier := device_id s\<rparr>"] by (simp add: crc_frame_def Let_def)
  have "frame_pushable (crc_frame (device_id s) f)"
    using assms(2,3) by (intro acc_ok_pushable) simp_all
  from jd_send_frame_ok [OF assms(1) this] c show ?thesis
    by (simp add: jd_send_frame_with_crc_def)
qed

section \<open>Sending a packet\<close>

lemma unat_size_zero_iff: "unat (frm_size f) = 0 \<longleftrightarrow> frm_size f = 0"
  by (rule unat_eq_0)

text \<open>\<open>jd_send\<close> adds the packet to the frame under construction; when it does not fit, the
  frame is sent first and the packet starts the next one.\<close>

lemma jd_send_room:
  assumes "bus_inv s" "\<not> in_irq s" "num < 256" "cmd < 65536"
    "unat (frm_size (tx_acc_buffer s)) + 4 + length data \<le> 236"
  shows "jd_send num cmd data s = Some (s\<lparr>tx_acc_buffer := appended (tx_acc_buffer s) num cmd data\<rparr>, 0)"
    "bus_inv (s\<lparr>tx_acc_buffer := appended (tx_acc_buffer s) num cmd data\<rparr>)"
proof -
  have a: "acc_ok (tx_acc_buffer s)" using assms(1) by (simp add: bus_inv_def)
  note f = frame_append_fits [OF a assms(3-5)]
  show "jd_send num cmd data s = Some (s\<lparr>tx_acc_buffer := appended (tx_acc_buffer s) num cmd data\<rparr>, 0)"
    using assms(2) f(1) by (simp add: jd_send_def)
  show "bus_inv (s\<lparr>tx_acc_buffer := appended (tx_acc_buffer s) num cmd data\<rparr>)"
    using assms(1) f(2) by (simp add: bus_inv_def)
qed

lemma jd_send_overflow:
  assumes "bus_inv s" "\<not> in_irq s" "num < 256" "cmd < 65536" "length data \<le> 232"
    "236 < unat (frm_size (tx_acc_buffer s)) + 4 + length data"
  shows "\<exists>t g. jd_send num cmd data s = Some (t, 0) \<and> bus_inv t \<and> in_irq t = in_irq s \<and>
    txFrame t = txFrame s \<and> device_id t = device_id s \<and> same_payload (crc_frame (device_id s) (tx_acc_buffer s)) g \<and>
    tx_acc_buffer t = appended (jd_reset_frame g) num cmd data \<and>
    queue_frames (send_queue t) = queue_frames (send_queue s) @
      queued_image (crc_frame (device_id s) (tx_acc_buffer s)) s"
proof -
  have a: "acc_ok (tx_acc_buffer s)" using assms(1) by (simp add: bus_inv_def)
  have nz: "frm_size (tx_acc_buffer s) \<noteq> 0"
    using assms(5,6) unat_size_zero_iff [of "tx_acc_buffer s"] by auto
  obtain t g r where t: "jd_send_frame_with_crc (tx_acc_buffer s) s = Some (t, g, r)" "bus_inv t"
    "same_payload (crc_frame (device_id s) (tx_acc_buffer s)) g" "in_irq t = in_irq s"
    "device_id t = device_id s" "txFrame t = txFrame s"
    "queue_frames (send_queue t) = queue_frames (send_queue s) @
      queued_image (crc_frame (device_id s) (tx_acc_buffer s)) s"
    using jd_send_frame_with_crc_ok [OF assms(1) a nz] by blast
  have full: "frame_append (tx_acc_buffer s) num cmd data = Some (tx_acc_buffer s, False)"
    using assms(3-6) by (intro frame_append_full [OF a]) simp_all
  have g: "acc_ok (jd_reset_frame g)"
    using a t(3) by (intro acc_ok_reset) (simp add: acc_ok_same_payload)
  have "unat (frm_size (jd_reset_frame g)) + 4 + length data \<le> 236"
    using assms(5) by (simp add: jd_reset_frame_def)
  note f = frame_append_fits [OF g assms(3,4) this]
  have "bus_inv (t\<lparr>tx_acc_buffer := appended (jd_reset_frame g) num cmd data\<rparr>)"
    using t(2) f(2) by (simp add: bus_inv_def)
  moreover have "jd_send num cmd data s = Some (t\<lparr>tx_acc_buffer := appended (jd_reset_frame g) num cmd data\<rparr>, 0)"
    using t(1) assms(2) full f(1) by (simp add: jd_send_def)
  ultimately show ?thesis using t(3-7) by (intro exI [of _ g] exI conjI) (assumption | simp)+
qed

lemma jd_send_ok:
  assumes "bus_inv s" "\<not> in_irq s" "num < 256" "cmd < 65536" "length data \<le> 232"
  shows "\<exists>t. jd_send num cmd data s = Some (t, 0) \<and> bus_inv t \<and> in_irq t = in_irq s \<and>
    device_id t = device_id s \<and> txFrame t = txFrame s \<and>
    queue_frames (send_queue t) = queue_frames (send_queue s) @
      (if 236 < unat (frm_size (tx_acc_buffer s)) + 4 + length data
       then queued_image (crc_frame (device_id s) (tx_acc_buffer s)) s else [])"
proof (cases "236 < unat (frm_size (tx_acc_buffer s)) + 4 + length data")
  case True
  with jd_send_overflow [OF assms] show ?thesis by auto
next
  case False
  then have "unat (frm_size (tx_acc_buffer s)) + 4 + length data \<le> 236" by simp
  from jd_send_room [OF assms(1-4) this] False show ?thesis by simp
qed

lemma jd_tx_flush_ok:
  assumes "bus_inv s" "\<not> in_irq s"
  shows "\<exists>t. jd_tx_flush s = Some t \<and> bus_inv t \<and> in_irq t = in_irq s \<and> device_id t = device_id s \<and>
    frm_size (tx_acc_buffer t) = 0 \<and> txFrame t = txFrame s \<and>
    queue_frames (send_queue t) = queue_frames (send_queue s) @
      (if frm_size (tx_acc_buffer s) = 0 then []
       else queued_image (crc_frame (device_id s) (tx_acc_buffer s)) s)"
proof (cases "frm_size (tx_acc_buffer s) = 0")
  case True
  with assms show ?thesis by (simp add: jd_tx_flush_def)
next
  case False
  have a: "acc_ok (tx_acc_buffer s)" using assms(1) by (simp add: bus_inv_def)
  obtain t g r where t: "jd_send_frame_with_crc (tx_acc_buffer s) s = Some (t, g, r)" "bus_inv t"
    "same_payload (crc_frame (device_id s) (tx_acc_buffer s)) g" "in_irq t = in_irq s"
    "device_id t = device_id s" "txFrame t = txFrame s"
    "queue_frames (send_queue t) = queue_frames (send_queue s) @
      queued_image (crc_frame (device_id s) (tx_acc_buffer s)) s"
    using jd_send_frame_with_crc_ok [OF assms(1) a False] by blast
  have "acc_ok (jd_reset_frame g)"
    using a t(3) by (intro acc_ok_reset) (simp add: acc_ok_same_payload)
  with t False assms(2) show ?thesis
    by (simp add: jd_tx_flush_def Let_def bus_inv_def jd_services_packet_queued_def jd_reset_frame_def)
qed

section \<open>The physical layer keeps the invariant\<close>

lemma jd_tx_frame_sent_ok:
  assumes "bus_inv s" "txFrame s \<noteq> None"
  shows "\<exists>t b. jd_tx_completed s = Some t \<and> bus_inv t \<and> txFrame t = None \<and>
    queue_front_bytes (send_queue s) = Some b \<and>
    queue_frames (send_queue s) = b # queue_frames (send_queue t)"
proof -
  obtain off where off: "txFrame s = Some off" "jd_queue_front (send_queue s) = Some off"
    using assms by (auto simp: bus_inv_def)
  have rep: "queue_rep (send_queue s) (queue_frames (send_queue s))"
    using assms(1) by (simp add: bus_inv_def queue_inv_def)
  then have "queue_frames (send_queue s) \<noteq> []"
    using jd_queue_front_empty [of "send_queue s"] off by (metis option.distinct(1))
  then obtain b bs where bs: "queue_frames (send_queue s) = b # bs" by (cases "queue_frames (send_queue s)") auto
  with rep have rep': "queue_rep (send_queue s) (b # bs)" by simp
  then obtain sq where sq: "jd_queue_shift (send_queue s) = Some sq" "queue_rep sq bs"
    using jd_queue_shift_rep by blast
  have fb: "queue_front_bytes (send_queue s) = Some b" using jd_queue_front_rep [OF rep'] by metis
  define u where "u = (poke_ready (s\<lparr>send_queue := sq, q_sending := False\<rparr>))\<lparr>txFrame := None\<rparr>"
  have u: "send_queue u = sq" "q_sending u = False" "txFrame u = None" "rx_queue u = rx_queue s"
    "tx_acc_buffer u = tx_acc_buffer s" "rxFrame u = rxFrame s" "usb_fwd_en u = usb_fwd_en s"
    "usb_queue u = usb_queue s"
    using poke_ready_core [of "s\<lparr>send_queue := sq, q_sending := False\<rparr>"]
    by (simp_all add: u_def same_core_def)
  then have iu: "bus_inv u"
    using assms(1) queue_rep_inv [OF sq(2)] by (simp add: bus_inv_def)
  have "jd_tx_completed s = Some (tx_done u)"
    using off sq(1) assms(1)
    by (simp add: jd_tx_completed_def jd_tx_frame_sent_def bus_inv_def u_def)
  moreover have "bus_inv (tx_done u)" using iu bus_inv_core [OF tx_done_core [of u]] by simp
  moreover have "send_queue (tx_done u) = sq" "txFrame (tx_done u) = None"
    using tx_done_core [of u] u by (simp_all add: same_core_def)
  ultimately show ?thesis using fb bs queue_rep_frames [OF sq(2)] by auto
qed

lemma flush_tx_queue_ok:
  assumes "bus_inv s"
  shows "\<exists>t. flush_tx_queue ok s = Some t \<and> bus_inv t \<and> send_queue t = send_queue s \<and>
    (txFrame s \<noteq> None \<longrightarrow> txFrame t = txFrame s)"
proof (cases "phys_status s AND (JD_STATUS_RX_ACTIVE OR JD_STATUS_TX_ACTIVE) \<noteq> 0")
  case True
  with assms show ?thesis by (simp add: flush_tx_queue_def)
next
  case False
  define s1 where "s1 = s\<lparr>phys_status := phys_status s OR JD_STATUS_TX_ACTIVE, txPending := False\<rparr>"
  obtain s2 where s2: "(case txFrame s1 of Some f \<Rightarrow> Some s1 | None \<Rightarrow> do {
      (s, f) \<leftarrow> jd_tx_get_frame s1; Some (s\<lparr>txFrame := f\<rparr>) }) = Some s2"
    and i2: "bus_inv s2" and q2: "send_queue s2 = send_queue s"
    and x2: "txFrame s \<noteq> None \<longrightarrow> txFrame s2 = txFrame s"
  proof (cases "txFrame s1")
    case (Some f)
    with assms that [of s1] show ?thesis by (simp add: s1_def bus_inv_def)
  next
    case None
    then have "\<not> q_sending s1" using assms by (simp add: s1_def bus_inv_def)
    with None assms that show ?thesis
      by (cases "jd_queue_front (send_queue s1)") (auto simp: jd_tx_get_frame_def s1_def bus_inv_def)
  qed
  define s3 where "s3 = s2\<lparr>start_tx := ucast (micros s2)\<rparr>"
  define s4 where "s4 = s3\<lparr>diagnostics := (diagnostics s3)\<lparr>bus_lo_error := bus_lo_error (diagnostics s3) + 1\<rparr>\<rparr>"
  have c: "same_core s2 (tx_done s2)" "same_core s2 (set_tick_timer 0 s3)"
    "same_core s2 ((tx_done s4)\<lparr>txPending := True\<rparr>)"
    using tx_done_core [of s2] set_tick_timer_core [of s3 0] tx_done_core [of s4]
    by (simp_all add: same_core_def s3_def s4_def)
  have "flush_tx_queue ok s = Some (if txFrame s2 = None then tx_done s2
      else if ok then set_tick_timer 0 s3 else (tx_done s4)\<lparr>txPending := True\<rparr>)"
    using False s2 by (simp add: flush_tx_queue_def Let_def s1_def [symmetric] s3_def [symmetric] s4_def [symmetric])
  moreover have "bus_inv t \<and> send_queue t = send_queue s \<and> (txFrame s \<noteq> None \<longrightarrow> txFrame t = txFrame s)"
    if "same_core s2 t" for t
    using that i2 q2 x2 bus_inv_core [OF that] by (simp add: same_core_def)
  ultimately show ?thesis using c by auto
qed

lemma jd_line_falling_ok:
  assumes "bus_inv s" "\<not> has_status s JD_STATUS_RX_ACTIVE"
  shows "\<exists>t. jd_line_falling high s = Some t \<and> bus_inv t \<and> send_queue t = send_queue s \<and>
    txFrame t = txFrame s"
proof -
  define s1 where "s1 = s\<lparr>phys_status := phys_status s OR JD_STATUS_RX_ACTIVE\<rparr>"
  define m where "m = patch (frame_bytes (rxFrame s1)) 0 (replicate 16 0)"
  have len: "length (frm_data (rxFrame s1)) = 240" using assms(1) by (simp add: s1_def bus_inv_def)
  then have w: "wr_mem (frame_bytes (rxFrame s1)) 0 (replicate 16 0) = Some m" by (simp add: m_def)
  have "length m = 252" using len by (simp add: m_def)
  then have i2: "bus_inv (s1\<lparr>rxFrame := frame_of_bytes m\<rparr>)"
    using assms(1) by (simp add: s1_def bus_inv_def frame_of_bytes_def)
  have c: "same_core (s1\<lparr>rxFrame := frame_of_bytes m\<rparr>)
      (if high then if has_status (s1\<lparr>rxFrame := frame_of_bytes m\<rparr>) JD_STATUS_RX_ACTIVE
        then s1\<lparr>rxFrame := frame_of_bytes m, timer := Some (250, Cb_setup_rx_timeout)\<rparr>
        else s1\<lparr>rxFrame := frame_of_bytes m\<rparr>
       else rx_timeout (s1\<lparr>rxFrame := frame_of_bytes m\<rparr>))" (is "same_core _ ?t")
    using rx_timeout_core [of "s1\<lparr>rxFrame := frame_of_bytes m\<rparr>"] by (simp add: same_core_def)
  have "bus_inv ?t" using i2 bus_inv_core [OF c] by simp
  moreover have "send_queue ?t = send_queue s \<and> txFrame ?t = txFrame s" using c by (simp add: same_core_def s1_def)
  moreover have "jd_line_falling high s = Some ?t"
    using assms(2) w by (simp add: jd_line_falling_def Let_def s1_def [symmetric])
  ultimately show ?thesis by blast
qed

text \<open>The checks a received frame passes before it is delivered.\<close>

definition rx_accepts :: "64 word \<Rightarrow> int \<Rightarrow> jd_frame \<Rightarrow> bool" where
  "rx_accepts self dataLeft f \<longleftrightarrow> frm_size f \<noteq> 0 \<and> 0 \<le> dataLeft \<and> int (JD_FRAME_SIZE f) \<le> 252 - dataLeft \<and>
     jd_crc16 (take (JD_FRAME_SIZE f - 2) (drop 2 (frame_bytes f))) = frm_crc f \<and>
     pkt_service_size f \<le> JD_SERIAL_PAYLOAD_SIZE \<and> \<not> flag_set f JD_FRAME_FLAG_VNEXT \<and>
     jd_services_needs_frame self f"

lemma jd_rx_completed_ok:
  assumes "bus_inv s" "dataLeft \<le> 252"
  shows "\<exists>t xs. jd_rx_completed dataLeft s = Some t \<and> bus_inv t \<and> send_queue t = send_queue s \<and>
    txFrame t = txFrame s \<and> queue_frames (rx_queue t) = queue_frames (rx_queue s) @ xs \<and>
    (xs \<noteq> [] \<longrightarrow> xs = [frame_image (rxFrame t)] \<and> same_payload (rxFrame s) (rxFrame t) \<and>
       rx_accepts (device_id s) dataLeft (rxFrame s))"
proof -
  define s1 where "s1 = set_tick_timer JD_STATUS_RX_ACTIVE s"
  define f where "f = rxFrame s1"
  have c: "same_core s s1" by (simp add: s1_def set_tick_timer_core)
  have i1: "bus_inv s1" using assms(1) bus_inv_core [OF c] by simp
  have q1: "send_queue s1 = send_queue s" "txFrame s1 = txFrame s" "rx_queue s1 = rx_queue s"
    "rxFrame s = f" "device_id s1 = device_id s"
    using c by (simp_all add: same_core_def f_def)
  have len: "length (frm_data f) = 240" using i1 by (simp add: f_def bus_inv_def)
  have e: "bus_inv (uart_error s1)" "bus_inv (count_dropped s1)" "bus_inv (count_received s1)"
    using i1 by (simp_all add: uart_error_def count_dropped_def count_received_def bus_inv_def)
  have e2: "send_queue (u s1) = send_queue s \<and> txFrame (u s1) = txFrame s \<and> rx_queue (u s1) = rx_queue s \<and>
      device_id (u s1) = device_id s"
    if "u = uart_error \<or> u = count_dropped \<or> u = count_received" for u
    using that q1 by (auto simp: uart_error_def count_dropped_def count_received_def)
  note d = jd_rx_completed_def Let_def s1_def [symmetric] f_def [symmetric]
  show ?thesis
  proof (cases "frm_size f = 0 \<or> dataLeft < 0 \<or> nat ((252 - dataLeft) mod 4294967296) < JD_FRAME_SIZE f")
    case True
    then show ?thesis using i1 q1 e e2 [of uart_error] by (auto simp: d)
  next
    case False
    with assms(2) have le: "int (JD_FRAME_SIZE f) \<le> 252 - dataLeft" and nz: "frm_size f \<noteq> 0"
      and pos: "0 \<le> dataLeft" by auto
    then have le': "JD_FRAME_SIZE f \<le> 252" by simp
    then have rd: "rd_mem (frame_bytes f) 2 (JD_FRAME_SIZE f - 2) =
        Some (take (JD_FRAME_SIZE f - 2) (drop 2 (frame_bytes f)))"
      using len by (intro rd_mem_Some) (simp add: JD_FRAME_SIZE_def)
    have "align4 (unat (frm_size f)) \<le> 240" using le' by (intro align4_least) (simp_all add: JD_FRAME_SIZE_def)
    then have "frame_pushable f" using nz len by (simp add: frame_pushable_iff)
    from jd_rx_core_ok [OF e(3) this, of False] e2 [of count_received]
    obtain t g r where t: "jd_rx_frame_received f (count_received s1) = Some (t, g, r)" "bus_inv t"
      "same_tx (count_received s1) t" "same_payload f g"
      "queue_frames (rx_queue t) = queue_frames (rx_queue s) @
         (if jd_services_needs_frame (device_id s) f \<and> r = 0 then [frame_image g] else [])"
      by (auto simp: jd_rx_frame_received_def)
    define u where "u = (if r \<noteq> 0 then count_dropped (t\<lparr>rxFrame := g\<rparr>) else t\<lparr>rxFrame := g\<rparr>)"
    have u: "bus_inv u" "send_queue u = send_queue s" "txFrame u = txFrame s" "rx_queue u = rx_queue t" "rxFrame u = g"
      using t len e2 [of count_received]
      by (simp_all add: u_def bus_inv_def same_payload_def count_dropped_def same_tx_def)
    show ?thesis
    proof (cases "jd_crc16 (take (JD_FRAME_SIZE f - 2) (drop 2 (frame_bytes f))) = frm_crc f \<and>
        \<not> (JD_FRAME_SIZE f > JD_SERIAL_PAYLOAD_SIZE + JD_SERIAL_FULL_HEADER_SIZE \<or>
           pkt_service_size f > JD_SERIAL_PAYLOAD_SIZE) \<and> \<not> flag_set f JD_FRAME_FLAG_VNEXT")
      case True
      then have "jd_rx_completed dataLeft s = Some u"
        using False t(1) rd by (simp add: d u_def)
      with True u t(4,5) le nz pos q1 show ?thesis
        by (auto simp: rx_accepts_def)
    next
      case no: False
      then show ?thesis
        using False rd e e2 [of uart_error] e2 [of count_dropped] by (auto simp: d)
    qed
  qed
qed

section \<open>Initialisation\<close>

text \<open>The state after \<open>jd_rx_init\<close> and \<open>jd_tx_init\<close>: all static variables are zero, the
  queues are allocated, and \<open>_jd_phys_start\<close> has armed the timer.\<close>

definition jd_phys_start :: "'a bus_scheme \<Rightarrow> 'a bus_scheme" where
  "jd_phys_start s = set_tick_timer 0 s"

definition bus_zero :: "64 word \<Rightarrow> 32 word \<Rightarrow> nat \<Rightarrow> nat \<Rightarrow> bool \<Rightarrow> nat \<Rightarrow> bus" where
  "bus_zero dev sd tx_sz rx_sz fwd usb_sz =
     \<lparr>device_id = dev, micros = 0, now_us = 0, rnd_seed = sd, in_irq = False, phys_status = 0,
      txPending = False, txFrame = None, start_tx = 0, rxFrame = zero_frame, timer = None,
      diagnostics = \<lparr>bus_lo_error = 0, bus_uart_error = 0, bus_timeout_error = 0,
        packets_received = 0, packets_dropped = 0\<rparr>,
      send_queue = jd_tx_init tx_sz None, q_sending = False, tx_acc_buffer = zero_frame,
      rx_queue = jd_rx_init rx_sz None, packets_sent = 0, usb_fwd_en = fwd,
      usb_queue = (if fwd then Some (jd_queue_alloc usb_sz) else None), usb_frame_gap = 0\<rparr>"

definition bus_init :: "64 word \<Rightarrow> 32 word \<Rightarrow> nat \<Rightarrow> nat \<Rightarrow> bool \<Rightarrow> nat \<Rightarrow> bus" where
  "bus_init dev sd tx_sz rx_sz fwd usb_sz = jd_phys_start (bus_zero dev sd tx_sz rx_sz fwd usb_sz)"

lemma bus_init_inv:
  assumes "tx_sz < 65536" "rx_sz < 65536" "usb_sz < 65536"
  shows "bus_inv (bus_init dev sd tx_sz rx_sz fwd usb_sz)"
    "queue_frames (send_queue (bus_init dev sd tx_sz rx_sz fwd usb_sz)) = []"
proof -
  define s where "s = bus_zero dev sd tx_sz rx_sz fwd usb_sz"
  have q: "queue_inv (jd_queue_alloc n)" "queue_frames (jd_queue_alloc n) = []" if "n < 65536" for n
    using queue_rep_inv [OF queue_alloc_rep [OF that]] queue_rep_frames [OF queue_alloc_rep [OF that]]
    by simp_all
  have i: "bus_inv s" "queue_frames (send_queue s) = []"
    using q assms by (simp_all add: s_def bus_zero_def bus_inv_def jd_tx_init_def jd_rx_init_def
        acc_ok_def zero_frame_def JD_SERIAL_PAYLOAD_SIZE_def)
  have c: "same_core s (jd_phys_start s)" by (simp add: jd_phys_start_def set_tick_timer_core)
  show "bus_inv (bus_init dev sd tx_sz rx_sz fwd usb_sz)"
    using i bus_inv_core [OF c] by (simp add: bus_init_def s_def)
  show "queue_frames (send_queue (bus_init dev sd tx_sz rx_sz fwd usb_sz)) = []"
    using i c by (simp add: same_core_def bus_init_def s_def)
qed

end
