(* ===== verification/Jd_Link.thy ===== *)
theory Jd_Link
  imports Jd_Bus
begin

text \<open>
  The transport as a state machine.  Its steps are the entry points of the modules in
  \<open>Jd_Bus\<close>: the calls made by the main loop and the interrupts and timer callbacks that the
  platform delivers.  \<open>enabled\<close> states when the platform may deliver each of them (a transmission
  completes only while one is in progress, a falling edge is not reported during a reception, the
  main loop does not run in an interrupt).  The theory shows that from the state after
  initialisation no sequence of enabled steps reaches a panic or an access outside of a buffer,
  that the frame handed to the UART stays in place until it is sent, and that frames leave in the
  order in which they were queued.
\<close>

datatype bus_event =
    Ev_send nat nat mem
  | Ev_flush
  | Ev_send_frame jd_frame
  | Ev_release
  | Ev_timer bool
  | Ev_tx_completed
  | Ev_line_falling bool
  | Ev_rx_data jd_frame
  | Ev_rx_completed int
  | Ev_clock "64 word"

text \<open>The hardware timer calls the callback it was armed with.\<close>

definition timer_fires :: "bool \<Rightarrow> 'a bus_scheme \<Rightarrow> 'a bus_scheme option" where
  "timer_fires uart_ok s =
     (case timer s of
        None \<Rightarrow> Some s
      | Some (_, cb) \<Rightarrow>
          (let s = s\<lparr>timer := None\<rparr> in
           case cb of
             Cb_flush_tx_queue \<Rightarrow> flush_tx_queue uart_ok s
           | Cb_tick \<Rightarrow> tick s
           | Cb_rx_timeout \<Rightarrow> Some (rx_timeout s)
           | Cb_setup_rx_timeout \<Rightarrow> Some (setup_rx_timeout s)))"

fun bus_step :: "bus_event \<Rightarrow> 'a bus_scheme \<Rightarrow> 'a bus_scheme option" where
  "bus_step (Ev_send num cmd data) s = map_option fst (jd_send num cmd data s)"
| "bus_step Ev_flush s = jd_tx_flush s"
| "bus_step (Ev_send_frame f) s = map_option fst (jd_send_frame f s)"
| "bus_step Ev_release s = jd_rx_release_frame s"
| "bus_step (Ev_timer uart_ok) s = timer_fires uart_ok s"
| "bus_step Ev_tx_completed s = jd_tx_completed s"
| "bus_step (Ev_line_falling high) s = jd_line_falling high s"
| "bus_step (Ev_rx_data f) s = Some (s\<lparr>rxFrame := f\<rparr>)"
| "bus_step (Ev_rx_completed dataLeft) s = jd_rx_completed dataLeft s"
| "bus_step (Ev_clock t) s = Some (s\<lparr>micros := t\<rparr>)"

text \<open>When each event may happen.  A transmission takes at most 0x20000 us: the platform promises
  to report its completion before the periodic \<open>tick\<close> sees a longer one.\<close>

fun enabled :: "bus_event \<Rightarrow> 'a bus_scheme \<Rightarrow> bool" where
  "enabled (Ev_send num cmd data) s \<longleftrightarrow> \<not> in_irq s \<and> num < 256 \<and> cmd < 65536 \<and> length data \<le> 232"
| "enabled Ev_flush s \<longleftrightarrow> \<not> in_irq s"
| "enabled (Ev_send_frame f) s \<longleftrightarrow> frm_size f \<noteq> 0 \<and> align4 (unat (frm_size f)) \<le> length (frm_data f)"
| "enabled Ev_release s \<longleftrightarrow> jd_rx_has_frame s"
| "enabled (Ev_timer uart_ok) s \<longleftrightarrow>
     (has_status s JD_STATUS_TX_ACTIVE \<longrightarrow> (ucast (micros s) - start_tx s :: 32 word) \<le> 0x20000)"
| "enabled Ev_tx_completed s \<longleftrightarrow> has_status s JD_STATUS_TX_ACTIVE \<and> txFrame s \<noteq> None"
| "enabled (Ev_line_falling high) s \<longleftrightarrow> \<not> has_status s JD_STATUS_RX_ACTIVE"
| "enabled (Ev_rx_data f) s \<longleftrightarrow> has_status s JD_STATUS_RX_ACTIVE \<and> length (frm_data f) = 240"
| "enabled (Ev_rx_completed dataLeft) s \<longleftrightarrow> has_status s JD_STATUS_RX_ACTIVE \<and> dataLeft \<le> 252"
| "enabled (Ev_clock t) s \<longleftrightarrow> True"

inductive reachable :: "bus \<Rightarrow> bool" where
  reachable_init: "tx_sz < 65536 \<Longrightarrow> rx_sz < 65536 \<Longrightarrow> usb_sz < 65536 \<Longrightarrow>
    reachable (bus_init dev sd tx_sz rx_sz fwd usb_sz)"
| reachable_step: "reachable s \<Longrightarrow> enabled e s \<Longrightarrow> bus_step e s = Some t \<Longrightarrow> reachable t"

section \<open>What an event adds to the send queue and takes from it\<close>

definition flushed :: "'a bus_scheme \<Rightarrow> mem list" where
  "flushed s = queued_image (crc_frame (device_id s) (tx_acc_buffer s)) s"

fun ev_queued :: "bus_event \<Rightarrow> 'a bus_scheme \<Rightarrow> mem list" where
  "ev_queued (Ev_send num cmd data) s =
     (if 236 < unat (frm_size (tx_acc_buffer s)) + 4 + length data then flushed s else [])"
| "ev_queued Ev_flush s = (if frm_size (tx_acc_buffer s) = 0 then [] else flushed s)"
| "ev_queued (Ev_send_frame f) s = queued_image f s"
| "ev_queued _ s = []"

fun ev_sent :: "bus_event \<Rightarrow> 'a bus_scheme \<Rightarrow> mem list" where
  "ev_sent Ev_tx_completed s =
     (case queue_front_bytes (send_queue s) of None \<Rightarrow> [] | Some b \<Rightarrow> [b])"
| "ev_sent _ s = []"

section \<open>Every enabled step succeeds\<close>

lemma tick_ok:
  assumes "bus_inv s" "has_status s JD_STATUS_TX_ACTIVE \<longrightarrow> (ucast (micros s) - start_tx s :: 32 word) \<le> 0x20000"
  shows "\<exists>t. tick s = Some t \<and> same_core s t"
  using assms(2) set_tick_timer_core [of s 0] by (auto simp: tick_def jd_assert_def not_less)

lemma timer_fires_ok:
  assumes "bus_inv s" "enabled (Ev_timer ok) s"
  shows "\<exists>t. timer_fires ok s = Some t \<and> bus_inv t \<and> send_queue t = send_queue s \<and>
    (txFrame s \<noteq> None \<longrightarrow> txFrame t = txFrame s)"
proof (cases "timer s")
  case None
  with assms(1) show ?thesis by (simp add: timer_fires_def)
next
  case (Some tc)
  obtain d cb where tc: "tc = (d, cb)" by force
  define s1 where "s1 = s\<lparr>timer := None\<rparr>"
  have i1: "bus_inv s1" and q1: "send_queue s1 = send_queue s" "txFrame s1 = txFrame s"
    and h1: "has_status s1 JD_STATUS_TX_ACTIVE \<longrightarrow> (ucast (micros s1) - start_tx s1 :: 32 word) \<le> 0x20000"
    using assms by (simp_all add: s1_def bus_inv_def has_status_def)
  have core: "bus_inv t \<and> send_queue t = send_queue s \<and> txFrame t = txFrame s" if "same_core s1 t" for t
    using that i1 q1 bus_inv_core [OF that] by (simp add: same_core_def)
  have eq: "timer_fires ok s = (case cb of Cb_flush_tx_queue \<Rightarrow> flush_tx_queue ok s1 | Cb_tick \<Rightarrow> tick s1
      | Cb_rx_timeout \<Rightarrow> Some (rx_timeout s1) | Cb_setup_rx_timeout \<Rightarrow> Some (setup_rx_timeout s1))"
    using Some tc by (cases cb) (simp_all add: timer_fires_def s1_def Let_def)
  show ?thesis
  proof (cases cb)
    case Cb_flush_tx_queue
    then show ?thesis using eq flush_tx_queue_ok [OF i1, of ok] q1 by auto
  next
    case Cb_tick
    then show ?thesis using eq tick_ok [OF i1 h1] core by auto
  next
    case Cb_rx_timeout
    then show ?thesis using eq core [OF rx_timeout_core] by simp
  next
    case Cb_setup_rx_timeout
    then show ?thesis using eq core [OF setup_rx_timeout_core] by simp
  qed
qed

lemma jd_rx_release_ok:
  assumes "bus_inv s" "jd_rx_has_frame s"
  shows "\<exists>t. jd_rx_release_frame s = Some t \<and> bus_inv t \<and> send_queue t = send_queue s \<and>
    txFrame t = txFrame s \<and> queue_frames (rx_queue t) = tl (queue_frames (rx_queue s))"
proof -
  have rep: "queue_rep (rx_queue s) (queue_frames (rx_queue s))"
    using assms(1) by (simp add: bus_inv_def queue_inv_def)
  then have "queue_frames (rx_queue s) \<noteq> []"
    using jd_queue_front_empty [of "rx_queue s"] assms(2) by (auto simp: jd_rx_has_frame_def)
  then obtain b bs where bs: "queue_frames (rx_queue s) = b # bs" by (cases "queue_frames (rx_queue s)") auto
  with rep obtain rq where rq: "jd_queue_shift (rx_queue s) = Some rq" "queue_rep rq bs"
    using jd_queue_shift_rep by metis
  then show ?thesis
    using assms(1) bs queue_rep_inv [OF rq(2)] queue_rep_frames [OF rq(2)]
    by (simp add: jd_rx_release_frame_def bus_inv_def)
qed

lemma bus_step_ok:
  assumes "bus_inv s" "enabled e s"
  shows "\<exists>t. bus_step e s = Some t \<and> bus_inv t \<and>
    ev_sent e s @ queue_frames (send_queue t) = queue_frames (send_queue s) @ ev_queued e s \<and>
    (txFrame s \<noteq> None \<longrightarrow> txFrame t = (if e = Ev_tx_completed then None else txFrame s))"
proof (cases e)
  case (Ev_send num cmd data)
  with assms(2) have "\<not> in_irq s" "num < 256" "cmd < 65536" "length data \<le> 232" by simp_all
  from jd_send_ok [OF assms(1) this] Ev_send show ?thesis by (auto simp: flushed_def)
next
  case Ev_flush
  with jd_tx_flush_ok [OF assms(1)] assms(2) show ?thesis by (auto simp: flushed_def)
next
  case (Ev_send_frame f)
  with assms(2) have "frame_pushable f" by (simp add: frame_pushable_iff)
  from jd_send_frame_ok [OF assms(1) this] Ev_send_frame show ?thesis by auto
next
  case Ev_release
  with jd_rx_release_ok [OF assms(1)] assms(2) show ?thesis by auto
next
  case (Ev_timer ok)
  with timer_fires_ok [OF assms(1), of ok] assms(2) show ?thesis by auto
next
  case Ev_tx_completed
  with assms(2) have "txFrame s \<noteq> None" by simp
  from jd_tx_frame_sent_ok [OF assms(1) this] Ev_tx_completed show ?thesis by auto
next
  case (Ev_line_falling h)
  with jd_line_falling_ok [OF assms(1), of h] assms(2) show ?thesis by auto
next
  case (Ev_rx_data f)
  with assms show ?thesis by (simp add: bus_inv_def)
next
  case (Ev_rx_completed d)
  with assms(2) have "d \<le> 252" by simp
  from jd_rx_completed_ok [OF assms(1) this] Ev_rx_completed show ?thesis by auto
next
  case (Ev_clock c)
  with assms show ?thesis by (simp add: bus_inv_def)
qed

section \<open>Reachable states\<close>

lemma reachable_inv: "reachable s \<Longrightarrow> bus_inv s"
proof (induction rule: reachable.induct)
  case (reachable_init tx_sz rx_sz usb_sz dev sd fwd)
  then show ?case by (rule bus_init_inv)
next
  case (reachable_step s e t)
  then show ?case using bus_step_ok [of s e] by auto
qed

section \<open>Traces\<close>

fun bus_run :: "bus_event list \<Rightarrow> 'a bus_scheme \<Rightarrow> 'a bus_scheme option" where
  "bus_run [] s = Some s"
| "bus_run (e # es) s = Option.bind (bus_step e s) (bus_run es)"

fun all_enabled :: "bus_event list \<Rightarrow> 'a bus_scheme \<Rightarrow> bool" where
  "all_enabled [] s = True"
| "all_enabled (e # es) s =
     (enabled e s \<and> (case bus_step e s of None \<Rightarrow> True | Some t \<Rightarrow> all_enabled es t))"

fun run_queued :: "bus_event list \<Rightarrow> 'a bus_scheme \<Rightarrow> mem list" where
  "run_queued [] s = []"
| "run_queued (e # es) s =
     ev_queued e s @ (case bus_step e s of None \<Rightarrow> [] | Some t \<Rightarrow> run_queued es t)"

fun run_sent :: "bus_event list \<Rightarrow> 'a bus_scheme \<Rightarrow> mem list" where
  "run_sent [] s = []"
| "run_sent (e # es) s =
     ev_sent e s @ (case bus_step e s of None \<Rightarrow> [] | Some t \<Rightarrow> run_sent es t)"

lemma bus_run_ok:
  "bus_inv s \<Longrightarrow> all_enabled es s \<Longrightarrow>
     \<exists>t. bus_run es s = Some t \<and> bus_inv t \<and>
       queue_frames (send_queue s) @ run_queued es s = run_sent es s @ queue_frames (send_queue t)"
proof (induction es arbitrary: s)
  case Nil
  then show ?case by simp
next
  case (Cons e es)
  then obtain t where t: "bus_step e s = Some t" "bus_inv t"
    "ev_sent e s @ queue_frames (send_queue t) = queue_frames (send_queue s) @ ev_queued e s"
    using bus_step_ok [of s e] by auto
  moreover from t Cons.prems have "all_enabled es t" by simp
  ultimately obtain u where u: "bus_run es t = Some u" "bus_inv u"
    "queue_frames (send_queue t) @ run_queued es t = run_sent es t @ queue_frames (send_queue u)"
    using Cons.IH by blast
  have "queue_frames (send_queue s) @ ev_queued e s @ run_queued es t =
      ev_sent e s @ run_sent es t @ queue_frames (send_queue u)"
    using t(3) u(3) by (metis append.assoc)
  with t(1) u(1,2) show ?case by simp
qed

lemma reachable_run:
  "reachable s \<Longrightarrow> all_enabled es s \<Longrightarrow> bus_run es s = Some t \<Longrightarrow> reachable t"
proof (induction es arbitrary: s)
  case Nil
  then show ?case by simp
next
  case (Cons e es)
  then obtain u where "bus_step e s = Some u" "bus_run es u = Some t"
    by (auto simp: bind_Some_iff)
  with Cons show ?case by (auto intro: reachable_step)
qed

text \<open>A frame of another device with one empty packet, and a short run that queues it
  and starts its transmission.\<close>

definition sample_frame :: jd_frame where
  "sample_frame = zero_frame\<lparr>frm_size := 4, frm_device_identifier := 9\<rparr>"

definition sample_trace :: "bus_event list" where
  "sample_trace = [Ev_send_frame sample_frame, Ev_timer True]"

lemma sample_eval:
  "all_enabled sample_trace (bus_init 7 1 20 20 False 20) \<and>
   (case bus_run sample_trace (bus_init 7 1 20 20 False 20) of None \<Rightarrow> False
    | Some s \<Rightarrow> enabled (Ev_line_falling True) s \<and> enabled Ev_tx_completed s \<and> txFrame s = Some 0)"
  by code_simp

lemma all_enabled_append:
  "all_enabled (es @ fs) s \<longleftrightarrow> all_enabled es s \<and>
     (case bus_run es s of None \<Rightarrow> True | Some t \<Rightarrow> all_enabled fs t)"
  by (induction es arbitrary: s) (auto split: option.splits)

section \<open>Properties\<close>

text \<open>C1: No panic.  In every state the transport can reach from initialisation, every event
  the platform or the main loop may deliver is handled without a panic, a failed assertion or an
  access outside of a frame or queue, and leads to a reachable state again.\<close>

theorem bus_never_panics:
  assumes "reachable s" "enabled e s"
  shows "\<exists>t. bus_step e s = Some t \<and> reachable t"
  using bus_step_ok [OF reachable_inv [OF assms(1)] assms(2)] reachable_step [OF assms] by blast

theorem bus_never_panics_witness:
  "\<exists>t. bus_step (Ev_send 1 2 [3]) (bus_init 7 1 512 512 True 512) = Some t \<and> reachable t"
  by (rule bus_never_panics [OF reachable_init])
    (simp_all add: bus_init_def jd_phys_start_def bus_zero_def set_tick_timer_def has_status_def)

text \<open>C2: Order on the wire.  For every sequence of enabled events after initialisation, the
  frames that entered the send queue are exactly the frames whose transmission completed,
  followed by those still queued: none is lost, duplicated, reordered or altered.\<close>

theorem wire_order:
  assumes "tx_sz < 65536" "rx_sz < 65536" "usb_sz < 65536"
    and "all_enabled es (bus_init dev sd tx_sz rx_sz fwd usb_sz)"
  shows "\<exists>t. bus_run es (bus_init dev sd tx_sz rx_sz fwd usb_sz) = Some t \<and>
    run_queued es (bus_init dev sd tx_sz rx_sz fwd usb_sz) =
      run_sent es (bus_init dev sd tx_sz rx_sz fwd usb_sz) @ queue_frames (send_queue t)"
  using bus_run_ok [OF bus_init_inv(1) [OF assms(1-3)] assms(4)] bus_init_inv(2) [OF assms(1-3)]
  by auto

theorem wire_order_witness:
  "\<exists>t. bus_run (sample_trace @ [Ev_tx_completed]) (bus_init 7 1 20 20 False 20) = Some t \<and>
    run_queued (sample_trace @ [Ev_tx_completed]) (bus_init 7 1 20 20 False 20) =
      run_sent (sample_trace @ [Ev_tx_completed]) (bus_init 7 1 20 20 False 20) @ queue_frames (send_queue t)"
  by (rule wire_order, simp, simp, simp)
    (use sample_eval in \<open>auto simp: all_enabled_append split: option.splits\<close>)

text \<open>C3: The frame handed to the UART stays where it is.  While a frame is being transmitted
  no event other than its completion changes which queue slot is transmitted or the bytes in it.\<close>

theorem tx_frame_stable:
  assumes "reachable s" "enabled e s" "txFrame s = Some off" "e \<noteq> Ev_tx_completed"
    and "bus_step e s = Some t"
  shows "txFrame t = Some off \<and> jd_queue_front (send_queue t) = Some off \<and>
    queue_front_bytes (send_queue t) = queue_front_bytes (send_queue s)"
proof -
  have i: "bus_inv s" by (rule reachable_inv [OF assms(1)])
  have t: "bus_inv t" "txFrame t = Some off"
    "queue_frames (send_queue t) = queue_frames (send_queue s) @ ev_queued e s"
    using bus_step_ok [OF i assms(2)] assms(3-5) by (cases e; auto)+
  have ne: "queue_frames (send_queue s) \<noteq> []"
    using jd_queue_front_empty [of "send_queue s"] i assms(3)
    by (auto simp: bus_inv_def queue_inv_def)
  have fb: "queue_front_bytes q = Some (hd (queue_frames q))"
    if "queue_inv q" "queue_frames q \<noteq> []" for q
    using jd_queue_front_rep [of q "hd (queue_frames q)" "tl (queue_frames q)"] that
    unfolding queue_inv_def by simp
  have "queue_inv (send_queue s)" "queue_inv (send_queue t)" using i t(1) by (simp_all add: bus_inv_def)
  with fb [of "send_queue s"] fb [of "send_queue t"] ne t
  have "queue_front_bytes (send_queue t) = queue_front_bytes (send_queue s)" by simp
  with t show ?thesis by (simp add: bus_inv_def)
qed

theorem tx_frame_stable_witness:
  "\<exists>s t. bus_run sample_trace (bus_init 7 1 20 20 False 20) = Some s \<and>
    bus_step (Ev_line_falling True) s = Some t \<and>
    txFrame t = Some 0 \<and> jd_queue_front (send_queue t) = Some 0 \<and>
    queue_front_bytes (send_queue t) = queue_front_bytes (send_queue s)"
proof -
  obtain s where s: "bus_run sample_trace (bus_init 7 1 20 20 False 20) = Some s"
    "enabled (Ev_line_falling True) s" "txFrame s = Some 0"
    using sample_eval by (auto split: option.splits)
  have "reachable (bus_init 7 1 20 20 False 20)" by (rule reachable_init) simp_all
  with s(1) sample_eval have r: "reachable s" using reachable_run by blast
  then obtain t where t: "bus_step (Ev_line_falling True) s = Some t"
    using bus_step_ok [OF reachable_inv s(2)] by blast
  from tx_frame_stable [OF r s(2,3) _ t] s t show ?thesis by auto
qed

text \<open>C4: Only checked frames are delivered.  When a reception completes in a reachable state, at most
  the received frame is added to the receive queue, and only if it is complete, not empty, has the right
  checksum, a first packet of at most 236 bytes, a known version and is of interest to this device; the
  send side is not touched.\<close>

theorem received_frame_checked:
  assumes "reachable s" "dataLeft \<le> 252"
  shows "\<exists>t xs. jd_rx_completed dataLeft s = Some t \<and> send_queue t = send_queue s \<and> txFrame t = txFrame s \<and>
    queue_frames (rx_queue t) = queue_frames (rx_queue s) @ xs \<and>
    (xs \<noteq> [] \<longrightarrow> xs = [frame_image (rxFrame t)] \<and> same_payload (rxFrame s) (rxFrame t) \<and>
       rx_accepts (device_id s) dataLeft (rxFrame s))"
  using jd_rx_completed_ok [OF reachable_inv [OF assms(1)] assms(2)] by blast

theorem received_frame_checked_witness:
  "\<exists>t xs. jd_rx_completed 236 (bus_init 7 1 20 20 False 20) = Some t \<and>
    send_queue t = send_queue (bus_init 7 1 20 20 False 20) \<and> txFrame t = txFrame (bus_init 7 1 20 20 False 20) \<and>
    queue_frames (rx_queue t) = queue_frames (rx_queue (bus_init 7 1 20 20 False 20)) @ xs \<and>
    (xs \<noteq> [] \<longrightarrow> xs = [frame_image (rxFrame t)] \<and> same_payload (rxFrame (bus_init 7 1 20 20 False 20)) (rxFrame t) \<and>
       rx_accepts (device_id (bus_init 7 1 20 20 False 20)) 236 (rxFrame (bus_init 7 1 20 20 False 20)))"
  by (rule received_frame_checked [OF reachable_init]) simp_all

section \<open>Clearing a queue\<close>

definition cleared_queue :: "jd_queue option" where
  "cleared_queue = do {
     (q, _) \<leftarrow> jd_queue_push (jd_queue_alloc 64) (zero_frame\<lparr>frm_size := 24\<rparr>);
     q \<leftarrow> jd_queue_shift q;
     (q, _) \<leftarrow> jd_queue_push q (zero_frame\<lparr>frm_size := 20\<rparr>);
     (q, _) \<leftarrow> jd_queue_push (jd_queue_clear q) (zero_frame\<lparr>frm_size := 28\<rparr>);
     (q, _) \<leftarrow> jd_queue_push q (zero_frame\<lparr>frm_size := 4\<rparr>);
     jd_queue_shift q }"

text \<open>\<open>jd_queue_clear\<close> does not restore \<open>curr_size\<close>.  A queue of 64 bytes that wrapped around at offset
  36 and is cleared accepts a frame of 40 and one of 16 bytes; once the first one is taken, the front
  of the queue is that frame again instead of the second one, and taking it fails an assertion.\<close>

theorem jd_queue_clear_stale:
  "(case cleared_queue of None \<Rightarrow> False
    | Some q \<Rightarrow> q_front q = 40 \<and> q_back q = 56 \<and> jd_queue_front q = Some 0 \<and> jd_queue_shift q = None)"
  by code_simp

end
