(* ===== verification/Jd_Bqueue.thy ===== *)
theory Jd_Bqueue
  imports Jd_Fifo
begin

text \<open>
  source/jd\_bqueue.c: the byte ring buffer.  One byte of the buffer stays unused, so that
  \<open>front = back\<close> means empty; \<open>validate\<close> is the run-time check the code makes around
  every change, and a failed check is a panic.  Interrupt masking brackets whole
  operations and has no effect on the data, so it does not appear.
\<close>

record jd_bqueue =
  bq_front :: nat
  bq_back :: nat
  bq_size :: nat
  bq_filled :: nat
  bq_data :: mem

definition jd_bqueue_occupied_bytes :: "jd_bqueue \<Rightarrow> nat" where
  "jd_bqueue_occupied_bytes q = bq_filled q"

definition jd_bqueue_free_bytes :: "jd_bqueue \<Rightarrow> nat" where
  "jd_bqueue_free_bytes q = sub32 (sub32 (bq_size q) (bq_filled q)) 1"

definition bq_validate :: "jd_bqueue \<Rightarrow> unit option" where
  "bq_validate q = do {
     (if bq_back q \<ge> bq_front q then jd_assert (bq_filled q = bq_back q - bq_front q)
      else jd_assert (bq_filled q + bq_front q = bq_back q + bq_size q));
     jd_assert (bq_front q < bq_size q);
     jd_assert (bq_back q < bq_size q);
     jd_assert (bq_filled q < bq_size q) }"

definition jd_bqueue_push :: "jd_bqueue \<Rightarrow> mem \<Rightarrow> (jd_bqueue \<times> int) option" where
  "jd_bqueue_push q data =
     (let len = length data in
      if len = 0 then Some (q, 0)
      else do {
        bq_validate q;
        (q, ret) \<leftarrow>
          (if len \<le> jd_bqueue_free_bytes q then do {
             let n = min (sub32 (bq_size q) (bq_back q)) len;
             d \<leftarrow> wr_mem (bq_data q) (bq_back q) (take n data);
             let q = q\<lparr>bq_data := d, bq_filled := u16 (bq_filled q + len)\<rparr>;
             if len > n then do {
               d \<leftarrow> wr_mem (bq_data q) 0 (drop n data);
               Some (q\<lparr>bq_data := d, bq_back := u16 (len - n)\<rparr>, 0) }
             else (let q = q\<lparr>bq_back := u16 (bq_back q + n)\<rparr> in
               Some (if bq_back q = bq_size q then q\<lparr>bq_back := 0\<rparr> else q, 0)) }
           else Some (q, -1 :: int));
        bq_validate q;
        Some (q, ret) })"

definition jd_bqueue_available_cont_data :: "jd_bqueue \<Rightarrow> nat option" where
  "jd_bqueue_available_cont_data q = do {
     let ret = (if bq_front q \<le> bq_back q then bq_back q - bq_front q
                else sub32 (bq_size q) (bq_front q));
     jd_assert (ret \<le> bq_filled q);
     Some ret }"

definition jd_bqueue_cont_data_ptr :: "jd_bqueue \<Rightarrow> nat" where
  "jd_bqueue_cont_data_ptr q = bq_front q"

definition jd_bqueue_cont_data_advance :: "jd_bqueue \<Rightarrow> nat \<Rightarrow> jd_bqueue option" where
  "jd_bqueue_cont_data_advance q sz = do {
     let q = q\<lparr>bq_front := u16 (bq_front q + sz), bq_filled := u16 (sub32 (bq_filled q) sz)\<rparr>;
     let q = (if bq_front q = bq_size q then q\<lparr>bq_front := 0\<rparr> else q);
     bq_validate q;
     Some q }"

fun bq_print_loop :: "jd_bqueue \<Rightarrow> nat \<Rightarrow> nat \<Rightarrow> mem option" where
  "bq_print_loop q ptr 0 = Some []"
| "bq_print_loop q ptr (Suc len) = do {
     ch \<leftarrow> rd8 (bq_data q) ptr;
     rest \<leftarrow> bq_print_loop q (if ptr + 1 \<ge> bq_size q then 0 else ptr + 1) len;
     Some (ch # rest) }"

definition jd_bqueue_print :: "jd_bqueue \<Rightarrow> mem option" where
  "jd_bqueue_print q = bq_print_loop q (bq_front q) (bq_filled q)"

definition jd_bqueue_pop_at_most :: "jd_bqueue \<Rightarrow> nat \<Rightarrow> (jd_bqueue \<times> mem) option" where
  "jd_bqueue_pop_at_most q maxsize = do {
     sz \<leftarrow> jd_bqueue_available_cont_data q;
     let sz = min sz maxsize;
     dst \<leftarrow> rd_mem (bq_data q) (jd_bqueue_cont_data_ptr q) sz;
     q \<leftarrow> jd_bqueue_cont_data_advance q sz;
     let maxsize = maxsize - sz;
     if maxsize > 0 then do {
       n \<leftarrow> jd_bqueue_available_cont_data q;
       let n = min n maxsize;
       dst2 \<leftarrow> rd_mem (bq_data q) (jd_bqueue_cont_data_ptr q) n;
       q \<leftarrow> jd_bqueue_cont_data_advance q n;
       Some (q, dst @ dst2) }
     else Some (q, dst) }"

definition jd_bqueue_pop_atomic :: "jd_bqueue \<Rightarrow> nat \<Rightarrow> (jd_bqueue \<times> mem \<times> int) option" where
  "jd_bqueue_pop_atomic q sz =
     (if bq_filled q \<ge> sz then do {
        (q, dst) \<leftarrow> jd_bqueue_pop_at_most q sz;
        jd_assert (length dst = sz);
        Some (q, dst, 0) }
      else Some (q, [], -1))"

definition jd_bqueue_pop_byte :: "jd_bqueue \<Rightarrow> (jd_bqueue \<times> int) option" where
  "jd_bqueue_pop_byte q =
     (if bq_filled q \<noteq> 0 then do {
        b \<leftarrow> rd8 (bq_data q) (jd_bqueue_cont_data_ptr q);
        q \<leftarrow> jd_bqueue_cont_data_advance q 1;
        Some (q, uint b) }
      else Some (q, -1))"

definition jd_bqueue_clear :: "jd_bqueue \<Rightarrow> jd_bqueue" where
  "jd_bqueue_clear q = q\<lparr>bq_filled := 0, bq_back := 0, bq_front := 0\<rparr>"

definition jd_bqueue_alloc :: "nat \<Rightarrow> jd_bqueue" where
  "jd_bqueue_alloc sz = \<lparr>bq_front = 0, bq_back = 0, bq_size = u16 sz, bq_filled = 0,
     bq_data = replicate sz 0\<rparr>"

section \<open>Invariant and contents\<close>

definition bq_inv :: "jd_bqueue \<Rightarrow> bool" where
  "bq_inv q \<longleftrightarrow> bq_size q < 65536 \<and> length (bq_data q) = bq_size q \<and>
     bq_front q < bq_size q \<and> bq_back q < bq_size q \<and>
     bq_filled q = (if bq_front q \<le> bq_back q then bq_back q - bq_front q
                    else bq_back q + bq_size q - bq_front q)"

definition bq_bytes :: "jd_bqueue \<Rightarrow> mem" where
  "bq_bytes q = (if bq_front q \<le> bq_back q then take (bq_back q - bq_front q) (drop (bq_front q) (bq_data q))
     else drop (bq_front q) (bq_data q) @ take (bq_back q) (bq_data q))"

text \<open>The contents, as a window of the data laid out twice; this makes the wrap-around
  uniform.\<close>

lemma bq_bytes_window:
  assumes "bq_inv q"
  shows "bq_bytes q = take (bq_filled q) (drop (bq_front q) (bq_data q @ bq_data q))"
  using assms by (auto simp: bq_inv_def bq_bytes_def)

lemma length_bq_bytes: "bq_inv q \<Longrightarrow> length (bq_bytes q) = bq_filled q"
  by (auto simp: bq_inv_def bq_bytes_def)

lemma bq_filled_lt: "bq_inv q \<Longrightarrow> bq_filled q < bq_size q"
  by (auto simp: bq_inv_def)

lemma bq_validate_inv: "bq_inv q \<Longrightarrow> bq_validate q = Some ()"
  by (auto simp: bq_inv_def bq_validate_def)

lemma bq_free_inv:
  assumes "bq_inv q"
  shows "jd_bqueue_free_bytes q = bq_size q - bq_filled q - 1"
proof -
  have "bq_filled q < bq_size q" "bq_size q < 65536"
    using bq_filled_lt [OF assms] assms by (simp_all add: bq_inv_def)
  then show ?thesis
    by (simp add: jd_bqueue_free_bytes_def sub32_le)
qed

section \<open>Pushing\<close>

lemma bq_push_straight:
  assumes "bq_inv q" "xs \<noteq> []" "length xs \<le> bq_size q - bq_filled q - 1"
    "length xs \<le> bq_size q - bq_back q"
  defines "b \<equiv> (if bq_back q + length xs = bq_size q then 0 else bq_back q + length xs)"
  defines "q' \<equiv> q\<lparr>bq_data := patch (bq_data q) (bq_back q) xs,
    bq_filled := bq_filled q + length xs, bq_back := b\<rparr>"
  shows "jd_bqueue_push q xs = Some (q', 0) \<and> bq_inv q' \<and> bq_bytes q' = bq_bytes q @ xs"
proof -
  have i: "bq_size q < 65536" "length (bq_data q) = bq_size q" "bq_front q < bq_size q" "bq_back q < bq_size q"
    using assms(1) by (simp_all add: bq_inv_def)
  have lt: "bq_filled q + length xs < bq_size q" "0 < length xs"
    using assms(2,3) bq_filled_lt [OF assms(1)] by auto
  have inv: "bq_inv q'"
    using assms(1,4) lt by (auto simp: q'_def b_def bq_inv_def split: if_splits)
  moreover have "bq_bytes q' = bq_bytes q @ xs"
  proof (cases "bq_front q \<le> bq_back q")
    case True
    then have "bq_filled q = bq_back q - bq_front q"
      using assms(1) by (simp add: bq_inv_def)
    with True lt assms(4) have "bq_back q + length xs = bq_size q \<Longrightarrow> 0 < bq_front q"
      by linarith
    with True have "bq_bytes q' = drop (bq_front q) (take (bq_back q) (bq_data q)) @ xs"
      using i lt assms(4) by (auto simp: bq_bytes_def q'_def b_def patch_def drop_take)
    with True show ?thesis by (simp add: bq_bytes_def drop_take)
  next
    case False
    then have le: "bq_back q + length xs < bq_front q"
      using assms(1) lt by (simp add: bq_inv_def)
    then have "bq_bytes q' = drop (bq_front q) (bq_data q) @ take (bq_back q) (bq_data q) @ xs"
      using i by (auto simp: bq_bytes_def q'_def b_def patch_def)
    with False show ?thesis by (simp add: bq_bytes_def)
  qed
  moreover have "jd_bqueue_push q xs = Some (q', 0)"
    using assms(2-4) i lt bq_validate_inv [OF assms(1)] bq_validate_inv [OF inv]
    by (auto simp: jd_bqueue_push_def bq_free_inv [OF assms(1)] sub32_le Let_def min_def q'_def b_def)
  ultimately show ?thesis by blast
qed

lemma bq_push_wrap:
  assumes "bq_inv q" "length xs \<le> bq_size q - bq_filled q - 1"
    "bq_size q - bq_back q < length xs"
  defines "n \<equiv> bq_size q - bq_back q"
  defines "q' \<equiv> q\<lparr>bq_filled := bq_filled q + length xs,
    bq_data := patch (patch (bq_data q) (bq_back q) (take n xs)) 0 (drop n xs),
    bq_back := length xs - n\<rparr>"
  shows "jd_bqueue_push q xs = Some (q', 0) \<and> bq_inv q' \<and> bq_bytes q' = bq_bytes q @ xs"
proof -
  have i: "bq_size q < 65536" "length (bq_data q) = bq_size q" "bq_front q < bq_size q" "bq_back q < bq_size q"
    using assms(1) by (simp_all add: bq_inv_def)
  have fb: "bq_front q \<le> bq_back q" and lt: "bq_filled q + length xs < bq_size q"
    using assms(1-3) by (auto simp: bq_inv_def split: if_splits)
  have f: "bq_filled q = bq_back q - bq_front q" using assms(1) fb by (simp add: bq_inv_def)
  have ln: "length xs - n < bq_front q" using f fb lt i assms(3) unfolding n_def by linarith
  have d: "patch (patch (bq_data q) (bq_back q) (take n xs)) 0 (drop n xs) =
      drop n xs @ drop (length xs - n) (take (bq_back q) (bq_data q) @ take n xs)"
    using i assms(3) ln fb by (simp add: patch_def n_def)
  have inv: "bq_inv q'"
    using i ln assms(3) fb f by (simp add: q'_def bq_inv_def n_def)
  moreover have "bq_bytes q' = drop (bq_front q) (take (bq_back q) (bq_data q)) @ take n xs @ drop n xs"
    using i ln assms(3) fb by (simp add: bq_bytes_def q'_def d)
  then have "bq_bytes q' = bq_bytes q @ xs"
    using fb by (simp add: bq_bytes_def drop_take)
  moreover have "jd_bqueue_push q xs = Some (q', 0)"
    using assms(2,3) i lt ln fb bq_validate_inv [OF assms(1)] bq_validate_inv [OF inv]
    by (auto simp: jd_bqueue_push_def bq_free_inv [OF assms(1)] sub32_le Let_def min_def q'_def n_def)
  ultimately show ?thesis by blast
qed

lemma bq_push_full:
  assumes "bq_inv q" "bq_size q - bq_filled q - 1 < length xs"
  shows "jd_bqueue_push q xs = Some (q, -1)"
  using assms(2) bq_validate_inv [OF assms(1)]
  by (auto simp: jd_bqueue_push_def bq_free_inv [OF assms(1)] Let_def)

lemma bq_push_cases:
  assumes "bq_inv q"
  shows "if length xs \<le> bq_size q - bq_filled q - 1
    then \<exists>q'. jd_bqueue_push q xs = Some (q', 0) \<and> bq_inv q' \<and> bq_bytes q' = bq_bytes q @ xs
    else jd_bqueue_push q xs = Some (q, -1)"
proof -
  consider "xs = []" | "xs \<noteq> []" "bq_size q - bq_filled q - 1 < length xs"
    | "xs \<noteq> []" "length xs \<le> bq_size q - bq_filled q - 1" "length xs \<le> bq_size q - bq_back q"
    | "length xs \<le> bq_size q - bq_filled q - 1" "bq_size q - bq_back q < length xs"
    by linarith
  then show ?thesis
  proof cases
    case 1
    with assms show ?thesis by (simp add: jd_bqueue_push_def)
  next
    case 2
    with bq_push_full [OF assms, of xs] show ?thesis by simp
  next
    case 3
    with bq_push_straight [OF assms, of xs] show ?thesis by (simp only: if_True) blast
  next
    case 4
    with bq_push_wrap [OF assms, of xs] show ?thesis by (simp only: if_True) blast
  qed
qed

section \<open>Popping\<close>

lemma bq_advance:
  assumes "bq_inv q" "k \<le> bq_filled q" "bq_front q + k \<le> bq_size q"
  shows "\<exists>q'. jd_bqueue_cont_data_advance q k = Some q' \<and> bq_inv q' \<and>
    bq_bytes q' = drop k (bq_bytes q) \<and> bq_data q' = bq_data q \<and> bq_filled q' = bq_filled q - k"
proof -
  define q' where "q' = (if bq_front q + k = bq_size q then q\<lparr>bq_filled := bq_filled q - k, bq_front := 0\<rparr>
    else q\<lparr>bq_front := bq_front q + k, bq_filled := bq_filled q - k\<rparr>)"
  have i: "bq_size q < 65536" "length (bq_data q) = bq_size q" "bq_front q < bq_size q" "bq_back q < bq_size q"
    using assms(1) by (simp_all add: bq_inv_def)
  have inv: "bq_inv q'"
    using assms by (auto simp: bq_inv_def q'_def split: if_splits)
  have "bq_bytes q' = drop k (bq_bytes q)"
    using assms i by (auto simp: bq_bytes_def q'_def bq_inv_def drop_take add.commute split: if_splits)
  moreover have "jd_bqueue_cont_data_advance q k = Some q'"
    using assms i bq_filled_lt [OF assms(1)] bq_validate_inv [OF inv]
    by (auto simp: jd_bqueue_cont_data_advance_def q'_def Let_def sub32_le)
  ultimately show ?thesis using inv by (auto simp: q'_def)
qed

text \<open>One contiguous chunk: what both halves of \<open>jd_bqueue_pop_at_most\<close> do.\<close>

lemma bq_chunk:
  assumes "bq_inv q" "avail = (if bq_front q \<le> bq_back q then bq_back q - bq_front q else bq_size q - bq_front q)"
  shows "jd_bqueue_available_cont_data q = Some avail" "avail \<le> bq_filled q"
    "rd_mem (bq_data q) (jd_bqueue_cont_data_ptr q) (min avail m) = Some (take (min avail m) (bq_bytes q))"
    "\<exists>q'. jd_bqueue_cont_data_advance q (min avail m) = Some q' \<and> bq_inv q' \<and>
       bq_bytes q' = drop (min avail m) (bq_bytes q) \<and> bq_filled q' = bq_filled q - min avail m"
proof -
  have i: "bq_size q < 65536" "length (bq_data q) = bq_size q" "bq_front q < bq_size q" "bq_back q < bq_size q"
    and f: "bq_filled q = (if bq_front q \<le> bq_back q then bq_back q - bq_front q
                    else bq_back q + bq_size q - bq_front q)"
    using assms(1) by (simp_all add: bq_inv_def)
  show le: "avail \<le> bq_filled q" by (auto simp: assms(2) f)
  show "jd_bqueue_available_cont_data q = Some avail"
    using i le by (auto simp: jd_bqueue_available_cont_data_def assms(2) sub32_le Let_def split: if_splits)
  have fit: "bq_front q + min avail m \<le> bq_size q" using i by (auto simp: assms(2))
  then show "rd_mem (bq_data q) (jd_bqueue_cont_data_ptr q) (min avail m) = Some (take (min avail m) (bq_bytes q))"
    using i by (auto simp: jd_bqueue_cont_data_ptr_def bq_bytes_def assms(2) min_def)
  show "\<exists>q'. jd_bqueue_cont_data_advance q (min avail m) = Some q' \<and> bq_inv q' \<and>
       bq_bytes q' = drop (min avail m) (bq_bytes q) \<and> bq_filled q' = bq_filled q - min avail m"
    using bq_advance [OF assms(1) min.coboundedI1 [OF le] fit] by blast
qed

lemma bq_drained:
  assumes "bq_inv q" "bq_front q \<le> bq_back q" "k \<ge> bq_filled q"
  shows "take k (bq_bytes q) = bq_bytes q"
  using assms by (simp add: length_bq_bytes)

lemma bq_pop_at_most:
  assumes "bq_inv q"
  shows "\<exists>q'. jd_bqueue_pop_at_most q m = Some (q', take m (bq_bytes q)) \<and> bq_inv q' \<and>
    bq_bytes q' = drop m (bq_bytes q)"
proof -
  define a where "a = (if bq_front q \<le> bq_back q then bq_back q - bq_front q else bq_size q - bq_front q)"
  note c = bq_chunk [OF assms a_def]
  obtain q1 where q1: "jd_bqueue_cont_data_advance q (min a m) = Some q1" "bq_inv q1"
    "bq_bytes q1 = drop (min a m) (bq_bytes q)" "bq_filled q1 = bq_filled q - min a m"
    using c(4) by blast
  show ?thesis
  proof (cases "m \<le> a")
    case True
    with c(1) c(3) [of m] q1 show ?thesis by (simp add: jd_bqueue_pop_at_most_def Let_def min_absorb2)
  next
    case False
    define b where "b = (if bq_front q1 \<le> bq_back q1 then bq_back q1 - bq_front q1 else bq_size q1 - bq_front q1)"
    note d = bq_chunk [OF q1(2) b_def]
    obtain q2 where q2: "jd_bqueue_cont_data_advance q1 (min b (m - a)) = Some q2" "bq_inv q2"
      "bq_bytes q2 = drop (min b (m - a)) (bq_bytes q1)" using d(4) [of "m - a"] by blast
    have lin: "bq_front q1 \<le> bq_back q1"
      using False q1(1) assms c(2) bq_filled_lt [OF assms] bq_validate_inv
      by (auto simp: jd_bqueue_cont_data_advance_def a_def Let_def bq_inv_def sub32_le bind_Some_iff
          split: if_splits)
    then have "b = bq_filled q1" using q1(2) by (simp add: b_def bq_inv_def)
    then have t: "take (min b (m - a)) (bq_bytes q1) = take (m - a) (bq_bytes q1)"
      "drop (min b (m - a)) (bq_bytes q1) = drop (m - a) (bq_bytes q1)"
      using length_bq_bytes [OF q1(2)] by (auto simp: min_def)
    have "take m (bq_bytes q) = take a (bq_bytes q) @ take (m - a) (drop a (bq_bytes q))"
      using False by (metis take_add le_add_diff_inverse nat_le_linear)
    with False c(1) c(3) [of m] d(1) d(3) [of "m - a"] q1 q2 t show ?thesis
      by (simp add: jd_bqueue_pop_at_most_def Let_def min_absorb1)
  qed
qed

lemma bq_pop_atomic:
  assumes "bq_inv q"
  shows "if n \<le> length (bq_bytes q)
    then \<exists>q'. jd_bqueue_pop_atomic q n = Some (q', take n (bq_bytes q), 0) \<and> bq_inv q' \<and>
      bq_bytes q' = drop n (bq_bytes q)
    else jd_bqueue_pop_atomic q n = Some (q, [], -1)"
  using bq_pop_at_most [OF assms, of n] length_bq_bytes [OF assms]
  by (auto simp: jd_bqueue_pop_atomic_def)

lemma bq_alloc_inv: "0 < n \<Longrightarrow> n < 65536 \<Longrightarrow> bq_inv (jd_bqueue_alloc n) \<and> bq_bytes (jd_bqueue_alloc n) = []"
  by (simp add: bq_inv_def jd_bqueue_alloc_def bq_bytes_def)

lemma bq_print:
  assumes "bq_inv q"
  shows "jd_bqueue_print q = Some (bq_bytes q)"
proof -
  have "bq_print_loop q p n = Some (take n (drop p (bq_data q @ bq_data q)))"
    if "p < bq_size q" "n \<le> bq_size q" for p n
    using that
  proof (induction n arbitrary: p)
    case 0
    then show ?case by simp
  next
    case (Suc n)
    have l: "length (bq_data q) = bq_size q" using assms by (simp add: bq_inv_def)
    let ?D = "bq_data q @ bq_data q"
    have c: "drop p ?D = bq_data q ! p # drop (Suc p) ?D"
      using Suc.prems(1) l by (simp add: Cons_nth_drop_Suc [symmetric] nth_append)
    have w: "take n (drop (if p + 1 \<ge> bq_size q then 0 else p + 1) ?D) = take n (drop (Suc p) ?D)"
    proof (cases "p + 1 \<ge> bq_size q")
      case True
      with Suc.prems have "Suc p = bq_size q" by simp
      then show ?thesis using Suc.prems l by simp
    qed simp
    have "bq_print_loop q (if p + 1 \<ge> bq_size q then 0 else p + 1) n =
        Some (take n (drop (if p + 1 \<ge> bq_size q then 0 else p + 1) ?D))"
      using Suc.prems by (intro Suc.IH) auto
    with w c l Suc.prems(1) show ?case by simp
  qed
  with assms bq_filled_lt [OF assms] show ?thesis
    by (simp add: jd_bqueue_print_def bq_bytes_window bq_inv_def)
qed

text \<open>The byte queue is a bounded FIFO of bytes.\<close>

interpretation bq: bounded_fifo bq_inv bq_bytes "\<lambda>_. True" "\<lambda>xs. xs" "\<lambda>k. k"
  jd_bqueue_push jd_bqueue_pop_at_most "\<lambda>q xs. length xs \<le> bq_size q - bq_filled q - 1"
proof unfold_locales
  fix q xs assume "bq_inv q"
  then show "\<exists>q' r. jd_bqueue_push q xs = Some (q', r) \<and> bq_inv q' \<and>
    (if r = 0 then bq_bytes q' = bq_bytes q @ xs else bq_bytes q' = bq_bytes q)"
    using bq_push_cases [of q xs] by (cases "length xs \<le> bq_size q - bq_filled q - 1") auto
next
  fix q k assume "bq_inv q"
  then show "\<exists>q'. jd_bqueue_pop_at_most q k = Some (q', take k (bq_bytes q)) \<and> bq_inv q' \<and>
    bq_bytes q' = drop k (bq_bytes q)"
    by (rule bq_pop_at_most)
next
  fix q xs q' r
  assume "bq_inv q" "length xs \<le> bq_size q - bq_filled q - 1" "jd_bqueue_push q xs = Some (q', r)"
  then show "r = 0" using bq_push_cases [of q xs] by auto
qed

section \<open>Properties\<close>

text \<open>The byte queue is a lossless FIFO.  From an allocated queue, every sequence of pushes of byte
  strings and of pops of at most \<open>k\<close> bytes runs without a failed assertion or an access outside of the
  buffer, and the accepted bytes are, in order, the popped bytes followed by those still queued.\<close>

theorem jd_bqueue_fifo:
  assumes "0 < n" "n < 65536"
  shows "\<exists>q acc out. fifo_run jd_bqueue_push jd_bqueue_pop_at_most (\<lambda>xs. xs) ops (jd_bqueue_alloc n) = Some (q, acc, out) \<and>
    bq_inv q \<and> acc = out @ bq_bytes q"
proof -
  have "op_valid (\<lambda>_. True) op" for op :: "(mem, nat) fifo_op" by (cases op) simp_all
  then have "list_all (op_valid (\<lambda>_. True)) ops" by (simp add: list_all_iff)
  from bq.run_fifo [OF conjunct1 [OF bq_alloc_inv [OF assms]] this] bq_alloc_inv [OF assms] show ?thesis by simp
qed

theorem jd_bqueue_fifo_witness:
  "\<exists>q acc out. fifo_run jd_bqueue_push jd_bqueue_pop_at_most (\<lambda>xs. xs) [Push [1, 2], Push [3], Pop 2, Push [4, 5]]
      (jd_bqueue_alloc 4) = Some (q, acc, out) \<and> bq_inv q \<and> acc = out @ bq_bytes q"
  by (rule jd_bqueue_fifo) simp_all

end
