(* ===== verification/Jd_Text.thy ===== *)
theory Jd_Text
  imports Jd_Frame "HOL-Library.Code_Target_Nat"
begin

text \<open>
  The text routines of source/jd\_util.c: hexadecimal and decimal conversion, string reversal,
  device short ids, URL encoding and concatenation.  A C string is a stretch of memory that ends
  with a zero byte; a buffer argument is a byte list with an offset, and a write outside of it, a
  read past it and a signed overflow are \<open>None\<close>.  \<open>jd_alloc(n)\<close> returns \<open>n\<close> bytes; the
  contents are an argument (\<open>fresh\<close>) because the allocator need not clear them.
\<close>

section \<open>C strings\<close>

definition cstr :: "mem \<Rightarrow> nat \<Rightarrow> mem option" where
  "cstr m p = (let s = takeWhile (\<lambda>b. b \<noteq> 0) (drop p m) in
     if p + length s < length m then Some s else None)"

definition strlen :: "mem \<Rightarrow> nat \<Rightarrow> nat option" where
  "strlen m p = map_option length (cstr m p)"

lemma takeWhile_nul [simp]: "0 \<notin> set s \<Longrightarrow> takeWhile (\<lambda>b. b \<noteq> 0) (s @ 0 # r) = s" for s :: mem
  by (induction s) auto

lemma cstr_app: "0 \<notin> set s \<Longrightarrow> cstr (s @ 0 # r) 0 = Some s"
  by (simp add: cstr_def)

lemma cstr_patch:
  assumes "0 \<notin> set s" "p + length s < length m"
  shows "cstr (patch m p (s @ [0])) p = Some s"
proof -
  have "drop p (patch m p (s @ [0])) = s @ 0 # drop (p + length s + 1) m"
    using assms by (simp add: patch_def)
  then show ?thesis
    using assms by (simp add: cstr_def Let_def)
qed

lemma cstr_Some:
  assumes "cstr m p = Some s"
  obtains r where "drop p m = s @ 0 # r" "0 \<notin> set s"
proof -
  let ?d = "drop p m"
  have s: "s = takeWhile (\<lambda>b. b \<noteq> 0) ?d" "p + length s < length m"
    using assms by (auto simp: cstr_def Let_def split: if_splits)
  have d: "?d = s @ dropWhile (\<lambda>b. b \<noteq> 0) ?d" using s(1) by simp
  moreover have "dropWhile (\<lambda>b. b \<noteq> 0) ?d \<noteq> []"
  proof
    assume "dropWhile (\<lambda>b. b \<noteq> 0) ?d = []"
    with d have "length ?d = length s" by (metis append_Nil2)
    with s(2) show False by simp
  qed
  moreover then have "hd (dropWhile (\<lambda>b. b \<noteq> 0) ?d) = 0"
    using hd_dropWhile by blast
  ultimately have "?d = s @ 0 # tl (dropWhile (\<lambda>b. b \<noteq> 0) ?d)"
    by (metis list.collapse)
  moreover have "0 \<notin> set s" using s(1) by (auto dest: set_takeWhileD)
  ultimately show ?thesis using that by blast
qed

section \<open>Hexadecimal\<close>

definition hex_chars :: mem where
  "hex_chars = [0x30, 0x31, 0x32, 0x33, 0x34, 0x35, 0x36, 0x37, 0x38, 0x39,
     0x61, 0x62, 0x63, 0x64, 0x65, 0x66]"

fun to_hex_loop :: "mem \<Rightarrow> nat \<Rightarrow> nat \<Rightarrow> mem \<Rightarrow> mem option" where
  "to_hex_loop dst p i [] = Some dst"
| "to_hex_loop dst p i (b # bs) = do {
     dst \<leftarrow> wr8 dst (p + i * 2) (hex_chars ! unat (drop_bit 4 b));
     dst \<leftarrow> wr8 dst (p + i * 2 + 1) (hex_chars ! unat (b AND 0xf));
     to_hex_loop dst p (Suc i) bs }"

definition jd_to_hex :: "mem \<Rightarrow> nat \<Rightarrow> mem \<Rightarrow> mem option" where
  "jd_to_hex dst p src = do {
     dst \<leftarrow> to_hex_loop dst p 0 src;
     wr8 dst (p + length src * 2) 0 }"

definition hexdig :: "byte \<Rightarrow> int" where
  "hexdig c =
     (if 0x30 \<le> c \<and> c \<le> 0x39 then int (unat c) - 0x30
      else let c = c OR 0x20 in
        if 0x61 \<le> c \<and> c \<le> 0x66 then int (unat c) - 0x61 + 10 else -1)"

text \<open>\<open>from_hex_loop src prev dst dp\<close>: \<open>dst\<close> is \<open>None\<close> when the caller passed a null pointer
  to obtain the length only.\<close>

fun from_hex_loop :: "mem \<Rightarrow> nat \<Rightarrow> mem option \<Rightarrow> nat \<Rightarrow> (mem option \<times> nat) option" where
  "from_hex_loop [] prev dst dp = None"
| "from_hex_loop (c # src) prev dst dp =
     (if c \<noteq> 0 \<and> hexdig c = -1 then from_hex_loop src prev dst dp
      else if c = 0 then Some (dst, dp)
      else let v = nat (hexdig c) in
        if prev = 0 then from_hex_loop src (push_bit 4 v OR 0x100) dst dp
        else (case dst of
            None \<Rightarrow> from_hex_loop src 0 None (dp + 1)
          | Some d \<Rightarrow> do {
              d \<leftarrow> wr8 d dp (of_nat ((prev OR v) AND 0xff));
              from_hex_loop src 0 (Some d) (dp + 1) }))"

definition jd_from_hex :: "mem option \<Rightarrow> mem \<Rightarrow> (mem option \<times> nat) option" where
  "jd_from_hex dst src = from_hex_loop src 0 dst 0"

definition jd_from_hex_a :: "mem \<Rightarrow> mem \<Rightarrow> (mem \<times> nat) option" where
  "jd_from_hex_a fresh src = do {
     n \<leftarrow> strlen src 0;
     let r = take (n div 2) fresh;
     (r, sz) \<leftarrow> jd_from_hex (Some r) src;
     r \<leftarrow> r;
     Some (r, sz) }"

definition jd_to_hex_a :: "mem \<Rightarrow> mem \<Rightarrow> mem option" where
  "jd_to_hex_a fresh src = jd_to_hex (take (length src * 2 + 1) fresh) 0 src"

section \<open>Reversal and decimal numbers\<close>

function reverse_loop :: "mem \<Rightarrow> int \<Rightarrow> int \<Rightarrow> mem option" where
  "reverse_loop m s j =
     (if s < j then do {
        c \<leftarrow> rd8 m (nat s);
        d \<leftarrow> rd8 m (nat j);
        m \<leftarrow> wr8 m (nat s) d;
        m \<leftarrow> wr8 m (nat j) c;
        reverse_loop m (s + 1) (j - 1) }
      else Some m)"
  by auto
termination by (relation "measure (\<lambda>(m, s, j). nat (j - s))") auto

declare reverse_loop.simps [simp del]

definition jd_string_reverse :: "mem \<Rightarrow> nat \<Rightarrow> mem option" where
  "jd_string_reverse m s = do {
     n \<leftarrow> strlen m s;
     reverse_loop m (int s) (int s + int n - 1) }"

function utoa_loop :: "nat \<Rightarrow> mem \<Rightarrow> nat \<Rightarrow> (mem \<times> nat) option" where
  "utoa_loop k m s = do {
     m \<leftarrow> wr8 m s (of_nat (k mod 10 + 0x30));
     if k div 10 > 0 then utoa_loop (k div 10) m (s + 1) else Some (m, s + 1) }"
  by auto
termination by (relation "measure (\<lambda>(k, m, s). k)") auto

declare utoa_loop.simps [simp del]

definition jd_utoa :: "nat \<Rightarrow> mem \<Rightarrow> nat \<Rightarrow> mem option" where
  "jd_utoa k m s0 = do {
     (m, s) \<leftarrow> utoa_loop k m s0;
     m \<leftarrow> wr8 m s 0;
     jd_string_reverse m s0 }"

text \<open>\<open>n = -n\<close> overflows for the least \<open>int\<close>.\<close>

definition jd_itoa :: "int \<Rightarrow> mem \<Rightarrow> nat \<Rightarrow> mem option" where
  "jd_itoa n m s =
     (if n < 0 then do {
        m \<leftarrow> wr8 m s 0x2d;
        jd_assert (n \<noteq> - 2147483648);
        jd_utoa (nat (- n)) m (s + 1) }
      else jd_utoa (nat n) m s)"

definition int_ok :: "int \<Rightarrow> bool" where
  "int_ok r \<longleftrightarrow> - 2147483648 \<le> r \<and> r < 2147483648"

fun atoi_loop :: "mem \<Rightarrow> int \<Rightarrow> int option" where
  "atoi_loop [] r = None"
| "atoi_loop (c # s) r =
     (let k = int (unat c) - 0x30 in
      if 0 \<le> k \<and> k \<le> 9 then do {
        jd_assert (int_ok (r * 10) \<and> int_ok (r * 10 + k));
        atoi_loop s (r * 10 + k) }
      else Some r)"

definition jd_atoi :: "mem \<Rightarrow> int option" where
  "jd_atoi s = do {
     c \<leftarrow> rd8 s 0;
     let neg = (c = 0x2d);
     r \<leftarrow> atoi_loop (if neg then drop 1 s else s) 0;
     Some (if neg then - r else r) }"

text \<open>\<open>writeNum\<close> with a 32-bit \<open>uintptr_t\<close>; \<open>j\<close> counts the nibbles left, \<open>sh = 4 * j\<close> inside.\<close>

fun writeNum_loop :: "mem \<Rightarrow> nat \<Rightarrow> 32 word \<Rightarrow> bool \<Rightarrow> nat \<Rightarrow> nat \<Rightarrow> (mem \<times> nat) option" where
  "writeNum_loop m p n full i 0 = Some (m, i)"
| "writeNum_loop m p n full i (Suc j) =
     (let d = unat (drop_bit (4 * j) n AND 0xf) in
      if full \<or> d \<noteq> 0 \<or> j = 0 \<or> i \<noteq> 0 then do {
        m \<leftarrow> wr8 m (p + i) (of_nat (if d > 9 then 0x41 + d - 10 else 0x30 + d));
        writeNum_loop m p n full (i + 1) j }
      else writeNum_loop m p n full i j)"

definition writeNum :: "mem \<Rightarrow> nat \<Rightarrow> 32 word \<Rightarrow> bool \<Rightarrow> mem option" where
  "writeNum m p n full = do {
     (m, i) \<leftarrow> writeNum_loop m p n full 0 8;
     wr8 m (p + i) 0 }"

section \<open>Identifiers, URLs and concatenation\<close>

definition jd_device_short_id :: "64 word \<Rightarrow> mem" where
  "jd_device_short_id long_id =
     (let h = unat (mkcd_hash (le_bytes 8 long_id) 30) in
      [0x41 + of_nat (h mod 26), 0x41 + of_nat (h div 26 mod 26),
       0x30 + of_nat (h div (26 * 26) mod 10), 0x30 + of_nat (h div (26 * 26 * 10) mod 10), 0])"

definition url_plain :: "byte \<Rightarrow> bool" where
  "url_plain c \<longleftrightarrow> (0x30 \<le> c \<and> c \<le> 0x39) \<or> (0x61 \<le> c OR 0x20 \<and> c OR 0x20 \<le> 0x7a) \<or>
     c = 0x2d \<or> c = 0x2e \<or> c = 0x5f \<or> c = 0x7e"

text \<open>\<open>urlencode_loop src dst p len\<close>: \<open>p\<close> is the offset of the C variable \<open>dst\<close>.\<close>

fun urlencode_loop :: "mem \<Rightarrow> mem option \<Rightarrow> nat \<Rightarrow> nat \<Rightarrow> (mem option \<times> nat) option" where
  "urlencode_loop [] dst p len = None"
| "urlencode_loop (c # src) dst p len =
     (if c = 0 then
        (case dst of
           None \<Rightarrow> Some (None, len + 1)
         | Some d \<Rightarrow> do { d \<leftarrow> wr8 d p 0; Some (Some d, len + 1) })
      else if url_plain c then
        (case dst of
           None \<Rightarrow> urlencode_loop src None p (len + 1)
         | Some d \<Rightarrow> do { d \<leftarrow> wr8 d p c; urlencode_loop src (Some d) (p + 1) (len + 1) })
      else
        (case dst of
           None \<Rightarrow> urlencode_loop src None p (len + 3)
         | Some d \<Rightarrow> do {
             d \<leftarrow> wr8 d p 0x25;
             d \<leftarrow> jd_to_hex d (p + 1) [c];
             urlencode_loop src (Some d) (p + 1 + 2) (len + 3) }))"

definition urlencode_core :: "mem option \<Rightarrow> mem \<Rightarrow> (mem option \<times> nat) option" where
  "urlencode_core dst src = urlencode_loop src dst 0 0"

definition jd_urlencode :: "mem \<Rightarrow> mem \<Rightarrow> mem option" where
  "jd_urlencode fresh src = do {
     (_, len) \<leftarrow> urlencode_core None src;
     (r, _) \<leftarrow> urlencode_core (Some (take len fresh)) src;
     r }"

text \<open>The parts of \<open>jd_concat_many\<close> up to the terminating null pointer.\<close>

fun concat_len :: "mem list \<Rightarrow> nat \<Rightarrow> nat option" where
  "concat_len [] len = Some len"
| "concat_len (p # ps) len = do { n \<leftarrow> strlen p 0; concat_len ps (len + n) }"

fun concat_copy :: "mem \<Rightarrow> mem list \<Rightarrow> nat \<Rightarrow> (mem \<times> nat) option" where
  "concat_copy r [] len = Some (r, len)"
| "concat_copy r (p # ps) len = do {
     k \<leftarrow> strlen p 0;
     src \<leftarrow> rd_mem p 0 k;
     r \<leftarrow> wr_mem r len src;
     concat_copy r ps (len + k) }"

definition jd_concat_many :: "mem \<Rightarrow> mem list \<Rightarrow> mem option" where
  "jd_concat_many fresh parts = do {
     len \<leftarrow> concat_len parts 0;
     (r, len) \<leftarrow> concat_copy (take (len + 1) fresh) parts 0;
     wr8 r len 0 }"

text \<open>A null argument ends the list early.\<close>

fun upto_null :: "mem option list \<Rightarrow> mem list" where
  "upto_null [] = []"
| "upto_null (None # ps) = []"
| "upto_null (Some p # ps) = p # upto_null ps"

definition jd_concat3 :: "mem \<Rightarrow> mem option \<Rightarrow> mem option \<Rightarrow> mem option \<Rightarrow> mem option" where
  "jd_concat3 fresh a b c = jd_concat_many fresh (upto_null [a, b, c, None])"

definition jd_concat2 :: "mem \<Rightarrow> mem option \<Rightarrow> mem option \<Rightarrow> mem option" where
  "jd_concat2 fresh a b = jd_concat3 fresh a b None"

definition jd_strdup :: "mem \<Rightarrow> mem option \<Rightarrow> mem option" where
  "jd_strdup fresh a = jd_concat3 fresh a None None"

definition jd_memdup :: "mem \<Rightarrow> mem \<Rightarrow> nat \<Rightarrow> mem option" where
  "jd_memdup fresh src sz =
     (if sz = 0 then Some (take 1 fresh)
      else do { d \<leftarrow> rd_mem src 0 sz; wr_mem (take sz fresh) 0 d })"

definition jd_dup_frame :: "mem \<Rightarrow> jd_frame \<Rightarrow> mem option" where
  "jd_dup_frame fresh frame =
     (let sz = JD_FRAME_SIZE frame in
      do { d \<leftarrow> rd_mem (frame_bytes frame) 0 sz; wr_mem (take sz fresh) 0 d })"

definition jd_ends_with :: "mem option \<Rightarrow> mem option \<Rightarrow> bool option" where
  "jd_ends_with s suff =
     (case s of None \<Rightarrow> Some False
      | Some s \<Rightarrow> (case suff of None \<Rightarrow> Some True
        | Some suff \<Rightarrow> do {
            slen \<leftarrow> strlen s 0;
            sufflen \<leftarrow> strlen suff 0;
            if slen \<ge> sufflen then do {
              a \<leftarrow> cstr s (slen - sufflen);
              b \<leftarrow> cstr suff 0;
              Some (a = b) }
            else Some False }))"

definition jd_starts_with :: "mem option \<Rightarrow> mem option \<Rightarrow> bool option" where
  "jd_starts_with s pref =
     (case s of None \<Rightarrow> Some False
      | Some s \<Rightarrow> (case pref of None \<Rightarrow> Some True
        | Some pref \<Rightarrow> do {
            preflen \<leftarrow> strlen pref 0;
            a \<leftarrow> rd_mem s 0 preflen;
            b \<leftarrow> rd_mem pref 0 preflen;
            Some (a = b) }))"

section \<open>Hexadecimal: reference and round trip\<close>

definition hex_byte :: "byte \<Rightarrow> mem" where
  "hex_byte b = [hex_chars ! unat (drop_bit 4 b), hex_chars ! unat (b AND 0xf)]"

definition hex_string :: "mem \<Rightarrow> mem" where
  "hex_string bs = concat (map hex_byte bs)"

lemma hex_string_simps [simp]: "hex_string [] = []" "hex_string (b # bs) = hex_byte b @ hex_string bs"
  by (simp_all add: hex_string_def)

lemma length_hex_byte [simp]: "length (hex_byte b) = 2"
  by (simp add: hex_byte_def)

lemma length_hex_string [simp]: "length (hex_string bs) = 2 * length bs"
  by (induction bs) simp_all

lemma wr8_patch: "i < length m \<Longrightarrow> wr8 m i b = Some (patch m i [b])"
  by (simp add: wr8_def patch_def upd_conv_take_nth_drop)

lemma to_hex_loop_eq:
  "p + 2 * i + 2 * length bs \<le> length dst \<Longrightarrow>
     to_hex_loop dst p i bs = Some (patch dst (p + 2 * i) (hex_string bs))"
proof (induction bs arbitrary: dst i)
  case Nil
  then show ?case by simp
next
  case (Cons b bs)
  let ?x = "hex_chars ! unat (drop_bit 4 b)" and ?y = "hex_chars ! unat (b AND 0xf)"
  let ?q = "p + 2 * i"
  have w: "wr8 dst (p + i * 2) ?x = Some (patch dst ?q [?x])"
    "wr8 (patch dst ?q [?x]) (p + i * 2 + 1) ?y = Some (patch dst ?q (hex_byte b))"
    using Cons.prems patch_patch_append [of ?q "[?x]" "[?y]" dst]
    by (simp_all add: wr8_patch hex_byte_def mult.commute del: wr8_Some)
  have "patch (patch dst ?q (hex_byte b)) (p + 2 * Suc i) (hex_string bs) = patch dst ?q (hex_string (b # bs))"
    using Cons.prems patch_patch_append [of ?q "hex_byte b" "hex_string bs" dst]
    by simp
  moreover have "length (patch dst ?q (hex_byte b)) = length dst"
    using Cons.prems by simp
  ultimately show ?case
    using Cons.IH [of "Suc i" "patch dst ?q (hex_byte b)"] Cons.prems w by simp
qed

lemma jd_to_hex_eq:
  assumes "p + 2 * length src < length dst"
  shows "jd_to_hex dst p src = Some (patch dst p (hex_string src @ [0]))"
  using assms to_hex_loop_eq [of p 0 src dst] patch_patch_append [of p "hex_string src" "[0]" dst]
  by (simp add: jd_to_hex_def wr8_patch mult.commute del: wr8_Some)

lemma hex_nibble: "hexdig (hex_chars ! v) = int v \<and> hex_chars ! v \<noteq> 0" if "v < 16"
proof -
  have "list_all (\<lambda>v. hexdig (hex_chars ! v) = int v \<and> hex_chars ! v \<noteq> 0) [0..<16]" by code_simp
  with that show ?thesis by (simp only: list_all_iff) auto
qed

lemma nibbles_lt: "unat (drop_bit 4 (b :: byte)) < 16" "unat (b AND 0xf) < 16"
proof -
  show "unat (drop_bit 4 b) < 16"
    using unat_byte_lt [of b] by (simp only: unat_drop_bit_eq) (simp add: drop_bit_eq_div)
  have "b AND 0xf = take_bit 4 b" by (simp add: take_bit_eq_mask mask_eq_exp_minus_1)
  then show "unat (b AND 0xf) < 16" by (simp only: unsigned_take_bit_eq) (simp add: take_bit_eq_mod)
qed

lemma nibbles_join:
  "of_nat (((push_bit 4 (unat (drop_bit 4 b)) OR 0x100) OR unat (b AND 0xf)) AND 0xff) = (b :: byte)"
proof -
  have c: "(0xff :: nat) = Bit_Operations.mask 8" "(0xf :: byte) = Bit_Operations.mask 4"
    by (simp_all add: mask_eq_exp_minus_1)
  have h: "bit (0x100 :: nat) n \<longleftrightarrow> n = 8" for n
    using bit_exp_iff [of 8 n, where 'a = nat] by simp
  have "((push_bit 4 (unat (drop_bit 4 b)) OR 0x100) OR unat (b AND 0xf)) AND 0xff = unat b"
  proof (rule bit_eqI)
    fix n
    show "bit (((push_bit 4 (unat (drop_bit 4 b)) OR 0x100) OR unat (b AND 0xf)) AND 0xff) n = bit (unat b) n"
      unfolding c by (cases "n < 4") (auto simp: bit_simps h dest: bit_imp_le_length)
  qed
  then show ?thesis by simp
qed

lemma push_bit_or_nonzero: "push_bit 4 v OR 0x100 \<noteq> (0 :: nat)"
proof
  assume "push_bit 4 v OR 0x100 = (0 :: nat)"
  then have "bit (push_bit 4 v OR 0x100 :: nat) 8 = bit (0 :: nat) 8" by simp
  then show False by (simp add: bit_or_iff bit_simps)
qed

lemma from_hex_loop_byte:
  assumes "dp < length d"
  shows "from_hex_loop (hex_byte b @ src) 0 (Some d) dp = from_hex_loop src 0 (Some (d[dp := b])) (dp + 1)"
proof -
  note n = hex_nibble [OF nibbles_lt(1) [of b]] hex_nibble [OF nibbles_lt(2) [of b]]
  have "uint w \<noteq> -1" for w :: byte proof -
    have "0 \<le> uint w" by simp
    then show ?thesis by linarith
  qed
  then show ?thesis
    using n assms push_bit_or_nonzero [of "unat (drop_bit 4 b)"] nibbles_join [of b]
    by (simp add: hex_byte_def Let_def)
qed

lemma from_hex_loop_hex_string:
  "dp + length bs \<le> length d \<Longrightarrow>
     from_hex_loop (hex_string bs @ 0 # r) 0 (Some d) dp = Some (Some (patch d dp bs), dp + length bs)"
proof (induction bs arbitrary: d dp)
  case Nil
  then show ?case by simp
next
  case (Cons b bs)
  have "from_hex_loop (hex_string (b # bs) @ 0 # r) 0 (Some d) dp =
      from_hex_loop (hex_string bs @ 0 # r) 0 (Some (d[dp := b])) (dp + 1)"
    using from_hex_loop_byte [of dp d b "hex_string bs @ 0 # r"] Cons.prems by simp
  moreover have "d[dp := b] = patch d dp [b]"
    using Cons.prems wr8_patch [of dp d b] by simp
  ultimately show ?case
    using Cons.IH [of "dp + 1" "d[dp := b]"] Cons.prems patch_patch_append [of dp "[b]" bs d] by simp
qed

text \<open>\<open>jd_from_hex\<close> writes at most one byte per two hexadecimal digits.\<close>

lemma from_hex_loop_bound:
  assumes "0 \<notin> set s" "2 * dp + length s + (if prev = 0 then 0 else 1) \<le> n" "length d = n div 2"
  shows "\<exists>d' k. from_hex_loop (s @ 0 # r) prev (Some d) dp = Some (Some d', k) \<and> length d' = length d \<and>
    dp \<le> k \<and> k \<le> length d"
  using assms
proof (induction s arbitrary: prev d dp)
  case Nil
  then show ?case by auto
next
  case (Cons c s)
  consider (skip) "hexdig c = -1" | (first) "hexdig c \<noteq> -1" "prev = 0" | (second) "hexdig c \<noteq> -1" "prev \<noteq> 0" by blast
  then show ?case
  proof cases
    case skip
    then show ?thesis using Cons.IH [of dp prev d] Cons.prems by auto
  next
    case first
    then show ?thesis
      using Cons.IH [of dp "push_bit 4 (nat (hexdig c)) OR 0x100" d] Cons.prems push_bit_or_nonzero
      by (auto simp: Let_def)
  next
    case second
    let ?d = "d[dp := of_nat ((prev OR nat (hexdig c)) AND 0xff)]"
    have "dp < length d" using Cons.prems second by auto
    then show ?thesis
      using second Cons.IH [of "dp + 1" 0 ?d] Cons.prems by (auto simp: Let_def)
  qed
qed

section \<open>Decimal: reference and round trip\<close>

lemma reverse_loop_eq:
  "reverse_loop (a @ xs @ b) (int (length a)) (int (length a) + int (length xs) - 1) = Some (a @ rev xs @ b)"
proof (induction xs arbitrary: a b rule: measure_induct_rule [where f = length])
  case (less xs)
  consider "length xs \<le> 1" | x mid y where "xs = x # mid @ [y]"
    by (metis One_nat_def Suc_le_length_iff append_butlast_last_id length_0_conv length_Cons list.exhaust nle_le)
  then show ?case
  proof cases
    case 1
    then have "rev xs = xs" by (cases xs) auto
    then show ?thesis using 1 by (subst reverse_loop.simps) simp
  next
    case 2
    let ?m = "a @ xs @ b"
    have n: "nat (int (length a) + int (length xs) - 1) = length a + length mid + 1" using 2 by simp
    have m1: "?m[length a := y] = (a @ [y]) @ mid @ [y] @ b" using 2 by (simp add: list_update_append)
    have m2: "((a @ [y]) @ mid @ [y] @ b)[length a + length mid + 1 := x] = (a @ [y]) @ mid @ ([x] @ b)"
      by (simp add: list_update_append)
    have r: "?m ! length a = x" "?m ! (length a + length mid + 1) = y"
      using 2 by (simp_all add: nth_append)
    have "reverse_loop ?m (int (length a)) (int (length a) + int (length xs) - 1) =
        reverse_loop ((a @ [y]) @ mid @ ([x] @ b)) (int (length a) + 1) (int (length a) + int (length xs) - 2)"
      using 2 n r m1 m2 by (subst reverse_loop.simps) (simp add: algebra_simps)
    also have "\<dots> = Some ((a @ [y]) @ rev mid @ ([x] @ b))"
      using less.IH [of mid "a @ [y]" "[x] @ b"] 2 by (simp add: algebra_simps)
    finally show ?thesis using 2 by simp
  qed
qed

lemma jd_string_reverse_eq:
  assumes "0 \<notin> set xs"
  shows "jd_string_reverse (a @ xs @ 0 # b) (length a) = Some (a @ rev xs @ 0 # b)"
  using assms reverse_loop_eq [of a xs "0 # b"] by (simp add: jd_string_reverse_def strlen_def cstr_def)

text \<open>The decimal digits of a number, least significant first.\<close>

fun dec_rev :: "nat \<Rightarrow> mem" where
  "dec_rev k = of_nat (k mod 10 + 0x30) # (if k div 10 > 0 then dec_rev (k div 10) else [])"

declare dec_rev.simps [simp del]

definition dec_string :: "nat \<Rightarrow> mem" where
  "dec_string k = rev (dec_rev k)"

definition dec_int :: "int \<Rightarrow> mem" where
  "dec_int n = (if n < 0 then 0x2d # dec_string (nat (- n)) else dec_string (nat n))"

lemma utoa_loop_eq:
  "s + length (dec_rev k) \<le> length m \<Longrightarrow>
     utoa_loop k m s = Some (patch m s (dec_rev k), s + length (dec_rev k))"
proof (induction k arbitrary: m s rule: less_induct)
  case (less k)
  let ?d = "of_nat (k mod 10 + 0x30) :: byte"
  have "s < length m" using less.prems by (subst (asm) dec_rev.simps) simp
  then have w: "wr8 m s ?d = Some (patch m s [?d])" by (rule wr8_patch)
  show ?case
  proof (cases "k div 10 > 0")
    case False
    with w show ?thesis by (subst utoa_loop.simps, subst (1 2) dec_rev.simps) simp
  next
    case True
    have d: "dec_rev k = ?d # dec_rev (k div 10)" using True by (subst dec_rev.simps) simp
    have "k div 10 < k" using True by simp
    from less.IH [OF this, of "s + 1" "patch m s [?d]"] less.prems d
    have "utoa_loop (k div 10) (patch m s [?d]) (s + 1) =
        Some (patch (patch m s [?d]) (s + 1) (dec_rev (k div 10)), s + length (dec_rev k))" by simp
    moreover have "patch (patch m s [?d]) (s + 1) (dec_rev (k div 10)) = patch m s (dec_rev k)"
      using patch_patch_append [of s "[?d]" "dec_rev (k div 10)" m] less.prems d by simp
    ultimately show ?thesis using w True by (subst utoa_loop.simps) simp
  qed
qed

lemma dec_digit: "k < 10 \<Longrightarrow> unat (of_nat (k + 0x30) :: byte) = k + 0x30"
  using unat_of_nat_byte [of "k + 0x30"] by (simp del: of_nat_add)

lemma dec_rev_digits: "b \<in> set (dec_rev k) \<Longrightarrow> 0x30 \<le> unat b \<and> unat b \<le> 0x39"
proof (induction k rule: less_induct)
  case (less k)
  from less.prems consider "b = of_nat (k mod 10 + 0x30)" | "k div 10 > 0" "b \<in> set (dec_rev (k div 10))"
    using dec_rev.simps [of k] by (auto split: if_splits)
  then show ?case
  proof cases
    case 1
    have "k mod 10 < 10" by simp
    with 1 dec_digit [of "k mod 10"] show ?thesis by (simp del: of_nat_add)
  next
    case 2
    then show ?thesis using less.IH [of "k div 10"] by simp
  qed
qed

lemma dec_rev_nz: "0 \<notin> set (dec_rev k)"
  using dec_rev_digits [of 0 k] by auto

lemma length_dec_rev: "k < 10 ^ n \<Longrightarrow> 0 < n \<Longrightarrow> length (dec_rev k) \<le> n"
proof (induction n arbitrary: k)
  case 0
  then show ?case by simp
next
  case (Suc n)
  show ?case
  proof (cases "k div 10 > 0")
    case False
    then show ?thesis by (subst dec_rev.simps) simp
  next
    case True
    have lt: "k div 10 < 10 ^ n" using Suc.prems(1) by (simp add: less_mult_imp_div_less mult.commute)
    with True have "0 < n" by (cases n) auto
    from Suc.IH [OF lt this] True show ?thesis by (subst dec_rev.simps) simp
  qed
qed

lemma jd_utoa_eq:
  assumes "s + length (dec_string k) < length m"
  shows "jd_utoa k m s = Some (patch m s (dec_string k @ [0]))"
proof -
  have l: "s + length (dec_rev k) < length m" using assms by (simp add: dec_string_def)
  then have "utoa_loop k m s = Some (patch m s (dec_rev k), s + length (dec_rev k))"
    by (intro utoa_loop_eq) simp
  moreover have "wr8 (patch m s (dec_rev k)) (s + length (dec_rev k)) 0 =
      Some (patch m s (dec_rev k @ [0]))"
    using l patch_patch_append [of s "dec_rev k" "[0]" m] by (simp add: wr8_patch del: wr8_Some)
  moreover have "jd_string_reverse (patch m s (dec_rev k @ [0])) s = Some (patch m s (dec_string k @ [0]))"
    using jd_string_reverse_eq [OF dec_rev_nz, of "take s m" k] l
    by (simp add: patch_def dec_string_def)
  ultimately show ?thesis by (simp add: jd_utoa_def)
qed

lemma jd_itoa_eq:
  assumes "int_ok n" "n \<noteq> - 2147483648" "s + length (dec_int n) < length m"
  shows "jd_itoa n m s = Some (patch m s (dec_int n @ [0]))"
proof (cases "n < 0")
  case False
  with assms show ?thesis by (simp add: jd_itoa_def dec_int_def jd_utoa_eq)
next
  case True
  have w: "wr8 m s 0x2d = Some (patch m s [0x2d])" using assms(3) by (intro wr8_patch) simp
  have "jd_utoa (nat (- n)) (patch m s [0x2d]) (s + 1) =
      Some (patch (patch m s [0x2d]) (s + 1) (dec_string (nat (- n)) @ [0]))"
    using assms(3) True by (intro jd_utoa_eq) (simp add: dec_int_def)
  with w True assms patch_patch_append [of s "[0x2d]" "dec_string (nat (- n)) @ [0]" m] show ?thesis
    by (simp add: jd_itoa_def dec_int_def)
qed

lemma atoi_loop_digits:
  assumes "int r * 10 ^ length (dec_rev k) + int k < 2147483648"
  shows "atoi_loop (rev (dec_rev k) @ s) (int r) =
    atoi_loop s (int r * 10 ^ length (dec_rev k) + int k)"
  using assms
proof (induction k arbitrary: s rule: less_induct)
  case (less k)
  let ?d = "of_nat (k mod 10 + 0x30) :: byte"
  have step: "atoi_loop (?d # s) (int q) = atoi_loop s (int q * 10 + int (k mod 10))"
    if "int q * 10 + int (k mod 10) < 2147483648" for q
  proof -
    have j: "k mod 10 < 10" by simp
    then have v: "int (unat ?d) - 0x30 = int (k mod 10)" by (subst dec_digit) simp_all
    from j have c: "0 \<le> int (k mod 10) \<and> int (k mod 10) \<le> 9" by linarith
    show ?thesis
      unfolding atoi_loop.simps Let_def v using that c by (simp add: int_ok_def)
  qed
  show ?case
  proof (cases "k div 10 > 0")
    case False
    then have "dec_rev k = [?d]" "k mod 10 = k" by (subst dec_rev.simps, simp_all)
    with step [of r] less.prems show ?thesis by simp
  next
    case True
    let ?n = "length (dec_rev (k div 10))"
    have d: "dec_rev k = ?d # dec_rev (k div 10)" using True by (subst dec_rev.simps) simp
    have k: "int k = int (k div 10) * 10 + int (k mod 10)" by presburger
    have e: "int r * 10 ^ length (dec_rev k) + int k =
        (int r * 10 ^ ?n + int (k div 10)) * 10 + int (k mod 10)"
      using d k by (simp add: algebra_simps)
    have "int r * 10 ^ ?n + int (k div 10) < 2147483648"
      using less.prems e by (smt (verit) of_nat_0_le_iff zero_le_mult_iff zero_le_power)
    then have "atoi_loop (rev (dec_rev (k div 10)) @ ?d # s) (int r) =
        atoi_loop (?d # s) (int r * 10 ^ ?n + int (k div 10))"
      using True by (intro less.IH) simp_all
    also have "\<dots> = atoi_loop s (int r * 10 ^ length (dec_rev k) + int k)"
      using step [of "r * 10 ^ ?n + k div 10"] less.prems e by simp
    finally show ?thesis using d by simp
  qed
qed

lemma dec_string_hd: "dec_string k \<noteq> [] \<and> hd (dec_string k) \<noteq> 0x2d"
proof -
  have ne: "dec_string k \<noteq> []" by (subst dec_string_def, subst dec_rev.simps) simp
  then have "hd (dec_string k) \<in> set (dec_rev k)" by (metis dec_string_def hd_in_set set_rev)
  then have "unat (hd (dec_string k)) \<noteq> unat (0x2d :: byte)" using dec_rev_digits by fastforce
  with ne show ?thesis by auto
qed

lemma jd_atoi_dec_int:
  assumes "- 2147483648 < n" "n < 2147483648"
  shows "jd_atoi (dec_int n @ 0 # r) = Some n"
proof -
  have *: "atoi_loop (dec_string k @ 0 # r) 0 = Some (int k)" if "k < 2147483648" for k
    using atoi_loop_digits [of 0 k "0 # r"] that by (simp add: dec_string_def Let_def)
  have h: "\<exists>c cs. dec_string k = c # cs \<and> c \<noteq> 0x2d" for k
    using dec_string_hd [of k] by (cases "dec_string k") auto
  show ?thesis
  proof (cases "n < 0")
    case True
    then show ?thesis using * [of "nat (- n)"] assms by (simp add: jd_atoi_def dec_int_def)
  next
    case False
    then show ?thesis using * [of "nat n"] assms h [of "nat n"] by (auto simp: jd_atoi_def dec_int_def)
  qed
qed

section \<open>Pointers and unsigned hexadecimal numbers\<close>

definition hexU :: "nat \<Rightarrow> byte" where
  "hexU d = of_nat (if d > 9 then 0x41 + d - 10 else 0x30 + d)"

fun hex_ref :: "nat \<Rightarrow> mem" where
  "hex_ref n = (if n < 16 then [] else hex_ref (n div 16)) @ [hexU (n mod 16)]"

declare hex_ref.simps [simp del]

fun padded :: "nat \<Rightarrow> nat \<Rightarrow> mem" where
  "padded 0 n = []"
| "padded (Suc j) n = hexU (n div 16 ^ j mod 16) # padded j n"

lemma length_padded [simp]: "length (padded j n) = j"
  by (induction j) auto

lemma padded_snoc: "padded (Suc j) n = padded j (n div 16) @ [hexU (n mod 16)]"
proof (induction j)
  case (Suc j)
  have "n div 16 ^ Suc j = n div 16 div 16 ^ j" by (simp add: div_mult2_eq)
  with Suc show ?case by simp
qed simp

lemma hex_ref_padded: "16 ^ j \<le> x \<Longrightarrow> x < 16 ^ Suc j \<Longrightarrow> hex_ref x = padded (Suc j) x"
proof (induction j arbitrary: x)
  case 0
  then show ?case by (subst hex_ref.simps) simp
next
  case (Suc j)
  have "x div 16 < 16 ^ Suc j" using Suc.prems(2) by (simp add: less_mult_imp_div_less mult.commute)
  moreover have "16 ^ j \<le> x div 16"
    using Suc.prems(1) by (metis div_le_mono nonzero_mult_div_cancel_left power_Suc zero_neq_numeral)
  moreover have "\<not> x < 16"
  proof -
    have "(16 :: nat) \<le> 16 ^ Suc j" using power_increasing [of 1 "Suc j" "16 :: nat"] by simp
    from le_trans [OF this Suc.prems(1)] show ?thesis by simp
  qed
  ultimately show ?case
    using Suc.IH [of "x div 16"] by (subst hex_ref.simps, subst padded_snoc) simp
qed

lemma padded_mod: "j \<le> k \<Longrightarrow> padded j (n mod 16 ^ k) = padded j n"
proof (induction j)
  case (Suc j)
  define c where "c = (16 :: nat) ^ (k - j)"
  have k: "(16 :: nat) ^ k = 16 ^ j * c" using Suc.prems by (simp add: c_def flip: power_add)
  have "16 dvd c" using Suc.prems by (simp add: c_def dvd_power)
  moreover have "n mod 16 ^ k div 16 ^ j = n div 16 ^ j mod c" by (simp add: k mod_mult2_eq)
  ultimately have "n mod 16 ^ k div 16 ^ j mod 16 = n div 16 ^ j mod 16" by (simp add: mod_mod_cancel)
  with Suc show ?case by simp
qed simp

lemma nibble_nat: "unat (drop_bit (4 * j) n AND 0xf) = unat n div 16 ^ j mod 16" for n :: "32 word"
proof -
  have "drop_bit (4 * j) n AND 0xf = take_bit 4 (drop_bit (4 * j) n)"
    by (simp add: take_bit_eq_mask mask_eq_exp_minus_1)
  then have "unat (drop_bit (4 * j) n AND 0xf) = take_bit 4 (drop_bit (4 * j) (unat n))"
    by (simp only: unsigned_take_bit_eq unat_drop_bit_eq)
  then show ?thesis by (simp add: take_bit_eq_mod drop_bit_eq_div power_mult)
qed

lemma writeNum_loop_Suc:
  "writeNum_loop m p n full i (Suc j) =
     (if full \<or> unat n div 16 ^ j mod 16 \<noteq> 0 \<or> j = 0 \<or> i \<noteq> 0 then do {
        m \<leftarrow> wr8 m (p + i) (hexU (unat n div 16 ^ j mod 16));
        writeNum_loop m p n full (i + 1) j }
      else writeNum_loop m p n full i j)"
  by (simp only: writeNum_loop.simps nibble_nat Let_def hexU_def)

lemma writeNum_loop_pad:
  "i \<noteq> 0 \<Longrightarrow> p + i + j \<le> length m \<Longrightarrow>
     writeNum_loop m p n full i j = Some (patch m (p + i) (padded j (unat n)), i + j)"
proof (induction j arbitrary: m i)
  case (Suc j)
  let ?c = "hexU (unat n div 16 ^ j mod 16)"
  have "wr8 m (p + i) ?c = Some (patch m (p + i) [?c])" using Suc.prems by (intro wr8_patch) simp
  moreover have "patch (patch m (p + i) [?c]) (p + (i + 1)) (padded j (unat n)) = patch m (p + i) (padded (Suc j) (unat n))"
    using patch_patch_append [of "p + i" "[?c]" "padded j (unat n)" m] Suc.prems by simp
  ultimately show ?case
    using Suc.IH [of "i + 1" "patch m (p + i) [?c]"] Suc.prems
    by (simp add: writeNum_loop_Suc del: writeNum_loop.simps(2))
qed simp

lemma writeNum_loop_min:
  "p + j \<le> length m \<Longrightarrow> 0 < j \<Longrightarrow>
     writeNum_loop m p n False 0 j =
       Some (patch m p (hex_ref (unat n mod 16 ^ j)), length (hex_ref (unat n mod 16 ^ j)))"
proof (induction j)
  case (Suc j)
  define d where "d = unat n div 16 ^ j mod 16"
  define x where "x = unat n mod 16 ^ Suc j"
  have x: "x = 16 ^ j * d + unat n mod 16 ^ j"
    using mod_mult2_eq [of "unat n" "16 ^ j" 16] by (simp add: x_def d_def mult.commute)
  show ?case
  proof (cases "d \<noteq> 0 \<or> j = 0")
    case True
    have "hex_ref x = padded (Suc j) x"
    proof (cases "j = 0")
      case True
      then show ?thesis by (subst hex_ref.simps) (simp add: x_def)
    next
      case False
      with True have "16 ^ j \<le> x" using x by (metis One_nat_def Suc_leI mult_le_mono2 mult.right_neutral le_add1 le_trans neq0_conv)
      then show ?thesis by (intro hex_ref_padded) (simp_all add: x_def)
    qed
    also have "\<dots> = hexU d # padded j (unat n)"
      using padded_mod [of "Suc j" "Suc j" "unat n"] by (simp add: x_def d_def)
    finally have h: "hex_ref x = hexU d # padded j (unat n)" .
    have "wr8 m p (hexU d) = Some (patch m p [hexU d])" using Suc.prems by (intro wr8_patch) simp
    moreover have "patch (patch m p [hexU d]) (p + 1) (padded j (unat n)) = patch m p (hex_ref x)"
      using patch_patch_append [of p "[hexU d]" "padded j (unat n)" m] Suc.prems h by simp
    ultimately show ?thesis
      using True writeNum_loop_pad [of 1 p j "patch m p [hexU d]" n False] Suc.prems h
      by (simp add: writeNum_loop_Suc d_def [symmetric] x_def [symmetric] del: writeNum_loop.simps(2) power_Suc)
  next
    case False
    then have "x = unat n mod 16 ^ j" using x by simp
    with False Suc show ?thesis
      by (simp add: writeNum_loop_Suc d_def [symmetric] x_def [symmetric] del: writeNum_loop.simps(2) power_Suc)
  qed
qed simp

lemma length_hex_ref: "x < 16 ^ n \<Longrightarrow> 0 < n \<Longrightarrow> length (hex_ref x) \<le> n"
proof (induction n arbitrary: x)
  case (Suc n)
  show ?case
  proof (cases "x < 16")
    case True
    then show ?thesis by (subst hex_ref.simps) simp
  next
    case False
    have lt: "x div 16 < 16 ^ n" using Suc.prems(1) by (simp add: less_mult_imp_div_less mult.commute)
    with False have "0 < n" by (cases n) auto
    from Suc.IH [OF lt this] False show ?thesis by (subst hex_ref.simps) simp
  qed
qed simp

lemma writeNum_eq:
  assumes "p + 8 < length m"
  shows "writeNum m p n False = Some (patch m p (hex_ref (unat n) @ [0]))"
proof -
  have "unat n < 16 ^ 8" using unsigned_less [of n] by simp
  then have "unat n mod 16 ^ 8 = unat n" "length (hex_ref (unat n)) \<le> 8"
    using length_hex_ref [of "unat n" 8] by simp_all
  then show ?thesis
    using writeNum_loop_min [of p 8 m n] assms patch_patch_append [of p "hex_ref (unat n)" "[0]" m]
    by (simp add: writeNum_def wr8_patch del: wr8_Some)
qed

section \<open>URL encoding and concatenation\<close>

definition url_enc :: "mem \<Rightarrow> mem" where
  "url_enc s = concat (map (\<lambda>c. if url_plain c then [c] else 0x25 # hex_byte c) s)"

lemma url_enc_simps [simp]:
  "url_enc [] = []" "url_enc (c # s) = (if url_plain c then [c] else 0x25 # hex_byte c) @ url_enc s"
  by (simp_all add: url_enc_def)

lemma urlencode_len:
  "0 \<notin> set s \<Longrightarrow> urlencode_loop (s @ 0 # r) None p len = Some (None, len + length (url_enc s) + 1)"
  by (induction s arbitrary: len) auto

lemma patch_overwrite:
  assumes "length a \<le> length b" "off + length b \<le> length m"
  shows "patch (patch m off a) off b = patch m off b"
  using assms by (simp add: patch_def add.commute)

lemma urlencode_write:
  "0 \<notin> set s \<Longrightarrow> p + length (url_enc s) < length d \<Longrightarrow>
     urlencode_loop (s @ 0 # r) (Some d) p len =
       Some (Some (patch d p (url_enc s @ [0])), len + length (url_enc s) + 1)"
proof (induction s arbitrary: d p len)
  case Nil
  then show ?case by (simp add: wr8_patch del: wr8_Some)
next
  case (Cons c s)
  show ?case
  proof (cases "url_plain c")
    case True
    then have "wr8 d p c = Some (patch d p [c])" using Cons.prems by (intro wr8_patch) simp
    with True Cons show ?thesis
      using patch_patch_append [of p "[c]" "url_enc s @ [0]" d] by (simp del: wr8_Some)
  next
    case False
    let ?d1 = "patch d p [0x25]" and ?x = "0x25 # hex_byte c"
    have len: "p + 4 \<le> length d" using Cons.prems False by simp
    have "wr8 d p 0x25 = Some ?d1" using len by (intro wr8_patch) simp
    moreover have "jd_to_hex ?d1 (p + 1) [c] = Some (patch d p (?x @ [0]))"
      using len jd_to_hex_eq [of "p + 1" "[c]" ?d1] patch_patch_append [of p "[0x25]" "hex_byte c @ [0]" d]
      by simp
    moreover have "patch (patch d p (?x @ [0])) (p + 3) (url_enc s @ [0]) = patch d p (?x @ url_enc s @ [0])"
      using Cons.prems False len patch_patch_append [of p ?x "[0]" d]
        patch_overwrite [of "[0]" "url_enc s @ [0]" "p + 3" "patch d p ?x"]
        patch_patch_append [of p ?x "url_enc s @ [0]" d] by simp
    ultimately show ?thesis
      using False Cons.IH [of "p + 3" "patch d p (?x @ [0])" "len + 3"] Cons.prems
      by (simp add: ac_simps numeral_3_eq_3 del: wr8_Some)
  qed
qed

lemma jd_urlencode_eq:
  assumes "0 \<notin> set s" "length (url_enc s) < length fresh"
  shows "jd_urlencode fresh (s @ 0 # r) = Some (url_enc s @ [0])"
  using assms urlencode_len [of s r 0 0] urlencode_write [of s 0 "take (length (url_enc s) + 1) fresh" r 0]
  by (simp add: jd_urlencode_def urlencode_core_def patch_def)

lemma concat_len_eq:
  "list_all2 (\<lambda>p s. cstr p 0 = Some s) ps ss \<Longrightarrow> concat_len ps len = Some (len + length (concat ss))"
  by (induction ps ss arbitrary: len rule: list_all2_induct) (auto simp: strlen_def)

lemma cstr_prefix: "cstr p 0 = Some s \<Longrightarrow> length s \<le> length p \<and> take (length s) p = s"
  by (metis append_eq_conv_conj cstr_Some drop0 length_append le_add1)

lemma concat_copy_eq:
  "list_all2 (\<lambda>p s. cstr p 0 = Some s) ps ss \<Longrightarrow> len + length (concat ss) \<le> length r \<Longrightarrow>
     concat_copy r ps len = Some (patch r len (concat ss), len + length (concat ss))"
proof (induction ps ss arbitrary: len r rule: list_all2_induct)
  case (Cons p ps s ss)
  have p: "rd_mem p 0 (length s) = Some s" using cstr_prefix [OF Cons.hyps(1)] by simp
  show ?case
    using Cons p patch_patch_append [of len s "concat ss" r] by (simp add: strlen_def add.assoc)
qed simp

lemma jd_concat_many_eq:
  assumes "list_all2 (\<lambda>p s. cstr p 0 = Some s) ps ss" "length (concat ss) < length fresh"
  shows "jd_concat_many fresh ps = Some (concat ss @ [0])"
proof -
  let ?n = "length (concat ss)"
  have "concat_copy (take (?n + 1) fresh) ps 0 = Some (patch (take (?n + 1) fresh) 0 (concat ss), ?n)"
    using concat_copy_eq [OF assms(1), of 0 "take (?n + 1) fresh"] assms(2) by simp
  moreover have "wr8 (patch (take (?n + 1) fresh) 0 (concat ss)) ?n 0 = Some (concat ss @ [0])"
    using assms(2) patch_patch_append [of 0 "concat ss" "[0]" "take (?n + 1) fresh"]
    by (simp add: wr8_patch patch_def del: wr8_Some)
  ultimately show ?thesis using concat_len_eq [OF assms(1), of 0] by (simp add: jd_concat_many_def)
qed

section \<open>Properties\<close>

text \<open>Hexadecimal round trip.  \<open>jd_from_hex\<close> applied to the text \<open>jd_to_hex\<close> writes for
  some bytes restores these bytes, stays within a buffer of their number, and returns their
  number.\<close>

theorem hex_roundtrip:
  assumes "2 * length src < length txt" "length src \<le> length dst"
  shows "\<exists>t. jd_to_hex txt 0 src = Some t \<and>
    jd_from_hex (Some dst) t = Some (Some (patch dst 0 src), length src)"
proof -
  have "jd_to_hex txt 0 src = Some (patch txt 0 (hex_string src @ [0]))"
    using assms(1) by (intro jd_to_hex_eq) simp
  moreover have "patch txt 0 (hex_string src @ [0]) = hex_string src @ 0 # drop (2 * length src + 1) txt"
    by (simp add: patch_def)
  ultimately show ?thesis
    using from_hex_loop_hex_string [of 0 src dst] assms(2) by (simp add: jd_from_hex_def)
qed

theorem hex_roundtrip_witness:
  "\<exists>t. jd_to_hex (replicate 5 0) 0 [0x1f, 0xa0] = Some t \<and>
    jd_from_hex (Some [0, 0, 7]) t = Some (Some (patch [0, 0, 7] 0 [0x1f, 0xa0]), length [0x1f :: byte, 0xa0])"
  by (rule hex_roundtrip) simp_all

text \<open>\<open>jd_from_hex_a\<close> never overruns the buffer it allocates: for every terminated input,
  hexadecimal or not, the conversion succeeds within \<open>strlen / 2\<close> bytes.\<close>

theorem jd_from_hex_a_in_bounds:
  assumes "0 \<notin> set s" "length s div 2 \<le> length fresh"
  shows "\<exists>r n. jd_from_hex_a fresh (s @ 0 # rest) = Some (r, n) \<and> length r = length s div 2 \<and> n \<le> length r"
  using from_hex_loop_bound [OF assms(1), of 0 0 "length s" "take (length s div 2) fresh" rest] assms
  by (auto simp: jd_from_hex_a_def jd_from_hex_def strlen_def cstr_app)

theorem jd_from_hex_a_in_bounds_witness:
  "\<exists>r n. jd_from_hex_a [0, 0, 0] ([0x61, 0x20, 0x7a, 0x39, 0x30] @ 0 # []) = Some (r, n) \<and>
    length r = length [0x61 :: byte, 0x20, 0x7a, 0x39, 0x30] div 2 \<and> n \<le> length r"
  by (rule jd_from_hex_a_in_bounds) simp_all

text \<open>Decimal round trip.  \<open>jd_itoa\<close> needs 12 bytes for every \<open>int\<close> but the least one,
  writes its decimal notation and a terminator, and \<open>jd_atoi\<close> reads the number back.\<close>

theorem itoa_atoi_roundtrip:
  assumes "- 2147483648 < n" "n < 2147483648" "p + 12 \<le> length m"
  shows "\<exists>m'. jd_itoa n m p = Some m' \<and> length m' = length m \<and> cstr m' p = Some (dec_int n) \<and>
    jd_atoi (drop p m') = Some n"
proof -
  have l: "length (dec_string k) \<le> 10" if "k < 2147483648" for k
    using length_dec_rev [of k 10] that by (simp add: dec_string_def)
  have len: "length (dec_int n) \<le> 11"
  proof -
    have "nat n < 2147483648" "nat (- n) < 2147483648" using assms(1,2) by linarith+
    from l [OF this(1)] l [OF this(2)] show ?thesis by (auto simp: dec_int_def)
  qed
  have nz: "0 \<notin> set (dec_int n)" using dec_rev_nz by (auto simp: dec_int_def dec_string_def)
  have e: "jd_itoa n m p = Some (patch m p (dec_int n @ [0]))"
    using assms len by (intro jd_itoa_eq) (simp_all add: int_ok_def)
  have "drop p (patch m p (dec_int n @ [0])) = dec_int n @ 0 # drop (p + length (dec_int n) + 1) m"
    using assms(3) len by (simp add: patch_def)
  with e jd_atoi_dec_int [OF assms(1,2)] nz len assms(3) show ?thesis
    by (simp add: cstr_patch)
qed

theorem itoa_atoi_roundtrip_witness:
  "\<exists>m'. jd_itoa (- 409) (replicate 14 7) 1 = Some m' \<and> length m' = length (replicate 14 (7 :: byte)) \<and>
    cstr m' 1 = Some (dec_int (- 409)) \<and> jd_atoi (drop 1 m') = Some (- 409)"
  by (rule itoa_atoi_roundtrip) simp_all

text \<open>\<open>jd_urlencode\<close> allocates exactly the bytes it writes: the length computed in the first
  pass is the length of the encoded text with its terminator, and the second pass fills it with
  every unreserved character as it is and every other one as \<open>%xx\<close>.\<close>

theorem jd_urlencode_exact:
  assumes "0 \<notin> set s" "length (url_enc s) < length fresh"
  shows "urlencode_core None (s @ 0 # r) = Some (None, length (url_enc s @ [0])) \<and>
    jd_urlencode fresh (s @ 0 # r) = Some (url_enc s @ [0])"
  using jd_urlencode_eq [OF assms] urlencode_len [OF assms(1), of r 0 0] by (simp add: urlencode_core_def)

theorem jd_urlencode_exact_witness:
  "urlencode_core None ([0x61, 0x20] @ 0 # []) = Some (None, length (url_enc [0x61, 0x20] @ [0])) \<and>
    jd_urlencode (replicate 9 0) ([0x61, 0x20] @ 0 # []) = Some (url_enc [0x61, 0x20] @ [0])"
  by (rule jd_urlencode_exact) (simp_all add: url_plain_def)

text \<open>\<open>jd_starts_with\<close> compares as many bytes as the prefix has, also when the string is shorter:
  the comparison then runs past the end of the string.\<close>

lemma jd_starts_with_overread: "jd_starts_with (Some [0x61, 0]) (Some [0x61, 0x62, 0x63, 0]) = None"
  by code_simp

end
