(* ===== verification/Jd_Printf.thy ===== *)
theory Jd_Printf
  imports Jd_Text
begin

text \<open>
  \<open>jd_sprintf\<close> and its helpers (source/jd\_util.c) in the \<open>JD_ADVANCED_STRING\<close> build without
  \<open>JD_LORA\<close>, with 32-bit \<open>int\<close> and pointers.  The variable arguments are a list of tagged
  values; an argument of the wrong kind or a missing one is \<open>None\<close>.  \<open>jd_print_double\<close> computes
  in floating point; it is the argument \<open>print_double\<close>, a function from the number and the 64-byte
  buffer to the buffer.  \<open>%-s\<close> frees its argument after printing, which has no effect on the text.
\<close>

datatype 'd fmt_arg =
    A_int int
  | A_uint nat
  | A_ptr "32 word"
  | A_double 'd
  | A_bytes mem
  | A_str "mem option"

record printf_ctx =
  ctx_out :: mem
  ctx_dst :: nat
  ctx_ulen :: nat

definition utf8_starts :: "mem \<Rightarrow> nat" where
  "utf8_starts src = length (filter (\<lambda>b. b AND 0xC0 \<noteq> 0x80) src)"

text \<open>\<open>ctx_out\<close> is the buffer from \<open>dst\<close> to \<open>dstend\<close>, \<open>ctx_dst\<close> the offset of the C pointer,
  which moves on past the end when the text does not fit.\<close>

definition write_n :: "printf_ctx \<Rightarrow> mem \<Rightarrow> printf_ctx option" where
  "write_n ctx src = do {
     let left = int (length (ctx_out ctx)) - int (ctx_dst ctx);
     let ctx = ctx\<lparr>ctx_ulen := ctx_ulen ctx + utf8_starts src\<rparr>;
     ctx \<leftarrow> (if left > 0 then do {
                let srctrimmed = (if int (length src) \<ge> left then nat (left - 1) else length src);
                out \<leftarrow> wr_mem (ctx_out ctx) (ctx_dst ctx) (take srctrimmed src);
                out \<leftarrow> wr8 out (ctx_dst ctx + srctrimmed) 0;
                Some (ctx\<lparr>ctx_out := out\<rparr>) }
              else Some ctx);
     Some (ctx\<lparr>ctx_dst := ctx_dst ctx + length src\<rparr>) }"

text \<open>The loop of \<open>%*p\<close>: chunks of at most 31 bytes go through the buffer.\<close>

function hex_chunks :: "printf_ctx \<Rightarrow> mem \<Rightarrow> mem \<Rightarrow> nat \<Rightarrow> (printf_ctx \<times> mem) option" where
  "hex_chunks ctx buf d len =
     (if len > 0 then do {
        let ch = (if len < 31 then len else 31);
        src \<leftarrow> rd_mem d 0 ch;
        buf \<leftarrow> jd_to_hex buf 0 src;
        txt \<leftarrow> rd_mem buf 0 (ch * 2);
        ctx \<leftarrow> write_n ctx txt;
        hex_chunks ctx buf (drop ch d) (len - ch) }
      else Some (ctx, buf))"
  by auto
termination by (relation "measure (\<lambda>(ctx, buf, d, len). len)") auto

declare hex_chunks.simps [simp del]

definition null_text :: mem where
  "null_text = [0x28, 0x6e, 0x75, 0x6c, 0x6c, 0x29, 0]"

text \<open>The \<open>switch\<close> on the conversion character \<open>c\<close>; \<open>fmt\<close> is the format after it.  Returns the
  context, the buffer, the rest of the format and the rest of the arguments.\<close>

definition convert :: "('d \<Rightarrow> mem \<Rightarrow> mem option) \<Rightarrow> byte \<Rightarrow> mem \<Rightarrow> 'd fmt_arg list \<Rightarrow> printf_ctx \<Rightarrow> mem \<Rightarrow>
    (printf_ctx \<times> mem \<times> mem \<times> 'd fmt_arg list) option" where
  "convert print_double c fmt args ctx buf =
     (if c = 0x63 then
        (case args of A_int n # args \<Rightarrow> do { buf \<leftarrow> wr8 buf 0 (of_int n); Some (ctx, buf, fmt, args) } | _ \<Rightarrow> None)
      else if c = 0x64 then
        (case args of A_int n # args \<Rightarrow> do { buf \<leftarrow> jd_itoa n buf 0; Some (ctx, buf, fmt, args) } | _ \<Rightarrow> None)
      else if c = 0x75 then
        (case args of A_uint n # args \<Rightarrow> do { buf \<leftarrow> jd_utoa n buf 0; Some (ctx, buf, fmt, args) } | _ \<Rightarrow> None)
      else if c = 0x78 \<or> c = 0x58 then
        (case args of A_int n # args \<Rightarrow> do {
           buf \<leftarrow> wr8 buf 0 0x30;
           buf \<leftarrow> wr8 buf 1 0x78;
           buf \<leftarrow> writeNum buf 2 (of_int n) False;
           Some (ctx, buf, fmt, args) } | _ \<Rightarrow> None)
      else if c = 0x70 then
        (case args of A_ptr n # args \<Rightarrow> do {
           buf \<leftarrow> wr8 buf 0 0x30;
           buf \<leftarrow> wr8 buf 1 0x78;
           buf \<leftarrow> writeNum buf 2 n False;
           Some (ctx, buf, fmt, args) } | _ \<Rightarrow> None)
      else if c = 0x66 then
        (case args of A_double f # args \<Rightarrow> do { buf \<leftarrow> print_double f buf; Some (ctx, buf, fmt, args) } | _ \<Rightarrow> None)
      else if c = 0x2a then
        (case args of A_int len # A_bytes d # args \<Rightarrow>
           (case fmt of [] \<Rightarrow> None
            | e # fmt \<Rightarrow>
                if e = 0x70 then do {
                  (ctx, buf) \<leftarrow> hex_chunks ctx buf d (nat len);
                  buf \<leftarrow> wr8 buf 0 0;
                  Some (ctx, buf, fmt, args) }
                else do { buf \<leftarrow> wr8 buf 0 0x3f; Some (ctx, buf, fmt, args) }) | _ \<Rightarrow> None)
      else if c = 0x73 then
        (case args of A_str val # args \<Rightarrow> do {
           let val = (case val of None \<Rightarrow> null_text | Some v \<Rightarrow> v);
           txt \<leftarrow> cstr val 0;
           ctx \<leftarrow> write_n ctx txt;
           buf \<leftarrow> wr8 buf 0 0;
           Some (ctx, buf, fmt, args) } | _ \<Rightarrow> None)
      else if c = 0x25 then do { buf \<leftarrow> wr8 buf 0 c; Some (ctx, buf, fmt, args) }
      else do { buf \<leftarrow> wr8 buf 0 0x3f; Some (ctx, buf, fmt, args) })"

lemma convert_rest: "convert pd c fmt args ctx buf = Some (ctx', buf', fmt', args') \<Longrightarrow> length fmt' \<le> length fmt"
  by (auto simp: convert_def bind_Some_iff Let_def split: if_splits list.splits fmt_arg.splits)

text \<open>\<open>vsprintf_loop lit fmt\<close>: \<open>lit\<close> is the text between the C pointers \<open>format\<close> and \<open>end\<close>, and
  \<open>fmt\<close> starts at \<open>end\<close>.\<close>

function vsprintf_loop :: "('d \<Rightarrow> mem \<Rightarrow> mem option) \<Rightarrow> mem \<Rightarrow> mem \<Rightarrow> 'd fmt_arg list \<Rightarrow> printf_ctx \<Rightarrow> mem \<Rightarrow>
    printf_ctx option" where
  "vsprintf_loop pd lit [] args ctx buf = None"
| "vsprintf_loop pd lit (c # fmt) args ctx buf =
     (if c = 0 then write_n ctx lit
      else if c = 0x25 then do {
        ctx \<leftarrow> write_n ctx lit;
        fmt \<leftarrow> (case fmt of a # b # r \<Rightarrow> Some (if a = 0x2d \<and> b = 0x73 then b # r else fmt) | _ \<Rightarrow> Some fmt);
        (case fmt of
           [] \<Rightarrow> None
         | c # fmt' \<Rightarrow> do {
             buf \<leftarrow> wr8 buf 1 0;
             (ctx, buf, fmt'', args) \<leftarrow> convert pd c fmt' args ctx buf;
             txt \<leftarrow> cstr buf 0;
             ctx \<leftarrow> write_n ctx txt;
             vsprintf_loop pd [] fmt'' args ctx buf }) }
      else vsprintf_loop pd (lit @ [c]) fmt args ctx buf)"
  by pat_completeness auto
termination
  by (relation "measure (\<lambda>(pd, lit, fmt, args, ctx, buf). length fmt)")
    (auto dest!: convert_rest split: list.splits if_splits)

declare vsprintf_loop.simps(2) [simp del]

text \<open>\<open>dst\<close> is empty for a null pointer with size 0.  \<open>buf\<close> is the uninitialised stack buffer.
  The results are the buffer, the return value and \<open>*ulen\<close>.\<close>

definition jd_vsprintf_ext :: "('d \<Rightarrow> mem \<Rightarrow> mem option) \<Rightarrow> mem \<Rightarrow> mem \<Rightarrow> mem \<Rightarrow> 'd fmt_arg list \<Rightarrow>
    (mem \<times> nat \<times> nat) option" where
  "jd_vsprintf_ext pd buf dst format ap = do {
     ctx \<leftarrow> vsprintf_loop pd [] format ap \<lparr>ctx_out = dst, ctx_dst = 0, ctx_ulen = 0\<rparr> buf;
     Some (ctx_out ctx, ctx_dst ctx + 1, ctx_ulen ctx + 1) }"

definition jd_vsprintf :: "('d \<Rightarrow> mem \<Rightarrow> mem option) \<Rightarrow> mem \<Rightarrow> mem \<Rightarrow> mem \<Rightarrow> 'd fmt_arg list \<Rightarrow>
    (mem \<times> nat) option" where
  "jd_vsprintf pd buf dst format ap =
     map_option (\<lambda>(out, n, _). (out, n)) (jd_vsprintf_ext pd buf dst format ap)"

definition jd_vsprintf_a :: "('d \<Rightarrow> mem \<Rightarrow> mem option) \<Rightarrow> mem \<Rightarrow> mem \<Rightarrow> mem \<Rightarrow> 'd fmt_arg list \<Rightarrow> mem option" where
  "jd_vsprintf_a pd buf fresh format ap = do {
     (_, len) \<leftarrow> jd_vsprintf pd buf [] format ap;
     (r, _) \<leftarrow> jd_vsprintf pd buf (take len fresh) format ap;
     Some r }"

section \<open>Writing with truncation\<close>

definition trunc_at :: "mem \<Rightarrow> nat \<Rightarrow> mem \<Rightarrow> mem" where
  "trunc_at out p txt =
     (if p < length out then patch out p (take (length out - p - 1) txt @ [0]) else out)"

definition wn :: "printf_ctx \<Rightarrow> mem \<Rightarrow> printf_ctx" where
  "wn ctx src = ctx\<lparr>ctx_ulen := ctx_ulen ctx + utf8_starts src,
     ctx_out := trunc_at (ctx_out ctx) (ctx_dst ctx) src, ctx_dst := ctx_dst ctx + length src\<rparr>"

lemma length_trunc_at [simp]: "length (trunc_at out p txt) = length out"
  by (simp add: trunc_at_def)

lemma write_n_eq: "write_n ctx src = Some (wn ctx src)"
proof (cases "ctx_dst ctx < length (ctx_out ctx)")
  case False
  then show ?thesis by (simp add: write_n_def wn_def trunc_at_def)
next
  case True
  define p out where "p = ctx_dst ctx" and "out = ctx_out ctx"
  define k where "k = (if int (length src) \<ge> int (length out) - int p then nat (int (length out) - int p - 1) else length src)"
  have "k = min (length out - p - 1) (length src)"
  proof -
    have "nat (int (length out) - int p - 1) = length out - p - 1" using True unfolding p_def out_def by linarith
    then show ?thesis using True unfolding k_def p_def out_def by auto
  qed
  then have k: "take k src = take (length out - p - 1) src" "p + k < length out" "length (take k src) = k"
    using True by (auto simp: min_def p_def out_def)
  have "wr8 (patch out p (take k src)) (p + k) 0 = Some (patch out p (take k src @ [0]))"
    using k patch_patch_append [of p "take k src" "[0]" out] by (simp add: wr8_patch del: wr8_Some)
  moreover have "wr_mem out p (take k src) = Some (patch out p (take k src))" using k by simp
  ultimately show ?thesis
    using True k(1) by (simp add: write_n_def wn_def trunc_at_def Let_def p_def [symmetric] out_def [symmetric]
        k_def [symmetric] del: wr8_Some wr_mem_Some)
qed

lemma patch_nul:
  assumes "p + length x + length y < length m"
  shows "patch (patch m p (x @ [0])) (p + length x) (y @ [0]) = patch m p (x @ y @ [0])"
  using assms patch_patch_append [of p x "[0]" m] patch_overwrite [of "[0]" "y @ [0]" "p + length x" "patch m p x"]
    patch_patch_append [of p x "y @ [0]" m] by simp

lemma trunc_at_append: "trunc_at (trunc_at out p a) (p + length a) b = trunc_at out p (a @ b)"
proof (cases "p + length a < length out")
  case True
  then show ?thesis
    using patch_nul [of p a "take (length out - (p + length a) - 1) b" out]
    by (simp add: trunc_at_def diff_diff_left add.commute)
next
  case False
  then show ?thesis by (simp add: trunc_at_def)
qed

lemma utf8_starts_append [simp]: "utf8_starts (a @ b) = utf8_starts a + utf8_starts b"
  by (simp add: utf8_starts_def)

lemma wn_append [simp]: "wn (wn ctx a) b = wn ctx (a @ b)"
  by (simp add: wn_def trunc_at_append)

section \<open>Formatted items\<close>

text \<open>A format string as a list of literal stretches and conversions with their arguments, and
  the text each of them stands for.\<close>

datatype fmt_item =
    I_lit mem
  | I_char int
  | I_dec int
  | I_uns nat
  | I_hex int
  | I_ptr "32 word"
  | I_bytes mem
  | I_str mem
  | I_null
  | I_percent

fun item_ok :: "fmt_item \<Rightarrow> bool" where
  "item_ok (I_lit l) = list_all (\<lambda>b. b \<noteq> 0 \<and> b \<noteq> 0x25) l"
| "item_ok (I_dec n) = (- 2147483648 < n \<and> n < 2147483648)"
| "item_ok (I_uns n) = (n < 4294967296)"
| "item_ok (I_str t) = list_all (\<lambda>b. b \<noteq> 0) t"
| "item_ok _ = True"

fun item_fmt :: "fmt_item \<Rightarrow> mem" where
  "item_fmt (I_lit l) = l"
| "item_fmt (I_char _) = [0x25, 0x63]"
| "item_fmt (I_dec _) = [0x25, 0x64]"
| "item_fmt (I_uns _) = [0x25, 0x75]"
| "item_fmt (I_hex _) = [0x25, 0x78]"
| "item_fmt (I_ptr _) = [0x25, 0x70]"
| "item_fmt (I_bytes _) = [0x25, 0x2a, 0x70]"
| "item_fmt (I_str _) = [0x25, 0x73]"
| "item_fmt I_null = [0x25, 0x73]"
| "item_fmt I_percent = [0x25, 0x25]"

fun item_args :: "fmt_item \<Rightarrow> 'd fmt_arg list" where
  "item_args (I_lit _) = []"
| "item_args (I_char n) = [A_int n]"
| "item_args (I_dec n) = [A_int n]"
| "item_args (I_uns n) = [A_uint n]"
| "item_args (I_hex n) = [A_int n]"
| "item_args (I_ptr n) = [A_ptr n]"
| "item_args (I_bytes d) = [A_int (int (length d)), A_bytes d]"
| "item_args (I_str t) = [A_str (Some (t @ [0]))]"
| "item_args I_null = [A_str None]"
| "item_args I_percent = []"

fun item_text :: "fmt_item \<Rightarrow> mem" where
  "item_text (I_lit l) = l"
| "item_text (I_char n) = (if (of_int n :: byte) = 0 then [] else [of_int n])"
| "item_text (I_dec n) = dec_int n"
| "item_text (I_uns n) = dec_string n"
| "item_text (I_hex n) = [0x30, 0x78] @ hex_ref (unat (of_int n :: 32 word))"
| "item_text (I_ptr n) = [0x30, 0x78] @ hex_ref (unat n)"
| "item_text (I_bytes d) = hex_string d"
| "item_text (I_str t) = t"
| "item_text I_null = butlast null_text"
| "item_text I_percent = [0x25]"

lemma hex_chunks_eq:
  "length buf = 64 \<Longrightarrow> len \<le> length d \<Longrightarrow>
     \<exists>buf'. hex_chunks (wn ctx t) buf d len = Some (wn ctx (t @ hex_string (take len d)), buf') \<and> length buf' = 64"
proof (induction len arbitrary: t buf d rule: less_induct)
  case (less len)
  show ?case
  proof (cases "len > 0")
    case False
    with less.prems show ?thesis by (subst hex_chunks.simps) (simp add: wn_def)
  next
    case True
    define ch where "ch = (if len < 31 then len else 31)"
    let ?b = "patch buf 0 (hex_string (take ch d) @ [0])"
    have ch: "ch \<le> len" "ch \<le> 31" "0 < ch" "ch \<le> length d" using True less.prems by (auto simp: ch_def)
    have h: "jd_to_hex buf 0 (take ch d) = Some ?b" using ch less.prems by (intro jd_to_hex_eq) simp
    have b: "length ?b = 64" "take (ch * 2) ?b = hex_string (take ch d)"
      using ch less.prems by (simp_all add: patch_def)
    have "len - ch < len" "len - ch \<le> length (drop ch d)" using ch less.prems by simp_all
    from less.IH [OF this(1) b(1) this(2), of "t @ hex_string (take ch d)"]
    obtain buf' where "hex_chunks (wn ctx (t @ hex_string (take ch d))) ?b (drop ch d) (len - ch) =
        Some (wn ctx (t @ hex_string (take ch d) @ hex_string (take (len - ch) (drop ch d))), buf')" "length buf' = 64"
      by auto
    moreover have "hex_string (take ch d) @ hex_string (take (len - ch) (drop ch d)) = hex_string (take len d)"
      using ch(1) by (simp add: hex_string_def flip: concat_append map_append take_add)
    ultimately show ?thesis
      using True h b ch(2,4) by (subst hex_chunks.simps) (simp add: Let_def ch_def [symmetric] write_n_eq)
  qed
qed

lemma cstr_short: "length buf = 64 \<Longrightarrow> buf ! 1 = 0 \<Longrightarrow> cstr (buf[0 := b]) 0 = Some (if b = 0 then [] else [b])"
  by (cases buf rule: remdups_adj.cases) (auto simp: cstr_def)

lemma buf_text: "length buf = 64 \<Longrightarrow> length t < 64 \<Longrightarrow> 0 \<notin> set t \<Longrightarrow>
    cstr (patch buf 0 (t @ [0])) 0 = Some t \<and> length (patch buf 0 (t @ [0])) = 64"
  by (simp add: cstr_patch)

lemma hexU_nz: "d < 16 \<Longrightarrow> hexU d \<noteq> 0"
proof -
  assume "d < 16"
  moreover have "list_all (\<lambda>d. hexU d \<noteq> 0) [0..<16]" by code_simp
  ultimately show ?thesis by (simp only: list_all_iff) auto
qed

lemma hex_ref_nz: "0 \<notin> set (hex_ref n)"
proof (induction n rule: less_induct)
  case (less n)
  then show ?case using hexU_nz [of "n mod 16"] by (subst hex_ref.simps) auto
qed

lemma length_hex_ref_32: "length (hex_ref (unat n)) < 9" for n :: "32 word"
proof -
  have "unat n < 16 ^ 8" using unsigned_less [of n] by simp
  then show ?thesis using length_hex_ref [of "unat n" 8] by simp
qed

lemma write_hex:
  assumes "length buf = 64"
  shows "do { b \<leftarrow> wr8 buf 0 0x30; b \<leftarrow> wr8 b 1 0x78; b \<leftarrow> writeNum b 2 n False; Some (ctx, b, fmt, args) } =
    Some (ctx, patch buf 0 (([0x30, 0x78] @ hex_ref (unat n)) @ [0]), fmt, args)"
proof -
  note l = length_hex_ref_32 [of n]
  have "wr8 buf 0 0x30 = Some (patch buf 0 [0x30])" "wr8 (patch buf 0 [0x30]) 1 0x78 = Some (patch buf 0 [0x30, 0x78])"
    using assms patch_patch_append [of 0 "[0x30]" "[0x78]" buf] by (simp_all add: wr8_patch del: wr8_Some)
  moreover have "writeNum (patch buf 0 [0x30, 0x78]) 2 n False =
      Some (patch buf 0 ([0x30, 0x78] @ hex_ref (unat n) @ [0]))"
    using assms l writeNum_eq [of 2 "patch buf 0 [0x30, 0x78]" n]
      patch_patch_append [of 0 "[0x30, 0x78]" "hex_ref (unat n) @ [0]" buf] by (simp add: numeral_2_eq_2)
  ultimately show "do { b \<leftarrow> wr8 buf 0 0x30; b \<leftarrow> wr8 b 1 0x78; b \<leftarrow> writeNum b 2 n False; Some (ctx, b, fmt, args) } =
    Some (ctx, patch buf 0 (([0x30, 0x78] @ hex_ref (unat n)) @ [0]), fmt, args)" by simp
qed

text \<open>A conversion prints \<open>u\<close> itself and leaves \<open>v\<close> in the buffer; together they are the text of
  the item.\<close>

definition conv_ok :: "('d \<Rightarrow> mem \<Rightarrow> mem option) \<Rightarrow> fmt_item \<Rightarrow> bool" where
  "conv_ok pd i \<longleftrightarrow> (\<forall>rest args ctx t buf c fmt. length buf = 64 \<longrightarrow> buf ! 1 = 0 \<longrightarrow> tl (item_fmt i) @ rest = c # fmt \<longrightarrow>
     (\<exists>u v buf'. convert pd c fmt (item_args i @ args) (wn ctx t) buf = Some (wn ctx (t @ u), buf', rest, args) \<and>
        cstr buf' 0 = Some v \<and> u @ v = item_text i \<and> length buf' = 64))"

lemma dec_int_short: "- 2147483648 < n \<Longrightarrow> n < 2147483648 \<Longrightarrow> length (dec_int n) < 63 \<and> 0 \<notin> set (dec_int n)"
proof -
  assume n: "- 2147483648 < n" "n < 2147483648"
  have "nat n < 10 ^ 10" "nat (- n) < 10 ^ 10" using n by simp_all
  then show ?thesis
    using length_dec_rev [of "nat n" 10] length_dec_rev [of "nat (- n)" 10] dec_rev_nz
    by (auto simp: dec_int_def dec_string_def)
qed

lemma conv_ok_text:
  assumes "length t < 63" "0 \<notin> set t" "item_text i = t"
    and "\<And>rest args ctx buf c fmt. length buf = 64 \<Longrightarrow> tl (item_fmt i) @ rest = c # fmt \<Longrightarrow>
      convert pd c fmt (item_args i @ args) ctx buf = Some (ctx, patch buf 0 (t @ [0]), rest, args)"
  shows "conv_ok pd i"
  unfolding conv_ok_def
proof (intro allI impI)
  fix rest args ctx u and buf :: mem and c fmt
  assume "length buf = 64" "buf ! 1 = 0" "tl (item_fmt i) @ rest = c # fmt"
  with assms buf_text [of buf t]
  show "\<exists>u' v buf'. convert pd c fmt (item_args i @ args) (wn ctx u) buf = Some (wn ctx (u @ u'), buf', rest, args) \<and>
    cstr buf' 0 = Some v \<and> u' @ v = item_text i \<and> length buf' = 64"
    by - (rule exI [of _ "[]"], auto)
qed

lemma conv_ok_char:
  assumes "item_text i = (if b = 0 then [] else [b])"
    and "\<And>rest args ctx buf c fmt. length buf = 64 \<Longrightarrow> tl (item_fmt i) @ rest = c # fmt \<Longrightarrow>
      convert pd c fmt (item_args i @ args) ctx buf = Some (ctx, buf[0 := b], rest, args)"
  shows "conv_ok pd i"
  unfolding conv_ok_def
proof (intro allI impI)
  fix rest args ctx u and buf :: mem and c fmt
  assume "length buf = 64" "buf ! 1 = 0" "tl (item_fmt i) @ rest = c # fmt"
  with assms cstr_short [of buf b]
  show "\<exists>u' v buf'. convert pd c fmt (item_args i @ args) (wn ctx u) buf = Some (wn ctx (u @ u'), buf', rest, args) \<and>
    cstr buf' 0 = Some v \<and> u' @ v = item_text i \<and> length buf' = 64"
    by - (rule exI [of _ "[]"], auto)
qed

lemma cstr_empty: "0 < length buf \<Longrightarrow> cstr (buf[0 := 0]) 0 = Some []"
  by (cases buf) (auto simp: cstr_def)

lemma conv_ok_written:
  assumes "\<And>rest args ctx t buf c fmt. length buf = 64 \<Longrightarrow> tl (item_fmt i) @ rest = c # fmt \<Longrightarrow>
      \<exists>buf'. convert pd c fmt (item_args i @ args) (wn ctx t) buf = Some (wn ctx (t @ item_text i), buf'[0 := 0], rest, args) \<and>
        length buf' = 64"
  shows "conv_ok pd i"
  unfolding conv_ok_def
proof (intro allI impI)
  fix rest args ctx t and buf :: mem and c fmt
  assume "length buf = 64" "buf ! 1 = 0" "tl (item_fmt i) @ rest = c # fmt"
  from assms [OF this(1,3)] obtain buf' where
    "convert pd c fmt (item_args i @ args) (wn ctx t) buf = Some (wn ctx (t @ item_text i), buf'[0 := 0], rest, args)"
    "length buf' = 64" by blast
  then show "\<exists>u v buf'. convert pd c fmt (item_args i @ args) (wn ctx t) buf = Some (wn ctx (t @ u), buf', rest, args) \<and>
    cstr buf' 0 = Some v \<and> u @ v = item_text i \<and> length buf' = 64"
    using cstr_empty [of buf'] by (intro exI [of _ "item_text i"] exI [of _ "[]"] exI [of _ "buf'[0 := 0]"]) auto
qed

lemma item_conv_ok:
  assumes "item_ok i" "\<nexists>l. i = I_lit l"
  shows "conv_ok pd i"
proof (cases i)
  case (I_lit l)
  with assms(2) show ?thesis by simp
next
  case (I_char n)
  then show ?thesis by (intro conv_ok_char [where b = "of_int n"]) (auto simp: convert_def)
next
  case (I_dec n)
  with assms(1) dec_int_short [of n] show ?thesis
    by (intro conv_ok_text [where t = "dec_int n"]) (auto simp: convert_def jd_itoa_eq int_ok_def)
next
  case (I_uns n)
  then have "n < 10 ^ 10" using assms(1) by simp
  then have "length (dec_string n) < 63" "0 \<notin> set (dec_string n)"
    using length_dec_rev [of n 10] dec_rev_nz [of n] by (auto simp: dec_string_def)
  with I_uns show ?thesis
    by (intro conv_ok_text [where t = "dec_string n"]) (auto simp: convert_def jd_utoa_eq)
next
  case (I_hex n)
  with write_hex hex_ref_nz length_hex_ref_32 [of "of_int n"] show ?thesis
    by (intro conv_ok_text [where t = "[0x30, 0x78] @ hex_ref (unat (of_int n :: 32 word))"])
      (auto simp: convert_def simp del: wr8_Some)
next
  case (I_ptr n)
  with write_hex hex_ref_nz length_hex_ref_32 [of n] show ?thesis
    by (intro conv_ok_text [where t = "[0x30, 0x78] @ hex_ref (unat n)"])
      (auto simp: convert_def simp del: wr8_Some)
next
  case (I_bytes d)
  show ?thesis
  proof (rule conv_ok_written)
    fix rest args ctx t and buf :: mem and c fmt
    assume b: "length buf = 64" and f: "tl (item_fmt i) @ rest = c # fmt"
    obtain buf' where "hex_chunks (wn ctx t) buf d (length d) = Some (wn ctx (t @ hex_string d), buf')" "length buf' = 64"
      using hex_chunks_eq [OF b, of "length d" d] by auto
    with f I_bytes show "\<exists>buf'. convert pd c fmt (item_args i @ args) (wn ctx t) buf =
        Some (wn ctx (t @ item_text i), buf'[0 := 0], rest, args) \<and> length buf' = 64"
      by (auto simp: convert_def)
  qed
next
  case (I_str t)
  with assms(1) have "cstr (t @ [0]) 0 = Some t" by (intro cstr_app) (auto simp: list_all_iff)
  with I_str show ?thesis
    by (intro conv_ok_written) (auto simp: convert_def write_n_eq)
next
  case I_null
  have "cstr null_text 0 = Some (butlast null_text)" by code_simp
  with I_null show ?thesis
    by (intro conv_ok_written) (auto simp: convert_def write_n_eq)
next
  case I_percent
  then show ?thesis by (intro conv_ok_char [where b = "0x25"]) (auto simp: convert_def)
qed

lemma vsprintf_loop_literal:
  "list_all (\<lambda>b. b \<noteq> 0 \<and> b \<noteq> 0x25) l \<Longrightarrow>
     vsprintf_loop pd lit (l @ fmt) args ctx buf = vsprintf_loop pd (lit @ l) fmt args ctx buf"
proof (induction l arbitrary: lit)
  case (Cons b l)
  then show ?case by (simp add: vsprintf_loop.simps(2))
qed simp

lemma item_fmt_conv: "\<nexists>l. i = I_lit l \<Longrightarrow> \<exists>c f. item_fmt i = 0x25 # c # f \<and> c \<noteq> 0x2d"
  by (cases i) auto

lemma vsprintf_loop_item:
  assumes "item_ok i" "\<nexists>l. i = I_lit l" "length buf = 64"
  shows "\<exists>buf'. length buf' = 64 \<and>
    vsprintf_loop pd lit (item_fmt i @ rest) (item_args i @ args) ctx buf =
      vsprintf_loop pd [] rest args (wn ctx (lit @ item_text i)) buf'"
proof -
  obtain c f where f: "item_fmt i = 0x25 # c # f" "c \<noteq> 0x2d" using item_fmt_conv [OF assms(2)] by blast
  have skip: "(case c # f @ rest of a # b # r \<Rightarrow> Some (if a = 0x2d \<and> b = 0x73 then b # r else c # f @ rest) | _ \<Rightarrow> Some (c # f @ rest)) =
      Some (c # f @ rest)" using f(2) by (simp split: list.splits)
  have "length (buf[1 := 0]) = 64" "buf[1 := 0] ! 1 = 0" "tl (item_fmt i) @ rest = c # f @ rest"
    using assms(3) f(1) by simp_all
  from item_conv_ok [OF assms(1,2), of pd, unfolded conv_ok_def, rule_format, OF this]
  obtain u v buf' where c: "convert pd c (f @ rest) (item_args i @ args) (wn ctx lit) (buf[1 := 0]) =
      Some (wn ctx (lit @ u), buf', rest, args)" "cstr buf' 0 = Some v" "u @ v = item_text i" "length buf' = 64"
    by blast
  have "vsprintf_loop pd lit (item_fmt i @ rest) (item_args i @ args) ctx buf =
      vsprintf_loop pd [] rest args (wn ctx (lit @ item_text i)) buf'"
    using f(1) skip c assms(3) by (simp add: vsprintf_loop.simps(2) write_n_eq)
  with c(4) show ?thesis by blast
qed

definition fmt_of :: "fmt_item list \<Rightarrow> mem" where
  "fmt_of is = concat (map item_fmt is) @ [0]"

definition args_of :: "fmt_item list \<Rightarrow> 'd fmt_arg list" where
  "args_of is = concat (map item_args is)"

definition text_of :: "fmt_item list \<Rightarrow> mem" where
  "text_of is = concat (map item_text is)"

lemma items_Cons:
  "fmt_of (i # is) = item_fmt i @ fmt_of is" "args_of (i # is) = item_args i @ args_of is"
  "text_of (i # is) = item_text i @ text_of is"
  by (simp_all add: fmt_of_def args_of_def text_of_def)

lemma vsprintf_loop_items:
  "list_all item_ok is \<Longrightarrow> length buf = 64 \<Longrightarrow>
     vsprintf_loop pd lit (fmt_of is) (args_of is) ctx buf = Some (wn ctx (lit @ text_of is))"
proof (induction "is" arbitrary: lit ctx buf)
  case Nil
  then show ?case by (simp add: fmt_of_def text_of_def vsprintf_loop.simps(2) write_n_eq)
next
  case (Cons i "is")
  show ?case
  proof (cases "\<exists>l. i = I_lit l")
    case True
    then obtain l where "i = I_lit l" by blast
    then show ?thesis
      using Cons vsprintf_loop_literal [of l pd lit "fmt_of is" "args_of is" ctx buf] by (simp add: items_Cons)
  next
    case False
    with Cons.prems vsprintf_loop_item [of i buf pd lit "fmt_of is" "args_of is" ctx]
    obtain buf' where "length buf' = 64" "vsprintf_loop pd lit (fmt_of (i # is)) (args_of (i # is)) ctx buf =
        vsprintf_loop pd [] (fmt_of is) (args_of is) (wn ctx (lit @ item_text i)) buf'"
      by (auto simp: items_Cons)
    with Cons.IH [of buf' "[]"] Cons.prems show ?thesis by (simp add: items_Cons)
  qed
qed

section \<open>Properties\<close>

text \<open>Formatted printing.  For every format of literals and conversions with matching
  arguments, \<open>jd_vsprintf_ext\<close> returns the length of the full text plus one and leaves in the
  buffer that text cut to the buffer's size and terminated: nothing is written beyond the size
  given, and a size of zero writes nothing.\<close>

theorem jd_vsprintf_spec:
  assumes "list_all item_ok is" "length buf = 64"
  shows "jd_vsprintf_ext pd buf dst (fmt_of is) (args_of is) =
    Some (if dst = [] then [] else take (length dst - 1) (text_of is) @ 0 # drop (length (text_of is) + 1) dst,
      length (text_of is) + 1, utf8_starts (text_of is) + 1)"
  using vsprintf_loop_items [OF assms, of pd "[]"]
  by (auto simp: jd_vsprintf_ext_def wn_def trunc_at_def patch_def min_def)

theorem jd_vsprintf_spec_witness:
  "jd_vsprintf_ext (\<lambda>(_ :: unit) b. Some b) (replicate 64 0) (replicate 3 1) (fmt_of [I_lit [0x78], I_dec (- 42)])
      (args_of [I_lit [0x78], I_dec (- 42)]) =
    Some (if replicate 3 (1 :: byte) = [] then [] else take (length (replicate 3 (1 :: byte)) - 1)
        (text_of [I_lit [0x78], I_dec (- 42)]) @ 0 # drop (length (text_of [I_lit [0x78], I_dec (- 42)]) + 1) (replicate 3 1),
      length (text_of [I_lit [0x78], I_dec (- 42)]) + 1, utf8_starts (text_of [I_lit [0x78], I_dec (- 42)]) + 1)"
  by (rule jd_vsprintf_spec) simp_all

text \<open>\<open>jd_vsprintf_a\<close> measures the text with a null buffer first and then prints it: the
  string it allocates holds the whole text and its terminator, no more and no less.\<close>

theorem jd_vsprintf_a_exact:
  assumes "list_all item_ok is" "length buf = 64" "length (text_of is) < length fresh"
  shows "jd_vsprintf_a pd buf fresh (fmt_of is) (args_of is) = Some (text_of is @ [0])"
  using vsprintf_loop_items [OF assms(1,2), of pd "[]"] assms(3)
  by (auto simp: jd_vsprintf_a_def jd_vsprintf_def jd_vsprintf_ext_def wn_def trunc_at_def patch_def)

theorem jd_vsprintf_a_exact_witness:
  "jd_vsprintf_a (\<lambda>(_ :: unit) b. Some b) (replicate 64 0) (replicate 30 1) (fmt_of [I_str [0x61], I_hex 255])
      (args_of [I_str [0x61], I_hex 255]) = Some (text_of [I_str [0x61], I_hex 255] @ [0])"
proof (rule jd_vsprintf_a_exact)
  show "length (text_of [I_str [0x61], I_hex 255]) < length (replicate 30 (1 :: byte))" by code_simp
qed simp_all

text \<open>A format that ends with a percent sign makes the loop read past the terminator.\<close>

lemma trailing_percent_overread:
  "jd_vsprintf_ext (\<lambda>(_ :: unit) b. Some b) (replicate 64 0) [] [0x25, 0] [] = None"
  by code_simp

end
