(* ===== verification/Jd_Dmesg.thy ===== *)
theory Jd_Dmesg
  imports Jd_Printf
begin

text \<open>
  The log ring of source/jd\_dmesg.c.  The buffer has \<open>JD_DMESG_BUFFER_SIZE\<close> bytes, at least 256;
  its size is the length of \<open>log_buffer\<close>.  Readers keep their own position.
\<close>

record CodalLogStore =
  log_ptr :: nat
  log_buffer :: mem

definition log_inv :: "CodalLogStore \<Rightarrow> bool" where
  "log_inv s \<longleftrightarrow> 256 \<le> length (log_buffer s) \<and> length (log_buffer s) < 4294967296 \<and>
     log_ptr s < length (log_buffer s)"

definition jd_dmesg_write :: "mem \<Rightarrow> CodalLogStore \<Rightarrow> CodalLogStore option" where
  "jd_dmesg_write msg s = do {
     let sz = length (log_buffer s);
     let space = sz - log_ptr s;
     (s, msg) \<leftarrow> (if space < length msg + 1 then do {
        b \<leftarrow> wr_mem (log_buffer s) (log_ptr s) (take space msg);
        let msg = drop space msg;
        let msg = (if length msg + 2 > sz then take 1 msg else msg);
        Some (s\<lparr>log_buffer := b, log_ptr := 0\<rparr>, msg) }
      else Some (s, msg));
     b \<leftarrow> wr_mem (log_buffer s) (log_ptr s) msg;
     let p = log_ptr s + length msg;
     b \<leftarrow> wr8 b p 0;
     Some (s\<lparr>log_buffer := b, log_ptr := p\<rparr>) }"

text \<open>Trailing line ends are dropped before the final newline is added.\<close>

fun trim_eol :: "mem \<Rightarrow> nat \<Rightarrow> nat" where
  "trim_eol tmp 0 = 0"
| "trim_eol tmp (Suc n) = (if tmp ! n = 0x0d \<or> tmp ! n = 0x0a then trim_eol tmp n else Suc n)"

definition jd_vdmesg :: "('d \<Rightarrow> mem \<Rightarrow> mem option) \<Rightarrow> mem \<Rightarrow> mem \<Rightarrow> mem \<Rightarrow> 'd fmt_arg list \<Rightarrow>
    CodalLogStore \<Rightarrow> CodalLogStore option" where
  "jd_vdmesg pd buf tmp format ap s = do {
     (out, _) \<leftarrow> jd_vsprintf pd buf (butlast tmp) format ap;
     let tmp = out @ [last tmp];
     len \<leftarrow> strlen tmp 0;
     let len = trim_eol tmp len;
     tmp \<leftarrow> wr8 tmp len 0x0a;
     msg \<leftarrow> rd_mem tmp 0 (len + 1);
     jd_dmesg_write msg s }"

definition jd_dmesg_startptr :: "CodalLogStore \<Rightarrow> nat option" where
  "jd_dmesg_startptr s = do {
     let curr_ptr = log_ptr s + 1;
     if curr_ptr \<ge> length (log_buffer s) then Some 0
     else do {
       b \<leftarrow> rd8 (log_buffer s) curr_ptr;
       Some (if b = 0 then 0 else curr_ptr) } }"

definition jd_dmesg_currptr :: "CodalLogStore \<Rightarrow> nat" where
  "jd_dmesg_currptr s = log_ptr s"

text \<open>Returns the bytes read and the new position.\<close>

definition jd_dmesg_read :: "nat \<Rightarrow> nat \<Rightarrow> CodalLogStore \<Rightarrow> (mem \<times> nat) option" where
  "jd_dmesg_read space state s = do {
     let state = (if state \<ge> length (log_buffer s) then 0 else state);
     let curr_ptr = (if log_ptr s < state then length (log_buffer s) else log_ptr s);
     let towrite = curr_ptr - state;
     if towrite > 0 then do {
       let towrite = (if towrite > space then space else towrite);
       d \<leftarrow> rd_mem (log_buffer s) state towrite;
       Some (d, state + towrite) }
     else Some ([], state) }"

text \<open>\<open>read_line_loop s n sp dp\<close>: \<open>n\<close> is \<open>endp - dp\<close>.\<close>

fun read_line_loop :: "CodalLogStore \<Rightarrow> nat \<Rightarrow> nat \<Rightarrow> mem \<Rightarrow> (mem \<times> nat) option" where
  "read_line_loop s 0 sp dp = Some (dp, sp)"
| "read_line_loop s (Suc n) sp dp = do {
     c \<leftarrow> rd8 (log_buffer s) sp;
     let sp = sp + 1;
     if c = 0 \<or> c = 0x0a then Some (dp, sp)
     else do {
       let dp = dp @ [c];
       let sp = (if sp = length (log_buffer s) then 0 else sp);
       if sp = log_ptr s then Some (dp, sp) else read_line_loop s n sp dp } }"

definition jd_dmesg_read_line :: "nat \<Rightarrow> nat \<Rightarrow> CodalLogStore \<Rightarrow> (mem \<times> nat) option" where
  "jd_dmesg_read_line space state s = do {
     let state = (if state \<ge> length (log_buffer s) then 0 else state);
     if state \<noteq> log_ptr s then do {
       jd_assert (space > 0);
       read_line_loop s (space - 1) state [] }
     else Some ([], state) }"

section \<open>Writing keeps the invariant and the bytes\<close>

lemma jd_dmesg_write_flat:
  assumes "log_inv s" "log_ptr s + length msg < length (log_buffer s)"
  shows "jd_dmesg_write msg s = Some (s\<lparr>log_buffer := patch (log_buffer s) (log_ptr s) (msg @ [0]),
    log_ptr := log_ptr s + length msg\<rparr>)"
proof -
  have "wr8 (patch (log_buffer s) (log_ptr s) msg) (log_ptr s + length msg) 0 =
      Some (patch (log_buffer s) (log_ptr s) (msg @ [0]))"
    using assms(2) patch_patch_append [of "log_ptr s" msg "[0]" "log_buffer s"]
    by (simp add: wr8_patch del: wr8_Some)
  moreover have "\<not> length (log_buffer s) - log_ptr s < length msg + 1" using assms(2) by linarith
  ultimately show ?thesis using assms by (simp add: jd_dmesg_write_def Let_def del: wr8_Some)
qed

lemma jd_dmesg_write_wrap:
  assumes "log_inv s" "length (log_buffer s) \<le> log_ptr s + length msg"
    and "length msg + 2 \<le> length (log_buffer s)"
  defines "k \<equiv> length (log_buffer s) - log_ptr s"
  shows "jd_dmesg_write msg s = Some (s\<lparr>log_buffer := patch (patch (log_buffer s) (log_ptr s) (take k msg)) 0 (drop k msg @ [0]),
    log_ptr := length msg - k\<rparr>)"
proof -
  let ?b = "patch (log_buffer s) (log_ptr s) (take k msg)"
  have k: "k \<le> length msg" "0 < k" "log_ptr s + k = length (log_buffer s)"
    using assms by (auto simp: k_def log_inv_def)
  have lb: "length ?b = length (log_buffer s)" using k by simp
  have "wr_mem (log_buffer s) (log_ptr s) (take k msg) = Some ?b" using k by simp
  moreover have "wr_mem ?b 0 (drop k msg) = Some (patch ?b 0 (drop k msg))" using assms(3) lb by simp
  moreover have "wr8 (patch ?b 0 (drop k msg)) (length msg - k) 0 = Some (patch ?b 0 (drop k msg @ [0]))"
    using assms(3) k lb patch_patch_append [of 0 "drop k msg" "[0]" ?b] by (simp add: wr8_patch del: wr8_Some)
  moreover have "\<not> length (drop k msg) + 2 > length (log_buffer s)" using assms(3) by simp
  ultimately show ?thesis
    using k by (simp add: jd_dmesg_write_def Let_def k_def [symmetric] del: wr8_Some wr_mem_Some)
qed

text \<open>Every message is written within the buffer, whatever its length.\<close>

lemma jd_dmesg_write_inv:
  assumes "log_inv s"
  shows "\<exists>t. jd_dmesg_write msg s = Some t \<and> log_inv t \<and> length (log_buffer t) = length (log_buffer s) \<and>
    log_buffer t ! log_ptr t = 0"
proof (cases "log_ptr s + length msg < length (log_buffer s)")
  case True
  then show ?thesis
    using jd_dmesg_write_flat [OF assms True] assms by (auto simp: log_inv_def patch_nth nth_append)
next
  case False
  define k where "k = length (log_buffer s) - log_ptr s"
  let ?b = "patch (log_buffer s) (log_ptr s) (take k msg)"
  define m where "m = (if length (drop k msg) + 2 > length (log_buffer s) then take 1 (drop k msg) else drop k msg)"
  have k: "k \<le> length msg" "0 < k" "log_ptr s + k = length (log_buffer s)"
    using assms False by (auto simp: k_def log_inv_def)
  have m: "length m + 2 \<le> length (log_buffer s)" using assms by (auto simp: m_def log_inv_def)
  have "wr8 (patch ?b 0 m) (length m) 0 = Some (patch ?b 0 (m @ [0]))"
    using m k patch_patch_append [of 0 m "[0]" ?b] by (simp add: wr8_patch del: wr8_Some)
  moreover have "jd_dmesg_write msg s = do { b \<leftarrow> wr_mem ?b 0 m; b \<leftarrow> wr8 b (length m) 0;
      Some (s\<lparr>log_buffer := b, log_ptr := length m\<rparr>) }"
    using False k by (cases "length (drop k msg) + 2 > length (log_buffer s)")
      (simp_all add: jd_dmesg_write_def Let_def k_def [symmetric] m_def del: wr8_Some)
  ultimately have "jd_dmesg_write msg s = Some (s\<lparr>log_buffer := patch ?b 0 (m @ [0]), log_ptr := length m\<rparr>)"
    using m k by (simp del: wr8_Some)
  then show ?thesis using m k assms by (auto simp: log_inv_def patch_nth nth_append)
qed

section \<open>Properties\<close>

text \<open>A reader that has seen everything gets every new message complete.  After one write of at
  most the buffer's size less two bytes, two reads from the previous position (the second one
  continues after the wrap-around) return exactly the message, and a third one returns nothing.\<close>

theorem dmesg_write_read:
  assumes "log_inv s" "length msg + 2 \<le> length (log_buffer s)" "length msg \<le> space"
  shows "\<exists>t d1 p1 d2 p2. jd_dmesg_write msg s = Some t \<and> log_inv t \<and>
    jd_dmesg_read space (log_ptr s) t = Some (d1, p1) \<and> jd_dmesg_read space p1 t = Some (d2, p2) \<and>
    d1 @ d2 = msg \<and> jd_dmesg_read space p2 t = Some ([], log_ptr t)"
proof -
  obtain t where t: "jd_dmesg_write msg s = Some t" "log_inv t" "length (log_buffer t) = length (log_buffer s)"
    using jd_dmesg_write_inv [OF assms(1)] by blast
  have "\<exists>d1 p1 d2 p2. jd_dmesg_read space (log_ptr s) t = Some (d1, p1) \<and> jd_dmesg_read space p1 t = Some (d2, p2) \<and>
    d1 @ d2 = msg \<and> jd_dmesg_read space p2 t = Some ([], log_ptr t)"
  proof (cases "log_ptr s + length msg < length (log_buffer s)")
    case True
    have b: "log_buffer t = patch (log_buffer s) (log_ptr s) (msg @ [0])" "log_ptr t = log_ptr s + length msg"
      using t(1) jd_dmesg_write_flat [OF assms(1) True] by auto
    have "take (length msg) (drop (log_ptr s) (log_buffer t)) = msg" using True b by (simp add: patch_def)
    then show ?thesis using True b t(3) assms(3) by (auto simp: jd_dmesg_read_def Let_def)
  next
    case False
    define k where "k = length (log_buffer s) - log_ptr s"
    have k: "k \<le> length msg" "0 < k" "log_ptr s + k = length (log_buffer s)"
      using assms(1) False by (auto simp: k_def log_inv_def)
    have b: "log_buffer t = patch (patch (log_buffer s) (log_ptr s) (take k msg)) 0 (drop k msg @ [0])"
      "log_ptr t = length msg - k"
      using t(1) jd_dmesg_write_wrap [OF assms(1) _ assms(2)] False by (auto simp: k_def)
    have lt: "length msg - k < log_ptr s" using k assms(2) by simp
    have r1: "take k (drop (log_ptr s) (log_buffer t)) = take k msg"
      using b k lt take_drop_patch_disjoint [of 0 "drop k msg @ [0]" "patch (log_buffer s) (log_ptr s) (take k msg)" "log_ptr s" k]
        take_drop_patch_same [of "log_ptr s" "take k msg" "log_buffer s"] by simp
    have r2: "take (length msg - k) (log_buffer t) = drop k msg"
      using b k lt by (simp add: patch_def)
    have "jd_dmesg_read space (log_ptr s) t = Some (take k msg, length (log_buffer t))"
      using r1 b lt k t(3) assms(3) by (simp add: jd_dmesg_read_def Let_def k_def [symmetric])
    moreover have "jd_dmesg_read space (length (log_buffer t)) t = Some (drop k msg, log_ptr t)"
      using r2 b k t(3) assms(2,3) by (auto simp: jd_dmesg_read_def Let_def)
    moreover have "jd_dmesg_read space (log_ptr t) t = Some ([], log_ptr t)"
      using t(2) by (simp add: jd_dmesg_read_def log_inv_def Let_def)
    ultimately show ?thesis by (metis append_take_drop_id)
  qed
  with t show ?thesis by blast
qed

theorem dmesg_write_read_witness:
  "\<exists>t d1 p1 d2 p2. jd_dmesg_write [1, 2, 3] \<lparr>log_ptr = 255, log_buffer = replicate 256 0\<rparr> = Some t \<and> log_inv t \<and>
    jd_dmesg_read 9 (log_ptr \<lparr>log_ptr = 255, log_buffer = replicate 256 0\<rparr>) t = Some (d1, p1) \<and>
    jd_dmesg_read 9 p1 t = Some (d2, p2) \<and>
    d1 @ d2 = [1, 2, 3] \<and> jd_dmesg_read 9 p2 t = Some ([], log_ptr t)"
  by (rule dmesg_write_read) (simp_all add: log_inv_def)

end
