(* ===== verification/Jd_Usb.thy ===== *)
theory Jd_Usb
  imports Jd_Bus Jd_Dmesg
begin

text \<open>
  The USB bridge, source/jd\_usb.c: frames leave and arrive over a byte stream in which
  \<open>MAGIC\<close> introduces a quoted byte.  The byte values, the service class and the command codes come
  from jacdac/dist/c/usbbridge.h, which is not part of the repository; they are the record
  \<open>usb_consts\<close>, and \<open>usb_consts_ok\<close> is what the \<open>switch\<close> statements and the protocol need of
  them.  The weak hooks \<open>jd_net_disable_fwd\<close>, \<open>jd_usb_process\<close> and \<open>jd_usb_serial_cb\<close> do
  nothing; \<open>jd_usb_looks_connected()\<close> is an argument.
\<close>

record usb_consts =
  QB_MAGIC :: byte
  QB_LITERAL_MAGIC :: byte
  QB_RESERVED :: byte
  QB_SERIAL_GAP :: byte
  QB_FRAME_GAP :: byte
  QB_FRAME_START :: byte
  QB_FRAME_END :: byte
  CLASS_USB_BRIDGE :: "32 word"
  CMD_ENABLE_PACKETS :: nat
  CMD_DISABLE_PACKETS :: nat
  CMD_ENABLE_LOG :: nat
  CMD_DISABLE_LOG :: nat

definition usb_consts_ok :: "usb_consts \<Rightarrow> bool" where
  "usb_consts_ok c \<longleftrightarrow> distinct [QB_MAGIC c, QB_LITERAL_MAGIC c, QB_RESERVED c, QB_SERIAL_GAP c,
     QB_FRAME_GAP c, QB_FRAME_START c, QB_FRAME_END c] \<and> QB_FRAME_START c \<noteq> 0 \<and>
     distinct [CMD_ENABLE_PACKETS c, CMD_DISABLE_PACKETS c, CMD_ENABLE_LOG c, CMD_DISABLE_LOG c] \<and>
     list_all (\<lambda>n. n < 65536) [CMD_ENABLE_PACKETS c, CMD_DISABLE_PACKETS c, CMD_ENABLE_LOG c, CMD_DISABLE_LOG c]"

record usb = bus +
  usb_serial_en :: bool
  usb_frame_ptr :: nat
  usb_panic_mode :: nat
  serial_buf_ptr :: nat
  serial_buf_len :: nat
  serial_buf :: mem
  usb_rx_ptr :: nat
  usb_rx_state :: byte
  usb_rx_was_magic :: bool
  usb_rx_buf :: jd_frame
  usb_is_connected :: bool
  dmesg_timer :: "32 word"
  dmesg_ptr :: nat
  proto_dmesg_ptr :: nat
  log_store :: CodalLogStore

section \<open>From the queue to the host\<close>

text \<open>\<open>dst[dp++] = \<dots>\<close> into the 64-byte packet.\<close>

definition usb_put :: "mem \<Rightarrow> mem \<Rightarrow> mem option" where
  "usb_put dst bs = (if length dst + length bs \<le> 64 then Some (dst @ bs) else None)"

definition SPACE :: "mem \<Rightarrow> nat" where
  "SPACE dst = 64 - length dst"

lemma usb_put_Some: "usb_put dst bs = Some d \<longleftrightarrow> d = dst @ bs \<and> length dst + length bs \<le> 64"
  by (auto simp: usb_put_def)

text \<open>The inner \<open>while\<close> loop over the bytes of the frame at \<open>off\<close>.  The last result tells that
  the function returns from inside the loop.\<close>

function usb_copy :: "usb_consts \<Rightarrow> mem \<Rightarrow> nat \<Rightarrow> nat \<Rightarrow> nat \<Rightarrow> mem \<Rightarrow> (nat \<times> mem \<times> bool) option" where
  "usb_copy c m off frame_size ptr dst =
     (if ptr < frame_size then do {
        b \<leftarrow> rd8 m (off + ptr);
        if b = QB_MAGIC c then
          (if SPACE dst < 2 then Some (ptr, dst, False)
           else do {
             dst' \<leftarrow> usb_put dst [QB_MAGIC c, QB_LITERAL_MAGIC c];
             usb_copy c m off frame_size (u8 (ptr + 1)) dst' })
        else
          (if SPACE dst < 1 then Some (ptr, dst, True)
           else do {
             dst' \<leftarrow> usb_put dst [b];
             usb_copy c m off frame_size (u8 (ptr + 1)) dst' }) }
      else Some (ptr, dst, False))"
  by auto
termination
  by (relation "measure (\<lambda>(c, m, off, fs, ptr, dst). 64 - length dst)") (auto simp: usb_put_Some)

declare usb_copy.simps [simp del]

text \<open>One round of the loop.\<close>

lemma usb_copy_stop:
  "\<not> ptr < fs \<Longrightarrow> usb_copy c m off fs ptr dst = Some (ptr, dst, False)"
  "ptr < fs \<Longrightarrow> rd8 m (off + ptr) = None \<Longrightarrow> usb_copy c m off fs ptr dst = None"
  "ptr < fs \<Longrightarrow> rd8 m (off + ptr) = Some b \<Longrightarrow> b = QB_MAGIC c \<Longrightarrow> SPACE dst < 2 \<Longrightarrow>
     usb_copy c m off fs ptr dst = Some (ptr, dst, False)"
  "ptr < fs \<Longrightarrow> rd8 m (off + ptr) = Some b \<Longrightarrow> b \<noteq> QB_MAGIC c \<Longrightarrow> SPACE dst < 1 \<Longrightarrow>
     usb_copy c m off fs ptr dst = Some (ptr, dst, True)"
  by (subst usb_copy.simps, simp)+

definition esc :: "usb_consts \<Rightarrow> byte \<Rightarrow> mem" where
  "esc c b = (if b = QB_MAGIC c then [QB_MAGIC c, QB_LITERAL_MAGIC c] else [b])"

lemma usb_copy_step:
  assumes "ptr < fs" "rd8 m (off + ptr) = Some b" "length (esc c b) \<le> SPACE dst"
  shows "usb_copy c m off fs ptr dst = usb_copy c m off fs (u8 (ptr + 1)) (dst @ esc c b)"
  using assms by (subst usb_copy.simps) (auto simp: esc_def SPACE_def usb_put_def split: if_splits)

lemma usb_copy_len: "usb_copy c m off fs ptr dst = Some (p, d, r) \<Longrightarrow> length dst \<le> length d"
proof (induction "64 - length dst" arbitrary: ptr dst rule: less_induct)
  case less
  consider "\<not> ptr < fs" | "ptr < fs" "rd8 m (off + ptr) = None"
    | b where "ptr < fs" "rd8 m (off + ptr) = Some b" "SPACE dst < length (esc c b)"
    | b where "ptr < fs" "rd8 m (off + ptr) = Some b" "length (esc c b) \<le> SPACE dst"
    using not_less by blast
  then show ?case
  proof cases
    case (3 b)
    then show ?thesis using less.prems usb_copy_stop(3,4) [of ptr fs m off b c dst]
      by (auto simp: esc_def split: if_splits)
  next
    case (4 b)
    then have "64 - length (dst @ esc c b) < 64 - length dst" by (auto simp: esc_def SPACE_def split: if_splits)
    from less.hyps [OF this] less.prems usb_copy_step [OF 4] show ?thesis by fastforce
  qed (use less.prems usb_copy_stop(1,2) in auto)
qed

definition usb_gap :: "usb_consts \<Rightarrow> 'a usb_scheme \<Rightarrow> mem \<Rightarrow> ('a usb_scheme \<times> mem) option" where
  "usb_gap c s dst =
     (if usb_frame_gap s = 1 \<and> usb_frame_ptr s = 0 \<and> SPACE dst \<ge> 2 then do {
        dst \<leftarrow> usb_put dst [QB_MAGIC c, QB_FRAME_GAP c];
        Some (s\<lparr>usb_frame_gap := 2\<rparr>, dst) }
      else Some (s, dst))"

text \<open>The outer \<open>for (;;)\<close> loop.\<close>

function usb_pull_loop :: "usb_consts \<Rightarrow> 'a usb_scheme \<Rightarrow> mem \<Rightarrow> ('a usb_scheme \<times> mem \<times> bool) option" where
  "usb_pull_loop c s dst = do {
     (s, dst) \<leftarrow> usb_gap c s dst;
     q \<leftarrow> usb_queue s;
     (case jd_queue_front q of
        None \<Rightarrow> Some (s, dst, False)
      | Some f \<Rightarrow> do {
          sz \<leftarrow> rd8 (q_data q) (f + 2);
          let frame_size = unat sz + 12;
          if usb_frame_ptr s = 0 \<and> SPACE dst < 4 then Some (s, dst, False)
          else do {
            dst \<leftarrow> (if usb_frame_ptr s = 0 then usb_put dst [QB_MAGIC c, QB_FRAME_START c] else Some dst);
            (ptr, dst, ret) \<leftarrow> usb_copy c (q_data q) f frame_size (usb_frame_ptr s) dst;
            let s = s\<lparr>usb_frame_ptr := ptr\<rparr>;
            if ret then Some (s, dst, True)
            else if SPACE dst < 2 then Some (s, dst, False)
            else do {
              dst \<leftarrow> usb_put dst [QB_MAGIC c, QB_FRAME_END c];
              q \<leftarrow> jd_queue_shift q;
              usb_pull_loop c (s\<lparr>usb_frame_ptr := 0, usb_queue := Some q\<rparr>) dst } } }) }"
  by auto
termination
  by (relation "measure (\<lambda>(c, s, dst). 64 - length dst)")
    (auto simp: usb_put_Some usb_gap_def bind_Some_iff dest!: usb_copy_len split: if_splits)

declare usb_pull_loop.simps [simp del]

text \<open>The log, when no frame is left to send.\<close>

function usb_log_loop :: "usb_consts \<Rightarrow> 'a usb_scheme \<Rightarrow> mem \<Rightarrow> ('a usb_scheme \<times> mem) option" where
  "usb_log_loop c s dst =
     (if SPACE dst \<ge> 2 then do {
        s \<leftarrow> (if serial_buf_ptr s \<ge> serial_buf_len s then do {
                (d, p) \<leftarrow> jd_dmesg_read (length (serial_buf s)) (dmesg_ptr s) (log_store s);
                b \<leftarrow> wr_mem (serial_buf s) 0 d;
                Some (s\<lparr>serial_buf := b, serial_buf_len := u8 (length d), dmesg_ptr := p, serial_buf_ptr := 0\<rparr>) }
              else Some s);
        if serial_buf_ptr s \<ge> serial_buf_len s then Some (s, dst)
        else do {
          b \<leftarrow> rd8 (serial_buf s) (serial_buf_ptr s);
          let s = s\<lparr>serial_buf_ptr := u8 (serial_buf_ptr s + 1)\<rparr>;
          dst \<leftarrow> usb_put dst (if b = QB_MAGIC c then [QB_MAGIC c, QB_LITERAL_MAGIC c] else [b]);
          usb_log_loop c s dst } }
      else Some (s, dst))"
  by auto
termination
  by (relation "measure (\<lambda>(c, s, dst). 64 - length dst)") (auto simp: usb_put_Some SPACE_def split: if_splits)

declare usb_log_loop.simps [simp del]

definition jd_usb_pull :: "usb_consts \<Rightarrow> 'a usb_scheme \<Rightarrow> ('a usb_scheme \<times> mem) option" where
  "jd_usb_pull c s =
     (if usb_panic_mode s \<noteq> 0 then
        (if usb_panic_mode s > 1 then Some (s, [])
         else do {
           d \<leftarrow> rd_mem (serial_buf s) 0 (serial_buf_ptr s);
           dst \<leftarrow> usb_put [] d;
           Some (s\<lparr>serial_buf_ptr := 0\<rparr>, dst) })
      else if usb_queue s = None then Some (s, [])
      else do {
        (s, dst, ret) \<leftarrow> usb_pull_loop c s [];
        if \<not> ret \<and> dmesg_timer s = 1 \<and> usb_panic_mode s = 0 then usb_log_loop c s dst
        else Some (s, dst) })"

section \<open>From the host to the bus\<close>

definition jd_usb_init :: "nat \<Rightarrow> 'a usb_scheme \<Rightarrow> 'a usb_scheme" where
  "jd_usb_init usb_queue_size s =
     (if usb_queue s = None then s\<lparr>usb_queue := Some (jd_queue_alloc usb_queue_size), usb_frame_ptr := 0\<rparr> else s)"

definition jd_usb_is_pending :: "'a usb_scheme \<Rightarrow> bool" where
  "jd_usb_is_pending s \<longleftrightarrow>
     (case usb_queue s of None \<Rightarrow> False
      | Some q \<Rightarrow> jd_queue_front q \<noteq> None \<or> serial_buf_ptr s < serial_buf_len s)"

definition jd_usb_respond_to_processing_packet ::
  "usb_consts \<Rightarrow> nat \<Rightarrow> 'a usb_scheme \<Rightarrow> ('a usb_scheme \<times> int) option" where
  "jd_usb_respond_to_processing_packet c service_command s = do {
     let pkt = \<lparr>frm_crc = 0, frm_size = 0, frm_flags = 0, frm_device_identifier = 0, frm_data = replicate 4 0\<rparr>;
     pkt \<leftarrow> jd_pkt_set_broadcast pkt (CLASS_USB_BRIDGE c);
     let pkt = pkt\<lparr>frm_size := 4\<rparr>;
     d \<leftarrow> wr_mem (frm_data pkt) 2 (le_bytes 2 (of_nat service_command :: 16 word));
     frame \<leftarrow> jd_compute_crc (pkt\<lparr>frm_data := d\<rparr>);
     q \<leftarrow> usb_queue s;
     (q, r) \<leftarrow> jd_queue_push q frame;
     Some (s\<lparr>usb_queue := Some q\<rparr>, r) }"

definition jd_usb_handle_processing_packet ::
  "usb_consts \<Rightarrow> nat \<Rightarrow> jd_frame \<Rightarrow> 'a usb_scheme \<Rightarrow> 'a usb_scheme option" where
  "jd_usb_handle_processing_packet c usb_queue_size pkt s =
     (let s = jd_usb_init usb_queue_size s; cmd = pkt_service_command pkt in
      if cmd = CMD_ENABLE_PACKETS c \<or> cmd = CMD_DISABLE_PACKETS c then
        map_option fst (jd_usb_respond_to_processing_packet c cmd (s\<lparr>usb_fwd_en := odd cmd\<rparr>))
      else if cmd = CMD_ENABLE_LOG c \<or> cmd = CMD_DISABLE_LOG c then
        map_option fst (jd_usb_respond_to_processing_packet c cmd (s\<lparr>usb_serial_en := odd cmd\<rparr>))
      else map_option fst (jd_usb_respond_to_processing_packet c 0xff s))"

definition jd_usb_handle_frame :: "usb_consts \<Rightarrow> nat \<Rightarrow> 'a usb_scheme \<Rightarrow> 'a usb_scheme option" where
  "jd_usb_handle_frame c usb_queue_size s = do {
     let frame = usb_rx_buf s;
     let txSize = usb_rx_ptr s;
     let declaredSize = JD_FRAME_SIZE frame;
     if txSize < declaredSize then Some s
     else do {
       d \<leftarrow> rd_mem (frame_bytes frame) 2 (declaredSize - 2);
       if jd_crc16 d \<noteq> frm_crc frame then Some s
       else if flag_set frame JD_FRAME_FLAG_BROADCAST \<and> flag_set frame JD_FRAME_FLAG_COMMAND \<and>
            frm_device_identifier frame AND 0xffffffff = ucast (CLASS_USB_BRIDGE c) then
         jd_usb_handle_processing_packet c usb_queue_size frame s
       else do {
         (s, frame, _) \<leftarrow> jd_send_frame_raw frame s;
         Some (s\<lparr>usb_rx_buf := frame\<rparr>) } } }"

definition frame_error :: "'a usb_scheme \<Rightarrow> 'a usb_scheme" where
  "frame_error s = s\<lparr>usb_rx_state := 0, usb_rx_ptr := 0\<rparr>"

text \<open>The end of the loop body: the byte is frame data or serial output.\<close>

definition usb_accept :: "byte \<Rightarrow> 'a usb_scheme \<Rightarrow> 'a usb_scheme option" where
  "usb_accept b s =
     (if usb_rx_state s \<noteq> 0 then
        (if usb_rx_ptr s \<ge> 252 then Some (frame_error s)
         else do {
           m \<leftarrow> wr8 (frame_bytes (usb_rx_buf s)) (usb_rx_ptr s) b;
           Some (s\<lparr>usb_rx_buf := frame_of_bytes m, usb_rx_ptr := u8 (usb_rx_ptr s + 1)\<rparr>) })
      else Some s)"

definition usb_push_byte :: "usb_consts \<Rightarrow> nat \<Rightarrow> byte \<Rightarrow> 'a usb_scheme \<Rightarrow> 'a usb_scheme option" where
  "usb_push_byte c qsz b s =
     (if usb_rx_was_magic s then
        (if b = QB_MAGIC c then
           (if usb_rx_state s \<noteq> 0 then Some (frame_error s) else usb_accept b s)
         else
           let s = s\<lparr>usb_rx_was_magic := False\<rparr> in
           if b = QB_LITERAL_MAGIC c then usb_accept (QB_MAGIC c) s
           else if b = QB_FRAME_START c then
             (let s = (if usb_rx_ptr s \<noteq> 0 then frame_error s else s) in Some (s\<lparr>usb_rx_state := b\<rparr>))
           else if b = QB_FRAME_END c then
             (if usb_rx_state s \<noteq> 0 then do {
                s \<leftarrow> jd_usb_handle_frame c qsz (s\<lparr>usb_rx_state := 0\<rparr>);
                Some (s\<lparr>usb_rx_ptr := 0\<rparr>) }
              else Some s)
           else if b = QB_RESERVED c \<or> b = QB_SERIAL_GAP c \<or> b = QB_FRAME_GAP c then Some s
           else usb_accept b (if usb_rx_state s \<noteq> 0 then frame_error s else s))
      else if b = QB_MAGIC c then Some (s\<lparr>usb_rx_was_magic := True\<rparr>)
      else usb_accept b s)"

fun jd_usb_push :: "usb_consts \<Rightarrow> nat \<Rightarrow> mem \<Rightarrow> 'a usb_scheme \<Rightarrow> 'a usb_scheme option" where
  "jd_usb_push c qsz [] s = Some s"
| "jd_usb_push c qsz (b # buf) s = Option.bind (usb_push_byte c qsz b s) (jd_usb_push c qsz buf)"

section \<open>Panic output and the periodic task\<close>

definition jd_usb_enable_serial :: "nat \<Rightarrow> 'a usb_scheme \<Rightarrow> 'a usb_scheme" where
  "jd_usb_enable_serial qsz s = (jd_usb_init qsz s)\<lparr>usb_serial_en := True\<rparr>"

text \<open>The wait for the host to empty the buffer: \<open>drained\<close> tells whether it did so within the
  50000 attempts.\<close>

definition jd_usb_panic_print_char :: "usb_consts \<Rightarrow> bool \<Rightarrow> byte \<Rightarrow> 'a usb_scheme \<Rightarrow> 'a usb_scheme option" where
  "jd_usb_panic_print_char c drained ch s =
     (if usb_panic_mode s > 1 then Some s
      else do {
        s \<leftarrow> (if usb_panic_mode s = 0 then do {
                let s = s\<lparr>usb_fwd_en := False, usb_serial_en := False\<rparr>;
                b \<leftarrow> wr8 (serial_buf s) 0 (QB_MAGIC c);
                b \<leftarrow> wr8 b 1 (QB_FRAME_END c);
                Some (s\<lparr>serial_buf := b, serial_buf_ptr := 2, usb_panic_mode := 1\<rparr>) }
              else Some s);
        b \<leftarrow> wr8 (serial_buf s) (serial_buf_ptr s) ch;
        let s = s\<lparr>serial_buf := b, serial_buf_ptr := u8 (serial_buf_ptr s + 1)\<rparr>;
        if serial_buf_ptr s < length (serial_buf s) \<and> ch \<noteq> 0x0a then Some s
        else if drained then Some (s\<lparr>serial_buf_ptr := 0\<rparr>)
        else Some (s\<lparr>serial_buf_ptr := 0, usb_panic_mode := 2\<rparr>) })"

fun jd_usb_panic_print_str :: "usb_consts \<Rightarrow> bool \<Rightarrow> mem \<Rightarrow> 'a usb_scheme \<Rightarrow> 'a usb_scheme option" where
  "jd_usb_panic_print_str c drained [] s = None"
| "jd_usb_panic_print_str c drained (ch # str) s =
     (if ch = 0 then Some s
      else Option.bind (jd_usb_panic_print_char c drained ch s) (jd_usb_panic_print_str c drained str))"

definition jd_usb_panic_start :: "usb_consts \<Rightarrow> bool \<Rightarrow> 'a usb_scheme \<Rightarrow> 'a usb_scheme option" where
  "jd_usb_panic_start c drained s =
     (if usb_panic_mode s > 1 then Some s else jd_usb_panic_print_char c drained 0x0a s)"

text \<open>The second result is the fragment handed to \<open>jd_lstore_append_frag\<close>.\<close>

definition jd_usb_proto_process :: "bool \<Rightarrow> 'a usb_scheme \<Rightarrow> ('a usb_scheme \<times> mem) option" where
  "jd_usb_proto_process looks_connected s = do {
     let s = (if \<not> usb_is_connected s \<and> looks_connected
              then s\<lparr>usb_is_connected := True, dmesg_timer := now_us s + 131072\<rparr> else s);
     let s = (if dmesg_timer s \<noteq> 1 \<and> in_past (now_us s) (dmesg_timer s) then s\<lparr>dmesg_timer := 1\<rparr> else s);
     if dmesg_timer s = 1 then do {
       (d, p) \<leftarrow> jd_dmesg_read 64 (proto_dmesg_ptr s) (log_store s);
       Some (s\<lparr>proto_dmesg_ptr := p\<rparr>, d) }
     else Some (s, []) }"

section \<open>The stream sent to the host\<close>

definition escape :: "usb_consts \<Rightarrow> mem \<Rightarrow> mem" where
  "escape c bs = concat (map (esc c) bs)"

lemma escape_simps [simp]: "escape c [] = []" "escape c (b # bs) = esc c b @ escape c bs"
  "escape c (xs @ ys) = escape c xs @ escape c ys"
  by (simp_all add: escape_def)

lemma esc_len: "1 \<le> length (esc c b)" "length (esc c b) \<le> 2"
  by (simp_all add: esc_def)

lemma usb_copy_ok:
  assumes "off + fs \<le> length m" "fs \<le> 255" "ptr \<le> fs" "length dst \<le> 64"
  shows "\<exists>p' d r. usb_copy c m off fs ptr dst = Some (p', d, r) \<and> ptr \<le> p' \<and> p' \<le> fs \<and> length d \<le> 64 \<and>
    d @ escape c (take (fs - p') (drop (off + p') m)) = dst @ escape c (take (fs - ptr) (drop (off + ptr) m)) \<and>
    (p' < fs \<longrightarrow> SPACE d < 2) \<and> (r \<longrightarrow> p' < fs) \<and>
    (ptr < fs \<and> 2 \<le> SPACE dst \<longrightarrow> ptr < p' \<and> length dst < length d)"
  using assms(3,4)
proof (induction "fs - ptr" arbitrary: ptr dst rule: less_induct)
  case less
  show ?case
  proof (cases "ptr < fs")
    case False
    then show ?thesis using less.prems usb_copy_stop(1) [OF False] by auto
  next
    case True
    define b where "b = m ! (off + ptr)"
    have b: "rd8 m (off + ptr) = Some b" using True assms(1) by (simp add: b_def)
    show ?thesis
    proof (cases "length (esc c b) \<le> SPACE dst")
      case False
      then show ?thesis
        using True b usb_copy_stop(3,4) [OF True b, of c dst] esc_len [of c b] less.prems
        by (auto simp: esc_def split: if_splits)
    next
      case fits: True
      have u: "u8 (ptr + 1) = ptr + 1" using True assms(2) by simp
      have len: "length (dst @ esc c b) \<le> 64" using fits less.prems(2) by (simp add: SPACE_def)
      have lt: "fs - (ptr + 1) < fs - ptr" and le: "ptr + 1 \<le> fs" using True by simp_all
      have t: "take (fs - ptr) (drop (off + ptr) m) = b # take (fs - (ptr + 1)) (drop (off + (ptr + 1)) m)"
        using True assms(1) Cons_nth_drop_Suc [of "off + ptr" m]
        by (metis (no_types, lifting) Suc_diff_Suc Suc_eq_plus1 add.assoc add_less_cancel_left b_def less_le_trans take_Suc_Cons)
      from less.hyps [OF lt le len] obtain p' d r where
        "usb_copy c m off fs (ptr + 1) (dst @ esc c b) = Some (p', d, r)" "ptr + 1 \<le> p'" "p' \<le> fs" "length d \<le> 64"
        "d @ escape c (take (fs - p') (drop (off + p') m)) =
           (dst @ esc c b) @ escape c (take (fs - (ptr + 1)) (drop (off + (ptr + 1)) m))"
        "p' < fs \<longrightarrow> SPACE d < 2" "r \<longrightarrow> p' < fs"
        by blast
      moreover have "length dst < length d"
        using usb_copy_len [OF calculation(1)] esc_len(1) [of c b] by simp
      ultimately show ?thesis using usb_copy_step [OF True b fits] u t by auto
    qed
  qed
qed

text \<open>A queued frame in the stream, and what is still to be sent when \<open>ptr\<close> bytes of the first
  frame are out.\<close>

definition wire_frame :: "mem \<Rightarrow> mem" where
  "wire_frame b = take (unat (b ! 2) + 12) b"

definition enc_frame :: "usb_consts \<Rightarrow> mem \<Rightarrow> mem" where
  "enc_frame c b = [QB_MAGIC c, QB_FRAME_START c] @ escape c (wire_frame b) @ [QB_MAGIC c, QB_FRAME_END c]"

fun usb_pending :: "usb_consts \<Rightarrow> nat \<Rightarrow> mem list \<Rightarrow> mem" where
  "usb_pending c ptr [] = []"
| "usb_pending c ptr (b # bs) =
     (if ptr = 0 then enc_frame c b
      else escape c (drop ptr (wire_frame b)) @ [QB_MAGIC c, QB_FRAME_END c]) @ concat (map (enc_frame c) bs)"

definition usb_out_inv :: "'a usb_scheme \<Rightarrow> jd_queue \<Rightarrow> bool" where
  "usb_out_inv s q \<longleftrightarrow> usb_queue s = Some q \<and> queue_inv q \<and> usb_frame_gap s \<noteq> 1 \<and>
     list_all (\<lambda>b. unat (b ! 2) \<le> 240) (queue_frames q) \<and>
     (case queue_frames q of [] \<Rightarrow> usb_frame_ptr s = 0 | b # _ \<Rightarrow> usb_frame_ptr s \<le> unat (b ! 2) + 12)"

lemma usb_pending_0: "usb_pending c 0 bs = concat (map (enc_frame c) bs)"
  by (cases bs) simp_all

text \<open>The head frame in the queue's memory.\<close>

lemma queue_head:
  assumes "queue_inv q" "queue_frames q = b # bs"
  obtains f q' where "jd_queue_front q = Some f" "rd8 (q_data q) (f + 2) = Some (b ! 2)"
    "f + (unat (b ! 2) + 12) \<le> length (q_data q)"
    "\<And>p. p \<le> unat (b ! 2) + 12 \<Longrightarrow> take (unat (b ! 2) + 12 - p) (drop (f + p) (q_data q)) = drop p (wire_frame b)"
    "jd_queue_shift q = Some q'" "queue_inv q'" "queue_frames q' = bs"
proof -
  have rep: "queue_rep q (b # bs)" using assms by (simp add: queue_inv_def)
  obtain f where f: "jd_queue_front q = Some f" "queue_front_bytes q = Some b"
    "frm_size_at (q_data q) f = Some (length b)" "f + length b \<le> length (q_data q)"
    using jd_queue_front_rep [OF rep] by metis
  have b: "b = take (length b) (drop f (q_data q))"
    using f(1-3) by (auto simp: queue_front_bytes_def rd_mem_Some_iff)
  have bs: "f + 2 < length (q_data q)" "align4 (unat (q_data q ! (f + 2)) + 12) = length b"
    using f(3) by (auto simp: frm_size_at_def rd8_Some_iff)
  have "12 \<le> length b" using bs(2) align4_ge [of "unat (q_data q ! (f + 2)) + 12"] by linarith
  then have b2: "b ! 2 = q_data q ! (f + 2)" using b nth_take [of 2 "length b" "drop f (q_data q)"] bs(1) by simp
  have le: "unat (b ! 2) + 12 \<le> length b" using bs(2) b2 align4_ge [of "unat (b ! 2) + 12"] by simp
  have wf: "wire_frame b = take (unat (b ! 2) + 12) (drop f (q_data q))"
    using b le by (metis min.absorb1 take_take wire_frame_def)
  obtain q' where q': "jd_queue_shift q = Some q'" "queue_rep q' bs" using jd_queue_shift_rep [OF rep] by blast
  show ?thesis
  proof (rule that)
    show "jd_queue_front q = Some f" by fact
    show "rd8 (q_data q) (f + 2) = Some (b ! 2)" using bs(1) b2 by simp
    show "f + (unat (b ! 2) + 12) \<le> length (q_data q)" using f(4) le by simp
    show "take (unat (b ! 2) + 12 - p) (drop (f + p) (q_data q)) = drop p (wire_frame b)" for p
      by (simp add: wf drop_take add.commute)
    show "jd_queue_shift q = Some q'" by fact
  qed (use q' queue_rep_inv queue_rep_frames in auto)
qed

lemma usb_pull_loop_ok:
  assumes "usb_out_inv s q" "length dst \<le> 64"
  shows "\<exists>s' q' d r. usb_pull_loop c s dst = Some (s', d, r) \<and> usb_out_inv s' q' \<and> length d \<le> 64 \<and>
    d @ usb_pending c (usb_frame_ptr s') (queue_frames q') = dst @ usb_pending c (usb_frame_ptr s) (queue_frames q) \<and>
    dmesg_timer s' = dmesg_timer s \<and> length dst \<le> length d \<and> (dst = [] \<and> queue_frames q \<noteq> [] \<longrightarrow> d \<noteq> [])"
  using assms
proof (induction "64 - length dst" arbitrary: s q dst rule: less_induct)
  case less
  have q: "usb_queue s = Some q" "queue_inv q" and gap: "usb_gap c s dst = Some (s, dst)"
    using less.prems(1) by (simp_all add: usb_out_inv_def usb_gap_def)
  show ?case
  proof (cases "queue_frames q")
    case Nil
    then have "queue_rep q []" using q(2) unfolding queue_inv_def by simp
    then have "jd_queue_front q = None" by (simp only: jd_queue_front_empty)
    with Nil gap q less.prems show ?thesis by (subst usb_pull_loop.simps) auto
  next
    case (Cons b bs)
    obtain f q1 where h: "jd_queue_front q = Some f" "rd8 (q_data q) (f + 2) = Some (b ! 2)"
      "f + (unat (b ! 2) + 12) \<le> length (q_data q)"
      "\<And>p. p \<le> unat (b ! 2) + 12 \<Longrightarrow> take (unat (b ! 2) + 12 - p) (drop (f + p) (q_data q)) = drop p (wire_frame b)"
      "jd_queue_shift q = Some q1" "queue_inv q1" "queue_frames q1 = bs"
      using queue_head [OF q(2) Cons] by metis
    define fs where "fs = unat (b ! 2) + 12"
    define p where "p = usb_frame_ptr s"
    have p: "p \<le> fs" "fs \<le> 255" "0 < fs" and sizes: "list_all (\<lambda>b. unat (b ! 2) \<le> 240) bs"
      using less.prems(1) Cons by (simp_all add: usb_out_inv_def fs_def p_def)
    show ?thesis
    proof (cases "p = 0 \<and> SPACE dst < 4")
      case True
      then have "usb_pull_loop c s dst = Some (s, dst, False)"
        using gap q h(1,2) by (subst usb_pull_loop.simps) (simp add: p_def)
      moreover have "dst \<noteq> []" using True by (auto simp: SPACE_def)
      ultimately show ?thesis using less.prems by auto
    next
      case False
      define d0 where "d0 = (if p = 0 then dst @ [QB_MAGIC c, QB_FRAME_START c] else dst)"
      have put: "(if p = 0 then usb_put dst [QB_MAGIC c, QB_FRAME_START c] else Some dst) = Some d0"
        and l0: "length d0 \<le> 64" "length dst \<le> length d0" "p = 0 \<longrightarrow> 2 \<le> SPACE d0"
        using False less.prems(2) by (auto simp: d0_def usb_put_def SPACE_def)
      have full: "dst @ usb_pending c p (b # bs) =
          d0 @ escape c (drop p (wire_frame b)) @ [QB_MAGIC c, QB_FRAME_END c] @ concat (map (enc_frame c) bs)"
        by (simp add: d0_def enc_frame_def)
      obtain p1 d1 r where c1: "usb_copy c (q_data q) f fs p d0 = Some (p1, d1, r)" "p \<le> p1" "p1 \<le> fs"
        "length d1 \<le> 64" "d1 @ escape c (drop p1 (wire_frame b)) = d0 @ escape c (drop p (wire_frame b))"
        "p1 < fs \<longrightarrow> SPACE d1 < 2" "r \<longrightarrow> p1 < fs" "p < fs \<and> 2 \<le> SPACE d0 \<longrightarrow> p < p1 \<and> length d0 < length d1"
      proof -
        have tp: "take (fs - x) (drop (f + x) (q_data q)) = drop x (wire_frame b)" if "x \<le> fs" for x
          using h(4) [of x] that by (simp add: fs_def)
        have "f + fs \<le> length (q_data q)" using h(3) by (simp add: fs_def)
        from usb_copy_ok [OF this p(2,1) l0(1), of c] obtain p1 d1 r where
          u: "usb_copy c (q_data q) f fs p d0 = Some (p1, d1, r)" "p \<le> p1" "p1 \<le> fs" "length d1 \<le> 64"
          "d1 @ escape c (take (fs - p1) (drop (f + p1) (q_data q))) = d0 @ escape c (take (fs - p) (drop (f + p) (q_data q)))"
          "p1 < fs \<longrightarrow> SPACE d1 < 2" "r \<longrightarrow> p1 < fs" "p < fs \<and> 2 \<le> SPACE d0 \<longrightarrow> p < p1 \<and> length d0 < length d1"
          by blast
        from u(5) have "d1 @ escape c (drop p1 (wire_frame b)) = d0 @ escape c (drop p (wire_frame b))"
          unfolding tp [OF u(3)] tp [OF p(1)] .
        with u that show ?thesis by blast
      qed
      have l1: "length d0 \<le> length d1" using usb_copy_len [OF c1(1)] .
      have p1: "0 < p1" using c1(2,8) l0(3) p(3) by (cases "p = 0") auto
      define s1 where "s1 = s\<lparr>usb_frame_ptr := p1\<rparr>"
      have step: "usb_pull_loop c s dst =
          (if r then Some (s1, d1, True) else if SPACE d1 < 2 then Some (s1, d1, False)
           else do { dst \<leftarrow> usb_put d1 [QB_MAGIC c, QB_FRAME_END c]; q \<leftarrow> Some q1;
              usb_pull_loop c (s1\<lparr>usb_frame_ptr := 0, usb_queue := Some q\<rparr>) dst })"
        using gap q h(1,2,5) put c1(1) False
        by (subst usb_pull_loop.simps, simp add: Let_def p_def [symmetric] fs_def [symmetric] s1_def) linarith
      show ?thesis
      proof (cases "r \<or> SPACE d1 < 2")
        case True
        have "usb_out_inv s1 q" using less.prems(1) c1(3) Cons by (simp add: usb_out_inv_def s1_def fs_def)
        moreover have "d1 @ usb_pending c p1 (b # bs) = dst @ usb_pending c p (b # bs)"
          using c1(5) full p1 by simp
        moreover have "dst = [] \<longrightarrow> d1 \<noteq> []" using c1(8) l1 p(3) l0 True c1(6,7) by (auto simp: SPACE_def d0_def split: if_splits)
        ultimately show ?thesis
          using step True l0 l1 c1(4) Cons by (auto simp: s1_def p_def)
      next
        case False
        then have pf: "p1 = fs" and sp: "2 \<le> SPACE d1" using c1(3,6) by auto
        define d2 where "d2 = d1 @ [QB_MAGIC c, QB_FRAME_END c]"
        define s2 where "s2 = s1\<lparr>usb_frame_ptr := 0, usb_queue := Some q1\<rparr>"
        have l2: "length d2 \<le> 64" "64 - length d2 < 64 - length dst"
          using sp l0 l1 by (auto simp: d2_def SPACE_def)
        have "usb_out_inv s2 q1"
          using less.prems(1) h(6,7) sizes by (auto simp: usb_out_inv_def s2_def s1_def split: list.splits)
        from less.hyps [OF l2(2) this l2(1)] obtain s' q' d r' where
          ih: "usb_pull_loop c s2 d2 = Some (s', d, r')" "usb_out_inv s' q'" "length d \<le> 64"
          "d @ usb_pending c (usb_frame_ptr s') (queue_frames q') = d2 @ usb_pending c 0 bs"
          "dmesg_timer s' = dmesg_timer s" "length d2 \<le> length d"
          by (auto simp: s2_def s1_def h(7))
        have "length (wire_frame b) \<le> fs" by (simp add: wire_frame_def fs_def)
        then have "d1 = d0 @ escape c (drop p (wire_frame b))" using c1(5) pf by simp
        then have "d2 @ usb_pending c 0 bs = dst @ usb_pending c p (b # bs)"
          using full by (simp add: d2_def usb_pending_0)
        moreover have "usb_pull_loop c s dst = Some (s', d, r')"
          using step False ih(1) sp l2(1) by (simp add: s2_def d2_def usb_put_def)
        moreover have "d2 \<noteq> []" by (simp add: d2_def)
        ultimately show ?thesis using ih l0 l1 Cons by (auto simp: p_def d2_def)
      qed
    qed
  qed
qed

section \<open>The stream received from the host\<close>

lemma bit_le_word:
  "bit (le_word bs :: 'a::len word) i \<longleftrightarrow> i < LENGTH('a) \<and> i < 8 * length bs \<and> bit (bs ! (i div 8)) (i mod 8)"
proof (induction bs arbitrary: i)
  case (Cons b bs)
  show ?case
  proof (cases "i < 8")
    case True
    then show ?thesis by (auto simp: bit_or_iff bit_push_bit_iff bit_unsigned_iff)
  next
    case False
    then obtain j where j: "i = 8 + j" by (metis le_Suc_ex not_less)
    then have "i div 8 = Suc (j div 8)" "i mod 8 = j mod 8" by simp_all
    with j Cons.IH [of j] show ?thesis
      by (auto simp: bit_or_iff bit_push_bit_iff bit_unsigned_iff dest: bit_imp_le_length)
  qed
qed simp

lemma nth_le_bytes: "k < n \<Longrightarrow> le_bytes n w ! k = ucast (drop_bit (8 * k) w)"
proof (induction n arbitrary: k w)
  case (Suc n)
  then show ?case by (cases k) (simp_all add: drop_bit_drop_bit add.commute)
qed simp

lemma le_bytes_le_word:
  assumes "8 * length bs \<le> LENGTH('a)"
  shows "le_bytes (length bs) (le_word bs :: 'a::len word) = bs"
proof (rule nth_equalityI)
  fix k assume "k < length (le_bytes (length bs) (le_word bs :: 'a word))"
  then have k: "k < length bs" by simp
  have "ucast (drop_bit (8 * k) (le_word bs :: 'a word)) = bs ! k"
  proof (rule bit_word_eqI)
    fix n assume "n < LENGTH(8)"
    then have n: "n < 8" by simp
    then have "(8 * k + n) div 8 = k" "(8 * k + n) mod 8 = n" by simp_all
    with n k assms show "bit (ucast (drop_bit (8 * k) (le_word bs :: 'a word)) :: byte) n = bit (bs ! k) n"
      by (simp add: bit_unsigned_iff bit_drop_bit_eq bit_le_word)
  qed
  with k show "le_bytes (length bs) (le_word bs :: 'a word) ! k = bs ! k" by (simp add: nth_le_bytes)
qed simp

lemma frame_bytes_of_bytes: "12 \<le> length m \<Longrightarrow> frame_bytes (frame_of_bytes m) = m"
proof -
  assume l: "12 \<le> length m"
  have "length (take 2 m) = 2" "length (take 8 (drop 4 m)) = 8" using l by simp_all
  then have 2: "le_bytes 2 (le_word (take 2 m) :: 16 word) = take 2 m"
    and 8: "le_bytes 8 (le_word (take 8 (drop 4 m)) :: 64 word) = take 8 (drop 4 m)"
    using le_bytes_le_word [of "take 2 m", where 'a = 16] le_bytes_le_word [of "take 8 (drop 4 m)", where 'a = 64]
    by (simp_all del: length_take length_drop)
  have m: "[m ! 2, m ! 3] = take 2 (drop 2 m)"
    using l by (intro nth_equalityI) (auto simp: less_Suc_eq numeral_2_eq_2 numeral_3_eq_3)
  have "frame_bytes (frame_of_bytes m) = take 2 m @ take 2 (drop 2 m) @ take 8 (drop 4 m) @ drop 12 m"
    using 2 8 m by (simp add: frame_bytes_def frame_of_bytes_def)
  also have "take 8 (drop 4 m) @ drop 12 m = drop 4 m"
    using append_take_drop_id [of 8 "drop 4 m"] by simp
  also have "take 2 (drop 2 m) @ drop 4 m = drop 2 m"
    using append_take_drop_id [of 2 "drop 2 m"] by simp
  finally show ?thesis by simp
qed

lemma frame_of_bytes_bytes: "frame_of_bytes (frame_bytes f) = f"
proof -
  have "frame_bytes f ! 2 = frm_size f" "frame_bytes f ! 3 = frm_flags f"
    by (simp_all add: frame_bytes_def nth_append)
  moreover have "take 2 (frame_bytes f) = le_bytes 2 (frm_crc f)"
    "take 8 (drop 4 (frame_bytes f)) = le_bytes 8 (frm_device_identifier f)" "drop 12 (frame_bytes f) = frm_data f"
    by (simp_all add: frame_bytes_def)
  ultimately show ?thesis by (simp add: frame_of_bytes_def)
qed

lemma usb_push_append:
  "jd_usb_push c qsz (xs @ ys) s = Option.bind (jd_usb_push c qsz xs s) (jd_usb_push c qsz ys)"
proof (induction xs arbitrary: s)
  case (Cons x xs)
  then show ?case by (cases "usb_push_byte c qsz x s") simp_all
qed simp

lemma bind_push_Nil [simp]: "Option.bind x (jd_usb_push c qsz []) = x"
  by (cases x) simp_all

definition rx_store :: "nat \<Rightarrow> mem \<Rightarrow> 'a usb_scheme \<Rightarrow> 'a usb_scheme" where
  "rx_store p bs s = s\<lparr>usb_rx_buf := frame_of_bytes (patch (frame_bytes (usb_rx_buf s)) p bs), usb_rx_ptr := p + length bs\<rparr>"

lemma usb_push_data:
  assumes "usb_consts_ok c" "\<not> usb_rx_was_magic s" "usb_rx_state s \<noteq> 0" "length (frm_data (usb_rx_buf s)) = 240"
    and "usb_rx_ptr s < 252"
  shows "jd_usb_push c qsz (esc c b) s = Some (rx_store (usb_rx_ptr s) [b] s)"
proof -
  have w: "wr8 (frame_bytes (usb_rx_buf s)) (usb_rx_ptr s) b = Some (patch (frame_bytes (usb_rx_buf s)) (usb_rx_ptr s) [b])"
    using assms(4,5) by (intro wr8_patch) simp
  have d: "QB_LITERAL_MAGIC c \<noteq> QB_MAGIC c" using assms(1) by (auto simp: usb_consts_ok_def)
  have same: "s\<lparr>usb_rx_was_magic := False\<rparr> = s" using assms(2) by simp
  have "jd_usb_push c qsz (esc c b) s = usb_accept b s"
    using d assms(2) by (simp add: esc_def usb_push_byte_def Let_def same)
  then show ?thesis
    using w assms by (simp add: usb_accept_def rx_store_def del: wr8_Some)
qed

lemma usb_push_escape:
  assumes "usb_consts_ok c"
  shows "\<not> usb_rx_was_magic s \<Longrightarrow> usb_rx_state s \<noteq> 0 \<Longrightarrow> length (frm_data (usb_rx_buf s)) = 240 \<Longrightarrow>
    usb_rx_ptr s + length bs \<le> 252 \<Longrightarrow>
    jd_usb_push c qsz (escape c bs) s = Some (rx_store (usb_rx_ptr s) bs s)"
proof (induction bs arbitrary: s)
  case Nil
  then show ?case by (simp add: rx_store_def frame_of_bytes_bytes)
next
  case (Cons b bs)
  let ?t = "rx_store (usb_rx_ptr s) [b] s" and ?p = "usb_rx_ptr s" and ?B = "frame_bytes (usb_rx_buf s)"
  have m: "length (patch ?B ?p [b]) = 252" using Cons.prems by simp
  then have B: "frame_bytes (usb_rx_buf ?t) = patch ?B ?p [b]" "length (frm_data (usb_rx_buf ?t)) = 240"
    by (simp_all add: rx_store_def frame_bytes_of_bytes) (simp add: frame_of_bytes_def)
  have "patch (patch ?B ?p [b]) (?p + 1) bs = patch ?B ?p (b # bs)"
    using patch_patch_append [of ?p "[b]" bs ?B] Cons.prems by simp
  then have t: "rx_store (usb_rx_ptr ?t) bs ?t = rx_store ?p (b # bs) s"
    using B(1) by (simp add: rx_store_def)
  have "jd_usb_push c qsz (escape c (b # bs)) s = jd_usb_push c qsz (escape c bs) ?t"
    using usb_push_data [OF assms, of s qsz b] Cons.prems by (simp add: usb_push_append)
  also have "\<dots> = Some (rx_store (usb_rx_ptr ?t) bs ?t)"
    using Cons.prems B(2) by (intro Cons.IH) (simp_all add: rx_store_def)
  finally show ?case by (simp only: t)
qed

text \<open>A start mark brings the receiver to the beginning of a frame, whatever came before.\<close>

lemma usb_push_start:
  assumes "usb_consts_ok c"
  shows "jd_usb_push c qsz [QB_MAGIC c, QB_FRAME_START c] s =
    Some (s\<lparr>usb_rx_was_magic := False, usb_rx_state := QB_FRAME_START c, usb_rx_ptr := 0\<rparr>)"
proof -
  have d: "QB_FRAME_START c \<noteq> QB_MAGIC c" "QB_FRAME_START c \<noteq> QB_LITERAL_MAGIC c"
    using assms by (auto simp: usb_consts_ok_def)
  show ?thesis
    using d by (cases s) (simp add: usb_push_byte_def usb_accept_def frame_error_def Let_def)
qed

text \<open>The receiver's state when \<open>jd_usb_handle_frame\<close> is called for the bytes \<open>bs\<close>.\<close>

definition rx_complete :: "mem \<Rightarrow> 'a usb_scheme \<Rightarrow> 'a usb_scheme" where
  "rx_complete bs s = s\<lparr>usb_rx_was_magic := False, usb_rx_state := 0,
     usb_rx_buf := frame_of_bytes (patch (frame_bytes (usb_rx_buf s)) 0 bs), usb_rx_ptr := length bs\<rparr>"

lemma usb_push_framed:
  assumes "usb_consts_ok c" "length (frm_data (usb_rx_buf s)) = 240" "length bs \<le> 252"
  shows "jd_usb_push c qsz ([QB_MAGIC c, QB_FRAME_START c] @ escape c bs @ [QB_MAGIC c, QB_FRAME_END c]) s =
    map_option (\<lambda>t. t\<lparr>usb_rx_ptr := 0\<rparr>) (jd_usb_handle_frame c qsz (rx_complete bs s))"
proof -
  define s1 where "s1 = s\<lparr>usb_rx_was_magic := False, usb_rx_state := QB_FRAME_START c, usb_rx_ptr := 0\<rparr>"
  define s2 where "s2 = rx_store 0 bs s1"
  have 1: "jd_usb_push c qsz [QB_MAGIC c, QB_FRAME_START c] s = Some s1"
    using usb_push_start [OF assms(1)] by (simp only: s1_def)
  have 2: "jd_usb_push c qsz (escape c bs) s1 = Some s2"
    using usb_push_escape [OF assms(1), of s1 bs qsz] assms by (simp add: s1_def s2_def usb_consts_ok_def)
  have d: "QB_FRAME_END c \<noteq> QB_MAGIC c" "QB_FRAME_END c \<noteq> QB_LITERAL_MAGIC c" "QB_FRAME_END c \<noteq> QB_FRAME_START c"
    using assms(1) by (auto simp: usb_consts_ok_def)
  have s2: "\<not> usb_rx_was_magic s2" "usb_rx_state s2 \<noteq> 0" "s2\<lparr>usb_rx_was_magic := False, usb_rx_state := 0\<rparr> = rx_complete bs s"
    using assms(1) by (simp_all add: s2_def s1_def rx_store_def rx_complete_def usb_consts_ok_def)
  have "jd_usb_push c qsz [QB_MAGIC c, QB_FRAME_END c] s2 =
      map_option (\<lambda>t. t\<lparr>usb_rx_ptr := 0\<rparr>) (jd_usb_handle_frame c qsz (rx_complete bs s))"
    using d s2 by (simp add: usb_push_byte_def Let_def) (cases "jd_usb_handle_frame c qsz (rx_complete bs s)"; simp)
  then show ?thesis
    unfolding usb_push_append 1 Option.bind.bind_lunit 2 by simp
qed

section \<open>Sample values\<close>

definition sample_consts :: usb_consts where
  "sample_consts = \<lparr>QB_MAGIC = 0xfe, QB_LITERAL_MAGIC = 0xf8, QB_RESERVED = 0xf9, QB_SERIAL_GAP = 0xfa,
     QB_FRAME_GAP = 0xfb, QB_FRAME_START = 0xfc, QB_FRAME_END = 0xfd, CLASS_USB_BRIDGE = 0x18f61a4a,
     CMD_ENABLE_PACKETS = 0x81, CMD_DISABLE_PACKETS = 0x80, CMD_ENABLE_LOG = 0x83, CMD_DISABLE_LOG = 0x82\<rparr>"

lemma sample_consts_ok: "usb_consts_ok sample_consts"
  by (simp add: usb_consts_ok_def sample_consts_def)

definition sample_usb :: "jd_queue \<Rightarrow> usb" where
  "sample_usb q = \<lparr>device_id = 7, micros = 0, now_us = 0, rnd_seed = 1, in_irq = False, phys_status = 0,
      txPending = False, txFrame = None, start_tx = 0, rxFrame = zero_frame, timer = None,
      diagnostics = \<lparr>bus_lo_error = 0, bus_uart_error = 0, bus_timeout_error = 0,
        packets_received = 0, packets_dropped = 0\<rparr>,
      send_queue = jd_queue_alloc 64, q_sending = False, tx_acc_buffer = zero_frame,
      rx_queue = jd_queue_alloc 64, packets_sent = 0, usb_fwd_en = True,
      usb_queue = Some q, usb_frame_gap = 0,
      usb_serial_en = False, usb_frame_ptr = 0, usb_panic_mode = 0, serial_buf_ptr = 0, serial_buf_len = 0,
      serial_buf = replicate 64 0, usb_rx_ptr = 0, usb_rx_state = 0, usb_rx_was_magic = False,
      usb_rx_buf = zero_frame, usb_is_connected = False, dmesg_timer = 0, dmesg_ptr = 0, proto_dmesg_ptr = 0,
      log_store = \<lparr>log_ptr = 0, log_buffer = replicate 256 0\<rparr>\<rparr>"

definition small_frame :: jd_frame where
  "small_frame = zero_frame\<lparr>frm_size := 4, frm_device_identifier := 9\<rparr>"

lemma sample_queue:
  obtains q where "queue_inv q" "queue_frames q = [frame_image small_frame]"
proof -
  have p: "frame_pushable small_frame"
    by (simp add: frame_pushable_iff small_frame_def zero_frame_def JD_SERIAL_PAYLOAD_SIZE_def align4_def)
  have e: "queue_inv (jd_queue_alloc 64)" "queue_frames (jd_queue_alloc 64) = []"
    using queue_rep_inv [OF queue_alloc_rep] queue_rep_frames [OF queue_alloc_rep] by simp_all
  have "jd_queue_will_fit (jd_queue_alloc 64) (FRM_SIZE small_frame)"
    by (simp add: jd_queue_will_fit_def jd_queue_alloc_def FRM_SIZE_def JD_FRAME_SIZE_def small_frame_def align4_def)
  with fq.push_appends [OF e(1) p] e(2) that show ?thesis by auto
qed

lemma small_image: "frame_image small_frame ! 2 = 4"
  by (simp add: frame_image_def FRM_SIZE_def JD_FRAME_SIZE_def small_frame_def align4_def frame_bytes_def nth_append)

section \<open>Properties\<close>

text \<open>\<open>jd_usb_pull\<close> sends exactly the queued frames.  While no overflow mark and no log output
  are due, the at most 64 bytes of a call are the next bytes of the stream of the framed and quoted
  queue contents, the remaining stream is what the new state still has to send, and a call with
  a frame queued is never empty: repeated calls deliver all frames in order.\<close>

theorem jd_usb_pull_stream:
  assumes "usb_out_inv s q" "usb_panic_mode s = 0" "dmesg_timer s \<noteq> 1"
  shows "\<exists>s' q' out. jd_usb_pull c s = Some (s', out) \<and> usb_out_inv s' q' \<and> length out \<le> 64 \<and>
    out @ usb_pending c (usb_frame_ptr s') (queue_frames q') = usb_pending c (usb_frame_ptr s) (queue_frames q) \<and>
    (queue_frames q \<noteq> [] \<longrightarrow> out \<noteq> [])"
proof -
  from usb_pull_loop_ok [OF assms(1), of "[]" c] obtain s' q' d r where
    "usb_pull_loop c s [] = Some (s', d, r)" "usb_out_inv s' q'" "length d \<le> 64"
    "d @ usb_pending c (usb_frame_ptr s') (queue_frames q') = usb_pending c (usb_frame_ptr s) (queue_frames q)"
    "dmesg_timer s' = dmesg_timer s" "queue_frames q \<noteq> [] \<longrightarrow> d \<noteq> []" by auto
  moreover have "usb_queue s \<noteq> None" using assms(1) by (simp add: usb_out_inv_def)
  ultimately show ?thesis using assms(2,3) by (auto simp: jd_usb_pull_def)
qed

theorem jd_usb_pull_stream_witness:
  "\<exists>q s' q' out. queue_frames q = [frame_image small_frame] \<and>
    jd_usb_pull sample_consts (sample_usb q) = Some (s', out) \<and> usb_out_inv s' q' \<and> length out \<le> 64 \<and>
    out @ usb_pending sample_consts (usb_frame_ptr s') (queue_frames q') =
      usb_pending sample_consts (usb_frame_ptr (sample_usb q)) (queue_frames q) \<and>
    (queue_frames q \<noteq> [] \<longrightarrow> out \<noteq> [])"
proof -
  obtain q where q: "queue_inv q" "queue_frames q = [frame_image small_frame]" by (rule sample_queue)
  have "usb_out_inv (sample_usb q) q" using q by (simp add: usb_out_inv_def sample_usb_def small_image)
  moreover have "usb_panic_mode (sample_usb q) = 0" "dmesg_timer (sample_usb q) \<noteq> 1" by (simp_all add: sample_usb_def)
  ultimately show ?thesis using jd_usb_pull_stream [of "sample_usb q" q sample_consts] q(2) by blast
qed



text \<open>An empty frame halts the bridge.  A report frame of declared size zero with a valid checksum
  that arrives over USB passes the checks of \<open>jd_usb_handle_frame\<close> and panics in the send queue.\<close>

theorem usb_empty_frame_panics:
  assumes "frm_size (usb_rx_buf s) = 0" "12 \<le> usb_rx_ptr s"
    and "frm_crc (usb_rx_buf s) = jd_crc16 (take 10 (drop 2 (frame_bytes (usb_rx_buf s))))"
    and "\<not> flag_set (usb_rx_buf s) JD_FRAME_FLAG_COMMAND"
  shows "jd_usb_handle_frame c qsz s = None"
  using assms
  by (simp add: jd_usb_handle_frame_def JD_FRAME_SIZE_def Let_def jd_send_frame_raw_def jd_need_to_send_def
      jd_queue_push_def)

theorem usb_empty_frame_panics_witness:
  "jd_usb_handle_frame sample_consts 512
     ((sample_usb (jd_queue_alloc 64))\<lparr>usb_rx_ptr := 12, usb_rx_buf := zero_frame\<lparr>frm_crc := jd_crc16 (replicate 10 0)\<rparr>\<rparr>) = None"
  by (rule usb_empty_frame_panics)
     (simp_all add: zero_frame_def frame_bytes_def flag_set_def numeral_eq_Suc)

end
