(* ===== verification/Jd_Event.thy ===== *)
theory Jd_Event
  imports Jd_Bus
begin

text \<open>
  The event queue, source/interfaces/event\_queue.c.  An event is sent at once and queued for two
  repetitions, 20 ms and a further 50 ms later.  The queue is a byte buffer of
  \<open>JD_EVENT_QUEUE_SIZE\<close> bytes that holds \<open>ev_t\<close> records one after the other; it is allocated at the
  first event.  The theory shows that the byte-level loop implements a simple pass over a list of
  events, without reading or writing outside of the buffer.
\<close>

record event_info =
  ev_buffer :: "mem option"
  qptr :: nat
  ev_counter :: byte

definition FIRST_DELAY :: "32 word" where "FIRST_DELAY = 20"
definition SECOND_DELAY :: "32 word" where "SECOND_DELAY = 50"

definition JD_CMD_EVENT_MK :: "byte \<Rightarrow> nat \<Rightarrow> nat" where
  "JD_CMD_EVENT_MK counter code =
     unat ((0x8000 :: 16 word) OR push_bit 8 (ucast (counter AND 0x7f)) OR (of_nat code AND 0xff))"

section \<open>Operations\<close>

definition ev_size :: "mem \<Rightarrow> nat \<Rightarrow> nat option" where
  "ev_size b ev = map_option (\<lambda>s. 8 + align4 (unat s)) (rd8 b (ev + 4))"

definition next_ev :: "mem \<Rightarrow> nat \<Rightarrow> nat option" where
  "next_ev b ev = map_option (\<lambda>n. ev + n) (ev_size b ev)"

definition next_event_cmd :: "nat \<Rightarrow> event_info \<Rightarrow> (event_info \<times> nat) option" where
  "next_event_cmd eventid info =
     (if eventid div 256 \<noteq> 0 then None
      else (let info = info\<lparr>ev_counter := ev_counter info + 1\<rparr> in
        Some (info, JD_CMD_EVENT_MK (ev_counter info) eventid)))"

definition ev_shift :: "event_info \<Rightarrow> event_info option" where
  "ev_shift info = do {
     b \<leftarrow> ev_buffer info;
     offset \<leftarrow> ev_size b 0;
     let q = u16 (qptr info + (65536 - u16 offset));
     b \<leftarrow> jd_word_move b 0 offset q;
     Some (info\<lparr>ev_buffer := Some b, qptr := q\<rparr>) }"

text \<open>The \<open>while\<close> loop of \<open>do_process_event_queue\<close>; \<open>n\<close> bounds the number of rounds.\<close>

fun process_events :: "nat \<Rightarrow> nat \<Rightarrow> event_info \<Rightarrow> 'a bus_scheme \<Rightarrow> (event_info \<times> 'a bus_scheme) option" where
  "process_events 0 ev info s = None"
| "process_events (Suc n) ev info s =
     (if ev < qptr info then do {
        b \<leftarrow> ev_buffer info;
        idx \<leftarrow> rd8 b (ev + 5);
        if idx = 0xff then
          (if ev = 0 then do { info \<leftarrow> ev_shift info; process_events n 0 info s }
           else do { ev' \<leftarrow> next_ev b ev; process_events n ev' info s })
        else do {
        ts \<leftarrow> rd_mem b ev 4;
        if in_past (now_us s) (le_word ts) then do {
          cmd \<leftarrow> rd_mem b (ev + 6) 2;
          sz \<leftarrow> rd8 b (ev + 4);
          data \<leftarrow> rd_mem b (ev + 8) (unat sz);
          (s, r) \<leftarrow> jd_send (unat (idx AND 0x7f)) (unat (le_word cmd :: 16 word)) data s;
          if r \<noteq> 0 then Some (info, s)
          else if idx AND 0x80 \<noteq> 0 then
            (if ev = 0 then do { info \<leftarrow> ev_shift info; process_events n 0 info s }
             else do {
               b \<leftarrow> wr8 b (ev + 5) 0xff;
               ev' \<leftarrow> next_ev b ev;
               process_events n ev' (info\<lparr>ev_buffer := Some b\<rparr>) s })
          else do {
            b \<leftarrow> wr_mem b ev (le_bytes 4 (le_word ts + SECOND_DELAY * 1000 :: 32 word));
            b \<leftarrow> wr8 b (ev + 5) (idx OR 0x80);
            ev' \<leftarrow> next_ev b ev;
            process_events n ev' (info\<lparr>ev_buffer := Some b\<rparr>) s } }
        else do { ev' \<leftarrow> next_ev b ev; process_events n ev' info s } } }
      else Some (info, s))"

text \<open>An event takes at least 8 bytes, so \<open>qptr + 1\<close> rounds are more than the loop can make.\<close>

definition do_process_event_queue :: "event_info \<Rightarrow> 'a bus_scheme \<Rightarrow> (event_info \<times> 'a bus_scheme) option" where
  "do_process_event_queue info s = process_events (qptr info + 1) 0 info s"

definition ev_init :: "nat \<Rightarrow> event_info \<Rightarrow> event_info" where
  "ev_init event_queue_size info =
     (case ev_buffer info of Some _ \<Rightarrow> info
      | None \<Rightarrow> info\<lparr>ev_buffer := Some (replicate event_queue_size 0)\<rparr>)"

definition jd_process_event_queue :: "event_info \<Rightarrow> 'a bus_scheme \<Rightarrow> (event_info \<times> 'a bus_scheme) option" where
  "jd_process_event_queue info s =
     (case ev_buffer info of None \<Rightarrow> Some (info, s) | Some _ \<Rightarrow> do_process_event_queue info s)"

text \<open>\<open>while (JD_EVENT_QUEUE_SIZE - info.qptr < reqlen) ev_shift();\<close>\<close>

fun make_room :: "nat \<Rightarrow> nat \<Rightarrow> nat \<Rightarrow> event_info \<Rightarrow> event_info option" where
  "make_room 0 qsz reqlen info = None"
| "make_room (Suc n) qsz reqlen info =
     (if int qsz - int (qptr info) < int reqlen then do { info \<leftarrow> ev_shift info; make_room n qsz reqlen info }
      else Some info)"

definition jd_send_event_ext ::
  "nat \<Rightarrow> nat \<Rightarrow> nat \<Rightarrow> mem \<Rightarrow> event_info \<Rightarrow> 'a bus_scheme \<Rightarrow> (event_info \<times> 'a bus_scheme) option" where
  "jd_send_event_ext event_queue_size service_index eventid data info s =
     (if in_irq s then None
      else do {
        (info, cmd) \<leftarrow> next_event_cmd eventid info;
        (s, _) \<leftarrow> jd_send service_index cmd data s;
        let info = ev_init event_queue_size info;
        let reqlen = length data + 8;
        if reqlen > event_queue_size then Some (info, s)
        else do {
          info \<leftarrow> make_room (qptr info + 1) event_queue_size reqlen info;
          b \<leftarrow> ev_buffer info;
          let ev = qptr info;
          b \<leftarrow> wr8 b (ev + 4) (of_nat (length data));
          b \<leftarrow> wr_mem b (ev + 6) (le_bytes 2 (of_nat cmd :: 16 word));
          b \<leftarrow> wr8 b (ev + 5) (of_nat service_index);
          b \<leftarrow> wr_mem b (ev + 8) data;
          b \<leftarrow> wr_mem b ev (le_bytes 4 (now_us s + FIRST_DELAY * 1000));
          sz \<leftarrow> ev_size b ev;
          Some (info\<lparr>ev_buffer := Some b, qptr := u16 (qptr info + sz)\<rparr>, s) } })"

section \<open>The queue as a list of events\<close>

record event =
  evt_time :: "32 word"
  evt_index :: byte
  evt_cmd :: "16 word"
  evt_size :: byte
  evt_body :: mem

definition event_ok :: "event \<Rightarrow> bool" where
  "event_ok e \<longleftrightarrow> length (evt_body e) = align4 (unat (evt_size e))"

definition event_bytes :: "event \<Rightarrow> mem" where
  "event_bytes e = le_bytes 4 (evt_time e) @ [evt_size e, evt_index e] @ le_bytes 2 (evt_cmd e) @ evt_body e"

definition event_data :: "event \<Rightarrow> mem" where
  "event_data e = take (unat (evt_size e)) (evt_body e)"

definition events_bytes :: "event list \<Rightarrow> mem" where
  "events_bytes es = concat (map event_bytes es)"

text \<open>One pass over the events: what is sent, and what remains.  \<open>head\<close> tells that no event before
  this one remains.\<close>

fun ev_pass :: "32 word \<Rightarrow> bool \<Rightarrow> event list \<Rightarrow> event list \<times> event list" where
  "ev_pass now head [] = ([], [])"
| "ev_pass now head (e # es) =
     (if evt_index e = 0xff then
        (if head then ev_pass now True es
         else (let (sent, rest) = ev_pass now False es in (sent, e # rest)))
      else if in_past now (evt_time e) then
        (if evt_index e AND 0x80 \<noteq> 0 then
           (if head then (let (sent, rest) = ev_pass now True es in (e # sent, rest))
            else (let (sent, rest) = ev_pass now False es in (e # sent, e\<lparr>evt_index := 0xff\<rparr> # rest)))
         else (let (sent, rest) = ev_pass now False es in
           (e # sent, e\<lparr>evt_time := evt_time e + SECOND_DELAY * 1000, evt_index := evt_index e OR 0x80\<rparr> # rest)))
      else (let (sent, rest) = ev_pass now False es in (sent, e # rest)))"

fun send_events :: "event list \<Rightarrow> 'a bus_scheme \<Rightarrow> 'a bus_scheme option" where
  "send_events [] s = Some s"
| "send_events (e # es) s = do {
     (s, _) \<leftarrow> jd_send (unat (evt_index e AND 0x7f)) (unat (evt_cmd e)) (event_data e) s;
     send_events es s }"

section \<open>The clock is not changed by sending\<close>

lemma set_tick_timer_now [simp]: "now_us (set_tick_timer c s) = now_us s"
  by (simp add: set_tick_timer_def Let_def split_beta)

lemma jd_packet_ready_now [simp]: "now_us (jd_packet_ready s) = now_us s"
  by (simp add: jd_packet_ready_def Let_def)

lemma jd_usb_send_frame_now: "jd_usb_send_frame f s = Some (t, r) \<Longrightarrow> now_us t = now_us s"
  by (auto simp: jd_usb_send_frame_def bind_Some_iff Let_def split: if_splits)

lemma jd_rx_core_now: "jd_rx_frame_received_core f lp s = Some (t, g, r) \<Longrightarrow> now_us t = now_us s"
  by (auto simp: jd_rx_frame_received_core_def bind_Some_iff Let_def dest!: jd_usb_send_frame_now split: if_splits)

lemma jd_send_frame_now: "jd_send_frame f s = Some (t, g, r) \<Longrightarrow> now_us t = now_us s"
  by (auto simp: jd_send_frame_def jd_send_frame_raw_def jd_rx_frame_received_loopback_def bind_Some_iff
      dest!: jd_usb_send_frame_now jd_rx_core_now split: if_splits)

lemma jd_send_now: "jd_send num cmd data s = Some (t, r) \<Longrightarrow> now_us t = now_us s"
  by (auto simp: jd_send_def jd_send_frame_with_crc_def bind_Some_iff dest!: jd_send_frame_now split: if_splits)

section \<open>Access to one event\<close>

lemma length_event_bytes: "event_ok e \<Longrightarrow> length (event_bytes e) = 8 + align4 (unat (evt_size e))"
  by (simp add: event_bytes_def event_ok_def)

lemma events_bytes_simps [simp]:
  "events_bytes [] = []" "events_bytes (e # es) = event_bytes e @ events_bytes es"
  "events_bytes (xs @ ys) = events_bytes xs @ events_bytes ys"
  by (simp_all add: events_bytes_def)

lemma events_bytes_dvd: "list_all event_ok es \<Longrightarrow> 4 dvd length (events_bytes es)"
  by (induction es) (auto simp: length_event_bytes align4_dvd)

lemma event_fields:
  assumes "event_ok e" and B_def: "B = P @ event_bytes e @ X"
  shows "rd8 B (length P + 4) = Some (evt_size e)" "rd8 B (length P + 5) = Some (evt_index e)"
    "rd_mem B (length P) 4 = Some (le_bytes 4 (evt_time e))"
    "rd_mem B (length P + 6) 2 = Some (le_bytes 2 (evt_cmd e))"
    "rd_mem B (length P + 8) (unat (evt_size e)) = Some (event_data e)"
    "next_ev B (length P) = Some (length P + length (event_bytes e))"
proof -
  have b: "length (evt_body e) = align4 (unat (evt_size e))" "unat (evt_size e) \<le> align4 (unat (evt_size e))"
    using assms(1) by (simp_all add: event_ok_def align4_ge)
  show s: "rd8 B (length P + 4) = Some (evt_size e)" "rd8 B (length P + 5) = Some (evt_index e)"
    by (simp_all add: B_def event_bytes_def rd8_def nth_append)
  show "rd_mem B (length P) 4 = Some (le_bytes 4 (evt_time e))"
    "rd_mem B (length P + 6) 2 = Some (le_bytes 2 (evt_cmd e))"
    "rd_mem B (length P + 8) (unat (evt_size e)) = Some (event_data e)"
    using b by (simp_all add: B_def event_bytes_def rd_mem_def event_data_def)
  show "next_ev B (length P) = Some (length P + length (event_bytes e))"
    using s(1) assms(1) by (simp add: next_ev_def ev_size_def length_event_bytes)
qed

lemma event_set_index:
  "wr8 (P @ event_bytes e @ X) (length P + 5) i = Some (P @ event_bytes (e\<lparr>evt_index := i\<rparr>) @ X)"
  by (simp add: wr8_def event_bytes_def list_update_append)

lemma event_set_time:
  "wr_mem (P @ event_bytes e @ X) (length P) (le_bytes 4 (t :: 32 word)) = Some (P @ event_bytes (e\<lparr>evt_time := t\<rparr>) @ X)"
  by (simp add: wr_mem_def patch_def event_bytes_def)

lemma event_ok_upd [simp]: "event_ok (e\<lparr>evt_index := i\<rparr>) = event_ok e" "event_ok (e\<lparr>evt_time := t\<rparr>) = event_ok e"
  by (simp_all add: event_ok_def)

lemma length_event_upd [simp]: "length (event_bytes (e\<lparr>evt_index := i\<rparr>)) = length (event_bytes e)"
  "length (event_bytes (e\<lparr>evt_time := t\<rparr>)) = length (event_bytes e)"
  by (simp_all add: event_bytes_def)

lemma ev_shift_eq:
  assumes "event_ok e" "list_all event_ok es" "ev_buffer info = Some (event_bytes e @ events_bytes es @ R)"
    and "qptr info = length (event_bytes e @ events_bytes es)" "qptr info < 65536"
  shows "\<exists>R'. ev_shift info = Some (info\<lparr>ev_buffer := Some (events_bytes es @ R'), qptr := length (events_bytes es)\<rparr>) \<and>
    length R' = length R + length (event_bytes e)"
proof -
  let ?B = "event_bytes e @ events_bytes es @ R" and ?n = "length (events_bytes es)"
  have sz: "ev_size ?B 0 = Some (length (event_bytes e))"
    using event_fields(1) [OF assms(1), of ?B "[]" "events_bytes es @ R"] length_event_bytes [OF assms(1)] by (simp add: ev_size_def)
  have q: "u16 (qptr info + (65536 - u16 (length (event_bytes e)))) = ?n"
    using assms(4,5) by (simp add: u16_def)
  have d: "4 dvd length (event_bytes e)" "4 dvd ?n"
    using assms(1,2) by (simp_all add: length_event_bytes align4_dvd events_bytes_dvd)
  have "jd_word_move ?B 0 (length (event_bytes e)) ?n = Some (patch ?B 0 (events_bytes es))"
    using d by (subst jd_word_move_patch) simp_all
  then have "ev_shift info = Some (info\<lparr>ev_buffer := Some (patch ?B 0 (events_bytes es)), qptr := ?n\<rparr>)"
    using sz q assms(3) by (simp add: ev_shift_def Let_def)
  then show ?thesis by (intro exI [of _ "drop ?n ?B"]) (simp add: patch_def)
qed

section \<open>The loop implements the pass\<close>

text \<open>The buffer holds the events \<open>pre @ es\<close>.\<close>

definition ev_holds :: "event list \<Rightarrow> event_info \<Rightarrow> bool" where
  "ev_holds es info \<longleftrightarrow> list_all event_ok es \<and> qptr info = length (events_bytes es) \<and>
     (\<exists>R. ev_buffer info = Some (events_bytes es @ R) \<and> length (events_bytes es @ R) \<le> 240)"

definition main_ok :: "'a bus_scheme \<Rightarrow> bool" where
  "main_ok s \<longleftrightarrow> bus_inv s \<and> \<not> in_irq s"

lemma send_event_ok:
  assumes "main_ok s" "event_ok e" "length (event_bytes e) \<le> 240"
  shows "\<exists>t. jd_send (unat (evt_index e AND 0x7f)) (unat (evt_cmd e)) (event_data e) s = Some (t, 0) \<and>
    main_ok t \<and> now_us t = now_us s"
proof -
  have "unat (evt_index e AND 0x7f) < 256" "unat (evt_cmd e) < 65536"
    using unsigned_less [of "evt_index e AND 0x7f"] unsigned_less [of "evt_cmd e"] by simp_all
  moreover have "length (event_data e) \<le> 232"
    using assms(2,3) align4_ge [of "unat (evt_size e)"] by (simp add: length_event_bytes event_data_def)
  ultimately show ?thesis
    using jd_send_ok [of s] assms(1) jd_send_now by (fastforce simp: main_ok_def)
qed

lemma process_events_ok:
  assumes "ev_holds (pre @ es) info" "main_ok s" "length (events_bytes es) < n"
    and "ev_pass (now_us s) (pre = []) es = (sent, rest)"
  shows "\<exists>info' t. process_events n (length (events_bytes pre)) info s = Some (info', t) \<and>
    send_events sent s = Some t \<and> main_ok t \<and> ev_holds (pre @ rest) info' \<and>
    map_option length (ev_buffer info') = map_option length (ev_buffer info) \<and> ev_counter info' = ev_counter info"
  using assms
proof (induction es arbitrary: pre info s n sent rest)
  case Nil
  then obtain m where "n = Suc m" by (cases n) auto
  with Nil show ?case by (auto simp: ev_holds_def)
next
  case (Cons e es)
  then obtain m where m: "n = Suc m" by (cases n) auto
  obtain R where ok: "list_all event_ok pre" "event_ok e" "list_all event_ok es"
    and q: "qptr info = length (events_bytes pre) + length (event_bytes e) + length (events_bytes es)"
    and B: "ev_buffer info = Some (events_bytes pre @ event_bytes e @ events_bytes es @ R)"
    and len: "length (events_bytes pre @ event_bytes e @ events_bytes es @ R) \<le> 240"
    using Cons.prems(1) by (auto simp: ev_holds_def)
  let ?B = "events_bytes pre @ event_bytes e @ events_bytes es @ R" and ?p = "length (events_bytes pre)"
  note f = event_fields [OF ok(2), of ?B "events_bytes pre" "events_bytes es @ R", OF refl]
  have pos: "8 \<le> length (event_bytes e)" using ok(2) by (simp add: length_event_bytes)
  have fuel: "length (events_bytes es) < m" using Cons.prems(3) m pos by simp
  have lt: "?p < qptr info" using q pos by linarith
  have zero: "?p = 0 \<longleftrightarrow> pre = []"
  proof (cases pre)
    case (Cons a as)
    then show ?thesis using ok(1) length_event_bytes [of a] by simp
  qed simp
  \<comment> \<open>the event stays, possibly changed to \<open>e'\<close>\<close>
  have stay: ?case if e': "event_ok e'" "length (event_bytes e') = length (event_bytes e)" and s1: "main_ok s1"
      "now_us s1 = now_us s" and sent: "ev_pass (now_us s) False es = (sent', rest')" "rest = e' # rest'"
      "send_events sent s = send_events sent' s1"
    and step: "process_events n ?p info s = process_events m (?p + length (event_bytes e))
        (info\<lparr>ev_buffer := Some (events_bytes pre @ event_bytes e' @ events_bytes es @ R)\<rparr>) s1"
    for e' s1 sent' rest'
  proof -
    let ?i = "info\<lparr>ev_buffer := Some (events_bytes pre @ event_bytes e' @ events_bytes es @ R)\<rparr>"
    have "ev_holds ((pre @ [e']) @ es) ?i"
      using ok e' q len by (auto simp: ev_holds_def)
    moreover have "ev_pass (now_us s1) (pre @ [e'] = []) es = (sent', rest')" using s1(2) sent(1) by simp
    ultimately show ?thesis
      using Cons.IH [of "pre @ [e']" ?i s1 m sent' rest'] s1(1) fuel sent(2,3) step e'(2) B by auto
  qed
  \<comment> \<open>the event is removed from the front\<close>
  have gone: ?case if hd: "pre = []" and s1: "main_ok s1" "now_us s1 = now_us s"
      and sent: "ev_pass (now_us s) True es = (sent', rest)" "send_events sent s = send_events sent' s1"
    and step: "process_events n ?p info s = do { info \<leftarrow> ev_shift info; process_events m 0 info s1 }"
    for s1 sent'
  proof -
    obtain R' where R': "ev_shift info = Some (info\<lparr>ev_buffer := Some (events_bytes es @ R'), qptr := length (events_bytes es)\<rparr>)"
      "length R' = length R + length (event_bytes e)"
      using ev_shift_eq [OF ok(2,3), of info R] B q hd len by auto
    let ?i = "info\<lparr>ev_buffer := Some (events_bytes es @ R'), qptr := length (events_bytes es)\<rparr>"
    have "ev_holds ([] @ es) ?i" using ok len R'(2) by (auto simp: ev_holds_def)
    moreover have "ev_pass (now_us s1) ([] = ([] :: event list)) es = (sent', rest)" using s1(2) sent(1) by simp
    ultimately show ?thesis
      using Cons.IH [of "[]" ?i s1 m sent' rest] s1(1) fuel sent(2) step R' B hd by auto
  qed
  have id: "info\<lparr>ev_buffer := Some ?B\<rparr> = info" using B by simp
  have "length (event_bytes e) \<le> 240" using len by simp
  from send_event_ok [OF Cons.prems(2) ok(2) this] obtain t where
    t: "jd_send (unat (evt_index e AND 0x7f)) (unat (evt_cmd e)) (event_data e) s = Some (t, 0)" "main_ok t" "now_us t = now_us s"
    by blast
  define e1 where "e1 = e\<lparr>evt_index := 0xff\<rparr>"
  define e2 where "e2 = e\<lparr>evt_time := evt_time e + SECOND_DELAY * 1000, evt_index := evt_index e OR 0x80\<rparr>"
  let ?B1 = "events_bytes pre @ event_bytes e1 @ events_bytes es @ R"
  let ?B2 = "events_bytes pre @ event_bytes e2 @ events_bytes es @ R"
  have w: "wr8 ?B (?p + 5) 0xff = Some ?B1"
    "do { b \<leftarrow> wr_mem ?B ?p (le_bytes 4 (evt_time e + SECOND_DELAY * 1000)); wr8 b (?p + 5) (evt_index e OR 0x80) } = Some ?B2"
    by (simp_all add: event_set_index event_set_time e1_def e2_def)
  have nx: "next_ev ?B1 ?p = Some (?p + length (event_bytes e))" "next_ev ?B2 ?p = Some (?p + length (event_bytes e))"
    using event_fields(6) [of e1 ?B1 "events_bytes pre"] event_fields(6) [of e2 ?B2 "events_bytes pre"] ok(2)
    by (simp_all add: e1_def e2_def)
  have ez: "event_ok e1" "length (event_bytes e1) = length (event_bytes e)" "event_ok e2" "length (event_bytes e2) = length (event_bytes e)"
    using ok(2) by (simp_all add: e1_def e2_def)
  have step: "process_events n ?p info s =
      (if evt_index e = 0xff then
         (if ?p = 0 then do { info \<leftarrow> ev_shift info; process_events m 0 info s }
          else process_events m (?p + length (event_bytes e)) (info\<lparr>ev_buffer := Some ?B\<rparr>) s)
       else if in_past (now_us s) (evt_time e) then
         (if evt_index e AND 0x80 \<noteq> 0 then
            (if ?p = 0 then do { info \<leftarrow> ev_shift info; process_events m 0 info t }
             else process_events m (?p + length (event_bytes e)) (info\<lparr>ev_buffer := Some ?B1\<rparr>) t)
          else process_events m (?p + length (event_bytes e)) (info\<lparr>ev_buffer := Some ?B2\<rparr>) t)
       else process_events m (?p + length (event_bytes e)) (info\<lparr>ev_buffer := Some ?B\<rparr>) s)"
  proof -
    obtain b' where b': "wr_mem ?B ?p (le_bytes 4 (evt_time e + SECOND_DELAY * 1000)) = Some b'"
      "wr8 b' (?p + 5) (evt_index e OR 0x80) = Some ?B2"
      using w(2) by (auto simp: bind_Some_iff)
    show ?thesis unfolding id m by (simp add: lt B f t(1) w(1) nx b')
  qed
  note zero' = zero [unfolded length_0_conv]
  obtain xs ys where ff: "ev_pass (now_us s) False es = (xs, ys)" by fastforce
  obtain us vs where tt: "ev_pass (now_us s) True es = (us, vs)" by fastforce
  consider (marker) "evt_index e = 0xff" | (wait) "evt_index e \<noteq> 0xff" "\<not> in_past (now_us s) (evt_time e)"
    | (second) "evt_index e \<noteq> 0xff" "in_past (now_us s) (evt_time e)" "evt_index e AND 0x80 \<noteq> 0"
    | (first) "evt_index e \<noteq> 0xff" "in_past (now_us s) (evt_time e)" "evt_index e AND 0x80 = 0" by blast
  then show ?case
  proof cases
    case marker
    then show ?thesis
      using Cons.prems(4) ff tt gone [of s us] stay [of e s xs ys] step ok(2) Cons.prems(2) zero
      by (cases "pre = []") auto
  next
    case wait
    then show ?thesis
      using Cons.prems(4) ff stay [of e s xs ys] step ok(2) Cons.prems(2) by auto
  next
    case second
    then show ?thesis
      using Cons.prems(4) ff tt gone [of t us] stay [of e1 t xs ys] step t zero ez
      by (cases "pre = []") (auto simp: e1_def)
  next
    case first
    then show ?thesis
      using Cons.prems(4) ff stay [of e2 t xs ys] step t ez by (auto simp: e2_def)
  qed
qed

section \<open>Queueing an event\<close>

lemma make_room_ok:
  "ev_holds es info \<Longrightarrow> length (events_bytes es) < n \<Longrightarrow> reqlen \<le> qsz \<Longrightarrow>
     \<exists>k info'. make_room n qsz reqlen info = Some info' \<and> ev_holds (drop k es) info' \<and>
       qptr info' + reqlen \<le> qsz \<and> ev_counter info' = ev_counter info \<and>
       map_option length (ev_buffer info') = map_option length (ev_buffer info) \<and>
       (k = 0 \<longleftrightarrow> qptr info + reqlen \<le> qsz)"
proof (induction es arbitrary: info n)
  case Nil
  then obtain m where "n = Suc m" by (cases n) auto
  with Nil show ?case by (intro exI [of _ 0] exI [of _ info]) (auto simp: ev_holds_def)
next
  case (Cons e es)
  then obtain m where m: "n = Suc m" by (cases n) auto
  show ?case
  proof (cases "qptr info + reqlen \<le> qsz")
    case True
    then show ?thesis using Cons.prems m by (intro exI [of _ 0] exI [of _ info]) auto
  next
    case False
    obtain R where ok: "event_ok e" "list_all event_ok es" and q: "qptr info = length (event_bytes e @ events_bytes es)"
      and B: "ev_buffer info = Some (event_bytes e @ events_bytes es @ R)"
      and len: "length (event_bytes e @ events_bytes es @ R) \<le> 240"
      using Cons.prems(1) by (auto simp: ev_holds_def)
    have "qptr info < 65536" using q len by simp
    from ev_shift_eq [OF ok B q this] obtain R' where R': "ev_shift info =
        Some (info\<lparr>ev_buffer := Some (events_bytes es @ R'), qptr := length (events_bytes es)\<rparr>)"
      "length R' = length R + length (event_bytes e)" by blast
    let ?i = "info\<lparr>ev_buffer := Some (events_bytes es @ R'), qptr := length (events_bytes es)\<rparr>"
    have h: "ev_holds es ?i" using ok len R'(2) by (auto simp: ev_holds_def)
    have "length (events_bytes es) < m" using Cons.prems(2) m ok(1) by (simp add: length_event_bytes)
    from Cons.IH [OF h this Cons.prems(3)] obtain k info' where
      "make_room m qsz reqlen ?i = Some info'" "ev_holds (drop k es) info'" "qptr info' + reqlen \<le> qsz"
      "ev_counter info' = ev_counter info" "map_option length (ev_buffer info') = Some (length (events_bytes es @ R'))"
      by auto
    with False m R' B show ?thesis by (intro exI [of _ "Suc k"] exI [of _ info']) auto
  qed
qed

definition new_event :: "32 word \<Rightarrow> nat \<Rightarrow> nat \<Rightarrow> mem \<Rightarrow> mem \<Rightarrow> event" where
  "new_event now idx cmd data pad = \<lparr>evt_time = now + FIRST_DELAY * 1000, evt_index = of_nat idx, evt_cmd = of_nat cmd,
     evt_size = of_nat (length data), evt_body = data @ pad\<rparr>"

lemma drop_8: "drop (8 + n) (a # b # c # d # e # f # g # h # xs) = drop n xs"
  by (simp add: eval_nat_numeral)

lemma append_event_eq:
  assumes "ev_holds es info" "ev_buffer info = Some b" "length b = qsz" "4 dvd qsz"
    and "qptr info + (length data + 8) \<le> qsz" "length data \<le> 232"
  shows "\<exists>pad b' sz. do {
      b \<leftarrow> wr8 b (qptr info + 4) (of_nat (length data));
      b \<leftarrow> wr_mem b (qptr info + 6) (le_bytes 2 (of_nat cmd :: 16 word));
      b \<leftarrow> wr8 b (qptr info + 5) (of_nat idx);
      b \<leftarrow> wr_mem b (qptr info + 8) data;
      b \<leftarrow> wr_mem b (qptr info) (le_bytes 4 (now + FIRST_DELAY * 1000));
      sz \<leftarrow> ev_size b (qptr info);
      Some (info\<lparr>ev_buffer := Some b, qptr := u16 (qptr info + sz)\<rparr>) } =
        Some (info\<lparr>ev_buffer := Some b', qptr := u16 (qptr info + sz)\<rparr>) \<and> length b' = qsz \<and>
      ev_holds (es @ [new_event now idx cmd data pad]) (info\<lparr>ev_buffer := Some b', qptr := u16 (qptr info + sz)\<rparr>)"
proof -
  obtain R where ok: "list_all event_ok es" and q: "qptr info = length (events_bytes es)"
    and b: "b = events_bytes es @ R" and len: "length b \<le> 240"
    using assms(1,2) by (auto simp: ev_holds_def)
  define k where "k = align4 (length data)"
  have "4 dvd length R" using assms(3,4) b events_bytes_dvd [OF ok] by (metis dvd_add_right_iff length_append)
  moreover have "length data + 8 \<le> length R" using assms(3,5) b q by simp
  moreover have "align4 (length data + 8) = 8 + k" using align4_add [of 8 "length data"] by (simp add: k_def add.commute)
  ultimately have R: "8 + k \<le> length R" using align4_least [of "length data + 8" "length R"] by simp
  have dk: "length data \<le> k" "length data < 256" using assms(6) by (simp_all add: k_def align4_ge)
  define H where "H = take 8 R"
  define D where "D = take k (drop 8 R)"
  define Z where "Z = drop (8 + k) R"
  define pad where "pad = drop (length data) D"
  have RR: "R = H @ D @ Z" "length H = 8" "length D = k"
    using R by (simp_all add: H_def D_def Z_def) (metis append_take_drop_id drop_drop add.commute)
  obtain h0 h1 h2 h3 h4 h5 h6 h7 where H: "H = [h0, h1, h2, h3, h4, h5, h6, h7]"
    using RR(2) by (auto simp: length_Suc_conv eval_nat_numeral)
  let ?e = "new_event now idx cmd data pad"
  let ?b = "events_bytes es @ event_bytes ?e @ Z"
  have e: "event_ok ?e" using dk RR(3) by (simp add: event_ok_def new_event_def pad_def k_def unat_of_nat_byte)
  obtain c0 c1 where c: "le_bytes 2 (of_nat cmd :: 16 word) = [c0, c1]"
    by (simp add: numeral_2_eq_2)
  have w: "do {
      b \<leftarrow> wr8 b (qptr info + 4) (of_nat (length data));
      b \<leftarrow> wr_mem b (qptr info + 6) (le_bytes 2 (of_nat cmd :: 16 word));
      b \<leftarrow> wr8 b (qptr info + 5) (of_nat idx);
      b \<leftarrow> wr_mem b (qptr info + 8) data;
      wr_mem b (qptr info) (le_bytes 4 (now + FIRST_DELAY * 1000)) } = Some ?b"
    using dk RR(3) unfolding b RR(1) H q c
    by (simp add: wr8_def wr_mem_def patch_def list_update_append event_bytes_def new_event_def pad_def c drop_8)
  have s: "ev_size ?b (qptr info) = Some (8 + k)"
    using event_fields(1) [OF e, of ?b "events_bytes es" Z] q dk
    by (simp add: ev_size_def new_event_def k_def unat_of_nat_byte)
  have l: "length (event_bytes ?e) = 8 + k" using length_event_bytes [OF e] dk by (simp add: new_event_def k_def unat_of_nat_byte)
  have lb: "length ?b = qsz" using l assms(3) b RR by simp
  have u: "u16 (qptr info + (8 + k)) = qptr info + (8 + k)" using lb l q assms(3) len by simp
  have "ev_holds (es @ [?e]) (info\<lparr>ev_buffer := Some ?b, qptr := u16 (qptr info + (8 + k))\<rparr>)"
    using ok e lb u l q assms(3) len by (simp add: ev_holds_def)
  with w s lb show ?thesis
    by (intro exI [of _ pad] exI [of _ ?b] exI [of _ "8 + k"]) (auto simp: bind_Some_iff split: option.splits)
qed

text \<open>The queue before its first use, or holding the events \<open>es\<close> in a buffer of \<open>qsz\<close> bytes.\<close>

definition ev_queue :: "nat \<Rightarrow> event list \<Rightarrow> event_info \<Rightarrow> bool" where
  "ev_queue qsz es info \<longleftrightarrow>
     (ev_buffer info = None \<and> es = [] \<and> qptr info = 0) \<or>
     (ev_holds es info \<and> map_option length (ev_buffer info) = Some qsz)"

lemma ev_init_queue:
  assumes "ev_queue qsz es info" "qsz \<le> 240"
  shows "ev_holds es (ev_init qsz info) \<and> map_option length (ev_buffer (ev_init qsz info)) = Some qsz \<and>
    qptr (ev_init qsz info) = qptr info"
  using assms by (auto simp: ev_queue_def ev_init_def ev_holds_def split: option.splits)

lemma jd_event_cmd_lt: "JD_CMD_EVENT_MK c k < 65536"
  using unsigned_less [of "(0x8000 :: 16 word) OR push_bit 8 (ucast (c AND 0x7f)) OR (of_nat k AND 0xff)"]
  by (simp add: JD_CMD_EVENT_MK_def)

definition sample_event :: event where
  "sample_event = \<lparr>evt_time = 0, evt_index = 3, evt_cmd = 0x8101, evt_size = 1, evt_body = [5, 0, 0, 0]\<rparr>"

lemma sample_main_ok: "main_ok (bus_init 7 1 64 64 False 64)"
  using bus_init_inv(1) [of 64 64 64 7 1 False]
  by (simp add: main_ok_def bus_init_def jd_phys_start_def bus_zero_def set_tick_timer_def has_status_def)

text \<open>The work of raising an event.\<close>

lemma send_event_queues:
  assumes "ev_queue qsz es info" "main_ok s" "qsz \<le> 240" "4 dvd qsz"
    and "eventid < 256" "idx < 256" "length data + 8 \<le> qsz"
  defines "cmd \<equiv> JD_CMD_EVENT_MK (ev_counter info + 1) eventid"
  shows "\<exists>info' t k pad. jd_send_event_ext qsz idx eventid data info s = Some (info', t) \<and>
    jd_send idx cmd data s = Some (t, 0) \<and> main_ok t \<and> ev_counter info' = ev_counter info + 1 \<and>
    ev_queue qsz (drop k es @ [new_event (now_us s) idx cmd data pad]) info' \<and>
    (k = 0 \<longleftrightarrow> qptr info + (length data + 8) \<le> qsz)"
proof -
  let ?i0 = "info\<lparr>ev_counter := ev_counter info + 1\<rparr>"
  define i1 where "i1 = ev_init qsz ?i0"
  have q0: "ev_queue qsz es ?i0" using assms(1) by (auto simp: ev_queue_def ev_holds_def)
  have i1: "ev_holds es i1" "map_option length (ev_buffer i1) = Some qsz" "qptr i1 = qptr info" "ev_counter i1 = ev_counter info + 1"
    using ev_init_queue [OF q0 assms(3)] by (auto simp: i1_def ev_init_def split: option.splits)
  have cmd: "next_event_cmd eventid info = Some (?i0, cmd)" "cmd < 65536"
    using assms(5) by (simp_all add: next_event_cmd_def cmd_def Let_def jd_event_cmd_lt)
  obtain t where t: "jd_send idx cmd data s = Some (t, 0)" "main_ok t" "now_us t = now_us s"
    using jd_send_ok [of s idx cmd data] jd_send_now assms(2,3,6,7) cmd(2) by (fastforce simp: main_ok_def)
  have "length (events_bytes es) < qptr i1 + 1" using i1(1) by (simp add: ev_holds_def)
  from make_room_ok [OF i1(1) this assms(7)] obtain k i2 where
    i2: "make_room (qptr i1 + 1) qsz (length data + 8) i1 = Some i2" "ev_holds (drop k es) i2"
    "qptr i2 + (length data + 8) \<le> qsz" "ev_counter i2 = ev_counter info + 1"
    "map_option length (ev_buffer i2) = Some qsz" "k = 0 \<longleftrightarrow> qptr info + (length data + 8) \<le> qsz"
    using i1 by auto
  then obtain b where b: "ev_buffer i2 = Some b" "length b = qsz" by auto
  have "length data \<le> 232" using assms(3,7) by simp
  from append_event_eq [OF i2(2) b assms(4) i2(3) this, of cmd idx "now_us t"] obtain pad b' sz where
    ap: "do {
      b \<leftarrow> wr8 b (qptr i2 + 4) (of_nat (length data));
      b \<leftarrow> wr_mem b (qptr i2 + 6) (le_bytes 2 (of_nat cmd :: 16 word));
      b \<leftarrow> wr8 b (qptr i2 + 5) (of_nat idx);
      b \<leftarrow> wr_mem b (qptr i2 + 8) data;
      b \<leftarrow> wr_mem b (qptr i2) (le_bytes 4 (now_us t + FIRST_DELAY * 1000));
      sz \<leftarrow> ev_size b (qptr i2);
      Some (i2\<lparr>ev_buffer := Some b, qptr := u16 (qptr i2 + sz)\<rparr>) } =
        Some (i2\<lparr>ev_buffer := Some b', qptr := u16 (qptr i2 + sz)\<rparr>)" "length b' = qsz"
      "ev_holds (drop k es @ [new_event (now_us t) idx cmd data pad]) (i2\<lparr>ev_buffer := Some b', qptr := u16 (qptr i2 + sz)\<rparr>)"
    by blast
  let ?i3 = "i2\<lparr>ev_buffer := Some b', qptr := u16 (qptr i2 + sz)\<rparr>"
  have "jd_send_event_ext qsz idx eventid data info s = Some (?i3, t)"
    using ap(1) assms(2,7) cmd t(1) i2(1) b(1)
    by (auto simp: jd_send_event_ext_def main_ok_def Let_def i1_def [symmetric] bind_Some_iff split: option.splits)
  moreover have "ev_queue qsz (drop k es @ [new_event (now_us s) idx cmd data pad]) ?i3"
    using ap(2,3) t(3) by (simp add: ev_queue_def)
  ultimately show ?thesis using t i2(4,6) by auto
qed

section \<open>Properties\<close>

text \<open>C27: The event loop implements the retransmission scheme.  On every queue of events,
  \<open>jd_process_event_queue\<close> sends, in order, the events that are due, gives an event sent for the
  first time its second deadline, removes an event sent for the second time (from the front, or by
  marking it), keeps the others as they are, and stays within its buffer.\<close>

theorem event_queue_refines_pass:
  assumes "ev_queue qsz es info" "main_ok s" "ev_pass (now_us s) True es = (sent, rest)"
  shows "\<exists>info' t. jd_process_event_queue info s = Some (info', t) \<and> send_events sent s = Some t \<and>
    main_ok t \<and> ev_queue qsz rest info'"
proof (cases "ev_buffer info")
  case None
  with assms show ?thesis by (auto simp: jd_process_event_queue_def ev_queue_def ev_holds_def)
next
  case (Some b)
  then have h: "ev_holds ([] @ es) info" "map_option length (ev_buffer info) = Some qsz"
    using assms(1) by (auto simp: ev_queue_def)
  then have "length (events_bytes es) < qptr info + 1" by (simp add: ev_holds_def)
  from process_events_ok [OF h(1) assms(2) this] assms(3) obtain info' t where
    "process_events (qptr info + 1) 0 info s = Some (info', t)" "send_events sent s = Some t" "main_ok t"
    "ev_holds rest info'" "map_option length (ev_buffer info') = Some qsz"
    using h(2) by auto
  with Some show ?thesis
    by (auto simp: jd_process_event_queue_def do_process_event_queue_def ev_queue_def simp del: process_events.simps)
qed

theorem event_queue_refines_pass_witness:
  "\<exists>info' t. jd_process_event_queue \<lparr>ev_buffer = Some (event_bytes sample_event @ replicate 116 0), qptr = 12, ev_counter = 1\<rparr>
      (bus_init 7 1 64 64 False 64) = Some (info', t) \<and>
    send_events [sample_event] (bus_init 7 1 64 64 False 64) = Some t \<and> main_ok t \<and>
    ev_queue 128 [sample_event\<lparr>evt_time := 50000, evt_index := 0x83\<rparr>] info'"
proof (rule event_queue_refines_pass)
  have e: "event_ok sample_event" "length (event_bytes sample_event) = 12"
    by (simp_all add: sample_event_def event_ok_def align4_def event_bytes_def)
  then show "ev_queue 128 [sample_event] \<lparr>ev_buffer = Some (event_bytes sample_event @ replicate 116 0), qptr = 12, ev_counter = 1\<rparr>"
    by (simp add: ev_queue_def ev_holds_def)
  show "main_ok (bus_init 7 1 64 64 False 64)" by (rule sample_main_ok)
  show "ev_pass (now_us (bus_init 7 1 64 64 False 64)) True [sample_event] =
      ([sample_event], [sample_event\<lparr>evt_time := 50000, evt_index := 0x83\<rparr>])"
    by (simp add: sample_event_def bus_init_def jd_phys_start_def bus_zero_def in_past_def SECOND_DELAY_def)
qed



end
