(* ===== verification/Jd_Register.thy ===== *)
theory Jd_Register
  imports Jd_Bus
begin

text \<open>
  Replies and registers: source/jd\_send\_util.c and the register part of source/jd\_services.c.  The
  command codes come from jacdac/dist/c, which is not part of the repository; they are the record
  \<open>sys_consts\<close>.  A service's state struct is its memory, a byte list; \<open>JD_PTRSIZE\<close> is 4.
\<close>

record sys_consts =
  CMD_GET_REGISTER :: nat
  CMD_SET_REGISTER :: nat
  CMD_COMMAND_NOT_IMPLEMENTED :: nat
  REG_VARIANT :: nat
  not_implemented_report :: "16 word \<Rightarrow> 16 word \<Rightarrow> mem"

definition sys_consts_ok :: "sys_consts \<Rightarrow> bool" where
  "sys_consts_ok c \<longleftrightarrow> 4096 dvd CMD_GET_REGISTER c \<and> 4096 dvd CMD_SET_REGISTER c \<and>
     CMD_GET_REGISTER c \<noteq> CMD_SET_REGISTER c \<and> CMD_GET_REGISTER c < 65536 \<and> CMD_SET_REGISTER c < 65536 \<and>
     CMD_COMMAND_NOT_IMPLEMENTED c < 65536 \<and> REG_VARIANT c < 4096"

definition JD_GET :: "sys_consts \<Rightarrow> nat \<Rightarrow> nat" where
  "JD_GET c reg = (CMD_GET_REGISTER c OR reg)"

definition JD_SET :: "sys_consts \<Rightarrow> nat \<Rightarrow> nat" where
  "JD_SET c reg = (CMD_SET_REGISTER c OR reg)"

definition JD_IS_GET :: "sys_consts \<Rightarrow> nat \<Rightarrow> bool" where
  "JD_IS_GET c cmd \<longleftrightarrow> drop_bit 12 cmd = drop_bit 12 (CMD_GET_REGISTER c)"

definition JD_IS_SET :: "sys_consts \<Rightarrow> nat \<Rightarrow> bool" where
  "JD_IS_SET c cmd \<longleftrightarrow> drop_bit 12 cmd = drop_bit 12 (CMD_SET_REGISTER c)"

definition JD_REG_CODE :: "nat \<Rightarrow> nat" where
  "JD_REG_CODE cmd = (cmd AND 0xfff)"

section \<open>Replies (jd\_send\_util.c)\<close>

definition jd_respond_u8 :: "jd_frame \<Rightarrow> byte \<Rightarrow> 'a bus_scheme \<Rightarrow> ('a bus_scheme \<times> int) option" where
  "jd_respond_u8 pkt v s = jd_send (pkt_service_index pkt) (pkt_service_command pkt) [v] s"

definition jd_respond_u16 :: "jd_frame \<Rightarrow> 16 word \<Rightarrow> 'a bus_scheme \<Rightarrow> ('a bus_scheme \<times> int) option" where
  "jd_respond_u16 pkt v s = jd_send (pkt_service_index pkt) (pkt_service_command pkt) (le_bytes 2 v) s"

definition jd_respond_u32 :: "jd_frame \<Rightarrow> 32 word \<Rightarrow> 'a bus_scheme \<Rightarrow> ('a bus_scheme \<times> int) option" where
  "jd_respond_u32 pkt v s = jd_send (pkt_service_index pkt) (pkt_service_command pkt) (le_bytes 4 v) s"

definition jd_respond_empty :: "jd_frame \<Rightarrow> 'a bus_scheme \<Rightarrow> ('a bus_scheme \<times> int) option" where
  "jd_respond_empty pkt s = jd_send (pkt_service_index pkt) (pkt_service_command pkt) [] s"

text \<open>A string argument is its text without the terminator, \<open>None\<close> the null pointer.\<close>

definition jd_respond_string :: "jd_frame \<Rightarrow> mem option \<Rightarrow> 'a bus_scheme \<Rightarrow> ('a bus_scheme \<times> int) option" where
  "jd_respond_string pkt str s =
     (case str of None \<Rightarrow> jd_respond_empty pkt s
      | Some [] \<Rightarrow> jd_respond_empty pkt s
      | Some t \<Rightarrow> jd_send (pkt_service_index pkt) (pkt_service_command pkt) t s)"

definition jd_send_not_implemented :: "sys_consts \<Rightarrow> jd_frame \<Rightarrow> 'a bus_scheme \<Rightarrow> ('a bus_scheme \<times> int) option" where
  "jd_send_not_implemented c pkt s =
     (if flag_set pkt JD_FRAME_FLAG_BROADCAST then Some (s, 0)
      else jd_send (pkt_service_index pkt) (CMD_COMMAND_NOT_IMPLEMENTED c)
        (not_implemented_report c (of_nat (pkt_service_command pkt)) (frm_crc pkt)) s)"

definition jd_send_pkt :: "jd_frame \<Rightarrow> 'a bus_scheme \<Rightarrow> ('a bus_scheme \<times> jd_frame \<times> int) option" where
  "jd_send_pkt pkt s = do {
     f \<leftarrow> jd_compute_crc (pkt\<lparr>frm_size := of_nat (pkt_service_size pkt + 4)\<rparr>);
     jd_send_frame f s }"

definition jd_block_register :: "sys_consts \<Rightarrow> jd_frame \<Rightarrow> nat \<Rightarrow> 'a bus_scheme \<Rightarrow> ('a bus_scheme \<times> int) option" where
  "jd_block_register c pkt reg_code s =
     (if pkt_service_command pkt = JD_GET c reg_code \<or> pkt_service_command pkt = JD_SET c reg_code
      then map_option (\<lambda>(s, _). (s, 1)) (jd_send_not_implemented c pkt s)
      else Some (s, 0))"

section \<open>Register descriptions (jd\_service\_framework.h)\<close>

definition T_REG_BIT :: nat where "T_REG_BIT = 8"
definition T_REG_BYTES :: nat where "T_REG_BYTES = 9"
definition T_REG_OPT8 :: nat where "T_REG_OPT8 = 10"
definition JD_REG_END :: nat where "JD_REG_END = 0xff1"

lemmas reg_types = T_REG_BIT_def T_REG_BYTES_def T_REG_OPT8_def JD_REG_END_def

definition regSize :: "nat list" where
  "regSize = [1, 1, 2, 2, 4, 4, 4, 8, 1, 0, 1, 2, 4, 4, 0, 0]"

definition REG_IS_SIGNED :: "nat \<Rightarrow> bool" where
  "REG_IS_SIGNED r \<longleftrightarrow> r \<le> 4 \<and> even r"

definition REG_IS_OPT :: "nat \<Rightarrow> bool" where
  "REG_IS_OPT r \<longleftrightarrow> r \<ge> T_REG_OPT8"

definition is_zero :: "mem \<Rightarrow> bool" where
  "is_zero p = list_all (\<lambda>b. b = 0) p"

text \<open>The alignment step of the loop.\<close>

definition reg_align :: "nat \<Rightarrow> nat \<Rightarrow> nat \<Rightarrow> nat \<Rightarrow> nat \<times> nat" where
  "reg_align tp regsz offset bitoffset =
     (if tp \<noteq> T_REG_BIT \<and> tp \<noteq> T_REG_BYTES then
        (let offset = (if bitoffset \<noteq> 0 then offset + 1 else offset);
             align = (if regsz < 4 then regsz - 1 else 3) in
         ((offset + align) div (align + 1) * (align + 1), 0))
      else (offset, bitoffset))"

definition reg_advance :: "nat \<Rightarrow> nat \<Rightarrow> nat \<Rightarrow> nat \<Rightarrow> nat \<times> nat" where
  "reg_advance tp regsz offset bitoffset =
     (if tp = T_REG_BIT then (if bitoffset + 1 = 8 then (offset + 1, 0) else (offset, bitoffset + 1))
      else (offset + regsz, bitoffset))"

text \<open>The loop of \<open>service_handle_register\<close> up to the matching entry: its type, size, offset and bit.
  \<open>None\<close> is the panic on an entry without a size, \<open>Some None\<close> that no entry matches.\<close>

fun reg_find :: "nat \<Rightarrow> nat list \<Rightarrow> nat \<Rightarrow> nat \<Rightarrow> (nat \<times> nat \<times> nat \<times> nat) option option" where
  "reg_find reg [] offset bitoffset = None"
| "reg_find reg (sd # rest) offset bitoffset =
     (if sd = JD_REG_END then Some None
      else let tp = sd div 4096 in
        if tp = T_REG_BYTES then
          (case rest of
             [] \<Rightarrow> None
           | regsz # rest' \<Rightarrow>
               if regsz = 0 then None
               else if sd mod 4096 = reg then Some (Some (tp, regsz, offset, bitoffset))
               else (case reg_advance tp regsz offset bitoffset of (o', b') \<Rightarrow> reg_find reg rest' o' b'))
        else
          let regsz = regSize ! tp in
          if regsz = 0 then None
          else (case reg_align tp regsz offset bitoffset of (offset, bitoffset) \<Rightarrow>
            if sd mod 4096 = reg then Some (Some (tp, regsz, offset, bitoffset))
            else (case reg_advance tp regsz offset bitoffset of (o', b') \<Rightarrow> reg_find reg rest o' b')))"

definition reg_read :: "jd_frame \<Rightarrow> nat \<times> nat \<times> nat \<times> nat \<Rightarrow> nat \<Rightarrow> mem \<Rightarrow> 'a bus_scheme \<Rightarrow>
    (mem \<times> 'a bus_scheme \<times> int) option" where
  "reg_read pkt d reg state s =
     (case d of (tp, regsz, offset, bitoffset) \<Rightarrow>
        if tp = T_REG_BIT then do {
          b \<leftarrow> rd8 state offset;
          (s, _) \<leftarrow> jd_send (pkt_service_index pkt) (pkt_service_command pkt) [if bit b bitoffset then 1 else 0] s;
          Some (state, s, - int reg) }
        else do {
          v \<leftarrow> rd_mem state offset regsz;
          if REG_IS_OPT tp \<and> is_zero v then Some (state, s, 0)
          else do {
            (s, _) \<leftarrow> jd_send (pkt_service_index pkt) (pkt_service_command pkt) v s;
            Some (state, s, - int reg) } })"

definition reg_write :: "jd_frame \<Rightarrow> nat \<times> nat \<times> nat \<times> nat \<Rightarrow> nat \<Rightarrow> mem \<Rightarrow> 'a bus_scheme \<Rightarrow>
    (mem \<times> 'a bus_scheme \<times> int) option" where
  "reg_write pkt d reg state s =
     (case d of (tp, regsz, offset, bitoffset) \<Rightarrow>
        let sz = pkt_service_size pkt in
        if tp = T_REG_BIT then do {
          v \<leftarrow> rd8 (frm_data pkt) 4;
          b \<leftarrow> rd8 state offset;
          state \<leftarrow> wr8 state offset (if v \<noteq> 0 then set_bit bitoffset b else unset_bit bitoffset b);
          Some (state, s, int reg) }
        else if regsz \<le> sz then do {
          v \<leftarrow> rd_mem (frm_data pkt) 4 regsz;
          state \<leftarrow> wr_mem state offset v;
          Some (state, s, int reg) }
        else do {
          v \<leftarrow> rd_mem (frm_data pkt) 4 sz;
          state \<leftarrow> wr_mem state offset v;
          top \<leftarrow> rd8 (frm_data pkt) (4 + sz - 1);
          let fill = (if \<not> REG_IS_SIGNED tp then 0 else if top AND 0x80 \<noteq> 0 then 0xff else 0);
          state \<leftarrow> wr_mem state (offset + sz) (replicate (regsz - sz) fill);
          Some (state, s, int reg) })"

definition service_handle_register ::
  "sys_consts \<Rightarrow> mem \<Rightarrow> jd_frame \<Rightarrow> nat list \<Rightarrow> 'a bus_scheme \<Rightarrow> (mem \<times> 'a bus_scheme \<times> int) option" where
  "service_handle_register c state pkt sdesc s =
     (let cmd = pkt_service_command pkt; is_get = JD_IS_GET c cmd; is_set = JD_IS_SET c cmd; reg = JD_REG_CODE cmd in
      if \<not> is_get \<and> \<not> is_set then Some (state, s, 0)
      else if is_set \<and> pkt_service_size pkt = 0 then Some (state, s, 0)
      else if reg \<ge> 0xf00 then Some (state, s, 0)
      else if is_set \<and> (reg AND 0xf00) = 0x100 then Some (state, s, 0)
      else do {
        found \<leftarrow> reg_find reg sdesc 0 0;
        case found of
          None \<Rightarrow> Some (state, s, 0)
        | Some d \<Rightarrow> if is_get then reg_read pkt d reg state s else reg_write pkt d reg state s })"

definition service_handle_register_final ::
  "sys_consts \<Rightarrow> mem \<Rightarrow> jd_frame \<Rightarrow> nat list \<Rightarrow> 'a bus_scheme \<Rightarrow> (mem \<times> 'a bus_scheme \<times> int) option" where
  "service_handle_register_final c state pkt sdesc s = do {
     (state, s, r) \<leftarrow> service_handle_register c state pkt sdesc s;
     s \<leftarrow> (if r = 0 then map_option fst (jd_send_not_implemented c pkt s) else Some s);
     Some (state, s, r) }"

definition service_handle_string_register ::
  "sys_consts \<Rightarrow> jd_frame \<Rightarrow> nat \<Rightarrow> mem \<Rightarrow> 'a bus_scheme \<Rightarrow> ('a bus_scheme \<times> int) option" where
  "service_handle_string_register c pkt reg_code v s =
     (if pkt_service_command pkt = JD_GET c reg_code then do {
        (s, _) \<leftarrow> jd_send (pkt_service_index pkt) (pkt_service_command pkt) v s;
        Some (s, - int reg_code) }
      else Some (s, 0))"

definition service_handle_variant :: "sys_consts \<Rightarrow> jd_frame \<Rightarrow> byte \<Rightarrow> 'a bus_scheme \<Rightarrow> ('a bus_scheme \<times> int) option" where
  "service_handle_variant c pkt variant s =
     (if pkt_service_command pkt = JD_GET c (REG_VARIANT c) then do {
        (s, _) \<leftarrow> jd_respond_u8 pkt variant s;
        Some (s, - int (REG_VARIANT c)) }
      else Some (s, 0))"

section \<open>Command codes\<close>

lemma or_reg:
  fixes a :: nat
  assumes "4096 dvd a" "reg < 4096"
  shows "a OR reg = a + reg" "(a OR reg) AND 0xfff = reg" "drop_bit 12 (a OR reg) = drop_bit 12 a"
proof -
  obtain k where k: "a = push_bit 12 k" using assms(1) by (auto simp: push_bit_eq_mult dvd_def mult.commute)
  have r: "reg = take_bit 12 reg" using assms(2) by (simp add: take_bit_eq_mod)
  have f: "(0xfff :: nat) = Bit_Operations.mask 12" by (simp add: mask_eq_exp_minus_1)
  have lt: "bit reg n \<Longrightarrow> n < 12" for n by (subst (asm) r) (simp add: bit_take_bit_iff)
  have "a + reg = a OR reg" using lt not_less by (intro disjunctive_add) (fastforce simp: k bit_push_bit_iff)
  then show "a OR reg = a + reg" by simp
  show "(a OR reg) AND 0xfff = reg"
    unfolding f by (rule bit_eqI) (use lt in \<open>auto simp: k bit_simps\<close>)
  show "drop_bit 12 (a OR reg) = drop_bit 12 a"
    by (rule bit_eqI) (use lt in \<open>auto simp: k bit_simps dest: lt\<close>)
qed

lemma jd_get_code:
  assumes "sys_consts_ok c" "reg < 4096"
  shows "JD_IS_GET c (JD_GET c reg)" "\<not> JD_IS_SET c (JD_GET c reg)" "JD_REG_CODE (JD_GET c reg) = reg"
    "JD_IS_SET c (JD_SET c reg)" "\<not> JD_IS_GET c (JD_SET c reg)" "JD_REG_CODE (JD_SET c reg) = reg"
proof -
  have d: "4096 dvd CMD_GET_REGISTER c" "4096 dvd CMD_SET_REGISTER c" "CMD_GET_REGISTER c \<noteq> CMD_SET_REGISTER c"
    using assms(1) by (simp_all add: sys_consts_ok_def)
  then have ne: "drop_bit 12 (CMD_GET_REGISTER c) \<noteq> drop_bit 12 (CMD_SET_REGISTER c)"
    by (auto simp: drop_bit_eq_div)
  note o = or_reg [OF d(1) assms(2)] or_reg [OF d(2) assms(2)]
  show "JD_IS_GET c (JD_GET c reg)" "\<not> JD_IS_SET c (JD_GET c reg)" "JD_REG_CODE (JD_GET c reg) = reg"
    "JD_IS_SET c (JD_SET c reg)" "\<not> JD_IS_GET c (JD_SET c reg)" "JD_REG_CODE (JD_SET c reg) = reg"
    using o ne by (simp_all add: JD_IS_GET_def JD_IS_SET_def JD_GET_def JD_SET_def JD_REG_CODE_def)
qed

section \<open>Writing and reading back\<close>

text \<open>The value a register of \<open>regsz\<close> bytes gets from the payload \<open>d\<close>.\<close>

definition reg_fit :: "bool \<Rightarrow> nat \<Rightarrow> mem \<Rightarrow> mem" where
  "reg_fit sg regsz d =
     (if regsz \<le> length d then take regsz d
      else d @ replicate (regsz - length d) (if sg \<and> last d AND 0x80 \<noteq> 0 then 0xff else 0))"

lemma length_reg_fit [simp]: "length (reg_fit sg n d) = n"
  by (simp add: reg_fit_def)

lemma reg_write_eq:
  assumes "tp \<noteq> T_REG_BIT" "off + regsz \<le> length state" "0 < pkt_service_size pkt"
    and "4 + pkt_service_size pkt \<le> length (frm_data pkt)"
  shows "reg_write pkt (tp, regsz, off, b) reg state s =
    Some (patch state off (reg_fit (REG_IS_SIGNED tp) regsz (pkt_data pkt)), s, int reg)"
proof -
  let ?n = "pkt_service_size pkt" and ?d = "pkt_data pkt"
  have d: "length ?d = ?n" "rd_mem (frm_data pkt) 4 ?n = Some ?d" using assms(4) by (simp_all add: pkt_data_def)
  show ?thesis
  proof (cases "regsz \<le> ?n")
    case True
    then have "rd_mem (frm_data pkt) 4 regsz = Some (take regsz ?d)" using assms(4) by (simp add: pkt_data_def min_def)
    with True assms d show ?thesis by (simp add: reg_write_def reg_fit_def Let_def min_def)
  next
    case False
    have ne: "?d \<noteq> []" using d(1) assms(3) by auto
    have top: "rd8 (frm_data pkt) (4 + ?n - 1) = Some (last ?d)"
      using assms(3,4) d(1) ne by (simp add: rd8_def pkt_data_def last_conv_nth)
    have pp: "patch (patch state off ?d) (off + ?n) (replicate (regsz - ?n) f) = patch state off (?d @ replicate (regsz - ?n) f)" for f
      using patch_patch_append [of off ?d "replicate (regsz - ?n) f" state] assms(2) False d(1) by simp
    show ?thesis
      using False assms d top by (simp add: reg_write_def Let_def reg_fit_def pp)
  qed
qed

section \<open>Layout\<close>

text \<open>A byte array must not follow an incomplete group of bits: \<open>b\<close> tells that such a group is open.\<close>

fun layout_ok :: "nat list \<Rightarrow> nat \<Rightarrow> bool" where
  "layout_ok [] b = True"
| "layout_ok (sd # rest) b =
     (if sd = JD_REG_END then True
      else let tp = sd div 4096 in
        if tp = T_REG_BYTES then (case rest of [] \<Rightarrow> True | _ # rest' \<Rightarrow> b = 0 \<and> layout_ok rest' 0)
        else if tp = T_REG_BIT then layout_ok rest (if b + 1 = 8 then 0 else b + 1)
        else layout_ok rest 0)"

fun reg_first_bit :: "nat \<times> nat \<times> nat \<times> nat \<Rightarrow> nat" where
  "reg_first_bit (tp, regsz, off, b) = 8 * off + b"

fun reg_end_bit :: "nat \<times> nat \<times> nat \<times> nat \<Rightarrow> nat" where
  "reg_end_bit (tp, regsz, off, b) = 8 * off + b + (if tp = T_REG_BIT then 1 else 8 * regsz)"

lemma reg_align_ge:
  assumes "b < 8" "reg_align tp regsz off b = (off', b')"
  shows "8 * off + b \<le> 8 * off' + b'" "b' < 8" "tp \<noteq> T_REG_BIT \<Longrightarrow> tp \<noteq> T_REG_BYTES \<Longrightarrow> b' = 0"
    "tp = T_REG_BIT \<Longrightarrow> b' = b"
proof -
  have up: "o1 \<le> (o1 + a) div (a + 1) * (a + 1)" for o1 a :: nat
    using div_mult_mod_eq [of "o1 + a" "a + 1"] mod_less_divisor [of "a + 1" "o1 + a"] by linarith
  have ge: "(if b \<noteq> 0 then off + 1 else off) \<le> ((if b \<noteq> 0 then off + 1 else off) + a) div (a + 1) * (a + 1)" for a :: nat
    by (rule up)
  show "8 * off + b \<le> 8 * off' + b'"
    using assms ge [of "if regsz < 4 then regsz - 1 else 3"]
    by (auto simp: reg_align_def Let_def split: if_splits)
qed (use assms in \<open>auto simp: reg_align_def Let_def split: if_splits\<close>)

lemma reg_advance_end:
  assumes "reg_advance tp regsz off b = (o', b')" "b < 8" "tp \<noteq> T_REG_BIT \<Longrightarrow> b = 0"
  shows "8 * o' + b' = reg_end_bit (tp, regsz, off, b)" "b' < 8"
    "b' = (if tp = T_REG_BIT then if b + 1 = 8 then 0 else b + 1 else 0)"
  using assms by (auto simp: reg_advance_def split: if_splits)

lemma reg_find_ge:
  "layout_ok sdesc b \<Longrightarrow> b < 8 \<Longrightarrow> reg_find reg sdesc off b = Some (Some d) \<Longrightarrow> 8 * off + b \<le> reg_first_bit d"
proof (induction sdesc b arbitrary: off rule: layout_ok.induct)
  case (1 b)
  then show ?case by simp
next
  case (2 sd rest b)
  define tp where "tp = sd div 4096"
  have ne: "sd \<noteq> JD_REG_END" using "2.prems"(3) by auto
  show ?case
  proof (cases "tp = T_REG_BYTES")
    case True
    then obtain regsz rest' where r: "rest = regsz # rest'" using "2.prems"(3) ne by (cases rest) (auto simp: tp_def)
    have b0: "b = 0" "layout_ok rest' 0" using "2.prems"(1) ne True r by (auto simp: tp_def)
    show ?thesis
      using "2.prems" "2.IH"(1) [OF ne refl] True r b0 ne
      by (fastforce simp: tp_def reg_advance_def T_REG_BIT_def T_REG_BYTES_def Let_def split: if_splits)
  next
    case False
    obtain o1 b1 where a: "reg_align tp (regSize ! tp) off b = (o1, b1)" by force
    obtain o2 b2 where v: "reg_advance tp (regSize ! tp) o1 b1 = (o2, b2)" by force
    note al = reg_align_ge [OF "2.prems"(2) a]
    have bz: "tp \<noteq> T_REG_BIT \<Longrightarrow> b1 = 0" using al(3) False by blast
    note ad = reg_advance_end [OF v al(2) bz]
    have b2: "b2 = (if tp = T_REG_BIT then if b + 1 = 8 then 0 else b + 1 else 0)" using ad(3) al(4) by auto
    have lay: "layout_ok rest b2" using "2.prems"(1) ne False b2 by (auto simp: tp_def Let_def split: if_splits)
    show ?thesis
    proof (cases "sd mod 4096 = reg")
      case True
      then show ?thesis using "2.prems"(3) ne False a al(1) by (auto simp: tp_def Let_def split: if_splits)
    next
      case no: False
      then have f: "reg_find reg rest o2 b2 = Some (Some d)"
        using "2.prems"(3) ne False a v by (auto simp: tp_def Let_def split: if_splits)
      have "8 * o2 + b2 \<le> reg_first_bit d"
        using "2.IH" False ne lay f ad(2) b2 by (cases "tp = T_REG_BIT") (auto simp: tp_def)
      then show ?thesis using al(1) ad(1) by simp
    qed
  qed
qed

lemma find_either:
  fixes E F :: "'d \<Rightarrow> nat"
  assumes "(if x = r1 then Some (Some d) else f1) = Some (Some d1)" "(if x = r2 then Some (Some d) else f2) = Some (Some d2)"
    and "r1 \<noteq> r2" "f1 = Some (Some d1) \<Longrightarrow> E d \<le> F d1" "f2 = Some (Some d2) \<Longrightarrow> E d \<le> F d2"
    and "f1 = Some (Some d1) \<Longrightarrow> f2 = Some (Some d2) \<Longrightarrow> E d1 \<le> F d2 \<or> E d2 \<le> F d1"
  shows "E d1 \<le> F d2 \<or> E d2 \<le> F d1"
  using assms by (auto split: if_splits)

lemma reg_find_disjoint:
  "layout_ok sdesc b \<Longrightarrow> b < 8 \<Longrightarrow> reg_find r1 sdesc off b = Some (Some d1) \<Longrightarrow>
     reg_find r2 sdesc off b = Some (Some d2) \<Longrightarrow> r1 \<noteq> r2 \<Longrightarrow>
     reg_end_bit d1 \<le> reg_first_bit d2 \<or> reg_end_bit d2 \<le> reg_first_bit d1"
proof (induction sdesc b arbitrary: off rule: layout_ok.induct)
  case (1 b)
  then show ?case by simp
next
  case (2 sd rest b)
  define tp where "tp = sd div 4096"
  have ne: "sd \<noteq> JD_REG_END" using "2.prems"(3) by auto
  show ?case
  proof (cases "tp = T_REG_BYTES")
    case True
    then obtain regsz rest' where r: "rest = regsz # rest'" using "2.prems"(3) ne by (cases rest) (auto simp: tp_def)
    have b0: "b = 0" "layout_ok rest' 0" using "2.prems"(1) ne True r by (auto simp: tp_def)
    let ?d = "(tp, regsz, off, 0 :: nat)"
    have find: "reg_find r sdesc' off b = (if sd mod 4096 = r then Some (Some ?d) else reg_find r rest' (off + regsz) 0)"
      if "sdesc' = sd # rest" "reg_find r (sd # rest) off b = Some (Some x)" for r x sdesc'
      using that True r b0 ne by (auto simp: tp_def reg_advance_def T_REG_BIT_def T_REG_BYTES_def Let_def split: if_splits)
    have e: "reg_end_bit ?d = 8 * (off + regsz)" using True by (simp add: T_REG_BIT_def T_REG_BYTES_def)
    have ge: "reg_find r rest' (off + regsz) 0 = Some (Some x) \<Longrightarrow> reg_end_bit ?d \<le> reg_first_bit x" for r x
      using reg_find_ge [OF b0(2), of r "off + regsz" x] e by simp
    have ih: "reg_find r1 rest' (off + regsz) 0 = Some (Some d1) \<Longrightarrow> reg_find r2 rest' (off + regsz) 0 = Some (Some d2) \<Longrightarrow>
        reg_end_bit d1 \<le> reg_first_bit d2 \<or> reg_end_bit d2 \<le> reg_first_bit d1"
      using "2.IH"(1) [OF ne refl _ r, of "off + regsz"] True b0 "2.prems"(5) by (simp add: tp_def)
    have f1: "(if sd mod 4096 = r1 then Some (Some ?d) else reg_find r1 rest' (off + regsz) 0) = Some (Some d1)"
      using find [OF refl "2.prems"(3)] "2.prems"(3) by simp
    have f2: "(if sd mod 4096 = r2 then Some (Some ?d) else reg_find r2 rest' (off + regsz) 0) = Some (Some d2)"
      using find [OF refl "2.prems"(4)] "2.prems"(4) by simp
    show ?thesis
      by (rule find_either [OF f1 f2 "2.prems"(5)]) (erule ge, erule ge, erule (1) ih)
  next
    case False
    obtain o1 b1 where a: "reg_align tp (regSize ! tp) off b = (o1, b1)" by force
    obtain o2 b2 where v: "reg_advance tp (regSize ! tp) o1 b1 = (o2, b2)" by force
    note al = reg_align_ge [OF "2.prems"(2) a]
    have bz: "tp \<noteq> T_REG_BIT \<Longrightarrow> b1 = 0" using al(3) False by blast
    note ad = reg_advance_end [OF v al(2) bz]
    have b2: "b2 = (if tp = T_REG_BIT then if b + 1 = 8 then 0 else b + 1 else 0)" using ad(3) al(4) by auto
    have lay: "layout_ok rest b2" using "2.prems"(1) ne False b2 by (auto simp: tp_def Let_def split: if_splits)
    let ?d = "(tp, regSize ! tp, o1, b1)"
    have find: "reg_find r (sd # rest) off b = (if sd mod 4096 = r then Some (Some ?d) else reg_find r rest o2 b2)"
      if "reg_find r (sd # rest) off b = Some (Some x)" for r x
      using that ne False a v by (auto simp: tp_def Let_def split: if_splits)
    have ge: "reg_find r rest o2 b2 = Some (Some x) \<Longrightarrow> reg_end_bit ?d \<le> reg_first_bit x" for r x
      using reg_find_ge [OF lay ad(2), of r o2 x] ad(1) by simp
    have ih: "reg_find r1 rest o2 b2 = Some (Some d1) \<Longrightarrow> reg_find r2 rest o2 b2 = Some (Some d2) \<Longrightarrow>
        reg_end_bit d1 \<le> reg_first_bit d2 \<or> reg_end_bit d2 \<le> reg_first_bit d1"
      using "2.IH"(2,3) False ne lay ad(2) b2 "2.prems"(5) by (cases "tp = T_REG_BIT") (auto simp: tp_def)
    have f1: "(if sd mod 4096 = r1 then Some (Some ?d) else reg_find r1 rest o2 b2) = Some (Some d1)"
      using find [OF "2.prems"(3)] "2.prems"(3) by simp
    have f2: "(if sd mod 4096 = r2 then Some (Some ?d) else reg_find r2 rest o2 b2) = Some (Some d2)"
      using find [OF "2.prems"(4)] "2.prems"(4) by simp
    show ?thesis
      by (rule find_either [OF f1 f2 "2.prems"(5)]) (erule ge, erule ge, erule (1) ih)
  qed
qed

section \<open>Properties\<close>

text \<open>C32: A register that is written is read back.  For every writable register of a service that is
  not a bit and not optional, a set command stores its payload, cut or extended (with the sign for
  signed types) to the size of the register, changes no other byte of the state, and a following get
  command replies with exactly that value.\<close>

theorem register_set_get:
  assumes "sys_consts_ok c" "reg < 0xf00" "reg AND 0xf00 \<noteq> 0x100"
    and "reg_find reg sdesc 0 0 = Some (Some (tp, regsz, off, b))" "tp \<noteq> T_REG_BIT" "\<not> REG_IS_OPT tp"
    and "off + regsz \<le> length state"
    and "pkt_service_command set_pkt = JD_SET c reg" "0 < pkt_service_size set_pkt"
    and "4 + pkt_service_size set_pkt \<le> length (frm_data set_pkt)"
    and "pkt_service_command get_pkt = JD_GET c reg"
  shows "let v = reg_fit (REG_IS_SIGNED tp) regsz (pkt_data set_pkt); state' = patch state off v in
    service_handle_register c state set_pkt sdesc s = Some (state', s, int reg) \<and>
    service_handle_register c state' get_pkt sdesc s =
      do { (s, _) \<leftarrow> jd_send (pkt_service_index get_pkt) (JD_GET c reg) v s; Some (state', s, - int reg) }"
proof -
  define v where "v = reg_fit (REG_IS_SIGNED tp) regsz (pkt_data set_pkt)"
  have r: "reg < 4096" using assms(2) by simp
  note code = jd_get_code [OF assms(1) r]
  have "service_handle_register c state set_pkt sdesc s = Some (patch state off v, s, int reg)"
    using assms(2-4,8,9) code reg_write_eq [OF assms(5,7,9,10), of b reg s]
    by (simp add: service_handle_register_def Let_def v_def)
  moreover have "rd_mem (patch state off v) off regsz = Some v"
    using take_drop_patch_same [of off v state] assms(7) by (simp add: v_def)
  then have "service_handle_register c (patch state off v) get_pkt sdesc s =
      do { (s, _) \<leftarrow> jd_send (pkt_service_index get_pkt) (JD_GET c reg) v s; Some (patch state off v, s, - int reg) }"
    using assms(2,4-6,11) code by (simp add: service_handle_register_def reg_read_def Let_def)
  ultimately show ?thesis by (simp add: Let_def v_def)
qed

definition sample_sys :: sys_consts where
  "sample_sys = \<lparr>CMD_GET_REGISTER = 0x1000, CMD_SET_REGISTER = 0x2000, CMD_COMMAND_NOT_IMPLEMENTED = 3,
     REG_VARIANT = 0x107, not_implemented_report = (\<lambda>cmd crc. le_bytes 2 cmd @ le_bytes 2 crc)\<rparr>"

definition sample_desc :: "nat list" where
  "sample_desc = [0x9ff0, 6, 0x8002, 0x8003, 0x2001, 0x1080, JD_REG_END]"

definition sample_set :: jd_frame where
  "sample_set = zero_frame\<lparr>frm_data := [1, 1, 1, 0x20, 0xfe] @ replicate 235 0\<rparr>"

definition sample_get :: jd_frame where
  "sample_get = zero_frame\<lparr>frm_data := [0, 1, 1, 0x10] @ replicate 236 0\<rparr>"

lemma sample_sys_ok: "sys_consts_ok sample_sys"
  by (simp add: sys_consts_ok_def sample_sys_def)

theorem register_set_get_witness:
  "let v = reg_fit (REG_IS_SIGNED 2) 2 (pkt_data sample_set); state' = patch (replicate 12 0) 8 v in
    service_handle_register sample_sys (replicate 12 0) sample_set sample_desc (bus_init 7 1 64 64 False 64) =
      Some (state', bus_init 7 1 64 64 False 64, int 1) \<and>
    service_handle_register sample_sys state' sample_get sample_desc (bus_init 7 1 64 64 False 64) =
      do { (s, _) \<leftarrow> jd_send (pkt_service_index sample_get) (JD_GET sample_sys 1) v (bus_init 7 1 64 64 False 64);
           Some (state', s, - int 1) }"
proof (rule register_set_get [OF sample_sys_ok])
  show "reg_find 1 sample_desc 0 0 = Some (Some (2, 2, 8, 0))" by code_simp
  show "(1 :: nat) AND 0xf00 \<noteq> 0x100" by code_simp
  show "pkt_service_command sample_set = JD_SET sample_sys 1" "pkt_service_command sample_get = JD_GET sample_sys 1"
    by code_simp+
qed (simp_all add: T_REG_BIT_def REG_IS_OPT_def T_REG_OPT8_def sample_set_def pkt_service_size_def)

text \<open>The registers of a service do not overlap.  In every description in which no byte array follows
  an incomplete group of bits, the storage of two different registers is disjoint, bit by bit.\<close>

theorem registers_disjoint:
  assumes "layout_ok sdesc 0" "r1 \<noteq> r2"
    and "reg_find r1 sdesc 0 0 = Some (Some d1)" "reg_find r2 sdesc 0 0 = Some (Some d2)"
  shows "reg_end_bit d1 \<le> reg_first_bit d2 \<or> reg_end_bit d2 \<le> reg_first_bit d1"
  using reg_find_disjoint [OF assms(1) _ assms(3,4,2)] by simp

theorem registers_disjoint_witness:
  "reg_end_bit (2, 2, 8, 0) \<le> reg_first_bit (8, 1, 6, 1) \<or> reg_end_bit (8, 1, 6, 1) \<le> reg_first_bit (2, 2, 8, 0)"
proof (rule registers_disjoint [of sample_desc 1 3])
  show "layout_ok sample_desc 0" by code_simp
  show "reg_find 1 sample_desc 0 0 = Some (Some (2, 2, 8, 0))" by code_simp
  show "reg_find 3 sample_desc 0 0 = Some (Some (8, 1, 6, 1))" by code_simp
qed simp

text \<open>Read-only and reserved registers cannot be written: a set command for a register \<open>0x1..\<close> or from
  \<open>0xf00\<close> on leaves the state and the bus alone and is reported as not handled, for every description.\<close>

theorem register_write_refused:
  assumes "JD_IS_SET c (pkt_service_command pkt)" "\<not> JD_IS_GET c (pkt_service_command pkt)"
    and "JD_REG_CODE (pkt_service_command pkt) AND 0xf00 = 0x100 \<or> 0xf00 \<le> JD_REG_CODE (pkt_service_command pkt)"
  shows "service_handle_register c state pkt sdesc s = Some (state, s, 0)"
  using assms by (auto simp: service_handle_register_def Let_def)

theorem register_write_refused_witness:
  "service_handle_register sample_sys [1, 2] (zero_frame\<lparr>frm_data := [1, 1, 1, 0x21, 9]\<rparr>) sample_desc
      (bus_init 7 1 64 64 False 64) = Some ([1, 2], bus_init 7 1 64 64 False 64, 0)"
proof (rule register_write_refused)
  have cmd: "pkt_service_command (zero_frame\<lparr>frm_data := [1, 1, 1, 0x21, 9]\<rparr>) = 0x2101"
    by (simp add: pkt_service_command_def)
  show "JD_IS_SET sample_sys (pkt_service_command (zero_frame\<lparr>frm_data := [1, 1, 1, 0x21, 9]\<rparr>))"
    "\<not> JD_IS_GET sample_sys (pkt_service_command (zero_frame\<lparr>frm_data := [1, 1, 1, 0x21, 9]\<rparr>))"
    unfolding cmd by code_simp+
  show "JD_REG_CODE (pkt_service_command (zero_frame\<lparr>frm_data := [1, 1, 1, 0x21, 9]\<rparr>)) AND 0xf00 = 0x100 \<or>
      0xf00 \<le> JD_REG_CODE (pkt_service_command (zero_frame\<lparr>frm_data := [1, 1, 1, 0x21, 9]\<rparr>))"
    unfolding cmd by code_simp
qed

end
