(* ===== verification/Jd_Pipe.thy ===== *)
theory Jd_Pipe
  imports Jd_Event
begin

text \<open>
  Pipes: source/jd\_opipe.c (output pipes) and source/jd\_ipipe.c (input pipes).  A pipe is a
  stop-and-wait protocol: the sender collects packets in one frame, sends the frame with an
  acknowledgement request until the acknowledgement arrives, and only then starts the next frame;
  the receiver accepts a packet when its five-bit counter is the expected one.

  A descriptor lives in a store indexed by its address, and a linked list of descriptors is the list
  of their addresses in order.  The handlers of an input pipe are function pointers, numbers here,
  and calling one is the argument \<open>call\<close> of the receiver.
\<close>

record jd_opipe_desc =
  op_counter :: "16 word"
  op_status :: byte
  op_retry :: byte
  op_retry_time :: "32 word"
  op_frame :: jd_frame

record jd_ipipe_desc =
  ip_handler :: nat
  ip_meta_handler :: nat
  ip_counter :: "16 word"

record pipes = bus +
  opipes :: "nat list"
  op_store :: "nat \<Rightarrow> jd_opipe_desc"
  ipipes :: "nat list"
  ip_store :: "nat \<Rightarrow> jd_ipipe_desc"

definition ST_FREE :: byte where "ST_FREE = 0x00"
definition ST_OPEN :: byte where "ST_OPEN = 0x01"
definition ST_CLOSED_UNSENT :: byte where "ST_CLOSED_UNSENT = 0x80"
definition ST_CLOSED_WAITING :: byte where "ST_CLOSED_WAITING = 0x82"
definition ST_DROPPED :: byte where "ST_DROPPED = 0x08"

lemmas opipe_status = ST_FREE_def ST_OPEN_def ST_CLOSED_UNSENT_def ST_CLOSED_WAITING_def ST_DROPPED_def

definition JD_PIPE_OK :: int where "JD_PIPE_OK = 0"
definition JD_PIPE_TRY_AGAIN :: int where "JD_PIPE_TRY_AGAIN = 1"
definition JD_PIPE_TIMEOUT :: int where "JD_PIPE_TIMEOUT = -1"
definition JD_PIPE_ERROR :: int where "JD_PIPE_ERROR = -2"
definition JD_OPIPE_MAX_RETRIES :: nat where "JD_OPIPE_MAX_RETRIES = 4"

lemmas pipe_results = JD_PIPE_OK_def JD_PIPE_TRY_AGAIN_def JD_PIPE_TIMEOUT_def JD_PIPE_ERROR_def

definition JD_PIPE_COUNTER_MASK :: "16 word" where "JD_PIPE_COUNTER_MASK = 0x001f"
definition JD_PIPE_CLOSE_MASK :: "16 word" where "JD_PIPE_CLOSE_MASK = 0x0020"
definition JD_PIPE_METADATA_MASK :: "16 word" where "JD_PIPE_METADATA_MASK = 0x0040"
definition JD_PIPE_PORT_SHIFT :: nat where "JD_PIPE_PORT_SHIFT = 7"

lemmas pipe_masks = JD_PIPE_COUNTER_MASK_def JD_PIPE_CLOSE_MASK_def JD_PIPE_METADATA_MASK_def JD_PIPE_PORT_SHIFT_def

text \<open>A descriptor after \<open>memset(str, 0, sizeof(*str))\<close>.\<close>

definition zero_opipe :: jd_opipe_desc where
  "zero_opipe = \<lparr>op_counter = 0, op_status = 0, op_retry = 0, op_retry_time = 0, op_frame = zero_frame\<rparr>"

text \<open>\<open>((counter + 1) & JD_PIPE_COUNTER_MASK) | (counter & ~JD_PIPE_COUNTER_MASK)\<close>.\<close>

definition next_counter :: "16 word \<Rightarrow> 16 word" where
  "next_counter c = (((c + 1) AND JD_PIPE_COUNTER_MASK) OR (c AND NOT JD_PIPE_COUNTER_MASK))"

definition set_opipe :: "nat \<Rightarrow> jd_opipe_desc \<Rightarrow> 'a pipes_scheme \<Rightarrow> 'a pipes_scheme" where
  "set_opipe a d s = s\<lparr>op_store := (op_store s)(a := d)\<rparr>"

section \<open>Output pipes (jd\_opipe.c)\<close>

definition jd_opipe_unlink :: "nat \<Rightarrow> 'a pipes_scheme \<Rightarrow> 'a pipes_scheme" where
  "jd_opipe_unlink a s =
     (if op_status (op_store s a) = ST_FREE then s
      else set_opipe a zero_opipe (s\<lparr>opipes := remove1 a (opipes s)\<rparr>))"

definition jd_opipe_open :: "nat \<Rightarrow> 64 word \<Rightarrow> 16 word \<Rightarrow> 'a pipes_scheme \<Rightarrow> ('a pipes_scheme \<times> int) option" where
  "jd_opipe_open a dev port_num s =
     (if dev = 0 then Some (s, JD_PIPE_ERROR)
      else if in_irq s then None
      else (let s = jd_opipe_unlink a s; d = op_store s a in
        Some ((set_opipe a (d\<lparr>op_frame := (op_frame d)\<lparr>frm_device_identifier := dev,
                   frm_flags := JD_FRAME_FLAG_COMMAND OR JD_FRAME_FLAG_ACK_REQUESTED\<rparr>,
                 op_counter := push_bit JD_PIPE_PORT_SHIFT port_num, op_status := ST_OPEN, op_retry := 0\<rparr>) s)
               \<lparr>opipes := a # opipes s\<rparr>, JD_PIPE_OK)))"

definition jd_opipe_open_cmd :: "nat \<Rightarrow> jd_frame \<Rightarrow> 'a pipes_scheme \<Rightarrow> ('a pipes_scheme \<times> int) option" where
  "jd_opipe_open_cmd a pkt s =
     (if pkt_service_size pkt < 12 then Some (s, JD_PIPE_ERROR)
      else do {
        dev \<leftarrow> rd_mem (frm_data pkt) 4 8;
        port \<leftarrow> rd_mem (frm_data pkt) 12 2;
        jd_opipe_open a (le_word dev) (le_word port) s })"

definition jd_opipe_open_report :: "nat \<Rightarrow> jd_frame \<Rightarrow> 'a pipes_scheme \<Rightarrow> ('a pipes_scheme \<times> int) option" where
  "jd_opipe_open_report a pkt s =
     (if pkt_service_size pkt < 2 then Some (s, JD_PIPE_ERROR)
      else do {
        port \<leftarrow> rd_mem (frm_data pkt) 4 2;
        jd_opipe_open a (frm_device_identifier pkt) (le_word port) s })"

text \<open>The functions below work on one descriptor; \<open>now\<close> is the global clock.\<close>

definition do_flush :: "32 word \<Rightarrow> jd_opipe_desc \<Rightarrow> jd_opipe_desc option" where
  "do_flush now d = do {
     jd_assert (op_retry d = 0);
     f \<leftarrow> jd_compute_crc (op_frame d);
     Some (d\<lparr>op_frame := f, op_retry := 1, op_retry_time := now\<rparr>) }"

definition jd_opipe_check_space :: "32 word \<Rightarrow> nat \<Rightarrow> jd_opipe_desc \<Rightarrow> (jd_opipe_desc \<times> int) option" where
  "jd_opipe_check_space now len d =
     (if op_status d = ST_DROPPED then Some (d, JD_PIPE_TIMEOUT)
      else if op_status d \<noteq> ST_OPEN then Some (d, JD_PIPE_ERROR)
      else if op_retry d \<noteq> 0 then Some (d, JD_PIPE_TRY_AGAIN)
      else if u32 (unat (frm_size (op_frame d)) + 4 + len) \<le> JD_SERIAL_PAYLOAD_SIZE then Some (d, JD_PIPE_OK)
      else do {
        d \<leftarrow> do_flush now d;
        Some (d, JD_PIPE_TRY_AGAIN) })"

definition jd_opipe_write_ex :: "32 word \<Rightarrow> mem \<Rightarrow> 16 word \<Rightarrow> jd_opipe_desc \<Rightarrow> (jd_opipe_desc \<times> int) option" where
  "jd_opipe_write_ex now data flags d = do {
     (d, r) \<leftarrow> jd_opipe_check_space now (length data) d;
     if r \<noteq> 0 then Some (d, r)
     else do {
       (f, ok) \<leftarrow> frame_append (op_frame d) JD_SERVICE_INDEX_STREAM (unat (op_counter d OR flags)) data;
       jd_assert ok;
       Some (d\<lparr>op_frame := f, op_counter := next_counter (op_counter d)\<rparr>, JD_PIPE_OK) } }"

definition jd_opipe_flush :: "32 word \<Rightarrow> jd_opipe_desc \<Rightarrow> (jd_opipe_desc \<times> int) option" where
  "jd_opipe_flush now d =
     (if op_status d = ST_OPEN \<and> op_retry d = 0 \<and> frm_size (op_frame d) = 0 then Some (d, JD_PIPE_OK)
      else jd_opipe_check_space now 0x100000 d)"

definition jd_opipe_write_meta :: "32 word \<Rightarrow> mem \<Rightarrow> jd_opipe_desc \<Rightarrow> (jd_opipe_desc \<times> int) option" where
  "jd_opipe_write_meta now data d = jd_opipe_write_ex now data JD_PIPE_METADATA_MASK d"

definition jd_opipe_write :: "32 word \<Rightarrow> mem \<Rightarrow> jd_opipe_desc \<Rightarrow> (jd_opipe_desc \<times> int) option" where
  "jd_opipe_write now data d = jd_opipe_write_ex now data 0 d"

definition jd_opipe_send_close_pkt :: "32 word \<Rightarrow> jd_opipe_desc \<Rightarrow> (jd_opipe_desc \<times> int) option" where
  "jd_opipe_send_close_pkt now d = do {
     (d, r) \<leftarrow> jd_opipe_write_ex now [] (JD_PIPE_CLOSE_MASK OR JD_PIPE_METADATA_MASK) (d\<lparr>op_status := ST_OPEN\<rparr>);
     if r = JD_PIPE_OK then do {
       d \<leftarrow> do_flush now (d\<lparr>op_status := ST_CLOSED_WAITING\<rparr>);
       Some (d, JD_PIPE_TRY_AGAIN) }
     else Some (d\<lparr>op_status := ST_CLOSED_UNSENT\<rparr>, r) }"

definition jd_opipe_close :: "nat \<Rightarrow> 'a pipes_scheme \<Rightarrow> ('a pipes_scheme \<times> int) option" where
  "jd_opipe_close a s =
     (let st = op_status (op_store s a) in
      if st = ST_DROPPED then Some (jd_opipe_unlink a s, JD_PIPE_OK)
      else if st = ST_FREE then Some (s, JD_PIPE_OK)
      else if st = ST_CLOSED_WAITING then Some (s, JD_PIPE_TRY_AGAIN)
      else if st = ST_OPEN \<or> st = ST_CLOSED_UNSENT then do {
        (d, r) \<leftarrow> jd_opipe_send_close_pkt (now_us s) (op_store s a);
        Some (set_opipe a d s, r) }
      else None)"

text \<open>The loop of \<open>jd_opipe_handle_packet\<close> over the linked list.  Unlinking a descriptor clears its
  \<open>next\<close> pointer, which the loop reads afterwards: the loop ends there.\<close>

definition ack_matches :: "jd_frame \<Rightarrow> jd_opipe_desc \<Rightarrow> bool" where
  "ack_matches pkt d \<longleftrightarrow> op_retry d \<noteq> 0 \<and> pkt_service_command pkt = unat (frm_crc (op_frame d)) \<and>
     frm_device_identifier (op_frame d) = frm_device_identifier pkt"

fun opipe_ack_loop :: "jd_frame \<Rightarrow> nat list \<Rightarrow> 'a pipes_scheme \<Rightarrow> 'a pipes_scheme option" where
  "opipe_ack_loop pkt [] s = Some s"
| "opipe_ack_loop pkt (a # as) s =
     (let d = op_store s a in
      if ack_matches pkt d then
        (let d = d\<lparr>op_retry := 0, op_frame := jd_reset_frame (op_frame d)\<rparr> in
         if op_status d = ST_CLOSED_WAITING then Some (jd_opipe_unlink a (set_opipe a d s))
         else if op_status d = ST_CLOSED_UNSENT then do {
           (d, _) \<leftarrow> jd_opipe_send_close_pkt (now_us s) d;
           opipe_ack_loop pkt as (set_opipe a d s) }
         else opipe_ack_loop pkt as (set_opipe a d s))
      else opipe_ack_loop pkt as s)"

definition jd_opipe_handle_packet :: "jd_frame \<Rightarrow> 'a pipes_scheme \<Rightarrow> 'a pipes_scheme option" where
  "jd_opipe_handle_packet pkt s =
     (if pkt_service_index pkt \<noteq> JD_SERVICE_INDEX_CRC_ACK \<or> flag_set pkt JD_FRAME_FLAG_COMMAND then Some s
      else if in_irq s then None
      else opipe_ack_loop pkt (opipes s) s)"

definition opipe_process_one :: "nat \<Rightarrow> 'a pipes_scheme \<Rightarrow> 'a pipes_scheme option" where
  "opipe_process_one a s =
     (let d = op_store s a in
      if op_retry d \<noteq> 0 \<and> in_past (now_us s) (op_retry_time d) then
        (if unat (op_retry d) < JD_OPIPE_MAX_RETRIES + 1 then do {
           (s, f, r) \<leftarrow> jd_send_frame (op_frame d) s;
           let d = d\<lparr>op_frame := f\<rparr>;
           if r = 0 then
             Some (set_opipe a (d\<lparr>op_retry_time := now_us s + push_bit (unat (op_retry d)) (4 * 1024),
                                  op_retry := op_retry d + 1\<rparr>) s)
           else Some (set_opipe a (d\<lparr>op_retry_time := now_us s + 65536\<rparr>) s) }
         else if unat (op_retry d) = JD_OPIPE_MAX_RETRIES + 1 then
           Some (set_opipe a (d\<lparr>op_retry_time := now_us s + 32 * 1024, op_retry := op_retry d + 1\<rparr>) s)
         else Some (set_opipe a (d\<lparr>op_status := ST_DROPPED\<rparr>) s))
      else Some s)"

fun opipe_process_loop :: "nat list \<Rightarrow> 'a pipes_scheme \<Rightarrow> 'a pipes_scheme option" where
  "opipe_process_loop [] s = Some s"
| "opipe_process_loop (a # as) s = do { s \<leftarrow> opipe_process_one a s; opipe_process_loop as s }"

definition jd_opipe_process :: "'a pipes_scheme \<Rightarrow> 'a pipes_scheme option" where
  "jd_opipe_process s = (if in_irq s then None else opipe_process_loop (opipes s) s)"

section \<open>Input pipes (jd\_ipipe.c)\<close>

definition ip_port :: "nat \<Rightarrow> 'a pipes_scheme \<Rightarrow> 16 word" where
  "ip_port a s = drop_bit JD_PIPE_PORT_SHIFT (ip_counter (ip_store s a))"

definition set_ip_counter :: "nat \<Rightarrow> 16 word \<Rightarrow> 'a pipes_scheme \<Rightarrow> 'a pipes_scheme" where
  "set_ip_counter a c s = s\<lparr>ip_store := (ip_store s)(a := (ip_store s a)\<lparr>ip_counter := c\<rparr>)\<rparr>"

definition jd_ipipe_free :: "nat \<Rightarrow> 'a pipes_scheme \<Rightarrow> 'a pipes_scheme" where
  "jd_ipipe_free a s = set_ip_counter a 0 (s\<lparr>ipipes := remove1 a (ipipes s)\<rparr>)"

definition is_free_port :: "16 word \<Rightarrow> 'a pipes_scheme \<Rightarrow> bool" where
  "is_free_port p s \<longleftrightarrow> p \<noteq> 0 \<and> list_all (\<lambda>a. ip_port a s \<noteq> p) (ipipes s)"

text \<open>The loop that draws port numbers until it finds a free one: not returning is \<open>None\<close>.\<close>

partial_function (option) pick_port :: "'a pipes_scheme \<Rightarrow> ('a pipes_scheme \<times> 16 word) option" where
  "pick_port s =
     (let (r, sd) = jd_random (rnd_seed s); s' = s\<lparr>rnd_seed := sd\<rparr>; p = ucast (r AND 511) in
      if is_free_port p s' then Some (s', p) else pick_port s')"

definition jd_ipipe_open :: "nat \<Rightarrow> nat \<Rightarrow> nat \<Rightarrow> 'a pipes_scheme \<Rightarrow> ('a pipes_scheme \<times> 16 word) option" where
  "jd_ipipe_open a hnd meta_hnd s =
     (if in_irq s then None
      else do {
        let s = jd_ipipe_free a s;
        let s = s\<lparr>ip_store := (ip_store s)(a := (ip_store s a)\<lparr>ip_handler := hnd, ip_meta_handler := meta_hnd\<rparr>)\<rparr>;
        (s, p) \<leftarrow> pick_port s;
        let s = set_ip_counter a (push_bit JD_PIPE_PORT_SHIFT p) s;
        let s = s\<lparr>ipipes := a # ipipes s\<rparr>;
        Some (s, ip_port a s) })"

definition jd_ipipe_handle_packet ::
  "(nat \<Rightarrow> nat \<Rightarrow> jd_frame option \<Rightarrow> 'a pipes_scheme \<Rightarrow> 'a pipes_scheme option) \<Rightarrow> jd_frame \<Rightarrow>
   'a pipes_scheme \<Rightarrow> 'a pipes_scheme option" where
  "jd_ipipe_handle_packet call pkt s =
     (if pkt_service_index pkt \<noteq> JD_SERVICE_INDEX_STREAM \<or> \<not> flag_set pkt JD_FRAME_FLAG_COMMAND \<or>
         frm_device_identifier pkt \<noteq> device_id s then Some s
      else (let cmd = of_nat (pkt_service_command pkt) :: 16 word in
        case find (\<lambda>a. ip_port a s = drop_bit JD_PIPE_PORT_SHIFT cmd) (ipipes s) of
          None \<Rightarrow> Some s
        | Some a \<Rightarrow>
            if ip_counter (ip_store s a) AND JD_PIPE_COUNTER_MASK = cmd AND JD_PIPE_COUNTER_MASK then do {
              let s = set_ip_counter a (next_counter (ip_counter (ip_store s a))) s;
              s \<leftarrow> call (if cmd AND JD_PIPE_METADATA_MASK \<noteq> 0 then ip_meta_handler (ip_store s a)
                         else ip_handler (ip_store s a)) a (Some pkt) s;
              if cmd AND JD_PIPE_CLOSE_MASK \<noteq> 0 then do {
                s \<leftarrow> call (ip_meta_handler (ip_store s a)) a None s;
                Some (jd_ipipe_free a s) }
              else Some s }
            else Some s))"

definition jd_ipipe_close :: "nat \<Rightarrow> 'a pipes_scheme \<Rightarrow> 'a pipes_scheme" where
  "jd_ipipe_close a s = jd_ipipe_free a s"

section \<open>The five-bit packet counter\<close>

lemma counter_mask_eq: "JD_PIPE_COUNTER_MASK = Bit_Operations.mask 5"
  by (simp add: JD_PIPE_COUNTER_MASK_def mask_eq_exp_minus_1)

lemma counter_mask: "c AND JD_PIPE_COUNTER_MASK = take_bit 5 c"
  by (simp add: counter_mask_eq take_bit_eq_mask)

lemma bit_next_counter:
  "bit (next_counter c) n \<longleftrightarrow> (if n < 5 then bit (c + 1) n else bit c n)"
  by (auto simp: next_counter_def counter_mask_eq bit_simps dest: bit_imp_le_length)

lemma next_counter_low: "take_bit 5 (next_counter c) = take_bit 5 (c + 1)"
  by (rule bit_word_eqI) (auto simp: bit_take_bit_iff bit_next_counter)

lemma next_counter_port: "drop_bit 7 (next_counter c) = drop_bit 7 c"
  by (rule bit_word_eqI) (auto simp: bit_drop_bit_eq bit_next_counter)

text \<open>The two flag bits of a stream command.\<close>

definition no_flags :: "16 word \<Rightarrow> bool" where
  "no_flags c \<longleftrightarrow> c AND JD_PIPE_METADATA_MASK = 0 \<and> c AND JD_PIPE_CLOSE_MASK = 0"

lemma no_flags_iff: "no_flags c \<longleftrightarrow> \<not> bit c 5 \<and> \<not> bit c 6"
proof -
  have "c AND JD_PIPE_METADATA_MASK = 0 \<longleftrightarrow> \<not> bit c 6"
    using and_exp_eq_0_iff_not_bit [of c 6] by (simp add: JD_PIPE_METADATA_MASK_def)
  moreover have "c AND JD_PIPE_CLOSE_MASK = 0 \<longleftrightarrow> \<not> bit c 5"
    using and_exp_eq_0_iff_not_bit [of c 5] by (simp add: JD_PIPE_CLOSE_MASK_def)
  ultimately show ?thesis by (auto simp: no_flags_def)
qed

lemma no_flags_next: "no_flags (next_counter c) = no_flags c"
  by (simp add: no_flags_iff bit_next_counter)

lemma unat_take_bit_5: "unat (take_bit 5 (w :: 16 word)) = unat w mod 32"
  unfolding unsigned_take_bit_eq by (simp add: take_bit_eq_mod)

lemma unat_inc_mod_32: "unat (w + 1 :: 16 word) mod 32 = (unat w + 1) mod 32"
  using mod_mod_cancel [of 32 65536 "unat w + 1"] by (simp add: unat_word_ariths)

lemma counter_iterate: "unat ((next_counter ^^ n) c) mod 32 = (unat c + n) mod 32"
proof (induction n)
  case (Suc n)
  have "unat (next_counter ((next_counter ^^ n) c)) mod 32 = (unat ((next_counter ^^ n) c) + 1) mod 32"
    using next_counter_low [of "(next_counter ^^ n) c"] unat_inc_mod_32 by (metis unat_take_bit_5)
  also have "\<dots> = (unat c + n + 1) mod 32" using Suc by (metis mod_add_left_eq)
  finally show ?case by simp
qed simp

lemma counter_distinct:
  assumes "0 < n" "n < 32"
  shows "take_bit 5 ((next_counter ^^ n) c) \<noteq> take_bit 5 c"
proof
  assume "take_bit 5 ((next_counter ^^ n) c) = take_bit 5 c"
  then have "(unat c + n) mod 32 = unat c mod 32" by (metis unat_take_bit_5 counter_iterate)
  then have "32 dvd n" using mod_eq_dvd_iff_nat [of "unat c" "unat c + n" 32] by simp
  with assms show False by (auto dest: dvd_imp_le)
qed

section \<open>Writing to an output pipe\<close>

text \<open>Successive writes that all succeed.\<close>

fun opipe_writes :: "32 word \<Rightarrow> mem list \<Rightarrow> jd_opipe_desc \<Rightarrow> jd_opipe_desc option" where
  "opipe_writes now [] d = Some d"
| "opipe_writes now (x # xs) d = do {
     (d, r) \<leftarrow> jd_opipe_write now x d;
     if r = JD_PIPE_OK then opipe_writes now xs d else None }"

text \<open>The packets they make.\<close>

fun stream_pkts :: "16 word \<Rightarrow> mem list \<Rightarrow> (nat \<times> nat \<times> mem) list" where
  "stream_pkts c [] = []"
| "stream_pkts c (x # xs) = (JD_SERVICE_INDEX_STREAM, unat c, x) # stream_pkts (next_counter c) xs"

lemma stream_pkts_valid: "list_all (\<lambda>x. length x \<le> 255) xs \<Longrightarrow> list_all pkt_valid (stream_pkts c xs)"
proof (induction xs arbitrary: c)
  case (Cons x xs)
  then show ?case using unsigned_less [of c] by (simp add: jd_frame_consts)
qed simp

lemma jd_opipe_write_ok:
  assumes "jd_opipe_write now x d = Some (d', JD_PIPE_OK)"
  shows "\<exists>f. frame_append (op_frame d) JD_SERVICE_INDEX_STREAM (unat (op_counter d)) x = Some (f, True) \<and>
    d' = d\<lparr>op_frame := f, op_counter := next_counter (op_counter d)\<rparr> \<and>
    op_status d = ST_OPEN \<and> op_retry d = 0 \<and> u32 (unat (frm_size (op_frame d)) + 4 + length x) \<le> 236"
  using assms
  by (auto simp: jd_opipe_write_def jd_opipe_write_ex_def jd_opipe_check_space_def pipe_results bind_Some_iff
      JD_SERIAL_PAYLOAD_SIZE_def split: if_splits)

lemma opipe_writes_frame:
  "opipe_writes now xs d = Some d' \<Longrightarrow>
     frame_append_all (op_frame d) (stream_pkts (op_counter d) xs) = Some (op_frame d') \<and>
     op_counter d' = (next_counter ^^ length xs) (op_counter d) \<and>
     op_status d' = op_status d \<and> op_retry d' = op_retry d"
proof (induction xs arbitrary: d)
  case Nil
  then show ?case by simp
next
  case (Cons x xs)
  then obtain d1 where d1: "jd_opipe_write now x d = Some (d1, JD_PIPE_OK)" "opipe_writes now xs d1 = Some d'"
    by (auto simp: bind_Some_iff split: if_splits)
  from jd_opipe_write_ok [OF d1(1)] Cons.IH [OF d1(2)] show ?case
    by (auto simp: funpow_swap1)
qed

section \<open>Receiving a stream\<close>

fun ipipe_packets ::
  "(nat \<Rightarrow> nat \<Rightarrow> jd_frame option \<Rightarrow> 'a pipes_scheme \<Rightarrow> 'a pipes_scheme option) \<Rightarrow> jd_frame list \<Rightarrow>
   'a pipes_scheme \<Rightarrow> 'a pipes_scheme option" where
  "ipipe_packets call [] s = Some s"
| "ipipe_packets call (f # fs) s = do { s \<leftarrow> jd_ipipe_handle_packet call f s; ipipe_packets call fs s }"

text \<open>Handlers that do not reconfigure pipes themselves; \<open>seen\<close> is the record of their calls.\<close>

definition ip_client ::
  "(nat \<Rightarrow> nat \<Rightarrow> jd_frame option \<Rightarrow> 'a pipes_scheme \<Rightarrow> 'a pipes_scheme option) \<Rightarrow>
   ('a pipes_scheme \<Rightarrow> (nat \<times> nat \<times> jd_frame option) list) \<Rightarrow> bool" where
  "ip_client call seen \<longleftrightarrow>
     (\<forall>h a p s. \<exists>t. call h a p s = Some t \<and> seen t = seen s @ [(h, a, p)] \<and> ipipes t = ipipes s \<and>
        ip_store t = ip_store s \<and> device_id t = device_id s) \<and>
     (\<forall>s x. seen (s\<lparr>ip_store := x\<rparr>) = seen s)"

text \<open>Packets of a stream, with the counters the sender gives them.\<close>

fun stream_frames :: "64 word \<Rightarrow> 16 word \<Rightarrow> jd_frame list \<Rightarrow> bool" where
  "stream_frames dev c [] = True"
| "stream_frames dev c (f # fs) \<longleftrightarrow>
     pkt_service_index f = JD_SERVICE_INDEX_STREAM \<and> pkt_service_command f = unat c \<and>
     flag_set f JD_FRAME_FLAG_COMMAND \<and> frm_device_identifier f = dev \<and> stream_frames dev (next_counter c) fs"

text \<open>The pipe that listens to the port of a counter.\<close>

definition listens :: "nat \<Rightarrow> 16 word \<Rightarrow> 'a pipes_scheme \<Rightarrow> bool" where
  "listens a c s \<longleftrightarrow> find (\<lambda>x. ip_port x s = drop_bit JD_PIPE_PORT_SHIFT c) (ipipes s) = Some a"

lemma listens_next: "listens a (next_counter c) s = listens a c s"
  by (simp add: listens_def JD_PIPE_PORT_SHIFT_def next_counter_port)

lemma listens_cong:
  assumes "ipipes t = ipipes s" "\<And>x. ip_port x t = ip_port x s"
  shows "listens a c t = listens a c s"
  using assms by (simp add: listens_def)

lemma jd_ipipe_accept:
  assumes "ip_client call seen" "stream_frames (device_id s) c [f]" "listens a c s" "no_flags c"
    and "take_bit 5 (ip_counter (ip_store s a)) = take_bit 5 c"
  shows "\<exists>t. jd_ipipe_handle_packet call f s = Some t \<and>
    seen t = seen s @ [(ip_handler (ip_store s a), a, Some f)] \<and> ipipes t = ipipes s \<and> device_id t = device_id s \<and>
    ip_store t = (ip_store s)(a := (ip_store s a)\<lparr>ip_counter := next_counter (ip_counter (ip_store s a))\<rparr>)"
proof -
  let ?s = "set_ip_counter a (next_counter (ip_counter (ip_store s a))) s"
  obtain t where t: "call (ip_handler (ip_store s a)) a (Some f) ?s = Some t"
    "seen t = seen ?s @ [(ip_handler (ip_store s a), a, Some f)]" "ipipes t = ipipes ?s"
    "ip_store t = ip_store ?s" "device_id t = device_id ?s"
    using assms(1) unfolding ip_client_def by blast
  have "seen ?s = seen s" using assms(1) by (simp add: set_ip_counter_def ip_client_def)
  with t assms(2-5) show ?thesis
    by (simp add: jd_ipipe_handle_packet_def listens_def counter_mask no_flags_def Let_def) (simp add: set_ip_counter_def)
qed

lemma jd_ipipe_ignore:
  assumes "stream_frames (device_id s) c [f]" "listens a c s"
    and "take_bit 5 (ip_counter (ip_store s a)) \<noteq> take_bit 5 c"
  shows "jd_ipipe_handle_packet call f s = Some s"
  using assms by (simp add: jd_ipipe_handle_packet_def listens_def counter_mask Let_def)

lemma stream_accepted:
  assumes "ip_client call seen"
  shows "stream_frames (device_id s) c fs \<Longrightarrow> listens a c s \<Longrightarrow> no_flags c \<Longrightarrow>
    take_bit 5 (ip_counter (ip_store s a)) = take_bit 5 c \<Longrightarrow>
    \<exists>t. ipipe_packets call fs s = Some t \<and>
      seen t = seen s @ map (\<lambda>f. (ip_handler (ip_store s a), a, Some f)) fs \<and>
      device_id t = device_id s \<and> listens a c t \<and>
      take_bit 5 (ip_counter (ip_store t a)) = take_bit 5 ((next_counter ^^ length fs) c)"
proof (induction fs arbitrary: s c)
  case Nil
  then show ?case by simp
next
  case (Cons f fs)
  let ?c = "ip_counter (ip_store s a)"
  have "stream_frames (device_id s) c [f]" using Cons.prems(1) by simp
  then obtain t where t: "jd_ipipe_handle_packet call f s = Some t"
    "seen t = seen s @ [(ip_handler (ip_store s a), a, Some f)]" "ipipes t = ipipes s" "device_id t = device_id s"
    "ip_store t = (ip_store s)(a := (ip_store s a)\<lparr>ip_counter := next_counter ?c\<rparr>)"
    using jd_ipipe_accept [OF assms _ Cons.prems(2-4)] by blast
  have port: "ip_port x t = ip_port x s" for x
    by (simp add: ip_port_def t(5) JD_PIPE_PORT_SHIFT_def next_counter_port)
  have l: "listens a (next_counter c) t"
    using Cons.prems(2) listens_cong [OF t(3) port] by (simp add: listens_next)
  have "take_bit 5 (next_counter ?c) = take_bit 5 (next_counter c)"
    using Cons.prems(4) counter_iterate [of 1 ?c] counter_iterate [of 1 c]
    by (metis One_nat_def funpow_0 funpow_Suc_right o_apply unat_take_bit_5 mod_add_left_eq unsigned_word_eqI)
  then have "take_bit 5 (ip_counter (ip_store t a)) = take_bit 5 (next_counter c)" by (simp add: t(5))
  from Cons.IH [OF _ l _ this] Cons.prems(1,3) t
  obtain u where u: "ipipe_packets call fs t = Some u"
    "seen u = seen t @ map (\<lambda>f. (ip_handler (ip_store t a), a, Some f)) fs" "device_id u = device_id t"
    "listens a (next_counter c) u"
    "take_bit 5 (ip_counter (ip_store u a)) = take_bit 5 ((next_counter ^^ length fs) (next_counter c))"
    by (auto simp: no_flags_next)
  then show ?case using t by (simp add: listens_next funpow_swap1)
qed

lemma stream_ignored:
  "stream_frames (device_id s) c fs \<Longrightarrow> listens a c s \<Longrightarrow>
    (\<And>i. i < length fs \<Longrightarrow> take_bit 5 (ip_counter (ip_store s a)) \<noteq> take_bit 5 ((next_counter ^^ i) c)) \<Longrightarrow>
    ipipe_packets call fs s = Some s"
proof (induction fs arbitrary: c)
  case Nil
  then show ?case by simp
next
  case (Cons f fs)
  have "jd_ipipe_handle_packet call f s = Some s"
    using Cons.prems(1,2) Cons.prems(3) [of 0] by (intro jd_ipipe_ignore) auto
  moreover have "ipipe_packets call fs s = Some s"
  proof (rule Cons.IH)
    show "listens a (next_counter c) s" using Cons.prems(2) by (simp add: listens_next)
    show "take_bit 5 (ip_counter (ip_store s a)) \<noteq> take_bit 5 ((next_counter ^^ i) (next_counter c))"
      if "i < length fs" for i
      using Cons.prems(3) [of "Suc i"] that by (simp add: funpow_swap1)
  qed (use Cons.prems(1) in simp)
  ultimately show ?case by simp
qed

lemma pkt_bytes_image:
  assumes "pkt_bytes f = pkt_image n cmd x" "n < 256" "cmd < 65536" "length x \<le> 255"
  shows "pkt_service_index f = n" "pkt_service_command f = cmd" "pkt_data f = x"
proof -
  have len: "length (pkt_bytes f) = length x + 4" by (simp add: assms(1))
  then have le: "4 \<le> length (frm_data f)" by (simp add: pkt_bytes_def)
  have nth: "frm_data f ! i = pkt_image n cmd x ! i" if "i < 4" for i
    using that by (simp flip: assms(1) add: pkt_bytes_def pkt_size_def)
  show "pkt_service_index f = n"
    using nth [of 1] assms(2) by (simp add: pkt_service_index_def pkt_image_def pkt_header_def unat_of_nat_byte)
  have "cmd div 256 < 256" using assms(3) by (simp add: less_mult_imp_div_less)
  then show "pkt_service_command f = cmd"
    using nth [of 2] nth [of 3]
    by (simp add: pkt_service_command_def pkt_image_def pkt_header_def unat_of_nat_byte)
  have "pkt_service_size f = length x"
    using nth [of 0] assms(4) by (simp add: pkt_service_size_def unat_of_nat_byte)
  then show "pkt_data f = x"
    using arg_cong [OF assms(1), of "drop 4"] le
    by (simp add: pkt_data_def pkt_bytes_def pkt_size_def drop_take pkt_image_def)
qed

lemma unpacked_stream:
  "map pkt_bytes fs = map (\<lambda>(n, c, d). pkt_image n c d) (stream_pkts c xs) \<Longrightarrow>
   list_all (\<lambda>x. length x \<le> 255) xs \<Longrightarrow>
   (\<And>f. f \<in> set fs \<Longrightarrow> flag_set f JD_FRAME_FLAG_COMMAND \<and> frm_device_identifier f = dev) \<Longrightarrow>
   stream_frames dev c fs \<and> map pkt_data fs = xs"
proof (induction xs arbitrary: c fs)
  case Nil
  then show ?case by simp
next
  case (Cons x xs)
  then obtain f fs' where fs: "fs = f # fs'" by (cases fs) auto
  have f: "pkt_bytes f = pkt_image JD_SERVICE_INDEX_STREAM (unat c) x" using Cons.prems(1) fs by simp
  note b = pkt_bytes_image [OF f]
  have "unat c < 65536" "JD_SERVICE_INDEX_STREAM < 256" "length x \<le> 255"
    using unsigned_less [of c] Cons.prems(2) by (simp_all add: jd_frame_consts)
  with b Cons.IH [of fs' "next_counter c"] Cons.prems fs show ?case by simp
qed

lemma jd_push_in_frame_header:
  "jd_push_in_frame f n c sz = Some (g, r) \<Longrightarrow> frm_flags g = frm_flags f \<and> frm_device_identifier g = frm_device_identifier f"
  unfolding jd_push_in_frame_def Let_def by (auto simp: bind_Some_iff simp del: wr_mem_Some split: if_split_asm)

lemma frame_append_header:
  assumes "frame_append f n c d = Some (g, ok)"
  shows "frm_flags g = frm_flags f \<and> frm_device_identifier g = frm_device_identifier f"
proof -
  obtain h r where h: "jd_push_in_frame f n c (length d) = Some (h, r)"
    using assms by (auto simp: frame_append_def bind_Some_iff)
  with assms jd_push_in_frame_header [OF h] show ?thesis
    by (cases r) (auto simp: frame_append_def bind_Some_iff)
qed

lemma frame_append_all_header:
  "frame_append_all f ps = Some g \<Longrightarrow> frm_flags g = frm_flags f \<and> frm_device_identifier g = frm_device_identifier f"
proof (induction ps arbitrary: f)
  case (Cons p ps)
  obtain n c d where p: "p = (n, c, d)" by (cases p)
  with Cons.prems obtain h where h: "frame_append f n c d = Some (h, True)" "frame_append_all h ps = Some g"
    by (auto simp: bind_Some_iff split: if_splits)
  have "frm_flags h = frm_flags f \<and> frm_device_identifier h = frm_device_identifier f"
    using h(1) by (rule frame_append_header)
  with Cons.IH [OF h(2)] show ?case by simp
qed simp

lemma opipe_writes_len:
  "opipe_writes now xs d = Some d' \<Longrightarrow> acc_ok (op_frame d) \<Longrightarrow> list_all (\<lambda>x. length x < 4294967000) xs \<Longrightarrow>
     list_all (\<lambda>x. length x \<le> 255) xs"
proof (induction xs arbitrary: d)
  case (Cons x xs)
  then obtain d1 where d1: "jd_opipe_write now x d = Some (d1, JD_PIPE_OK)" "opipe_writes now xs d1 = Some d'"
    by (auto simp: bind_Some_iff split: if_splits)
  obtain f where f: "frame_append (op_frame d) JD_SERVICE_INDEX_STREAM (unat (op_counter d)) x = Some (f, True)"
    "op_frame d1 = f" "u32 (unat (frm_size (op_frame d)) + 4 + length x) \<le> 236"
    using jd_opipe_write_ok [OF d1(1)] by auto
  have sz: "unat (frm_size (op_frame d)) + 4 + length x \<le> 236"
    using f(3) Cons.prems(2,3) by (simp add: acc_ok_def u32_def)
  have "acc_ok f"
    using frame_append_fits [OF Cons.prems(2) _ _ sz, of JD_SERVICE_INDEX_STREAM "unat (op_counter d)"] f(1)
      unat_16_lt [of "op_counter d"] by (simp add: jd_frame_consts)
  with Cons.IH [OF d1(2)] Cons.prems(3) f(2) sz show ?case by simp
qed simp

section \<open>Retransmission\<close>

lemma jd_send_frame_refused:
  assumes "bus_inv s" "frame_pushable f" "jd_send_frame f s = Some (t, g, r)" "r \<noteq> 0"
  shows "\<not> jd_queue_will_fit (send_queue s) (FRM_SIZE f)"
proof
  assume q: "jd_queue_will_fit (send_queue s) (FRM_SIZE f)"
  obtain s1 r1 where s1: "jd_usb_send_frame f s = Some (s1, r1)" "same_tx s s1"
    using jd_usb_send_frame_ok [OF assms(1,2)] by blast
  have "queue_inv (send_queue s)" using assms(1) by (simp add: bus_inv_def)
  then obtain sq where "jd_queue_push (send_queue s) f = Some (sq, 0)"
    using jd_queue_push_fits(1) [OF _ assms(2) q] unfolding queue_inv_def by blast
  with s1 assms(3,4) show False
    by (auto simp: jd_send_frame_def jd_send_frame_raw_def same_tx_def bind_Some_iff split: if_splits)
qed

lemma jd_send_frame_pipes:
  fixes s :: "'a pipes_scheme"
  assumes "jd_send_frame f s = Some (t, g, r)"
  shows "op_store t = op_store s" "opipes t = opipes s" "ipipes t = ipipes s" "ip_store t = ip_store s"
proof -
  have k: "op_store (set_tick_timer c u) = op_store u" "opipes (set_tick_timer c u) = opipes u"
    "ipipes (set_tick_timer c u) = ipipes u" "ip_store (set_tick_timer c u) = ip_store u" for c and u :: "'a pipes_scheme"
    by (simp_all add: set_tick_timer_def Let_def split_beta)
  have j: "op_store (jd_packet_ready u) = op_store u" "opipes (jd_packet_ready u) = opipes u"
    "ipipes (jd_packet_ready u) = ipipes u" "ip_store (jd_packet_ready u) = ip_store u" for u :: "'a pipes_scheme"
    by (simp_all add: jd_packet_ready_def Let_def k)
  have u: "op_store v = op_store u \<and> opipes v = opipes u \<and> ipipes v = ipipes u \<and> ip_store v = ip_store u"
    if "jd_usb_send_frame f u = Some (v, r')" for u v :: "'a pipes_scheme" and r'
    using that by (auto simp: jd_usb_send_frame_def bind_Some_iff Let_def split: if_splits)
  show "op_store t = op_store s" "opipes t = opipes s" "ipipes t = ipipes s" "ip_store t = ip_store s"
    using assms by (auto simp: jd_send_frame_def jd_send_frame_raw_def jd_rx_frame_received_loopback_def
        jd_rx_frame_received_core_def bind_Some_iff Let_def j dest!: u split: if_splits)
qed

text \<open>The states of a flushed pipe that gets no acknowledgement, with the number of times its frame
  was put into the send queue.  Between two polls everything but the descriptor may change.\<close>

inductive opipe_unacked :: "nat \<Rightarrow> jd_opipe_desc \<Rightarrow> nat \<Rightarrow> bool" for a :: nat where
  flushed: "acc_ok (op_frame d) \<Longrightarrow> frm_size (op_frame d) \<noteq> 0 \<Longrightarrow> op_retry d = 1 \<Longrightarrow> op_status d \<noteq> ST_DROPPED \<Longrightarrow>
     opipe_unacked a d 0"
| poll: "opipe_unacked a (op_store s a) n \<Longrightarrow> main_ok (s :: pipes) \<Longrightarrow> opipe_process_one a s = Some t \<Longrightarrow>
     opipe_unacked a (op_store t a)
       (n + (length (queue_frames (send_queue t)) - length (queue_frames (send_queue s))))"

definition unacked_inv :: "jd_opipe_desc \<Rightarrow> nat \<Rightarrow> bool" where
  "unacked_inv d n \<longleftrightarrow> acc_ok (op_frame d) \<and> frm_size (op_frame d) \<noteq> 0 \<and> op_retry d \<in> {1, 2, 3, 4, 5, 6} \<and>
     n + 1 \<le> unat (op_retry d) \<and> n \<le> 4 \<and> (op_status d = ST_DROPPED \<longrightarrow> op_retry d = 6)"

text \<open>The descriptor after an attempt to send its frame with result \<open>r\<close>.\<close>

definition polled :: "jd_opipe_desc \<Rightarrow> jd_frame \<Rightarrow> int \<Rightarrow> 32 word \<Rightarrow> jd_opipe_desc" where
  "polled d g r now =
     (if r = 0 then d\<lparr>op_frame := g, op_retry_time := now + push_bit (unat (op_retry d)) 4096, op_retry := op_retry d + 1\<rparr>
      else d\<lparr>op_frame := g, op_retry_time := now + 65536\<rparr>)"

lemma polled_inv:
  assumes "unacked_inv d n" "unat (op_retry d) \<le> 4" "same_payload (op_frame d) g" "k \<le> 1" "r \<noteq> 0 \<longrightarrow> k = 0"
  shows "unacked_inv (polled d g r now) (n + k)"
proof -
  have g: "acc_ok g \<longleftrightarrow> acc_ok (op_frame d)" "frm_size g = frm_size (op_frame d)"
    using acc_ok_same_payload [OF assms(3)] assms(3) by (simp_all add: same_payload_def)
  have six: "op_retry d \<in> {1, 2, 3, 4, 5, 6}" using assms(1) unfolding unacked_inv_def by blast
  have r: "op_retry d \<in> {1, 2, 3, 4}" using six assms(2) by auto
  have inc: "op_retry d + 1 \<in> {1, 2, 3, 4, 5, 6}" "unat (op_retry d + 1) = unat (op_retry d) + 1"
    using r by auto
  have "op_retry d \<noteq> 6" using assms(2) by auto
  then have st: "op_status d \<noteq> ST_DROPPED" using assms(1) unfolding unacked_inv_def by blast
  show ?thesis
  proof (cases "r = 0")
    case True
    then show ?thesis
      using assms(1,2,4) inc g st unfolding unacked_inv_def polled_def by simp
  next
    case False
    then show ?thesis
      using assms(1,5) g st unfolding unacked_inv_def polled_def by simp
  qed
qed

lemma opipe_poll_send:
  fixes s :: "'a pipes_scheme"
  assumes "unacked_inv (op_store s a) n" "main_ok s" "unat (op_retry (op_store s a)) \<le> 4"
    and "in_past (now_us s) (op_retry_time (op_store s a))"
  defines "d \<equiv> op_store s a"
  shows "\<exists>t g r. opipe_process_one a s = Some t \<and> main_ok t \<and> same_payload (op_frame d) g \<and>
    queue_frames (send_queue t) = queue_frames (send_queue s) @ queued_image (op_frame d) s \<and>
    (r \<noteq> 0 \<longrightarrow> \<not> jd_queue_will_fit (send_queue s) (FRM_SIZE (op_frame d))) \<and>
    op_store t = (op_store s)(a := polled d g r (now_us s))"
proof -
  have p: "frame_pushable (op_frame d)" and inv: "bus_inv s" and irq: "\<not> in_irq s"
    using assms(1,2) by (auto simp: unacked_inv_def main_ok_def d_def intro: acc_ok_pushable)
  obtain t g r where t: "jd_send_frame (op_frame d) s = Some (t, g, r)" "bus_inv t" "same_payload (op_frame d) g"
    "in_irq t = in_irq s" "queue_frames (send_queue t) = queue_frames (send_queue s) @ queued_image (op_frame d) s"
    using jd_send_frame_ok [OF inv p] by blast
  note st = jd_send_frame_pipes [OF t(1)] jd_send_frame_now [OF t(1)]
  have m: "main_ok (t\<lparr>op_store := x\<rparr>)" for x
    using t(2,4) irq by (simp add: main_ok_def bus_inv_def)
  have nz: "op_retry d \<noteq> 0" using assms(1) by (auto simp: unacked_inv_def d_def)
  have one: "opipe_process_one a s = Some (t\<lparr>op_store := (op_store s)(a := polled d g r (now_us s))\<rparr>)"
    using assms(3,4) nz st unfolding d_def [symmetric]
    by (simp add: opipe_process_one_def d_def [symmetric] JD_OPIPE_MAX_RETRIES_def Let_def set_opipe_def t(1) polled_def)
  show ?thesis
    unfolding one using t m jd_send_frame_refused [OF inv p t(1)]
    by (intro exI [of _ "t\<lparr>op_store := (op_store s)(a := polled d g r (now_us s))\<rparr>"] exI [of _ g] exI [of _ r]) simp
qed

lemma opipe_poll_step:
  fixes s :: "'a pipes_scheme"
  assumes "unacked_inv (op_store s a) n" "main_ok s"
  defines "d \<equiv> op_store s a"
  shows "\<exists>t. opipe_process_one a s = Some t \<and> main_ok t \<and>
    unacked_inv (op_store t a) (n + (length (queue_frames (send_queue t)) - length (queue_frames (send_queue s)))) \<and>
    (in_past (now_us s) (op_retry_time d) \<and> jd_queue_will_fit (send_queue s) (FRM_SIZE (op_frame d)) \<longrightarrow>
       op_retry (op_store t a) = op_retry d + 1 \<or> op_status (op_store t a) = ST_DROPPED)"
proof (cases "in_past (now_us s) (op_retry_time d)")
  case False
  then show ?thesis using assms by (simp add: opipe_process_one_def d_def)
next
  case past: True
  have r: "op_retry d \<in> {1, 2, 3, 4, 5, 6}" using assms(1) by (simp add: unacked_inv_def d_def)
  have m: "main_ok (s\<lparr>op_store := x\<rparr>)" for x using assms(2) by (simp add: main_ok_def bus_inv_def)
  show ?thesis
  proof (cases "unat (op_retry d) \<le> 4")
    case True
    obtain t g r' where t: "opipe_process_one a s = Some t" "main_ok t" "same_payload (op_frame d) g"
      "queue_frames (send_queue t) = queue_frames (send_queue s) @ queued_image (op_frame d) s"
      "r' \<noteq> (0 :: int) \<longrightarrow> \<not> jd_queue_will_fit (send_queue s) (FRM_SIZE (op_frame d))"
      "op_store t = (op_store s)(a := polled d g r' (now_us s))"
      using opipe_poll_send [OF assms(1,2) True [unfolded d_def] past [unfolded d_def]] unfolding d_def by metis
    have "unacked_inv (polled d g r' (now_us s)) (n + length (queued_image (op_frame d) s))"
      using t(5) by (intro polled_inv [OF assms(1) [folded d_def] True t(3)]) (simp_all add: queued_image_def)
    then show ?thesis using t by (auto simp: polled_def)
  next
    case False
    then have r5: "op_retry d = 5 \<or> op_retry d = 6" using r by auto
    then show ?thesis
      using past m assms(1)
      by (auto simp: opipe_process_one_def JD_OPIPE_MAX_RETRIES_def Let_def set_opipe_def unacked_inv_def opipe_status d_def)
  qed
qed

lemma opipe_unacked_inv: "opipe_unacked a d n \<Longrightarrow> unacked_inv d n"
proof (induction rule: opipe_unacked.induct)
  case (flushed d)
  then show ?case by (simp add: unacked_inv_def)
next
  case (poll s n t)
  then show ?case using opipe_poll_step [of s a n] by auto
qed

section \<open>Sample pipes\<close>

definition sample_open :: jd_opipe_desc where
  "sample_open = zero_opipe\<lparr>op_status := ST_OPEN, op_counter := 640,
     op_frame := zero_frame\<lparr>frm_flags := 3, frm_device_identifier := 7\<rparr>\<rparr>"

definition sample_flushed :: jd_opipe_desc where
  "sample_flushed = zero_opipe\<lparr>op_status := ST_OPEN, op_retry := 1, op_frame := zero_frame\<lparr>frm_size := 4\<rparr>\<rparr>"

definition sample_pipes :: pipes where
  "sample_pipes = bus.extend (bus_init 7 1 64 64 False 64)
     \<lparr>opipes = [9], op_store = (\<lambda>_. sample_flushed), ipipes = [3],
      ip_store = (\<lambda>_. \<lparr>ip_handler = 11, ip_meta_handler = 12, ip_counter = 640\<rparr>)\<rparr>"

record logged = pipes +
  call_log :: "(nat \<times> nat \<times> jd_frame option) list"

definition log_call :: "nat \<Rightarrow> nat \<Rightarrow> jd_frame option \<Rightarrow> logged \<Rightarrow> logged option" where
  "log_call h a p s = Some (s\<lparr>call_log := call_log s @ [(h, a, p)]\<rparr>)"

lemma log_call_client: "ip_client log_call call_log"
  by (simp add: ip_client_def log_call_def)

definition sample_receiver :: logged where
  "sample_receiver = pipes.extend sample_pipes \<lparr>call_log = []\<rparr>"

lemma sample_transfer:
  "(case opipe_writes 0 [[1, 2], [3]] sample_open of None \<Rightarrow> False | Some d \<Rightarrow> \<not> skip_marked (op_frame d))"
  by code_simp

section \<open>Properties\<close>

text \<open>A pipe sends its frame at most four times without an acknowledgement.  Whatever happens on the bus
  between the polls, polling a flushed pipe neither panics nor queues its frame a fifth time, and
  a poll after the deadline that finds room in the send queue takes the next step towards giving up:
  the frame is sent again, the last grace period starts, or the pipe is dropped.\<close>

theorem opipe_retry_bound:
  assumes "opipe_unacked a d n" "main_ok s" "op_store s a = d"
  shows "n \<le> 4 \<and> (\<exists>t. opipe_process_one a s = Some t \<and>
    length (queue_frames (send_queue t)) - length (queue_frames (send_queue s)) \<le> 4 - n \<and>
    (in_past (now_us s) (op_retry_time d) \<and> jd_queue_will_fit (send_queue s) (FRM_SIZE (op_frame d)) \<longrightarrow>
       op_retry (op_store t a) = op_retry d + 1 \<or> op_status (op_store t a) = ST_DROPPED))"
proof -
  have i: "unacked_inv (op_store s a) n" using opipe_unacked_inv [OF assms(1)] assms(3) by simp
  from opipe_poll_step [OF i assms(2)] i assms(3) show ?thesis by (auto simp: unacked_inv_def)
qed

theorem opipe_retry_bound_witness:
  "(0 :: nat) \<le> 4 \<and> (\<exists>t. opipe_process_one 9 sample_pipes = Some t \<and>
    length (queue_frames (send_queue t)) - length (queue_frames (send_queue sample_pipes)) \<le> 4 - 0 \<and>
    (in_past (now_us sample_pipes) (op_retry_time sample_flushed) \<and>
       jd_queue_will_fit (send_queue sample_pipes) (FRM_SIZE (op_frame sample_flushed)) \<longrightarrow>
     op_retry (op_store t 9) = op_retry sample_flushed + 1 \<or> op_status (op_store t 9) = ST_DROPPED))"
proof (rule opipe_retry_bound)
  show "opipe_unacked 9 sample_flushed 0"
    by (rule opipe_unacked.flushed)
       (simp_all add: sample_flushed_def acc_ok_def zero_opipe_def zero_frame_def JD_SERIAL_PAYLOAD_SIZE_def opipe_status)
  show "main_ok sample_pipes"
    using sample_main_ok unfolding main_ok_def bus_inv_def sample_pipes_def bus.defs by simp
qed (simp add: sample_pipes_def bus.defs)

text \<open>C29: Pipes deliver exactly once and in order.  The payloads written to an open, empty output pipe, up
  to 31 of them, reach the handler of the input pipe that listens to the port, unchanged and in order,
  when the frame is unpacked at the receiver, and when the same frame arrives again (because the
  acknowledgement was lost) nothing is delivered and nothing changes.  Afterwards the counters of
  both ends agree again.\<close>

theorem pipe_transfer:
  assumes "op_status d = ST_OPEN" "acc_ok (op_frame d)" "frm_size (op_frame d) = 0" "no_flags (op_counter d)"
    and "flag_set (op_frame d) JD_FRAME_FLAG_COMMAND" "frm_device_identifier (op_frame d) = device_id r"
    and "opipe_writes now xs d = Some d'" "xs \<noteq> []" "length xs \<le> 31" "list_all (\<lambda>x. length x \<le> 255) xs"
    and "\<not> skip_marked (op_frame d')"
    and "ip_client call seen" "listens a (op_counter d) r"
    and "take_bit 5 (ip_counter (ip_store r a)) = take_bit 5 (op_counter d)"
  shows "\<exists>fs t. frame_loop (length xs) (op_frame d') = Some fs \<and> map pkt_data fs = xs \<and>
    ipipe_packets call fs r = Some t \<and>
    seen t = seen r @ map (\<lambda>f. (ip_handler (ip_store r a), a, Some f)) fs \<and>
    ipipe_packets call fs t = Some t \<and>
    listens a (op_counter d') t \<and> take_bit 5 (ip_counter (ip_store t a)) = take_bit 5 (op_counter d')"
proof -
  let ?c = "op_counter d"
  note w = opipe_writes_frame [OF assms(7)]
  have ne: "stream_pkts ?c xs \<noteq> []" and len: "length (stream_pkts c ys) = length ys" for c ys
    using assms(8) by (cases xs; simp) (induction ys arbitrary: c; simp)
  obtain fs where fs: "frame_loop (length xs) (op_frame d') = Some fs"
    "map pkt_bytes fs = map (\<lambda>(n, c, d). pkt_image n c d) (stream_pkts ?c xs)"
    using frame_loop_append_all [OF assms(2,3) ne stream_pkts_valid [OF assms(10)] _ assms(11)] w len by auto
  have hdr: "flag_set f JD_FRAME_FLAG_COMMAND \<and> frm_device_identifier f = device_id r" if "f \<in> set fs" for f
    using frame_loop_header [OF fs(1) that] frame_append_all_header [of "op_frame d" "stream_pkts ?c xs" "op_frame d'"]
      w assms(5,6) by (auto simp: flag_set_def)
  have sf: "stream_frames (device_id r) ?c fs" "map pkt_data fs = xs"
    using unpacked_stream [OF fs(2) assms(10) hdr] by simp_all
  then have lfs: "length fs = length xs" by (metis length_map)
  obtain t where t: "ipipe_packets call fs r = Some t"
    "seen t = seen r @ map (\<lambda>f. (ip_handler (ip_store r a), a, Some f)) fs" "device_id t = device_id r"
    "listens a ?c t" "take_bit 5 (ip_counter (ip_store t a)) = take_bit 5 ((next_counter ^^ length fs) ?c)"
    using stream_accepted [OF assms(12) sf(1) assms(13,4,14)] by blast
  have "ipipe_packets call fs t = Some t"
  proof (rule stream_ignored [OF _ t(4)])
    fix i assume i: "i < length fs"
    have "(next_counter ^^ length fs) ?c = (next_counter ^^ (length fs - i)) ((next_counter ^^ i) ?c)"
      using i by (simp flip: funpow_add [THEN fun_cong, unfolded o_apply])
    then show "take_bit 5 (ip_counter (ip_store t a)) \<noteq> take_bit 5 ((next_counter ^^ i) ?c)"
      using counter_distinct [of "length fs - i" "(next_counter ^^ i) ?c"] i assms(9) lfs t(5) by simp
  qed (use sf(1) t(3) in simp)
  moreover have "listens a ((next_counter ^^ k) ?c) t" for k
    by (induction k) (simp_all add: t(4) listens_next)
  ultimately show ?thesis using fs(1) sf(2) t w lfs by auto
qed

theorem pipe_transfer_witness:
  "\<exists>d' fs t. opipe_writes 0 [[1, 2], [3]] sample_open = Some d' \<and>
    frame_loop (length [[1 :: byte, 2], [3]]) (op_frame d') = Some fs \<and> map pkt_data fs = [[1, 2], [3]] \<and>
    ipipe_packets log_call fs sample_receiver = Some t \<and>
    call_log t = call_log sample_receiver @ map (\<lambda>f. (ip_handler (ip_store sample_receiver 3), 3, Some f)) fs \<and>
    ipipe_packets log_call fs t = Some t \<and>
    listens 3 (op_counter d') t \<and> take_bit 5 (ip_counter (ip_store t 3)) = take_bit 5 (op_counter d')"
proof -
  obtain d' where d': "opipe_writes 0 [[1, 2], [3]] sample_open = Some d'" "\<not> skip_marked (op_frame d')"
    using sample_transfer by (cases "opipe_writes 0 [[1, 2], [3]] sample_open") simp_all
  have l: "listens 3 (op_counter sample_open) sample_receiver"
    by (simp add: listens_def ip_port_def sample_receiver_def pipes.defs sample_pipes_def bus.defs sample_open_def)
  have "no_flags (op_counter sample_open)" by code_simp
  moreover have "flag_set (op_frame sample_open) JD_FRAME_FLAG_COMMAND" by code_simp
  moreover have "acc_ok (op_frame sample_open)" by code_simp
  moreover have "take_bit 5 (ip_counter (ip_store sample_receiver 3)) = take_bit 5 (op_counter sample_open)" by code_simp
  moreover have "frm_device_identifier (op_frame sample_open) = device_id sample_receiver" by code_simp
  ultimately show ?thesis
    using pipe_transfer [OF _ _ _ _ _ _ d'(1) _ _ _ d'(2) log_call_client l] d'(1)
    by (auto simp: sample_open_def zero_frame_def)
qed

lemma send_empty_frame_panics: "frm_size f = 0 \<Longrightarrow> jd_send_frame f s = None"
  by (auto simp: jd_send_frame_def jd_usb_send_frame_def jd_send_frame_raw_def jd_queue_push_def jd_need_to_send_def
      jd_rx_frame_received_loopback_def jd_rx_frame_received_core_def jd_services_needs_frame_def bind_eq_None_conv
      split: if_splits option.splits)

text \<open>A write that can never fit halts the device.  Writing more than 232 bytes to an open, empty pipe
  answers \<open>JD_PIPE_TRY_AGAIN\<close> and flushes the empty frame, and the next poll of the pipe panics when
  that frame is put into the send queue.\<close>

theorem opipe_oversize_panics:
  assumes "op_status d = ST_OPEN" "op_retry d = 0" "acc_ok (op_frame d)" "frm_size (op_frame d) = 0"
    and "232 < length x" "length x < 4294967000"
  shows "\<exists>d'. jd_opipe_write now x d = Some (d', JD_PIPE_TRY_AGAIN) \<and>
    (\<forall>s a. op_store s a = d' \<and> now_us s = now \<longrightarrow> opipe_process_one a s = None)"
proof -
  let ?f = "(op_frame d)\<lparr>frm_crc := jd_crc16 (take (JD_FRAME_SIZE (op_frame d) - 2) (drop 2 (frame_bytes (op_frame d))))\<rparr>"
  have c: "jd_compute_crc (op_frame d) = Some ?f" using assms(3) by (intro jd_compute_crc_ok) (simp add: acc_ok_def)
  have "jd_opipe_write now x d = Some (d\<lparr>op_frame := ?f, op_retry := 1, op_retry_time := now\<rparr>, JD_PIPE_TRY_AGAIN)"
    using assms c by (simp add: jd_opipe_write_def jd_opipe_write_ex_def jd_opipe_check_space_def do_flush_def
        opipe_status JD_SERIAL_PAYLOAD_SIZE_def pipe_results)
  then show ?thesis
    using assms(4) by (auto simp: opipe_process_one_def in_past_def JD_OPIPE_MAX_RETRIES_def Let_def send_empty_frame_panics)
qed

theorem opipe_oversize_panics_witness:
  "\<exists>d'. jd_opipe_write 5 (replicate 240 0) sample_open = Some (d', JD_PIPE_TRY_AGAIN) \<and>
    (\<forall>(s :: pipes) a. op_store s a = d' \<and> now_us s = 5 \<longrightarrow> opipe_process_one a s = None)"
  by (rule opipe_oversize_panics)
     (simp_all add: sample_open_def zero_opipe_def acc_ok_def zero_frame_def JD_SERIAL_PAYLOAD_SIZE_def)

end
