(* ===== verification/Jd_Kv.thy ===== *)
theory Jd_Kv
  imports Jd_Prelude
begin

text \<open>
  The contract of a persistent key-value store: what a write, a restart and a read do to the map the
  store stands for.  A store wears out, so the relation between a map and a state counts the operations
  that are still possible.  Clients are proved against this contract; source/jd\_fstor.c is shown
  to meet it in Jd\_Fstor.
\<close>

datatype ('k, 'v) kv_op = Set 'k 'v | Restart

text \<open>A sequence of operations; the result also has the accepted writes.\<close>

fun kv_run :: "('k \<Rightarrow> 'v \<Rightarrow> 's \<Rightarrow> ('s \<times> int) option) \<Rightarrow> ('s \<Rightarrow> 's option) \<Rightarrow> ('k, 'v) kv_op list \<Rightarrow> 's \<Rightarrow>
    ('s \<times> ('k \<times> 'v) list) option" where
  "kv_run store restart [] s = Some (s, [])"
| "kv_run store restart (Set k v # ops) s = do {
     (s, r) \<leftarrow> store k v s;
     (s, acc) \<leftarrow> kv_run store restart ops s;
     Some (s, if r = 0 then (k, v) # acc else acc) }"
| "kv_run store restart (Restart # ops) s = do {
     s \<leftarrow> restart s;
     kv_run store restart ops s }"

fun kv_valid :: "('k \<Rightarrow> 'v \<Rightarrow> bool) \<Rightarrow> ('k, 'v) kv_op \<Rightarrow> bool" where
  "kv_valid valid (Set k v) = valid k v"
| "kv_valid valid Restart = True"

locale kv_store =
  fixes rel :: "nat \<Rightarrow> ('k \<Rightarrow> 'v option) \<Rightarrow> 's \<Rightarrow> bool"
    and valid :: "'k \<Rightarrow> 'v \<Rightarrow> bool"
    and vkey :: "'k \<Rightarrow> bool"
    and none :: 'v
    and store :: "'k \<Rightarrow> 'v \<Rightarrow> 's \<Rightarrow> ('s \<times> int) option"
    and restart :: "'s \<Rightarrow> 's option"
    and get :: "'k \<Rightarrow> 's \<Rightarrow> ('s \<times> 'v) option"
  assumes set_law: "rel (Suc n) m s \<Longrightarrow> valid k v \<Longrightarrow>
      \<exists>t r. store k v s = Some (t, r) \<and> rel n (if r = 0 then m(k \<mapsto> v) else m) t"
    and restart_law: "rel (Suc n) m s \<Longrightarrow> \<exists>t. restart s = Some t \<and> rel n m t"
    and get_law: "rel n m s \<Longrightarrow> vkey k \<Longrightarrow> \<exists>t. get k s = Some (t, case m k of None \<Rightarrow> none | Some v \<Rightarrow> v) \<and> rel n m t"
begin

lemma run_rel:
  assumes "rel (length ops + n) m s" "list_all (kv_valid valid) ops"
  shows "\<exists>t acc. kv_run store restart ops s = Some (t, acc) \<and> rel n (m ++ map_of (rev acc)) t"
  using assms
proof (induction ops arbitrary: m s)
  case Nil
  then show ?case by simp
next
  case (Cons a ops)
  show ?case
  proof (cases a)
    case (Set k v)
    obtain t r where t: "store k v s = Some (t, r)" "rel (length ops + n) (if r = 0 then m(k \<mapsto> v) else m) t"
      using set_law [of "length ops + n" m s k v] Cons.prems Set by auto
    obtain u acc where u: "kv_run store restart ops t = Some (u, acc)"
      "rel n ((if r = 0 then m(k \<mapsto> v) else m) ++ map_of (rev acc)) u"
      using Cons.IH [OF t(2)] Cons.prems by auto
    have "m(k \<mapsto> v) ++ map_of (rev acc) = m ++ map_of (rev ((k, v) # acc))"
      by (rule ext) (simp add: map_add_def split: option.split)
    with t(1) u Set show ?thesis by (auto split: if_splits)
  next
    case Restart
    obtain t where "restart s = Some t" "rel (length ops + n) m t"
      using restart_law [of "length ops + n" m s] Cons.prems Restart by auto
    with Cons.IH [of m t] Cons.prems Restart show ?thesis by auto
  qed
qed

text \<open>A client reads what was written last, whatever happened in between.\<close>

lemma run_get:
  assumes "rel (length ops) m s" "list_all (kv_valid valid) ops" "vkey k"
  shows "\<exists>t acc u. kv_run store restart ops s = Some (t, acc) \<and>
    get k t = Some (u, case (m ++ map_of (rev acc)) k of None \<Rightarrow> none | Some v \<Rightarrow> v)"
proof -
  obtain t acc where t: "kv_run store restart ops s = Some (t, acc)" "rel 0 (m ++ map_of (rev acc)) t"
    using run_rel [of ops 0 m s] assms by auto
  with get_law [OF t(2) assms(3)] show ?thesis by auto
qed

end

end
