(* ===== verification/Jd_Fstor.thy ===== *)
theory Jd_Fstor
  imports Jd_Kv "HOL-Library.Code_Target_Nat"
begin

text \<open>
  The settings store in flash, source/jd\_fstor.c, built with \<open>JD_SETTINGS_LARGE\<close> 0.  The store is two
  header areas of \<open>FSTOR_HEADER_SIZE\<close> bytes.  The active one holds a header, entries that grow upwards
  and values that grow downwards from its end; when it is full, the entries that are still current
  are copied to the other area, whose header is written last with the next generation number.

  \<open>fstor_base\<close> is address 0 of the byte list \<open>fs_flash\<close>, and pointers are offsets into it.  The flash
  driver is not part of the repository: \<open>flash_program\<close> and \<open>flash_erase\<close> are fields of the
  configuration, and \<open>flash_ok\<close> is what is relied on.  Programming is only specified for erased,
  aligned cells, so every theorem also shows that nothing else is ever programmed.
\<close>

record fcfg =
  JD_FLASH_PAGE_SIZE :: nat
  JD_FSTOR_TOTAL_SIZE :: nat
  HEADER_PAGES :: nat
  flash_program :: "nat \<Rightarrow> mem \<Rightarrow> mem \<Rightarrow> mem option"
  flash_erase :: "nat \<Rightarrow> mem \<Rightarrow> mem option"

definition FSTOR_PAGES :: "fcfg \<Rightarrow> nat" where
  "FSTOR_PAGES c = JD_FSTOR_TOTAL_SIZE c div JD_FLASH_PAGE_SIZE c"

definition FSTOR_HEADER_SIZE :: "fcfg \<Rightarrow> nat" where
  "FSTOR_HEADER_SIZE c = HEADER_PAGES c * JD_FLASH_PAGE_SIZE c"

definition FSTOR_MAGIC0 :: "32 word" where "FSTOR_MAGIC0 = 0x52545346"
definition FSTOR_MAGIC1 :: "32 word" where "FSTOR_MAGIC1 = 0x6becea0a"
definition FSTOR_KEYSIZE :: nat where "FSTOR_KEYSIZE = 15"

definition flash_ok :: "fcfg \<Rightarrow> bool" where
  "flash_ok c \<longleftrightarrow>
     (\<forall>off src f. 8 dvd off \<and> off + length src \<le> length f \<and> take (length src) (drop off f) = replicate (length src) 0xff \<longrightarrow>
        flash_program c off src f = Some (patch f off src)) \<and>
     (\<forall>off f. JD_FLASH_PAGE_SIZE c dvd off \<and> off + JD_FLASH_PAGE_SIZE c \<le> length f \<longrightarrow>
        flash_erase c off f = Some (patch f off (replicate (JD_FLASH_PAGE_SIZE c) 0xff)))"

definition fcfg_ok :: "fcfg \<Rightarrow> bool" where
  "fcfg_ok c \<longleftrightarrow> 8 dvd JD_FLASH_PAGE_SIZE c \<and> 200 \<le> FSTOR_HEADER_SIZE c \<and>
     2 * FSTOR_HEADER_SIZE c \<le> JD_FSTOR_TOTAL_SIZE c \<and> JD_FSTOR_TOTAL_SIZE c < 2147483648 \<and>
     FSTOR_PAGES c < 65536 \<and> HEADER_PAGES c < 65536"

record fstor =
  fs_flash :: mem
  fs_settings :: "nat option"
  fs_last_entry :: nat
  fs_data_start :: nat

section \<open>Entries\<close>

text \<open>\<open>jd_fstor_entry_t\<close> takes 24 bytes: the key, the offset and the size; \<open>jd_fstor_header_t\<close> has 24
  bytes before its entries.\<close>

definition entry_offset :: "mem \<Rightarrow> nat \<Rightarrow> 32 word option" where
  "entry_offset f e = map_option le_word (rd_mem f (e + 16) 4)"

definition entry_size :: "mem \<Rightarrow> nat \<Rightarrow> nat option" where
  "entry_size f e = map_option (\<lambda>b. unat (le_word b :: 32 word)) (rd_mem f (e + 20) 4)"

definition erase_pages :: "fcfg \<Rightarrow> nat \<Rightarrow> nat \<Rightarrow> mem \<Rightarrow> mem option" where
  "erase_pages c base num f =
     fold (\<lambda>i r. Option.bind r (flash_erase c (base + i * JD_FLASH_PAGE_SIZE c))) [0..<num] (Some f)"

definition align :: "nat \<Rightarrow> nat" where
  "align n = (if n = 0 then 8 else (n + 7) div 8 * 8)"

definition is_valid :: "mem \<Rightarrow> nat \<Rightarrow> bool option" where
  "is_valid f e = map_option (\<lambda>off. NOT off \<noteq> 0) (entry_offset f e)"

definition is_large :: "mem \<Rightarrow> nat \<Rightarrow> bool option" where
  "is_large f e = map_option (\<lambda>b. b = 0x2a) (rd8 f e)"

text \<open>A key argument is the text without its terminator, \<open>None\<close> the null pointer.\<close>

definition key_ok :: "mem option \<Rightarrow> bool" where
  "key_ok key = (case key of None \<Rightarrow> False
     | Some k \<Rightarrow> length k \<le> FSTOR_KEYSIZE \<and> \<not> (k \<noteq> [] \<and> hd k = 0x2a))"

text \<open>\<open>strcmp(...) == 0\<close> on the strings at \<open>p\<close> and \<open>q\<close>.\<close>

fun streq :: "nat \<Rightarrow> mem \<Rightarrow> nat \<Rightarrow> mem \<Rightarrow> nat \<Rightarrow> bool option" where
  "streq 0 f p g q = None"
| "streq (Suc n) f p g q = do {
     a \<leftarrow> rd8 f p;
     b \<leftarrow> rd8 g q;
     if a \<noteq> b then Some False else if a = 0 then Some True else streq n f (p + 1) g (q + 1) }"

definition strcmp_eq :: "mem \<Rightarrow> nat \<Rightarrow> mem \<Rightarrow> nat \<Rightarrow> bool option" where
  "strcmp_eq f p g q = streq (length f + 1) f p g q"

definition free_space :: "fstor \<Rightarrow> nat" where
  "free_space s = nat (int (fs_data_start s) - int (fs_last_entry s) - 48)"

section \<open>Mounting\<close>

text \<open>The loop over the entries; \<open>Some None\<close> is the mount failure \<open>oops\<close>.  Every round moves the
  pointer by 24 and it stays below \<open>minoff\<close>, so \<open>FSTOR_HEADER_SIZE\<close> rounds are enough.\<close>

fun scan_entries :: "nat \<Rightarrow> mem \<Rightarrow> nat \<Rightarrow> nat \<Rightarrow> (nat \<times> nat) option option" where
  "scan_entries 0 f e minoff = None"
| "scan_entries (Suc n) f e minoff = do {
     v \<leftarrow> is_valid f e;
     if v then do {
       off \<leftarrow> entry_offset f e;
       let minoff = (if unat off < minoff then unat off else minoff);
       let e = e + 24;
       if e > minoff then Some None else scan_entries n f e minoff }
     else Some (Some (e, minoff)) }"

definition recompute_cache :: "fcfg \<Rightarrow> fstor \<Rightarrow> fstor option" where
  "recompute_cache c s = do {
     h \<leftarrow> fs_settings s;
     r \<leftarrow> scan_entries (FSTOR_HEADER_SIZE c) (fs_flash s) (h + 24) (h + FSTOR_HEADER_SIZE c);
     case r of
       None \<Rightarrow> Some (s\<lparr>fs_settings := None\<rparr>)
     | Some (e, minoff) \<Rightarrow> do {
         let s = s\<lparr>fs_last_entry := e - 24, fs_data_start := minoff\<rparr>;
         p \<leftarrow> rd_mem (fs_flash s) e (minoff - e);
         if list_all (\<lambda>b. b = 0xff) p then Some s else Some (s\<lparr>fs_settings := None\<rparr>) } }"

definition header_bytes :: "fcfg \<Rightarrow> 32 word \<Rightarrow> mem" where
  "header_bytes c gen = le_bytes 4 FSTOR_MAGIC0 @ le_bytes 4 FSTOR_MAGIC1 @ le_bytes 4 gen @
     le_bytes 4 (of_nat (JD_FLASH_PAGE_SIZE c) :: 32 word) @ le_bytes 2 (of_nat (FSTOR_PAGES c) :: 16 word) @
     le_bytes 2 (of_nat (HEADER_PAGES c) :: 16 word) @ le_bytes 4 (0 :: 32 word)"

definition write_header :: "fcfg \<Rightarrow> 32 word \<Rightarrow> fstor \<Rightarrow> fstor option" where
  "write_header c gen s = do {
     h \<leftarrow> fs_settings s;
     f \<leftarrow> flash_program c h (header_bytes c gen) (fs_flash s);
     Some (s\<lparr>fs_flash := f\<rparr>) }"

definition is_valid_header :: "fcfg \<Rightarrow> mem \<Rightarrow> nat \<Rightarrow> bool option" where
  "is_valid_header c f h = do {
     m0 \<leftarrow> rd_mem f h 4;
     m1 \<leftarrow> rd_mem f (h + 4) 4;
     ps \<leftarrow> rd_mem f (h + 12) 4;
     tp \<leftarrow> rd_mem f (h + 16) 2;
     hp \<leftarrow> rd_mem f (h + 18) 2;
     Some (le_word m0 = FSTOR_MAGIC0 \<and> le_word m1 = FSTOR_MAGIC1 \<and>
       unat (le_word ps :: 32 word) = JD_FLASH_PAGE_SIZE c \<and> unat (le_word tp :: 16 word) = FSTOR_PAGES c \<and>
       unat (le_word hp :: 16 word) = HEADER_PAGES c) }"

definition generation :: "mem \<Rightarrow> nat \<Rightarrow> 32 word option" where
  "generation f h = map_option le_word (rd_mem f (h + 8) 4)"

definition jd_fstor_init :: "fcfg \<Rightarrow> fstor \<Rightarrow> fstor option" where
  "jd_fstor_init c s =
     (if fs_settings s \<noteq> None then Some s
      else do {
        let hs = FSTOR_HEADER_SIZE c;
        v0 \<leftarrow> is_valid_header c (fs_flash s) 0;
        v1 \<leftarrow> is_valid_header c (fs_flash s) hs;
        g0 \<leftarrow> generation (fs_flash s) 0;
        g1 \<leftarrow> generation (fs_flash s) hs;
        let s = s\<lparr>fs_settings := (if v0 \<and> v1 then Some (if g0 > g1 then 0 else hs)
          else if v0 then Some 0 else if v1 then Some hs else None)\<rparr>;
        s \<leftarrow> (if fs_settings s \<noteq> None then recompute_cache c s else Some s);
        if fs_settings s = None then do {
          f \<leftarrow> erase_pages c 0 (HEADER_PAGES c) (fs_flash s);
          s \<leftarrow> write_header c 1 (s\<lparr>fs_settings := Some 0, fs_flash := f\<rparr>);
          s \<leftarrow> recompute_cache c s;
          jd_assert (fs_settings s \<noteq> None);
          Some s }
        else Some s })"

section \<open>Garbage collection\<close>

text \<open>\<open>has_later_copy\<close> compares with the \<open>n\<close> entries behind \<open>e\<close>.\<close>

fun later_copy :: "nat \<Rightarrow> mem \<Rightarrow> nat \<Rightarrow> nat \<Rightarrow> bool option" where
  "later_copy 0 f e q = Some False"
| "later_copy (Suc n) f e q = do {
     eq \<leftarrow> strcmp_eq f q f e;
     if eq then Some True else later_copy n f e (q + 24) }"

definition has_later_copy :: "fstor \<Rightarrow> nat \<Rightarrow> bool option" where
  "has_later_copy s e = later_copy ((fs_last_entry s - e) div 24) (fs_flash s) e (e + 24)"

text \<open>The copying loop over the \<open>n\<close> entries from \<open>e\<close> on.\<close>

fun gc_loop :: "nat \<Rightarrow> fcfg \<Rightarrow> fstor \<Rightarrow> nat \<Rightarrow> nat \<Rightarrow> nat \<Rightarrow> fstor option" where
  "gc_loop 0 c s e dst_e dst_data = Some s"
| "gc_loop (Suc n) c s e dst_e dst_data = do {
     later \<leftarrow> has_later_copy s e;
     if later then gc_loop n c s (e + 24) dst_e dst_data
     else do {
       tmp \<leftarrow> rd_mem (fs_flash s) e 24;
       large \<leftarrow> is_large tmp 0;
       (s, tmp, dst_data) \<leftarrow> (if \<not> large then do {
          size \<leftarrow> entry_size tmp 0;
          off \<leftarrow> entry_offset tmp 0;
          jd_assert (align size \<le> dst_data);
          let dst_data = dst_data - align size;
          v \<leftarrow> rd_mem (fs_flash s) (unat off) size;
          f \<leftarrow> flash_program c dst_data v (fs_flash s);
          tmp \<leftarrow> wr_mem tmp 16 (le_bytes 4 (of_nat dst_data :: 32 word));
          Some (s\<lparr>fs_flash := f\<rparr>, tmp, dst_data) }
        else Some (s, tmp, dst_data));
       f \<leftarrow> flash_program c dst_e tmp (fs_flash s);
       gc_loop n c (s\<lparr>fs_flash := f\<rparr>) (e + 24) (dst_e + 24) dst_data } }"

definition jd_fstor_gc :: "fcfg \<Rightarrow> fstor \<Rightarrow> fstor option" where
  "jd_fstor_gc c s = do {
     h \<leftarrow> fs_settings s;
     let hs = FSTOR_HEADER_SIZE c;
     let alt = (if h = 0 then hs else 0);
     f \<leftarrow> erase_pages c alt (HEADER_PAGES c) (fs_flash s);
     s \<leftarrow> gc_loop ((fs_last_entry s - h) div 24) c (s\<lparr>fs_flash := f\<rparr>) (h + 24) (alt + 24) (alt + hs);
     gen \<leftarrow> generation (fs_flash s) h;
     s \<leftarrow> write_header c (gen + 1) (s\<lparr>fs_settings := Some alt\<rparr>);
     s \<leftarrow> recompute_cache c s;
     jd_assert (fs_settings s \<noteq> None);
     Some s }"

section \<open>Reading and writing settings\<close>

text \<open>The search from the last of \<open>n\<close> entries down to the first one.\<close>

fun find_from :: "nat \<Rightarrow> mem \<Rightarrow> nat \<Rightarrow> mem \<Rightarrow> nat option option" where
  "find_from 0 f h key = Some None"
| "find_from (Suc n) f h key = do {
     let e = h + 24 * Suc n;
     eq \<leftarrow> strcmp_eq f e (key @ [0]) 0;
     if eq then Some (Some e) else find_from n f h key }"

definition find_entry :: "fcfg \<Rightarrow> mem \<Rightarrow> fstor \<Rightarrow> (fstor \<times> nat option) option" where
  "find_entry c key s = do {
     s \<leftarrow> jd_fstor_init c s;
     h \<leftarrow> fs_settings s;
     r \<leftarrow> find_from ((fs_last_entry s - h) div 24) (fs_flash s) h key;
     Some (s, r) }"

text \<open>\<open>memcpy(dst, fstor_base + e->offset, space)\<close> copies \<open>space\<close> bytes, not \<open>e->size\<close>.\<close>

definition jd_settings_get_bin :: "fcfg \<Rightarrow> mem option \<Rightarrow> mem \<Rightarrow> nat \<Rightarrow> fstor \<Rightarrow> (fstor \<times> mem \<times> int) option" where
  "jd_settings_get_bin c key dst space s =
     (if \<not> key_ok key then Some (s, dst, -1)
      else do {
        (s, r) \<leftarrow> find_entry c (the key) s;
        case r of
          None \<Rightarrow> Some (s, dst, -2)
        | Some e \<Rightarrow> do {
            size \<leftarrow> entry_size (fs_flash s) e;
            if space \<ge> size then do {
              off \<leftarrow> entry_offset (fs_flash s) e;
              b \<leftarrow> rd_mem (fs_flash s) (unat off) space;
              dst \<leftarrow> wr_mem dst 0 b;
              Some (s, dst, int size) }
            else Some (s, dst, int size) } })"

definition entry_bytes :: "mem \<Rightarrow> nat \<Rightarrow> nat \<Rightarrow> mem" where
  "entry_bytes key off sz =
     key @ replicate (16 - length key) 0 @ le_bytes 4 (of_nat off :: 32 word) @ le_bytes 4 (of_nat sz :: 32 word)"

definition set_append :: "fcfg \<Rightarrow> mem \<Rightarrow> mem \<Rightarrow> fstor \<Rightarrow> fstor option" where
  "set_append c key val s = do {
     jd_assert (align (length val) \<le> fs_data_start s);
     let s = s\<lparr>fs_data_start := fs_data_start s - align (length val)\<rparr>;
     f \<leftarrow> flash_program c (fs_data_start s) val (fs_flash s);
     let s = s\<lparr>fs_last_entry := fs_last_entry s + 24\<rparr>;
     f \<leftarrow> flash_program c (fs_last_entry s) (entry_bytes key (fs_data_start s) (length val)) f;
     jd_assert (fs_last_entry s + 24 \<le> fs_data_start s);
     Some (s\<lparr>fs_flash := f\<rparr>) }"

definition same_value :: "mem \<Rightarrow> nat \<Rightarrow> mem \<Rightarrow> bool option" where
  "same_value f e val = do {
     size \<leftarrow> entry_size f e;
     if size \<noteq> length val then Some False
     else do {
       off \<leftarrow> entry_offset f e;
       b \<leftarrow> rd_mem f (unat off) (length val);
       Some (b = val) } }"

definition jd_settings_set_bin :: "fcfg \<Rightarrow> mem option \<Rightarrow> mem \<Rightarrow> fstor \<Rightarrow> (fstor \<times> int) option" where
  "jd_settings_set_bin c key val s =
     (if \<not> key_ok key then Some (s, -1)
      else if length val > sub32 (FSTOR_HEADER_SIZE c) 200 then Some (s, -2)
      else do {
        (s, e) \<leftarrow> find_entry c (the key) s;
        same \<leftarrow> (case e of None \<Rightarrow> Some False | Some e \<Rightarrow> same_value (fs_flash s) e val);
        if same then Some (s, 0)
        else do {
          let need = align (length val) + 24;
          s \<leftarrow> (if free_space s < need then jd_fstor_gc c s else Some s);
          if free_space s < need then Some (s, -3)
          else do {
            s \<leftarrow> set_append c (the key) val s;
            Some (s, 0) } } })"

text \<open>\<open>remount\<close> of the self-test, and the two calls of \<open>jd_settings_get_bin\<close> by which services/settings.c
  reads a value of unknown size: a missing setting reads as empty.\<close>

definition remount :: "fcfg \<Rightarrow> fstor \<Rightarrow> fstor option" where
  "remount c s = jd_fstor_init c (s\<lparr>fs_settings := None\<rparr>)"

definition settings_read :: "fcfg \<Rightarrow> mem \<Rightarrow> fstor \<Rightarrow> (fstor \<times> mem) option" where
  "settings_read c key s = do {
     (s, _, sz) \<leftarrow> jd_settings_get_bin c (Some key) [] 0 s;
     let n = nat (if sz < 0 then 0 else sz);
     (s, d, _) \<leftarrow> jd_settings_get_bin c (Some key) (replicate n 0) n s;
     Some (s, d) }"

section \<open>Byte strings in memory\<close>

definition bytes_at :: "mem \<Rightarrow> nat \<Rightarrow> mem \<Rightarrow> bool" where
  "bytes_at f p b \<longleftrightarrow> p + length b \<le> length f \<and> take (length b) (drop p f) = b"

lemma bytes_at_append: "bytes_at f p (a @ b) \<longleftrightarrow> bytes_at f p a \<and> bytes_at f (p + length a) b"
proof -
  have "take (length a + length b) (drop p f) = take (length a) (drop p f) @ take (length b) (drop (p + length a) f)"
    by (simp add: take_add add.commute)
  then show ?thesis
    by (auto simp: bytes_at_def append_eq_append_conv)
qed

lemma bytes_at_rd: "bytes_at f p b \<Longrightarrow> rd_mem f p (length b) = Some b"
  by (simp add: bytes_at_def)

lemma bytes_at_rd': "bytes_at f p b \<Longrightarrow> n = length b \<Longrightarrow> rd_mem f p n = Some b"
  by (simp add: bytes_at_rd)

lemma bytes_at_rd8: "bytes_at f p b \<Longrightarrow> i < length b \<Longrightarrow> rd8 f (p + i) = Some (b ! i)"
  unfolding bytes_at_def by (metis (no_types, lifting) add_less_mono1 add_leD1 nat_add_left_cancel_less nth_drop nth_take order_less_le_trans rd8_Some)

lemma bytes_at_patch_same: "p + length b \<le> length f \<Longrightarrow> bytes_at (patch f p b) p b"
  by (simp add: bytes_at_def take_drop_patch_same)

lemma bytes_at_patch_other:
  assumes "bytes_at f p b" "q + length x \<le> length f" "p + length b \<le> q \<or> q + length x \<le> p"
  shows "bytes_at (patch f q x) p b"
  using assms by (simp add: bytes_at_def take_drop_patch_disjoint)

lemma bytes_at_replicate_sub:
  assumes "bytes_at f p (replicate n x)" "p \<le> q" "q + m \<le> p + n"
  shows "bytes_at f q (replicate m x)"
proof -
  have "replicate n x = replicate (q - p) x @ replicate m x @ replicate (n - (q - p) - m) x"
    using assms(2,3) by (simp flip: replicate_add)
  with assms(1,2) show ?thesis by (metis bytes_at_append le_add_diff_inverse length_replicate)
qed

lemma bytes_at_Nil [simp]: "bytes_at f p [] \<longleftrightarrow> p \<le> length f"
  by (simp add: bytes_at_def)

section \<open>The contents of a header area\<close>

text \<open>A key and value that can be stored, the entries and the values of a list of settings whose area
  ends at \<open>tp\<close>, and the area as a whole.\<close>

definition kv_ok :: "mem \<times> mem \<Rightarrow> bool" where
  "kv_ok e \<longleftrightarrow> length (fst e) \<le> 15 \<and> 0 \<notin> set (fst e) \<and> \<not> (fst e \<noteq> [] \<and> hd (fst e) = 0x2a)"

fun ents :: "nat \<Rightarrow> (mem \<times> mem) list \<Rightarrow> mem" where
  "ents tp [] = []"
| "ents tp ((k, v) # es) = entry_bytes k (tp - align (length v)) (length v) @ ents (tp - align (length v)) es"

fun vals :: "(mem \<times> mem) list \<Rightarrow> mem" where
  "vals [] = []"
| "vals ((k, v) # es) = vals es @ v @ replicate (align (length v) - length v) 0xff"

definition gap :: "fcfg \<Rightarrow> (mem \<times> mem) list \<Rightarrow> nat" where
  "gap c es = FSTOR_HEADER_SIZE c - 24 - 24 * length es - length (vals es)"

definition area_body :: "fcfg \<Rightarrow> nat \<Rightarrow> (mem \<times> mem) list \<Rightarrow> mem" where
  "area_body c h es = ents (h + FSTOR_HEADER_SIZE c) es @ replicate (gap c es) 0xff @ vals es"

definition fits :: "fcfg \<Rightarrow> (mem \<times> mem) list \<Rightarrow> bool" where
  "fits c es \<longleftrightarrow> 48 + 24 * length es + length (vals es) \<le> FSTOR_HEADER_SIZE c"

lemma align_ge: "n \<le> align n"
  unfolding align_def by (cases "n = 0"; simp; arith)

lemma align_pos: "8 \<le> align n"
  unfolding align_def by (cases "n = 0"; simp; arith)

lemma align_dvd: "8 dvd align n"
  by (simp add: align_def)

lemma length_header_bytes [simp]: "length (header_bytes c g) = 24"
  by (simp add: header_bytes_def)

lemma length_entry_bytes [simp]: "length k \<le> 15 \<Longrightarrow> length (entry_bytes k off sz) = 24"
  by (simp add: entry_bytes_def)

lemma length_ents: "list_all kv_ok es \<Longrightarrow> length (ents tp es) = 24 * length es"
proof (induction es arbitrary: tp)
  case (Cons e es)
  then show ?case by (cases e) (simp add: kv_ok_def)
qed simp

lemma ents_append: "ents tp (xs @ ys) = ents tp xs @ ents (tp - length (vals xs)) ys"
proof (induction xs arbitrary: tp)
  case (Cons e xs)
  obtain k v where "e = (k, v)" by (cases e)
  moreover have "length v \<le> align (length v)" by (rule align_ge)
  ultimately show ?case using Cons by (simp add: algebra_simps)
qed simp

lemma vals_append: "vals (xs @ ys) = vals ys @ vals xs"
  by (induction xs rule: vals.induct) simp_all

lemma length_vals_snoc [simp]: "length (vals [(k, v)]) = align (length v)"
  using align_ge [of "length v"] by simp

lemma vals_dvd: "8 dvd length (vals es)"
proof (induction es rule: vals.induct)
  case (2 k v es)
  then show ?case using align_ge [of "length v"] align_dvd [of "length v"] by simp
qed simp

lemma bytes_at_Cons: "bytes_at f p (x # b) \<longleftrightarrow> rd8 f p = Some x \<and> bytes_at f (p + 1) b"
proof -
  have "bytes_at f p [x] \<longleftrightarrow> rd8 f p = Some x"
    by (auto simp: bytes_at_def rd8_Some_iff take_Suc_conv_app_nth hd_drop_conv_nth)
  then show ?thesis using bytes_at_append [of f p "[x]" b] by simp
qed

lemma streq_strings:
  "0 \<notin> set k \<Longrightarrow> 0 \<notin> set l \<Longrightarrow> bytes_at f p (k @ [0]) \<Longrightarrow> bytes_at g q (l @ [0]) \<Longrightarrow> length k < n \<Longrightarrow>
    streq n f p g q = Some (k = l)"
proof (induction k arbitrary: l p q n)
  case Nil
  then show ?case by (cases n; cases l) (auto simp: bytes_at_Cons)
next
  case (Cons x k)
  then obtain m where n: "n = Suc m" by (cases n) auto
  show ?case
  proof (cases l)
    case Nil
    with Cons.prems n show ?thesis by (auto simp: bytes_at_Cons)
  next
    case (Cons y l')
    with Cons.IH [of l' "p + 1" "q + 1" m] Cons.prems n show ?thesis by (auto simp: bytes_at_Cons)
  qed
qed

lemma bytes_at_length: "bytes_at f p b \<Longrightarrow> length b \<le> length f"
  by (simp add: bytes_at_def)

lemma strcmp_eq_strings:
  assumes "0 \<notin> set k" "0 \<notin> set l" "bytes_at f p (k @ [0])" "bytes_at g q (l @ [0])"
  shows "strcmp_eq f p g q = Some (k = l)"
  using streq_strings [OF assms, of "length f + 1"] bytes_at_length [OF assms(3)] by (simp add: strcmp_eq_def)

text \<open>What the accessors return for an entry of the store.\<close>

lemma entry_key_string:
  assumes "bytes_at f e (entry_bytes k off sz)" "length k \<le> 15"
  shows "bytes_at f e (k @ [0])"
proof -
  have "replicate (16 - length k) (0 :: byte) = 0 # replicate (15 - length k) 0"
    using assms(2) by (simp add: Suc_diff_le replicate_Suc [symmetric] del: replicate_Suc)
  with assms(1) show ?thesis by (simp add: entry_bytes_def bytes_at_append bytes_at_Cons rd8_Some_iff)
qed

lemma entry_fields:
  assumes "bytes_at f e (entry_bytes k off sz)" "length k \<le> 15" "off < 4294967295" "sz < 4294967296"
  shows "entry_offset f e = Some (of_nat off)" "entry_size f e = Some sz" "is_valid f e = Some True"
    "rd_mem f e 24 = Some (entry_bytes k off sz)"
proof -
  have b: "bytes_at f (e + 16) (le_bytes 4 (of_nat off :: 32 word))" "bytes_at f (e + 20) (le_bytes 4 (of_nat sz :: 32 word))"
    using assms(1,2) by (simp_all add: entry_bytes_def bytes_at_append add.commute add.left_commute)
  show o: "entry_offset f e = Some (of_nat off)"
    using bytes_at_rd' [OF b(1), of 4] by (simp add: entry_offset_def)
  show "entry_size f e = Some sz"
    using bytes_at_rd' [OF b(2), of 4] assms(4) by (simp add: entry_size_def unat_of_nat_32)
  have "NOT (of_nat off :: 32 word) \<noteq> 0"
  proof
    assume "NOT (of_nat off :: 32 word) = 0"
    then have "(of_nat off :: 32 word) = NOT 0" by (metis bit.double_compl)
    then have "unat (of_nat off :: 32 word) = 4294967295"
      by (simp add: unsigned_minus_1_eq_mask mask_eq_exp_minus_1)
    with assms(3) show False by (simp add: unat_of_nat_32)
  qed
  with o show "is_valid f e = Some True" by (simp add: is_valid_def)
  show "rd_mem f e 24 = Some (entry_bytes k off sz)"
    using assms(1,2) by (intro bytes_at_rd') simp_all
qed

section \<open>Looking into a mounted area\<close>

text \<open>\<open>holds\<close>: the area at \<open>h\<close> consists of these settings.\<close>

definition holds :: "fcfg \<Rightarrow> mem \<Rightarrow> nat \<Rightarrow> (mem \<times> mem) list \<Rightarrow> bool" where
  "holds c f h es \<longleftrightarrow> bytes_at f (h + 24) (area_body c h es) \<and> list_all kv_ok es \<and> fits c es \<and> h + FSTOR_HEADER_SIZE c < 4294967295"

definition val_off :: "fcfg \<Rightarrow> nat \<Rightarrow> (mem \<times> mem) list \<Rightarrow> nat" where
  "val_off c h es = h + FSTOR_HEADER_SIZE c - length (vals es)"

lemma val_len_le: "length v \<le> length (vals (xs @ (k, v) # ys))"
  by (simp add: vals_append)

lemma holds_entry:
  assumes "holds c f h (xs @ (k, v) # ys)"
  shows "bytes_at f (h + 24 + 24 * length xs) (entry_bytes k (val_off c h (xs @ [(k, v)])) (length v))"
    "bytes_at f (val_off c h (xs @ [(k, v)])) v"
    "length k \<le> 15" "0 \<notin> set k" "val_off c h (xs @ [(k, v)]) < 4294967295" "length v < 4294967296"
    "8 dvd align (length v)"
proof -
  let ?H = "FSTOR_HEADER_SIZE c" and ?es = "xs @ (k, v) # ys"
  have kv: "list_all kv_ok xs" "length k \<le> 15" "0 \<notin> set k"
    using assms by (simp_all add: holds_def kv_ok_def)
  have fit: "48 + 24 * length ?es + length (vals ?es) \<le> ?H" and big: "h + ?H < 4294967295"
    using assms by (simp_all only: holds_def fits_def)
  have a: "bytes_at f (h + 24) (ents (h + ?H) ?es @ replicate (gap c ?es) 0xff @ vals ?es)"
    using assms by (simp add: holds_def area_body_def)
  have al: "length v \<le> align (length v)" by (rule align_ge)
  have vo: "val_off c h (xs @ [(k, v)]) = h + ?H - length (vals xs) - align (length v)"
    using al by (simp add: val_off_def vals_append)
  show "bytes_at f (h + 24 + 24 * length xs) (entry_bytes k (val_off c h (xs @ [(k, v)])) (length v))"
    using a kv(1) by (simp add: ents_append bytes_at_append length_ents vo)
  have len: "24 + length (ents (h + ?H) ?es) + gap c ?es + length (vals ys) = ?H - length (vals xs) - align (length v)"
    using fit al assms by (simp add: length_ents holds_def gap_def vals_append)
  have "bytes_at f (h + 24 + length (ents (h + ?H) ?es) + gap c ?es) (vals ys @ v @ replicate (align (length v) - length v) 0xff)"
    using a by (simp add: bytes_at_append vals_append add.assoc)
  then have "bytes_at f (h + 24 + length (ents (h + ?H) ?es) + gap c ?es + length (vals ys)) v"
    by (simp add: bytes_at_append)
  moreover have "h + 24 + length (ents (h + ?H) ?es) + gap c ?es + length (vals ys) = val_off c h (xs @ [(k, v)])"
    using len fit al by (simp add: vo vals_append)
  ultimately show "bytes_at f (val_off c h (xs @ [(k, v)])) v" by simp
  show "length k \<le> 15" "0 \<notin> set k" by (fact kv)+
  show "val_off c h (xs @ [(k, v)]) < 4294967295" using big by (simp add: val_off_def)
  show "length v < 4294967296" using fit big val_len_le [of v xs k ys] by linarith
  show "8 dvd align (length v)" by (rule align_dvd)
qed

lemma holds_gap:
  assumes "holds c f h es"
  shows "bytes_at f (h + 24 + 24 * length es) (replicate (gap c es) 0xff)" "24 \<le> gap c es"
    "h + 24 + 24 * length es + gap c es = val_off c h es"
proof -
  let ?H = "FSTOR_HEADER_SIZE c"
  have fit: "48 + 24 * length es + length (vals es) \<le> ?H" using assms by (simp add: holds_def fits_def)
  have "length (ents (h + ?H) es) = 24 * length es" using assms by (simp add: holds_def length_ents)
  then show "bytes_at f (h + 24 + 24 * length es) (replicate (gap c es) 0xff)"
    using assms by (simp add: holds_def area_body_def bytes_at_append)
  show "24 \<le> gap c es" using fit by (simp add: gap_def)
  show "h + 24 + 24 * length es + gap c es = val_off c h es" using fit by (simp add: gap_def val_off_def)
qed

text \<open>The search finds the last entry with the key.\<close>

lemma find_from_holds:
  assumes "holds c f h (es @ rest)" "0 \<notin> set k"
  shows "find_from (length es) f h k =
    Some (if k \<in> fst ` set es then Some (h + 24 * length (dropWhile (\<lambda>e. fst e \<noteq> k) (rev es))) else None)"
  using assms(1)
proof (induction es arbitrary: rest rule: rev_induct)
  case Nil
  then show ?case by simp
next
  case (snoc e es)
  obtain l v where e: "e = (l, v)" by (cases e)
  have hd: "holds c f h (es @ (l, v) # rest)" using snoc.prems e by simp
  note ent = holds_entry [OF hd]
  have "strcmp_eq f (h + 24 * Suc (length es)) (k @ [0]) 0 = Some (l = k)"
    using strcmp_eq_strings [OF ent(4) assms(2) entry_key_string [OF ent(1,3)], of "k @ [0]" 0]
    by (simp add: bytes_at_def add.assoc)
  with snoc.IH [of "(l, v) # rest"] hd e show ?case by auto
qed

text \<open>Scanning the entries stops behind the last one and finds the start of the values.\<close>

lemma val_off_snoc:
  assumes "48 + 24 * length (es @ [(k, v)]) + length (vals (es @ [(k, v)])) \<le> FSTOR_HEADER_SIZE c"
  shows "val_off c h (es @ [(k, v)]) = val_off c h es - align (length v)" "val_off c h (es @ [(k, v)]) < val_off c h es"
    "h + 48 + 24 * length es \<le> val_off c h (es @ [(k, v)])"
  using assms align_pos [of "length v"] align_ge [of "length v"] by (simp_all add: val_off_def vals_append)

lemma scan_holds:
  assumes "holds c f h (xs @ ys)" "length ys < n"
  shows "scan_entries n f (h + 24 + 24 * length xs) (val_off c h xs) =
    Some (Some (h + 24 + 24 * length (xs @ ys), val_off c h (xs @ ys)))"
  using assms
proof (induction ys arbitrary: xs n)
  case Nil
  have hx: "holds c f h xs" using Nil by simp
  have g: "bytes_at f (h + 24 + 24 * length xs) (replicate 24 0xff)"
    by (rule bytes_at_replicate_sub [OF holds_gap(1) [OF hx]]) (use holds_gap(2) [OF hx] in simp_all)
  have "bytes_at f (h + 24 + 24 * length xs + 16) (replicate 4 0xff)"
    by (rule bytes_at_replicate_sub [OF g]) simp_all
  from bytes_at_rd' [OF this, of 4]
  have "entry_offset f (h + 24 + 24 * length xs) = Some (le_word (replicate 4 0xff))"
    by (simp add: entry_offset_def)
  moreover have "NOT (le_word (replicate 4 (0xff :: byte)) :: 32 word) = 0" by code_simp
  ultimately have "is_valid f (h + 24 + 24 * length xs) = Some False" by (simp add: is_valid_def)
  then show ?case using Nil by (cases n) simp_all
next
  case (Cons e ys)
  obtain k v where e: "e = (k, v)" by (cases e)
  obtain m where n: "n = Suc m" using Cons.prems(2) by (cases n) auto
  have hd: "holds c f h (xs @ (k, v) # ys)" using Cons.prems e by simp
  note ent = holds_entry [OF hd] and fld = entry_fields [OF holds_entry(1,3,5,6) [OF hd]]
  have "48 + 24 * length (xs @ (k, v) # ys) + length (vals (xs @ (k, v) # ys)) \<le> FSTOR_HEADER_SIZE c"
    using hd by (simp only: holds_def fits_def)
  then have fit: "48 + 24 * length (xs @ [(k, v)]) + length (vals (xs @ [(k, v)])) \<le> FSTOR_HEADER_SIZE c"
    by (simp add: vals_append)
  note vo = val_off_snoc [OF fit, of h]
  have u: "unat (of_nat (val_off c h (xs @ [(k, v)])) :: 32 word) = val_off c h (xs @ [(k, v)])"
    using ent(5) by (simp add: unat_of_nat_32)
  have "scan_entries n f (h + 24 + 24 * length xs) (val_off c h xs) =
      scan_entries m f (h + 24 + 24 * length (xs @ [(k, v)])) (val_off c h (xs @ [(k, v)]))"
    using fld vo u by (simp add: n Let_def)
  also have "\<dots> = Some (Some (h + 24 + 24 * length ((xs @ [(k, v)]) @ ys), val_off c h ((xs @ [(k, v)]) @ ys)))"
    using hd Cons.prems(2) n by (intro Cons.IH) simp_all
  finally show ?case by (simp add: e)
qed

lemma recompute_holds:
  assumes "fs_settings s = Some h" "holds c (fs_flash s) h es"
  shows "recompute_cache c s = Some (s\<lparr>fs_last_entry := h + 24 * length es, fs_data_start := val_off c h es\<rparr>)"
proof -
  let ?H = "FSTOR_HEADER_SIZE c" and ?f = "fs_flash s"
  have "48 + 24 * length es + length (vals es) \<le> ?H" using assms(2) by (simp add: holds_def fits_def)
  then have n: "length es < ?H" by simp
  have sc: "scan_entries ?H ?f (h + 24) (h + ?H) = Some (Some (h + 24 + 24 * length es, val_off c h es))"
    using scan_holds [of c ?f h "[]" es ?H] assms(2) n by (simp add: val_off_def)
  note g = holds_gap [OF assms(2)]
  have "rd_mem ?f (h + 24 + 24 * length es) (val_off c h es - (h + 24 + 24 * length es)) = Some (replicate (gap c es) 0xff)"
    by (rule bytes_at_rd' [OF g(1)]) (simp flip: g(3))
  then show ?thesis
    by (simp add: recompute_cache_def assms(1) sc Let_def list_all_iff)
qed

section \<open>Adding an entry\<close>

lemma flash_program_erased:
  assumes "flash_ok c" "8 dvd off" "bytes_at f off (replicate (length src) 0xff)"
  shows "flash_program c off src f = Some (patch f off src)" "off + length src \<le> length f"
  using assms by (simp_all add: flash_ok_def bytes_at_def)

text \<open>Adding a setting to an area: two disjoint stretches of its gap are programmed.\<close>

definition put :: "fcfg \<Rightarrow> nat \<Rightarrow> (mem \<times> mem) list \<Rightarrow> mem \<Rightarrow> mem \<Rightarrow> mem \<Rightarrow> mem" where
  "put c h es k v f = patch (patch f (val_off c h es - align (length v)) v) (h + 24 + 24 * length es)
     (entry_bytes k (val_off c h es - align (length v)) (length v))"

lemma put_ok:
  assumes "flash_ok c" "fcfg_ok c" "8 dvd h" "holds c f h es" "kv_ok (k, v)" "fits c (es @ [(k, v)])"
  shows "flash_program c (val_off c h es - align (length v)) v f = Some (patch f (val_off c h es - align (length v)) v)"
    "flash_program c (h + 24 + 24 * length es) (entry_bytes k (val_off c h es - align (length v)) (length v))
       (patch f (val_off c h es - align (length v)) v) = Some (put c h es k v f)"
    "holds c (put c h es k v f) h (es @ [(k, v)])" "length (put c h es k v f) = length f"
    "\<And>p b. bytes_at f p b \<Longrightarrow> p + length b \<le> h + 24 \<or> h + FSTOR_HEADER_SIZE c \<le> p \<Longrightarrow> bytes_at (put c h es k v f) p b"
proof -
  let ?H = "FSTOR_HEADER_SIZE c" and ?n = "length es" and ?a = "align (length v)"
  let ?d = "val_off c h es - ?a" and ?e = "h + 24 + 24 * length es" and ?es = "es @ [(k, v)]"
  let ?E = "entry_bytes k ?d (length v)" and ?g = "patch f ?d v"
  have fit: "48 + 24 * length ?es + length (vals ?es) \<le> ?H" using assms(6) by (simp only: fits_def)
  have al: "length v \<le> ?a" "8 \<le> ?a" "8 dvd ?a" by (rule align_ge, rule align_pos, rule align_dvd)
  have k: "length k \<le> 15" "list_all kv_ok es" using assms(4,5) by (simp_all add: kv_ok_def holds_def)
  note gp = holds_gap [OF assms(4)]
  have vo: "val_off c h es = h + ?H - length (vals es)" by (simp add: val_off_def)
  have lv: "length (vals ?es) = ?a + length (vals es)" using al by (simp add: vals_append)
  have sp: "?e + 48 + ?a \<le> val_off c h es" "val_off c h es \<le> h + ?H" using fit lv by (simp_all add: vo)
  have dsp: "?e + 48 \<le> ?d" "?d + ?a = val_off c h es" using sp by linarith+
  have vd: "val_off c h ?es = ?d" using lv by (simp add: val_off_def)
  have fl: "val_off c h es \<le> length f" using gp(1,3) by (simp add: bytes_at_def)
  have dvd: "8 dvd ?H" using assms(2) by (simp add: fcfg_ok_def FSTOR_HEADER_SIZE_def)
  have dd: "8 dvd ?d" using assms(3) dvd vals_dvd [of es] al(3) sp by (simp add: vo dvd_diff_nat)
  have de: "8 dvd ?e" using assms(3) by (simp add: dvd_add)
  have sub: "bytes_at f q (replicate m 0xff)" if "?e \<le> q" "q + m \<le> val_off c h es" for q m
    by (rule bytes_at_replicate_sub [OF gp(1)]) (use that gp(3) in simp_all)
  show p1: "flash_program c ?d v f = Some ?g"
    using sp al by (intro flash_program_erased(1) [OF assms(1) dd sub]) simp_all
  have g1: "bytes_at ?g ?e (replicate 24 0xff)"
    using sp dsp al fl by (intro bytes_at_patch_other sub) simp_all
  show p2: "flash_program c ?e ?E ?g = Some (put c h es k v f)"
    using flash_program_erased(1) [OF assms(1) de, of ?g ?E] g1 k(1) by (simp add: put_def)
  have len: "length ?g = length f" "length (put c h es k v f) = length f"
    using sp al fl k(1) by (simp_all add: put_def)
  then show "length (put c h es k v f) = length f" by simp
  have keep: "bytes_at (put c h es k v f) q b"
    if "bytes_at f q b" "q + length b \<le> ?d \<or> ?d + length v \<le> q" "q + length b \<le> ?e \<or> ?e + 24 \<le> q" for q b
    unfolding put_def using that k(1) len(1) sp al fl
    by (intro bytes_at_patch_other) simp_all
  show "bytes_at (put c h es k v f) q b" if "bytes_at f q b" "q + length b \<le> h + 24 \<or> h + ?H \<le> q" for q b
    using that sp al by (intro keep) auto
  have eq: "ents (h + ?H) ?es = ents (h + ?H) es @ ?E" "length (ents (h + ?H) es) = 24 * ?n"
    using k(2) by (simp_all add: ents_append vo length_ents)
  have "bytes_at f (h + 24) (ents (h + ?H) es)" "bytes_at f (val_off c h es) (vals es)"
    using assms(4) gp(3) eq(2) by (simp_all add: holds_def area_body_def bytes_at_append)
  then have b1: "bytes_at (put c h es k v f) (h + 24) (ents (h + ?H) es)" "bytes_at (put c h es k v f) (val_off c h es) (vals es)"
    using eq(2) sp al by (auto intro!: keep)
  have b2: "bytes_at (put c h es k v f) ?e ?E"
    unfolding put_def using len(1) sp fl k(1) by (intro bytes_at_patch_same) simp
  have ge: "?e + 24 + gap c ?es = ?d" using sp lv fit by (simp add: gap_def vo)
  have b3: "bytes_at (put c h es k v f) (?e + 24) (replicate (gap c ?es) 0xff)"
    using dsp ge al by (intro keep sub) simp_all
  have b4: "bytes_at (put c h es k v f) ?d v"
    unfolding put_def
    by (rule bytes_at_patch_other [OF bytes_at_patch_same]) (use len(1) sp dsp al fl k(1) in simp_all)
  have b5: "bytes_at (put c h es k v f) (?d + length v) (replicate (?a - length v) 0xff)"
    using sp al by (intro keep sub) simp_all
  have "bytes_at (put c h es k v f) (h + 24) (ents (h + ?H) es @ ?E @ replicate (gap c ?es) 0xff @
      (v @ replicate (?a - length v) 0xff) @ vals es)"
    using b1 b2 b3 b4 b5 eq(2) ge k(1) al sp by (simp add: bytes_at_append)
  then show "holds c (put c h es k v f) h ?es"
    using assms(4-6) eq(1) by (simp add: holds_def area_body_def vals_append)
qed

section \<open>Garbage collection keeps what is current\<close>

fun live :: "(mem \<times> mem) list \<Rightarrow> (mem \<times> mem) list" where
  "live [] = []"
| "live ((k, v) # es) = (if k \<in> fst ` set es then live es else (k, v) # live es)"

lemma live_subset: "set (live es) \<subseteq> set es"
  by (induction es rule: live.induct) auto

lemma live_kv: "list_all kv_ok es \<Longrightarrow> list_all kv_ok (live es)"
  using live_subset by (auto simp: list_all_iff)

lemma live_fits: "length (live es) \<le> length es \<and> length (vals (live es)) \<le> length (vals es)"
proof (induction es)
  case (Cons e es)
  then show ?case by (cases e) auto
qed simp

lemma fits_live: "fits c es \<Longrightarrow> fits c (live es)"
  using live_fits [of es] by (simp add: fits_def)

lemma fits_prefix: "fits c (xs @ ys) \<Longrightarrow> fits c xs"
  by (simp add: fits_def vals_append)

lemma erase_pages_eq:
  assumes "flash_ok c" "JD_FLASH_PAGE_SIZE c dvd base" "base + n * JD_FLASH_PAGE_SIZE c \<le> length f"
  shows "erase_pages c base n f = Some (patch f base (replicate (n * JD_FLASH_PAGE_SIZE c) 0xff))"
  using assms(3)
proof (induction n)
  case 0
  then show ?case by (simp add: erase_pages_def)
next
  case (Suc n)
  let ?P = "JD_FLASH_PAGE_SIZE c" and ?g = "patch f base (replicate (n * JD_FLASH_PAGE_SIZE c) 0xff)"
  have le: "base + n * ?P + ?P \<le> length f" using Suc.prems by simp
  have "erase_pages c base (Suc n) f = Option.bind (erase_pages c base n f) (flash_erase c (base + n * ?P))"
    by (simp add: erase_pages_def)
  also have "\<dots> = flash_erase c (base + n * ?P) ?g" using Suc le by simp
  also have "\<dots> = Some (patch ?g (base + n * ?P) (replicate ?P 0xff))"
    using assms(1,2) le by (simp add: flash_ok_def)
  also have "patch ?g (base + n * ?P) (replicate ?P 0xff) = patch f base (replicate (Suc n * ?P) 0xff)"
    using patch_patch_append [of base "replicate (n * ?P) 0xff" "replicate ?P 0xff" f] le
    by (simp add: add.commute flip: replicate_add)
  finally show ?case .
qed

lemma holds_empty:
  assumes "bytes_at f (h + 24) (replicate (FSTOR_HEADER_SIZE c - 24) 0xff)" "200 \<le> FSTOR_HEADER_SIZE c"
    and "h + FSTOR_HEADER_SIZE c < 4294967295"
  shows "holds c f h []"
  using assms by (simp add: holds_def area_body_def gap_def fits_def)

lemma holds_cong:
  assumes "holds c f h es" "\<And>p b. bytes_at f p b \<Longrightarrow> h + 24 \<le> p \<Longrightarrow> p + length b \<le> h + FSTOR_HEADER_SIZE c \<Longrightarrow> bytes_at g p b"
  shows "holds c g h es"
proof -
  have "length (area_body c h es) = FSTOR_HEADER_SIZE c - 24" "24 \<le> FSTOR_HEADER_SIZE c"
    using assms(1) by (simp_all add: holds_def area_body_def length_ents fits_def gap_def)
  with assms show ?thesis by (simp add: holds_def)
qed

lemma later_copy_holds:
  assumes "holds c f h (xs @ (k, v) # us @ zs)"
  shows "later_copy (length zs) f (h + 24 + 24 * length xs) (h + 48 + 24 * length xs + 24 * length us) = Some (k \<in> fst ` set zs)"
  using assms
proof (induction zs arbitrary: us)
  case Nil
  then show ?case by simp
next
  case (Cons z zs)
  obtain l w where z: "z = (l, w)" by (cases z)
  have h1: "holds c f h ((xs @ (k, v) # us) @ (l, w) # zs)" using Cons.prems z by simp
  have h2: "holds c f h (xs @ (k, v) # (us @ (l, w) # zs))" using h1 by simp
  note a = holds_entry [OF h1] and b = holds_entry [OF h2]
  have "strcmp_eq f (h + 48 + 24 * length xs + 24 * length us) f (h + 24 + 24 * length xs) = Some (l = k)"
    using strcmp_eq_strings [OF a(4) b(4) entry_key_string [OF a(1,3)] entry_key_string [OF b(1,3)]]
    by (simp add: ac_simps)
  with Cons.IH [of "us @ [(l, w)]"] h1 z show ?case by (auto simp: algebra_simps)
qed

lemma entry_on_stack:
  assumes "length k \<le> 15" "off < 4294967295" "sz < 4294967296" "\<not> (k \<noteq> [] \<and> hd k = 0x2a)"
  shows "is_large (entry_bytes k off sz) 0 = Some False" "entry_size (entry_bytes k off sz) 0 = Some sz"
    "entry_offset (entry_bytes k off sz) 0 = Some (of_nat off)"
    "wr_mem (entry_bytes k off sz) 16 (le_bytes 4 (of_nat d :: 32 word)) = Some (entry_bytes k d sz)"
proof -
  have "bytes_at (entry_bytes k off sz) 0 (entry_bytes k off sz)" using assms(1) by (simp add: bytes_at_def)
  note f = entry_fields [OF this assms(1-3)]
  show "entry_size (entry_bytes k off sz) 0 = Some sz" "entry_offset (entry_bytes k off sz) 0 = Some (of_nat off)"
    using f by simp_all
  show "is_large (entry_bytes k off sz) 0 = Some False"
    using assms(1,4) by (cases k) (simp_all add: is_large_def entry_bytes_def rd8_def nth_append)
  show "wr_mem (entry_bytes k off sz) 16 (le_bytes 4 (of_nat d :: 32 word)) = Some (entry_bytes k d sz)"
    using assms(1) by (simp add: patch_def entry_bytes_def)
qed

text \<open>Bytes outside of the body of an area.\<close>

definition outside :: "fcfg \<Rightarrow> nat \<Rightarrow> nat \<Rightarrow> mem \<Rightarrow> bool" where
  "outside c h p b \<longleftrightarrow> p + length b \<le> h + 24 \<or> h + FSTOR_HEADER_SIZE c \<le> p"

definition keeps_outside :: "fcfg \<Rightarrow> nat \<Rightarrow> mem \<Rightarrow> mem \<Rightarrow> bool" where
  "keeps_outside c h f g \<longleftrightarrow> length g = length f \<and> (\<forall>p b. bytes_at f p b \<longrightarrow> outside c h p b \<longrightarrow> bytes_at g p b)"

lemma keeps_outside_refl [simp]: "keeps_outside c h f f"
  by (simp add: keeps_outside_def)

lemma keeps_outside_trans: "keeps_outside c h f g \<Longrightarrow> keeps_outside c h g k \<Longrightarrow> keeps_outside c h f k"
  by (simp add: keeps_outside_def)

lemma keeps_outside_holds:
  assumes "keeps_outside c a f g" "holds c f h es" "h + FSTOR_HEADER_SIZE c \<le> a \<or> a + FSTOR_HEADER_SIZE c \<le> h"
  shows "holds c g h es"
  using assms by (intro holds_cong [OF assms(2)]) (auto simp: keeps_outside_def outside_def)

lemma put_outside:
  assumes "flash_ok c" "fcfg_ok c" "8 dvd h" "holds c f h es" "kv_ok (k, v)" "fits c (es @ [(k, v)])"
  shows "keeps_outside c h f (put c h es k v f)"
  using put_ok(4,5) [OF assms] by (auto simp: keeps_outside_def outside_def)

lemma gc_loop_holds:
  assumes ok: "flash_ok c" "fcfg_ok c" "8 dvd alt" and disj: "h + FSTOR_HEADER_SIZE c \<le> alt \<or> alt + FSTOR_HEADER_SIZE c \<le> h"
  shows "holds c (fs_flash s) h (xs @ ys) \<Longrightarrow> holds c (fs_flash s) alt ds \<Longrightarrow> fits c (ds @ live ys) \<Longrightarrow>
    fs_last_entry s = h + 24 * length (xs @ ys) \<Longrightarrow>
    \<exists>f. gc_loop (length ys) c s (h + 24 + 24 * length xs) (alt + 24 + 24 * length ds) (val_off c alt ds) = Some (s\<lparr>fs_flash := f\<rparr>) \<and>
      keeps_outside c alt (fs_flash s) f \<and> holds c f alt (ds @ live ys)"
proof (induction ys arbitrary: s xs ds)
  case Nil
  then show ?case by (intro exI [of _ "fs_flash s"]) simp
next
  case (Cons y ys)
  obtain k v where y: "y = (k, v)" by (cases y)
  let ?e = "h + 24 + 24 * length xs" and ?d = "val_off c alt ds - align (length v)" and ?off = "val_off c h (xs @ [(k, v)])"
  have hd: "holds c (fs_flash s) h (xs @ (k, v) # ys)" using Cons.prems(1) y by simp
  note ent = holds_entry [OF hd] and fld = entry_fields [OF holds_entry(1,3,5,6) [OF hd]]
  have "fs_last_entry s - ?e = 24 * length ys" using Cons.prems(4) by simp
  then have later: "has_later_copy s ?e = Some (k \<in> fst ` set ys)"
    using later_copy_holds [of c "fs_flash s" h xs k v "[]" ys] hd by (simp add: has_later_copy_def ac_simps)
  show ?case
  proof (cases "k \<in> fst ` set ys")
    case True
    with Cons.IH [of s "xs @ [y]" ds] Cons.prems y later show ?thesis by (simp add: add.assoc)
  next
    case False
    have kv: "kv_ok (k, v)" using hd by (simp add: holds_def)
    have "fits c ((ds @ [(k, v)]) @ live ys)" using Cons.prems(3) y False by simp
    then have fit: "fits c (ds @ [(k, v)])" by (rule fits_prefix)
    note put = put_ok [OF ok Cons.prems(2) kv fit] and ko = put_outside [OF ok Cons.prems(2) kv fit]
    let ?f = "put c alt ds k v (fs_flash s)"
    have "48 + 24 * length (ds @ [(k, v)]) + length (vals (ds @ [(k, v)])) \<le> FSTOR_HEADER_SIZE c"
      using fit by (simp only: fits_def)
    note vo = val_off_snoc [OF this, of alt]
    have al: "align (length v) \<le> val_off c alt ds" using vo(1,3) by linarith
    note st = entry_on_stack [OF ent(3,5,6)] and rv = bytes_at_rd [OF ent(2)]
    have big: "unat (of_nat ?off :: 32 word) = ?off" using ent(5) by (simp add: unat_of_nat_32)
    have "gc_loop (Suc (length ys)) c s ?e (alt + 24 + 24 * length ds) (val_off c alt ds) =
        gc_loop (length ys) c (s\<lparr>fs_flash := ?f\<rparr>) (?e + 24) (alt + 24 + 24 * length ds + 24) ?d"
      using later False fld(4) st kv al rv put(1,2) big by (simp add: kv_ok_def Let_def)
    also have "\<dots> = gc_loop (length ys) c (s\<lparr>fs_flash := ?f\<rparr>) (h + 24 + 24 * length (xs @ [y]))
        (alt + 24 + 24 * length (ds @ [(k, v)])) (val_off c alt (ds @ [(k, v)]))"
      by (simp only: vo(1) length_append list.size) (simp add: ac_simps)
    finally have step: "gc_loop (Suc (length ys)) c s ?e (alt + 24 + 24 * length ds) (val_off c alt ds) = \<dots>" .
    have "\<exists>f. gc_loop (length ys) c (s\<lparr>fs_flash := ?f\<rparr>) (h + 24 + 24 * length (xs @ [y]))
        (alt + 24 + 24 * length (ds @ [(k, v)])) (val_off c alt (ds @ [(k, v)])) = Some ((s\<lparr>fs_flash := ?f\<rparr>)\<lparr>fs_flash := f\<rparr>) \<and>
      keeps_outside c alt (fs_flash (s\<lparr>fs_flash := ?f\<rparr>)) f \<and> holds c f alt ((ds @ [(k, v)]) @ live ys)"
    proof (rule Cons.IH)
      show "holds c (fs_flash (s\<lparr>fs_flash := ?f\<rparr>)) h ((xs @ [y]) @ ys)"
        using keeps_outside_holds [OF ko Cons.prems(1) disj] by simp
    qed (use put(3) Cons.prems(3,4) y False in simp_all)
    with step ko y False show ?thesis by (auto intro: keeps_outside_trans)
  qed
qed

section \<open>The mounted store\<close>

definition other_area :: "fcfg \<Rightarrow> nat \<Rightarrow> nat" where
  "other_area c h = (if h = 0 then FSTOR_HEADER_SIZE c else 0)"

text \<open>The other area has no valid header or an older one, so that mounting picks the active area.\<close>

definition older :: "fcfg \<Rightarrow> mem \<Rightarrow> nat \<Rightarrow> 32 word \<Rightarrow> bool" where
  "older c f h gen \<longleftrightarrow> is_valid_header c f h = Some True \<longrightarrow> (\<exists>g. generation f h = Some g \<and> g < gen)"

definition area_at :: "fcfg \<Rightarrow> nat \<Rightarrow> 32 word \<Rightarrow> (mem \<times> mem) list \<Rightarrow> mem \<Rightarrow> bool" where
  "area_at c h gen es f \<longleftrightarrow> (h = 0 \<or> h = FSTOR_HEADER_SIZE c) \<and> length f = JD_FSTOR_TOTAL_SIZE c \<and>
     bytes_at f h (header_bytes c gen) \<and> holds c f h es \<and> older c f (other_area c h) gen"

definition fstor_rep :: "fcfg \<Rightarrow> 32 word \<Rightarrow> (mem \<times> mem) list \<Rightarrow> fstor \<Rightarrow> bool" where
  "fstor_rep c gen es s \<longleftrightarrow> (\<exists>h. fs_settings s = Some h \<and> area_at c h gen es (fs_flash s) \<and>
     fs_last_entry s = h + 24 * length es \<and> fs_data_start s = val_off c h es)"

lemma header_fields:
  assumes "bytes_at f h (header_bytes c gen)" "fcfg_ok c"
  shows "is_valid_header c f h = Some True" "generation f h = Some gen"
proof -
  have b: "bytes_at f h (le_bytes 4 FSTOR_MAGIC0)" "bytes_at f (h + 4) (le_bytes 4 FSTOR_MAGIC1)" "bytes_at f (h + 8) (le_bytes 4 gen)"
    "bytes_at f (h + 12) (le_bytes 4 (of_nat (JD_FLASH_PAGE_SIZE c) :: 32 word))"
    "bytes_at f (h + 16) (le_bytes 2 (of_nat (FSTOR_PAGES c) :: 16 word))"
    "bytes_at f (h + 18) (le_bytes 2 (of_nat (HEADER_PAGES c) :: 16 word))"
    using assms(1) by (simp_all add: header_bytes_def bytes_at_append ac_simps)
  have "JD_FLASH_PAGE_SIZE c \<le> FSTOR_HEADER_SIZE c"
    using assms(2) by (cases "HEADER_PAGES c") (simp_all add: fcfg_ok_def FSTOR_HEADER_SIZE_def)
  then have ps: "JD_FLASH_PAGE_SIZE c < 4294967296" using assms(2) by (simp add: fcfg_ok_def)
  note r = bytes_at_rd' [OF b(1), of 4] bytes_at_rd' [OF b(2), of 4] bytes_at_rd' [OF b(3), of 4] bytes_at_rd' [OF b(4), of 4]
    bytes_at_rd' [OF b(5), of 2] bytes_at_rd' [OF b(6), of 2]
  show "is_valid_header c f h = Some True"
    using r ps assms(2) by (simp add: is_valid_header_def fcfg_ok_def unat_of_nat_32 unat_of_nat_16)
  show "generation f h = Some gen" using r by (simp add: generation_def)
qed

lemma area_facts:
  assumes "fcfg_ok c" "h = 0 \<or> h = FSTOR_HEADER_SIZE c"
  shows "8 dvd h" "JD_FLASH_PAGE_SIZE c dvd h" "h + FSTOR_HEADER_SIZE c \<le> JD_FSTOR_TOTAL_SIZE c"
    "h + FSTOR_HEADER_SIZE c < 4294967295" "other_area c h = 0 \<or> other_area c h = FSTOR_HEADER_SIZE c"
    "h + FSTOR_HEADER_SIZE c \<le> other_area c h \<or> other_area c h + FSTOR_HEADER_SIZE c \<le> h"
    "other_area c (other_area c h) = h" "200 \<le> FSTOR_HEADER_SIZE c"
  using assms by (auto simp: fcfg_ok_def FSTOR_HEADER_SIZE_def other_area_def)

lemma jd_fstor_gc_ok:
  assumes "flash_ok c" "fcfg_ok c" "fstor_rep c gen es s" "gen < gen + 1"
  shows "\<exists>t. jd_fstor_gc c s = Some t \<and> fstor_rep c (gen + 1) (live es) t"
proof -
  let ?H = "FSTOR_HEADER_SIZE c" and ?f = "fs_flash s"
  obtain h where h: "fs_settings s = Some h" "h = 0 \<or> h = ?H" "length ?f = JD_FSTOR_TOTAL_SIZE c"
    "bytes_at ?f h (header_bytes c gen)" "holds c ?f h es" "fs_last_entry s = h + 24 * length es"
    using assms(3) by (auto simp: fstor_rep_def area_at_def)
  let ?a = "other_area c h"
  note ah = area_facts [OF assms(2) h(2)]
  note aa = area_facts [OF assms(2) ah(5)]
  define f1 where "f1 = patch ?f ?a (replicate ?H 0xff)"
  have er: "erase_pages c ?a (HEADER_PAGES c) ?f = Some f1"
    using erase_pages_eq [OF assms(1) aa(2), of "HEADER_PAGES c" ?f] aa(3) h(3) by (simp add: f1_def FSTOR_HEADER_SIZE_def)
  have l1: "length f1 = length ?f" using aa(3) h(3) by (simp add: f1_def)
  have keep1: "bytes_at f1 p b" if "bytes_at ?f p b" "p + length b \<le> ?a \<or> ?a + ?H \<le> p" for p b
    using that aa(3) h(3) by (simp add: f1_def bytes_at_patch_other)
  have ff: "bytes_at f1 ?a (replicate ?H 0xff)"
    using aa(3) h(3) bytes_at_patch_same [of ?a "replicate ?H 0xff" ?f] by (simp add: f1_def)
  have hd1: "bytes_at f1 h (header_bytes c gen)" using keep1 [OF h(4)] ah(6,8) by auto
  have s1: "holds c f1 h es" using ah(6) by (intro holds_cong [OF h(5)] keep1) auto
  have "bytes_at f1 (?a + 24) (replicate (?H - 24) 0xff)" by (rule bytes_at_replicate_sub [OF ff]) (use ah(8) in simp_all)
  then have e1: "holds c f1 ?a []" using ah(8) aa(4) by (intro holds_empty)
  have fl: "fits c (live es)" using h(5) by (simp add: holds_def fits_live)
  obtain f2 where f2: "gc_loop (length es) c (s\<lparr>fs_flash := f1\<rparr>) (h + 24) (?a + 24) (?a + ?H) = Some (s\<lparr>fs_flash := f2\<rparr>)"
    "keeps_outside c ?a f1 f2" "holds c f2 ?a (live es)"
    using gc_loop_holds [OF assms(1,2) aa(1) ah(6), of "s\<lparr>fs_flash := f1\<rparr>" "[]" es "[]"] s1 e1 fl h(6)
    by (auto simp: val_off_def)
  have hd2: "bytes_at f2 h (header_bytes c gen)"
    using f2(2) hd1 ah(6,8) by (auto simp: keeps_outside_def outside_def)
  have "bytes_at f1 ?a (replicate 24 0xff)" by (rule bytes_at_replicate_sub [OF ff]) (use ah(8) in simp_all)
  then have b2: "bytes_at f2 ?a (replicate (length (header_bytes c (gen + 1))) 0xff)"
    using f2(2) by (auto simp: keeps_outside_def outside_def)
  define f3 where "f3 = patch f2 ?a (header_bytes c (gen + 1))"
  note wr = flash_program_erased [OF assms(1) aa(1) b2]
  have f3: "bytes_at f3 ?a (header_bytes c (gen + 1))" "length f3 = length ?f"
    using wr(2) f2(2) l1 by (simp_all add: f3_def bytes_at_patch_same keeps_outside_def)
  have hd3: "bytes_at f3 h (header_bytes c gen)" unfolding f3_def by (rule bytes_at_patch_other [OF hd2 wr(2)]) (use ah(6,8) in auto)
  have ho3: "holds c f3 ?a (live es)"
    unfolding f3_def by (rule holds_cong [OF f2(3)]) (use wr(2) in \<open>auto intro: bytes_at_patch_other\<close>)
  let ?t = "s\<lparr>fs_settings := Some ?a, fs_flash := f3\<rparr>"
  have rc: "recompute_cache c ?t = Some (?t\<lparr>fs_last_entry := ?a + 24 * length (live es), fs_data_start := val_off c ?a (live es)\<rparr>)"
    using recompute_holds [of ?t ?a c "live es"] ho3 by simp
  have "jd_fstor_gc c s = Some (?t\<lparr>fs_last_entry := ?a + 24 * length (live es), fs_data_start := val_off c ?a (live es)\<rparr>)"
    using h(1,6) er f2(1) header_fields(2) [OF hd2 assms(2)] wr(1) rc
    by (simp add: jd_fstor_gc_def Let_def write_header_def f3_def flip: other_area_def)
  moreover have "older c f3 (other_area c ?a) (gen + 1)"
    using header_fields [OF hd3 assms(2)] ah(7) assms(4) by (simp add: older_def)
  ultimately show ?thesis
    using f3 ho3 h(3) ah(5) by (simp add: fstor_rep_def area_at_def)
qed

section \<open>Reading and writing\<close>

text \<open>The value a list of settings gives a key: the last one.\<close>

definition value_of :: "(mem \<times> mem) list \<Rightarrow> mem \<Rightarrow> mem option" where
  "value_of es k = map_of (rev es) k"

lemma map_of_live: "map_of (rev (live es)) = map_of (rev es)"
proof (induction es)
  case (Cons e es)
  obtain k v where e: "e = (k, v)" by (cases e)
  have "k \<in> fst ` set es \<Longrightarrow> k \<in> dom (map_of (rev es))" by (simp add: dom_map_of_conv_image_fst)
  then show ?case using Cons e by (auto simp: map_add_def fun_eq_iff split: option.splits)
qed simp

lemma value_of_live [simp]: "value_of (live es) = value_of es"
  by (simp add: value_of_def map_of_live fun_eq_iff)

lemma value_of_snoc: "value_of (es @ [(k, v)]) = (value_of es)(k \<mapsto> v)"
  by (simp add: value_of_def fun_eq_iff)

lemma value_of_None: "value_of es k = None \<longleftrightarrow> k \<notin> fst ` set es"
  by (simp add: value_of_def map_of_eq_None_iff)

lemma last_with_key:
  "value_of es k = Some v \<Longrightarrow> \<exists>xs ys. es = xs @ (k, v) # ys \<and> k \<notin> fst ` set ys \<and>
     dropWhile (\<lambda>e. fst e \<noteq> k) (rev es) = (k, v) # rev xs"
proof (induction es rule: rev_induct)
  case Nil
  then show ?case by (simp add: value_of_def)
next
  case (snoc e es)
  obtain l w where e: "e = (l, w)" by (cases e)
  show ?case
  proof (cases "l = k")
    case True
    with snoc.prems e show ?thesis by (intro exI [of _ es] exI [of _ "[]"]) (simp add: value_of_snoc)
  next
    case False
    with snoc e obtain xs ys where "es = xs @ (k, v) # ys" "k \<notin> fst ` set ys"
      "dropWhile (\<lambda>e. fst e \<noteq> k) (rev es) = (k, v) # rev xs" by (auto simp: value_of_snoc)
    with e False show ?thesis by (intro exI [of _ xs] exI [of _ "ys @ [e]"]) simp
  qed
qed

lemma find_entry_rep:
  assumes "fstor_rep c gen es s" "0 \<notin> set k"
  shows "\<exists>r. find_entry c k s = Some (s, r) \<and>
    (case value_of es k of None \<Rightarrow> r = None
     | Some v \<Rightarrow> \<exists>e off. r = Some e \<and> entry_size (fs_flash s) e = Some (length v) \<and>
         entry_offset (fs_flash s) e = Some (of_nat off) \<and> unat (of_nat off :: 32 word) = off \<and> bytes_at (fs_flash s) off v \<and>
         off + length v \<le> 2 * FSTOR_HEADER_SIZE c)"
proof -
  obtain h where h: "fs_settings s = Some h" "h \<le> FSTOR_HEADER_SIZE c" "holds c (fs_flash s) h es" "fs_last_entry s = h + 24 * length es"
    using assms(1) by (auto simp: fstor_rep_def area_at_def)
  have fnd: "find_entry c k s = Some (s, if k \<in> fst ` set es
      then Some (h + 24 * length (dropWhile (\<lambda>e. fst e \<noteq> k) (rev es))) else None)"
    using find_from_holds [of c "fs_flash s" h es "[]" k] h assms(2) by (simp add: find_entry_def jd_fstor_init_def)
  show ?thesis
  proof (cases "value_of es k")
    case None
    then have "k \<notin> fst ` set es" by (simp only: value_of_None not_False_eq_True)
    then show ?thesis using fnd None by simp
  next
    case (Some v)
    obtain xs ys where xy: "es = xs @ (k, v) # ys" "dropWhile (\<lambda>e. fst e \<noteq> k) (rev es) = (k, v) # rev xs"
      using last_with_key [OF Some] by blast
    have hd: "holds c (fs_flash s) h (xs @ (k, v) # ys)" using h(3) xy(1) by simp
    note ent = holds_entry [OF hd] and fld = entry_fields [OF holds_entry(1,3,5,6) [OF hd]]
    have "length v \<le> length (vals (xs @ [(k, v)]))" by (rule val_len_le)
    moreover have "fits c (xs @ [(k, v)])" using hd fits_prefix [of c "xs @ [(k, v)]" ys] by (simp add: holds_def)
    ultimately have "val_off c h (xs @ [(k, v)]) + length v \<le> 2 * FSTOR_HEADER_SIZE c"
      using h(2) by (simp add: val_off_def fits_def)
    moreover have "k \<in> fst ` set es" using xy(1) by simp
    moreover have "h + 24 * length (dropWhile (\<lambda>e. fst e \<noteq> k) (rev es)) = h + 24 + 24 * length xs"
      unfolding xy(2) by simp
    moreover have "unat (of_nat (val_off c h (xs @ [(k, v)])) :: 32 word) = val_off c h (xs @ [(k, v)])"
      using ent(5) by (simp add: unat_of_nat_32)
    ultimately have "find_entry c k s = Some (s, Some (h + 24 + 24 * length xs))"
      "unat (of_nat (val_off c h (xs @ [(k, v)])) :: 32 word) = val_off c h (xs @ [(k, v)])"
      "val_off c h (xs @ [(k, v)]) + length v \<le> 2 * FSTOR_HEADER_SIZE c" using fnd by simp_all
    then show ?thesis
      using fld(1,2) ent(2) unfolding Some option.case by blast
  qed
qed

lemma keeps_rd:
  assumes "keeps_outside c h f g" "p + n \<le> h + 24 \<or> h + FSTOR_HEADER_SIZE c \<le> p"
  shows "rd_mem g p n = rd_mem f p n"
proof (cases "p + n \<le> length f")
  case True
  have "bytes_at f p (take n (drop p f))" using True by (simp add: bytes_at_def)
  then have "bytes_at g p (take n (drop p f))"
    using assms(1) True assms(2) unfolding keeps_outside_def outside_def by (metis (no_types, lifting) bytes_at_def length_take length_drop min_absorb2 le_diff_conv2 add.commute add_leD1)
  from bytes_at_rd' [OF this, of n] True show ?thesis by simp
next
  case False
  then show ?thesis using assms(1) by (simp add: keeps_outside_def rd_mem_def)
qed

lemma keeps_older:
  assumes "keeps_outside c h f g" "a + 24 \<le> h \<or> h + FSTOR_HEADER_SIZE c \<le> a"
  shows "older c g a gen = older c f a gen"
proof -
  have "rd_mem g (a + i) n = rd_mem f (a + i) n" if "i + n \<le> 24" for i n
    using that assms(2) by (intro keeps_rd [OF assms(1)]) auto
  from this [of 0 4] this [of 4 4] this [of 8 4] this [of 12 4] this [of 16 2] this [of 18 2]
  show ?thesis by (simp add: older_def is_valid_header_def generation_def)
qed

lemma free_space_fits:
  assumes "fstor_rep c gen es s"
  shows "free_space s < align (length v) + 24 \<longleftrightarrow> \<not> fits c (es @ [(k, v)])"
proof -
  obtain h where h: "holds c (fs_flash s) h es" "fs_last_entry s = h + 24 * length es" "fs_data_start s = val_off c h es"
    using assms by (auto simp: fstor_rep_def area_at_def)
  have f: "48 + 24 * length es + length (vals es) \<le> FSTOR_HEADER_SIZE c" using h(1) by (simp add: holds_def fits_def)
  have "length (vals (es @ [(k, v)])) = align (length v) + length (vals es)" using align_ge [of "length v"] by (simp add: vals_append)
  with f show ?thesis by (auto simp: free_space_def h val_off_def fits_def)
qed

lemma set_append_ok:
  assumes "flash_ok c" "fcfg_ok c" "fstor_rep c gen es s" "kv_ok (k, v)" "fits c (es @ [(k, v)])"
  shows "\<exists>t. set_append c k v s = Some t \<and> fstor_rep c gen (es @ [(k, v)]) t"
proof -
  let ?f = "fs_flash s"
  obtain h where h: "fs_settings s = Some h" "area_at c h gen es ?f" "fs_last_entry s = h + 24 * length es" "fs_data_start s = val_off c h es"
    using assms(3) by (auto simp: fstor_rep_def)
  have hz: "h = 0 \<or> h = FSTOR_HEADER_SIZE c" and ho: "holds c ?f h es" using h(2) by (auto simp: area_at_def)
  note ah = area_facts [OF assms(2) hz]
  note put = put_ok [OF assms(1,2) ah(1) ho assms(4,5)] and ko = put_outside [OF assms(1,2) ah(1) ho assms(4,5)]
  let ?g = "put c h es k v ?f"
  have "48 + 24 * length (es @ [(k, v)]) + length (vals (es @ [(k, v)])) \<le> FSTOR_HEADER_SIZE c"
    using assms(5) by (simp only: fits_def)
  note vo = val_off_snoc [OF this, of h]
  have al: "align (length v) \<le> val_off c h es" using vo(1,3) by linarith
  have le: "48 + (h + 24 * length es) \<le> val_off c h es - align (length v)" using vo by simp
  have e: "h + 24 * length es + 24 = h + 24 + 24 * length es" by simp
  have "set_append c k v s = Some (s\<lparr>fs_data_start := val_off c h (es @ [(k, v)]), fs_last_entry := h + 24 * length (es @ [(k, v)]), fs_flash := ?g\<rparr>)"
    using al le put(1) put(2) vo(1) h(3,4) unfolding set_append_def Let_def by (simp add: e)
  moreover have "area_at c h gen (es @ [(k, v)]) ?g"
  proof -
    have "bytes_at ?g h (header_bytes c gen)"
      using ko h(2) by (auto simp: keeps_outside_def outside_def area_at_def)
    moreover have "older c ?g (other_area c h) gen"
      using keeps_older [OF ko, of "other_area c h" gen] ah(6,8) h(2) by (auto simp: area_at_def)
    ultimately show ?thesis using put(3,4) h(2) by (simp add: area_at_def)
  qed
  ultimately show ?thesis using h(1) by (simp add: fstor_rep_def)
qed

lemma jd_settings_set_ok:
  assumes "flash_ok c" "fcfg_ok c" "fstor_rep c gen es s" "gen < gen + 1" "kv_ok (k, v)" "length v \<le> FSTOR_HEADER_SIZE c - 200"
  shows "\<exists>t r gen' es'. jd_settings_set_bin c (Some k) v s = Some (t, r) \<and> fstor_rep c gen' es' t \<and> gen' \<in> {gen, gen + 1} \<and>
    (r = 0 \<and> value_of es' = (value_of es)(k \<mapsto> v) \<or> r = -3 \<and> value_of es' = value_of es \<and> \<not> fits c (live es @ [(k, v)]))"
proof -
  have k: "key_ok (Some k)" "0 \<notin> set k" using assms(5) by (auto simp: key_ok_def kv_ok_def FSTOR_KEYSIZE_def)
  have sz: "\<not> length v > sub32 (FSTOR_HEADER_SIZE c) 200"
    using assms(2,6) by (simp add: fcfg_ok_def sub32_le)
  obtain r where r: "find_entry c k s = Some (s, r)" "case value_of es k of None \<Rightarrow> r = None
     | Some v \<Rightarrow> \<exists>e off. r = Some e \<and> entry_size (fs_flash s) e = Some (length v) \<and>
         entry_offset (fs_flash s) e = Some (of_nat off) \<and> unat (of_nat off :: 32 word) = off \<and> bytes_at (fs_flash s) off v \<and>
         off + length v \<le> 2 * FSTOR_HEADER_SIZE c"
    using find_entry_rep [OF assms(3) k(2)] by blast
  have same: "(case r of None \<Rightarrow> Some False | Some e \<Rightarrow> same_value (fs_flash s) e v) = Some (value_of es k = Some v)"
  proof (cases "value_of es k")
    case None
    with r(2) show ?thesis by simp
  next
    case (Some w)
    with r(2) obtain e off where e: "r = Some e" "entry_size (fs_flash s) e = Some (length w)"
      "entry_offset (fs_flash s) e = Some (of_nat off)" "unat (of_nat off :: 32 word) = off" "bytes_at (fs_flash s) off w" by auto
    show ?thesis
    proof (cases "length w = length v")
      case True
      then show ?thesis using e Some bytes_at_rd' [OF e(5), of "length v"] by (simp add: same_value_def)
    next
      case False
      then show ?thesis using e Some by (auto simp: same_value_def)
    qed
  qed
  let ?need = "align (length v) + 24"
  show ?thesis
  proof (cases "value_of es k = Some v")
    case True
    then have "jd_settings_set_bin c (Some k) v s = Some (s, 0)" using k(1) sz r(1) same by (simp add: jd_settings_set_bin_def)
    moreover have "(value_of es)(k \<mapsto> v) = value_of es" using True by (simp add: fun_upd_idem)
    ultimately show ?thesis using assms(3) by auto
  next
    case False
    obtain s1 g1 e1 where s1: "(if free_space s < ?need then jd_fstor_gc c s else Some s) = Some s1" "fstor_rep c g1 e1 s1"
      "value_of e1 = value_of es" "g1 \<in> {gen, gen + 1}" "free_space s1 < ?need \<longrightarrow> e1 = live es"
      using jd_fstor_gc_ok [OF assms(1-4)] assms(3) by (cases "free_space s < ?need") auto
    have body: "jd_settings_set_bin c (Some k) v s = (if free_space s1 < ?need then Some (s1, -3)
        else map_option (\<lambda>t. (t, 0)) (set_append c k v s1))"
      using k(1) sz r(1) same False s1(1) by (simp add: jd_settings_set_bin_def Let_def map_conv_bind_option comp_def)
    note fs = free_space_fits [OF s1(2), of v k]
    show ?thesis
    proof (cases "fits c (e1 @ [(k, v)])")
      case True
      obtain t where "set_append c k v s1 = Some t" "fstor_rep c g1 (e1 @ [(k, v)]) t"
        using set_append_ok [OF assms(1,2) s1(2) assms(5) True] by blast
      moreover have "jd_settings_set_bin c (Some k) v s = Some (t, 0)" using calculation(1) True fs body by simp
      moreover have "value_of (e1 @ [(k, v)]) = (value_of es)(k \<mapsto> v)" by (simp add: value_of_snoc s1(3))
      ultimately show ?thesis using s1(4) by blast
    next
      case False
      then have "jd_settings_set_bin c (Some k) v s = Some (s1, -3)" "e1 = live es" using fs body s1(5) by simp_all
      with False s1(2-4) show ?thesis by blast
    qed
  qed
qed

lemma jd_settings_get_ok:
  assumes "fstor_rep c gen es s" "kv_ok (k, [])"
  shows "value_of es k = None \<Longrightarrow> jd_settings_get_bin c (Some k) dst space s = Some (s, dst, -2)"
    "value_of es k = Some v \<Longrightarrow> space < length v \<Longrightarrow> jd_settings_get_bin c (Some k) dst space s = Some (s, dst, int (length v))"
    "value_of es k = Some v \<Longrightarrow> length dst = length v \<Longrightarrow> jd_settings_get_bin c (Some k) dst (length v) s = Some (s, v, int (length v))"
proof -
  have k: "key_ok (Some k)" "0 \<notin> set k" using assms(2) by (auto simp: key_ok_def kv_ok_def FSTOR_KEYSIZE_def)
  note f = find_entry_rep [OF assms(1) k(2)]
  show "jd_settings_get_bin c (Some k) dst space s = Some (s, dst, -2)" if "value_of es k = None"
    using f k(1) that by (auto simp: jd_settings_get_bin_def)
  show "jd_settings_get_bin c (Some k) dst space s = Some (s, dst, int (length v))"
    if "value_of es k = Some v" "space < length v"
    using f k(1) that by (auto simp: jd_settings_get_bin_def)
  show "jd_settings_get_bin c (Some k) dst (length v) s = Some (s, v, int (length v))"
    if v: "value_of es k = Some v" "length dst = length v"
  proof -
    obtain e off where e: "find_entry c k s = Some (s, Some e)" "entry_size (fs_flash s) e = Some (length v)"
      "entry_offset (fs_flash s) e = Some (of_nat off)" "unat (of_nat off :: 32 word) = off" "bytes_at (fs_flash s) off v"
      using f v(1) by auto
    have "wr_mem dst 0 v = Some v" using v(2) by (simp add: patch_def)
    with e k(1) bytes_at_rd [OF e(5)] show ?thesis by (simp add: jd_settings_get_bin_def)
  qed
qed

lemma settings_read_ok:
  assumes "fstor_rep c gen es s" "kv_ok (k, [])"
  shows "settings_read c k s = Some (s, case value_of es k of None \<Rightarrow> [] | Some v \<Rightarrow> v)"
proof (cases "value_of es k")
  case None
  then show ?thesis using jd_settings_get_ok(1) [OF assms None] by (simp add: settings_read_def)
next
  case (Some v)
  have "jd_settings_get_bin c (Some k) [] 0 s = Some (s, [], int (length v))"
    using jd_settings_get_ok(2) [OF assms Some] jd_settings_get_ok(3) [OF assms Some] by (cases v) fastforce+
  moreover have "jd_settings_get_bin c (Some k) (replicate (length v) 0) (length v) s = Some (s, v, int (length v))"
    using jd_settings_get_ok(3) [OF assms Some] by simp
  ultimately show ?thesis using Some by (simp add: settings_read_def)
qed

section \<open>Mounting\<close>

lemma header_total:
  assumes "h + 24 \<le> length f"
  shows "\<exists>v. is_valid_header c f h = Some v" "\<exists>g. generation f h = Some g"
  using assms by (auto simp: is_valid_header_def generation_def rd_mem_def)

lemma jd_fstor_mount:
  assumes "fcfg_ok c" "area_at c h gen es (fs_flash s)" "fs_settings s = None"
  shows "\<exists>t. jd_fstor_init c s = Some t \<and> fstor_rep c gen es t"
proof -
  let ?H = "FSTOR_HEADER_SIZE c" and ?f = "fs_flash s"
  have h: "h = 0 \<or> h = ?H" "length ?f = JD_FSTOR_TOTAL_SIZE c" "bytes_at ?f h (header_bytes c gen)" "holds c ?f h es"
    "older c ?f (other_area c h) gen" using assms(2) by (auto simp: area_at_def)
  note ah = area_facts [OF assms(1) h(1)] and hf = header_fields [OF h(3) assms(1)]
  have "other_area c h + 24 \<le> length ?f" using area_facts(3,8) [OF assms(1) ah(5)] h(2) by linarith
  then obtain v g where vg: "is_valid_header c ?f (other_area c h) = Some v" "generation ?f (other_area c h) = Some g"
    using header_total by blast
  have old: "v \<Longrightarrow> g < gen" using h(5) vg by (simp add: older_def)
  let ?s = "s\<lparr>fs_settings := Some h\<rparr>"
  have rc: "recompute_cache c ?s = Some (?s\<lparr>fs_last_entry := h + 24 * length es, fs_data_start := val_off c h es\<rparr>)"
    using recompute_holds [of ?s h c es] h(4) by simp
  have "jd_fstor_init c s = Some (?s\<lparr>fs_last_entry := h + 24 * length es, fs_data_start := val_off c h es\<rparr>)"
  proof (cases "h = 0")
    case True
    then show ?thesis
      using hf vg old rc assms(3) by (cases v) (simp_all add: jd_fstor_init_def other_area_def Let_def)
  next
    case False
    then have "h = ?H" "?H \<noteq> 0" using h(1) by auto
    then show ?thesis
      using hf vg old rc assms(3) by (cases v) (auto simp: jd_fstor_init_def other_area_def Let_def dest: less_asym)
  qed
  then show ?thesis using assms(2) by (auto simp: fstor_rep_def)
qed

text \<open>A flash without a valid header is formatted.\<close>

lemma jd_fstor_format:
  assumes "flash_ok c" "fcfg_ok c" "length (fs_flash s) = JD_FSTOR_TOTAL_SIZE c" "fs_settings s = None"
    and "is_valid_header c (fs_flash s) 0 = Some False" "is_valid_header c (fs_flash s) (FSTOR_HEADER_SIZE c) = Some False"
  shows "\<exists>t. jd_fstor_init c s = Some t \<and> fstor_rep c 1 [] t"
proof -
  let ?H = "FSTOR_HEADER_SIZE c" and ?f = "fs_flash s"
  have z: "(0 :: nat) = 0 \<or> 0 = ?H" by simp
  note a0 = area_facts [OF assms(2) z]
  have HT: "?H + 24 \<le> length ?f" using assms(2,3) by (simp add: fcfg_ok_def)
  obtain g0 g1 where g: "generation ?f 0 = Some g0" "generation ?f ?H = Some g1"
    using header_total(2) [of 0 ?f] header_total(2) [of ?H ?f] HT by auto
  define f1 where "f1 = patch ?f 0 (replicate ?H 0xff)"
  have er: "erase_pages c 0 (HEADER_PAGES c) ?f = Some f1"
    using erase_pages_eq [OF assms(1), of 0 "HEADER_PAGES c" ?f] a0(3) assms(3) by (simp add: f1_def FSTOR_HEADER_SIZE_def)
  have ff: "bytes_at f1 0 (replicate ?H 0xff)" "length f1 = length ?f"
    using a0(3) assms(3) bytes_at_patch_same [of 0 "replicate ?H 0xff" ?f] by (simp_all add: f1_def)
  have "bytes_at f1 0 (replicate (length (header_bytes c 1)) 0xff)" by (rule bytes_at_replicate_sub [OF ff(1)]) (use a0(8) in simp_all)
  note wr = flash_program_erased [OF assms(1) a0(1) this]
  define f2 where "f2 = patch f1 0 (header_bytes c 1)"
  have b2: "bytes_at f2 0 (header_bytes c 1)" "length f2 = length ?f"
    using wr(2) ff(2) by (simp_all add: f2_def bytes_at_patch_same)
  have "bytes_at f1 24 (replicate (?H - 24) 0xff)" by (rule bytes_at_replicate_sub [OF ff(1)]) (use a0(8) in simp_all)
  then have "bytes_at f2 24 (replicate (?H - 24) 0xff)" unfolding f2_def using wr(2) by (intro bytes_at_patch_other) simp_all
  then have ho: "holds c f2 0 []" using a0 by (intro holds_empty) simp_all
  have same: "rd_mem f2 p n = rd_mem ?f p n" if "?H \<le> p" for p n
    using that HT a0(8) by (simp add: f2_def f1_def rd_mem_def take_drop_patch_disjoint)
  then have "is_valid_header c f2 ?H = Some False" using assms(6) by (simp add: is_valid_header_def)
  then have ar: "area_at c 0 1 [] f2" using b2 ho assms(3) a0(8) by (simp add: area_at_def older_def other_area_def)
  let ?s = "s\<lparr>fs_settings := Some 0, fs_flash := f2\<rparr>"
  have rc: "recompute_cache c ?s = Some (?s\<lparr>fs_last_entry := 0, fs_data_start := ?H\<rparr>)"
    using recompute_holds [of ?s 0 c "[]"] ho by (simp add: val_off_def)
  have "jd_fstor_init c s = Some (?s\<lparr>fs_last_entry := 0, fs_data_start := ?H\<rparr>)"
    using assms(4-6) g er wr(1) rc by (simp add: jd_fstor_init_def Let_def write_header_def f2_def)
  with ar show ?thesis by (simp add: fstor_rep_def val_off_def)
qed

section \<open>The store meets its contract\<close>

definition fs_rel :: "fcfg \<Rightarrow> nat \<Rightarrow> (mem \<Rightarrow> mem option) \<Rightarrow> fstor \<Rightarrow> bool" where
  "fs_rel c n m s \<longleftrightarrow> flash_ok c \<and> fcfg_ok c \<and>
     (\<exists>gen es. fstor_rep c gen es s \<and> value_of es = m \<and> unat gen + n < 4294967296)"

lemma fs_relI:
  "flash_ok c \<Longrightarrow> fcfg_ok c \<Longrightarrow> fstor_rep c gen es s \<Longrightarrow> value_of es = m \<Longrightarrow> unat gen + n < 4294967296 \<Longrightarrow> fs_rel c n m s"
  unfolding fs_rel_def by blast

lemma gen_inc:
  fixes gen :: "32 word"
  assumes "unat gen + Suc n < 4294967296"
  shows "gen < gen + 1" "unat (gen + 1) = unat gen + 1"
proof -
  show u: "unat (gen + 1) = unat gen + 1" using assms by (simp add: unat_word_ariths)
  then show "gen < gen + 1" by (simp add: word_less_nat_alt)
qed

lemma fs_set_law:
  assumes "fs_rel c (Suc n) m s" "kv_ok (k, v)"
  shows "\<exists>t r. jd_settings_set_bin c (Some k) v s = Some (t, r) \<and> fs_rel c n (if r = 0 then m(k \<mapsto> v) else m) t"
proof -
  obtain gen es where g: "flash_ok c" "fcfg_ok c" "fstor_rep c gen es s" "value_of es = m" "unat gen + Suc n < 4294967296"
    using assms(1) by (auto simp: fs_rel_def)
  note i = gen_inc [OF g(5)]
  show ?thesis
  proof (cases "length v \<le> FSTOR_HEADER_SIZE c - 200")
    case True
    from jd_settings_set_ok [OF g(1-3) i(1) assms(2) True]
    obtain t r gen' es' where t: "jd_settings_set_bin c (Some k) v s = Some (t, r)" "fstor_rep c gen' es' t" "gen' \<in> {gen, gen + 1}"
      "value_of es' = (if r = 0 then m(k \<mapsto> v) else m)" using g(4) by auto
    have "unat gen' + n < 4294967296" using t(3) i(2) g(5) by auto
    with g(1,2) t show ?thesis by (blast intro: fs_relI)
  next
    case False
    have "key_ok (Some k)" using assms(2) by (auto simp: key_ok_def kv_ok_def FSTOR_KEYSIZE_def)
    moreover have "sub32 (FSTOR_HEADER_SIZE c) 200 < length v" using False g(2) by (simp add: fcfg_ok_def sub32_le)
    ultimately have "jd_settings_set_bin c (Some k) v s = Some (s, -2)" by (simp add: jd_settings_set_bin_def)
    moreover have "fs_rel c n m s" using g(5) by (intro fs_relI [OF g(1-4)]) simp
    ultimately show ?thesis by simp
  qed
qed

lemma fs_restart_law:
  assumes "fs_rel c (Suc n) m s"
  shows "\<exists>t. remount c s = Some t \<and> fs_rel c n m t"
proof -
  obtain gen es where g: "flash_ok c" "fcfg_ok c" "fstor_rep c gen es s" "value_of es = m" "unat gen + Suc n < 4294967296"
    using assms by (auto simp: fs_rel_def)
  obtain h where h: "area_at c h gen es (fs_flash s)" using g(3) by (auto simp: fstor_rep_def)
  obtain t where t: "jd_fstor_init c (s\<lparr>fs_settings := None\<rparr>) = Some t" "fstor_rep c gen es t"
    using h jd_fstor_mount [OF g(2), of h gen es "s\<lparr>fs_settings := None\<rparr>"] by auto
  moreover have "fs_rel c n m t" using g(5) by (intro fs_relI [OF g(1,2) t(2) g(4)]) simp
  ultimately show ?thesis by (simp add: remount_def)
qed

interpretation fs: kv_store "fs_rel c" "\<lambda>k v. kv_ok (k, v)" "\<lambda>k. kv_ok (k, [])" "[]"
    "\<lambda>k. jd_settings_set_bin c (Some k)" "remount c" "settings_read c" for c
proof
  show "\<exists>t r. jd_settings_set_bin c (Some k) v s = Some (t, r) \<and> fs_rel c n (if r = 0 then m(k \<mapsto> v) else m) t"
    if "fs_rel c (Suc n) m s" "kv_ok (k, v)" for n m s k v
    using that by (rule fs_set_law)
  show "\<exists>t. remount c s = Some t \<and> fs_rel c n m t" if "fs_rel c (Suc n) m s" for n m s
    using that by (rule fs_restart_law)
  show "\<exists>t. settings_read c k s = Some (t, case m k of None \<Rightarrow> [] | Some v \<Rightarrow> v) \<and> fs_rel c n m t"
    if r: "fs_rel c n m s" and k: "kv_ok (k, [])" for n m s k
  proof -
    obtain gen es where "fstor_rep c gen es s" "value_of es = m" using r by (auto simp: fs_rel_def)
    with settings_read_ok [OF this(1) k] r show ?thesis by auto
  qed
qed

section \<open>Sample flash\<close>

text \<open>NOR flash: programming clears bits, erasing sets the bits of a page.\<close>

definition nor_flash :: fcfg where
  "nor_flash = \<lparr>JD_FLASH_PAGE_SIZE = 256, JD_FSTOR_TOTAL_SIZE = 512, HEADER_PAGES = 1,
     flash_program = (\<lambda>off src f. do { old \<leftarrow> rd_mem f off (length src); wr_mem f off (map2 (AND) old src) }),
     flash_erase = (\<lambda>off f. wr_mem f off (replicate 256 0xff))\<rparr>"

lemma and_ff: "(0xff :: byte) AND x = x"
  by (rule bit_word_eqI) (simp add: bit_and_iff bit_numeral_rec numeral_eq_Suc less_Suc_eq_0_disj, auto)

lemma nor_flash_ok: "flash_ok nor_flash" "fcfg_ok nor_flash"
proof -
  have "map2 (AND) (replicate (length src) (0xff :: byte)) src = src" for src
    by (induction src) (simp_all add: and_ff)
  then show "flash_ok nor_flash" by (auto simp: flash_ok_def nor_flash_def)
  show "fcfg_ok nor_flash" by (simp add: fcfg_ok_def nor_flash_def FSTOR_HEADER_SIZE_def FSTOR_PAGES_def)
qed

definition blank_store :: fstor where
  "blank_store = \<lparr>fs_flash = replicate 512 0xff, fs_settings = None, fs_last_entry = 0, fs_data_start = 0\<rparr>"

lemma blank_header:
  "is_valid_header nor_flash (fs_flash blank_store) 0 = Some False \<and>
   is_valid_header nor_flash (fs_flash blank_store) (FSTOR_HEADER_SIZE nor_flash) = Some False"
proof -
  have "le_word (replicate 4 (0xff :: byte)) \<noteq> FSTOR_MAGIC0" by code_simp
  moreover have "rd_mem (replicate 512 (0xff :: byte)) p n = Some (replicate n 0xff)" if "p + n \<le> 512" for p n
    using that by simp
  ultimately show ?thesis
    by (simp add: is_valid_header_def blank_store_def FSTOR_HEADER_SIZE_def nor_flash_def min_def)
qed

section \<open>Properties\<close>

text \<open>C14: The settings store keeps what was stored.  From a flash without a valid header, formatting and any sequence
  of writes and remounts, through any number of garbage collections, runs without a failed
  assertion and without programming a cell that is not erased; afterwards reading a key returns the
  value of the last write of that key that was accepted, and nothing for a key never written.\<close>

theorem settings_history:
  assumes "flash_ok c" "fcfg_ok c" "length (fs_flash s) = JD_FSTOR_TOTAL_SIZE c" "fs_settings s = None"
    and "is_valid_header c (fs_flash s) 0 = Some False" "is_valid_header c (fs_flash s) (FSTOR_HEADER_SIZE c) = Some False"
    and "list_all (kv_valid (\<lambda>k v. kv_ok (k, v))) ops" "length ops < 4294967295" "kv_ok (k, [])"
  shows "\<exists>t acc u. Option.bind (jd_fstor_init c s) (kv_run (\<lambda>k. jd_settings_set_bin c (Some k)) (remount c) ops) = Some (t, acc) \<and>
    settings_read c k t = Some (u, case map_of (rev acc) k of None \<Rightarrow> [] | Some v \<Rightarrow> v)"
proof -
  obtain s0 where s0: "jd_fstor_init c s = Some s0" "fstor_rep c 1 [] s0"
    using jd_fstor_format [OF assms(1-6)] by blast
  have "fs_rel c (length ops) (\<lambda>_. None) s0"
    using s0(2) assms(1,2,8) by (auto simp: fs_rel_def value_of_def fun_eq_iff intro!: exI [of _ 1] exI [of _ "[]"])
  from fs.run_get [OF this assms(7,9)] s0(1) show ?thesis by simp
qed

theorem settings_history_witness:
  "\<exists>t acc u. Option.bind (jd_fstor_init nor_flash blank_store)
      (kv_run (\<lambda>k. jd_settings_set_bin nor_flash (Some k)) (remount nor_flash) [Set [0x61] [1, 2], Restart, Set [0x61] [3]]) = Some (t, acc) \<and>
    settings_read nor_flash [0x61] t = Some (u, case map_of (rev acc) [0x61] of None \<Rightarrow> [] | Some v \<Rightarrow> v)"
  by (rule settings_history [OF nor_flash_ok _ _ blank_header [THEN conjunct1] blank_header [THEN conjunct2]])
     (simp_all add: blank_store_def kv_ok_def, simp add: nor_flash_def)

end
