(* ===== verification/Jd_Dcfg.thy ===== *)
theory Jd_Dcfg
  imports Jd_Util Jd_Text
begin

text \<open>
  The device configuration, source/jd\_dcfg.c, and the service configuration built on it,
  source/jd\_srvcfg.c.  A configuration is a block of memory with a header of 88 bytes (with the table
  \<open>hash_jump\<close> at offset 24), entries of 24 bytes sorted by the hash of their keys, and the strings
  behind them.  A pointer to a configuration is its address with the bytes found there; reading
  behind the end of the bytes is \<open>None\<close>.
\<close>

type_synonym dcfg = "nat \<times> mem"

definition DCFG_KEYSIZE :: nat where "DCFG_KEYSIZE = 15"
definition DCFG_MAGIC0 :: nat where "DCFG_MAGIC0 = 0x47464344"
definition DCFG_MAGIC1 :: nat where "DCFG_MAGIC1 = 0xcab49b0a"
definition DCFG_HASH_JUMP_ENTRIES :: nat where "DCFG_HASH_JUMP_ENTRIES = 32"
definition DCFG_HASH_SHIFT :: nat where "DCFG_HASH_SHIFT = 11"
definition DCFG_TYPE_U32 :: nat where "DCFG_TYPE_U32 = 0"
definition DCFG_TYPE_I32 :: nat where "DCFG_TYPE_I32 = 1"
definition DCFG_TYPE_STRING :: nat where "DCFG_TYPE_STRING = 2"
definition DCFG_TYPE_BLOB :: nat where "DCFG_TYPE_BLOB = 3"
definition DCFG_TYPE_INVALID :: nat where "DCFG_TYPE_INVALID = 0xff"

lemmas dcfg_types = DCFG_TYPE_U32_def DCFG_TYPE_I32_def DCFG_TYPE_STRING_def DCFG_TYPE_BLOB_def DCFG_TYPE_INVALID_def

section \<open>Fields\<close>

definition rd16 :: "mem \<Rightarrow> nat \<Rightarrow> nat option" where
  "rd16 m p = map_option (\<lambda>b. unat (le_word b :: 16 word)) (rd_mem m p 2)"

definition rd32 :: "mem \<Rightarrow> nat \<Rightarrow> nat option" where
  "rd32 m p = map_option (\<lambda>b. unat (le_word b :: 32 word)) (rd_mem m p 4)"

text \<open>The same reads by arithmetic, for evaluation.\<close>

lemma or_push_8: "(ucast (b :: byte) :: 'a::len word) OR push_bit 8 w = ucast b + push_bit 8 w"
  by (rule disjunctive_add [symmetric]) (auto simp: bit_push_bit_iff bit_unsigned_iff dest: bit_imp_le_length)

lemma unat_byte_16: "unat (ucast (b :: byte) :: 16 word) = unat b"
  using unat_byte_lt [of b] by (simp add: unsigned_ucast_eq take_bit_nat_eq_self)

lemma rd16_code [code]:
  "rd16 m p = (if p + 2 \<le> length m then Some (unat (m ! p) + 256 * unat (m ! (p + 1))) else None)"
proof (cases "p + 2 \<le> length m")
  case True
  then have t: "take 2 (drop p m) = [m ! p, m ! (p + 1)]"
    by (intro nth_equalityI) (auto simp: less_Suc_eq numeral_2_eq_2)
  have "unat (ucast (m ! p) + push_bit 8 (ucast (m ! (p + 1))) :: 16 word) = unat (m ! p) + 256 * unat (m ! (p + 1))"
    using unat_byte_lt [of "m ! p"] unat_byte_lt [of "m ! (p + 1)"]
    by (simp add: unat_word_ariths push_bit_eq_mult unat_byte_16)
  then show ?thesis using True by (simp add: rd16_def t or_push_8)
qed (simp add: rd16_def rd_mem_def)

lemma rd32_code [code]:
  "rd32 m p = (if p + 4 \<le> length m then
     Some (unat (m ! p) + 256 * unat (m ! (p + 1)) + 65536 * unat (m ! (p + 2)) + 16777216 * unat (m ! (p + 3)))
     else None)"
proof (cases "p + 4 \<le> length m")
  case True
  then have t: "take 4 (drop p m) = [m ! p, m ! (p + 1), m ! (p + 2), m ! (p + 3)]"
    by (intro nth_equalityI) (auto simp: less_Suc_eq numeral_eq_Suc)
  have "(ucast (m ! p) + push_bit 8 (ucast (m ! (p + 1)) + push_bit 8 (ucast (m ! (p + 2)) + push_bit 8 (ucast (m ! (p + 3))))) :: 32 word)
     = of_nat (unat (m ! p) + 256 * unat (m ! (p + 1)) + 65536 * unat (m ! (p + 2)) + 16777216 * unat (m ! (p + 3)))"
    by (simp add: push_bit_eq_mult algebra_simps)
  then have "unat (le_word (take 4 (drop p m)) :: 32 word) =
      unat (m ! p) + 256 * unat (m ! (p + 1)) + 65536 * unat (m ! (p + 2)) + 16777216 * unat (m ! (p + 3))"
    using unat_byte_lt [of "m ! p"] unat_byte_lt [of "m ! (p + 1)"] unat_byte_lt [of "m ! (p + 2)"] unat_byte_lt [of "m ! (p + 3)"]
    unfolding t le_word.simps or_push_8 by (simp only: push_bit_of_0 add_0_right unat_of_nat_32) simp
  then show ?thesis using True by (simp add: rd32_def)
qed (simp add: rd32_def rd_mem_def)

definition entry_addr :: "nat \<Rightarrow> nat" where
  "entry_addr i = 88 + 24 * i"

definition entry_hash :: "mem \<Rightarrow> nat \<Rightarrow> nat option" where
  "entry_hash m i = rd16 m (entry_addr i + 16)"

definition entry_type_size :: "mem \<Rightarrow> nat \<Rightarrow> nat option" where
  "entry_type_size m i = rd16 m (entry_addr i + 18)"

definition entry_value :: "mem \<Rightarrow> nat \<Rightarrow> nat option" where
  "entry_value m i = rd32 m (entry_addr i + 20)"

definition num_entries :: "mem \<Rightarrow> nat option" where
  "num_entries m = rd16 m 12"

definition dcfg_entry_type :: "(mem \<times> nat) option \<Rightarrow> nat option" where
  "dcfg_entry_type e = (case e of None \<Rightarrow> Some DCFG_TYPE_INVALID
     | Some (m, i) \<Rightarrow> map_option (\<lambda>t. t mod 4) (entry_type_size m i))"

definition dcfg_entry_size :: "mem \<Rightarrow> nat \<Rightarrow> nat option" where
  "dcfg_entry_size m i = map_option (\<lambda>t. t div 4) (entry_type_size m i)"

definition keyhash :: "mem \<Rightarrow> nat" where
  "keyhash key = (let h = jd_hash_fnv1a key in unat (ucast (h XOR drop_bit 16 h) :: 16 word))"

section \<open>Validation\<close>

text \<open>A loop of \<open>CHECK\<close>s that stops at the first error code.\<close>

fun check_all :: "(nat \<Rightarrow> nat option) \<Rightarrow> nat list \<Rightarrow> nat option" where
  "check_all f [] = Some 0"
| "check_all f (x # xs) = do { r \<leftarrow> f x; if r \<noteq> 0 then Some r else check_all f xs }"

definition check_jump :: "mem \<Rightarrow> nat \<Rightarrow> nat \<Rightarrow> nat option" where
  "check_jump m num i = do {
     idx \<leftarrow> rd16 m (24 + 2 * i);
     if \<not> idx \<le> num then Some 2017
     else do {
       h \<leftarrow> entry_hash m idx;
       if \<not> h div 2 ^ DCFG_HASH_SHIFT \<ge> i then Some 2018
       else if idx = 0 then Some 0
       else do {
         h \<leftarrow> entry_hash m (idx - 1);
         if \<not> h div 2 ^ DCFG_HASH_SHIFT < i then Some 2019 else Some 0 } } }"

definition check_entry :: "mem \<Rightarrow> nat \<Rightarrow> nat \<Rightarrow> nat \<Rightarrow> nat option" where
  "check_entry m data_start total_bytes i = do {
     key \<leftarrow> cstr m (entry_addr i);
     h \<leftarrow> entry_hash m i;
     if \<not> length key \<le> DCFG_KEYSIZE then Some 2006
     else if keyhash key \<noteq> h then Some 2007
     else do {
       inorder \<leftarrow> (if i = 0 then Some True else map_option (\<lambda>p. p \<le> h) (entry_hash m (i - 1)));
       if \<not> inorder then Some 2008
       else do {
         size \<leftarrow> dcfg_entry_size m i;
         tp \<leftarrow> dcfg_entry_type (Some (m, i));
         if tp = DCFG_TYPE_U32 \<or> tp = DCFG_TYPE_I32 then Some (if size = 0 then 0 else 2009)
         else if tp = DCFG_TYPE_STRING \<or> tp = DCFG_TYPE_BLOB then do {
           v \<leftarrow> entry_value m i;
           if \<not> v \<ge> data_start then Some 2010
           else if \<not> v < total_bytes then Some 2011
           else if \<not> u32 (v + size) < total_bytes then Some 2012
           else do {
             b \<leftarrow> rd8 m (v + size);
             if b \<noteq> 0 then Some 2013 else Some 0 } }
         else Some 0 } } }"

definition dcfg_validate :: "dcfg option \<Rightarrow> nat option" where
  "dcfg_validate cfg = (case cfg of None \<Rightarrow> Some 2000
     | Some (addr, m) \<Rightarrow>
         if addr mod 4 \<noteq> 0 then Some 2001
         else do {
           magic0 \<leftarrow> rd32 m 0;
           magic1 \<leftarrow> rd32 m 4;
           if magic0 \<noteq> DCFG_MAGIC0 then Some 2002
           else if magic1 \<noteq> DCFG_MAGIC1 then Some 2003
           else do {
             num \<leftarrow> num_entries m;
             total_bytes \<leftarrow> rd32 m 8;
             let data_start = 88 + 24 * (num + 1);
             if \<not> total_bytes < 128 * 1024 then Some 2004
             else if \<not> data_start \<le> total_bytes then Some 2014
             else do {
               h \<leftarrow> entry_hash m num;
               t \<leftarrow> entry_type_size m num;
               if h \<noteq> 0xffff then Some 2015
               else if t \<noteq> 0xffff then Some 2016
               else do {
                 r \<leftarrow> check_all (check_jump m num) [0..<DCFG_HASH_JUMP_ENTRIES];
                 if r \<noteq> 0 then Some r
                 else check_all (check_entry m data_start total_bytes) [0..<num] } } } })"

section \<open>Lookup\<close>

text \<open>The \<open>while\<close> loop of \<open>get_entry\<close>; the index grows, so \<open>num + 1\<close> rounds are enough.\<close>

fun scan_hash :: "nat \<Rightarrow> mem \<Rightarrow> nat \<Rightarrow> nat \<Rightarrow> mem \<Rightarrow> nat \<Rightarrow> nat option option" where
  "scan_hash 0 m num hash key idx = None"
| "scan_hash (Suc n) m num hash key idx =
     (if idx < num then do {
        h \<leftarrow> entry_hash m idx;
        if h \<le> hash then
          (if h = hash then do {
             k \<leftarrow> rd_mem m (entry_addr idx) (length key);
             if k = key then Some (Some idx) else scan_hash n m num hash key (idx + 1) }
           else scan_hash n m num hash key (idx + 1))
        else Some None }
      else Some None)"

text \<open>A key argument is the text without its terminator, \<open>None\<close> the null pointer.\<close>

definition get_entry :: "dcfg option \<Rightarrow> mem option \<Rightarrow> nat option option" where
  "get_entry cfg key = (case (key, cfg) of
     (Some key, Some (addr, m)) \<Rightarrow>
       if length key > DCFG_KEYSIZE then Some None
       else do {
         let hash = keyhash key;
         let hidx = hash div 2 ^ DCFG_HASH_SHIFT;
         idx \<leftarrow> rd16 m (24 + 2 * hidx);
         num \<leftarrow> num_entries m;
         scan_hash (num + 1) m num hash key idx }
   | _ \<Rightarrow> Some None)"

record dcfg_state =
  dcfg_inited :: bool
  user_config :: "dcfg option"
  mfr_config :: "dcfg option"
  keybuf :: mem

text \<open>\<open>base\<close> is the configuration at \<open>JD_DCFG_BASE_ADDR\<close>, \<open>irq\<close> is \<open>target_in_irq()\<close>.\<close>

definition dcfg_init :: "dcfg \<Rightarrow> bool \<Rightarrow> dcfg_state \<Rightarrow> dcfg_state option" where
  "dcfg_init base irq s =
     (if dcfg_inited s then Some s
      else do {
        let s = s\<lparr>dcfg_inited := True\<rparr>;
        jd_assert (\<not> irq);
        err \<leftarrow> dcfg_validate (Some base);
        Some (if err = 0 then s\<lparr>mfr_config := Some base\<rparr> else s) })"

definition dcfg_set_user_config :: "dcfg \<Rightarrow> bool \<Rightarrow> dcfg option \<Rightarrow> dcfg_state \<Rightarrow> (dcfg_state \<times> nat) option" where
  "dcfg_set_user_config base irq cfg s = do {
     s \<leftarrow> dcfg_init base irq s;
     let s = s\<lparr>user_config := None\<rparr>;
     err \<leftarrow> dcfg_validate cfg;
     Some (if err = 0 then s\<lparr>user_config := cfg\<rparr> else s, err) }"

text \<open>The loop over the two configurations: the first one that has the key, with the entry.\<close>

definition find_in_configs :: "mem option \<Rightarrow> dcfg_state \<Rightarrow> (dcfg \<times> nat) option option" where
  "find_in_configs key s = do {
     e \<leftarrow> get_entry (user_config s) key;
     case e of
       Some i \<Rightarrow> Some (Some (the (user_config s), i))
     | None \<Rightarrow> do {
         e \<leftarrow> get_entry (mfr_config s) key;
         case e of
           Some i \<Rightarrow> Some (Some (the (mfr_config s), i))
         | None \<Rightarrow> Some None } }"

definition dcfg_get_entry :: "dcfg \<Rightarrow> bool \<Rightarrow> mem option \<Rightarrow> dcfg_state \<Rightarrow> (dcfg_state \<times> (dcfg \<times> nat) option) option" where
  "dcfg_get_entry base irq key s = do {
     s \<leftarrow> dcfg_init base irq s;
     e \<leftarrow> find_in_configs key s;
     Some (s, e) }"

definition entry_kind :: "(dcfg \<times> nat) option \<Rightarrow> nat option" where
  "entry_kind e = dcfg_entry_type (map_option (\<lambda>((addr, m), i). (m, i)) e)"

definition entry_val :: "(dcfg \<times> nat) option \<Rightarrow> nat option" where
  "entry_val e = (case e of None \<Rightarrow> None | Some ((addr, m), i) \<Rightarrow> entry_value m i)"

definition dcfg_get_i32 :: "dcfg \<Rightarrow> bool \<Rightarrow> mem option \<Rightarrow> int \<Rightarrow> dcfg_state \<Rightarrow> (dcfg_state \<times> int) option" where
  "dcfg_get_i32 base irq key defl s = do {
     (s, e) \<leftarrow> dcfg_get_entry base irq key s;
     tp \<leftarrow> entry_kind e;
     if tp = DCFG_TYPE_U32 then do {
       v \<leftarrow> entry_val e;
       Some (s, if v > 0x7fffffff then defl else int v) }
     else if tp = DCFG_TYPE_I32 then do {
       v \<leftarrow> entry_val e;
       Some (s, sint (of_nat v :: 32 word)) }
     else Some (s, defl) }"

definition dcfg_get_u32 :: "dcfg \<Rightarrow> bool \<Rightarrow> mem option \<Rightarrow> nat \<Rightarrow> dcfg_state \<Rightarrow> (dcfg_state \<times> nat) option" where
  "dcfg_get_u32 base irq key defl s = do {
     (s, e) \<leftarrow> dcfg_get_entry base irq key s;
     tp \<leftarrow> entry_kind e;
     if tp = DCFG_TYPE_I32 then do {
       v \<leftarrow> entry_val e;
       Some (s, if sint (of_nat v :: 32 word) < 0 then defl else v) }
     else if tp = DCFG_TYPE_U32 then do {
       v \<leftarrow> entry_val e;
       Some (s, v) }
     else Some (s, defl) }"

text \<open>The result is the configuration, the offset of the text in it and its size.\<close>

definition dcfg_get_string :: "dcfg \<Rightarrow> bool \<Rightarrow> mem option \<Rightarrow> dcfg_state \<Rightarrow> (dcfg_state \<times> (dcfg \<times> nat \<times> nat) option) option" where
  "dcfg_get_string base irq key s = do {
     s \<leftarrow> dcfg_init base irq s;
     e \<leftarrow> find_in_configs key s;
     tp \<leftarrow> entry_kind e;
     if tp = DCFG_TYPE_BLOB \<or> tp = DCFG_TYPE_STRING then
       (case e of None \<Rightarrow> None
        | Some ((addr, m), i) \<Rightarrow> do {
            size \<leftarrow> dcfg_entry_size m i;
            v \<leftarrow> entry_value m i;
            Some (s, Some ((addr, m), v, size)) })
     else Some (s, None) }"

definition dcfg_idx_key :: "mem option \<Rightarrow> nat \<Rightarrow> mem option \<Rightarrow> dcfg_state \<Rightarrow> (dcfg_state \<times> mem option) option" where
  "dcfg_idx_key prefix idx suffix s = do {
     let pre = (case prefix of None \<Rightarrow> [] | Some p \<Rightarrow> p);
     if length pre > DCFG_KEYSIZE - 1 then Some (s, None)
     else do {
       b \<leftarrow> wr_mem (keybuf s) 0 pre;
       let ptr = length pre;
       if idx \<noteq> 0xffff \<and> idx > 100 then Some (s\<lparr>keybuf := b\<rparr>, None)
       else do {
         (b, ptr) \<leftarrow> (if idx \<noteq> 0xffff then do {
              b \<leftarrow> wr8 b ptr (0x80 + of_nat idx);
              Some (b, ptr + 1) }
            else Some (b, ptr));
         let suf = (case suffix of None \<Rightarrow> [] | Some x \<Rightarrow> x);
         if ptr + length suf > DCFG_KEYSIZE then Some (s\<lparr>keybuf := b\<rparr>, None)
         else do {
           b \<leftarrow> wr_mem b ptr suf;
           b \<leftarrow> wr8 b (ptr + length suf) 0;
           k \<leftarrow> cstr b 0;
           Some (s\<lparr>keybuf := b\<rparr>, Some k) } } } }"

text \<open>The text of a string found in a configuration.\<close>

definition string_at :: "dcfg \<times> nat \<times> nat \<Rightarrow> mem option" where
  "string_at r = (case r of ((addr, m), v, sz) \<Rightarrow> cstr m v)"

definition dcfg_get_pin :: "dcfg \<Rightarrow> bool \<Rightarrow> mem option \<Rightarrow> dcfg_state \<Rightarrow> (dcfg_state \<times> byte) option" where
  "dcfg_get_pin base irq key s = do {
     (s, lbl) \<leftarrow> dcfg_get_string base irq key s;
     (s, key) \<leftarrow> (case lbl of None \<Rightarrow> Some (s, key)
        | Some l \<Rightarrow> do {
            txt \<leftarrow> string_at l;
            dcfg_idx_key (Some [0x70, 0x69, 0x6e, 0x73, 0x2e]) 0xffff (Some txt) s });
     (s, v) \<leftarrow> dcfg_get_i32 base irq key (-1) s;
     Some (s, of_int v) }"

definition dcfg_get_bool :: "dcfg \<Rightarrow> bool \<Rightarrow> mem option \<Rightarrow> dcfg_state \<Rightarrow> (dcfg_state \<times> bool) option" where
  "dcfg_get_bool base irq key s = do {
     (s, v) \<leftarrow> dcfg_get_i32 base irq key 0 s;
     Some (s, v \<noteq> 0) }"

section \<open>Enumerating entries\<close>

text \<open>Entries are given by their addresses.  \<open>entry_idx\<close> divides the pointer difference and takes the
  result as unsigned.\<close>

definition entry_idx :: "dcfg option \<Rightarrow> nat \<Rightarrow> int option" where
  "entry_idx cfg e = (case cfg of None \<Rightarrow> Some (-1)
     | Some (addr, m) \<Rightarrow> do {
         num \<leftarrow> num_entries m;
         let idx = nat (((int e - int (addr + 88)) div 24) mod 4294967296);
         Some (if idx < num then int idx else -1) })"

fun next_with_prefix :: "nat \<Rightarrow> dcfg \<Rightarrow> nat \<Rightarrow> mem \<Rightarrow> nat \<Rightarrow> nat option option" where
  "next_with_prefix 0 cfg num prefix idx = Some None"
| "next_with_prefix (Suc n) cfg num prefix idx =
     (if idx < num then do {
        k \<leftarrow> rd_mem (snd cfg) (entry_addr idx) (length prefix);
        if k = prefix then Some (Some (fst cfg + entry_addr idx))
        else next_with_prefix n cfg num prefix (idx + 1) }
      else Some None)"

fun next_entry :: "dcfg option list \<Rightarrow> mem \<Rightarrow> nat option \<Rightarrow> nat option option" where
  "next_entry [] prefix previous = Some None"
| "next_entry (None # cs) prefix previous = next_entry cs prefix previous"
| "next_entry (Some cfg # cs) prefix previous = do {
     num \<leftarrow> num_entries (snd cfg);
     idx \<leftarrow> (case previous of None \<Rightarrow> Some 0
        | Some p \<Rightarrow> do { i \<leftarrow> entry_idx (Some cfg) p; Some (if i < 0 then -1 else i + 1) });
     if idx < 0 then next_entry cs prefix previous
     else do {
       r \<leftarrow> next_with_prefix num cfg num prefix (nat idx);
       case r of Some e \<Rightarrow> Some (Some e) | None \<Rightarrow> next_entry cs prefix None } }"

definition dcfg_get_next_entry :: "dcfg \<Rightarrow> bool \<Rightarrow> mem \<Rightarrow> nat option \<Rightarrow> dcfg_state \<Rightarrow> (dcfg_state \<times> nat option) option" where
  "dcfg_get_next_entry base irq prefix previous s = do {
     s \<leftarrow> dcfg_init base irq s;
     r \<leftarrow> next_entry [user_config s, mfr_config s] prefix previous;
     Some (s, r) }"

section \<open>What validation establishes\<close>

lemma check_all_ok: "check_all f xs = Some 0 \<longleftrightarrow> (\<forall>x \<in> set xs. f x = Some 0)"
  by (induction xs) (auto simp: bind_Some_iff)

text \<open>The facts the lookups rely on: the checks of the jump table and of the entries all passed.\<close>

definition dcfg_ok :: "mem \<Rightarrow> nat \<Rightarrow> nat \<Rightarrow> bool" where
  "dcfg_ok m num tot \<longleftrightarrow>
     num_entries m = Some num \<and> rd32 m 8 = Some tot \<and> tot < 131072 \<and> entry_addr num + 20 \<le> length m \<and>
     (\<forall>i < 32. check_jump m num i = Some 0) \<and>
     (\<forall>i < num. check_entry m (88 + 24 * (num + 1)) tot i = Some 0)"

lemma dcfg_validate_ok:
  assumes "dcfg_validate (Some (a, m)) = Some 0"
  obtains num tot where "dcfg_ok m num tot"
  using assms
  by (auto simp: dcfg_validate_def dcfg_ok_def bind_Some_iff Let_def check_all_ok DCFG_HASH_JUMP_ENTRIES_def
      entry_type_size_def rd16_def rd_mem_Some_iff split: if_splits)

lemma entry_hash_key:
  assumes "entry_hash m i = Some h" "n \<le> DCFG_KEYSIZE"
  shows "rd_mem m (entry_addr i) n = Some (take n (drop (entry_addr i) m))"
  using assms by (auto simp: entry_hash_def rd16_def rd_mem_Some_iff DCFG_KEYSIZE_def)

lemma dcfg_ok_hash:
  assumes "dcfg_ok m num tot" "i < num"
  obtains h where "entry_hash m i = Some h"
proof -
  have "check_entry m (88 + 24 * (num + 1)) tot i = Some 0" using assms by (simp add: dcfg_ok_def)
  then show thesis using that by (auto simp: check_entry_def bind_Some_iff)
qed

lemma dcfg_ok_step:
  assumes "dcfg_ok m num tot" "Suc i < num" "entry_hash m i = Some h" "entry_hash m (Suc i) = Some h'"
  shows "h \<le> h'"
proof -
  have "check_entry m (88 + 24 * (num + 1)) tot (Suc i) = Some 0"
    using assms(1,2) by (simp add: dcfg_ok_def)
  then show ?thesis
    using assms(3,4) by (auto simp: check_entry_def bind_Some_iff split: if_splits)
qed

lemma dcfg_ok_sorted:
  assumes "dcfg_ok m num tot" "i \<le> j" "j < num" "entry_hash m i = Some h" "entry_hash m j = Some h'"
  shows "h \<le> h'"
  using assms(2-)
proof (induction j arbitrary: h' rule: dec_induct)
  case base
  then show ?case by simp
next
  case (step j)
  obtain g where g: "entry_hash m j = Some g"
    using dcfg_ok_hash [OF assms(1), of j] step.prems(1) by auto
  with step have "h \<le> g" by simp
  also have "g \<le> h'" using dcfg_ok_step [OF assms(1) step.prems(1) g step.prems(3)] .
  finally show ?case .
qed

lemma dcfg_ok_jump:
  assumes "dcfg_ok m num tot" "i < 32"
  obtains idx where "rd16 m (24 + 2 * i) = Some idx" "idx \<le> num"
    "\<And>j h. j < idx \<Longrightarrow> entry_hash m j = Some h \<Longrightarrow> h div 2 ^ DCFG_HASH_SHIFT < i"
proof -
  have "check_jump m num i = Some 0" using assms by (simp add: dcfg_ok_def)
  then obtain idx where idx: "rd16 m (24 + 2 * i) = Some idx" "idx \<le> num"
    and last: "idx \<noteq> 0 \<Longrightarrow> \<exists>h. entry_hash m (idx - 1) = Some h \<and> h div 2 ^ DCFG_HASH_SHIFT < i"
    by (auto simp: check_jump_def bind_Some_iff split: if_splits)
  have "h div 2 ^ DCFG_HASH_SHIFT < i" if j: "j < idx" "entry_hash m j = Some h" for j h
  proof -
    obtain h' where h': "entry_hash m (idx - 1) = Some h'" "h' div 2 ^ DCFG_HASH_SHIFT < i"
      using last j(1) by auto
    have "h \<le> h'"
      using dcfg_ok_sorted [OF assms(1) _ _ j(2) h'(1)] j(1) idx(2) by simp
    then have "h div 2 ^ DCFG_HASH_SHIFT \<le> h' div 2 ^ DCFG_HASH_SHIFT"
      by (rule div_le_mono)
    with h'(2) show ?thesis by simp
  qed
  with idx that show thesis by blast
qed

section \<open>The jump table lookup is a linear search\<close>

definition entry_matches :: "mem \<Rightarrow> mem \<Rightarrow> nat \<Rightarrow> bool" where
  "entry_matches m key i \<longleftrightarrow>
     entry_hash m i = Some (keyhash key) \<and> take (length key) (drop (entry_addr i) m) = key"

lemma find_upt_skip:
  assumes "k \<le> n" "\<And>i. i < k \<Longrightarrow> \<not> P i"
  shows "find P [0..<n] = find P [k..<n]"
proof -
  have "[0..<n] = [0..<k] @ [k..<n]" using assms(1) by (metis le_add_diff_inverse upt_add_eq_append zero_le)
  moreover have "find P (xs @ ys) = find P ys" if "\<And>x. x \<in> set xs \<Longrightarrow> \<not> P x" for xs ys
    using that by (induction xs) auto
  ultimately show ?thesis using assms(2) by (metis atLeastLessThan_iff set_upt)
qed

lemma scan_hash_find:
  assumes ok: "dcfg_ok m num tot" and len: "length key \<le> DCFG_KEYSIZE"
    and "idx \<le> num" "num - idx < n"
  shows "scan_hash n m num (keyhash key) key idx = Some (find (entry_matches m key) [idx..<num])"
  using assms(3-)
proof (induction n arbitrary: idx)
  case 0
  then show ?case by simp
next
  case (Suc n)
  show ?case
  proof (cases "idx < num")
    case True
    obtain h where h: "entry_hash m idx = Some h" by (rule dcfg_ok_hash [OF ok True])
    note k = entry_hash_key [OF h len]
    have upt: "[idx..<num] = idx # [idx + 1..<num]" using True by (simp add: upt_conv_Cons)
    have IH: "scan_hash n m num (keyhash key) key (idx + 1) = Some (find (entry_matches m key) [idx + 1..<num])"
      using True Suc.prems by (intro Suc.IH) auto
    show ?thesis
    proof (cases "h \<le> keyhash key")
      case True
      then have "scan_hash (Suc n) m num (keyhash key) key idx =
          (if entry_matches m key idx then Some (Some idx) else scan_hash n m num (keyhash key) key (idx + 1))"
        using \<open>idx < num\<close> h k by (simp add: entry_matches_def)
      then show ?thesis using IH upt by simp
    next
      case False
      have "\<not> entry_matches m key j" if "j \<in> set [idx..<num]" for j
        using that False dcfg_ok_sorted [OF ok _ _ h, of j] by (auto simp: entry_matches_def)
      then have "find (entry_matches m key) [idx..<num] = None" by (simp add: find_None_iff)
      with False \<open>idx < num\<close> h show ?thesis by simp
    qed
  next
    case False
    with Suc.prems show ?thesis by simp
  qed
qed

lemma keyhash_lt: "keyhash key < 65536"
  by (simp only: keyhash_def Let_def unat_16_lt)

lemma keyhash_bucket: "keyhash key div 2 ^ DCFG_HASH_SHIFT < 32"
  using keyhash_lt [of key] by (simp add: DCFG_HASH_SHIFT_def div_less_iff_less_mult)

lemma get_entry_find:
  assumes ok: "dcfg_ok m num tot" and len: "length key \<le> DCFG_KEYSIZE"
  shows "get_entry (Some (a, m)) (Some key) = Some (find (entry_matches m key) [0..<num])"
proof -
  obtain idx where idx: "rd16 m (24 + 2 * (keyhash key div 2 ^ DCFG_HASH_SHIFT)) = Some idx" "idx \<le> num"
    and below: "\<And>j h. j < idx \<Longrightarrow> entry_hash m j = Some h \<Longrightarrow>
      h div 2 ^ DCFG_HASH_SHIFT < keyhash key div 2 ^ DCFG_HASH_SHIFT"
    using dcfg_ok_jump [OF ok keyhash_bucket [of key]] by blast
  have "\<not> entry_matches m key j" if "j < idx" for j
    using below [OF that] by (auto simp: entry_matches_def)
  then have "find (entry_matches m key) [0..<num] = find (entry_matches m key) [idx..<num]"
    using idx(2) by (intro find_upt_skip) auto
  moreover have "num_entries m = Some num" using ok by (simp add: dcfg_ok_def)
  ultimately show ?thesis
    using idx len scan_hash_find [OF ok len idx(2), of "num + 1"]
    by (simp add: get_entry_def Let_def)
qed

section \<open>The state of the configuration\<close>

definition dcfg_wf :: "dcfg_state \<Rightarrow> bool" where
  "dcfg_wf s \<longleftrightarrow> length (keybuf s) = DCFG_KEYSIZE + 1 \<and>
     (\<forall>c \<in> {user_config s, mfr_config s}. \<forall>a m. c = Some (a, m) \<longrightarrow> (\<exists>num tot. dcfg_ok m num tot))"

lemma dcfg_validate_ex: "dcfg_validate (Some (a, m)) = Some 0 \<Longrightarrow> \<exists>num. Ex (dcfg_ok m num)"
  by (metis dcfg_validate_ok)

lemma dcfg_wf_init [jd_inv]:
  assumes "dcfg_wf s" "dcfg_init base irq s = Some s'"
  shows "dcfg_wf s' \<and> dcfg_inited s'"
  using assms
  by (cases base) (auto simp: dcfg_init_def Let_def bind_Some_iff dcfg_wf_def split: if_splits dest: dcfg_validate_ex)

lemma dcfg_init_done: "dcfg_inited s \<Longrightarrow> dcfg_init base irq s = Some s"
  by (simp add: dcfg_init_def)

lemma dcfg_wf_set_user_config [jd_inv]:
  assumes "dcfg_wf s" "dcfg_set_user_config base irq cfg s = Some (s', err)"
  shows "dcfg_wf s' \<and> dcfg_inited s' \<and> user_config s' = (if err = 0 then cfg else None)"
proof -
  obtain t where t: "dcfg_init base irq s = Some t" "dcfg_validate cfg = Some err"
    "s' = (if err = 0 then t\<lparr>user_config := cfg\<rparr> else t\<lparr>user_config := None\<rparr>)"
    using assms(2) by (auto simp: dcfg_set_user_config_def bind_Some_iff Let_def)
  have "dcfg_wf t" "dcfg_inited t" using dcfg_wf_init [OF assms(1) t(1)] by auto
  with t(2,3) show ?thesis by (auto simp: dcfg_wf_def dest: dcfg_validate_ex)
qed

lemma dcfg_idx_key_total:
  assumes "length (keybuf s) = DCFG_KEYSIZE + 1"
  obtains b k where "dcfg_idx_key prefix idx suffix s = Some (s\<lparr>keybuf := b\<rparr>, k)" "length b = DCFG_KEYSIZE + 1"
    "idx \<noteq> 0xffff \<Longrightarrow> 100 < idx \<Longrightarrow> k = None"
proof -
  define pre where "pre = (case prefix of None \<Rightarrow> [] | Some p \<Rightarrow> p)"
  define suf where "suf = (case suffix of None \<Rightarrow> [] | Some x \<Rightarrow> x)"
  show thesis
  proof (cases "length pre \<le> DCFG_KEYSIZE - 1")
    case False
    then show ?thesis using assms that [of "keybuf s" None] by (simp add: dcfg_idx_key_def pre_def [symmetric])
  next
    case True
    define b where "b = patch (keybuf s) 0 pre"
    have b: "wr_mem (keybuf s) 0 pre = Some b" "length b = DCFG_KEYSIZE + 1"
      using True assms by (auto simp: b_def DCFG_KEYSIZE_def)
    show ?thesis
    proof (cases "idx \<noteq> 0xffff \<and> idx > 100")
      case True
      then show ?thesis using that [of b None] b \<open>length pre \<le> _\<close>
        by (simp add: dcfg_idx_key_def Let_def pre_def [symmetric] DCFG_KEYSIZE_def)
    next
      case False
      define c where "c = (if idx \<noteq> 0xffff then b[length pre := 0x80 + of_nat idx] else b)"
      define ptr where "ptr = (if idx \<noteq> 0xffff then length pre + 1 else length pre)"
      have c: "(if idx \<noteq> 0xffff then do { b \<leftarrow> wr8 b (length pre) (0x80 + of_nat idx); Some (b, length pre + 1) }
          else Some (b, length pre)) = Some (c, ptr)" "length c = DCFG_KEYSIZE + 1"
        using b \<open>length pre \<le> _\<close> by (auto simp: c_def ptr_def DCFG_KEYSIZE_def)
      define d where "d = (patch c ptr suf)[ptr + length suf := 0]"
      have d: "length d = DCFG_KEYSIZE + 1 \<and> wr_mem c ptr suf = Some (patch c ptr suf) \<and>
          wr8 (patch c ptr suf) (ptr + length suf) 0 = Some d \<and> cstr d 0 \<noteq> None" if "ptr + length suf \<le> DCFG_KEYSIZE"
      proof -
        have "d ! (ptr + length suf) = 0" "ptr + length suf < length d"
          using that c(2) by (auto simp: d_def)
        then have "length (takeWhile (\<lambda>b. b \<noteq> 0) d) < length d"
          by (metis (mono_tags, lifting) nth_mem set_takeWhileD length_takeWhile_le le_neq_implies_less takeWhile_eq_take take_all)
        then show ?thesis using that c(2) by (auto simp: d_def cstr_def Let_def)
      qed
      have unf: "dcfg_idx_key prefix idx suffix s =
          (if ptr + length suf > DCFG_KEYSIZE then Some (s\<lparr>keybuf := c\<rparr>, None)
           else do { b \<leftarrow> wr_mem c ptr suf; b \<leftarrow> wr8 b (ptr + length suf) 0; k \<leftarrow> cstr b 0;
             Some (s\<lparr>keybuf := b\<rparr>, Some k) })"
        using \<open>length pre \<le> _\<close> False b(1) c(1)
        by (auto simp: dcfg_idx_key_def Let_def pre_def [symmetric] suf_def [symmetric] cong: if_cong)
      show ?thesis
        using unf d c(2) that [of c None] that [of d "Some (the (cstr d 0))"] False
        by (cases "ptr + length suf \<le> DCFG_KEYSIZE") auto
    qed
  qed
qed

section \<open>Lookups in validated configurations\<close>

lemma get_entry_total:
  assumes "\<And>a m. cfg = Some (a, m) \<Longrightarrow> \<exists>num tot. dcfg_ok m num tot"
  obtains e where "get_entry cfg key = Some e"
    "\<And>i. e = Some i \<Longrightarrow> \<exists>a m num tot. cfg = Some (a, m) \<and> dcfg_ok m num tot \<and> i < num"
proof (cases "\<exists>a m k. cfg = Some (a, m) \<and> key = Some k \<and> length k \<le> DCFG_KEYSIZE")
  case True
  then obtain a m k num tot where k: "cfg = Some (a, m)" "key = Some k" "length k \<le> DCFG_KEYSIZE" "dcfg_ok m num tot"
    using assms by metis
  have "i < num" if "find (entry_matches m k) [0..<num] = Some i" for i
    using that by (auto simp: find_Some_iff)
  then show ?thesis using that [OF get_entry_find [OF k(4,3), of a, folded k(1,2)]] k by blast
next
  case False
  then have "get_entry cfg key = Some None"
    by (auto simp: get_entry_def split: option.splits prod.splits)
  with that show ?thesis by blast
qed

lemma find_in_configs_total:
  assumes "dcfg_wf s"
  obtains e where "find_in_configs key s = Some e"
    "\<And>a m i. e = Some ((a, m), i) \<Longrightarrow> \<exists>num tot. dcfg_ok m num tot \<and> i < num"
proof -
  obtain e where e: "get_entry (user_config s) key = Some e"
    "\<And>i. e = Some i \<Longrightarrow> \<exists>a m num tot. user_config s = Some (a, m) \<and> dcfg_ok m num tot \<and> i < num"
    by (rule get_entry_total [of "user_config s" key]) (use assms in \<open>auto simp: dcfg_wf_def\<close>)
  obtain f where f: "get_entry (mfr_config s) key = Some f"
    "\<And>i. f = Some i \<Longrightarrow> \<exists>a m num tot. mfr_config s = Some (a, m) \<and> dcfg_ok m num tot \<and> i < num"
    by (rule get_entry_total [of "mfr_config s" key]) (use assms in \<open>auto simp: dcfg_wf_def\<close>)
  show thesis
  proof (cases e)
    case (Some i)
    then obtain a m num tot where "user_config s = Some (a, m)" "dcfg_ok m num tot" "i < num"
      using e(2) by blast
    then show ?thesis using that [of "Some ((a, m), i)"] e(1) Some by (auto simp: find_in_configs_def)
  next
    case None
    show ?thesis
    proof (cases f)
      case None
      with \<open>e = None\<close> e(1) f(1) that [of None] show ?thesis by (auto simp: find_in_configs_def)
    next
      case (Some i)
      then obtain a m num tot where "mfr_config s = Some (a, m)" "dcfg_ok m num tot" "i < num"
        using f(2) by blast
      then show ?thesis using that [of "Some ((a, m), i)"] e(1) f(1) Some \<open>e = None\<close> by (auto simp: find_in_configs_def)
    qed
  qed
qed

lemma dcfg_ok_fields:
  assumes "dcfg_ok m num tot" "i < num"
  obtains t v where "entry_type_size m i = Some t" "entry_value m i = Some v"
    "t mod 4 = DCFG_TYPE_STRING \<or> t mod 4 = DCFG_TYPE_BLOB \<Longrightarrow> rd8 m (v + t div 4) = Some 0"
proof -
  have c: "check_entry m (88 + 24 * (num + 1)) tot i = Some 0" and len: "entry_addr num + 20 \<le> length m"
    using assms by (simp_all add: dcfg_ok_def)
  have "entry_addr i + 24 \<le> length m" using len assms(2) by (simp add: entry_addr_def)
  then obtain t v where t: "entry_type_size m i = Some t" "entry_value m i = Some v"
    by (simp add: entry_type_size_def entry_value_def rd16_def rd32_def)
  moreover have "rd8 m (v + t div 4) = Some 0" if "t mod 4 = DCFG_TYPE_STRING \<or> t mod 4 = DCFG_TYPE_BLOB"
    using c t that
    by (auto simp: check_entry_def bind_Some_iff dcfg_entry_size_def dcfg_entry_type_def dcfg_types split: if_splits)
  ultimately show thesis using that by blast
qed

lemma cstr_before_zero:
  assumes "rd8 m (v + n) = Some 0"
  shows "\<exists>txt. cstr m v = Some txt \<and> length txt \<le> n"
proof -
  have m: "v + n < length m" "m ! (v + n) = 0" using assms by (auto simp: rd8_Some_iff)
  let ?w = "takeWhile (\<lambda>b. b \<noteq> 0) (drop v m)"
  have "\<not> n < length ?w"
  proof
    assume "n < length ?w"
    then have "?w ! n \<in> set ?w" "?w ! n = drop v m ! n"
      by (rule nth_mem, rule takeWhile_nth)
    then have "drop v m ! n \<noteq> 0" using set_takeWhileD by metis
    with m show False by simp
  qed
  with m(1) show ?thesis by (auto simp: cstr_def Let_def)
qed

lemma dcfg_get_string_found:
  assumes "dcfg_wf s" "dcfg_inited s"
  obtains r where "dcfg_get_string base irq key s = Some (s, r)"
    "\<And>a m v sz. r = Some ((a, m), v, sz) \<Longrightarrow> rd8 m (v + sz) = Some 0"
proof -
  obtain e where e: "find_in_configs key s = Some e"
    "\<And>a m i. e = Some ((a, m), i) \<Longrightarrow> \<exists>num tot. dcfg_ok m num tot \<and> i < num"
    using find_in_configs_total [OF assms(1), of key] by metis
  show thesis
  proof (cases e)
    case None
    then show ?thesis
      using that [of None] e(1) assms(2)
      by (simp add: dcfg_get_string_def dcfg_init_done entry_kind_def dcfg_entry_type_def dcfg_types)
  next
    case (Some x)
    then obtain a m i where x: "e = Some ((a, m), i)" by (metis surj_pair)
    then obtain num tot where "dcfg_ok m num tot" "i < num" using e(2) by blast
    then obtain t v where t: "entry_type_size m i = Some t" "entry_value m i = Some v"
      "t mod 4 = DCFG_TYPE_STRING \<or> t mod 4 = DCFG_TYPE_BLOB \<Longrightarrow> rd8 m (v + t div 4) = Some 0"
      using dcfg_ok_fields by metis
    define r where "r = (if t mod 4 = DCFG_TYPE_BLOB \<or> t mod 4 = DCFG_TYPE_STRING then Some ((a, m), v, t div 4) else None)"
    have "dcfg_get_string base irq key s = Some (s, r)"
      using t(1,2) e(1) x assms(2)
      by (simp add: r_def dcfg_get_string_def dcfg_init_done entry_kind_def dcfg_entry_type_def dcfg_entry_size_def)
    moreover have "rd8 m' (v' + sz) = Some 0" if r: "r = Some ((a', m'), v', sz)" for a' m' v' sz
      using r t(3) by (auto simp: r_def split: if_splits)
    ultimately show ?thesis using that by blast
  qed
qed

section \<open>Properties\<close>

text \<open>C36: In a configuration that \<open>dcfg_validate\<close> accepts, the lookup through the hash jump table and the
  sorted scan returns the same entry as a linear search over all entries for the first whose hash is that
  of the key and whose key field starts with the key; it never reads outside the block.\<close>

theorem get_entry_linear:
  assumes "dcfg_validate (Some (a, m)) = Some 0" "num_entries m = Some num" "length key \<le> DCFG_KEYSIZE"
  shows "get_entry (Some (a, m)) (Some key) = Some (find (entry_matches m key) [0..<num])"
proof -
  obtain n tot where ok: "dcfg_ok m n tot" by (rule dcfg_validate_ok [OF assms(1)])
  with assms(2) have "n = num" by (simp add: dcfg_ok_def)
  with get_entry_find [OF ok assms(3)] show ?thesis by simp
qed

definition example_config :: mem where
  "example_config =
    [68, 67, 70, 71, 10, 155, 180, 202, 138, 0, 0, 0, 1, 0, 0, 0, 0, 0, 0, 0, 0, 0, 0, 0, 0, 0, 0, 0, 0, 0, 0, 0,
     0, 0, 0, 0, 0, 0, 0, 0, 0, 0, 0, 0, 0, 0, 0, 0, 0, 0, 0, 0, 0, 0, 0, 0, 0, 0, 0, 0, 0, 0, 0, 0, 0, 0, 0, 0, 0,
     0, 0, 0, 0, 0, 0, 0, 1, 0, 1, 0, 1, 0, 1, 0, 1, 0, 1, 0, 97, 0, 0, 0, 0, 0, 0, 0, 0, 0, 0, 0, 0, 0, 0, 0, 32,
     205, 6, 0, 136, 0, 0, 0, 255, 255, 255, 255, 255, 255, 255, 255, 255, 255, 255, 255, 255, 255, 255, 255, 255,
     255, 255, 255, 255, 255, 255, 255, 120, 0]"

lemma example_config_fields:
  "rd32 example_config 0 = Some DCFG_MAGIC0" "rd32 example_config 4 = Some DCFG_MAGIC1"
  "rd32 example_config 8 = Some 138" "num_entries example_config = Some 1"
  "entry_hash example_config 0 = Some 52512" "entry_hash example_config 1 = Some 65535"
  "entry_type_size example_config 0 = Some 6" "entry_type_size example_config 1 = Some 65535"
  "entry_value example_config 0 = Some 136" "cstr example_config 88 = Some [97]"
  "rd8 example_config 137 = Some 0" "keyhash [97] = 52512"
  by code_simp+

lemma example_config_jump:
  assumes "i < 32"
  shows "rd16 example_config (24 + 2 * i) = Some (if i < 26 then 0 else 1)"
proof -
  have "list_all (\<lambda>i. rd16 example_config (24 + 2 * i) = Some (if i < 26 then 0 else 1)) [0..<32]"
    by code_simp
  with assms show ?thesis by (simp only: list_all_iff) simp
qed

lemma example_config_valid: "dcfg_validate (Some (0, example_config)) = Some 0"
proof -
  have "check_jump example_config 1 i = Some 0" if "i < 32" for i
    using example_config_jump [OF that] example_config_fields(5,6) that
    by (simp add: check_jump_def DCFG_HASH_SHIFT_def)
  moreover have "check_entry example_config 136 138 0 = Some 0"
    by (simp add: check_entry_def entry_addr_def example_config_fields DCFG_KEYSIZE_def dcfg_entry_size_def
        dcfg_entry_type_def dcfg_types)
  ultimately have "check_all (check_jump example_config 1) [0..<32] = Some 0"
    "check_all (check_entry example_config 136 138) [0..<1] = Some 0"
    by (simp_all add: check_all_ok)
  then show ?thesis
    by (simp add: dcfg_validate_def example_config_fields [simplified] DCFG_HASH_JUMP_ENTRIES_def)
qed

theorem get_entry_linear_witness:
  "get_entry (Some (0, example_config)) (Some [97]) = Some (Some 0)"
proof -
  have "take 1 (drop 88 example_config) = [97]" by code_simp
  then have "entry_matches example_config [97] 0"
    by (simp add: entry_matches_def example_config_fields entry_addr_def)
  then show ?thesis
    using get_entry_linear [OF example_config_valid, of 1 "[97]"] by (simp add: DCFG_KEYSIZE_def example_config_fields)
qed

text \<open>Once both configurations passed validation (the invariant that \<open>dcfg_init\<close> and
  \<open>dcfg_set_user_config\<close> keep), \<open>dcfg_get_string\<close> returns for every key, the state is unchanged, and a text it
  finds is terminated inside the configuration block, at or before the stored size.\<close>

theorem dcfg_get_string_safe:
  assumes "dcfg_wf s" "dcfg_set_user_config base irq cfg s = Some (s', err)"
  shows "dcfg_wf s' \<and>
    (\<exists>r. dcfg_get_string base irq key s' = Some (s', r) \<and>
      (case r of None \<Rightarrow> True
       | Some ((a, m), v, sz) \<Rightarrow> \<exists>txt. cstr m v = Some txt \<and> length txt \<le> sz \<and> rd8 m (v + sz) = Some 0))"
proof -
  have wf: "dcfg_wf s'" "dcfg_inited s'" using dcfg_wf_set_user_config [OF assms] by auto
  obtain r where r: "dcfg_get_string base irq key s' = Some (s', r)"
    "\<And>a m v sz. r = Some ((a, m), v, sz) \<Longrightarrow> rd8 m (v + sz) = Some 0"
    using dcfg_get_string_found [OF wf, of base irq key] by metis
  have "case r of None \<Rightarrow> True
       | Some ((a, m), v, sz) \<Rightarrow> \<exists>txt. cstr m v = Some txt \<and> length txt \<le> sz \<and> rd8 m (v + sz) = Some 0"
    using r(2) by (auto split: option.splits prod.splits intro!: cstr_before_zero)
  with wf(1) r(1) show ?thesis by blast
qed

definition dcfg_state0 :: dcfg_state where
  "dcfg_state0 = \<lparr>dcfg_inited = False, user_config = None, mfr_config = None, keybuf = replicate 16 0\<rparr>"

lemma dcfg_wf_state0: "dcfg_wf dcfg_state0"
  by (simp add: dcfg_wf_def dcfg_state0_def DCFG_KEYSIZE_def)

theorem dcfg_get_string_safe_witness:
  "\<exists>s'. dcfg_set_user_config (0, replicate 8 0) False (Some (0, example_config)) dcfg_state0 = Some (s', 0) \<and>
     dcfg_wf s' \<and> (\<exists>r. dcfg_get_string (0, replicate 8 0) False (Some [97]) s' = Some (s', r))"
proof -
  have e: "dcfg_validate (Some (0, replicate 8 0)) = Some 2002" by code_simp
  have "\<exists>s'. dcfg_set_user_config (0, replicate 8 0) False (Some (0, example_config)) dcfg_state0 = Some (s', 0)"
    unfolding dcfg_set_user_config_def dcfg_init_def e example_config_valid by (simp add: dcfg_state0_def)
  then obtain s' where s': "dcfg_set_user_config (0, replicate 8 0) False (Some (0, example_config)) dcfg_state0 = Some (s', 0)"
    by blast
  from dcfg_get_string_safe [OF dcfg_wf_state0 s', of "Some [97]"] s' show ?thesis by blast
qed

end
