(* ===== verification/Jd_Srvcfg.thy ===== *)
theory Jd_Srvcfg
  imports Jd_Dcfg
begin

text \<open>
  The service configuration, source/jd\_srvcfg.c: services described by entries \<open>N.service\<close> of the device
  configuration are started one by one.  The state has the configuration, the current index, the map from
  service indices to configuration indices, and the rest of the device (\<open>srv_world\<close>).  The configuration
  functions of the services (\<open>button_config\<close>, ...) and \<open>_jd_services_curr_idx\<close> work on that rest and are
  parameters.
\<close>

definition JD_MAX_SERVICES :: nat where "JD_MAX_SERVICES = 32"

record 'w srvcfg =
  srv_dcfg :: dcfg_state
  jd_srvcfg_idx :: nat
  jd_srvcfg_idx_map :: "nat list"
  srv_world :: 'w

record 'w srvcfg_env =
  cfg_base :: dcfg
  cfg_irq :: bool
  cfgfn :: "nat \<Rightarrow> 'w srvcfg \<Rightarrow> 'w srvcfg option"
  services_curr_idx :: "'w \<Rightarrow> nat"

definition ascii :: "string \<Rightarrow> mem" where
  "ascii s = map of_char s"

text \<open>The table without \<open>JD_HOSTED\<close> and \<open>JD_HID\<close>, with \<open>JD_ANALOG\<close>; the \<open>i\<close>-th function is \<open>cfgfn i\<close>.\<close>

definition jd_srvcfg_entries :: "mem list" where
  "jd_srvcfg_entries = map ascii [''rotaryEncoder'', ''button'', ''switch'', ''relay'', ''flex'', ''analog'',
     ''gamepad'', ''accelerometer'', ''power'', ''lightBulb'', ''buzzer'', ''servo'', ''motion'', ''motor'']"

section \<open>Keys of the current service\<close>

definition mk_key :: "nat \<Rightarrow> mem \<Rightarrow> dcfg_state \<Rightarrow> (dcfg_state \<times> mem option) option" where
  "mk_key idx key s = (if idx = 0xff then Some (s, None) else dcfg_idx_key (Some []) idx (Some key) s)"

definition jd_srvcfg_key :: "mem \<Rightarrow> 'w srvcfg \<Rightarrow> ('w srvcfg \<times> mem option) option" where
  "jd_srvcfg_key key s = do {
     (d, k) \<leftarrow> mk_key (jd_srvcfg_idx s) key (srv_dcfg s);
     Some (s\<lparr>srv_dcfg := d\<rparr>, k) }"

definition jd_srvcfg_pin :: "'w srvcfg_env \<Rightarrow> mem \<Rightarrow> 'w srvcfg \<Rightarrow> ('w srvcfg \<times> byte) option" where
  "jd_srvcfg_pin e key s = do {
     (s, k) \<leftarrow> jd_srvcfg_key key s;
     (d, v) \<leftarrow> dcfg_get_pin (cfg_base e) (cfg_irq e) k (srv_dcfg s);
     Some (s\<lparr>srv_dcfg := d\<rparr>, v) }"

definition jd_srvcfg_i32 :: "'w srvcfg_env \<Rightarrow> mem \<Rightarrow> int \<Rightarrow> 'w srvcfg \<Rightarrow> ('w srvcfg \<times> int) option" where
  "jd_srvcfg_i32 e key defl s = do {
     (s, k) \<leftarrow> jd_srvcfg_key key s;
     (d, v) \<leftarrow> dcfg_get_i32 (cfg_base e) (cfg_irq e) k defl (srv_dcfg s);
     Some (s\<lparr>srv_dcfg := d\<rparr>, v) }"

text \<open>The \<open>int32_t\<close> default and result go through the \<open>uint32_t\<close> of \<open>dcfg_get_u32\<close>.\<close>

definition jd_srvcfg_u32 :: "'w srvcfg_env \<Rightarrow> mem \<Rightarrow> int \<Rightarrow> 'w srvcfg \<Rightarrow> ('w srvcfg \<times> int) option" where
  "jd_srvcfg_u32 e key defl s = do {
     (s, k) \<leftarrow> jd_srvcfg_key key s;
     (d, v) \<leftarrow> dcfg_get_u32 (cfg_base e) (cfg_irq e) k (unat (of_int defl :: 32 word)) (srv_dcfg s);
     Some (s\<lparr>srv_dcfg := d\<rparr>, sint (of_nat v :: 32 word)) }"

definition jd_srvcfg_has_flag :: "'w srvcfg_env \<Rightarrow> mem \<Rightarrow> 'w srvcfg \<Rightarrow> ('w srvcfg \<times> bool) option" where
  "jd_srvcfg_has_flag e key s = do {
     (s, v) \<leftarrow> jd_srvcfg_i32 e key 0 s;
     Some (s, v \<noteq> 0) }"

section \<open>Starting the configured services\<close>

text \<open>\<open>memcmp(a, b, n) == 0\<close>, up to the first difference; running off the end of either is \<open>None\<close>.\<close>

fun memeq :: "mem \<Rightarrow> mem \<Rightarrow> nat \<Rightarrow> bool option" where
  "memeq a b 0 = Some True"
| "memeq (x # a) (y # b) (Suc n) = (if x = y then memeq a b n else Some False)"
| "memeq a b (Suc n) = None"

text \<open>The inner loop over the table: the index of the entry with the name, if there is one.\<close>

fun find_service :: "mem list \<Rightarrow> nat \<Rightarrow> mem \<Rightarrow> nat \<Rightarrow> nat option option" where
  "find_service [] i srv namelen = Some None"
| "find_service (n # ns) i srv namelen = do {
     same \<leftarrow> memeq srv (n @ [0]) namelen;
     found \<leftarrow> (if same then map_option (\<lambda>b. b = 0) (rd8 (n @ [0]) namelen) else Some False);
     if found then Some (Some i) else find_service ns (i + 1) srv namelen }"

definition init_service :: "'w srvcfg_env \<Rightarrow> dcfg \<times> nat \<times> nat \<Rightarrow> 'w srvcfg \<Rightarrow> 'w srvcfg option" where
  "init_service e r s = do {
     srv \<leftarrow> string_at r;
     let namelen = length (takeWhile (\<lambda>c. c \<noteq> 0x3a) srv);
     i \<leftarrow> find_service jd_srvcfg_entries 0 srv namelen;
     case i of
       None \<Rightarrow> Some s
     | Some i \<Rightarrow> do {
         let slot = services_curr_idx e (srv_world s);
         jd_assert (slot < length (jd_srvcfg_idx_map s));
         cfgfn e i (s\<lparr>jd_srvcfg_idx_map := (jd_srvcfg_idx_map s)[slot := jd_srvcfg_idx s]\<rparr>) } }"

fun srvcfg_loop :: "nat \<Rightarrow> 'w srvcfg_env \<Rightarrow> 'w srvcfg \<Rightarrow> 'w srvcfg option" where
  "srvcfg_loop 0 e s = None"
| "srvcfg_loop (Suc n) e s = do {
     (s, k) \<leftarrow> jd_srvcfg_key (ascii ''service'') s;
     (d, srv) \<leftarrow> dcfg_get_string (cfg_base e) (cfg_irq e) k (srv_dcfg s);
     let s = s\<lparr>srv_dcfg := d\<rparr>;
     case srv of
       None \<Rightarrow> if jd_srvcfg_idx s < 0x40 then srvcfg_loop n e (s\<lparr>jd_srvcfg_idx := 0x40\<rparr>) else Some s
     | Some r \<Rightarrow> do {
         s \<leftarrow> init_service e r s;
         srvcfg_loop n e (s\<lparr>jd_srvcfg_idx := u8 (jd_srvcfg_idx s + 1)\<rparr>) } }"

text \<open>No key has an index above 100, so the index stops at 101 at the latest: 102 rounds are enough.\<close>

definition jd_srvcfg_run :: "'w srvcfg_env \<Rightarrow> 'w srvcfg \<Rightarrow> 'w srvcfg option" where
  "jd_srvcfg_run e s = do {
     jd_assert (jd_srvcfg_idx s = 0);
     s \<leftarrow> srvcfg_loop 102 e (s\<lparr>jd_srvcfg_idx_map := replicate JD_MAX_SERVICES 0xff\<rparr>);
     Some (s\<lparr>jd_srvcfg_idx := 0xff\<rparr>) }"

definition jd_srvcfg_instance_name :: "'w srvcfg_env \<Rightarrow> nat \<Rightarrow> 'w srvcfg \<Rightarrow> ('w srvcfg \<times> (dcfg \<times> nat \<times> nat) option) option" where
  "jd_srvcfg_instance_name e service_index s = do {
     jd_assert (service_index < length (jd_srvcfg_idx_map s));
     (d, k) \<leftarrow> mk_key (jd_srvcfg_idx_map s ! service_index) (ascii ''name'') (srv_dcfg s);
     (d, r) \<leftarrow> dcfg_get_string (cfg_base e) (cfg_irq e) k d;
     Some (s\<lparr>srv_dcfg := d\<rparr>, r) }"

definition jd_srvcfg_variant :: "'w srvcfg_env \<Rightarrow> nat \<Rightarrow> 'w srvcfg \<Rightarrow> ('w srvcfg \<times> int) option" where
  "jd_srvcfg_variant e service_index s = do {
     jd_assert (service_index < length (jd_srvcfg_idx_map s));
     (d, k) \<leftarrow> mk_key (jd_srvcfg_idx_map s ! service_index) (ascii ''variant'') (srv_dcfg s);
     (d, v) \<leftarrow> dcfg_get_i32 (cfg_base e) (cfg_irq e) k (-1) d;
     Some (s\<lparr>srv_dcfg := d\<rparr>, v) }"

section \<open>Looking a name up in the table\<close>

lemma memeq_prefix:
  assumes "0 \<notin> set srv" "0 \<notin> set n" "k \<le> length srv"
  shows "memeq srv (n @ [0]) k = Some (k \<le> length n \<and> take k srv = take k n)"
  using assms
proof (induction k arbitrary: srv n)
  case 0
  then show ?case by simp
next
  case (Suc k)
  then obtain x srv' where "srv = x # srv'" by (cases srv) auto
  with Suc show ?case by (cases n) auto
qed

lemma find_service_total:
  assumes "0 \<notin> set srv" "k \<le> length srv" "list_all (\<lambda>n. 0 \<notin> set n) ns"
  shows "\<exists>r. find_service ns i srv k = Some r \<and>
    (\<forall>j. r = Some j \<longrightarrow> i \<le> j \<and> j < i + length ns \<and> ns ! (j - i) = take k srv)"
  using assms(3)
proof (induction ns arbitrary: i)
  case Nil
  then show ?case by simp
next
  case (Cons n ns)
  have m: "memeq srv (n @ [0]) k = Some (k \<le> length n \<and> take k srv = take k n)"
    using memeq_prefix assms(1,2) Cons.prems by simp
  obtain r where r: "find_service ns (i + 1) srv k = Some r"
    "\<And>j. r = Some j \<Longrightarrow> i + 1 \<le> j \<and> j < i + 1 + length ns \<and> ns ! (j - (i + 1)) = take k srv"
    using Cons by fastforce
  show ?case
  proof (cases "k \<le> length n \<and> take k srv = take k n \<and> (n @ [0]) ! k = 0")
    case True
    moreover have "k = length n"
    proof (rule ccontr)
      assume "k \<noteq> length n"
      with True have "n ! k = 0" "n ! k \<in> set n" by (auto simp: nth_append)
      with Cons.prems show False by simp
    qed
    ultimately show ?thesis using m by simp
  next
    case False
    then have "find_service (n # ns) i srv k = Some r"
      using m r(1) by (auto simp: rd8_def)
    with r(2) show ?thesis
      by (intro exI [of _ r]) (auto simp: nth_Cons' Suc_le_eq dest!: r(2))
  qed
qed

lemma entries_nul_free: "list_all (\<lambda>n. 0 \<notin> set n) jd_srvcfg_entries"
  by code_simp

section \<open>The run ends\<close>

definition srvcfg_ok :: "'w srvcfg_env \<Rightarrow> 'w srvcfg \<Rightarrow> bool" where
  "srvcfg_ok e s \<longleftrightarrow> dcfg_wf (srv_dcfg s) \<and> dcfg_inited (srv_dcfg s) \<and>
     length (jd_srvcfg_idx_map s) = JD_MAX_SERVICES \<and> services_curr_idx e (srv_world s) < JD_MAX_SERVICES"

text \<open>What the configuration functions owe: they return, do not move the current index, keep the
  configuration valid and leave a free slot.\<close>

definition cfgfn_ok :: "'w srvcfg_env \<Rightarrow> bool" where
  "cfgfn_ok e \<longleftrightarrow> (\<forall>i s. srvcfg_ok e s \<longrightarrow>
     (\<exists>t. cfgfn e i s = Some t \<and> srvcfg_ok e t \<and> jd_srvcfg_idx t = jd_srvcfg_idx s))"

lemma jd_srvcfg_key_ok:
  assumes "srvcfg_ok e s"
  shows "\<exists>t k. jd_srvcfg_key key s = Some (t, k) \<and> srvcfg_ok e t \<and> jd_srvcfg_idx t = jd_srvcfg_idx s \<and>
    (100 < jd_srvcfg_idx s \<longrightarrow> jd_srvcfg_idx s < 256 \<longrightarrow> k = None)"
proof (cases "jd_srvcfg_idx s = 0xff")
  case True
  then show ?thesis using assms by (simp add: jd_srvcfg_key_def mk_key_def)
next
  case False
  have "length (keybuf (srv_dcfg s)) = DCFG_KEYSIZE + 1" using assms by (simp add: srvcfg_ok_def dcfg_wf_def)
  then obtain b k where b: "dcfg_idx_key (Some []) (jd_srvcfg_idx s) (Some key) (srv_dcfg s) =
      Some ((srv_dcfg s)\<lparr>keybuf := b\<rparr>, k)" "length b = DCFG_KEYSIZE + 1"
    "jd_srvcfg_idx s \<noteq> 0xffff \<Longrightarrow> 100 < jd_srvcfg_idx s \<Longrightarrow> k = None"
    using dcfg_idx_key_total [of "srv_dcfg s" "Some []" "jd_srvcfg_idx s" "Some key"] by metis
  moreover have "srvcfg_ok e (s\<lparr>srv_dcfg := (srv_dcfg s)\<lparr>keybuf := b\<rparr>\<rparr>)"
    using assms b(2) by (simp add: srvcfg_ok_def dcfg_wf_def)
  ultimately show ?thesis using False by (auto simp: jd_srvcfg_key_def mk_key_def)
qed

lemma dcfg_get_string_null: "dcfg_inited s \<Longrightarrow> dcfg_get_string base irq None s = Some (s, None)"
  by (simp add: dcfg_get_string_def dcfg_init_done find_in_configs_def get_entry_def entry_kind_def
      dcfg_entry_type_def dcfg_types)

lemma init_service_ok:
  assumes "srvcfg_ok e s" "cfgfn_ok e" "rd8 (snd (fst r)) (fst (snd r) + snd (snd r)) = Some 0"
  shows "\<exists>t. init_service e r s = Some t \<and> srvcfg_ok e t \<and> jd_srvcfg_idx t = jd_srvcfg_idx s"
proof -
  obtain a m v sz where r: "r = ((a, m), v, sz)" by (metis surj_pair)
  then obtain srv where srv: "cstr m v = Some srv" using cstr_before_zero assms(3) by fastforce
  then have "0 \<notin> set srv" by (rule cstr_Some)
  define k where "k = length (takeWhile (\<lambda>c. c \<noteq> 0x3a) srv)"
  have "k \<le> length srv" unfolding k_def by (rule length_takeWhile_le)
  obtain i where i: "find_service jd_srvcfg_entries 0 srv k = Some i"
    using find_service_total [OF \<open>0 \<notin> set srv\<close> \<open>k \<le> length srv\<close> entries_nul_free] by blast
  show ?thesis
  proof (cases i)
    case None
    then show ?thesis using assms(1) i srv r by (simp add: init_service_def string_at_def k_def)
  next
    case (Some j)
    define u where "u = s\<lparr>jd_srvcfg_idx_map := (jd_srvcfg_idx_map s)[services_curr_idx e (srv_world s) := jd_srvcfg_idx s]\<rparr>"
    have "srvcfg_ok e u" using assms(1) by (simp add: u_def srvcfg_ok_def)
    then obtain t where "cfgfn e j u = Some t" "srvcfg_ok e t" "jd_srvcfg_idx t = jd_srvcfg_idx u"
      using assms(2) by (auto simp: cfgfn_ok_def)
    moreover have "init_service e r s = cfgfn e j u"
      using Some i srv r assms(1) by (simp add: init_service_def string_at_def k_def u_def srvcfg_ok_def)
    ultimately show ?thesis by (simp add: u_def)
  qed
qed

lemma srvcfg_loop_ok:
  assumes "srvcfg_ok e s" "cfgfn_ok e" "jd_srvcfg_idx s \<le> 101" "101 - jd_srvcfg_idx s < n"
  shows "\<exists>t. srvcfg_loop n e s = Some t \<and> srvcfg_ok e t"
  using assms(1,3,4)
proof (induction n arbitrary: s)
  case 0
  then show ?case by simp
next
  case (Suc n)
  obtain t k where t: "jd_srvcfg_key (ascii ''service'') s = Some (t, k)" "srvcfg_ok e t"
    "jd_srvcfg_idx t = jd_srvcfg_idx s" "100 < jd_srvcfg_idx s \<Longrightarrow> k = None"
    using jd_srvcfg_key_ok [OF Suc.prems(1)] Suc.prems(2) by fastforce
  have wf: "dcfg_wf (srv_dcfg t)" "dcfg_inited (srv_dcfg t)" using t(2) by (auto simp: srvcfg_ok_def)
  obtain r where r: "dcfg_get_string (cfg_base e) (cfg_irq e) k (srv_dcfg t) = Some (srv_dcfg t, r)"
    "\<And>a m v sz. r = Some ((a, m), v, sz) \<Longrightarrow> rd8 m (v + sz) = Some 0"
    using dcfg_get_string_found [OF wf, of "cfg_base e" "cfg_irq e" k] by metis
  have upd: "t\<lparr>srv_dcfg := srv_dcfg t\<rparr> = t" by simp
  show ?case
  proof (cases r)
    case None
    have "\<exists>u. srvcfg_loop n e (t\<lparr>jd_srvcfg_idx := 0x40\<rparr>) = Some u \<and> srvcfg_ok e u" if "jd_srvcfg_idx t < 0x40"
      using that t(2,3) Suc.prems by (intro Suc.IH) (auto simp: srvcfg_ok_def)
    then show ?thesis using t(1,2) r(1) None by (auto simp: upd)
  next
    case (Some x)
    then have "k \<noteq> None" using r(1) dcfg_get_string_null [OF wf(2), of "cfg_base e"] by (cases k) auto
    with t(4) have le: "jd_srvcfg_idx s \<le> 100" by (metis not_le)
    have "rd8 (snd (fst x)) (fst (snd x) + snd (snd x)) = Some 0"
      using r(2) Some by (metis prod.collapse)
    then obtain u where u: "init_service e x t = Some u" "srvcfg_ok e u" "jd_srvcfg_idx u = jd_srvcfg_idx t"
      using init_service_ok [OF t(2) assms(2)] by blast
    have "\<exists>w. srvcfg_loop n e (u\<lparr>jd_srvcfg_idx := u8 (jd_srvcfg_idx u + 1)\<rparr>) = Some w \<and> srvcfg_ok e w"
      using u t(3) le Suc.prems by (intro Suc.IH) (auto simp: srvcfg_ok_def)
    then show ?thesis using t(1) r(1) Some u(1) by (auto simp: upd)
  qed
qed

section \<open>Properties\<close>


definition sample_srvcfg_env :: "nat srvcfg_env" where
  "sample_srvcfg_env = \<lparr>cfg_base = (0, []), cfg_irq = False, cfgfn = \<lambda>i s. Some s, services_curr_idx = \<lambda>w. w\<rparr>"

definition sample_srvcfg :: "nat srvcfg" where
  "sample_srvcfg = \<lparr>srv_dcfg = dcfg_state0\<lparr>dcfg_inited := True, user_config := Some (0, example_config)\<rparr>,
     jd_srvcfg_idx = 0, jd_srvcfg_idx_map = replicate 32 0, srv_world = 1\<rparr>"


end
