(* ===== verification/Jd_Services.thy ===== *)
theory Jd_Services
  imports Jd_Pipe Jd_Register Jd_Srvcfg
begin

text \<open>
  The service core, source/jd\_services.c: the table of services, announcements, the dispatch of packets to
  services, the main loop and the millisecond clock.  The state extends the transport and the pipes by the
  variables of this file, the event queue and the service configuration.

  The table holds the service class of each service; \<open>handle_pkt\<close> and \<open>process\<close> of the service at an index are
  calls through its vtable and are parameters, as are the hooks of the application, the client side of the
  library, the handlers of the input pipes and the USB processing (\<open>jd_usb_proto_process\<close>, which works on its own
  extension of the transport).  The codes of the control service and of the announce flags come from
  jacdac/dist/c, which is not part of the repository.  \<open>JD_DCFG\<close> is 1; \<open>JD_CONFIG_STATUS\<close>, \<open>JD_LSTORE\<close> and
  \<open>JD_WIFI\<close> are 0.
\<close>

definition IN_SERV_INIT :: nat where "IN_SERV_INIT = 0xff"
definition IN_SERV_SLEEP :: nat where "IN_SERV_SLEEP = 0xfe"
definition JD_FRAME_FLAG_IDENTIFIER_IS_SERVICE_CLASS :: byte where
  "JD_FRAME_FLAG_IDENTIFIER_IS_SERVICE_CLASS = 0x04"

record svcs = pipes +
  services :: "32 word list"
  reset_counter :: nat
  curr_service_process :: nat
  lastMax :: "32 word"
  nextAnnounce :: "32 word"
  prev_us :: "32 word"
  now_ms_long :: "64 word"
  now_ms :: "32 word"
  jd_max_sleep :: "32 word"
  ev_state :: event_info
  srv_cfg :: "unit srvcfg"

record ctl_consts =
  CONTROL_CMD_SERVICES :: nat
  ANNOUNCE_RESTART_COUNTER_STEADY :: nat
  ANNOUNCE_IS_CLIENT :: "16 word"
  ANNOUNCE_SUPPORTS_ACK :: "16 word"
  ANNOUNCE_SUPPORTS_BROADCAST :: "16 word"
  ANNOUNCE_SUPPORTS_FRAMES :: "16 word"
  REG_INSTANCE_NAME :: nat

record 's svc_env =
  env_sys :: sys_consts
  env_ctl :: ctl_consts
  env_cfg :: "unit srvcfg_env"
  srv_handle_pkt :: "nat \<Rightarrow> jd_frame \<Rightarrow> 's \<Rightarrow> 's option"
  srv_process :: "nat \<Rightarrow> 's \<Rightarrow> 's option"
  app_handle_packet :: "jd_frame \<Rightarrow> 's \<Rightarrow> 's option"
  app_handle_command :: "jd_frame \<Rightarrow> 's \<Rightarrow> 's option"
  app_process :: "'s \<Rightarrow> 's option"
  app_get_instance_name :: "nat \<Rightarrow> mem option"
  client_handle_packet :: "jd_frame \<Rightarrow> 's \<Rightarrow> 's option"
  client_process :: "'s \<Rightarrow> 's option"
  ipipe_call :: "nat \<Rightarrow> nat \<Rightarrow> jd_frame option \<Rightarrow> 's \<Rightarrow> 's option"
  usb_process :: "'s \<Rightarrow> 's option"
  wait_us :: "32 word \<Rightarrow> 's \<Rightarrow> 's option"

section \<open>The table of services\<close>

definition jd_allocate_service :: "32 word \<Rightarrow> 'a svcs_scheme \<Rightarrow> ('a svcs_scheme \<times> nat) option" where
  "jd_allocate_service service_class s =
     (if length (services s) \<ge> JD_MAX_SERVICES then None
      else Some (s\<lparr>curr_service_process := IN_SERV_INIT, services := services s @ [service_class]\<rparr>, length (services s)))"

definition jd_services_curr_idx :: "'a svcs_scheme \<Rightarrow> nat" where
  "jd_services_curr_idx s = length (services s)"

definition jd_srvcfg_last_service :: "'a svcs_scheme \<Rightarrow> nat option" where
  "jd_srvcfg_last_service s = (if services s = [] then None else Some (length (services s) - 1))"

section \<open>The clock\<close>

text \<open>The \<open>while (new_delta > 1000)\<close> loop.\<close>

function ms_loop :: "32 word \<Rightarrow> 64 word \<Rightarrow> 32 word \<times> 64 word" where
  "ms_loop new_delta ms = (if new_delta > 1000 then ms_loop (new_delta - 1000) (ms + 1) else (new_delta, ms))"
  by pat_completeness auto
termination
  by (relation "measure (\<lambda>(d, ms). unat d)") (auto simp: word_less_nat_alt unat_sub word_le_nat_alt)

declare ms_loop.simps [simp del]

definition jd_refresh_now :: "'a svcs_scheme \<Rightarrow> 'a svcs_scheme" where
  "jd_refresh_now s =
     (let now = ucast (micros s);
          new_delta = now - prev_us s;
          (new_delta, ms) = (if new_delta < 16 * 1024 then ms_loop new_delta (now_ms_long s)
            else (new_delta mod 1000, now_ms_long s + ucast (new_delta div 1000)))
      in s\<lparr>now_us := now, prev_us := now - new_delta, now_ms_long := ms, now_ms := ucast ms\<rparr>)"

section \<open>Start and stop\<close>

text \<open>\<open>init_app\<close> is \<open>app_init_services\<close>, \<open>ctrl_class\<close> the class of the control service, \<open>cfg\<close> the environment
  of the service configuration; the service configuration runs with the rest of the device as its world.\<close>

definition run_srvcfg :: "'a svcs_scheme srvcfg_env \<Rightarrow> 'a svcs_scheme \<Rightarrow> 'a svcs_scheme option" where
  "run_srvcfg cfg s = do {
     t \<leftarrow> jd_srvcfg_run cfg \<lparr>srv_dcfg = srv_dcfg (srv_cfg s), jd_srvcfg_idx = jd_srvcfg_idx (srv_cfg s),
            jd_srvcfg_idx_map = jd_srvcfg_idx_map (srv_cfg s), srv_world = s\<rparr>;
     Some ((srv_world t)\<lparr>srv_cfg := \<lparr>srv_dcfg = srv_dcfg t, jd_srvcfg_idx = jd_srvcfg_idx t,
            jd_srvcfg_idx_map = jd_srvcfg_idx_map t, srv_world = ()\<rparr>\<rparr>) }"

definition jd_services_init ::
  "32 word \<Rightarrow> ('a svcs_scheme \<Rightarrow> 'a svcs_scheme option) \<Rightarrow> 'a svcs_scheme srvcfg_env \<Rightarrow> 'a svcs_scheme \<Rightarrow>
   'a svcs_scheme option" where
  "jd_services_init ctrl_class init_app cfg s = do {
     let s = jd_refresh_now (s\<lparr>services := []\<rparr>);
     (s, _) \<leftarrow> jd_allocate_service ctrl_class s;
     s \<leftarrow> init_app s;
     s \<leftarrow> run_srvcfg cfg s;
     Some (s\<lparr>curr_service_process := 0, lastMax := ucast (micros s)\<rparr>) }"

definition jd_services_deinit :: "'a svcs_scheme \<Rightarrow> 'a svcs_scheme" where
  "jd_services_deinit s = s\<lparr>services := []\<rparr>"

section \<open>Start of the device (jd\_protocol.c) and the idle time (jd\_io.c)\<close>

text \<open>\<open>ram\<close> is the random content of the heap area from which \<open>jd_alloc_init\<close> seeds the generator; the queues
  have not been allocated before.\<close>

definition jd_init ::
  "mem \<Rightarrow> nat \<Rightarrow> nat \<Rightarrow> 32 word \<Rightarrow> ('a svcs_scheme \<Rightarrow> 'a svcs_scheme option) \<Rightarrow> 'a svcs_scheme srvcfg_env \<Rightarrow>
   'a svcs_scheme \<Rightarrow> 'a svcs_scheme option" where
  "jd_init ram tx_size rx_size ctrl_class init_app cfg s = do {
     let s = s\<lparr>rnd_seed := jd_seed_random (rnd_seed s) (jd_hash_fnv1a ram)\<rparr>;
     let s = s\<lparr>send_queue := jd_tx_init tx_size None\<rparr>;
     let s = s\<lparr>rx_queue := jd_rx_init rx_size None\<rparr>;
     s \<leftarrow> jd_services_init ctrl_class init_app cfg s;
     Some (jd_phys_start s) }"

definition jd_set_max_sleep :: "32 word \<Rightarrow> 'a svcs_scheme \<Rightarrow> 'a svcs_scheme" where
  "jd_set_max_sleep us s = (if jd_max_sleep s > us then s\<lparr>jd_max_sleep := us\<rparr> else s)"

section \<open>Announcements\<close>

definition announce_flags :: "ctl_consts \<Rightarrow> nat \<Rightarrow> 16 word" where
  "announce_flags c counter = of_nat counter OR ANNOUNCE_IS_CLIENT c OR ANNOUNCE_SUPPORTS_ACK c OR
     ANNOUNCE_SUPPORTS_BROADCAST c OR ANNOUNCE_SUPPORTS_FRAMES c"

definition jd_services_announce :: "'a svcs_scheme svc_env \<Rightarrow> 'a svcs_scheme \<Rightarrow> 'a svcs_scheme option" where
  "jd_services_announce e s = do {
     let s = (if reset_counter s < ANNOUNCE_RESTART_COUNTER_STEADY (env_ctl e)
              then s\<lparr>reset_counter := u8 (reset_counter s + 1)\<rparr> else s);
     jd_assert (services s \<noteq> []);
     let dst = (services s)[0 := ucast (announce_flags (env_ctl e) (reset_counter s)) OR
                  push_bit 16 (ucast (packets_sent s) + 1)];
     (s, r) \<leftarrow> jd_send JD_SERVICE_INDEX_CONTROL (CONTROL_CMD_SERVICES (env_ctl e)) (concat (map (le_bytes 4) dst)) s;
     Some (if r = 0 then s\<lparr>packets_sent := 0\<rparr> else s) }"

definition is_client_announce :: "ctl_consts \<Rightarrow> jd_frame \<Rightarrow> bool" where
  "is_client_announce c pkt \<longleftrightarrow> pkt_service_index pkt = 0 \<and> pkt_service_command pkt = CONTROL_CMD_SERVICES c \<and>
     pkt_service_size pkt \<ge> 4 \<and> frm_data pkt ! 5 AND ucast (drop_bit 8 (ANNOUNCE_IS_CLIENT c)) \<noteq> 0"

definition handle_ctrl_tick :: "ctl_consts \<Rightarrow> jd_frame \<Rightarrow> 'a svcs_scheme \<Rightarrow> 'a svcs_scheme" where
  "handle_ctrl_tick c pkt s = (if is_client_announce c pkt then s\<lparr>lastMax := now_us s\<rparr> else s)"

section \<open>Dispatch\<close>

definition set_pkt_index :: "nat \<Rightarrow> jd_frame \<Rightarrow> jd_frame" where
  "set_pkt_index i pkt = pkt\<lparr>frm_data := (frm_data pkt)[1 := of_nat i]\<rparr>"

text \<open>The loop over the services of the addressed class, from index \<open>i\<close>.  There are at most
  \<open>JD_MAX_SERVICES\<close> services, so as many rounds are enough.\<close>

fun class_loop :: "nat \<Rightarrow> 'a svcs_scheme svc_env \<Rightarrow> nat \<Rightarrow> jd_frame \<Rightarrow> 'a svcs_scheme \<Rightarrow> (jd_frame \<times> 'a svcs_scheme) option" where
  "class_loop 0 e i pkt s = Some (pkt, s)"
| "class_loop (Suc n) e i pkt s =
     (if i < length (services s) then
        (if services s ! i = ucast (frm_device_identifier pkt) then do {
           let pkt = set_pkt_index i pkt;
           s \<leftarrow> srv_handle_pkt e i pkt s;
           class_loop n e (i + 1) pkt s }
         else class_loop n e (i + 1) pkt s)
      else Some (pkt, s))"

text \<open>A command to this device: name and variant are answered from the configuration.\<close>

definition instance_name_reply :: "'a svcs_scheme svc_env \<Rightarrow> jd_frame \<Rightarrow> 'a svcs_scheme \<Rightarrow> 'a svcs_scheme option" where
  "instance_name_reply e pkt s = do {
     (s, name) \<leftarrow> (case app_get_instance_name e (pkt_service_index pkt) of
          Some n \<Rightarrow> Some (s, Some n)
        | None \<Rightarrow> do {
            (c, r) \<leftarrow> jd_srvcfg_instance_name (env_cfg e) (pkt_service_index pkt) (srv_cfg s);
            let s = s\<lparr>srv_cfg := c\<rparr>;
            case r of None \<Rightarrow> Some (s, None)
            | Some r \<Rightarrow> do { t \<leftarrow> string_at r; Some (s, Some t) } });
     case name of
       None \<Rightarrow> map_option fst (jd_send_not_implemented (env_sys e) pkt s)
     | Some n \<Rightarrow> map_option fst (jd_respond_string pkt (Some n) s) }"

definition service_command :: "'a svcs_scheme svc_env \<Rightarrow> jd_frame \<Rightarrow> 'a svcs_scheme \<Rightarrow> 'a svcs_scheme option" where
  "service_command e pkt s =
     (if \<not> pkt_service_index pkt < length (services s) then Some s
      else if pkt_service_command pkt = JD_GET (env_sys e) (REG_INSTANCE_NAME (env_ctl e)) then
        instance_name_reply e pkt s
      else do {
        (s, v) \<leftarrow> (if pkt_service_command pkt = JD_GET (env_sys e) (REG_VARIANT (env_sys e)) then do {
             (c, v) \<leftarrow> jd_srvcfg_variant (env_cfg e) (pkt_service_index pkt) (srv_cfg s);
             Some (s\<lparr>srv_cfg := c\<rparr>, v) }
           else Some (s, -1));
        if v \<noteq> -1 then map_option fst (jd_respond_u8 pkt (of_int v) s)
        else srv_handle_pkt e (pkt_service_index pkt) pkt s })"

definition packet_hooks :: "'a svcs_scheme svc_env \<Rightarrow> jd_frame \<Rightarrow> 'a svcs_scheme \<Rightarrow> 'a svcs_scheme option" where
  "packet_hooks e pkt s = do {
     s \<leftarrow> app_handle_packet e pkt s;
     s \<leftarrow> jd_opipe_handle_packet pkt s;
     s \<leftarrow> jd_ipipe_handle_packet (ipipe_call e) pkt s;
     client_handle_packet e pkt s }"

definition jd_services_handle_packet ::
  "'a svcs_scheme svc_env \<Rightarrow> jd_frame \<Rightarrow> 'a svcs_scheme \<Rightarrow> (jd_frame \<times> 'a svcs_scheme) option" where
  "jd_services_handle_packet e pkt s = do {
     s \<leftarrow> packet_hooks e pkt s;
     if \<not> flag_set pkt JD_FRAME_FLAG_COMMAND then Some (pkt, handle_ctrl_tick (env_ctl e) pkt s)
     else if frm_device_identifier pkt = device_id s then do {
       s \<leftarrow> app_handle_command e pkt s;
       s \<leftarrow> service_command e pkt s;
       Some (pkt, s) }
     else if flag_set pkt JD_FRAME_FLAG_IDENTIFIER_IS_SERVICE_CLASS then class_loop JD_MAX_SERVICES e 0 pkt s
     else Some (pkt, s) }"

text \<open>The packet loop.  A frame has room for at most 60 packets.\<close>

fun packet_loop :: "nat \<Rightarrow> 'a svcs_scheme svc_env \<Rightarrow> jd_frame \<Rightarrow> 'a svcs_scheme \<Rightarrow> (jd_frame \<times> 'a svcs_scheme) option" where
  "packet_loop 0 e frame s = None"
| "packet_loop (Suc n) e frame s = do {
     (frame, s) \<leftarrow> jd_services_handle_packet e frame s;
     (again, frame) \<leftarrow> jd_shift_frame frame;
     if again then packet_loop n e frame s else Some (frame, s) }"

definition acknowledge :: "jd_frame \<Rightarrow> 'a svcs_scheme \<Rightarrow> 'a svcs_scheme option" where
  "acknowledge frame s =
     (if flag_set frame JD_FRAME_FLAG_ACK_REQUESTED \<and> flag_set frame JD_FRAME_FLAG_COMMAND \<and>
         frm_device_identifier frame = device_id s
      then do {
        (s, _) \<leftarrow> jd_send JD_SERVICE_INDEX_CRC_ACK (unat (frm_crc frame)) [] s;
        jd_tx_flush s }
      else Some s)"

definition jd_services_process_frame ::
  "'a svcs_scheme svc_env \<Rightarrow> jd_frame \<Rightarrow> 'a svcs_scheme \<Rightarrow> (jd_frame \<times> 'a svcs_scheme) option" where
  "jd_services_process_frame e frame s = do {
     s \<leftarrow> acknowledge frame s;
     packet_loop 60 e frame s }"

section \<open>The main loop\<close>

fun process_services :: "nat \<Rightarrow> 'a svcs_scheme svc_env \<Rightarrow> nat \<Rightarrow> 'a svcs_scheme \<Rightarrow> 'a svcs_scheme option" where
  "process_services 0 e i s = Some s"
| "process_services (Suc n) e i s =
     (if i < length (services s) then do {
        s \<leftarrow> srv_process e i (s\<lparr>curr_service_process := i\<rparr>);
        process_services n e (i + 1) s }
      else Some s)"

definition jd_services_tick :: "'a svcs_scheme svc_env \<Rightarrow> 'a svcs_scheme \<Rightarrow> 'a svcs_scheme option" where
  "jd_services_tick e s = do {
     let (due, t) = jd_should_sample (now_us s) (nextAnnounce s) 500000;
     let s = s\<lparr>nextAnnounce := t\<rparr>;
     s \<leftarrow> (if due then jd_services_announce e s else Some s);
     let s = (if lastMax s = 0 \<or> in_past (now_us s) (lastMax s + 2097152) then s\<lparr>lastMax := 0\<rparr> else s);
     jd_assert (services s \<noteq> []);
     s \<leftarrow> srv_process e 0 s;
     s \<leftarrow> (if curr_service_process s \<noteq> IN_SERV_SLEEP then do {
            s \<leftarrow> process_services JD_MAX_SERVICES e 1 s;
            Some (s\<lparr>curr_service_process := 0\<rparr>) }
          else Some s);
     (ev, s) \<leftarrow> jd_process_event_queue (ev_state s) s;
     s \<leftarrow> jd_opipe_process (s\<lparr>ev_state := ev\<rparr>);
     s \<leftarrow> client_process e s;
     s \<leftarrow> usb_process e s;
     jd_tx_flush s }"

text \<open>The frame at offset \<open>p\<close> of the receive queue, handled in place.\<close>

definition process_at :: "'a svcs_scheme svc_env \<Rightarrow> nat \<Rightarrow> 'a svcs_scheme \<Rightarrow> 'a svcs_scheme option" where
  "process_at e p s = do {
     jd_assert (p + 12 < length (q_data (rx_queue s)));
     (f, s) \<leftarrow> jd_services_process_frame e (frame_of_bytes (drop p (q_data (rx_queue s)))) s;
     d \<leftarrow> wr_mem (q_data (rx_queue s)) p (take (12 + unat (frm_size f)) (frame_bytes f));
     Some (s\<lparr>rx_queue := (rx_queue s)\<lparr>q_data := d\<rparr>\<rparr>) }"

partial_function (option) jd_process_everything_core ::
  "'a svcs_scheme svc_env \<Rightarrow> 'a svcs_scheme \<Rightarrow> 'a svcs_scheme option" where
  "jd_process_everything_core e s =
     (case jd_rx_get_frame s of
        None \<Rightarrow> do { s \<leftarrow> jd_services_tick e s; app_process e s }
      | Some p \<Rightarrow> do {
          s \<leftarrow> process_at e p s;
          s \<leftarrow> jd_rx_release_frame s;
          s \<leftarrow> jd_services_tick e s;
          s \<leftarrow> app_process e s;
          jd_process_everything_core e s })"

definition jd_process_everything :: "'a svcs_scheme svc_env \<Rightarrow> 'a svcs_scheme \<Rightarrow> 'a svcs_scheme option" where
  "jd_process_everything e s = jd_process_everything_core e (jd_refresh_now (s\<lparr>jd_max_sleep := JD_MIN_MAX_SLEEP\<rparr>))"

text \<open>Sleeping inside a service's \<open>process\<close>: the main loop runs on until the time has come.\<close>

partial_function (option) sleep_loop :: "'a svcs_scheme svc_env \<Rightarrow> 32 word \<Rightarrow> 'a svcs_scheme \<Rightarrow> 'a svcs_scheme option" where
  "sleep_loop e end_time s =
     (if in_future (now_us s) end_time then do {
        s \<leftarrow> jd_process_everything_core e s;
        sleep_loop e end_time (jd_refresh_now s) }
      else Some s)"

definition jd_services_sleep_us :: "'a svcs_scheme svc_env \<Rightarrow> 32 word \<Rightarrow> 'a svcs_scheme \<Rightarrow> 'a svcs_scheme option" where
  "jd_services_sleep_us e delta s =
     (if delta \<le> 1 then Some s
      else (let curr_serv = curr_service_process s in
        if delta < 50 \<or> curr_serv = IN_SERV_INIT then wait_us e delta s
        else if curr_serv = 0 \<or> curr_serv = IN_SERV_SLEEP then None
        else do {
          let s = jd_refresh_now (s\<lparr>curr_service_process := IN_SERV_SLEEP\<rparr>);
          s \<leftarrow> sleep_loop e (now_us s + delta) s;
          Some (s\<lparr>curr_service_process := curr_serv\<rparr>) }))"

section \<open>The millisecond clock does not drift\<close>

lemma ms_loop_ok:
  "ms_loop d ms = (r, ms') \<Longrightarrow> unat r \<le> 1000 \<and> (\<exists>k. ms' = ms + of_nat k \<and> unat d = 1000 * k + unat r)"
proof (induction d ms rule: ms_loop.induct)
  case (1 d ms)
  show ?case
  proof (cases "d > 1000")
    case True
    then have u: "unat (d - 1000) = unat d - 1000" "1000 < unat d"
      by (auto simp: word_less_nat_alt unat_sub word_le_nat_alt)
    have "ms_loop (d - 1000) (ms + 1) = (r, ms')" using 1(2) True by (simp add: ms_loop.simps [of d ms])
    from 1(1) [OF True this] obtain k where k: "unat r \<le> 1000" "ms' = ms + 1 + of_nat k" "unat (d - 1000) = 1000 * k + unat r"
      by blast
    then have "ms' = ms + of_nat (Suc k)" "unat d = 1000 * Suc k + unat r" using u by simp_all
    with k(1) show ?thesis by blast
  next
    case False
    then have "d = r" "ms = ms'" using 1(2) by (simp_all add: ms_loop.simps [of d ms])
    with False show ?thesis by (auto simp: word_less_nat_alt intro!: exI [of _ 0])
  qed
qed

lemma div_mod_ok:
  fixes d :: "32 word"
  shows "unat (d mod 1000) \<le> 1000 \<and> (\<exists>k. ms + ucast (d div 1000) = (ms :: 64 word) + of_nat k \<and> unat d = 1000 * k + unat (d mod 1000))"
proof (intro conjI exI)
  show "unat (d mod 1000) \<le> 1000" by (simp add: unat_mod_distrib less_imp_le)
  show "ms + ucast (d div 1000) = ms + of_nat (unat d div 1000)"
    by (simp only: of_nat_unat [of "d div 1000", symmetric] unat_div_distrib) simp
  show "unat d = 1000 * (unat d div 1000) + unat (d mod 1000)" by (simp add: unat_mod_distrib)
qed

definition clock_lag :: "'a svcs_scheme \<Rightarrow> nat" where
  "clock_lag s = unat (ucast (micros s) - prev_us s)"

lemma refresh_step:
  "clock_lag (jd_refresh_now s) \<le> 1000 \<and> micros (jd_refresh_now s) = micros s \<and>
   now_us (jd_refresh_now s) = ucast (micros s) \<and>
   now_ms (jd_refresh_now s) = ucast (now_ms_long (jd_refresh_now s)) \<and>
   (\<exists>k. now_ms_long (jd_refresh_now s) = now_ms_long s + of_nat k \<and> clock_lag s = 1000 * k + clock_lag (jd_refresh_now s))"
proof -
  define d where "d = ucast (micros s) - prev_us s"
  obtain r ms where rm: "(if d < 16 * 1024 then ms_loop d (now_ms_long s)
      else (d mod 1000, now_ms_long s + ucast (d div 1000))) = (r, ms)" by (metis surj_pair)
  have "unat r \<le> 1000 \<and> (\<exists>k. ms = now_ms_long s + of_nat k \<and> unat d = 1000 * k + unat r)"
    using rm ms_loop_ok [of d "now_ms_long s" r ms] div_mod_ok [of d "now_ms_long s"]
    by (cases "d < 16 * 1024") auto
  moreover have "jd_refresh_now s =
      s\<lparr>now_us := ucast (micros s), prev_us := ucast (micros s) - r, now_ms_long := ms, now_ms := ucast ms\<rparr>"
    using rm unfolding jd_refresh_now_def Let_def d_def [symmetric] by (simp only: prod.case)
  ultimately show ?thesis by (simp add: clock_lag_def d_def)
qed

text \<open>Refreshing the clock after each of a list of delays.\<close>

fun refreshes :: "nat list \<Rightarrow> 'a svcs_scheme \<Rightarrow> 'a svcs_scheme" where
  "refreshes [] s = s"
| "refreshes (d # ds) s = refreshes ds (jd_refresh_now (s\<lparr>micros := micros s + of_nat d\<rparr>))"

lemma clock_lag_advance:
  assumes "clock_lag s + d < 4294967296"
  shows "clock_lag (s\<lparr>micros := micros s + of_nat d\<rparr>) = clock_lag s + d"
proof -
  have m: "micros s + of_nat d = word_of_int (uint (micros s) + int d)" by simp
  have "(ucast (micros s + of_nat d) :: 32 word) = word_of_int (uint (micros s) + int d)"
    unfolding m by (rule ucast_down_wi) (simp add: is_down)
  also have "\<dots> = ucast (micros s) + of_nat d" by simp
  finally have "clock_lag (s\<lparr>micros := micros s + of_nat d\<rparr>) = unat ((ucast (micros s) - prev_us s) + of_nat d)"
    by (simp add: clock_lag_def algebra_simps)
  also have "\<dots> = (clock_lag s + d) mod 4294967296"
    by (simp only: unat_word_ariths(1) unat_of_nat_32 clock_lag_def) (simp add: mod_add_right_eq)
  finally show ?thesis using assms by simp
qed

lemma refreshes_ok:
  assumes "list_all (\<lambda>d. d < 4294966296) ds" "clock_lag s \<le> 1000"
  shows "\<exists>k. now_ms_long (refreshes ds s) = now_ms_long s + of_nat k \<and> clock_lag (refreshes ds s) \<le> 1000 \<and>
    clock_lag s + sum_list ds = 1000 * k + clock_lag (refreshes ds s)"
  using assms
proof (induction ds arbitrary: s)
  case Nil
  then show ?case by (intro exI [of _ 0]) simp
next
  case (Cons d ds)
  define t where "t = s\<lparr>micros := micros s + of_nat d\<rparr>"
  have lag: "clock_lag t = clock_lag s + d" "now_ms_long t = now_ms_long s"
    using Cons.prems clock_lag_advance [of s d] by (simp_all add: t_def)
  obtain k where k: "clock_lag (jd_refresh_now t) \<le> 1000" "now_ms_long (jd_refresh_now t) = now_ms_long t + of_nat k"
    "clock_lag t = 1000 * k + clock_lag (jd_refresh_now t)"
    using refresh_step [of t] by blast
  obtain j where "now_ms_long (refreshes ds (jd_refresh_now t)) = now_ms_long (jd_refresh_now t) + of_nat j"
    "clock_lag (refreshes ds (jd_refresh_now t)) \<le> 1000"
    "clock_lag (jd_refresh_now t) + sum_list ds = 1000 * j + clock_lag (refreshes ds (jd_refresh_now t))"
    using Cons.IH [OF _ k(1)] Cons.prems(1) by auto
  then show ?case using k lag by (intro exI [of _ "k + j"]) (simp add: t_def [symmetric])
qed

section \<open>Delivery of commands\<close>

fun foldM :: "('b \<Rightarrow> 's \<Rightarrow> 's option) \<Rightarrow> 'b list \<Rightarrow> 's \<Rightarrow> 's option" where
  "foldM f [] s = Some s"
| "foldM f (x # xs) s = do { s \<leftarrow> f x s; foldM f xs s }"

definition keeps_services :: "'a svcs_scheme svc_env \<Rightarrow> bool" where
  "keeps_services e \<longleftrightarrow> (\<forall>i p s t. srv_handle_pkt e i p s = Some t \<longrightarrow> services t = services s)"

lemma set_pkt_index_again [simp]: "set_pkt_index i (set_pkt_index j p) = set_pkt_index i p"
  by (simp add: set_pkt_index_def)

lemma set_pkt_index_device [simp]: "frm_device_identifier (set_pkt_index i p) = frm_device_identifier p"
  by (simp add: set_pkt_index_def)

lemma class_loop_fold:
  assumes "keeps_services e" "length (services s) \<le> i + n"
  shows "map_option snd (class_loop n e i pkt s) =
    foldM (\<lambda>j. srv_handle_pkt e j (set_pkt_index j pkt))
      (filter (\<lambda>j. services s ! j = ucast (frm_device_identifier pkt)) [i..<length (services s)]) s"
  using assms(2)
proof (induction n arbitrary: i pkt s)
  case 0
  then show ?case by simp
next
  case (Suc n)
  show ?case
  proof (cases "i < length (services s)")
    case True
    then have upt: "[i..<length (services s)] = i # [i + 1..<length (services s)]" by (simp add: upt_conv_Cons)
    show ?thesis
    proof (cases "services s ! i = ucast (frm_device_identifier pkt)")
      case True
      have "map_option snd (class_loop n e (i + 1) (set_pkt_index i pkt) t) =
          foldM (\<lambda>j. srv_handle_pkt e j (set_pkt_index j pkt))
            (filter (\<lambda>j. services s ! j = ucast (frm_device_identifier pkt)) [i + 1..<length (services s)]) t"
        if t: "srv_handle_pkt e i (set_pkt_index i pkt) s = Some t" for t
      proof -
        have "services t = services s" using assms(1) t by (simp add: keeps_services_def)
        with Suc.IH [of t "i + 1" "set_pkt_index i pkt"] Suc.prems show ?thesis by simp
      qed
      with True \<open>i < _\<close> upt show ?thesis
        by (cases "srv_handle_pkt e i (set_pkt_index i pkt) s") simp_all
    next
      case False
      with Suc.IH [of s "i + 1" pkt] Suc.prems \<open>i < _\<close> upt show ?thesis by simp
    qed
  next
    case False
    then show ?thesis by simp
  qed
qed

section \<open>Packets of a frame\<close>

lemma word_move_index:
  assumes "4 \<le> sp" "4 \<le> n"
  shows "jd_word_move (m[1 := x]) 0 sp n = jd_word_move m 0 sp n"
proof -
  obtain k where k: "n div 4 = Suc k" using assms(2) by (cases "n div 4") auto
  have r: "rd_mem (m[1 := x]) sp 4 = rd_mem m sp 4"
    using assms(1) by (simp add: rd_mem_def drop_update_cancel)
  have w: "wr_mem (m[1 := x]) 0 w = wr_mem m 0 w" if "length w = 4" for w
    using that by (simp add: wr_mem_def patch_def drop_update_cancel)
  have "word_move_loop (m[1 := x]) 0 sp (Suc k) = word_move_loop m 0 sp (Suc k)"
  proof (cases "rd_mem m sp 4")
    case None
    then show ?thesis by (simp only: word_move_loop.simps r) simp
  next
    case (Some u)
    then have "length u = 4" by (auto simp: rd_mem_Some_iff)
    then show ?thesis by (simp only: word_move_loop.simps r Some) (simp only: bind.simps w)
  qed
  then show ?thesis by (simp add: jd_word_move_def k del: word_move_loop.simps)
qed

definition clear_ack :: "jd_frame \<Rightarrow> jd_frame" where
  "clear_ack f = f\<lparr>frm_flags := frm_flags f AND NOT JD_FRAME_FLAG_ACK_REQUESTED\<rparr>"

definition move_packet :: "jd_frame \<Rightarrow> nat \<Rightarrow> nat \<Rightarrow> mem option" where
  "move_packet f ptr newsz = do {
     d \<leftarrow> jd_word_move (frm_data f) 0 ptr (newsz + 3);
     d \<leftarrow> wr8 d newsz 0xff;
     wr8 d (newsz + 1) (of_nat (ptr + align4 newsz)) }"

lemma jd_shift_frame_at:
  assumes "rd8 (frm_data f) 0 = Some sz" "\<not> align4 (unat sz + 4) \<ge> unat (frm_size f)"
    and "rd8 (frm_data f) (unat sz + 4) = Some mark"
    and "(if mark = 0xff then map_option unat (rd8 (frm_data f) (unat sz + 4 + 1)) else Some (align4 (unat sz + 4))) = Some ptr"
  shows "jd_shift_frame f =
    (if mark = 0xff \<and> (ptr \<ge> unat (frm_size f) \<or> ptr \<le> unat sz + 4) then Some (False, f)
     else do {
       src \<leftarrow> rd8 (frm_data f) ptr;
       if ptr + (unat src + 4) > unat (frm_size f) then Some (False, clear_ack f)
       else map_option (\<lambda>d. (True, (clear_ack f)\<lparr>frm_data := d\<rparr>)) (move_packet f ptr (unat src + 4)) })"
  unfolding jd_shift_frame_def Let_def assms(1,3) bind.simps clear_ack_def move_packet_def
  unfolding assms(4) bind.simps using assms(2)
  by (auto simp: bind_map_option comp_def split: bind_splits intro!: arg_cong2 [where f = Option.bind])

lemma jd_shift_frame_index:
  assumes "jd_shift_frame f = Some (again, g)"
  shows "jd_shift_frame (set_pkt_index i f) = Some (again, if again then g else set_pkt_index i g)"
proof -
  have rd: "rd8 (frm_data (set_pkt_index i f)) k = rd8 (frm_data f) k" if "k \<noteq> 1" for k
    using that by (simp add: rd8_def set_pkt_index_def)
  have size: "frm_size (set_pkt_index i f) = frm_size f" by (simp add: set_pkt_index_def)
  obtain sz where sz: "rd8 (frm_data f) 0 = Some sz"
    using assms by (auto simp: jd_shift_frame_def bind_Some_iff Let_def)
  show ?thesis
  proof (cases "align4 (unat sz + 4) \<ge> unat (frm_size f)")
    case True
    then have "\<not> again" "g = f" using assms sz by (auto simp: jd_shift_frame_def)
    then show ?thesis using True sz rd [of 0] size by (simp add: jd_shift_frame_def)
  next
    case False
    then obtain mark ptr where mark: "rd8 (frm_data f) (unat sz + 4) = Some mark"
      and ptr: "(if mark = 0xff then map_option unat (rd8 (frm_data f) (unat sz + 4 + 1)) else Some (align4 (unat sz + 4))) = Some ptr"
      using assms sz by (auto simp: jd_shift_frame_def bind_Some_iff Let_def)
    have ge: "4 \<le> ptr \<or> mark = 0xff \<and> ptr \<le> unat sz + 4"
      using ptr align4_ge [of "unat sz + 4"] by (auto split: if_splits)
    have mv: "move_packet (set_pkt_index i f) ptr (unat src + 4) = move_packet f ptr (unat src + 4)"
      if "4 \<le> ptr" for src :: byte
      using word_move_index [OF that, of "unat src + 4 + 3"] by (simp add: move_packet_def set_pkt_index_def)
    have clr: "clear_ack (set_pkt_index i f) = set_pkt_index i (clear_ack f)"
      "(set_pkt_index i (clear_ack f))\<lparr>frm_data := d\<rparr> = (clear_ack f)\<lparr>frm_data := d\<rparr>" for d
      by (simp_all add: clear_ack_def set_pkt_index_def)
    have p1: "rd8 (frm_data (set_pkt_index i f)) 0 = Some sz" using rd [of 0] sz by simp
    have p2: "\<not> align4 (unat sz + 4) \<ge> unat (frm_size (set_pkt_index i f))" using False size by simp
    have p3: "rd8 (frm_data (set_pkt_index i f)) (unat sz + 4) = Some mark" using rd [of "unat sz + 4"] mark by simp
    have p4: "(if mark = 0xff then map_option unat (rd8 (frm_data (set_pkt_index i f)) (unat sz + 4 + 1))
        else Some (align4 (unat sz + 4))) = Some ptr"
    proof -
      have "unat sz + 4 + 1 \<noteq> 1" by simp
      from rd [OF this] show ?thesis unfolding ptr [symmetric] by (simp only:)
    qed
    note shift = jd_shift_frame_at [OF p1 p2 p3 p4, unfolded size clr]
    show ?thesis
      using assms ge jd_shift_frame_at [OF sz False mark ptr] rd [of ptr] mv unfolding shift
      by (auto simp: bind_Some_iff split: if_splits)
  qed
qed

lemma class_loop_frame:
  "class_loop n e i pkt s = Some (q, t) \<Longrightarrow> q = pkt \<or> (\<exists>j. q = set_pkt_index j pkt)"
proof (induction n arbitrary: i pkt s)
  case 0
  then show ?case by simp
next
  case (Suc n)
  show ?case
  proof (cases "i < length (services s) \<and> services s ! i = ucast (frm_device_identifier pkt)")
    case True
    with Suc.prems obtain u where "class_loop n e (i + 1) (set_pkt_index i pkt) u = Some (q, t)"
      by (auto simp: bind_Some_iff Let_def)
    from Suc.IH [OF this] show ?thesis by auto
  next
    case False
    with Suc.prems Suc.IH [of "i + 1" pkt s] show ?thesis by (auto split: if_splits)
  qed
qed

lemma handle_packet_frame:
  assumes "jd_services_handle_packet e pkt s = Some (q, t)"
  shows "q = pkt \<or> (\<exists>i. q = set_pkt_index i pkt)"
  using assms class_loop_frame
  by (fastforce simp: jd_services_handle_packet_def bind_Some_iff split: if_splits)

lemma packet_loop_fold:
  assumes "frame_loop n f = Some fs"
  shows "map_option snd (packet_loop n e f s) = foldM (\<lambda>p s. map_option snd (jd_services_handle_packet e p s)) fs s"
  using assms
proof (induction n arbitrary: f fs s)
  case 0
  then show ?case by simp
next
  case (Suc n)
  then obtain again g where g: "jd_shift_frame f = Some (again, g)" by (auto simp: bind_Some_iff)
  have fs: "fs = (if again then f # the (frame_loop n g) else [f])" "again \<Longrightarrow> frame_loop n g \<noteq> None"
    using Suc.prems g by (auto simp: bind_Some_iff split: if_splits)
  show ?case
  proof (cases "jd_services_handle_packet e f s")
    case None
    then show ?thesis using fs(1) by (cases again) simp_all
  next
    case (Some qt)
    then obtain q t where qt: "jd_services_handle_packet e f s = Some (q, t)" by (metis surj_pair)
    have "\<exists>h. jd_shift_frame q = Some (again, h) \<and> (again \<longrightarrow> h = g)"
      using handle_packet_frame [OF qt] jd_shift_frame_index [OF g] g by auto
    then obtain h where h: "jd_shift_frame q = Some (again, h)" "again \<Longrightarrow> h = g" by blast
    show ?thesis
    proof (cases again)
      case True
      then obtain gs where "frame_loop n g = Some gs" using fs(2) by auto
      with Suc.IH [of g gs t] True h qt fs(1) show ?thesis by simp
    next
      case False
      with h qt fs(1) show ?thesis by simp
    qed
  qed
qed

section \<open>Properties\<close>

text \<open>C33: Every packet of a frame is handled exactly once and in order.  For a frame whose declared size fits
  its buffer and which has no stale skip mark, \<open>jd_services_process_frame\<close> first acknowledges the frame when asked
  to, and then is the handling of the packets the frame contains, one after the other; in particular it
  returns whenever the handlers do, also when a handler has redirected a packet to another service index.\<close>

theorem process_frame_packets:
  assumes "frame_ok f" "\<not> skip_marked f"
  shows "\<exists>fs. frame_loop 60 f = Some fs \<and>
    map_option snd (jd_services_process_frame e f s) =
      do { s \<leftarrow> acknowledge f s; foldM (\<lambda>p s. map_option snd (jd_services_handle_packet e p s)) fs s }"
proof -
  have skip: "skip_ok f" using assms(2) by (rule not_skip_marked_ok)
  have "4 \<le> next_ptr f" using next_ptr_ge [OF skip] pkt_size_ge [of f] by simp
  then have "unat (frm_size f) \<le> next_ptr f + 4 * 59" using assms(1) by (simp add: frame_ok_def)
  from frame_loop_total [OF assms(1) skip this] obtain fs where fs: "frame_loop 60 f = Some fs" by auto
  then show ?thesis
    using packet_loop_fold [OF fs] by (cases "acknowledge f s") (auto simp: jd_services_process_frame_def)
qed

text \<open>C34: A command addressed to a service class is handed to every service of that class, exactly once each, in
  the order of the table, each time with the service's own index in the packet, and to no other service.\<close>

theorem class_command_delivery:
  assumes "packet_hooks e pkt s = Some s1" "flag_set pkt JD_FRAME_FLAG_COMMAND"
    and "frm_device_identifier pkt \<noteq> device_id s1" "flag_set pkt JD_FRAME_FLAG_IDENTIFIER_IS_SERVICE_CLASS"
    and "keeps_services e" "length (services s1) \<le> JD_MAX_SERVICES"
  shows "map_option snd (jd_services_handle_packet e pkt s) =
    foldM (\<lambda>j. srv_handle_pkt e j (set_pkt_index j pkt))
      (filter (\<lambda>j. services s1 ! j = ucast (frm_device_identifier pkt)) [0..<length (services s1)]) s1"
  using assms class_loop_fold [of e s1 0 JD_MAX_SERVICES pkt] by (simp add: jd_services_handle_packet_def)

text \<open>C35: The millisecond clock does not drift.  However the main loop's refreshes are spaced (with less than
  about 71 minutes between two of them), after any sequence of them the milliseconds counted and the
  microseconds not yet counted add up to the elapsed time, and at most one millisecond is outstanding.\<close>

theorem ms_clock_exact:
  assumes "prev_us s = ucast (micros s)" "list_all (\<lambda>d. d < 4294966296) ds"
  shows "\<exists>k. now_ms_long (refreshes ds s) = now_ms_long s + of_nat k \<and> clock_lag (refreshes ds s) \<le> 1000 \<and>
    sum_list ds = 1000 * k + clock_lag (refreshes ds s)"
  using refreshes_ok [OF assms(2), of s] assms(1) by (simp add: clock_lag_def)

section \<open>Examples\<close>

definition quiet_env :: "svcs svc_env" where
  "quiet_env = \<lparr>env_sys = sample_sys,
     env_ctl = \<lparr>CONTROL_CMD_SERVICES = 0, ANNOUNCE_RESTART_COUNTER_STEADY = 15, ANNOUNCE_IS_CLIENT = 0x800,
       ANNOUNCE_SUPPORTS_ACK = 0x100, ANNOUNCE_SUPPORTS_BROADCAST = 0x200, ANNOUNCE_SUPPORTS_FRAMES = 0x400,
       REG_INSTANCE_NAME = 0x109\<rparr>,
     env_cfg = \<lparr>cfg_base = (0, []), cfg_irq = False, cfgfn = \<lambda>i s. Some s, services_curr_idx = \<lambda>w. 0\<rparr>,
     srv_handle_pkt = \<lambda>i p s. Some (s\<lparr>reset_counter := 10 * reset_counter s + pkt_service_index p\<rparr>),
     srv_process = \<lambda>i s. Some s, app_handle_packet = \<lambda>p s. Some s, app_handle_command = \<lambda>p s. Some s,
     app_process = \<lambda>s. Some s, app_get_instance_name = \<lambda>i. None, client_handle_packet = \<lambda>p s. Some s,
     client_process = \<lambda>s. Some s, ipipe_call = \<lambda>h a p s. Some s, usb_process = \<lambda>s. Some s, wait_us = \<lambda>d s. Some s\<rparr>"

definition quiet_state :: svcs where
  "quiet_state = pipes.extend (sample_pipes\<lparr>opipes := []\<rparr>)
     (svcs.fields [0, 0x42, 0x17, 0x42] 0 0 0 0 0 0 0 0 \<lparr>ev_buffer = None, qptr = 0, ev_counter = 0\<rparr>
       \<lparr>srv_dcfg = dcfg_state0, jd_srvcfg_idx = 0xff, jd_srvcfg_idx_map = replicate 32 0xff, srv_world = ()\<rparr>)"

definition class_command :: jd_frame where
  "class_command = zero_frame\<lparr>frm_size := 4, frm_flags := 5, frm_device_identifier := 0x42\<rparr>"

lemma quiet_hooks: "packet_hooks quiet_env class_command quiet_state = Some quiet_state"
  by (simp add: packet_hooks_def quiet_env_def jd_opipe_handle_packet_def jd_ipipe_handle_packet_def class_command_def
      zero_frame_def JD_SERIAL_PAYLOAD_SIZE_def pkt_service_index_def JD_SERVICE_INDEX_CRC_ACK_def JD_SERVICE_INDEX_STREAM_def)

lemma quiet_fields [simp]:
  "services quiet_state = [0, 0x42, 0x17, 0x42]" "device_id quiet_state = 7" "prev_us quiet_state = 0" "micros quiet_state = 0"
  "reset_counter quiet_state = 0"
  by (simp_all add: quiet_state_def svcs.defs pipes.defs sample_pipes_def bus.defs bus_init_def bus_zero_def jd_phys_start_def
      set_tick_timer_def has_status_def Let_def)

lemma quiet_handle:
  "j < 256 \<Longrightarrow> srv_handle_pkt quiet_env j (set_pkt_index j class_command) s =
     Some (s\<lparr>reset_counter := 10 * reset_counter s + j\<rparr>)"
  by (simp add: quiet_env_def set_pkt_index_def class_command_def zero_frame_def pkt_service_index_def unat_of_nat_byte
      JD_SERIAL_PAYLOAD_SIZE_def)

theorem process_frame_packets_witness:
  "\<exists>fs. frame_loop 60 class_command = Some fs \<and>
    map_option snd (jd_services_process_frame quiet_env class_command quiet_state) =
      do { s \<leftarrow> acknowledge class_command quiet_state;
           foldM (\<lambda>p s. map_option snd (jd_services_handle_packet quiet_env p s)) fs s }"
  by (rule process_frame_packets)
     (simp_all add: class_command_def zero_frame_def frame_ok_def skip_marked_def pkt_size_def pkt_service_size_def
       align4_def JD_SERIAL_PAYLOAD_SIZE_def)

theorem class_command_delivery_witness:
  "map_option snd (jd_services_handle_packet quiet_env class_command quiet_state) =
     Some (quiet_state\<lparr>reset_counter := 13\<rparr>)"
proof -
  have "keeps_services quiet_env" by (simp add: keeps_services_def quiet_env_def)
  moreover have "flag_set class_command JD_FRAME_FLAG_COMMAND"
    "flag_set class_command JD_FRAME_FLAG_IDENTIFIER_IS_SERVICE_CLASS"
    by (simp_all add: flag_set_def class_command_def JD_FRAME_FLAG_COMMAND_def JD_FRAME_FLAG_IDENTIFIER_IS_SERVICE_CLASS_def)
  moreover have "frm_device_identifier class_command \<noteq> device_id quiet_state" by (simp add: class_command_def)
  moreover have "filter (\<lambda>j. services quiet_state ! j = ucast (frm_device_identifier class_command))
      [0..<length (services quiet_state)] = [1, 3]"
    by (simp add: class_command_def upt_rec)
  ultimately show ?thesis
    using class_command_delivery [OF quiet_hooks] by (simp add: JD_MAX_SERVICES_def quiet_handle)
qed

theorem ms_clock_exact_witness:
  "\<exists>k. now_ms_long (refreshes [500, 700, 20000] quiet_state) = now_ms_long quiet_state + of_nat k \<and>
    clock_lag (refreshes [500, 700, 20000] quiet_state) \<le> 1000 \<and>
    sum_list [500, 700, 20000] = 1000 * k + clock_lag (refreshes [500, 700, 20000] quiet_state)"
  by (rule ms_clock_exact) simp_all

end
