(* ===== verification/Jd_Control.thy ===== *)
theory Jd_Control
  imports Jd_Services
begin

text \<open>
  The control service, source/jd\_control.c, which is service 0 of every device, and the hooks of jd\_services.c
  that answer its registers from the device configuration.  \<open>JD_CONFIG_CONTROL_FLOOD\<close> and \<open>JD_CONFIG_WATCHDOG\<close> are 1,
  \<open>JD_CONFIG_STATUS\<close>, \<open>JD_CONFIG_DEV_SPEC_URL\<close> and \<open>JD_CONFIG_TEMPERATURE\<close> are 0.  The command codes, the layout of the
  flood request and the firmware version come from outside of the repository.  \<open>target_reset\<close> and
  \<open>target_standby\<close> end the run of the program: the outcome of a call says so.  \<open>pwr_enter_no_sleep\<close> counts the
  requests to stay awake.
\<close>

record ctrl =
  flood_size :: byte
  watchdog :: "32 word"
  flood_counter :: "32 word"
  flood_remaining :: "32 word"
  no_sleep_count :: nat

record ctrl_codes =
  CMD_IDENTIFY :: nat
  CMD_RESET :: nat
  CMD_STANDBY :: nat
  CMD_FLOOD_PING :: nat
  REG_DEVICE_DESCRIPTION :: nat
  REG_FIRMWARE_VERSION :: nat
  REG_PRODUCT_IDENTIFIER :: nat
  REG_BOOTLOADER_PRODUCT_IDENTIFIER :: nat
  REG_UPTIME :: nat
  REG_RESET_IN :: nat
  flood_ping_size :: nat
  flood_ping_num_responses :: "mem \<Rightarrow> 32 word"
  flood_ping_start_counter :: "mem \<Rightarrow> 32 word"
  flood_ping_payload_size :: "mem \<Rightarrow> byte"
  fw_version :: mem

datatype 's outcome = Continues ctrl 's | Resets | Stands_by "32 word"

section \<open>Answers from the configuration (jd\_services.c)\<close>

definition app_get_dev_class_name :: "'a svcs_scheme svc_env \<Rightarrow> 'a svcs_scheme \<Rightarrow> ('a svcs_scheme \<times> mem) option" where
  "app_get_dev_class_name e s = do {
     (d, r) \<leftarrow> dcfg_get_string (cfg_base (env_cfg e)) (cfg_irq (env_cfg e)) (Some (ascii ''devName'')) (srv_dcfg (srv_cfg s));
     let s = s\<lparr>srv_cfg := (srv_cfg s)\<lparr>srv_dcfg := d\<rparr>\<rparr>;
     case r of None \<Rightarrow> Some (s, ascii ''DCFG missing'')
     | Some r \<Rightarrow> do { t \<leftarrow> string_at r; Some (s, t) } }"

definition app_get_device_class :: "'a svcs_scheme svc_env \<Rightarrow> 'a svcs_scheme \<Rightarrow> ('a svcs_scheme \<times> nat) option" where
  "app_get_device_class e s = do {
     (d, v) \<leftarrow> dcfg_get_u32 (cfg_base (env_cfg e)) (cfg_irq (env_cfg e)) (Some (ascii ''productId'')) 0x3ffffff1 (srv_dcfg (srv_cfg s));
     Some (s\<lparr>srv_cfg := (srv_cfg s)\<lparr>srv_dcfg := d\<rparr>\<rparr>, v) }"

section \<open>Flood of test packets\<close>

definition set_flood :: "32 word \<Rightarrow> ctrl \<Rightarrow> ctrl" where
  "set_flood num c =
     (let c = (if flood_remaining c = 0 \<and> num \<noteq> 0 then c\<lparr>no_sleep_count := no_sleep_count c + 1\<rparr>
               else if flood_remaining c \<noteq> 0 \<and> num = 0 then c\<lparr>no_sleep_count := no_sleep_count c + 1\<rparr>
               else c)
      in c\<lparr>flood_remaining := num\<rparr>)"

definition flood_payload :: "ctrl \<Rightarrow> mem" where
  "flood_payload c = le_bytes 4 (flood_counter c) @ map of_nat [0..<unat (flood_size c)]"

definition process_flood :: "ctrl_codes \<Rightarrow> ctrl \<Rightarrow> 'a svcs_scheme \<Rightarrow> (ctrl \<times> 'a svcs_scheme) option" where
  "process_flood k c s =
     (if flood_remaining c \<noteq> 0 \<and> jd_tx_is_idle s then do {
        let tmp = flood_payload c;
        let c = c\<lparr>flood_counter := flood_counter c + 1\<rparr>;
        let c = set_flood (flood_remaining c - 1) c;
        (s, _) \<leftarrow> jd_send JD_SERVICE_INDEX_CONTROL (CMD_FLOOD_PING k) tmp s;
        Some (c, s) }
      else Some (c, s))"

definition jd_ctrl_process :: "ctrl_codes \<Rightarrow> ctrl \<Rightarrow> 'a svcs_scheme \<Rightarrow> 'a svcs_scheme outcome option" where
  "jd_ctrl_process k c s = do {
     (c, s) \<leftarrow> process_flood k c s;
     Some (if watchdog c \<noteq> 0 \<and> in_past (now_us s) (watchdog c) then Resets else Continues c s) }"

section \<open>Commands\<close>

definition replied :: "ctrl \<Rightarrow> ('s \<times> int) option \<Rightarrow> 's outcome option" where
  "replied c r = map_option (\<lambda>(s, _). Continues c s) r"

definition jd_ctrl_handle_packet ::
  "'a svcs_scheme svc_env \<Rightarrow> ctrl_codes \<Rightarrow> jd_frame \<Rightarrow> ctrl \<Rightarrow> 'a svcs_scheme \<Rightarrow> 'a svcs_scheme outcome option" where
  "jd_ctrl_handle_packet e k pkt c s =
     (let cmd = pkt_service_command pkt; get = JD_GET (env_sys e); data = drop 4 (frm_data pkt) in
      if cmd = CONTROL_CMD_SERVICES (env_ctl e) then map_option (Continues c) (jd_services_announce e s)
      else if cmd = CMD_IDENTIFY k then Some (Continues c s)
      else if cmd = CMD_RESET k then Some Resets
      else if cmd = CMD_STANDBY k then do { d \<leftarrow> rd_mem data 0 4; Some (Stands_by (le_word d)) }
      else if cmd = CMD_FLOOD_PING k then
        Some (Continues (if pkt_service_size pkt \<ge> flood_ping_size k
          then set_flood (flood_ping_num_responses k data)
            (c\<lparr>flood_counter := flood_ping_start_counter k data, flood_size := flood_ping_payload_size k data\<rparr>)
          else c) s)
      else if cmd = get (REG_DEVICE_DESCRIPTION k) then do {
        (s, t) \<leftarrow> app_get_dev_class_name e s;
        replied c (jd_respond_string pkt (Some t) s) }
      else if cmd = get (REG_FIRMWARE_VERSION k) then replied c (jd_respond_string pkt (Some (fw_version k)) s)
      else if cmd = get (REG_PRODUCT_IDENTIFIER k) \<or> cmd = get (REG_BOOTLOADER_PRODUCT_IDENTIFIER k) then do {
        (s, v) \<leftarrow> app_get_device_class e s;
        replied c (jd_respond_u32 pkt (of_nat v) s) }
      else if cmd = get (REG_UPTIME k) then
        replied c (jd_send JD_SERVICE_INDEX_CONTROL cmd (le_bytes 8 (micros s)) s)
      else if cmd = get (REG_RESET_IN k) then
        replied c (jd_respond_u32 pkt (if watchdog c \<noteq> 0 then watchdog c - now_us s else watchdog c) s)
      else if cmd = JD_SET (env_sys e) (REG_RESET_IN k) then do {
        if pkt_service_size pkt = 4 then do {
          d \<leftarrow> rd_mem data 0 4;
          Some (Continues (c\<lparr>watchdog := (if le_word d \<noteq> (0 :: 32 word) then now_us s + le_word d else 0)\<rparr>) s) }
        else Some (Continues c s) }
      else replied c (jd_send_not_implemented (env_sys e) pkt s))"

definition jd_ctrl_init :: "32 word \<Rightarrow> 'a svcs_scheme \<Rightarrow> ('a svcs_scheme \<times> nat) option" where
  "jd_ctrl_init control_class s = jd_allocate_service control_class s"

section \<open>The flood\<close>

lemma length_flood_payload: "length (flood_payload c) = 4 + unat (flood_size c)"
  by (simp add: flood_payload_def)

lemma jd_send_oversize:
  assumes "acc_ok (tx_acc_buffer s)" "frm_size (tx_acc_buffer s) = 0" "num < 256" "cmd < 65536" "232 < length data"
    "length data < 4294967292"
  shows "jd_send num cmd data s = None"
proof -
  have "frame_append (tx_acc_buffer s) num cmd data = Some (tx_acc_buffer s, False)"
    using assms by (intro frame_append_full) simp_all
  moreover have "jd_send_frame_with_crc (tx_acc_buffer s) s = None"
    using assms(2) by (simp add: jd_send_frame_with_crc_def jd_compute_crc_def send_empty_frame_panics split: bind_splits)
  ultimately show ?thesis by (simp add: jd_send_def)
qed

section \<open>Properties\<close>

text \<open>A flood request is answered one packet per idle poll, with consecutive counters, until the number asked
  for has been sent; but a request for payloads of more than 228 bytes, which the service accepts from
  the bus, makes the next idle poll panic, because a packet of that size fits no frame.\<close>

theorem process_flood_step:
  assumes "flood_remaining c \<noteq> 0" "jd_tx_is_idle s" "\<not> in_irq s" "acc_ok (tx_acc_buffer s)" "CMD_FLOOD_PING k < 65536"
  shows "process_flood k c s =
    (if unat (flood_size c) \<le> 228 then
       Some (set_flood (flood_remaining c - 1) (c\<lparr>flood_counter := flood_counter c + 1\<rparr>),
         s\<lparr>tx_acc_buffer := appended (tx_acc_buffer s) JD_SERVICE_INDEX_CONTROL (CMD_FLOOD_PING k) (flood_payload c)\<rparr>)
     else None)"
proof -
  have empty: "frm_size (tx_acc_buffer s) = 0" using assms(2) by (auto simp: jd_tx_is_idle_def split: if_splits)
  have lt: "unat (flood_size c) < 256" by (rule unat_byte_lt)
  show ?thesis
  proof (cases "unat (flood_size c) \<le> 228")
    case True
    then have "frame_append (tx_acc_buffer s) JD_SERVICE_INDEX_CONTROL (CMD_FLOOD_PING k) (flood_payload c) =
        Some (appended (tx_acc_buffer s) JD_SERVICE_INDEX_CONTROL (CMD_FLOOD_PING k) (flood_payload c), True)"
      using assms(4,5) empty by (intro frame_append_fits) (simp_all add: length_flood_payload JD_SERVICE_INDEX_CONTROL_def)
    with True assms show ?thesis by (simp add: process_flood_def jd_send_def)
  next
    case False
    then have "jd_send JD_SERVICE_INDEX_CONTROL (CMD_FLOOD_PING k) (flood_payload c) s = None"
      using assms(4,5) empty lt
      by (intro jd_send_oversize) (simp_all add: length_flood_payload JD_SERVICE_INDEX_CONTROL_def)
    with False assms(1,2) show ?thesis by (simp add: process_flood_def)
  qed
qed

definition sample_ctrl :: ctrl where
  "sample_ctrl = \<lparr>flood_size = 229, watchdog = 0, flood_counter = 0, flood_remaining = 1, no_sleep_count = 0\<rparr>"

definition sample_codes :: ctrl_codes where
  "sample_codes = \<lparr>CMD_IDENTIFY = 0x81, CMD_RESET = 0x82, CMD_STANDBY = 0x87, CMD_FLOOD_PING = 0x83,
     REG_DEVICE_DESCRIPTION = 0x180, REG_FIRMWARE_VERSION = 0x185, REG_PRODUCT_IDENTIFIER = 0x181,
     REG_BOOTLOADER_PRODUCT_IDENTIFIER = 0x184, REG_UPTIME = 0x186, REG_RESET_IN = 0x80, flood_ping_size = 9,
     flood_ping_num_responses = \<lambda>m. le_word (take 4 m), flood_ping_start_counter = \<lambda>m. le_word (take 4 (drop 4 m)),
     flood_ping_payload_size = \<lambda>m. m ! 8, fw_version = []\<rparr>"

theorem process_flood_step_witness: "process_flood sample_codes sample_ctrl quiet_state = None"
proof -
  have b: "tx_acc_buffer quiet_state = zero_frame" "q_sending quiet_state = False" "in_irq quiet_state = False"
    "send_queue quiet_state = jd_queue_alloc 64"
    by (simp_all add: quiet_state_def svcs.defs pipes.defs sample_pipes_def bus.defs bus_init_def bus_zero_def jd_phys_start_def
      set_tick_timer_def has_status_def Let_def jd_tx_init_def)
  then have "jd_tx_is_idle quiet_state" by (simp add: jd_tx_is_idle_def zero_frame_def jd_queue_front_def jd_queue_alloc_def)
  moreover have "acc_ok (tx_acc_buffer quiet_state)"
    by (simp add: b acc_ok_def zero_frame_def JD_SERIAL_PAYLOAD_SIZE_def)
  ultimately show ?thesis
    using process_flood_step [of sample_ctrl quiet_state sample_codes] b
    by (simp add: sample_ctrl_def sample_codes_def)
qed

end
