(* ===== verification/Jd_Crc32.thy ===== *)
theory Jd_Crc32
  imports Jd_Util
begin

text \<open>
  The checksums of storage/crc32.c: the CRC-32 of the log store and the CRC-7 and CRC-16 of the SD card
  protocol.  CRC-32 and CRC-16 take one table lookup for each byte.  The references go bit by bit: CRC-32
  with the reflected polynomial \<open>0xedb88320\<close>, CRC-16 with \<open>0x1021\<close>, most significant bit first, CRC-7
  with \<open>0x09\<close> in a register of seven bits.
\<close>

definition crc32_lookup :: "32 word list" where
  "crc32_lookup = [
     0x00000000, 0x77073096, 0xee0e612c, 0x990951ba, 0x076dc419, 0x706af48f, 0xe963a535, 0x9e6495a3,
     0x0edb8832, 0x79dcb8a4, 0xe0d5e91e, 0x97d2d988, 0x09b64c2b, 0x7eb17cbd, 0xe7b82d07, 0x90bf1d91,
     0x1db71064, 0x6ab020f2, 0xf3b97148, 0x84be41de, 0x1adad47d, 0x6ddde4eb, 0xf4d4b551, 0x83d385c7,
     0x136c9856, 0x646ba8c0, 0xfd62f97a, 0x8a65c9ec, 0x14015c4f, 0x63066cd9, 0xfa0f3d63, 0x8d080df5,
     0x3b6e20c8, 0x4c69105e, 0xd56041e4, 0xa2677172, 0x3c03e4d1, 0x4b04d447, 0xd20d85fd, 0xa50ab56b,
     0x35b5a8fa, 0x42b2986c, 0xdbbbc9d6, 0xacbcf940, 0x32d86ce3, 0x45df5c75, 0xdcd60dcf, 0xabd13d59,
     0x26d930ac, 0x51de003a, 0xc8d75180, 0xbfd06116, 0x21b4f4b5, 0x56b3c423, 0xcfba9599, 0xb8bda50f,
     0x2802b89e, 0x5f058808, 0xc60cd9b2, 0xb10be924, 0x2f6f7c87, 0x58684c11, 0xc1611dab, 0xb6662d3d,
     0x76dc4190, 0x01db7106, 0x98d220bc, 0xefd5102a, 0x71b18589, 0x06b6b51f, 0x9fbfe4a5, 0xe8b8d433,
     0x7807c9a2, 0x0f00f934, 0x9609a88e, 0xe10e9818, 0x7f6a0dbb, 0x086d3d2d, 0x91646c97, 0xe6635c01,
     0x6b6b51f4, 0x1c6c6162, 0x856530d8, 0xf262004e, 0x6c0695ed, 0x1b01a57b, 0x8208f4c1, 0xf50fc457,
     0x65b0d9c6, 0x12b7e950, 0x8bbeb8ea, 0xfcb9887c, 0x62dd1ddf, 0x15da2d49, 0x8cd37cf3, 0xfbd44c65,
     0x4db26158, 0x3ab551ce, 0xa3bc0074, 0xd4bb30e2, 0x4adfa541, 0x3dd895d7, 0xa4d1c46d, 0xd3d6f4fb,
     0x4369e96a, 0x346ed9fc, 0xad678846, 0xda60b8d0, 0x44042d73, 0x33031de5, 0xaa0a4c5f, 0xdd0d7cc9,
     0x5005713c, 0x270241aa, 0xbe0b1010, 0xc90c2086, 0x5768b525, 0x206f85b3, 0xb966d409, 0xce61e49f,
     0x5edef90e, 0x29d9c998, 0xb0d09822, 0xc7d7a8b4, 0x59b33d17, 0x2eb40d81, 0xb7bd5c3b, 0xc0ba6cad,
     0xedb88320, 0x9abfb3b6, 0x03b6e20c, 0x74b1d29a, 0xead54739, 0x9dd277af, 0x04db2615, 0x73dc1683,
     0xe3630b12, 0x94643b84, 0x0d6d6a3e, 0x7a6a5aa8, 0xe40ecf0b, 0x9309ff9d, 0x0a00ae27, 0x7d079eb1,
     0xf00f9344, 0x8708a3d2, 0x1e01f268, 0x6906c2fe, 0xf762575d, 0x806567cb, 0x196c3671, 0x6e6b06e7,
     0xfed41b76, 0x89d32be0, 0x10da7a5a, 0x67dd4acc, 0xf9b9df6f, 0x8ebeeff9, 0x17b7be43, 0x60b08ed5,
     0xd6d6a3e8, 0xa1d1937e, 0x38d8c2c4, 0x4fdff252, 0xd1bb67f1, 0xa6bc5767, 0x3fb506dd, 0x48b2364b,
     0xd80d2bda, 0xaf0a1b4c, 0x36034af6, 0x41047a60, 0xdf60efc3, 0xa867df55, 0x316e8eef, 0x4669be79,
     0xcb61b38c, 0xbc66831a, 0x256fd2a0, 0x5268e236, 0xcc0c7795, 0xbb0b4703, 0x220216b9, 0x5505262f,
     0xc5ba3bbe, 0xb2bd0b28, 0x2bb45a92, 0x5cb36a04, 0xc2d7ffa7, 0xb5d0cf31, 0x2cd99e8b, 0x5bdeae1d,
     0x9b64c2b0, 0xec63f226, 0x756aa39c, 0x026d930a, 0x9c0906a9, 0xeb0e363f, 0x72076785, 0x05005713,
     0x95bf4a82, 0xe2b87a14, 0x7bb12bae, 0x0cb61b38, 0x92d28e9b, 0xe5d5be0d, 0x7cdcefb7, 0x0bdbdf21,
     0x86d3d2d4, 0xf1d4e242, 0x68ddb3f8, 0x1fda836e, 0x81be16cd, 0xf6b9265b, 0x6fb077e1, 0x18b74777,
     0x88085ae6, 0xff0f6a70, 0x66063bca, 0x11010b5c, 0x8f659eff, 0xf862ae69, 0x616bffd3, 0x166ccf45,
     0xa00ae278, 0xd70dd2ee, 0x4e048354, 0x3903b3c2, 0xa7672661, 0xd06016f7, 0x4969474d, 0x3e6e77db,
     0xaed16a4a, 0xd9d65adc, 0x40df0b66, 0x37d83bf0, 0xa9bcae53, 0xdebb9ec5, 0x47b2cf7f, 0x30b5ffe9,
     0xbdbdf21c, 0xcabac28a, 0x53b39330, 0x24b4a3a6, 0xbad03605, 0xcdd70693, 0x54de5729, 0x23d967bf,
     0xb3667a2e, 0xc4614ab8, 0x5d681b02, 0x2a6f2b94, 0xb40bbe37, 0xc30c8ea1, 0x5a05df1b, 0x2d02ef8d]"

text \<open>One round of the \<open>while\<close> loop; the index is a byte, and the table has 256 entries.\<close>

definition crc32_step :: "32 word \<Rightarrow> byte \<Rightarrow> 32 word" where
  "crc32_step crc b = crc32_lookup ! unat (ucast (crc XOR ucast b) :: byte) XOR drop_bit 8 crc"

definition jd_crc32 :: "mem \<Rightarrow> 32 word" where
  "jd_crc32 data = NOT (foldl crc32_step (NOT 0) data)"

definition crc7_shift :: "byte \<Rightarrow> byte" where
  "crc7_shift crc = push_bit 1 (if crc AND 0x80 \<noteq> 0 then crc XOR 0x89 else crc)"

definition crc7tab :: "byte \<Rightarrow> byte" where
  "crc7tab crc = drop_bit 1 ((crc7_shift ^^ 8) crc)"

definition jd_sd_crc7 :: "mem \<Rightarrow> byte" where
  "jd_sd_crc7 data = push_bit 1 (foldl (\<lambda>crc b. crc7tab (b XOR push_bit 1 crc)) 0 data) OR 1"

definition crc16_sd_lookup :: "16 word list" where
  "crc16_sd_lookup = [
     0x0000, 0x1021, 0x2042, 0x3063, 0x4084, 0x50a5, 0x60c6, 0x70e7, 0x8108, 0x9129, 0xa14a, 0xb16b,
     0xc18c, 0xd1ad, 0xe1ce, 0xf1ef, 0x1231, 0x0210, 0x3273, 0x2252, 0x52b5, 0x4294, 0x72f7, 0x62d6,
     0x9339, 0x8318, 0xb37b, 0xa35a, 0xd3bd, 0xc39c, 0xf3ff, 0xe3de, 0x2462, 0x3443, 0x0420, 0x1401,
     0x64e6, 0x74c7, 0x44a4, 0x5485, 0xa56a, 0xb54b, 0x8528, 0x9509, 0xe5ee, 0xf5cf, 0xc5ac, 0xd58d,
     0x3653, 0x2672, 0x1611, 0x0630, 0x76d7, 0x66f6, 0x5695, 0x46b4, 0xb75b, 0xa77a, 0x9719, 0x8738,
     0xf7df, 0xe7fe, 0xd79d, 0xc7bc, 0x48c4, 0x58e5, 0x6886, 0x78a7, 0x0840, 0x1861, 0x2802, 0x3823,
     0xc9cc, 0xd9ed, 0xe98e, 0xf9af, 0x8948, 0x9969, 0xa90a, 0xb92b, 0x5af5, 0x4ad4, 0x7ab7, 0x6a96,
     0x1a71, 0x0a50, 0x3a33, 0x2a12, 0xdbfd, 0xcbdc, 0xfbbf, 0xeb9e, 0x9b79, 0x8b58, 0xbb3b, 0xab1a,
     0x6ca6, 0x7c87, 0x4ce4, 0x5cc5, 0x2c22, 0x3c03, 0x0c60, 0x1c41, 0xedae, 0xfd8f, 0xcdec, 0xddcd,
     0xad2a, 0xbd0b, 0x8d68, 0x9d49, 0x7e97, 0x6eb6, 0x5ed5, 0x4ef4, 0x3e13, 0x2e32, 0x1e51, 0x0e70,
     0xff9f, 0xefbe, 0xdfdd, 0xcffc, 0xbf1b, 0xaf3a, 0x9f59, 0x8f78, 0x9188, 0x81a9, 0xb1ca, 0xa1eb,
     0xd10c, 0xc12d, 0xf14e, 0xe16f, 0x1080, 0x00a1, 0x30c2, 0x20e3, 0x5004, 0x4025, 0x7046, 0x6067,
     0x83b9, 0x9398, 0xa3fb, 0xb3da, 0xc33d, 0xd31c, 0xe37f, 0xf35e, 0x02b1, 0x1290, 0x22f3, 0x32d2,
     0x4235, 0x5214, 0x6277, 0x7256, 0xb5ea, 0xa5cb, 0x95a8, 0x8589, 0xf56e, 0xe54f, 0xd52c, 0xc50d,
     0x34e2, 0x24c3, 0x14a0, 0x0481, 0x7466, 0x6447, 0x5424, 0x4405, 0xa7db, 0xb7fa, 0x8799, 0x97b8,
     0xe75f, 0xf77e, 0xc71d, 0xd73c, 0x26d3, 0x36f2, 0x0691, 0x16b0, 0x6657, 0x7676, 0x4615, 0x5634,
     0xd94c, 0xc96d, 0xf90e, 0xe92f, 0x99c8, 0x89e9, 0xb98a, 0xa9ab, 0x5844, 0x4865, 0x7806, 0x6827,
     0x18c0, 0x08e1, 0x3882, 0x28a3, 0xcb7d, 0xdb5c, 0xeb3f, 0xfb1e, 0x8bf9, 0x9bd8, 0xabbb, 0xbb9a,
     0x4a75, 0x5a54, 0x6a37, 0x7a16, 0x0af1, 0x1ad0, 0x2ab3, 0x3a92, 0xfd2e, 0xed0f, 0xdd6c, 0xcd4d,
     0xbdaa, 0xad8b, 0x9de8, 0x8dc9, 0x7c26, 0x6c07, 0x5c64, 0x4c45, 0x3ca2, 0x2c83, 0x1ce0, 0x0cc1,
     0xef1f, 0xff3e, 0xcf5d, 0xdf7c, 0xaf9b, 0xbfba, 0x8fd9, 0x9ff8, 0x6e17, 0x7e36, 0x4e55, 0x5e74,
     0x2e93, 0x3eb2, 0x0ed1, 0x1ef0]"

definition crc16_sd_step :: "16 word \<Rightarrow> byte \<Rightarrow> 16 word" where
  "crc16_sd_step crc b = crc16_sd_lookup ! unat (b XOR ucast (drop_bit 8 crc)) XOR push_bit 8 crc"

definition jd_sd_crc16 :: "mem \<Rightarrow> 16 word" where
  "jd_sd_crc16 data = (let crc = foldl crc16_sd_step 0 data in drop_bit 8 crc OR push_bit 8 crc)"

section \<open>Bitwise references\<close>

definition crc32_bit :: "32 word \<Rightarrow> 32 word" where
  "crc32_bit c = (if bit c 0 then drop_bit 1 c XOR 0xedb88320 else drop_bit 1 c)"

definition crc32_ref_step :: "32 word \<Rightarrow> byte \<Rightarrow> 32 word" where
  "crc32_ref_step crc b = (crc32_bit ^^ 8) (crc XOR ucast b)"

definition crc32_ref :: "mem \<Rightarrow> 32 word" where
  "crc32_ref data = NOT (foldl crc32_ref_step (NOT 0) data)"

definition crc7_ref_bit :: "byte \<Rightarrow> bool \<Rightarrow> byte" where
  "crc7_ref_bit crc d = (if bit crc 6 \<noteq> d then (push_bit 1 crc AND 0x7f) XOR 0x09 else push_bit 1 crc AND 0x7f)"

definition crc7_ref_step :: "byte \<Rightarrow> byte \<Rightarrow> byte" where
  "crc7_ref_step crc b = foldl (\<lambda>c k. crc7_ref_bit c (bit b k)) crc (rev [0..<8])"

definition crc7_ref :: "mem \<Rightarrow> byte" where
  "crc7_ref data = foldl crc7_ref_step 0 data"

section \<open>Tables that are additive\<close>

text \<open>The table of an additive function on the numbers below \<open>2 ^ n\<close>, from its values on the powers of two, the
  highest first.\<close>

definition xor_double :: "'a::len word \<Rightarrow> 'a word list \<Rightarrow> 'a word list" where
  "xor_double b t = t @ map (\<lambda>x. x XOR b) t"

lemma xor_double_Cons:
  "xor_double b (x # t) = (x # t) @ map (\<lambda>x. x XOR b) (x # t)"
  by (simp add: xor_double_def)

fun xor_table :: "'a::len word list \<Rightarrow> 'a word list" where
  "xor_table [] = [0]"
| "xor_table (b # bs) = xor_double b (xor_table bs)"

lemma of_nat_add_pow:
  assumes "i < 2 ^ n" "n < 8"
  shows "(of_nat (2 ^ n + i) :: byte) = of_nat i XOR push_bit n 1"
proof -
  have "bit i k \<Longrightarrow> k < n" for k
    using assms(1) by (metis bit_take_bit_iff take_bit_nat_eq_self)
  then have "(of_nat i :: byte) AND push_bit n 1 = 0"
    by (intro bit_word_eqI) (auto simp: bit_and_iff bit_of_nat_iff bit_exp_iff)
  then have "of_nat i + push_bit n (1 :: byte) = of_nat i OR push_bit n 1"
    by (simp add: disjunctive_add_eq_or)
  moreover have "(of_nat i :: byte) OR push_bit n 1 = of_nat i XOR push_bit n 1"
    using \<open>_ AND _ = 0\<close> by (simp add: disjunctive_xor_eq_or)
  ultimately show ?thesis by (simp add: push_bit_eq_mult add.commute)
qed

lemma xor_table_additive:
  fixes f :: "byte \<Rightarrow> 'a::len word"
  assumes "\<And>a b. f (a XOR b) = f a XOR f b" "n \<le> 8"
  shows "xor_table (map (\<lambda>k. f (push_bit k 1)) (rev [0..<n])) = map (\<lambda>i. f (of_nat i)) [0..<2 ^ n]"
  using assms(2)
proof (induction n)
  case 0
  have "f 0 = 0" using assms(1) [of 0 0] by simp
  then show ?case by simp
next
  case (Suc n)
  have "[0..<2 ^ Suc n] = [0..<2 ^ n] @ map (\<lambda>i. 2 ^ n + i) [0..<2 ^ n]"
    using upt_add_eq_append [of 0 "2 ^ n" "2 ^ n"] by (simp add: map_add_upt add.commute mult_2)
  moreover have "map (\<lambda>i. f (of_nat (2 ^ n + i))) [0..<2 ^ n] = map (\<lambda>i. f (of_nat i) XOR f (push_bit n 1)) [0..<2 ^ n]"
    using Suc.prems of_nat_add_pow by (intro map_cong refl) (simp only: assms(1) set_upt atLeastLessThan_iff Suc_le_lessD)
  ultimately show ?case using Suc by (simp add: comp_def xor_double_def)
qed

lemma xor_table_nth:
  fixes f :: "byte \<Rightarrow> 'a::len word"
  assumes "\<And>a b. f (a XOR b) = f a XOR f b"
  shows "xor_table (map (\<lambda>k. f (push_bit k 1)) (rev [0..<8])) ! unat x = f x"
  using unat_byte_lt [of x] by (subst xor_table_additive [OF assms]) simp_all

section \<open>CRC-32\<close>

lemma ucast_xor_32: "(ucast (a XOR b :: byte) :: 32 word) = ucast a XOR ucast b"
  by (rule bit_word_eqI) (auto simp: bit_xor_iff bit_unsigned_iff)

lemma crc32_bit_xor: "crc32_bit (a XOR b) = crc32_bit a XOR crc32_bit b"
  by (auto simp: crc32_bit_def bit_xor_iff drop_bit_xor ac_simps)

lemma crc32_bits_xor: "(crc32_bit ^^ n) (a XOR b) = (crc32_bit ^^ n) a XOR (crc32_bit ^^ n) b"
  by (induction n) (simp_all add: crc32_bit_xor)

lemma crc32_bits_high: "n \<le> 8 \<Longrightarrow> (crc32_bit ^^ n) (push_bit 8 h) = drop_bit n (push_bit 8 h)"
proof (induction n)
  case (Suc n)
  then have "\<not> bit (drop_bit n (push_bit 8 h)) 0" by (simp add: bit_drop_bit_eq bit_push_bit_iff)
  with Suc show ?case by (simp add: crc32_bit_def drop_bit_drop_bit)
qed simp

lemma crc32_table: "crc32_lookup ! unat (x :: byte) = (crc32_bit ^^ 8) (ucast x)"
proof -
  have b: "map (\<lambda>k. (crc32_bit ^^ 8) (ucast (push_bit k 1 :: byte))) (rev [0..<8]) =
     [0xedb88320, 0x76dc4190, 0x3b6e20c8, 0x1db71064, 0x0edb8832, 0x076dc419, 0xee0e612c, 0x77073096]"
    by (simp add: crc32_bit_def funpow_8 upt_8)
  have "crc32_lookup = xor_table (map (\<lambda>k. (crc32_bit ^^ 8) (ucast (push_bit k 1 :: byte))) (rev [0..<8]))"
    unfolding b by (simp add: crc32_lookup_def xor_double_Cons)
  then show ?thesis
    using xor_table_nth [of "\<lambda>x. (crc32_bit ^^ 8) (ucast x)" x] by (simp add: ucast_xor_32 crc32_bits_xor)
qed

lemma crc32_step_ref: "crc32_step crc b = crc32_ref_step crc b"
proof -
  define lo where "lo = (ucast (crc XOR ucast b) :: byte)"
  have "crc XOR ucast b = ucast lo XOR push_bit 8 (drop_bit 8 crc)"
    unfolding lo_def
    by (rule bit_word_eqI) (auto simp: bit_xor_iff bit_unsigned_iff bit_push_bit_iff bit_drop_bit_eq dest: bit_imp_le_length)
  moreover have "drop_bit 8 (push_bit 8 (drop_bit 8 crc)) = drop_bit 8 crc"
    by (rule bit_word_eqI) (auto simp: bit_push_bit_iff bit_drop_bit_eq dest: bit_imp_le_length)
  ultimately have "crc32_ref_step crc b = (crc32_bit ^^ 8) (ucast lo) XOR drop_bit 8 crc"
    by (simp add: crc32_ref_step_def crc32_bits_xor crc32_bits_high)
  then show ?thesis by (simp only: crc32_step_def crc32_table lo_def [symmetric])
qed

section \<open>SD card checksums\<close>

lemma crc16_sd_table: "crc16_sd_lookup ! unat (x :: byte) = (crc16_bit ^^ 8) (push_bit 8 (ucast x))"
proof -
  have b: "map (\<lambda>k. (crc16_bit ^^ 8) (push_bit 8 (ucast (push_bit k 1 :: byte)))) (rev [0..<8]) =
     [0x9188, 0x48c4, 0x2462, 0x1231, 0x8108, 0x4084, 0x2042, 0x1021]"
    by (simp add: crc16_bit_def funpow_8 upt_8)
  have "crc16_sd_lookup = xor_table (map (\<lambda>k. (crc16_bit ^^ 8) (push_bit 8 (ucast (push_bit k 1 :: byte)))) (rev [0..<8]))"
    unfolding b by (simp add: crc16_sd_lookup_def xor_double_Cons)
  then show ?thesis
    using xor_table_nth [of "\<lambda>x. (crc16_bit ^^ 8) (push_bit 8 (ucast x))" x]
    by (simp add: ucast_xor_byte push_bit_xor crc16_bit_funpow_xor)
qed

lemma crc16_sd_step_ref: "crc16_sd_step crc d = crc16_ref_step crc d"
proof -
  define hi where "hi = (ucast (drop_bit 8 crc) :: byte)"
  define lo where "lo = (ucast crc :: byte)"
  have "crc XOR push_bit 8 (ucast d) = push_bit 8 (ucast (d XOR hi)) XOR ucast lo"
    by (subst word16_split [of crc]) (simp add: hi_def lo_def ucast_xor_byte push_bit_xor ac_simps)
  then have "crc16_ref_step crc d = (crc16_bit ^^ 8) (push_bit 8 (ucast (d XOR hi))) XOR push_bit 8 (ucast lo)"
    by (simp only: crc16_ref_step_def crc16_bit_funpow_xor crc16_bit_low)
  then show ?thesis
    by (simp only: crc16_sd_table [symmetric]) (simp add: crc16_sd_step_def hi_def lo_def push_bit_8_low)
qed

lemma crc7_shift_xor: "crc7_shift (a XOR b) = crc7_shift a XOR crc7_shift b"
proof -
  have msb: "c AND 0x80 \<noteq> 0 \<longleftrightarrow> bit c 7" for c :: byte
    using and_exp_eq_0_iff_not_bit [of c 7] by simp
  define g where "g = (push_bit 1 :: byte \<Rightarrow> byte)"
  have g: "g (a XOR b) = g a XOR g b" for a b unfolding g_def by (rule push_bit_xor)
  have "crc7_shift c = g c XOR (if bit c 7 then g 0x89 else 0)" for c
    unfolding crc7_shift_def msb g_def by (cases "bit c 7") (simp_all only: push_bit_xor if_True if_False xor.right_neutral)
  then show ?thesis by (auto simp: g bit_xor_iff ac_simps)
qed

lemma crc7tab_xor: "crc7tab (a XOR b) = crc7tab a XOR crc7tab b"
proof -
  have "(crc7_shift ^^ n) (a XOR b) = (crc7_shift ^^ n) a XOR (crc7_shift ^^ n) b" for n
    by (induction n) (simp_all add: crc7_shift_xor)
  then show ?thesis by (simp add: crc7tab_def drop_bit_xor)
qed

lemma crc7_ref_bit_xor: "crc7_ref_bit (a XOR b) (p \<noteq> q) = crc7_ref_bit a p XOR crc7_ref_bit b q"
proof -
  have "push_bit 1 (a XOR b) AND 0x7f = (push_bit 1 a AND 0x7f) XOR (push_bit 1 b AND 0x7f)"
    by (simp only: push_bit_xor bit.conj_xor_distrib2)
  then show ?thesis by (auto simp: crc7_ref_bit_def bit_xor_iff ac_simps)
qed

lemma crc7_ref_step_xor: "crc7_ref_step (a XOR b) (x XOR y) = crc7_ref_step a x XOR crc7_ref_step b y"
proof -
  have "foldl (\<lambda>c k. crc7_ref_bit c (bit (x XOR y) k)) (a XOR b) ks =
      foldl (\<lambda>c k. crc7_ref_bit c (bit x k)) a ks XOR foldl (\<lambda>c k. crc7_ref_bit c (bit y k)) b ks" for ks
    by (induction ks arbitrary: a b) (simp_all only: foldl_Nil foldl_Cons bit_xor_iff crc7_ref_bit_xor)
  then show ?thesis by (simp add: crc7_ref_step_def)
qed

lemma crc7_step_ref: "crc7tab (d XOR push_bit 1 crc) = crc7_ref_step crc d"
proof -
  have "crc7_ref_step crc 0 = crc7tab (push_bit 1 crc)"
  proof (rule byte_additive_eqI [where f = "\<lambda>c. crc7_ref_step c 0"])
    show "list_all (\<lambda>k. crc7_ref_step (push_bit k 1) 0 = crc7tab (push_bit 1 (push_bit k 1))) [0..<8]"
      by (simp add: crc7_ref_step_def crc7_ref_bit_def crc7tab_def crc7_shift_def funpow_8 upt_8)
  qed (use crc7_ref_step_xor [of _ _ 0 0] in \<open>simp_all add: push_bit_xor crc7tab_xor\<close>)
  moreover have "crc7_ref_step 0 d = crc7tab d"
  proof (rule byte_additive_eqI [where f = "\<lambda>c. crc7_ref_step 0 c"])
    show "list_all (\<lambda>k. crc7_ref_step 0 (push_bit k 1) = crc7tab (push_bit k 1)) [0..<8]"
      by (simp add: crc7_ref_step_def crc7_ref_bit_def crc7tab_def crc7_shift_def funpow_8 upt_8)
  qed (use crc7_ref_step_xor [of 0 0] in \<open>simp_all add: crc7tab_xor\<close>)
  ultimately show ?thesis
    using crc7_ref_step_xor [of crc 0 0 d] by (simp add: crc7tab_xor ac_simps)
qed

section \<open>Properties\<close>

text \<open>The table driven \<open>jd_crc32\<close> computes the reflected CRC-32 of every byte sequence: the 256 table
  entries are the eight-fold bitwise step of their index.\<close>

theorem jd_crc32_bitwise: "jd_crc32 data = crc32_ref data"
  by (simp only: jd_crc32_def crc32_ref_def crc32_step_ref [abs_def])

text \<open>\<open>jd_sd_crc7\<close> is the CRC-7 of the SD card protocol, shifted left with the end bit set, and
  \<open>jd_sd_crc16\<close> is the CRC-16 with initial value 0, with its bytes swapped for the wire.\<close>

theorem sd_crc_bitwise:
  "jd_sd_crc7 data = push_bit 1 (crc7_ref data) OR 1 \<and>
   jd_sd_crc16 data = (let c = foldl crc16_ref_step 0 data in drop_bit 8 c OR push_bit 8 c)"
  by (simp only: jd_sd_crc7_def crc7_ref_def crc7_step_ref jd_sd_crc16_def crc16_sd_step_ref [abs_def])

end
