(* ===== verification/Jd_Client.thy ===== *)
theory Jd_Client
  imports Jd_Services
begin

text \<open>
  The client side, client/routing.c with the inline functions of inc/jd\_client.h: the table of the devices on the
  bus, the cache of their registers, the recognition of repeated events and the events given to listeners.

  Devices live in a store of allocated objects, \<open>dev_store\<close>; \<open>jd_devices\<close> is the linked list as the list of their
  addresses.  A device that has been unlinked but not freed is in the store and not in the list; reading an
  address outside of the store is \<open>None\<close>.  A pointer to a service is the address of its device with an index.
  Objects get the address \<open>next_addr\<close>, which is never used again, so that a pointer to a freed object never
  becomes valid by accident.  Listeners and \<open>rolemgr_device_destroyed\<close> are called through the environment.  The
  fields \<open>userdata\<close> and \<open>userflags\<close>, which the library never uses, are left out.
\<close>

section \<open>Data\<close>

definition JD_CMD_EVENT_MASK :: nat where "JD_CMD_EVENT_MASK = 0x8000"
definition JD_CMD_EVENT_COUNTER_MASK :: int where "JD_CMD_EVENT_COUNTER_MASK = 0x7f"
definition JD_CMD_EVENT_CODE_MASK :: nat where "JD_CMD_EVENT_CODE_MASK = 0xff"
definition JD_CMD_EVENT_COUNTER_SHIFT :: nat where "JD_CMD_EVENT_COUNTER_SHIFT = 8"
definition JD_REGISTER_QUERY_MAX_INLINE :: nat where "JD_REGISTER_QUERY_MAX_INLINE = 4"
definition EXPIRES_USEC :: "32 word" where "EXPIRES_USEC = 2000 * 1000"

type_synonym serv_ptr = "nat \<times> nat"

record jd_device_service =
  sv_class :: "32 word"
  sv_index :: nat
  sv_flags :: byte

text \<open>The union of a query holds up to four bytes in place or a pointer to allocated bytes.\<close>

datatype reg_value = Inline mem | Buffer mem

record jd_register_query =
  rq_addr :: nat
  rq_reg_code :: nat
  rq_service_index :: byte
  rq_resp_size :: nat
  rq_last_query_ms :: "32 word"
  rq_value :: reg_value

record jd_device =
  dv_queries :: "jd_register_query list"
  dv_identifier :: "64 word"
  dv_event_counter :: nat
  dv_announce_flags :: "16 word"
  dv_short_id :: mem
  dv_expires :: "32 word"
  dv_services :: "jd_device_service list"

definition num_services :: "jd_device \<Rightarrow> nat" where
  "num_services d = length (dv_services d)"

datatype client_event =
    EV_DEVICE_CREATED nat jd_frame
  | EV_DEVICE_DESTROYED nat
  | EV_DEVICE_RESET nat jd_frame
  | EV_SERVICE_PACKET serv_ptr jd_frame
  | EV_NON_SERVICE_PACKET "nat option" jd_frame
  | EV_BROADCAST_PACKET jd_frame
  | EV_REPEATED_EVENT_PACKET serv_ptr jd_frame
  | EV_SERVICE_REGISTER_CHANGED serv_ptr nat
  | EV_SERVICE_REGISTER_NOT_IMPLEMENTED serv_ptr nat
  | EV_PROCESS
  | EV_ROLE_CHANGED "serv_ptr option" nat

record client = svcs +
  jd_client_listeners :: "nat list"
  next_gc :: "32 word"
  event_scope :: nat
  jd_devices :: "nat list"
  dev_store :: "nat \<Rightarrow> jd_device option"
  next_addr :: nat

record 's client_env =
  ce_sys :: sys_consts
  ce_ctl :: ctl_consts
  listener_call :: "nat \<Rightarrow> client_event \<Rightarrow> 's \<Rightarrow> 's option"
  device_destroyed :: "nat \<Rightarrow> 's \<Rightarrow> 's option"

section \<open>Devices, services and queries (jd\_client.h)\<close>

definition jd_register_not_implemented :: "jd_register_query \<Rightarrow> bool" where
  "jd_register_not_implemented q \<longleftrightarrow> rq_service_index q AND 0x80 \<noteq> 0"

text \<open>The bytes that \<open>jd_register_data\<close> points to.\<close>

definition jd_register_data :: "jd_register_query \<Rightarrow> mem option" where
  "jd_register_data q =
     (if rq_resp_size q > JD_REGISTER_QUERY_MAX_INLINE
      then (case rq_value q of Buffer b \<Rightarrow> Some b | Inline _ \<Rightarrow> None)
      else (case rq_value q of Inline b \<Rightarrow> Some b | Buffer _ \<Rightarrow> None))"

definition jd_device_get_service :: "nat option \<Rightarrow> nat \<Rightarrow> 'a client_scheme \<Rightarrow> serv_ptr option option" where
  "jd_device_get_service dev serv_idx s =
     (case dev of None \<Rightarrow> Some None
      | Some a \<Rightarrow> do {
          d \<leftarrow> dev_store s a;
          Some (if serv_idx < num_services d then Some (a, serv_idx) else None) })"

definition service_at :: "serv_ptr \<Rightarrow> 'a client_scheme \<Rightarrow> jd_device_service option" where
  "service_at serv s = do {
     d \<leftarrow> dev_store s (fst serv);
     if snd serv < num_services d then Some (dv_services d ! snd serv) else None }"

text \<open>\<open>jd_service_parent\<close> goes back from the service by the index that is stored in it.\<close>

definition jd_service_parent :: "serv_ptr \<Rightarrow> 'a client_scheme \<Rightarrow> nat option" where
  "jd_service_parent serv s = do {
     sv \<leftarrow> service_at serv s;
     if sv_index sv = snd serv then Some (fst serv) else None }"

definition set_device :: "nat \<Rightarrow> jd_device \<Rightarrow> 'a client_scheme \<Rightarrow> 'a client_scheme" where
  "set_device a d s = s\<lparr>dev_store := (dev_store s)(a \<mapsto> d)\<rparr>"

section \<open>Events\<close>

definition EVENT_ENTER :: "'a client_scheme \<Rightarrow> 'a client_scheme option" where
  "EVENT_ENTER s = (if event_scope s = 0 then Some (s\<lparr>event_scope := 1\<rparr>) else None)"

definition EVENT_LEAVE :: "'a client_scheme \<Rightarrow> 'a client_scheme option" where
  "EVENT_LEAVE s = (if event_scope s = 1 then Some (s\<lparr>event_scope := 0\<rparr>) else None)"

text \<open>What the messages of \<open>jd_client_log_event\<close> read (\<open>verbose_log\<close> is 0 and never set).\<close>

definition jd_client_log_event :: "client_event \<Rightarrow> 'a client_scheme \<Rightarrow> unit option" where
  "jd_client_log_event ev s =
     (case ev of
        EV_DEVICE_CREATED d _ \<Rightarrow> map_option (\<lambda>_. ()) (dev_store s d)
      | EV_DEVICE_DESTROYED d \<Rightarrow> map_option (\<lambda>_. ()) (dev_store s d)
      | EV_DEVICE_RESET d _ \<Rightarrow> map_option (\<lambda>_. ()) (dev_store s d)
      | EV_SERVICE_REGISTER_CHANGED serv _ \<Rightarrow> map_option (\<lambda>_. ()) (jd_service_parent serv s)
      | _ \<Rightarrow> Some ())"

definition jd_client_subscribe :: "nat \<Rightarrow> 'a client_scheme \<Rightarrow> 'a client_scheme" where
  "jd_client_subscribe handler s = s\<lparr>jd_client_listeners := handler # jd_client_listeners s\<rparr>"

definition jd_client_emit_event ::
  "'a client_scheme client_env \<Rightarrow> client_event \<Rightarrow> 'a client_scheme \<Rightarrow> 'a client_scheme option" where
  "jd_client_emit_event e ev s = do {
     jd_assert (event_scope s = 1);
     s \<leftarrow> EVENT_LEAVE s;
     jd_client_log_event ev s;
     s \<leftarrow> foldM (\<lambda>l. listener_call e l ev) (jd_client_listeners s) s;
     EVENT_ENTER s }"

section \<open>The device table\<close>

text \<open>The sign of \<open>memcmp\<close> on two stretches of the same length.\<close>

fun memcmp :: "mem \<Rightarrow> mem \<Rightarrow> int" where
  "memcmp (x # xs) (y # ys) = (if x < y then -1 else if x > y then 1 else memcmp xs ys)"
| "memcmp _ _ = 0"

definition fits_at :: "64 word \<Rightarrow> 64 word option \<Rightarrow> 64 word \<Rightarrow> bool" where
  "fits_at self existing fresh =
     (case existing of None \<Rightarrow> True
      | Some ex \<Rightarrow> fresh = self \<or> (ex \<noteq> self \<and> memcmp (le_bytes 8 fresh) (le_bytes 8 ex) < 0))"

fun link_device :: "64 word \<Rightarrow> (nat \<Rightarrow> jd_device option) \<Rightarrow> nat \<Rightarrow> 64 word \<Rightarrow> nat list \<Rightarrow> nat list option" where
  "link_device self st a fresh [] = Some [a]"
| "link_device self st a fresh (q # qs) = do {
     d \<leftarrow> st q;
     if fits_at self (Some (dv_identifier d)) fresh then Some (a # q # qs)
     else do { r \<leftarrow> link_device self st a fresh qs; Some (q # r) } }"

definition announced_service :: "mem \<Rightarrow> nat \<Rightarrow> jd_device_service" where
  "announced_service m i = \<lparr>sv_class = (if i = 0 then 0 else le_word (take 4 (drop (4 * i) m))), sv_index = i, sv_flags = 0\<rparr>"

definition new_device :: "jd_frame \<Rightarrow> 32 word \<Rightarrow> jd_device option" where
  "new_device announce now = do {
     let n = pkt_service_size announce div 4;
     w \<leftarrow> rd_mem (frm_data announce) 4 4;
     m \<leftarrow> rd_mem (frm_data announce) 4 (4 * n);
     Some \<lparr>dv_queries = [], dv_identifier = frm_device_identifier announce, dv_event_counter = 0xff,
           dv_announce_flags = le_word (take 2 w), dv_short_id = jd_device_short_id (frm_device_identifier announce),
           dv_expires = now + EXPIRES_USEC, dv_services = map (announced_service m) [0..<n]\<rparr> }"

definition jd_device_alloc ::
  "'a client_scheme client_env \<Rightarrow> jd_frame \<Rightarrow> 'a client_scheme \<Rightarrow> ('a client_scheme \<times> nat) option" where
  "jd_device_alloc e announce s = do {
     let a = next_addr s;
     d \<leftarrow> new_device announce (now_us s);
     l \<leftarrow> link_device (device_id s) (dev_store s) a (dv_identifier d) (jd_devices s);
     s \<leftarrow> jd_client_emit_event e (EV_DEVICE_CREATED a announce)
            ((set_device a d s)\<lparr>jd_devices := l, next_addr := a + 1\<rparr>);
     Some (s, a) }"

definition jd_device_clear_queries :: "nat \<Rightarrow> byte \<Rightarrow> 'a client_scheme \<Rightarrow> 'a client_scheme option" where
  "jd_device_clear_queries a service_idx s = do {
     d \<leftarrow> dev_store s a;
     Some (set_device a (d\<lparr>dv_queries :=
       filter (\<lambda>q. \<not> (service_idx = 0xff \<or> rq_service_index q = service_idx)) (dv_queries d)\<rparr>) s) }"

definition jd_device_free ::
  "'a client_scheme client_env \<Rightarrow> nat \<Rightarrow> 'a client_scheme \<Rightarrow> 'a client_scheme option" where
  "jd_device_free e a s = do {
     s \<leftarrow> EVENT_LEAVE s;
     s \<leftarrow> device_destroyed e a s;
     s \<leftarrow> EVENT_ENTER s;
     s \<leftarrow> jd_client_emit_event e (EV_DEVICE_DESTROYED a) s;
     s \<leftarrow> jd_device_clear_queries a 0xff s;
     Some (s\<lparr>dev_store := (dev_store s)(a := None)\<rparr>) }"

definition jd_device_unlink :: "nat \<Rightarrow> 'a client_scheme \<Rightarrow> 'a client_scheme" where
  "jd_device_unlink a s = s\<lparr>jd_devices := remove1 a (jd_devices s)\<rparr>"

text \<open>The object that follows \<open>a\<close> in a linked list: \<open>None\<close> when \<open>a\<close> is not in the list.\<close>

fun next_in :: "nat list \<Rightarrow> nat \<Rightarrow> nat option option" where
  "next_in [] a = None"
| "next_in (x # xs) a = (if x = a then Some (case xs of [] \<Rightarrow> None | y # _ \<Rightarrow> Some y) else next_in xs a)"

definition first_in :: "nat list \<Rightarrow> nat option" where
  "first_in xs = (case xs of [] \<Rightarrow> None | x # _ \<Rightarrow> Some x)"

partial_function (option) gc_head ::
  "'a client_scheme client_env \<Rightarrow> 'a client_scheme \<Rightarrow> 'a client_scheme option" where
  "gc_head e s =
     (case jd_devices s of [] \<Rightarrow> Some s
      | p # rest \<Rightarrow> do {
          d \<leftarrow> dev_store s p;
          if in_past (now_us s) (dv_expires d) then do {
            s \<leftarrow> jd_device_free e p (s\<lparr>jd_devices := rest\<rparr>);
            gc_head e s }
          else Some s })"

partial_function (option) gc_rest ::
  "'a client_scheme client_env \<Rightarrow> nat option \<Rightarrow> 'a client_scheme \<Rightarrow> 'a client_scheme option" where
  "gc_rest e p s =
     (case p of None \<Rightarrow> Some s
      | Some a \<Rightarrow> do {
          nx \<leftarrow> next_in (jd_devices s) a;
          case nx of None \<Rightarrow> Some s
          | Some q \<Rightarrow> do {
              d \<leftarrow> dev_store s q;
              s \<leftarrow> (if in_past (now_us s) (dv_expires d)
                    then jd_device_free e q (s\<lparr>jd_devices := remove1 q (jd_devices s)\<rparr>) else Some s);
              nx \<leftarrow> next_in (jd_devices s) a;
              gc_rest e nx s } })"

definition jd_device_gc :: "'a client_scheme client_env \<Rightarrow> 'a client_scheme \<Rightarrow> 'a client_scheme option" where
  "jd_device_gc e s = do {
     s \<leftarrow> gc_head e s;
     gc_rest e (first_in (jd_devices s)) s }"

fun device_lookup_in :: "(nat \<Rightarrow> jd_device option) \<Rightarrow> 64 word \<Rightarrow> nat list \<Rightarrow> nat option option" where
  "device_lookup_in st ident [] = Some None"
| "device_lookup_in st ident (p # ps) = do {
     d \<leftarrow> st p;
     if dv_identifier d = ident then Some (Some p) else device_lookup_in st ident ps }"

definition jd_device_lookup :: "64 word \<Rightarrow> 'a client_scheme \<Rightarrow> nat option option" where
  "jd_device_lookup ident s = device_lookup_in (dev_store s) ident (jd_devices s)"

definition jd_device_lookup_service :: "nat \<Rightarrow> 32 word \<Rightarrow> 'a client_scheme \<Rightarrow> serv_ptr option option" where
  "jd_device_lookup_service dev service_class s = do {
     d \<leftarrow> dev_store s dev;
     Some (map_option (Pair dev) (find (\<lambda>i. sv_class (dv_services d ! i) = service_class) [0..<num_services d])) }"

section \<open>Commands and queries\<close>

definition jd_service_send_cmd ::
  "serv_ptr \<Rightarrow> nat \<Rightarrow> mem \<Rightarrow> 'a client_scheme \<Rightarrow> ('a client_scheme \<times> int) option" where
  "jd_service_send_cmd serv cmd data s = do {
     a \<leftarrow> jd_service_parent serv s;
     d \<leftarrow> dev_store s a;
     sv \<leftarrow> service_at serv s;
     let pkt = \<lparr>frm_crc = 0, frm_size = 0, frm_flags = JD_FRAME_FLAG_COMMAND, frm_device_identifier = dv_identifier d,
                frm_data = pkt_header (u8 (length data)) (sv_index sv) (u16 cmd) @ data\<rparr>;
     (s, _, r) \<leftarrow> jd_send_pkt pkt s;
     Some (s, r) }"

definition is_query_for :: "nat \<Rightarrow> nat \<Rightarrow> jd_register_query \<Rightarrow> bool" where
  "is_query_for reg_code idx q \<longleftrightarrow> rq_reg_code q = reg_code \<and> unat (rq_service_index q AND 0x3f) = idx"

definition jd_service_query_lookup ::
  "serv_ptr \<Rightarrow> nat \<Rightarrow> 'a client_scheme \<Rightarrow> jd_register_query option option" where
  "jd_service_query_lookup serv reg_code s = do {
     a \<leftarrow> jd_service_parent serv s;
     d \<leftarrow> dev_store s a;
     sv \<leftarrow> service_at serv s;
     Some (find (is_query_for reg_code (sv_index sv)) (dv_queries d)) }"

text \<open>Writing through the pointer to the query at address \<open>qa\<close> of a device.\<close>

definition set_query :: "nat \<Rightarrow> jd_register_query \<Rightarrow> 'a client_scheme \<Rightarrow> 'a client_scheme option" where
  "set_query a q s = do {
     d \<leftarrow> dev_store s a;
     Some (set_device a (d\<lparr>dv_queries := map (\<lambda>p. if rq_addr p = rq_addr q then q else p) (dv_queries d)\<rparr>) s) }"

definition jd_service_query ::
  "sys_consts \<Rightarrow> serv_ptr \<Rightarrow> nat \<Rightarrow> nat \<Rightarrow> 'a client_scheme \<Rightarrow> ('a client_scheme \<times> jd_register_query) option" where
  "jd_service_query c serv reg_code refresh_ms s = do {
     q \<leftarrow> jd_service_query_lookup serv reg_code s;
     dev \<leftarrow> jd_service_parent serv s;
     (s, q) \<leftarrow> (case q of Some q \<Rightarrow> Some (s, q)
        | None \<Rightarrow> do {
            d \<leftarrow> dev_store s dev;
            sv \<leftarrow> service_at serv s;
            let q = \<lparr>rq_addr = next_addr s, rq_reg_code = u16 reg_code, rq_service_index = of_nat (sv_index sv),
                     rq_resp_size = 0, rq_last_query_ms = 0, rq_value = Inline [0, 0, 0, 0]\<rparr>;
            Some ((set_device dev (d\<lparr>dv_queries := q # dv_queries d\<rparr>) s)\<lparr>next_addr := next_addr s + 1\<rparr>, q) });
     if \<not> jd_register_not_implemented q \<and>
        (rq_last_query_ms q = 0 \<or> (refresh_ms \<noteq> 0 \<and> is_before (rq_last_query_ms q + of_nat refresh_ms) (now_ms s)))
     then do {
       (s, _) \<leftarrow> jd_service_send_cmd serv (JD_GET c reg_code) [] s;
       let q = q\<lparr>rq_last_query_ms := now_ms s\<rparr>;
       s \<leftarrow> set_query dev q s;
       Some (s, q) }
     else Some (s, q) }"

definition jd_client_process :: "'a client_scheme client_env \<Rightarrow> 'a client_scheme \<Rightarrow> 'a client_scheme option" where
  "jd_client_process e s = do {
     s \<leftarrow> EVENT_ENTER s;
     let (due, t) = jd_should_sample (now_us s) (next_gc s) 300000;
     let s = s\<lparr>next_gc := t\<rparr>;
     s \<leftarrow> (if due then jd_device_gc e s else Some s);
     s \<leftarrow> jd_client_emit_event e EV_PROCESS s;
     EVENT_LEAVE s }"

section \<open>Packets\<close>

definition jd_is_command :: "jd_frame \<Rightarrow> bool" where
  "jd_is_command pkt \<longleftrightarrow> frm_flags pkt AND JD_FRAME_FLAG_COMMAND \<noteq> 0"

definition jd_is_report :: "jd_frame \<Rightarrow> bool" where
  "jd_is_report pkt \<longleftrightarrow> \<not> jd_is_command pkt"

definition jd_is_event :: "jd_frame \<Rightarrow> bool" where
  "jd_is_event pkt \<longleftrightarrow> jd_is_report pkt \<and> pkt_service_index pkt \<le> JD_SERVICE_INDEX_MAX_NORMAL \<and>
     pkt_service_command pkt AND JD_CMD_EVENT_MASK \<noteq> 0"

text \<open>The new value of a query from the report \<open>m\<close>: what does not fit in place gets a buffer of its own.\<close>

definition store_report :: "mem \<Rightarrow> jd_register_query \<Rightarrow> jd_register_query" where
  "store_report m q =
     (if length m > JD_REGISTER_QUERY_MAX_INLINE
      then q\<lparr>rq_resp_size := length m, rq_value := Buffer m\<rparr>
      else q\<lparr>rq_resp_size := length m, rq_value :=
             (case rq_value q of Inline b \<Rightarrow> Inline (m @ drop (length m) b) | Buffer _ \<Rightarrow> Inline m)\<rparr>)"

definition report_differs :: "mem \<Rightarrow> jd_register_query \<Rightarrow> bool option" where
  "report_differs m q =
     (if rq_resp_size q \<noteq> length m then Some True
      else do {
        b \<leftarrow> jd_register_data q;
        same \<leftarrow> memeq m b (rq_resp_size q);
        Some (\<not> same) })"

definition handle_register ::
  "'a client_scheme client_env \<Rightarrow> serv_ptr \<Rightarrow> jd_frame \<Rightarrow> 'a client_scheme \<Rightarrow> 'a client_scheme option" where
  "handle_register e serv pkt s =
     (if pkt_service_size pkt \<ge> 4 \<and> pkt_service_command pkt = CMD_COMMAND_NOT_IMPLEMENTED (ce_sys e) then do {
        w \<leftarrow> rd_mem (frm_data pkt) 4 2;
        let cmd = unat (le_word w :: 16 word);
        if JD_IS_GET (ce_sys e) cmd then do {
          q \<leftarrow> jd_service_query_lookup serv (JD_REG_CODE cmd) s;
          case q of None \<Rightarrow> Some s
          | Some q \<Rightarrow>
              if jd_register_not_implemented q then Some s
              else do {
                s \<leftarrow> set_query (fst serv) (q\<lparr>rq_service_index := rq_service_index q OR 0x80\<rparr>) s;
                jd_client_emit_event e (EV_SERVICE_REGISTER_NOT_IMPLEMENTED serv (rq_addr q)) s } }
        else Some s }
      else if JD_IS_GET (ce_sys e) (pkt_service_command pkt) then do {
        q \<leftarrow> jd_service_query_lookup serv (JD_REG_CODE (pkt_service_command pkt)) s;
        case q of None \<Rightarrow> Some s
        | Some q \<Rightarrow> do {
            m \<leftarrow> rd_mem (frm_data pkt) 4 (pkt_service_size pkt);
            chg \<leftarrow> report_differs m q;
            s \<leftarrow> set_query (fst serv) (store_report m q) s;
            if chg then jd_client_emit_event e (EV_SERVICE_REGISTER_CHANGED serv (rq_addr q)) s
            else Some s } }
      else Some s)"

definition handle_announce ::
  "'a client_scheme client_env \<Rightarrow> nat option \<Rightarrow> jd_frame \<Rightarrow> 'a client_scheme \<Rightarrow> ('a client_scheme \<times> nat) option" where
  "handle_announce e dev pkt s = do {
     (s, a) \<leftarrow> (case dev of None \<Rightarrow> jd_device_alloc e pkt s | Some a \<Rightarrow> Some (s, a));
     w \<leftarrow> rd_mem (frm_data pkt) 4 2;
     let new_flags = le_word w;
     d \<leftarrow> dev_store s a;
     let steady = of_nat (ANNOUNCE_RESTART_COUNTER_STEADY (ce_ctl e));
     (s, a) \<leftarrow> (if dv_announce_flags d = new_flags then Some (s, a)
        else if dv_announce_flags d AND steady > new_flags AND steady then do {
          s \<leftarrow> jd_client_emit_event e (EV_DEVICE_RESET a pkt) s;
          s \<leftarrow> jd_device_free e a (jd_device_unlink a s);
          jd_device_alloc e pkt s }
        else Some (set_device a (d\<lparr>dv_announce_flags := new_flags\<rparr>) s, a));
     d \<leftarrow> dev_store s a;
     Some (set_device a (d\<lparr>dv_expires := now_us s + EXPIRES_USEC\<rparr>) s, a) }"

text \<open>The event counter: is the event a repeated one, and the counter afterwards.\<close>

definition event_check :: "nat \<Rightarrow> nat \<Rightarrow> bool \<times> nat" where
  "event_check cmd counter =
     (let pec = int (drop_bit JD_CMD_EVENT_COUNTER_SHIFT cmd) AND JD_CMD_EVENT_COUNTER_MASK;
          ec = (if counter = 0xff then pec - 1 else int counter) + 1;
          ahead = (pec - ec) AND JD_CMD_EVENT_COUNTER_MASK;
          behind = (ec - pec) AND JD_CMD_EVENT_COUNTER_MASK
      in if ahead > 0 \<and> (behind < 60 \<or> ahead < 5) then (True, counter) else (False, nat pec))"

definition handle_event :: "nat \<Rightarrow> jd_frame \<Rightarrow> 'a client_scheme \<Rightarrow> ('a client_scheme \<times> bool) option" where
  "handle_event a pkt s =
     (if jd_is_event pkt then do {
        d \<leftarrow> dev_store s a;
        let (rep, c) = event_check (pkt_service_command pkt) (dv_event_counter d);
        Some (set_device a (d\<lparr>dv_event_counter := c\<rparr>) s, rep) }
      else Some (s, False))"

definition is_announce :: "jd_frame \<Rightarrow> bool" where
  "is_announce pkt \<longleftrightarrow> pkt_service_index pkt = 0 \<and> pkt_service_command pkt = 0"

text \<open>A report: the state, the device and service it belongs to and whether it repeats an event.\<close>

definition handle_report ::
  "'a client_scheme client_env \<Rightarrow> nat option \<Rightarrow> serv_ptr option \<Rightarrow> jd_frame \<Rightarrow> 'a client_scheme \<Rightarrow>
   ('a client_scheme \<times> nat option \<times> serv_ptr option \<times> bool) option" where
  "handle_report e dev serv pkt s = do {
     (s, dev, serv) \<leftarrow> (if is_announce pkt then do {
          (s, a) \<leftarrow> handle_announce e dev pkt s;
          Some (s, Some a, Some (a, 0)) }
        else Some (s, dev, serv));
     case serv of None \<Rightarrow> Some (s, dev, None, False)
     | Some sp \<Rightarrow> do {
         (s, rep) \<leftarrow> handle_event (fst sp) pkt s;
         s \<leftarrow> handle_register e sp pkt s;
         Some (s, dev, Some sp, rep) } }"

definition jd_client_handle_packet ::
  "'a client_scheme client_env \<Rightarrow> jd_frame \<Rightarrow> 'a client_scheme \<Rightarrow> 'a client_scheme option" where
  "jd_client_handle_packet e pkt s = do {
     s \<leftarrow> EVENT_ENTER s;
     if flag_set pkt JD_FRAME_FLAG_IDENTIFIER_IS_SERVICE_CLASS then do {
       s \<leftarrow> jd_client_emit_event e (EV_BROADCAST_PACKET pkt) s;
       EVENT_LEAVE s }
     else do {
       dev \<leftarrow> jd_device_lookup (frm_device_identifier pkt) s;
       serv \<leftarrow> jd_device_get_service dev (pkt_service_index pkt AND JD_SERVICE_INDEX_MASK) s;
       (s, dev, serv, rep) \<leftarrow> (if flag_set pkt JD_FRAME_FLAG_COMMAND then Some (s, dev, serv, False)
          else handle_report e dev serv pkt s);
       s \<leftarrow> (case serv of
            Some sp \<Rightarrow> jd_client_emit_event e (if rep then EV_REPEATED_EVENT_PACKET sp pkt else EV_SERVICE_PACKET sp pkt) s
          | None \<Rightarrow> jd_client_emit_event e (EV_NON_SERVICE_PACKET dev pkt) s);
       EVENT_LEAVE s } }"

text \<open>\<open>memset(dst, 0, sizeof( *dst))\<close> clears the header; the payload behind it is left as it is.\<close>

definition jd_pkt_setup_broadcast :: "jd_frame \<Rightarrow> 32 word \<Rightarrow> nat \<Rightarrow> jd_frame option" where
  "jd_pkt_setup_broadcast dst service_class cmd = do {
     d \<leftarrow> wr_mem (frm_data dst) 0 (pkt_header 0 JD_SERVICE_INDEX_BROADCAST (u16 cmd));
     Some \<lparr>frm_crc = 0, frm_size = 0, frm_flags = JD_FRAME_FLAG_BROADCAST OR JD_FRAME_FLAG_COMMAND,
       frm_device_identifier = JD_DEVICE_IDENTIFIER_BROADCAST_MARK OR ucast service_class, frm_data = d\<rparr> }"


section \<open>The order of the table\<close>

lemma memcmp_eq_0: "length xs = length ys \<Longrightarrow> memcmp xs ys = 0 \<longleftrightarrow> xs = ys"
  by (induction xs ys rule: list_induct2) auto

lemma memcmp_less_iff: "length xs = length ys \<Longrightarrow> memcmp xs ys < 0 \<longleftrightarrow> memcmp ys xs > 0"
  by (induction xs ys rule: list_induct2) auto

lemma memcmp_Cons_less: "memcmp (x # xs) (y # ys) < 0 \<longleftrightarrow> x < y \<or> x = y \<and> memcmp xs ys < 0"
  by auto

lemma memcmp_less_trans:
  "length xs = length ys \<Longrightarrow> length ys = length zs \<Longrightarrow> memcmp xs ys < 0 \<Longrightarrow> memcmp ys zs < 0 \<Longrightarrow> memcmp xs zs < 0"
proof (induction xs ys arbitrary: zs rule: list_induct2)
  case (Cons x xs y ys)
  then obtain z zs' where z: "zs = z # zs'" by (cases zs) auto
  have xy: "x < y \<or> x = y \<and> memcmp xs ys < 0" and yz: "y < z \<or> y = z \<and> memcmp ys zs' < 0"
    using Cons.prems unfolding z memcmp_Cons_less by blast+
  have "memcmp xs ys < 0 \<Longrightarrow> memcmp ys zs' < 0 \<Longrightarrow> memcmp xs zs' < 0"
    using Cons.IH [of zs'] Cons.prems(1) by (simp add: z)
  then have "x < z \<or> x = z \<and> memcmp xs zs' < 0" using xy yz by (metis order.strict_trans)
  then show ?case unfolding z memcmp_Cons_less .
qed simp

text \<open>The own device comes first, the others in the order of the bytes of their identifiers.\<close>

definition dev_before :: "64 word \<Rightarrow> 64 word \<Rightarrow> 64 word \<Rightarrow> bool" where
  "dev_before self a b \<longleftrightarrow> a \<noteq> b \<and> (a = self \<or> b \<noteq> self \<and> memcmp (le_bytes 8 a) (le_bytes 8 b) < 0)"

lemma le_bytes_8_inject: "le_bytes 8 (a :: 64 word) = le_bytes 8 b \<longleftrightarrow> a = b"
proof
  assume "le_bytes 8 a = le_bytes 8 b"
  then have "(le_word (le_bytes 8 a) :: 64 word) = le_word (le_bytes 8 b)" by (rule arg_cong)
  then show "a = b" by (simp only: le_word_le_bytes_64)
qed simp

lemma bytes_less:
  fixes a b c :: "64 word"
  shows "memcmp (le_bytes 8 a) (le_bytes 8 b) < 0 \<Longrightarrow> memcmp (le_bytes 8 b) (le_bytes 8 c) < 0 \<Longrightarrow>
      memcmp (le_bytes 8 a) (le_bytes 8 c) < 0"
    and "memcmp (le_bytes 8 a) (le_bytes 8 b) < 0 \<Longrightarrow> \<not> memcmp (le_bytes 8 b) (le_bytes 8 a) < 0"
    and "a \<noteq> b \<Longrightarrow> \<not> memcmp (le_bytes 8 b) (le_bytes 8 a) < 0 \<Longrightarrow> memcmp (le_bytes 8 a) (le_bytes 8 b) < 0"
proof -
  show "memcmp (le_bytes 8 a) (le_bytes 8 b) < 0 \<Longrightarrow> memcmp (le_bytes 8 b) (le_bytes 8 c) < 0 \<Longrightarrow>
      memcmp (le_bytes 8 a) (le_bytes 8 c) < 0"
    by (rule memcmp_less_trans [of _ "le_bytes 8 b"]) simp_all
  have "memcmp (le_bytes 8 a) (le_bytes 8 b) < 0 \<longleftrightarrow> memcmp (le_bytes 8 b) (le_bytes 8 a) > 0"
    by (rule memcmp_less_iff) simp
  moreover have "memcmp (le_bytes 8 b) (le_bytes 8 a) = 0 \<longleftrightarrow> b = a"
    by (simp add: memcmp_eq_0 le_bytes_8_inject)
  ultimately show "memcmp (le_bytes 8 a) (le_bytes 8 b) < 0 \<Longrightarrow> \<not> memcmp (le_bytes 8 b) (le_bytes 8 a) < 0"
    and "a \<noteq> b \<Longrightarrow> \<not> memcmp (le_bytes 8 b) (le_bytes 8 a) < 0 \<Longrightarrow> memcmp (le_bytes 8 a) (le_bytes 8 b) < 0"
    by (linarith, metis linorder_cases)
qed

lemma dev_before_trans: "dev_before self a b \<Longrightarrow> dev_before self b c \<Longrightarrow> dev_before self a c"
  using bytes_less(1,2) unfolding dev_before_def by blast

lemma dev_before_total: "a \<noteq> b \<Longrightarrow> dev_before self a b \<or> dev_before self b a"
  using bytes_less(3) unfolding dev_before_def by blast

lemma fits_at_before: "a \<noteq> b \<Longrightarrow> fits_at self (Some b) a \<longleftrightarrow> dev_before self a b"
  by (auto simp: fits_at_def dev_before_def)

lemma sorted_before_distinct: "sorted_wrt (dev_before self) xs \<Longrightarrow> distinct xs"
  by (induction xs) (auto simp: dev_before_def)

section \<open>The invariant of the table\<close>

text \<open>What of a device the listeners and the role manager must leave alone: all but its queries and the flags of
  its services.\<close>

definition dev_frame :: "jd_device \<Rightarrow> jd_device" where
  "dev_frame d = d\<lparr>dv_queries := [], dv_services := map (\<lambda>sv. sv\<lparr>sv_flags := 0\<rparr>) (dv_services d)\<rparr>"

definition table :: "'a client_scheme \<Rightarrow> nat \<Rightarrow> jd_device option" where
  "table s = (\<lambda>a. map_option dev_frame (dev_store s a))"

definition ident :: "(nat \<Rightarrow> jd_device option) \<Rightarrow> nat \<Rightarrow> 64 word" where
  "ident T a = dv_identifier (the (T a))"

text \<open>The linked list and the store belong together; the devices \<open>X\<close> are unlinked and not yet freed.\<close>

definition table_inv :: "nat set \<Rightarrow> 64 word \<Rightarrow> nat list \<Rightarrow> (nat \<Rightarrow> jd_device option) \<Rightarrow> bool" where
  "table_inv X self l T \<longleftrightarrow> distinct l \<and> set l \<inter> X = {} \<and> dom T = set l \<union> X \<and> sorted_wrt (dev_before self) (map (ident T) l)"

definition query_ok :: "jd_register_query \<Rightarrow> bool" where
  "query_ok q \<longleftrightarrow> (case rq_value q of
      Inline b \<Rightarrow> rq_resp_size q \<le> 4 \<and> rq_resp_size q \<le> length b
    | Buffer b \<Rightarrow> rq_resp_size q > 4 \<and> length b = rq_resp_size q)"

definition dev_ok :: "nat \<Rightarrow> jd_device \<Rightarrow> bool" where
  "dev_ok bnd d \<longleftrightarrow> 0 < num_services d \<and> num_services d < 64 \<and> (\<forall>i < num_services d. sv_index (dv_services d ! i) = i) \<and>
     (dv_event_counter d = 0xff \<or> dv_event_counter d < 128) \<and>
     distinct (map rq_addr (dv_queries d)) \<and> (\<forall>q \<in> set (dv_queries d). query_ok q \<and> rq_addr q < bnd)"

definition devs_ok :: "'a client_scheme \<Rightarrow> bool" where
  "devs_ok s \<longleftrightarrow> (\<forall>a d. dev_store s a = Some d \<longrightarrow> a < next_addr s \<and> dev_ok (next_addr s) d)"

definition client_inv :: "nat set \<Rightarrow> 'a client_scheme \<Rightarrow> bool" where
  "client_inv X s \<longleftrightarrow> table_inv X (device_id s) (jd_devices s) (table s) \<and> devs_ok s"

definition query_addrs :: "'a client_scheme \<Rightarrow> nat \<Rightarrow> nat set" where
  "query_addrs s a = (case dev_store s a of None \<Rightarrow> {} | Some d \<Rightarrow> rq_addr ` set (dv_queries d))"

definition same_table :: "'a client_scheme \<Rightarrow> 'a client_scheme \<Rightarrow> bool" where
  "same_table s t \<longleftrightarrow> jd_devices t = jd_devices s \<and> device_id t = device_id s \<and> now_us t = now_us s \<and>
     table t = table s \<and> (\<forall>a. query_addrs s a \<subseteq> query_addrs t a)"

lemma same_table_refl [simp]: "same_table s s"
  by (simp add: same_table_def)

lemma same_table_trans: "same_table s t \<Longrightarrow> same_table t u \<Longrightarrow> same_table s u"
  by (fastforce simp: same_table_def)

lemma dev_frame_fields [simp]:
  "dv_identifier (dev_frame d) = dv_identifier d" "dv_expires (dev_frame d) = dv_expires d"
  "dv_event_counter (dev_frame d) = dv_event_counter d" "dv_announce_flags (dev_frame d) = dv_announce_flags d"
  "num_services (dev_frame d) = num_services d"
  by (simp_all add: dev_frame_def num_services_def)

lemma table_SomeD: "table s = table t \<Longrightarrow> dev_store s a = Some d \<Longrightarrow> \<exists>d'. dev_store t a = Some d' \<and> dev_frame d' = dev_frame d"
proof -
  assume eq: "table s = table t" and d: "dev_store s a = Some d"
  from eq have "table s a = table t a" by (rule fun_cong)
  then show ?thesis using d by (cases "dev_store t a") (auto simp: table_def)
qed

lemma frame_eqD:
  assumes "dev_frame d' = dev_frame d"
  shows "dv_identifier d' = dv_identifier d" "dv_expires d' = dv_expires d" "num_services d' = num_services d"
    "dv_event_counter d' = dv_event_counter d" "dv_announce_flags d' = dv_announce_flags d"
  using arg_cong [OF assms, of dv_identifier] arg_cong [OF assms, of dv_expires] arg_cong [OF assms, of num_services]
    arg_cong [OF assms, of dv_event_counter] arg_cong [OF assms, of dv_announce_flags] by simp_all

lemma dom_table: "dom (table s) = dom (dev_store s)"
  by (auto simp: table_def)

lemma ident_table: "dev_store s a = Some d \<Longrightarrow> ident (table s) a = dv_identifier d"
  by (simp add: ident_def table_def)

lemma client_inv_dom: "client_inv X s \<Longrightarrow> dev_store s a \<noteq> None \<longleftrightarrow> a \<in> set (jd_devices s) \<or> a \<in> X"
  using dom_table [of s] by (auto simp: client_inv_def table_inv_def)

subsection \<open>Linking and unlinking\<close>

lemma sorted_wrt_remove1: "sorted_wrt P (map f xs) \<Longrightarrow> sorted_wrt P (map f (remove1 a xs))"
  by (induction xs) (auto dest: notin_set_remove1 [of _ _ a, rotated])

lemma table_inv_unlink:
  assumes "table_inv X self l T" "a \<in> set l"
  shows "table_inv (insert a X) self (remove1 a l) T"
  using assms sorted_wrt_remove1 [of "dev_before self" "ident T" l a] by (auto simp: table_inv_def)

lemma table_inv_free:
  assumes "table_inv (insert a X) self l T" "a \<notin> X"
  shows "table_inv X self l (T(a := None))"
proof -
  have "map (ident (T(a := None))) l = map (ident T) l"
    using assms(1) by (auto simp: table_inv_def ident_def)
  then show ?thesis using assms unfolding table_inv_def by (auto simp del: map_eq_conv)
qed

lemma link_device_ok:
  assumes "set l \<subseteq> dom st" "sorted_wrt (dev_before self) (map (ident st) l)" "fresh \<notin> ident st ` set l"
  shows "\<exists>xs ys. l = xs @ ys \<and> link_device self st a fresh l = Some (xs @ a # ys) \<and>
    (\<forall>x \<in> set xs. dev_before self (ident st x) fresh) \<and> (\<forall>y \<in> set ys. dev_before self fresh (ident st y))"
  using assms
proof (induction l)
  case (Cons q l)
  then obtain d where d: "st q = Some d" by auto
  then have q: "ident st q = dv_identifier d" "fresh \<noteq> dv_identifier d" using Cons.prems(3) by (auto simp: ident_def)
  show ?case
  proof (cases "fits_at self (Some (dv_identifier d)) fresh")
    case True
    then have "dev_before self fresh (ident st q)" using fits_at_before [OF q(2)] q(1) by simp
    then have "\<forall>y \<in> set (q # l). dev_before self fresh (ident st y)"
      using Cons.prems(2) dev_before_trans by auto
    then show ?thesis using True d by (intro exI [of _ "[]"] exI [of _ "q # l"]) simp
  next
    case False
    then have "dev_before self (ident st q) fresh"
      using fits_at_before [OF q(2)] dev_before_total [OF q(2)] q(1) by auto
    moreover obtain xs ys where "l = xs @ ys" "link_device self st a fresh l = Some (xs @ a # ys)"
      "\<forall>x \<in> set xs. dev_before self (ident st x) fresh" "\<forall>y \<in> set ys. dev_before self fresh (ident st y)"
      using Cons by auto
    ultimately show ?thesis using False d by (intro exI [of _ "q # xs"] exI [of _ ys]) simp
  qed
qed simp

lemma table_inv_link:
  assumes "table_inv X self (xs @ ys) T" "a \<notin> dom T" "dv_identifier d = fresh"
    "\<forall>x \<in> set xs. dev_before self (ident T x) fresh" "\<forall>y \<in> set ys. dev_before self fresh (ident T y)"
  shows "table_inv X self (xs @ a # ys) (T(a \<mapsto> d))"
proof -
  let ?T = "T(a \<mapsto> d)"
  have notin: "a \<notin> set xs" "a \<notin> set ys" "a \<notin> X" using assms(1,2) by (auto simp: table_inv_def)
  then have "map (ident ?T) xs = map (ident T) xs" "map (ident ?T) ys = map (ident T) ys" "ident ?T a = fresh"
    using assms(3) by (auto simp: ident_def)
  then have "sorted_wrt (dev_before self) (map (ident ?T) (xs @ a # ys))"
    using assms(1,4,5) by (simp add: table_inv_def sorted_wrt_append del: map_eq_conv)
  then show ?thesis using assms(1) notin unfolding table_inv_def by (auto simp del: map_eq_conv)
qed

subsection \<open>Lookup\<close>

lemma device_lookup_in_ok:
  assumes "set l \<subseteq> dom st"
  shows "device_lookup_in st i l = Some (find (\<lambda>a. ident st a = i) l)"
  using assms
proof (induction l)
  case (Cons p l)
  then obtain d where "st p = Some d" by auto
  with Cons show ?case by (auto simp: ident_def)
qed simp

lemma ident_store: "ident (dev_store s) a = ident (table s) a" if "a \<in> dom (dev_store s)"
  using that by (auto simp: ident_def table_def)

lemma jd_device_lookup_cases:
  assumes "client_inv X s"
  shows "(\<exists>a d. jd_device_lookup i s = Some (Some a) \<and> a \<in> set (jd_devices s) \<and> dev_store s a = Some d \<and> dv_identifier d = i) \<or>
    jd_device_lookup i s = Some None \<and> i \<notin> ident (table s) ` set (jd_devices s)"
proof -
  have sub: "set (jd_devices s) \<subseteq> dom (dev_store s)" using client_inv_dom [OF assms] by auto
  then have eq: "jd_device_lookup i s = Some (find (\<lambda>a. ident (dev_store s) a = i) (jd_devices s))"
    by (simp add: jd_device_lookup_def device_lookup_in_ok)
  show ?thesis
  proof (cases "find (\<lambda>a. ident (dev_store s) a = i) (jd_devices s)")
    case None
    then show ?thesis using eq sub ident_store by (force simp: find_None_iff)
  next
    case (Some a)
    then have "a \<in> set (jd_devices s)" "ident (dev_store s) a = i" by (auto simp: find_Some_iff)
    then show ?thesis using eq Some sub by (force simp: ident_def)
  qed
qed

subsection \<open>Writing to devices\<close>

lemma set_device_upd [simp]:
  "event_scope (set_device a d s) = event_scope s" "now_us (set_device a d s) = now_us s" "device_id (set_device a d s) = device_id s"
  "jd_devices (set_device a d s) = jd_devices s" "next_addr (set_device a d s) = next_addr s"
  by (simp_all add: set_device_def)

lemma table_set_device: "table (set_device a d s) = (table s)(a \<mapsto> dev_frame d)"
  by (auto simp: table_def set_device_def)

lemma client_inv_set_device:
  assumes "client_inv X s" "dev_store s a = Some d" "dv_identifier d' = dv_identifier d" "dev_ok (next_addr s) d'"
  shows "client_inv X (set_device a d' s)"
proof -
  let ?T = "(table s)(a \<mapsto> dev_frame d')"
  have "ident ?T b = ident (table s) b" for b using assms(2,3) by (simp add: ident_def table_def)
  then have "ident ?T = ident (table s)" by auto
  moreover have "dom ?T = dom (table s)" using assms(2) by (auto simp: table_def)
  ultimately have "table_inv X (device_id s) (jd_devices s) ?T"
    using assms(1) by (simp add: client_inv_def table_inv_def)
  moreover have "devs_ok (set_device a d' s)"
    using assms by (auto simp: client_inv_def devs_ok_def set_device_def)
  ultimately show ?thesis by (simp add: client_inv_def table_set_device)
qed

lemma client_inv_dev_ok: "client_inv X s \<Longrightarrow> dev_store s a = Some d \<Longrightarrow> dev_ok (next_addr s) d"
  by (auto simp: client_inv_def devs_ok_def)

lemma client_inv_upd [simp]:
  "client_inv X (s\<lparr>event_scope := n\<rparr>) = client_inv X s" "client_inv X (s\<lparr>next_gc := g\<rparr>) = client_inv X s"
  by (simp_all add: client_inv_def devs_ok_def table_def)

lemma service_at_iff:
  "service_at sp s \<noteq> None \<longleftrightarrow> (\<exists>d. dev_store s (fst sp) = Some d \<and> snd sp < num_services d)"
  by (auto simp: service_at_def split: bind_splits)

lemma service_at_index:
  assumes "client_inv X s" "service_at sp s = Some sv"
  shows "sv_index sv = snd sp" "jd_service_parent sp s = Some (fst sp)"
proof -
  obtain d where "dev_store s (fst sp) = Some d" "snd sp < num_services d" "sv = dv_services d ! snd sp"
    using assms(2) by (auto simp: service_at_def split: bind_splits if_splits)
  then show "sv_index sv = snd sp" using client_inv_dev_ok [OF assms(1)] by (auto simp: dev_ok_def)
  with assms(2) show "jd_service_parent sp s = Some (fst sp)" by (simp add: jd_service_parent_def)
qed

subsection \<open>Valid arguments of events\<close>

text \<open>\<open>EV_ROLE_CHANGED\<close> is not an event of this file; the role manager raises it.\<close>

definition event_valid :: "client_event \<Rightarrow> 'a client_scheme \<Rightarrow> bool" where
  "event_valid ev s \<longleftrightarrow>
     (case ev of
        EV_DEVICE_CREATED a _ \<Rightarrow> dev_store s a \<noteq> None
      | EV_DEVICE_DESTROYED a \<Rightarrow> dev_store s a \<noteq> None
      | EV_DEVICE_RESET a _ \<Rightarrow> dev_store s a \<noteq> None
      | EV_SERVICE_PACKET sp _ \<Rightarrow> service_at sp s \<noteq> None
      | EV_NON_SERVICE_PACKET dev _ \<Rightarrow> (\<forall>a. dev = Some a \<longrightarrow> dev_store s a \<noteq> None)
      | EV_BROADCAST_PACKET _ \<Rightarrow> True
      | EV_REPEATED_EVENT_PACKET sp _ \<Rightarrow> service_at sp s \<noteq> None
      | EV_SERVICE_REGISTER_CHANGED sp q \<Rightarrow> service_at sp s \<noteq> None \<and> q \<in> query_addrs s (fst sp)
      | EV_SERVICE_REGISTER_NOT_IMPLEMENTED sp q \<Rightarrow> service_at sp s \<noteq> None \<and> q \<in> query_addrs s (fst sp)
      | EV_PROCESS \<Rightarrow> True
      | EV_ROLE_CHANGED _ _ \<Rightarrow> False)"

lemma same_table_store:
  assumes "same_table s t"
  shows "dev_store t a \<noteq> None \<longleftrightarrow> dev_store s a \<noteq> None" "service_at sp t \<noteq> None \<longleftrightarrow> service_at sp s \<noteq> None"
proof -
  have eq: "table t = table s" using assms by (simp add: same_table_def)
  show "dev_store t a \<noteq> None \<longleftrightarrow> dev_store s a \<noteq> None"
    using fun_cong [OF eq, of a] by (cases "dev_store s a"; cases "dev_store t a") (simp_all add: table_def)
  show "service_at sp t \<noteq> None \<longleftrightarrow> service_at sp s \<noteq> None"
    unfolding service_at_iff
    using table_SomeD [OF eq, of "fst sp"] table_SomeD [OF eq [symmetric], of "fst sp"] frame_eqD(3) by metis
qed

lemma event_valid_same:
  assumes "event_valid ev s" "same_table s t"
  shows "event_valid ev t"
proof -
  have "query_addrs s a \<subseteq> query_addrs t a" for a using assms(2) by (simp add: same_table_def)
  then show ?thesis
    using assms(1) same_table_store [OF assms(2)]
    by (cases ev) (auto simp: event_valid_def)
qed

lemma event_valid_logged:
  assumes "event_valid ev s" "client_inv X s"
  shows "jd_client_log_event ev s = Some ()"
proof -
  have "jd_service_parent sp s \<noteq> None" if "service_at sp s \<noteq> None" for sp
    using that service_at_index(2) [OF assms(2), of sp] by auto
  then show ?thesis using assms(1) by (auto simp: jd_client_log_event_def event_valid_def split: client_event.splits)
qed

lemma event_valid_upd [simp]: "event_valid ev (s\<lparr>event_scope := n\<rparr>) = event_valid ev s"
  by (cases ev) (simp_all add: event_valid_def service_at_def query_addrs_def)

lemma same_table_upd [simp]:
  "same_table s (t\<lparr>event_scope := n\<rparr>) = same_table s t" "same_table (s\<lparr>event_scope := n\<rparr>) t = same_table s t"
  "same_table s (t\<lparr>next_gc := g\<rparr>) = same_table s t" "same_table (s\<lparr>next_gc := g\<rparr>) t = same_table s t"
  by (simp_all add: same_table_def table_def query_addrs_def)

section \<open>What the client core asks of those who keep pointers into the table\<close>

text \<open>
  Listeners and the role manager are called with events; the role manager keeps pointers to services.  \<open>Inv\<close> is
  what they maintain of their own state, \<open>unref a\<close> says that they have no pointer into the device \<open>a\<close>.  They may
  call back into the query functions, but must not change the table; \<open>device_destroyed\<close> must give up all pointers
  into the device.  In return the core changes only its own variables, adds devices whose services have no
  flags, and frees a device only when nothing points to it.
\<close>

definition same_services :: "'a client_scheme \<Rightarrow> 'a client_scheme \<Rightarrow> bool" where
  "same_services s t \<longleftrightarrow> client.more t = client.more s \<and> jd_client_listeners t = jd_client_listeners s \<and>
     next_addr s \<le> next_addr t \<and> (\<forall>a. map_option dv_services (dev_store t a) = map_option dv_services (dev_store s a))"

locale client_hooks =
  fixes e :: "'a client_scheme client_env"
    and Inv :: "'a client_scheme \<Rightarrow> bool"
    and unref :: "nat \<Rightarrow> 'a client_scheme \<Rightarrow> bool"
  assumes listener:
      "client_inv X s \<Longrightarrow> Inv s \<Longrightarrow> event_scope s = 0 \<Longrightarrow> event_valid ev s \<Longrightarrow>
        \<exists>t. listener_call e l ev s = Some t \<and> client_inv X t \<and> Inv t \<and> event_scope t = 0 \<and> same_table s t \<and>
          (\<forall>a. unref a s \<longrightarrow> unref a t)"
    and destroyed:
      "client_inv X s \<Longrightarrow> Inv s \<Longrightarrow> event_scope s = 0 \<Longrightarrow> dev_store s a \<noteq> None \<Longrightarrow>
        \<exists>t. device_destroyed e a s = Some t \<and> client_inv X t \<and> Inv t \<and> event_scope t = 0 \<and> same_table s t \<and>
          unref a t"
    and Inv_core: "Inv s \<Longrightarrow> same_services s t \<Longrightarrow> Inv t"
    and unref_core: "unref a s \<Longrightarrow> same_services s t \<Longrightarrow> unref a t"
    and Inv_alloc: "Inv s \<Longrightarrow> dev_store s a = None \<Longrightarrow> \<forall>sv \<in> set (dv_services d). sv_flags sv = 0 \<Longrightarrow> Inv (set_device a d s)"
    and Inv_free: "Inv s \<Longrightarrow> unref a s \<Longrightarrow> Inv (s\<lparr>dev_store := (dev_store s)(a := None)\<rparr>)"
begin

definition good :: "nat set \<Rightarrow> 'a client_scheme \<Rightarrow> bool" where
  "good X s \<longleftrightarrow> client_inv X s \<and> Inv s \<and> event_scope s = 1"

definition keeps :: "'a client_scheme \<Rightarrow> 'a client_scheme \<Rightarrow> bool" where
  "keeps s t \<longleftrightarrow> same_table s t \<and> (\<forall>a. unref a s \<longrightarrow> unref a t)"

lemma keeps_refl [simp]: "keeps s s"
  by (simp add: keeps_def)

lemma keeps_trans: "keeps s t \<Longrightarrow> keeps t u \<Longrightarrow> keeps s u"
  using same_table_trans by (auto simp: keeps_def)

lemma scope_core [simp]: "Inv (s\<lparr>event_scope := n\<rparr>) = Inv s" "unref a (s\<lparr>event_scope := n\<rparr>) = unref a s"
proof -
  have "same_services s (s\<lparr>event_scope := n\<rparr>)" "same_services (s\<lparr>event_scope := n\<rparr>) s"
    by (simp_all add: same_services_def)
  then show "Inv (s\<lparr>event_scope := n\<rparr>) = Inv s" "unref a (s\<lparr>event_scope := n\<rparr>) = unref a s"
    using Inv_core unref_core by blast+
qed

lemma listeners_ok:
  assumes "client_inv X s" "Inv s" "event_scope s = 0" "event_valid ev s"
  shows "\<exists>t. foldM (\<lambda>l. listener_call e l ev) ls s = Some t \<and> client_inv X t \<and> Inv t \<and> event_scope t = 0 \<and> keeps s t"
  using assms
proof (induction ls arbitrary: s)
  case (Cons l ls)
  obtain t where t: "listener_call e l ev s = Some t" "client_inv X t" "Inv t" "event_scope t = 0" "keeps s t"
    using listener [OF Cons.prems, of l] unfolding keeps_def by blast
  moreover have "event_valid ev t" using event_valid_same Cons.prems(4) t(5) by (auto simp: keeps_def)
  ultimately show ?case using Cons.IH [of t] keeps_trans [OF t(5)] by auto
qed simp

lemma emit_ok:
  assumes "good X s" "event_valid ev s"
  shows "\<exists>t. jd_client_emit_event e ev s = Some t \<and> good X t \<and> keeps s t"
proof -
  let ?s = "s\<lparr>event_scope := 0\<rparr>"
  have pre: "client_inv X ?s" "Inv ?s" "event_scope ?s = 0" "event_valid ev ?s"
    using assms by (simp_all add: good_def)
  obtain t where t: "foldM (\<lambda>l. listener_call e l ev) (jd_client_listeners s) ?s = Some t" "client_inv X t" "Inv t"
    "event_scope t = 0" "keeps ?s t"
    using listeners_ok [OF pre] by blast
  moreover have "jd_client_log_event ev ?s = Some ()" using event_valid_logged pre by blast
  ultimately have "jd_client_emit_event e ev s = Some (t\<lparr>event_scope := 1\<rparr>)"
    using assms(1) by (simp add: jd_client_emit_event_def EVENT_LEAVE_def EVENT_ENTER_def good_def jd_assert_def)
  moreover have "keeps s (t\<lparr>event_scope := 1\<rparr>)" using t(5) by (simp add: keeps_def)
  ultimately show ?thesis using t by (simp add: good_def)
qed

text \<open>Freeing an unlinked device.\<close>

lemma free_ok:
  assumes "good (insert a X) s" "a \<notin> X"
  shows "\<exists>t. jd_device_free e a s = Some t \<and> good X t \<and> jd_devices t = jd_devices s \<and> device_id t = device_id s \<and>
    now_us t = now_us s \<and> table t = (table s)(a := None)"
proof -
  let ?s = "s\<lparr>event_scope := 0\<rparr>"
  have st: "dev_store ?s a \<noteq> None" using assms(1) client_inv_dom [of "insert a X" s a] by (simp add: good_def)
  obtain t where t: "device_destroyed e a ?s = Some t" "client_inv (insert a X) t" "Inv t" "event_scope t = 0"
    "same_table ?s t" "unref a t"
    using destroyed [of "insert a X" ?s a] st assms(1) by (auto simp: good_def)
  let ?t = "t\<lparr>event_scope := 1\<rparr>"
  have "good (insert a X) ?t" using t by (simp add: good_def)
  moreover have "event_valid (EV_DEVICE_DESTROYED a) ?t"
    using st same_table_store(1) [OF t(5), of a] by (simp add: event_valid_def)
  ultimately obtain u where u: "jd_client_emit_event e (EV_DEVICE_DESTROYED a) ?t = Some u" "good (insert a X) u" "keeps ?t u"
    using emit_ok by blast
  have uu: "unref a u" "same_table t u" using u(3) t(6) by (simp_all add: keeps_def)
  obtain d where d: "dev_store u a = Some d"
    using st same_table_store(1) [OF t(5), of a] same_table_store(1) [OF uu(2), of a] by auto
  define v where "v = set_device a (d\<lparr>dv_queries := []\<rparr>) u"
  have v: "jd_device_clear_queries a 0xff u = Some v" using d by (simp add: jd_device_clear_queries_def v_def)
  have eqs: "jd_devices u = jd_devices s" "device_id u = device_id s" "now_us u = now_us s" "table u = table s"
    using t(5) uu(2) by (simp_all add: same_table_def table_def)
  let ?w = "v\<lparr>dev_store := (dev_store v)(a := None)\<rparr>"
  have tw: "table ?w = (table s)(a := None)" unfolding eqs(4) [symmetric] by (auto simp: table_def v_def set_device_def)
  have "same_services u v" using d by (auto simp: same_services_def v_def set_device_def)
  then have "Inv v" "unref a v" using Inv_core unref_core u(2) uu(1) by (auto simp: good_def)
  then have "Inv ?w" by (rule Inv_free)
  moreover have "client_inv X ?w"
  proof -
    have "table_inv X (device_id s) (jd_devices s) (table ?w)"
      unfolding tw using table_inv_free [OF _ assms(2)] assms(1) by (simp add: good_def client_inv_def)
    moreover have "devs_ok ?w" using u(2) by (auto simp: good_def client_inv_def devs_ok_def v_def set_device_def)
    ultimately show ?thesis using eqs by (simp add: client_inv_def v_def set_device_def)
  qed
  moreover have "jd_device_free e a s = Some ?w"
    using assms(1) t u v by (simp add: jd_device_free_def EVENT_LEAVE_def EVENT_ENTER_def good_def)
  moreover have "event_scope ?w = 1" using u(2) by (simp add: v_def set_device_def good_def)
  ultimately show ?thesis using eqs tw by (simp add: good_def v_def set_device_def)
qed

end

section \<open>Garbage collection\<close>

definition expired :: "'a client_scheme \<Rightarrow> nat \<Rightarrow> bool" where
  "expired s a \<longleftrightarrow> in_past (now_us s) (dv_expires (the (table s a)))"

text \<open>What the two loops of \<open>jd_device_gc\<close> leave: the first removes a prefix, the second looks at the successor of
  each device it visits, and after a removal goes on to the device behind the removed one without looking at it.\<close>

fun gc_skip :: "('a \<Rightarrow> bool) \<Rightarrow> 'a list \<Rightarrow> 'a list" where
  "gc_skip P [] = []"
| "gc_skip P [p] = [p]"
| "gc_skip P (p # q # r) = (if P q then p # gc_skip P r else p # gc_skip P (q # r))"

definition gc_list :: "('a \<Rightarrow> bool) \<Rightarrow> 'a list \<Rightarrow> 'a list" where
  "gc_list P l = gc_skip P (dropWhile P l)"

lemma set_gc_skip: "set (gc_skip P l) \<subseteq> set l" "\<lbrakk>x \<in> set l; \<not> P x\<rbrakk> \<Longrightarrow> x \<in> set (gc_skip P l)"
  by (induction P l rule: gc_skip.induct) auto

lemma filter_gc_list: "filter (\<lambda>x. \<not> P x) (gc_list P l) = filter (\<lambda>x. \<not> P x) l"
proof -
  have "filter (\<lambda>x. \<not> P x) (gc_skip P k) = filter (\<lambda>x. \<not> P x) k" for k
    by (induction P k rule: gc_skip.induct) auto
  moreover have "filter (\<lambda>x. \<not> P x) (dropWhile P l) = filter (\<lambda>x. \<not> P x) l" by (induction l) auto
  ultimately show ?thesis by (simp add: gc_list_def)
qed

lemma length_gc_skip: "length (gc_skip P l) \<le> length l"
  by (induction P l rule: gc_skip.induct) auto

lemma gc_list_progress:
  assumes "\<exists>x \<in> set l. P x"
  shows "length (gc_list P l) < length l"
proof (cases "\<exists>x xs. l = x # xs \<and> P x")
  case True
  then show ?thesis
    using length_gc_skip [of P "dropWhile P l"] length_dropWhile_le [of P "tl l"] by (auto simp: gc_list_def)
next
  case False
  then have l: "dropWhile P l = l" by (cases l) auto
  have "length (gc_skip P (p # k)) < length (p # k)" if "\<exists>x \<in> set k. P x" for p k
    using that
  proof (induction P "p # k" arbitrary: p k rule: gc_skip.induct)
    case (3 P p q r)
    then show ?case using length_gc_skip [of P r] by (auto simp: le_imp_less_Suc)
  qed simp_all
  then show ?thesis using assms l False by (cases l) (auto simp: gc_list_def)
qed

lemma next_in_append: "a \<notin> set pre \<Longrightarrow> next_in (pre @ a # l) a = Some (first_in l)"
  by (induction pre) (auto simp: first_in_def split: list.splits)

context client_hooks
begin

lemma unlink_ok:
  assumes "good X s" "a \<in> set (jd_devices s)"
  shows "good (insert a X) (s\<lparr>jd_devices := remove1 a (jd_devices s)\<rparr>)"
proof -
  let ?s = "s\<lparr>jd_devices := remove1 a (jd_devices s)\<rparr>"
  have t: "table ?s = table s" by (simp add: table_def)
  have "same_services s ?s" by (simp add: same_services_def)
  then have "Inv ?s" using Inv_core assms(1) by (auto simp: good_def)
  moreover have "devs_ok ?s" using assms(1) by (simp add: good_def client_inv_def devs_ok_def)
  ultimately show ?thesis
    using table_inv_unlink [OF _ assms(2)] assms(1) t by (simp add: good_def client_inv_def)
qed

text \<open>Unlinking and freeing together.\<close>

lemma remove_ok:
  assumes "good {} s" "a \<in> set (jd_devices s)"
  shows "\<exists>t. jd_device_free e a (s\<lparr>jd_devices := remove1 a (jd_devices s)\<rparr>) = Some t \<and> good {} t \<and>
    jd_devices t = remove1 a (jd_devices s) \<and> now_us t = now_us s \<and> device_id t = device_id s \<and> table t = (table s)(a := None)"
  using free_ok [OF unlink_ok [OF assms]] by (auto simp: table_def)

lemma good_distinct: "good {} s \<Longrightarrow> distinct (jd_devices s)" "good {} s \<Longrightarrow> dom (table s) = set (jd_devices s)"
  by (simp_all add: good_def client_inv_def table_inv_def)

lemma good_store: "good {} s \<Longrightarrow> a \<in> set (jd_devices s) \<Longrightarrow> \<exists>d. dev_store s a = Some d"
  using client_inv_dom [of "{}" s a] by (auto simp: good_def)

definition gc_result :: "'a client_scheme \<Rightarrow> nat list \<Rightarrow> 'a client_scheme \<Rightarrow> bool" where
  "gc_result s l t \<longleftrightarrow> good {} t \<and> jd_devices t = l \<and> now_us t = now_us s \<and> device_id t = device_id s \<and> table t = table s |` set l"

lemma gc_result_trans: "gc_result s l t \<Longrightarrow> gc_result t k u \<Longrightarrow> set k \<subseteq> set l \<Longrightarrow> gc_result s k u"
  by (auto simp: gc_result_def Int_absorb1)

lemma remove_result:
  assumes "good {} s" "a \<in> set (jd_devices s)" "jd_device_free e a (s\<lparr>jd_devices := remove1 a (jd_devices s)\<rparr>) = Some t"
  shows "gc_result s (remove1 a (jd_devices s)) t"
proof -
  have "table t = (table s)(a := None)" "good {} t" "jd_devices t = remove1 a (jd_devices s)" "now_us t = now_us s"
    "device_id t = device_id s"
    using remove_ok [OF assms(1,2)] assms(3) by auto
  moreover have "(table s)(a := None) = table s |` set (remove1 a (jd_devices s))"
    using good_distinct [OF assms(1)] by (fastforce simp: restrict_map_def dom_def)
  ultimately show ?thesis by (simp add: gc_result_def)
qed

lemma good_result: "good {} s \<Longrightarrow> gc_result s (jd_devices s) s"
proof -
  assume g: "good {} s"
  have "table s |` dom (table s) = table s" by (auto simp: restrict_map_def dom_def)
  then show ?thesis using g good_distinct(2) [OF g] by (simp add: gc_result_def)
qed

lemma gc_head_ok:
  assumes "good {} s" "\<forall>a \<in> set (jd_devices s). expired s a = P a"
  shows "\<exists>t. gc_head e s = Some t \<and> gc_result s (dropWhile P (jd_devices s)) t"
  using assms
proof (induction "jd_devices s" arbitrary: s)
  case Nil
  then show ?case using good_result [of s] by (subst gc_head.simps) (simp split: list.splits)
next
  case (Cons p rest)
  obtain d where d: "dev_store s p = Some d" using good_store Cons.prems(1) Cons.hyps(2) by (metis list.set_intros(1))
  have exp: "in_past (now_us s) (dv_expires d) = P p"
    using Cons.prems(2) d by (simp add: Cons.hyps(2) [symmetric] expired_def table_def)
  show ?case
  proof (cases "P p")
    case False
    then show ?thesis using d exp Cons.hyps(2) good_result [OF Cons.prems(1)]
      by (subst gc_head.simps) (simp add: Cons.hyps(2) [symmetric])
  next
    case True
    have rest: "remove1 p (jd_devices s) = rest" and mem: "p \<in> set (jd_devices s)"
      using Cons.hyps(2) [symmetric] by simp_all
    obtain t where t: "jd_device_free e p (s\<lparr>jd_devices := rest\<rparr>) = Some t"
      using remove_ok [OF Cons.prems(1) mem] rest by auto
    have r: "gc_result s rest t" using remove_result [OF Cons.prems(1) mem] rest t by simp
    then have tab: "good {} t" "jd_devices t = rest" by (simp_all add: gc_result_def)
    have "expired t a = P a" if "a \<in> set rest" for a
      using that r Cons.prems(2) Cons.hyps(2) [symmetric] by (auto simp: expired_def gc_result_def)
    then obtain u where u: "gc_head e t = Some u" "gc_result t (dropWhile P rest) u"
      using Cons.hyps(1) [of t] tab by auto
    moreover have "gc_head e s = Some u"
      using d exp True t u(1) by (subst gc_head.simps) (simp add: Cons.hyps(2) [symmetric])
    ultimately show ?thesis
      using gc_result_trans [OF r u(2)] True set_dropWhileD [of _ P rest] Cons.hyps(2) [symmetric] by fastforce
  qed
qed

lemma gc_rest_ok:
  assumes "good {} s" "jd_devices s = pre @ l" "\<forall>a \<in> set l. expired s a = P a"
  shows "\<exists>t. gc_rest e (first_in l) s = Some t \<and> gc_result s (pre @ gc_skip P l) t"
  using assms
proof (induction P l arbitrary: s pre rule: gc_skip.induct)
  case (1 P)
  then show ?case using good_result [of s] by (subst gc_rest.simps) (simp add: first_in_def)
next
  case (2 P p)
  moreover have "next_in (pre @ [p]) p = Some None"
    using good_distinct(1) [OF 2(1)] 2(2) next_in_append [of p pre "[]"] by (simp add: first_in_def)
  ultimately show ?case using good_result [of s] by (subst gc_rest.simps) (simp add: first_in_def)
next
  case (3 P p q r)
  have dist: "distinct (pre @ p # q # r)" using good_distinct(1) [OF "3.prems"(1)] "3.prems"(2) by simp
  have mem: "q \<in> set (jd_devices s)" and nx: "next_in (jd_devices s) p = Some (Some q)"
    using "3.prems"(2) next_in_append [of p pre "q # r"] dist by (auto simp: first_in_def)
  obtain d where d: "dev_store s q = Some d" using good_store "3.prems"(1) mem by blast
  have exp: "in_past (now_us s) (dv_expires d) = P q"
    using "3.prems"(3) d by (auto simp: expired_def table_def)
  show ?case
  proof (cases "P q")
    case True
    have rm: "remove1 q (jd_devices s) = pre @ p # r"
      using dist "3.prems"(2) by (simp add: remove1_append)
    obtain t where t: "jd_device_free e q (s\<lparr>jd_devices := pre @ p # r\<rparr>) = Some t"
      using remove_ok [OF "3.prems"(1) mem] rm by auto
    have res: "gc_result s (pre @ p # r) t" using remove_result [OF "3.prems"(1) mem] rm t by simp
    have ex: "expired t a = P a" if "a \<in> set r" for a
      using that res "3.prems"(3) by (auto simp: expired_def gc_result_def)
    have "good {} t" "jd_devices t = (pre @ [p]) @ r" using res by (simp_all add: gc_result_def)
    then obtain u where u: "gc_rest e (first_in r) t = Some u" "gc_result t ((pre @ [p]) @ gc_skip P r) u"
      using "3.IH"(1) [OF True, of t "pre @ [p]"] ex by blast
    have "next_in (jd_devices t) p = Some (first_in r)"
      using res next_in_append [of p pre r] dist by (simp add: gc_result_def)
    then have "gc_rest e (first_in (p # q # r)) s = Some u"
      using nx d exp True t u(1) rm by (subst gc_rest.simps) (simp add: first_in_def)
    moreover have "gc_result s ((pre @ [p]) @ gc_skip P r) u"
      by (rule gc_result_trans [OF res u(2)]) (use set_gc_skip(1) [of P r] in auto)
    ultimately show ?thesis using True by simp
  next
    case False
    obtain u where u: "gc_rest e (first_in (q # r)) s = Some u" "gc_result s ((pre @ [p]) @ gc_skip P (q # r)) u"
      using "3.IH"(2) [OF False, of s "pre @ [p]"] "3.prems" by auto
    then have "gc_rest e (first_in (p # q # r)) s = Some u"
      using nx d exp False by (subst gc_rest.simps) (simp add: first_in_def)
    then show ?thesis using u(2) False by simp
  qed
qed

lemma gc_ok:
  assumes "good {} s"
  shows "\<exists>t. jd_device_gc e s = Some t \<and> gc_result s (gc_list (expired s) (jd_devices s)) t"
proof -
  obtain t where t: "gc_head e s = Some t" "gc_result s (dropWhile (expired s) (jd_devices s)) t"
    using gc_head_ok [OF assms] by blast
  have "expired t a = expired s a" if "a \<in> set (jd_devices t)" for a
    using that t(2) by (auto simp: expired_def gc_result_def)
  moreover have "good {} t" "jd_devices t = dropWhile (expired s) (jd_devices s)" using t(2) by (simp_all add: gc_result_def)
  ultimately obtain u where u: "gc_rest e (first_in (jd_devices t)) t = Some u"
    "gc_result t ([] @ gc_skip (expired s) (jd_devices t)) u"
    using gc_rest_ok [of t "[]" "jd_devices t" "expired s"] by auto
  let ?l = "gc_list (expired s) (jd_devices s)"
  have l: "gc_skip (expired s) (jd_devices t) = ?l" using t(2) by (simp add: gc_list_def gc_result_def)
  have "gc_result s ?l u"
    by (rule gc_result_trans [OF t(2)]) (use u(2) l in \<open>simp_all add: gc_list_def set_gc_skip(1)\<close>)
  then show ?thesis using t(1) u(1) by (simp add: jd_device_gc_def)
qed

end

section \<open>Announcements\<close>

text \<open>A packet whose payload is inside the memory of the frame; an announcement has at least the flags.\<close>

definition pkt_ok :: "jd_frame \<Rightarrow> bool" where
  "pkt_ok p \<longleftrightarrow> 8 \<le> length (frm_data p) \<and> 4 + pkt_service_size p \<le> length (frm_data p) \<and>
     (is_announce p \<longrightarrow> 4 \<le> pkt_service_size p)"

lemma pkt_service_size_less: "pkt_service_size p < 256"
  using unsigned_less [of "frm_data p ! 0", where 'a = nat] by (simp add: pkt_service_size_def)

lemma new_device_ok:
  assumes "pkt_ok p" "is_announce p"
  shows "\<exists>d. new_device p now = Some d \<and> dv_identifier d = frm_device_identifier p \<and> num_services d = pkt_service_size p div 4 \<and>
    dv_announce_flags d = le_word (take 2 (drop 4 (frm_data p))) \<and> dv_queries d = [] \<and> dv_event_counter d = 0xff \<and>
    dev_ok bnd d \<and> (\<forall>sv \<in> set (dv_services d). sv_flags sv = 0)"
proof -
  let ?n = "pkt_service_size p div 4"
  have "4 * ?n \<le> pkt_service_size p" by simp
  then have rd: "4 \<le> length (frm_data p) - 4" "4 + 4 * ?n \<le> length (frm_data p)" using assms unfolding pkt_ok_def by linarith+
  have "?n < 64" "0 < ?n" using pkt_service_size_less [of p] assms by (auto simp: pkt_ok_def div_greater_zero_iff)
  with rd assms show ?thesis
    by (auto simp: new_device_def Let_def rd_mem_def pkt_ok_def dev_ok_def num_services_def announced_service_def min_def)
qed

context client_hooks
begin

lemma alloc_ok:
  assumes "good {} s" "frm_device_identifier p \<notin> ident (table s) ` set (jd_devices s)" "pkt_ok p" "is_announce p"
  shows "\<exists>t d. jd_device_alloc e p s = Some (t, next_addr s) \<and> good {} t \<and> now_us t = now_us s \<and> device_id t = device_id s \<and>
    next_addr s \<in> set (jd_devices t) \<and> new_device p (now_us s) = Some d \<and> table t = (table s)(next_addr s \<mapsto> dev_frame d)"
proof -
  let ?a = "next_addr s"
  obtain d where d: "new_device p (now_us s) = Some d" "dv_identifier d = frm_device_identifier p"
    "dev_ok (?a + 1) d" "\<forall>sv \<in> set (dv_services d). sv_flags sv = 0"
    using new_device_ok [OF assms(3,4)] by blast
  have tab: "table_inv {} (device_id s) (jd_devices s) (table s)" and inv: "client_inv {} s" "Inv s" "event_scope s = 1"
    using assms(1) by (simp_all add: good_def client_inv_def)
  have dom: "set (jd_devices s) = dom (dev_store s)" using tab dom_table [of s] by (simp add: table_inv_def)
  have id: "map (ident (dev_store s)) (jd_devices s) = map (ident (table s)) (jd_devices s)"
    using ident_store dom by auto
  have fresh: "dev_store s ?a = None" using inv(1) by (cases "dev_store s ?a") (auto simp: client_inv_def devs_ok_def)
  obtain xs ys where l: "jd_devices s = xs @ ys"
    "link_device (device_id s) (dev_store s) ?a (dv_identifier d) (jd_devices s) = Some (xs @ ?a # ys)"
    "\<forall>x \<in> set xs. dev_before (device_id s) (ident (dev_store s) x) (dv_identifier d)"
    "\<forall>y \<in> set ys. dev_before (device_id s) (dv_identifier d) (ident (dev_store s) y)"
    using link_device_ok [of "jd_devices s" "dev_store s" "device_id s" "dv_identifier d" ?a] dom tab assms(2) d(2) id
    by (auto simp: table_inv_def simp del: map_eq_conv) (metis list.set_map)+
  define t where "t = (set_device ?a d s)\<lparr>jd_devices := xs @ ?a # ys, next_addr := ?a + 1\<rparr>"
  have tt: "table t = (table s)(?a \<mapsto> dev_frame d)" by (auto simp: t_def table_def set_device_def)
  have sub: "set xs \<subseteq> dom (dev_store s)" "set ys \<subseteq> dom (dev_store s)" using dom l(1) by auto
  have "table_inv {} (device_id s) (xs @ ?a # ys) (table t)" unfolding tt
  proof (rule table_inv_link [of _ _ _ _ _ _ _ "dv_identifier d"])
    show "table_inv {} (device_id s) (xs @ ys) (table s)" using tab l(1) by simp
    show "?a \<notin> dom (table s)" using fresh by (simp add: dom_table domIff)
    show "\<forall>x \<in> set xs. dev_before (device_id s) (ident (table s) x) (dv_identifier d)" using l(3) sub ident_store by fastforce
    show "\<forall>y \<in> set ys. dev_before (device_id s) (dv_identifier d) (ident (table s) y)" using l(4) sub ident_store by fastforce
  qed simp
  moreover have "devs_ok t" using inv(1) d(3) by (fastforce simp: client_inv_def devs_ok_def t_def set_device_def dev_ok_def)
  moreover have "Inv t"
  proof -
    have "Inv (set_device ?a d s)" using Inv_alloc [OF inv(2) fresh d(4)] .
    moreover have "same_services (set_device ?a d s) t" by (simp add: same_services_def t_def)
    ultimately show ?thesis by (rule Inv_core)
  qed
  ultimately have "good {} t" using inv(3) by (simp add: good_def client_inv_def t_def set_device_def)
  moreover have "event_valid (EV_DEVICE_CREATED ?a p) t" by (simp add: event_valid_def t_def set_device_def)
  ultimately obtain u where u: "jd_client_emit_event e (EV_DEVICE_CREATED ?a p) t = Some u" "good {} u" "keeps t u"
    using emit_ok by blast
  then have "jd_device_alloc e p s = Some (u, ?a)" using d(1) l(2) by (simp add: jd_device_alloc_def t_def)
  moreover have "now_us u = now_us s" "device_id u = device_id s" "jd_devices u = xs @ ?a # ys" "table u = table t"
    using u(3) by (simp_all add: keeps_def same_table_def t_def set_device_def)
  ultimately show ?thesis using u(2) d(1) tt by auto
qed

end

section \<open>Packets\<close>

lemma query_okD:
  assumes "query_ok q"
  obtains b where "jd_register_data q = Some b" "rq_resp_size q \<le> length b"
  using assms
  by (cases "rq_value q") (auto simp: query_ok_def jd_register_data_def JD_REGISTER_QUERY_MAX_INLINE_def)

lemma memeq_total: "n \<le> length a \<Longrightarrow> n \<le> length b \<Longrightarrow> memeq a b n = Some (take n a = take n b)"
proof (induction n arbitrary: a b)
  case (Suc n)
  then show ?case by (cases a; cases b) auto
qed simp

text \<open>The value a query reports to its readers.\<close>

definition reg_content :: "jd_register_query \<Rightarrow> mem option" where
  "reg_content q = map_option (take (rq_resp_size q)) (jd_register_data q)"

lemma query_ok_index [simp]: "query_ok (q\<lparr>rq_service_index := i\<rparr>) = query_ok q"
  by (cases "rq_value q") (simp_all add: query_ok_def)

lemma report_differs_ok:
  assumes "query_ok q"
  shows "report_differs m q = Some (reg_content q \<noteq> Some m)"
proof -
  obtain b where b: "jd_register_data q = Some b" "rq_resp_size q \<le> length b" using query_okD [OF assms] .
  then show ?thesis by (auto simp: report_differs_def reg_content_def memeq_total)
qed

lemma store_report_ok:
  shows "query_ok (store_report m q)" "reg_content (store_report m q) = Some m" "rq_addr (store_report m q) = rq_addr q"
    "rq_reg_code (store_report m q) = rq_reg_code q" "rq_service_index (store_report m q) = rq_service_index q"
  by (cases "rq_value q";
      simp add: store_report_def query_ok_def reg_content_def jd_register_data_def JD_REGISTER_QUERY_MAX_INLINE_def)+

lemma dev_ok_set_query:
  assumes "dev_ok bnd d" "query_ok q" "q0 \<in> set (dv_queries d)" "rq_addr q0 = rq_addr q"
  shows "dev_ok bnd (d\<lparr>dv_queries := map (\<lambda>p. if rq_addr p = rq_addr q then q else p) (dv_queries d)\<rparr>)"
proof -
  have "map rq_addr (map (\<lambda>p. if rq_addr p = rq_addr q then q else p) (dv_queries d)) = map rq_addr (dv_queries d)"
    by simp
  then show ?thesis using assms by (auto simp: dev_ok_def num_services_def simp del: map_map)
qed

lemma set_query_ok:
  assumes "client_inv X s" "dev_store s a = Some d" "q0 \<in> set (dv_queries d)" "rq_addr q0 = rq_addr q" "query_ok q"
  shows "\<exists>t. set_query a q s = Some t \<and> client_inv X t \<and> same_table s t \<and> same_services s t \<and> event_scope t = event_scope s \<and>
    rq_addr q \<in> query_addrs t a \<and>
    t = set_device a (d\<lparr>dv_queries := map (\<lambda>p. if rq_addr p = rq_addr q then q else p) (dv_queries d)\<rparr>) s"
proof -
  let ?d = "d\<lparr>dv_queries := map (\<lambda>p. if rq_addr p = rq_addr q then q else p) (dv_queries d)\<rparr>"
  have "client_inv X (set_device a ?d s)"
    using client_inv_set_device [OF assms(1,2), of ?d] dev_ok_set_query [OF client_inv_dev_ok [OF assms(1,2)] assms(5,3,4)]
    by simp
  moreover have "same_services s (set_device a ?d s)" using assms(2) by (auto simp: same_services_def set_device_def)
  moreover have "table (set_device a ?d s) = table s" using assms(2) by (auto simp: table_def set_device_def dev_frame_def)
  moreover have "query_addrs (set_device a ?d s) = query_addrs s"
    using assms(2) by (auto simp: query_addrs_def set_device_def fun_eq_iff image_iff) metis+
  moreover have "rq_addr q \<in> query_addrs s a" using assms(2) imageI [OF assms(3), of rq_addr] assms(4) by (simp add: query_addrs_def)
  ultimately show ?thesis using assms(2) by (simp add: set_query_def same_table_def)
qed

lemma query_lookup_ok:
  assumes "client_inv X s" "service_at sp s \<noteq> None"
  shows "\<exists>d. dev_store s (fst sp) = Some d \<and> jd_service_query_lookup sp reg s = Some (find (is_query_for reg (snd sp)) (dv_queries d))"
proof -
  obtain sv where "service_at sp s = Some sv" using assms(2) by auto
  then show ?thesis
    using service_at_index [OF assms(1)] assms(2) unfolding service_at_iff by (auto simp: jd_service_query_lookup_def)
qed

lemma find_SomeD: "find P xs = Some x \<Longrightarrow> x \<in> set xs \<and> P x"
  by (auto simp: find_Some_iff)

context client_hooks
begin

lemma core_step:
  assumes "good X s" "client_inv X t" "same_services s t" "event_scope t = event_scope s" "same_table s t"
  shows "good X t" "keeps s t"
  using assms Inv_core unref_core by (auto simp: good_def keeps_def)

lemma handle_register_ok:
  assumes "good X s" "service_at sp s \<noteq> None" "pkt_ok p"
  shows "\<exists>t. handle_register e sp p s = Some t \<and> good X t \<and> keeps s t"
proof -
  have inv: "client_inv X s" using assms(1) by (simp add: good_def)
  have rd: "\<exists>w. rd_mem (frm_data p) 4 2 = Some w" "\<exists>m. rd_mem (frm_data p) 4 (pkt_service_size p) = Some m"
    using assms(3) by (auto simp: rd_mem_def pkt_ok_def)
  have upd: "\<exists>t. set_query (fst sp) q' s = Some t \<and> good X t \<and> keeps s t \<and>
      event_valid (EV_SERVICE_REGISTER_CHANGED sp (rq_addr q)) t \<and> event_valid (EV_SERVICE_REGISTER_NOT_IMPLEMENTED sp (rq_addr q)) t"
    if q: "dev_store s (fst sp) = Some d" "q \<in> set (dv_queries d)" "rq_addr q' = rq_addr q" "query_ok q'" for d q q'
  proof -
    obtain t where t: "set_query (fst sp) q' s = Some t" "client_inv X t" "same_table s t" "same_services s t"
      "event_scope t = event_scope s" "rq_addr q' \<in> query_addrs t (fst sp)"
      using set_query_ok [OF inv q(1,2), of q'] q(3,4) by auto
    moreover have "service_at sp t \<noteq> None" using same_table_store(2) [OF t(3)] assms(2) by simp
    ultimately show ?thesis using core_step [OF assms(1) t(2,4,5,3)] q(3) by (auto simp: event_valid_def)
  qed
  have emit: "\<exists>u. jd_client_emit_event e ev t = Some u \<and> good X u \<and> keeps s u" if "good X t" "keeps s t" "event_valid ev t" for ev t
    using emit_ok [OF that(1,3)] keeps_trans [OF that(2)] by blast
  have ok: "query_ok q" if "dev_store s a = Some d" "q \<in> set (dv_queries d)" for a d q
    using client_inv_dev_ok [OF inv that(1)] that(2) by (auto simp: dev_ok_def)
  have look: "jd_service_query_lookup sp reg s = Some None \<or>
      (\<exists>d q. dev_store s (fst sp) = Some d \<and> q \<in> set (dv_queries d) \<and> query_ok q \<and> jd_service_query_lookup sp reg s = Some (Some q))" for reg
    using query_lookup_ok [OF inv assms(2), of reg] ok find_SomeD by (metis option.exhaust)
  show ?thesis
  proof (cases "pkt_service_size p \<ge> 4 \<and> pkt_service_command p = CMD_COMMAND_NOT_IMPLEMENTED (ce_sys e)")
    case True
    obtain w where w: "rd_mem (frm_data p) 4 2 = Some w" using rd(1) by blast
    from look [of "JD_REG_CODE (unat (le_word w :: 16 word))"] show ?thesis
    proof (elim disjE exE conjE)
      fix d q assume q: "dev_store s (fst sp) = Some d" "q \<in> set (dv_queries d)" "query_ok q"
        "jd_service_query_lookup sp (JD_REG_CODE (unat (le_word w :: 16 word))) s = Some (Some q)"
      let ?q = "q\<lparr>rq_service_index := rq_service_index q OR 0x80\<rparr>"
      have "query_ok ?q" using q(3) by simp
      then obtain t where "set_query (fst sp) ?q s = Some t" "good X t" "keeps s t"
        "event_valid (EV_SERVICE_REGISTER_NOT_IMPLEMENTED sp (rq_addr q)) t"
        using upd [OF q(1,2), of ?q] by auto
      then show ?thesis using emit True w q(4) assms(1) by (auto simp: handle_register_def Let_def)
    qed (use True w assms(1) in \<open>auto simp: handle_register_def Let_def\<close>)
  next
    case False
    obtain m where m: "rd_mem (frm_data p) 4 (pkt_service_size p) = Some m" using rd(2) by blast
    from look [of "JD_REG_CODE (pkt_service_command p)"] show ?thesis
    proof (elim disjE exE conjE)
      fix d q assume q: "dev_store s (fst sp) = Some d" "q \<in> set (dv_queries d)" "query_ok q"
        "jd_service_query_lookup sp (JD_REG_CODE (pkt_service_command p)) s = Some (Some q)"
      obtain t where "set_query (fst sp) (store_report m q) s = Some t" "good X t" "keeps s t"
        "event_valid (EV_SERVICE_REGISTER_CHANGED sp (rq_addr q)) t"
        using upd [OF q(1,2), of "store_report m q"] store_report_ok by auto
      then show ?thesis using emit False m q(4) report_differs_ok [OF q(3)] assms(1) by (auto simp: handle_register_def)
    qed (use False m assms(1) in \<open>auto simp: handle_register_def\<close>)
  qed
qed

end

subsection \<open>The event counter\<close>

lemma and_7f: "x AND 0x7f = x mod 128" for x :: int
  using take_bit_eq_mask [of 7 x] by (simp add: take_bit_eq_mod mask_eq_exp_minus_1)

lemma event_check_range: "snd (event_check cmd c) < 128 \<or> snd (event_check cmd c) = c"
proof -
  have "nat (int (drop_bit 8 cmd) mod 128) < 128" by (simp add: nat_less_iff)
  then show ?thesis by (auto simp: event_check_def Let_def JD_CMD_EVENT_COUNTER_MASK_def JD_CMD_EVENT_COUNTER_SHIFT_def and_7f)
qed

lemma service_at_set_device:
  "dev_store s a = Some d \<Longrightarrow> dv_services d' = dv_services d \<Longrightarrow> service_at sp (set_device a d' s) = service_at sp s"
  by (auto simp: service_at_def set_device_def num_services_def)

context client_hooks
begin

lemma write_ok:
  assumes "good X s" "dev_store s a = Some d" "dv_identifier d' = dv_identifier d" "dev_ok (next_addr s) d'"
    "dv_services d' = dv_services d"
  shows "good X (set_device a d' s)"
proof -
  have "same_services s (set_device a d' s)" using assms(2,5) by (auto simp: same_services_def set_device_def)
  then show ?thesis using assms client_inv_set_device [of X s a d d'] Inv_core by (auto simp: good_def)
qed

lemma handle_event_ok:
  assumes "good X s" "dev_store s a \<noteq> None"
  shows "\<exists>t rep. handle_event a p s = Some (t, rep) \<and> good X t \<and> (\<forall>sp. service_at sp t = service_at sp s)"
proof (cases "jd_is_event p")
  case True
  obtain d where d: "dev_store s a = Some d" using assms(2) by auto
  obtain rep c where c: "event_check (pkt_service_command p) (dv_event_counter d) = (rep, c)" by fastforce
  have ok: "dev_ok (next_addr s) d" using client_inv_dev_ok assms(1) d by (auto simp: good_def)
  then have "dev_ok (next_addr s) (d\<lparr>dv_event_counter := c\<rparr>)"
    using event_check_range [of "pkt_service_command p" "dv_event_counter d"] c by (auto simp: dev_ok_def num_services_def)
  then have "good X (set_device a (d\<lparr>dv_event_counter := c\<rparr>) s)" using write_ok [OF assms(1) d] by simp
  then show ?thesis using True d c service_at_set_device [OF d] by (simp add: handle_event_def)
qed (use assms in \<open>auto simp: handle_event_def\<close>)

lemma ident_distinct: "good {} s \<Longrightarrow> distinct (map (ident (table s)) (jd_devices s))"
  using sorted_before_distinct by (auto simp: good_def client_inv_def table_inv_def)

text \<open>A device that has been reset is removed and entered again.\<close>

lemma reset_ok:
  assumes "good {} s" "dev_store s a = Some d" "frm_device_identifier p = dv_identifier d" "pkt_ok p" "is_announce p"
  shows "\<exists>u t b. jd_client_emit_event e (EV_DEVICE_RESET a p) s = Some u \<and>
    do { v \<leftarrow> jd_device_free e a (jd_device_unlink a u); jd_device_alloc e p v } = Some (t, b) \<and> good {} t \<and>
    b \<in> set (jd_devices t)"
proof -
  obtain u where u: "jd_client_emit_event e (EV_DEVICE_RESET a p) s = Some u" "good {} u" "keeps s u"
    using emit_ok [OF assms(1), of "EV_DEVICE_RESET a p"] assms(2) by (auto simp: event_valid_def)
  have "a \<in> set (jd_devices s)" using assms(1,2) client_inv_dom [of "{}" s a] by (auto simp: good_def)
  then have mem: "a \<in> set (jd_devices u)" using u(3) by (simp add: keeps_def same_table_def)
  have id: "ident (table u) a = frm_device_identifier p"
    using u(3) ident_table [OF assms(2)] assms(3) by (simp add: keeps_def same_table_def)
  obtain v where v: "jd_device_free e a (jd_device_unlink a u) = Some v" "good {} v"
    "jd_devices v = remove1 a (jd_devices u)" "table v = (table u)(a := None)"
    using remove_ok [OF u(2) mem] by (auto simp: jd_device_unlink_def)
  have "ident (table u) b \<noteq> frm_device_identifier p" if "b \<in> set (jd_devices u)" "b \<noteq> a" for b
    using ident_distinct [OF u(2)] that mem id by (auto simp: distinct_map inj_on_def)
  then have "frm_device_identifier p \<notin> ident (table v) ` set (jd_devices v)"
    using v(3,4) good_distinct(1) [OF u(2)] by (fastforce simp: ident_def)
  from alloc_ok [OF v(2) this assms(4,5)] show ?thesis using u(1) v(1) by auto
qed

lemma handle_announce_ok:
  assumes "good {} s" "pkt_ok p" "is_announce p" "jd_device_lookup (frm_device_identifier p) s = Some dev"
  shows "\<exists>t a. handle_announce e dev p s = Some (t, a) \<and> good {} t \<and> service_at (a, 0) t \<noteq> None"
proof -
  have inv: "client_inv {} s" using assms(1) by (simp add: good_def)
  have fin: "\<exists>d. dev_store t a = Some d \<and> good {} (set_device a (d\<lparr>dv_expires := x\<rparr>) t) \<and>
      service_at (a, 0) (set_device a (d\<lparr>dv_expires := x\<rparr>) t) \<noteq> None"
    if t: "good {} t" "a \<in> set (jd_devices t)" for t a x
  proof -
    obtain d where d: "dev_store t a = Some d" using good_store [OF t] by blast
    then have "dev_ok (next_addr t) d" using client_inv_dev_ok t(1) by (auto simp: good_def)
    then have "dev_ok (next_addr t) (d\<lparr>dv_expires := x\<rparr>)" "0 < num_services d" by (simp_all add: dev_ok_def num_services_def)
    moreover then have "service_at (a, 0) t \<noteq> None" using d unfolding service_at_iff by simp
    ultimately show ?thesis
      using write_ok [OF t(1) d, of "d\<lparr>dv_expires := x\<rparr>"] d service_at_set_device [OF d, of "d\<lparr>dv_expires := x\<rparr>" "(a, 0)"]
      by simp
  qed
  obtain t0 a where t0: "(case dev of None \<Rightarrow> jd_device_alloc e p s | Some a \<Rightarrow> Some (s, a)) = Some (t0, a)"
    "good {} t0" "a \<in> set (jd_devices t0)" "ident (table t0) a = frm_device_identifier p"
  proof (cases dev)
    case None
    then have "frm_device_identifier p \<notin> ident (table s) ` set (jd_devices s)"
      using jd_device_lookup_cases [OF inv, of "frm_device_identifier p"] assms(4) by auto
    from alloc_ok [OF assms(1) this assms(2,3)] obtain t d where t: "jd_device_alloc e p s = Some (t, next_addr s)" "good {} t"
      "next_addr s \<in> set (jd_devices t)" "new_device p (now_us s) = Some d" "table t = (table s)(next_addr s \<mapsto> dev_frame d)" by auto
    moreover have "dv_identifier d = frm_device_identifier p" using new_device_ok [OF assms(2,3), of "now_us s"] t(4) by auto
    ultimately show ?thesis using that None by (simp add: ident_def)
  next
    case (Some a)
    then show ?thesis
      using jd_device_lookup_cases [OF inv, of "frm_device_identifier p"] assms(1,4) that [of s a] ident_table [of s a] by auto
  qed
  obtain d where d: "dev_store t0 a = Some d" using good_store [OF t0(2,3)] by blast
  then have idd: "frm_device_identifier p = dv_identifier d" using t0(4) ident_table [OF d] by simp
  obtain w where w: "rd_mem (frm_data p) 4 2 = Some w" using assms(2) by (auto simp: rd_mem_def pkt_ok_def)
  have flags: "good {} (set_device a (d\<lparr>dv_announce_flags := f\<rparr>) t0)" for f
    by (rule write_ok [OF t0(2) d]) (use client_inv_dev_ok [OF _ d] t0(2) in \<open>auto simp: good_def dev_ok_def num_services_def\<close>)
  let ?new = "le_word w" and ?steady = "of_nat (ANNOUNCE_RESTART_COUNTER_STEADY (ce_ctl e))"
  obtain t1 b where t1: "(if dv_announce_flags d = ?new then Some (t0, a)
        else if dv_announce_flags d AND ?steady > ?new AND ?steady then do {
          s \<leftarrow> jd_client_emit_event e (EV_DEVICE_RESET a p) t0;
          s \<leftarrow> jd_device_free e a (jd_device_unlink a s);
          jd_device_alloc e p s }
        else Some (set_device a (d\<lparr>dv_announce_flags := ?new\<rparr>) t0, a)) = Some (t1, b)" "good {} t1" "b \<in> set (jd_devices t1)"
    using reset_ok [OF t0(2) d idd assms(2,3)] flags [of ?new] t0(2,3) by (fastforce split: if_splits)
  obtain d1 where "dev_store t1 b = Some d1" "good {} (set_device b (d1\<lparr>dv_expires := now_us t1 + EXPIRES_USEC\<rparr>) t1)"
    "service_at (b, 0) (set_device b (d1\<lparr>dv_expires := now_us t1 + EXPIRES_USEC\<rparr>) t1) \<noteq> None"
    using fin [OF t1(2,3)] by blast
  then show ?thesis using t0(1) w d t1(1) by (simp add: handle_announce_def Let_def)
qed

end

context client_hooks
begin

lemma handle_report_ok:
  assumes "good {} s" "pkt_ok p" "jd_device_lookup (frm_device_identifier p) s = Some dev"
    "\<forall>a. dev = Some a \<longrightarrow> dev_store s a \<noteq> None" "\<forall>sp. serv = Some sp \<longrightarrow> service_at sp s \<noteq> None"
  shows "\<exists>t dev' serv' rep. handle_report e dev serv p s = Some (t, dev', serv', rep) \<and> good {} t \<and>
    (\<forall>sp. serv' = Some sp \<longrightarrow> service_at sp t \<noteq> None) \<and>
    (\<forall>a. serv' = None \<longrightarrow> dev' = Some a \<longrightarrow> dev_store t a \<noteq> None)"
proof -
  have rest: "\<exists>t rep. do { (s, rep) \<leftarrow> handle_event (fst sp) p t0; s \<leftarrow> handle_register e sp p s; Some (s, dev1, Some sp, rep) } =
      Some (t, dev1, Some sp, rep) \<and> good {} t \<and> service_at sp t \<noteq> None"
    if pre: "good {} t0" "service_at sp t0 \<noteq> None" for t0 sp and dev1 :: "nat option"
  proof -
    have "dev_store t0 (fst sp) \<noteq> None" using pre(2) unfolding service_at_iff by auto
    then obtain t1 rep where t1: "handle_event (fst sp) p t0 = Some (t1, rep)" "good {} t1" "service_at sp t1 = service_at sp t0"
      using handle_event_ok [OF pre(1), of "fst sp" p] by blast
    then obtain t where t: "handle_register e sp p t1 = Some t" "good {} t" "keeps t1 t"
      using handle_register_ok [OF t1(2) _ assms(2), of sp] pre(2) by auto
    moreover have "service_at sp t \<noteq> None"
      using same_table_store(2) [of t1 t sp] t(3) t1(3) pre(2) unfolding keeps_def by simp
    ultimately show ?thesis using t1(1) by simp
  qed
  show ?thesis
  proof (cases "is_announce p")
    case True
    obtain t0 a where t0: "handle_announce e dev p s = Some (t0, a)" "good {} t0" "service_at (a, 0) t0 \<noteq> None"
      using handle_announce_ok [OF assms(1,2) True assms(3)] by blast
    show ?thesis using rest [OF t0(2,3), of "Some a"] True t0(1) by (auto simp: handle_report_def)
  next
    case False
    show ?thesis
    proof (cases serv)
      case None
      then show ?thesis using False assms(1,4) by (auto simp: handle_report_def)
    next
      case (Some sp)
      then show ?thesis using rest [OF assms(1), of sp dev] assms(5) False by (auto simp: handle_report_def)
    qed
  qed
qed

lemma leave_ok: "good X s \<Longrightarrow> \<exists>t. EVENT_LEAVE s = Some t \<and> client_inv X t \<and> Inv t \<and> event_scope t = 0"
  by (simp add: good_def EVENT_LEAVE_def)

lemma handle_packet_ok:
  assumes "client_inv {} s" "Inv s" "event_scope s = 0" "pkt_ok p"
  shows "\<exists>t. jd_client_handle_packet e p s = Some t \<and> client_inv {} t \<and> Inv t \<and> event_scope t = 0"
proof -
  let ?s = "s\<lparr>event_scope := 1\<rparr>"
  have g: "good {} ?s" using assms by (simp add: good_def)
  have enter: "EVENT_ENTER s = Some ?s" using assms(3) by (simp add: EVENT_ENTER_def)
  have emit: "\<exists>t. do { s \<leftarrow> jd_client_emit_event e ev u; EVENT_LEAVE s } = Some t \<and> client_inv {} t \<and> Inv t \<and> event_scope t = 0"
    if "good {} u" "event_valid ev u" for u ev
    using emit_ok [OF that] leave_ok by fastforce
  show ?thesis
  proof (cases "flag_set p JD_FRAME_FLAG_IDENTIFIER_IS_SERVICE_CLASS")
    case True
    then show ?thesis using emit [OF g, of "EV_BROADCAST_PACKET p"] enter
      by (simp add: jd_client_handle_packet_def event_valid_def)
  next
    case False
    obtain dev where dev: "jd_device_lookup (frm_device_identifier p) ?s = Some dev" "\<forall>a. dev = Some a \<longrightarrow> dev_store ?s a \<noteq> None"
      using jd_device_lookup_cases [of "{}" ?s "frm_device_identifier p"] g by (auto simp: good_def)
    obtain serv where serv: "jd_device_get_service dev (pkt_service_index p AND JD_SERVICE_INDEX_MASK) ?s = Some serv"
      "\<forall>sp. serv = Some sp \<longrightarrow> service_at sp ?s \<noteq> None"
    proof (cases dev)
      case (Some a)
      then obtain d where "dev_store ?s a = Some d" using dev(2) by auto
      then show ?thesis using that Some unfolding service_at_iff by (auto simp: jd_device_get_service_def)
    qed (use that in \<open>simp add: jd_device_get_service_def\<close>)
    obtain t dev' serv' rep where t: "(if flag_set p JD_FRAME_FLAG_COMMAND then Some (?s, dev, serv, False)
          else handle_report e dev serv p ?s) = Some (t, dev', serv', rep)" "good {} t"
      "\<forall>sp. serv' = Some sp \<longrightarrow> service_at sp t \<noteq> None" "\<forall>a. serv' = None \<longrightarrow> dev' = Some a \<longrightarrow> dev_store t a \<noteq> None"
      using handle_report_ok [OF g assms(4) dev serv(2)] g dev(2) serv(2) by (cases "flag_set p JD_FRAME_FLAG_COMMAND") auto
    let ?ev = "case serv' of Some sp \<Rightarrow> if rep then EV_REPEATED_EVENT_PACKET sp p else EV_SERVICE_PACKET sp p
      | None \<Rightarrow> EV_NON_SERVICE_PACKET dev' p"
    have "event_valid ?ev t" using t(3,4) by (cases serv') (simp_all add: event_valid_def)
    then obtain u where "do { s \<leftarrow> jd_client_emit_event e ?ev t; EVENT_LEAVE s } = Some u" "client_inv {} u" "Inv u" "event_scope u = 0"
      using emit [OF t(2)] by blast
    moreover have "jd_client_handle_packet e p s = do { s \<leftarrow> jd_client_emit_event e ?ev t; EVENT_LEAVE s }"
      using False enter dev(1) serv(1) t(1) by (cases serv'; cases "flag_set p JD_FRAME_FLAG_COMMAND") (auto simp: jd_client_handle_packet_def)
    ultimately show ?thesis by auto
  qed
qed

lemma process_ok:
  assumes "client_inv {} s" "Inv s" "event_scope s = 0"
  shows "\<exists>t. jd_client_process e s = Some t \<and> client_inv {} t \<and> Inv t \<and> event_scope t = 0"
proof -
  obtain due g where dg: "jd_should_sample (now_us s) (next_gc s) 300000 = (due, g)" by fastforce
  let ?s = "s\<lparr>event_scope := 1, next_gc := g\<rparr>"
  have "same_services s ?s" by (simp add: same_services_def)
  then have good: "good {} ?s" using assms Inv_core by (auto simp: good_def)
  obtain t where t: "(if due then jd_device_gc e ?s else Some ?s) = Some t" "good {} t"
    using gc_ok [OF good] good by (cases due) (auto simp: gc_result_def)
  obtain u where u: "jd_client_emit_event e EV_PROCESS t = Some u" "good {} u"
    using emit_ok [OF t(2), of EV_PROCESS] by (auto simp: event_valid_def)
  obtain v where "EVENT_LEAVE u = Some v" "client_inv {} v" "Inv v" "event_scope v = 0" using leave_ok [OF u(2)] by blast
  then show ?thesis using dg t(1) u(1) assms(3) by (cases due) (simp_all add: jd_client_process_def EVENT_ENTER_def Let_def)
qed

end

end
