(* ===== verification/Jd_Seen.thy ===== *)
theory Jd_Seen
  imports Jd_Client
begin

text \<open>
  What a listener of the client sees: the events of a device once each and in the order of their numbers, and the
  reports of registers through the cache.
\<close>

section \<open>A recording listener\<close>

text \<open>A listener that records what it is told and does nothing else; \<open>seen\<close> is the record.\<close>

definition recording :: "'a client_scheme client_env \<Rightarrow> ('a client_scheme \<Rightarrow> client_event list) \<Rightarrow> bool" where
  "recording e seen \<longleftrightarrow> (\<forall>l ev s. \<exists>t. listener_call e l ev s = Some t \<and> seen t = seen s @ [ev] \<and> dev_store t = dev_store s \<and>
       jd_devices t = jd_devices s \<and> device_id t = device_id s \<and> now_us t = now_us s \<and> next_addr t = next_addr s \<and>
       event_scope t = event_scope s \<and> jd_client_listeners t = jd_client_listeners s) \<and>
     (\<forall>s st. seen (s\<lparr>dev_store := st\<rparr>) = seen s) \<and> (\<forall>s n. seen (s\<lparr>event_scope := n\<rparr>) = seen s)"

definition core_same :: "'a client_scheme \<Rightarrow> 'a client_scheme \<Rightarrow> bool" where
  "core_same s t \<longleftrightarrow> dev_store t = dev_store s \<and> jd_devices t = jd_devices s \<and> device_id t = device_id s \<and> now_us t = now_us s \<and>
     next_addr t = next_addr s \<and> jd_client_listeners t = jd_client_listeners s"

lemma emit_recorded:
  assumes "recording e seen" "jd_client_listeners s = [l]" "event_scope s = 1" "client_inv X s" "event_valid ev s"
  obtains t where "jd_client_emit_event e ev s = Some t" "seen t = seen s @ [ev]" "event_scope t = 1" "core_same s t"
proof -
  let ?s = "s\<lparr>event_scope := 0\<rparr>"
  have "\<exists>t. listener_call e l ev ?s = Some t \<and> seen t = seen ?s @ [ev] \<and> dev_store t = dev_store ?s \<and>
      jd_devices t = jd_devices ?s \<and> device_id t = device_id ?s \<and> now_us t = now_us ?s \<and> next_addr t = next_addr ?s \<and>
      event_scope t = event_scope ?s \<and> jd_client_listeners t = jd_client_listeners ?s"
    using assms(1) unfolding recording_def by blast
  then obtain t where t: "listener_call e l ev ?s = Some t" "seen t = seen ?s @ [ev]" "event_scope t = 0" "core_same s t"
    by (auto simp: core_same_def)
  have "jd_client_log_event ev ?s = Some ()" using event_valid_logged [of ev ?s X] assms(4,5) by simp
  then have "jd_client_emit_event e ev s = Some (t\<lparr>event_scope := 1\<rparr>)"
    using assms(2,3) t(1,3) by (simp add: jd_client_emit_event_def EVENT_LEAVE_def EVENT_ENTER_def jd_assert_def)
  moreover have "seen (t\<lparr>event_scope := 1\<rparr>) = seen s @ [ev]" using t(2) assms(1) by (simp add: recording_def)
  ultimately show ?thesis using that t(4) by (simp add: core_same_def)
qed

lemma recorded_upd:
  assumes "recording e seen"
  shows "seen (s\<lparr>event_scope := n\<rparr>) = seen s" "seen (set_device a d s) = seen s"
  using assms by (auto simp: recording_def set_device_def)

lemma core_same_inv: "core_same s t \<Longrightarrow> client_inv X t = client_inv X s"
  by (simp add: core_same_def client_inv_def devs_ok_def table_def)

section \<open>Events arrive once and in order\<close>

text \<open>The number an event carries is the low seven bits of its position in the sequence of the sender.\<close>

definition numbered :: "nat \<Rightarrow> jd_frame \<Rightarrow> bool" where
  "numbered n p \<longleftrightarrow> jd_is_event p \<and> drop_bit JD_CMD_EVENT_COUNTER_SHIFT (pkt_service_command p) mod 128 = n mod 128"

text \<open>
  The sender repeats an event only while fewer than 60 events have passed and is fewer than five events ahead of
  the receiver, which next expects event \<open>N\<close>.
\<close>

fun window :: "nat \<Rightarrow> nat list \<Rightarrow> bool" where
  "window N [] = True"
| "window N (n # ns) = (N < n + 60 \<and> n < N + 5 \<and> window (if n = N then N + 1 else N) ns)"

fun verdicts :: "nat \<Rightarrow> nat list \<Rightarrow> bool list" where
  "verdicts N [] = []"
| "verdicts N (n # ns) = (n = N) # verdicts (if n = N then N + 1 else N) ns"

text \<open>The counter of a device for which event \<open>N\<close> comes next.\<close>

definition expects :: "nat \<Rightarrow> nat \<Rightarrow> bool" where
  "expects c N \<longleftrightarrow> c < 128 \<and> (c + 1) mod 128 = N mod 128"

lemma mod_128_window:
  fixes N n c :: int
  assumes "0 \<le> c" "c < 128" "(c + 1) mod 128 = N mod 128" "N < n + 60" "n < N + 5" "0 \<le> n" "0 \<le> N"
  shows "(n mod 128 - (c + 1)) mod 128 > 0 \<and> ((c + 1 - n mod 128) mod 128 < 60 \<or> (n mod 128 - (c + 1)) mod 128 < 5) \<longleftrightarrow> n \<noteq> N"
proof -
  have "(n mod 128 - (c + 1)) mod 128 = (n - N) mod 128" "(c + 1 - n mod 128) mod 128 = (N - n) mod 128"
    using assms(3) by (metis mod_diff_cong mod_mod_trivial)+
  moreover have "(n - N) mod 128 = (if N \<le> n then n - N else n - N + 128)"
    using assms(4,5) by (auto intro: mod_pos_pos_trivial simp: mod_pos_pos_trivial [of "n - N + 128" 128, simplified, symmetric])
  moreover have "(N - n) mod 128 = (if n \<le> N then N - n else N - n + 128)"
    using assms(4,5) by (auto intro: mod_pos_pos_trivial simp: mod_pos_pos_trivial [of "N - n + 128" 128, simplified, symmetric])
  ultimately show ?thesis using assms(4,5) by auto
qed

lemma event_check_window:
  assumes "expects c N" "drop_bit JD_CMD_EVENT_COUNTER_SHIFT cmd mod 128 = n mod 128" "N < n + 60" "n < N + 5"
  shows "event_check cmd c = (n \<noteq> N, if n = N then n mod 128 else c)"
proof -
  have pec: "int (drop_bit 8 cmd) AND 127 = int n mod 128"
    using arg_cong [OF assms(2), of int] by (simp add: and_7f JD_CMD_EVENT_COUNTER_SHIFT_def zmod_int)
  have "int ((c + 1) mod 128) = int (N mod 128)" using assms(1) by (simp add: expects_def)
  then have c: "int c < 128" "(int c + 1) mod 128 = int N mod 128" using assms(1) by (simp_all add: expects_def zmod_int add.commute)
  have "c \<noteq> 255" using assms(1) by (simp add: expects_def)
  moreover have "nat (int n mod 128) = n mod 128" for n by (simp add: nat_mod_distrib)
  ultimately show ?thesis
    using mod_128_window [of "int c" "int N" "int n"] c assms(3,4) pec
    by (simp add: event_check_def Let_def JD_CMD_EVENT_COUNTER_SHIFT_def JD_CMD_EVENT_COUNTER_MASK_def and_7f)
qed

lemma event_check_first:
  assumes "drop_bit JD_CMD_EVENT_COUNTER_SHIFT cmd mod 128 = n mod 128"
  shows "event_check cmd 0xff = (False, n mod 128)"
proof -
  have pec: "int (drop_bit 8 cmd) AND 127 = int n mod 128"
    using arg_cong [OF assms, of int] by (simp add: and_7f JD_CMD_EVENT_COUNTER_SHIFT_def zmod_int)
  then show ?thesis
    by (simp add: event_check_def Let_def JD_CMD_EVENT_COUNTER_SHIFT_def JD_CMD_EVENT_COUNTER_MASK_def nat_mod_distrib)
qed

lemma expects_next: "expects (N mod 128) (N + 1)"
  by (simp add: expects_def mod_Suc_eq)

lemma delivered_consecutive:
  "map fst (filter snd (zip ns (verdicts N ns))) = [N..<N + length (filter id (verdicts N ns))]"
  by (induction ns arbitrary: N) (simp_all add: upt_conv_Cons del: upt_Suc)


text \<open>Event \<open>n\<close> of the device with identifier \<open>i\<close> and \<open>k\<close> services.\<close>

definition event_from :: "64 word \<Rightarrow> nat \<Rightarrow> nat \<Rightarrow> jd_frame \<Rightarrow> bool" where
  "event_from i k n p \<longleftrightarrow> frm_device_identifier p = i \<and> \<not> flag_set p JD_FRAME_FLAG_IDENTIFIER_IS_SERVICE_CLASS \<and>
     numbered n p \<and> pkt_service_index p < k"

text \<open>Register codes and the not-implemented report are below the event bit, and reading a register is neither
  that report nor an announcement.\<close>

definition client_consts_ok :: "sys_consts \<Rightarrow> bool" where
  "client_consts_ok c \<longleftrightarrow> CMD_GET_REGISTER c < 0x8000 \<and> CMD_COMMAND_NOT_IMPLEMENTED c < 0x8000 \<and>
     \<not> JD_IS_GET c (CMD_COMMAND_NOT_IMPLEMENTED c) \<and> \<not> JD_IS_GET c 0"

lemma event_bit:
  assumes "c AND JD_CMD_EVENT_MASK \<noteq> 0"
  shows "0x8000 \<le> c"
proof -
  have "bit c 15" using assms and_exp_eq_0_iff_not_bit [of c 15] by (simp add: JD_CMD_EVENT_MASK_def)
  then show ?thesis by (auto simp: bit_iff_odd not_less [symmetric] dest: div_less)
qed

lemma event_not_register:
  assumes "jd_is_event p" "client_consts_ok (ce_sys e)"
  shows "handle_register e sp p s = Some s" "\<not> is_announce p" "\<not> flag_set p JD_FRAME_FLAG_COMMAND"
proof -
  have c: "0x8000 \<le> pkt_service_command p" using assms(1) event_bit by (simp add: jd_is_event_def)
  then have "drop_bit 12 (pkt_service_command p) \<ge> 8" by (simp add: drop_bit_eq_div)
  moreover have "drop_bit 12 (CMD_GET_REGISTER (ce_sys e)) < 8" using assms(2) by (simp add: client_consts_ok_def drop_bit_eq_div less_mult_imp_div_less)
  ultimately have "\<not> JD_IS_GET (ce_sys e) (pkt_service_command p)" unfolding JD_IS_GET_def by linarith
  then show "handle_register e sp p s = Some s" using c assms(2) by (simp add: handle_register_def client_consts_ok_def)
  show "\<not> is_announce p" using c by (simp add: is_announce_def)
  show "\<not> flag_set p JD_FRAME_FLAG_COMMAND" using assms(1) by (simp add: jd_is_event_def jd_is_report_def jd_is_command_def flag_set_def)
qed

lemma lookup_device:
  assumes "client_inv {} s" "dev_store s a = Some d"
  shows "jd_device_lookup (dv_identifier d) s = Some (Some a)"
proof -
  have a: "a \<in> set (jd_devices s)" using client_inv_dom [OF assms(1)] assms(2) by auto
  have "ident (table s) a = dv_identifier d" using ident_table assms(2) by blast
  with a obtain b d' where b: "jd_device_lookup (dv_identifier d) s = Some (Some b)" "b \<in> set (jd_devices s)" "dev_store s b = Some d'"
    "dv_identifier d' = dv_identifier d"
    using jd_device_lookup_cases [OF assms(1), of "dv_identifier d"] by (metis imageI)
  have "distinct (map (ident (table s)) (jd_devices s))"
    using assms(1) sorted_before_distinct by (auto simp: client_inv_def table_inv_def)
  moreover have "ident (table s) b = ident (table s) a" using ident_table b(3,4) assms(2) by metis
  ultimately have "b = a" using a b(2) by (metis distinct_map inj_onD)
  then show ?thesis using b(1) by simp
qed

lemma index_mask: "n \<le> JD_SERVICE_INDEX_MAX_NORMAL \<Longrightarrow> n AND JD_SERVICE_INDEX_MASK = n"
proof -
  assume "n \<le> JD_SERVICE_INDEX_MAX_NORMAL"
  then have "take_bit 6 n = n" by (simp add: JD_SERVICE_INDEX_MAX_NORMAL_def take_bit_nat_eq_self)
  then show ?thesis using take_bit_eq_mask [of 6 n] by (simp add: JD_SERVICE_INDEX_MASK_def mask_eq_exp_minus_1)
qed

text \<open>One event: what the listener is told and the counter afterwards.\<close>

lemma event_step:
  assumes "recording e seen" "jd_client_listeners s = [l]" "event_scope s = 0" "client_inv {} s" "client_consts_ok (ce_sys e)"
    "dev_store s a = Some d" "event_from (dv_identifier d) (num_services d) n p"
    "event_check (pkt_service_command p) (dv_event_counter d) = (rep, c)" "c < 128 \<or> c = 255"
  obtains t where "jd_client_handle_packet e p s = Some t"
    "seen t = seen s @ [(if rep then EV_REPEATED_EVENT_PACKET else EV_SERVICE_PACKET) (a, pkt_service_index p) p]"
    "jd_client_listeners t = [l]" "event_scope t = 0" "client_inv {} t" "dev_store t a = Some (d\<lparr>dv_event_counter := c\<rparr>)"
proof -
  let ?sp = "(a, pkt_service_index p)" and ?d = "d\<lparr>dv_event_counter := c\<rparr>"
  let ?s = "s\<lparr>event_scope := 1\<rparr>" let ?u = "set_device a ?d ?s"
  let ?ev = "(if rep then EV_REPEATED_EVENT_PACKET else EV_SERVICE_PACKET) ?sp p"
  have p: "jd_is_event p" "frm_device_identifier p = dv_identifier d" "pkt_service_index p < num_services d"
      "\<not> flag_set p JD_FRAME_FLAG_IDENTIFIER_IS_SERVICE_CLASS"
    using assms(7) by (auto simp: event_from_def numbered_def)
  have "dev_ok (next_addr ?s) ?d" using client_inv_dev_ok [OF assms(4,6)] assms(9) by (auto simp: dev_ok_def num_services_def)
  then have inv: "client_inv {} ?u" using client_inv_set_device [of "{}" ?s a d ?d] assms(4,6) by simp
  have "service_at ?sp ?u \<noteq> None" using p(3) by (simp add: service_at_def set_device_def num_services_def)
  then have "event_valid ?ev ?u" by (simp add: event_valid_def)
  then obtain t where t: "jd_client_emit_event e ?ev ?u = Some t" "seen t = seen ?u @ [?ev]" "event_scope t = 1" "core_same ?u t"
    using emit_recorded [OF assms(1), of ?u l "{}" ?ev] inv assms(2) by (auto simp: set_device_def)
  have "pkt_service_index p AND JD_SERVICE_INDEX_MASK = pkt_service_index p" using p(1) index_mask by (simp add: jd_is_event_def)
  then have serv: "jd_device_get_service (Some a) (pkt_service_index p AND JD_SERVICE_INDEX_MASK) ?s = Some (Some ?sp)"
    using assms(6) p(3) by (simp add: jd_device_get_service_def)
  have dev: "jd_device_lookup (frm_device_identifier p) ?s = Some (Some a)" using lookup_device [of ?s a d] assms(4,6) p(2) by simp
  have "handle_event a p ?s = Some (?u, rep)" using assms(6,8) p(1) by (simp add: handle_event_def)
  then have "handle_report e (Some a) (Some ?sp) p ?s = Some (?u, Some a, Some ?sp, rep)"
    using event_not_register [OF p(1) assms(5)] by (simp add: handle_report_def)
  then have "jd_client_handle_packet e p s = Some (t\<lparr>event_scope := 0\<rparr>)"
    using dev serv p(4) event_not_register(3) [OF p(1) assms(5)] assms(3) t(1,3)
    by (simp add: jd_client_handle_packet_def EVENT_ENTER_def EVENT_LEAVE_def if_distrib [of "\<lambda>f. f ?sp p"] cong: if_cong)
  moreover have "seen (t\<lparr>event_scope := 0\<rparr>) = seen s @ [?ev]" using t(2) recorded_upd [OF assms(1)] by simp
  moreover have "client_inv {} (t\<lparr>event_scope := 0\<rparr>)" using core_same_inv [OF t(4)] inv by simp
  ultimately show ?thesis using that [of "t\<lparr>event_scope := 0\<rparr>"] t(4) assms(2) by (simp add: core_same_def set_device_def)
qed


text \<open>C11: a listener is given the events of a device once each and in order: when a receiver that expects event
  \<open>N\<close> gets any sequence of events of the window, with repetitions and events that arrive too early among
  them, exactly those whose turn it is are reported as packets, their numbers are consecutive from \<open>N\<close>, and every other
  one is reported as a repetition; the first event of a new device starts the sequence.\<close>

theorem events_once_in_order:
  assumes "recording e seen" "client_consts_ok (ce_sys e)" "client_inv {} s" "event_scope s = 0" "jd_client_listeners s = [l]"
    "dev_store s a = Some d" "\<forall>x\<in>set ps. event_from (dv_identifier d) (num_services d) (fst x) (snd x)" "window N (map fst ps)"
    "expects (dv_event_counter d) N \<or> dv_event_counter d = 0xff \<and> (\<forall>x xs. ps = x # xs \<longrightarrow> fst x = N)"
  shows "\<exists>t. foldM (jd_client_handle_packet e) (map snd ps) s = Some t \<and>
    seen t = seen s @ map2 (\<lambda>p fresh. (if fresh then EV_SERVICE_PACKET else EV_REPEATED_EVENT_PACKET) (a, pkt_service_index p) p)
      (map snd ps) (verdicts N (map fst ps)) \<and>
    map fst (filter snd (zip (map fst ps) (verdicts N (map fst ps)))) = [N..<N + length (filter id (verdicts N (map fst ps)))]"
proof -
  have "\<exists>t. foldM (jd_client_handle_packet e) (map snd ps) s = Some t \<and>
    seen t = seen s @ map2 (\<lambda>p fresh. (if fresh then EV_SERVICE_PACKET else EV_REPEATED_EVENT_PACKET) (a, pkt_service_index p) p)
      (map snd ps) (verdicts N (map fst ps))"
    using assms
  proof (induction ps arbitrary: s d N)
    case (Cons x ps)
    obtain n p where x: "x = (n, p)" by fastforce
    have ev: "event_from (dv_identifier d) (num_services d) n p" "N < n + 60" "n < N + 5" using Cons.prems(7,8) x by auto
    let ?c = "if n = N then n mod 128 else dv_event_counter d" let ?N = "if n = N then N + 1 else N"
    have check: "event_check (pkt_service_command p) (dv_event_counter d) = (n \<noteq> N, ?c)"
    proof (cases "expects (dv_event_counter d) N")
      case True
      then show ?thesis using event_check_window ev by (simp add: event_from_def numbered_def)
    next
      case False
      then have "dv_event_counter d = 0xff" "n = N" using Cons.prems(9) x by auto
      then show ?thesis using event_check_first ev by (simp add: event_from_def numbered_def)
    qed
    have next_c: "expects ?c ?N" using Cons.prems(9) expects_next [of N] x by auto
    then have "?c < 128 \<or> ?c = 255" by (simp add: expects_def)
    then obtain t where t: "jd_client_handle_packet e p s = Some t"
      "seen t = seen s @ [(if n \<noteq> N then EV_REPEATED_EVENT_PACKET else EV_SERVICE_PACKET) (a, pkt_service_index p) p]"
      "jd_client_listeners t = [l]" "event_scope t = 0" "client_inv {} t" "dev_store t a = Some (d\<lparr>dv_event_counter := ?c\<rparr>)"
      using event_step [OF Cons.prems(1,5,4,3,2,6) ev(1) check] by blast
    have "\<exists>u. foldM (jd_client_handle_packet e) (map snd ps) t = Some u \<and>
      seen u = seen t @ map2 (\<lambda>p fresh. (if fresh then EV_SERVICE_PACKET else EV_REPEATED_EVENT_PACKET) (a, pkt_service_index p) p)
        (map snd ps) (verdicts ?N (map fst ps))"
      using Cons.IH [OF Cons.prems(1,2) t(5,4,3,6)] next_c Cons.prems(7,8) x by (simp add: num_services_def)
    then show ?case using t(1,2) x by (cases "n = N") auto
  qed simp
  then show ?thesis using delivered_consecutive [of "map fst ps" N] by blast
qed


section \<open>The register cache\<close>

text \<open>A report of a register that service \<open>i\<close> of the device with identifier \<open>dev\<close> sends.\<close>

definition register_report :: "sys_consts \<Rightarrow> 64 word \<Rightarrow> nat \<Rightarrow> jd_frame \<Rightarrow> bool" where
  "register_report c dev i p \<longleftrightarrow> frm_device_identifier p = dev \<and> \<not> flag_set p JD_FRAME_FLAG_IDENTIFIER_IS_SERVICE_CLASS \<and>
     \<not> flag_set p JD_FRAME_FLAG_COMMAND \<and> pkt_service_index p AND JD_SERVICE_INDEX_MASK = i \<and>
     JD_IS_GET c (pkt_service_command p) \<and> pkt_ok p"

lemma register_not_event:
  assumes "JD_IS_GET (ce_sys e) (pkt_service_command p)" "client_consts_ok (ce_sys e)"
  shows "\<not> jd_is_event p" "pkt_service_command p \<noteq> CMD_COMMAND_NOT_IMPLEMENTED (ce_sys e)" "\<not> is_announce p"
proof -
  have "drop_bit 12 (CMD_GET_REGISTER (ce_sys e)) < 8"
    using assms(2) by (simp add: client_consts_ok_def drop_bit_eq_div less_mult_imp_div_less)
  then have "pkt_service_command p div 4096 < 8" using assms(1) by (simp add: JD_IS_GET_def drop_bit_eq_div)
  then have "\<not> 0x8000 \<le> pkt_service_command p" by (simp add: div_less_iff_less_mult)
  then show "\<not> jd_is_event p" using event_bit [of "pkt_service_command p"] by (auto simp: jd_is_event_def)
qed (use assms in \<open>auto simp: client_consts_ok_def is_announce_def\<close>)

lemma find_map_update:
  "(\<And>x. x \<in> set xs \<Longrightarrow> P (f x) = P x) \<Longrightarrow> find P (map f xs) = map_option f (find P xs)"
  by (induction xs) auto

lemma find_updated:
  assumes "find (is_query_for reg i) qs = Some q" "distinct (map rq_addr qs)" "rq_addr q' = rq_addr q"
    "rq_reg_code q' = rq_reg_code q" "rq_service_index q' = rq_service_index q"
  shows "find (is_query_for reg i) (map (\<lambda>p. if rq_addr p = rq_addr q' then q' else p) qs) = Some q'"
proof -
  let ?f = "\<lambda>p. if rq_addr p = rq_addr q' then q' else p"
  have "x = q" if "x \<in> set qs" "rq_addr x = rq_addr q'" for x
    using that assms(2,3) find_SomeD [OF assms(1)] by (metis distinct_map inj_onD)
  then have "is_query_for reg i (?f x) = is_query_for reg i x" if "x \<in> set qs" for x
    using that assms(4,5) by (auto simp: is_query_for_def)
  then show ?thesis using find_map_update [of qs _ ?f] assms(1,3) by simp
qed

text \<open>The query that has been looked up is replaced by the one with the report, and the listener is told of a change.\<close>

definition cache_report :: "mem \<Rightarrow> jd_register_query \<Rightarrow> jd_device \<Rightarrow> jd_device" where
  "cache_report m q d = d\<lparr>dv_queries := map (\<lambda>p. if rq_addr p = rq_addr q then store_report m q else p) (dv_queries d)\<rparr>"

definition change_event :: "serv_ptr \<Rightarrow> mem \<Rightarrow> jd_register_query \<Rightarrow> client_event list" where
  "change_event sp m q = (if reg_content q = Some m then [] else [EV_SERVICE_REGISTER_CHANGED sp (rq_addr q)])"

lemma register_recorded:
  assumes "recording e seen" "client_consts_ok (ce_sys e)" "client_inv {} s" "event_scope s = 1" "jd_client_listeners s = [l]"
    "dev_store s a = Some d" "i < num_services d" "JD_IS_GET (ce_sys e) (pkt_service_command p)" "pkt_ok p"
    "jd_service_query_lookup (a, i) (JD_REG_CODE (pkt_service_command p)) s = Some (Some q)" "q \<in> set (dv_queries d)"
  obtains t where "handle_register e (a, i) p s = Some t" "seen t = seen s @ change_event (a, i) (pkt_data p) q" "event_scope t = 1"
    "core_same (set_device a (cache_report (pkt_data p) q d) s) t" "client_inv {} t"
proof -
  let ?u = "set_device a (cache_report (pkt_data p) q d) s" and ?ev = "EV_SERVICE_REGISTER_CHANGED (a, i) (rq_addr q)"
  have q: "query_ok q" using client_inv_dev_ok [OF assms(3,6)] assms(11) by (auto simp: dev_ok_def)
  have u: "set_query a (store_report (pkt_data p) q) s = Some ?u" "client_inv {} ?u" "rq_addr q \<in> query_addrs ?u a"
    using set_query_ok [OF assms(3,6,11), of "store_report (pkt_data p) q"] store_report_ok by (auto simp: cache_report_def)
  have l: "jd_client_listeners ?u = [l]" "event_scope ?u = 1" using assms(4,5) by (simp_all add: set_device_def)
  have "service_at (a, i) ?u \<noteq> None"
    using assms(7) unfolding service_at_iff by (simp add: set_device_def num_services_def cache_report_def)
  then have valid: "event_valid ?ev ?u" using u(3) by (simp add: event_valid_def)
  obtain t where t: "(if reg_content q \<noteq> Some (pkt_data p) then jd_client_emit_event e ?ev ?u else Some ?u) = Some t"
      "seen t = seen ?u @ change_event (a, i) (pkt_data p) q" "event_scope t = 1" "core_same ?u t"
  proof (cases "reg_content q = Some (pkt_data p)")
    case False
    then show ?thesis using emit_recorded [OF assms(1) l u(2) valid] that by (auto simp: change_event_def)
  qed (use that l(2) in \<open>simp add: core_same_def change_event_def\<close>)
  have "rd_mem (frm_data p) 4 (pkt_service_size p) = Some (pkt_data p)" using assms(9) by (simp add: rd_mem_def pkt_ok_def pkt_data_def)
  then have "handle_register e (a, i) p s = Some t"
    using register_not_event [OF assms(8,2)] assms(8,10) report_differs_ok [OF q] u(1) t(1)
    by (simp add: handle_register_def split: if_splits)
  then show ?thesis using that t core_same_inv [OF t(4)] u(2) recorded_upd [OF assms(1)] by simp
qed

text \<open>C12: the report of a register that has been queried is put in the cache, whose readers get exactly the payload; the
  listener is told of a change precisely when the value differs from the one before, and then of the packet.\<close>

theorem register_report_cached:
  assumes "recording e seen" "client_consts_ok (ce_sys e)" "client_inv {} s" "event_scope s = 0" "jd_client_listeners s = [l]"
    "dev_store s a = Some d" "i < num_services d" "register_report (ce_sys e) (dv_identifier d) i p"
    "jd_service_query_lookup (a, i) (JD_REG_CODE (pkt_service_command p)) s = Some (Some q)"
  shows "\<exists>t q'. jd_client_handle_packet e p s = Some t \<and>
    jd_service_query_lookup (a, i) (JD_REG_CODE (pkt_service_command p)) t = Some (Some q') \<and> reg_content q' = Some (pkt_data p) \<and>
    seen t = seen s @ (if reg_content q = Some (pkt_data p) then [] else [EV_SERVICE_REGISTER_CHANGED (a, i) (rq_addr q)]) @
      [EV_SERVICE_PACKET (a, i) p]"
proof -
  let ?s = "s\<lparr>event_scope := 1\<rparr>" and ?reg = "JD_REG_CODE (pkt_service_command p)" and ?ev = "EV_SERVICE_PACKET (a, i) p"
  have p: "frm_device_identifier p = dv_identifier d" "\<not> flag_set p JD_FRAME_FLAG_IDENTIFIER_IS_SERVICE_CLASS"
    "\<not> flag_set p JD_FRAME_FLAG_COMMAND" "pkt_service_index p AND JD_SERVICE_INDEX_MASK = i"
    "JD_IS_GET (ce_sys e) (pkt_service_command p)" "pkt_ok p"
    using assms(8) by (auto simp: register_report_def)
  have "service_at (a, i) s \<noteq> None" using assms(6,7) unfolding service_at_iff by simp
  then have look: "find (is_query_for ?reg i) (dv_queries d) = Some q"
    using query_lookup_ok [OF assms(3), of "(a, i)" ?reg] assms(6,9) by simp
  have look_q: "jd_service_query_lookup (a, i) ?reg ?s = Some (Some q)" using assms(9)
    by (simp add: jd_service_query_lookup_def jd_service_parent_def service_at_def)
  have inv: "client_inv {} ?s" using assms(3) by simp
  obtain v where v: "handle_register e (a, i) p ?s = Some v" "seen v = seen ?s @ change_event (a, i) (pkt_data p) q" "event_scope v = 1"
    "core_same (set_device a (cache_report (pkt_data p) q d) ?s) v" "client_inv {} v"
    using register_recorded [OF assms(1,2) inv, of l a d i p q] assms(5-7) p(5,6) look_q find_SomeD [OF look] by auto
  have at_v: "service_at (a, i) v \<noteq> None" and dev_v: "dev_store v a = Some (cache_report (pkt_data p) q d)"
    using v(4) assms(7) unfolding service_at_iff by (simp_all add: core_same_def set_device_def cache_report_def num_services_def)
  have "jd_client_listeners v = [l]" using v(4) assms(5) by (simp add: core_same_def set_device_def)
  moreover have "event_valid ?ev v" using at_v by (simp add: event_valid_def)
  ultimately obtain t where t: "jd_client_emit_event e ?ev v = Some t" "seen t = seen v @ [?ev]" "event_scope t = 1" "core_same v t"
    using emit_recorded [OF assms(1) _ v(3,5)] by blast
  have "jd_device_lookup (frm_device_identifier p) ?s = Some (Some a)" using lookup_device [of ?s a d] assms(3,6) p(1) by simp
  then have run: "jd_client_handle_packet e p s = Some (t\<lparr>event_scope := 0\<rparr>)"
    using p(2-4) assms(4,6,7) v(1) t(1,3) register_not_event [OF p(5) assms(2)]
    by (simp add: jd_client_handle_packet_def EVENT_ENTER_def EVENT_LEAVE_def jd_device_get_service_def handle_report_def handle_event_def)
  have at_t: "service_at (a, i) (t\<lparr>event_scope := 0\<rparr>) \<noteq> None" and inv_t: "client_inv {} (t\<lparr>event_scope := 0\<rparr>)"
    using t(4) at_v core_same_inv [OF t(4)] v(5) by (simp_all add: core_same_def service_at_def)
  have "find (is_query_for ?reg i) (dv_queries (cache_report (pkt_data p) q d)) = Some (store_report (pkt_data p) q)"
    using find_updated [OF look] client_inv_dev_ok [OF assms(3,6)] store_report_ok by (simp add: dev_ok_def cache_report_def)
  then have "jd_service_query_lookup (a, i) ?reg (t\<lparr>event_scope := 0\<rparr>) = Some (Some (store_report (pkt_data p) q))"
    using query_lookup_ok [OF inv_t at_t, of ?reg] dev_v t(4) by (simp add: core_same_def)
  then show ?thesis using run store_report_ok(2) t(2) v(2) recorded_upd [OF assms(1)] by (simp add: change_event_def)
qed


section \<open>Examples\<close>

record recorder = client +
  seen_log :: "client_event list"

definition sample_client_env :: "recorder client_env" where
  "sample_client_env = \<lparr>ce_sys = sample_sys, ce_ctl = env_ctl quiet_env,
     listener_call = (\<lambda>_ ev s. Some (s\<lparr>seen_log := seen_log s @ [ev]\<rparr>)), device_destroyed = (\<lambda>_. Some)\<rparr>"

definition sample_query :: jd_register_query where
  "sample_query = \<lparr>rq_addr = 2, rq_reg_code = 1, rq_service_index = 1, rq_resp_size = 0, rq_last_query_ms = 5,
     rq_value = Inline [0, 0, 0, 0]\<rparr>"

definition sample_device :: jd_device where
  "sample_device = \<lparr>dv_queries = [sample_query], dv_identifier = 0x77, dv_event_counter = 0xff, dv_announce_flags = 1,
     dv_short_id = replicate 4 65, dv_expires = 9, dv_services = [\<lparr>sv_class = 0, sv_index = 0, sv_flags = 0\<rparr>,
       \<lparr>sv_class = 0x42, sv_index = 1, sv_flags = 0\<rparr>]\<rparr>"

definition sample_client :: recorder where
  "sample_client = client.extend (svcs.extend quiet_state (client.fields [5] 0 0 [1] [1 \<mapsto> sample_device] 3)) \<lparr>seen_log = []\<rparr>"

text \<open>A report with command \<open>cmd\<close> and payload \<open>m\<close> from service 1 of the device.\<close>

definition sample_report :: "nat \<Rightarrow> mem \<Rightarrow> jd_frame" where
  "sample_report cmd m = \<lparr>frm_crc = 0, frm_size = 12, frm_flags = 0, frm_device_identifier = 0x77,
     frm_data = pkt_header (length m) 1 cmd @ m @ replicate 4 0\<rparr>"

lemma sample_recording: "recording sample_client_env seen_log"
  by (simp add: recording_def sample_client_env_def)

lemma sample_client_fields [simp]:
  "jd_client_listeners sample_client = [5]" "event_scope sample_client = 0" "jd_devices sample_client = [1]"
  "dev_store sample_client = [1 \<mapsto> sample_device]" "next_addr sample_client = 3" "seen_log sample_client = []"
  by (simp_all add: sample_client_def svcs.defs client.defs)

lemma sample_client_inv: "client_inv {} sample_client"
  by (auto simp: client_inv_def table_inv_def devs_ok_def dev_ok_def table_def query_ok_def num_services_def sample_device_def sample_query_def
      less_Suc_eq split: if_splits)

lemma sample_consts: "ce_sys sample_client_env = sample_sys" "client_consts_ok sample_sys"
  by (simp_all add: sample_client_env_def client_consts_ok_def sample_sys_def JD_IS_GET_def drop_bit_eq_div)

lemma sample_services: "num_services sample_device = 2" "dv_identifier sample_device = 0x77" "dv_event_counter sample_device = 0xff"
  "dv_queries sample_device = [sample_query]"
  by (simp_all add: sample_device_def num_services_def)

lemma sample_report_fields [simp]:
  "frm_device_identifier (sample_report cmd m) = 0x77" "pkt_service_index (sample_report cmd m) = 1"
  "length m < 256 \<Longrightarrow> pkt_service_size (sample_report cmd m) = length m"
  "cmd < 65536 \<Longrightarrow> pkt_service_command (sample_report cmd m) = cmd"
  "flag_set (sample_report cmd m) JD_FRAME_FLAG_IDENTIFIER_IS_SERVICE_CLASS = False"
  "flag_set (sample_report cmd m) JD_FRAME_FLAG_COMMAND = False" "jd_is_command (sample_report cmd m) = False"
  by (simp_all add: sample_report_def pkt_header_def pkt_service_index_def pkt_service_size_def pkt_service_command_def flag_set_def
      unat_of_nat_byte jd_is_command_def)

theorem events_once_in_order_witness:
  "\<exists>t. foldM (jd_client_handle_packet sample_client_env) (map (\<lambda>c. sample_report c []) [0x8501, 0x8501, 0x8701, 0x8601, 0x8701]) sample_client =
     Some t \<and> map (\<lambda>ev. case ev of EV_SERVICE_PACKET _ _ \<Rightarrow> True | _ \<Rightarrow> False) (seen_log t) = [True, False, False, True, True]"
proof -
  let ?ps = "[(5, sample_report 0x8501 []), (5, sample_report 0x8501 []), (7, sample_report 0x8701 []), (6, sample_report 0x8601 []),
    (7, sample_report 0x8701 [])]"
  have "\<forall>x\<in>set ?ps. event_from (dv_identifier sample_device) (num_services sample_device) (fst x) (snd x)"
    by (simp add: event_from_def numbered_def jd_is_event_def jd_is_report_def sample_services JD_CMD_EVENT_MASK_def
        JD_CMD_EVENT_COUNTER_SHIFT_def JD_SERVICE_INDEX_MAX_NORMAL_def drop_bit_eq_div)
  note from_device = this
  have "window 5 (map fst ?ps)" "dv_event_counter sample_device = 0xff \<and> (\<forall>x xs. ?ps = x # xs \<longrightarrow> fst x = 5)"
    by (simp_all add: sample_services)
  from events_once_in_order [OF sample_recording _ sample_client_inv _ _ _ from_device this(1) disjI2 [OF this(2)], of 5 1]
  show ?thesis by (auto simp: sample_consts)
qed

theorem register_report_cached_witness:
  "\<exists>t q. jd_client_handle_packet sample_client_env (sample_report 0x1001 [7, 8, 9, 10, 11]) sample_client = Some t \<and>
    jd_service_query_lookup (1, 1) 1 t = Some (Some q) \<and> reg_content q = Some [7, 8, 9, 10, 11] \<and> length (seen_log t) = 2"
proof -
  let ?p = "sample_report 0x1001 [7, 8, 9, 10, 11]"
  have p: "register_report sample_sys (dv_identifier sample_device) 1 ?p" "JD_REG_CODE (pkt_service_command ?p) = 1" "pkt_data ?p = [7, 8, 9, 10, 11]"
    by (simp_all add: register_report_def sample_services JD_SERVICE_INDEX_MASK_def JD_IS_GET_def sample_sys_def drop_bit_eq_div pkt_ok_def
        is_announce_def JD_REG_CODE_def pkt_data_def) (simp_all add: sample_report_def pkt_header_def)
  have "jd_service_query_lookup (1, 1) 1 sample_client = Some (Some sample_query)"
    by (simp add: jd_service_query_lookup_def jd_service_parent_def service_at_def sample_device_def num_services_def is_query_for_def
        sample_query_def)
  moreover have "reg_content sample_query = Some []"
    by (simp add: reg_content_def sample_query_def jd_register_data_def JD_REGISTER_QUERY_MAX_INLINE_def)
  ultimately show ?thesis
    using register_report_cached [OF sample_recording, of sample_client 5 1 sample_device 1 ?p sample_query] p
      sample_consts sample_client_inv sample_services by (auto simp: Let_def)
qed

end
