(* ===== verification/Jd_Upper.thy ===== *)
theory Jd_Upper
  imports Jd_Services
begin

text \<open>
  What the transport and the pipes leave alone: sending packets changes only the variables of the files below the
  service core, so the state of the components above it, which extends theirs, is the same afterwards.
\<close>

definition bus_upper :: "'a bus_scheme \<Rightarrow> 64 word \<times> 32 word \<times> 'a" where
  "bus_upper s = (device_id s, now_us s, bus.more s)"

definition pipe_upper :: "'a pipes_scheme \<Rightarrow> 64 word \<times> 32 word \<times> 'a" where
  "pipe_upper s = (device_id s, now_us s, pipes.more s)"

named_theorems upper

lemma bus_pipe_upper: "bus_upper t = bus_upper s \<Longrightarrow> pipe_upper t = pipe_upper s"
  by (cases s rule: pipes.cases_scheme, cases t rule: pipes.cases_scheme) (simp add: bus_upper_def pipe_upper_def)

lemma set_tick_timer_upper [upper]: "bus_upper (set_tick_timer c s) = bus_upper s"
  by (simp add: bus_upper_def set_tick_timer_def Let_def split_beta)

lemma jd_packet_ready_upper [upper]: "bus_upper (jd_packet_ready s) = bus_upper s"
  using set_tick_timer_upper [of 0 "s\<lparr>txPending := True\<rparr>"] by (simp add: jd_packet_ready_def Let_def bus_upper_def)

lemma jd_usb_send_frame_upper [upper]: "jd_usb_send_frame f s = Some (t, r) \<Longrightarrow> bus_upper t = bus_upper s"
  by (auto simp: jd_usb_send_frame_def Let_def bus_upper_def split: if_splits bind_splits)

lemma jd_rx_frame_received_core_upper [upper]:
  assumes "jd_rx_frame_received_core f lp s = Some (t, g, r)"
  shows "bus_upper t = bus_upper s"
proof -
  obtain u where u: "(if \<not> lp then map_option fst (jd_usb_send_frame f s) else Some s) = Some u"
    and r: "(if \<not> jd_services_needs_frame (device_id u) f then Some (u, f, 0)
      else do {
       let frame = f\<lparr>frm_flags := (if lp then frm_flags f OR JD_FRAME_FLAG_LOOPBACK
              else frm_flags f AND NOT JD_FRAME_FLAG_LOOPBACK)\<rparr>;
       (rq, r) \<leftarrow> jd_queue_push (rx_queue u) frame;
       Some (u\<lparr>rx_queue := rq\<rparr>, frame, r) }) = Some (t, g, r)"
    using assms unfolding jd_rx_frame_received_core_def bind_Some_iff by blast
  have "bus_upper u = bus_upper s" using u jd_usb_send_frame_upper [of f s] by (auto split: if_splits)
  moreover have "bus_upper t = bus_upper u" using r by (auto simp: bus_upper_def Let_def split: if_splits bind_splits)
  ultimately show ?thesis by simp
qed

lemma jd_send_frame_raw_upper [upper]: "jd_send_frame_raw f s = Some (t, g, r) \<Longrightarrow> bus_upper t = bus_upper s"
  unfolding jd_send_frame_raw_def jd_rx_frame_received_loopback_def
  by (auto simp: jd_packet_ready_upper bind_Some_iff split: if_splits dest!: jd_rx_frame_received_core_upper)
     (auto simp: bus_upper_def)

lemma jd_send_frame_upper [upper]: "jd_send_frame f s = Some (t, g, r) \<Longrightarrow> bus_upper t = bus_upper s"
  unfolding jd_send_frame_def
  by (auto simp: bind_Some_iff dest!: jd_usb_send_frame_upper jd_send_frame_raw_upper)

lemma jd_send_frame_with_crc_upper [upper]: "jd_send_frame_with_crc f s = Some (t, g, r) \<Longrightarrow> bus_upper t = bus_upper s"
  unfolding jd_send_frame_with_crc_def by (auto simp: bind_Some_iff dest!: jd_send_frame_upper)

lemma acc_upper [simp]: "bus_upper (s\<lparr>tx_acc_buffer := f\<rparr>) = bus_upper s"
  by (simp add: bus_upper_def)

lemma jd_send_upper [upper]: "jd_send n c d s = Some (t, r) \<Longrightarrow> bus_upper t = bus_upper s"
  unfolding jd_send_def
  by (auto simp: bind_Some_iff split: if_splits dest!: jd_send_frame_with_crc_upper)

lemma jd_send_pkt_upper [upper]: "jd_send_pkt p s = Some (t, g, r) \<Longrightarrow> bus_upper t = bus_upper s"
  unfolding jd_send_pkt_def by (auto simp: bind_Some_iff dest!: jd_send_frame_upper)

lemma jd_send_not_implemented_upper [upper]: "jd_send_not_implemented c p s = Some (t, r) \<Longrightarrow> bus_upper t = bus_upper s"
  unfolding jd_send_not_implemented_def by (auto split: if_splits dest!: jd_send_upper)

lemma jd_send_event_ext_upper [upper]:
  "jd_send_event_ext q i ev d info s = Some (info', t) \<Longrightarrow> bus_upper t = bus_upper s"
  unfolding jd_send_event_ext_def by (auto simp: bind_Some_iff Let_def split: if_splits dest!: jd_send_upper)

lemma reg_read_upper: "reg_read p d reg m s = Some (m', t, r) \<Longrightarrow> bus_upper t = bus_upper s"
  by (cases d) (auto simp: reg_read_def bind_Some_iff split: if_splits dest!: jd_send_upper)

lemma reg_write_upper: "reg_write p d reg m s = Some (m', t, r) \<Longrightarrow> t = s"
  by (cases d) (auto simp: reg_write_def bind_Some_iff Let_def split: if_splits)

lemma service_handle_register_upper [upper]:
  assumes "service_handle_register c m p d s = Some (m', t, r)"
  shows "bus_upper t = bus_upper s"
proof (cases "reg_find (JD_REG_CODE (pkt_service_command p)) d 0 0")
  case None
  then show ?thesis using assms by (auto simp: service_handle_register_def Let_def split: if_splits)
next
  case (Some f)
  then show ?thesis
    using assms by (cases f) (auto simp: service_handle_register_def Let_def split: if_splits dest!: reg_read_upper reg_write_upper)
qed

lemma service_handle_register_final_upper [upper]:
  "service_handle_register_final c m p d s = Some (m', t, r) \<Longrightarrow> bus_upper t = bus_upper s"
  unfolding service_handle_register_final_def
  by (auto simp: bind_Some_iff split: if_splits dest!: service_handle_register_upper jd_send_not_implemented_upper)

lemma opipe_fields [simp]: "pipe_upper (set_opipe a d s) = pipe_upper s" "pipe_upper (jd_opipe_unlink a s) = pipe_upper s"
  by (simp_all add: pipe_upper_def set_opipe_def jd_opipe_unlink_def)

lemma jd_opipe_open_upper [upper]: "jd_opipe_open a dev port s = Some (t, r) \<Longrightarrow> pipe_upper t = pipe_upper s"
  unfolding jd_opipe_open_def Let_def
  by (auto simp: pipe_upper_def set_opipe_def jd_opipe_unlink_def split: if_splits)

lemma jd_opipe_open_cmd_upper [upper]: "jd_opipe_open_cmd a p s = Some (t, r) \<Longrightarrow> pipe_upper t = pipe_upper s"
  unfolding jd_opipe_open_cmd_def by (auto simp: bind_Some_iff split: if_splits dest!: jd_opipe_open_upper)

lemma jd_opipe_close_upper [upper]: "jd_opipe_close a s = Some (t, r) \<Longrightarrow> pipe_upper t = pipe_upper s"
  unfolding jd_opipe_close_def Let_def by (auto simp: bind_Some_iff split: if_splits)

end
