(* ===== verification/Jd_Role.thy ===== *)
theory Jd_Role
  imports Jd_Client Jd_Upper
begin

text \<open>
  The role manager, client/rolemgr.c, and \<open>rolemgr_role_changed\<close> of client/routing.c: named roles are bound to services
  of the devices in the table.  Roles live in a store like devices do; \<open>rm_roles\<close> is the linked list.  The struct
  \<open>srv_state\<close> is the record \<open>role_mgr\<close>, and \<open>rm_state\<close> is the pointer \<open>_state\<close>.  The command codes and the layout of the
  packets come from jacdac/dist/c.  A loop over the roles reads the next pointer after its body, so a listener
  that freed the role would be noticed.
\<close>

section \<open>Data\<close>

definition JD_ROLE_HINT_INT :: nat where "JD_ROLE_HINT_INT = 1"
definition JD_ROLE_HINT_APP :: nat where "JD_ROLE_HINT_APP = 2"
definition AUTOBIND_US :: "32 word" where "AUTOBIND_US = 980 * 1000"
definition ROLE_ASSIGNED :: byte where "ROLE_ASSIGNED = 0x01"

record jd_role =
  role_name :: mem
  role_class :: "32 word"
  role_hidden :: bool
  hint_dev :: nat
  hint_srvo :: nat
  role_service :: "serv_ptr option"

record role_mgr =
  rm_index :: nat
  auto_bind_enabled :: byte
  all_roles_allocated :: byte
  rm_changed :: bool
  rm_locked :: bool
  force_hints :: bool
  rm_roles :: "nat list"
  next_autobind :: "32 word"
  changed_timeout :: "32 word"
  list_pipe :: nat
  list_ptr :: "nat option"
  app_device_id :: "64 word"

record rolemgr = client +
  rm_state :: "role_mgr option"
  role_store :: "nat \<Rightarrow> jd_role option"

record role_codes =
  CMD_CLEAR_ALL_ROLES :: nat
  CMD_SET_ROLE :: nat
  CMD_LIST_ROLES :: nat
  REG_AUTO_BIND :: nat
  REG_ALL_ROLES_ALLOCATED :: nat
  EV_CHANGE :: nat
  EVENT_QUEUE_SIZE :: nat
  set_role_size :: nat
  set_role_device_id :: "mem \<Rightarrow> 64 word"
  set_role_service_idx :: "mem \<Rightarrow> nat"
  role_report_header :: "64 word \<Rightarrow> 32 word \<Rightarrow> nat \<Rightarrow> mem"

definition set_rm :: "role_mgr \<Rightarrow> 'a rolemgr_scheme \<Rightarrow> 'a rolemgr_scheme" where
  "set_rm m s = s\<lparr>rm_state := Some m\<rparr>"

definition LOCK :: "'a rolemgr_scheme \<Rightarrow> 'a rolemgr_scheme option" where
  "LOCK s = do {
     m \<leftarrow> rm_state s;
     jd_assert (\<not> rm_locked m);
     Some (set_rm (m\<lparr>rm_locked := True\<rparr>) s) }"

definition UNLOCK :: "'a rolemgr_scheme \<Rightarrow> 'a rolemgr_scheme option" where
  "UNLOCK s = do {
     m \<leftarrow> rm_state s;
     jd_assert (rm_locked m);
     Some (set_rm (m\<lparr>rm_locked := False\<rparr>) s) }"

text \<open>\<open>for (jd_role_t *r = state->roles; r; r = r->_next) f(r);\<close>\<close>

partial_function (option) walk_roles ::
  "(nat \<Rightarrow> 'a rolemgr_scheme \<Rightarrow> 'a rolemgr_scheme option) \<Rightarrow> nat option \<Rightarrow> 'a rolemgr_scheme \<Rightarrow> 'a rolemgr_scheme option" where
  "walk_roles f p s =
     (case p of None \<Rightarrow> Some s
      | Some r \<Rightarrow> do {
          s \<leftarrow> f r s;
          m \<leftarrow> rm_state s;
          nx \<leftarrow> next_in (rm_roles m) r;
          walk_roles f nx s })"

definition for_roles ::
  "(nat \<Rightarrow> 'a rolemgr_scheme \<Rightarrow> 'a rolemgr_scheme option) \<Rightarrow> 'a rolemgr_scheme \<Rightarrow> 'a rolemgr_scheme option" where
  "for_roles f s = do { m \<leftarrow> rm_state s; walk_roles f (first_in (rm_roles m)) s }"

fun all_bound :: "(nat \<Rightarrow> jd_role option) \<Rightarrow> nat list \<Rightarrow> bool option" where
  "all_bound st [] = Some True"
| "all_bound st (r # rs) = do { x \<leftarrow> st r; if role_service x = None then Some False else all_bound st rs }"

definition rolemgr_update_allocated :: "'a rolemgr_scheme \<Rightarrow> 'a rolemgr_scheme option" where
  "rolemgr_update_allocated s = do {
     m \<leftarrow> rm_state s;
     b \<leftarrow> all_bound (role_store s) (rm_roles m);
     Some (set_rm (m\<lparr>all_roles_allocated := (if b then 1 else 0)\<rparr>) s) }"

section \<open>Binding\<close>

definition set_flags :: "serv_ptr \<Rightarrow> (byte \<Rightarrow> byte) \<Rightarrow> 'a client_scheme \<Rightarrow> 'a client_scheme option" where
  "set_flags sp f s = do {
     d \<leftarrow> dev_store s (fst sp);
     if snd sp < num_services d
     then Some (set_device (fst sp) (d\<lparr>dv_services := (dv_services d)[snd sp :=
       (dv_services d ! snd sp)\<lparr>sv_flags := f (sv_flags (dv_services d ! snd sp))\<rparr>]\<rparr>) s)
     else None }"

definition rolemgr_role_changed :: "'a rolemgr_scheme client_env \<Rightarrow> nat \<Rightarrow> 'a rolemgr_scheme \<Rightarrow> 'a rolemgr_scheme option" where
  "rolemgr_role_changed e r s = do {
     s \<leftarrow> EVENT_ENTER s;
     x \<leftarrow> role_store s r;
     s \<leftarrow> jd_client_emit_event e (EV_ROLE_CHANGED (role_service x) r) s;
     EVENT_LEAVE s }"

definition rolemgr_set ::
  "'a rolemgr_scheme client_env \<Rightarrow> nat \<Rightarrow> serv_ptr option \<Rightarrow> 'a rolemgr_scheme \<Rightarrow> 'a rolemgr_scheme option" where
  "rolemgr_set e r serv s = do {
     x \<leftarrow> role_store s r;
     if role_service x = serv then Some s
     else do {
       s \<leftarrow> (case role_service x of None \<Rightarrow> Some s | Some sp \<Rightarrow> set_flags sp (\<lambda>v. v AND NOT ROLE_ASSIGNED) s);
       s \<leftarrow> (case serv of None \<Rightarrow> Some s
            | Some sp \<Rightarrow> do { s \<leftarrow> set_flags sp (\<lambda>v. v OR ROLE_ASSIGNED) s; jd_service_parent sp s; Some s });
       m \<leftarrow> rm_state s;
       rolemgr_role_changed e r
         ((set_rm (m\<lparr>rm_changed := True\<rparr>) s)\<lparr>role_store := (role_store s)(r \<mapsto> x\<lparr>role_service := serv\<rparr>)\<rparr>) } }"

text \<open>The service with the \<open>off\<close>-th occurrence of the class.\<close>

fun nth_of_class :: "32 word \<Rightarrow> nat \<Rightarrow> nat \<Rightarrow> jd_device_service list \<Rightarrow> nat option" where
  "nth_of_class cls off i [] = None"
| "nth_of_class cls off i (sv # svs) =
     (if sv_class sv \<noteq> cls then nth_of_class cls off (i + 1) svs
      else if off = 0 then Some i else nth_of_class cls (off - 1) (i + 1) svs)"

definition hint_device_id :: "role_mgr \<Rightarrow> 64 word \<Rightarrow> jd_role \<Rightarrow> 64 word" where
  "hint_device_id m self x =
     (if hint_dev x = JD_ROLE_HINT_APP then app_device_id m else if hint_dev x = JD_ROLE_HINT_INT then self else 0)"

definition rolemgr_use_hint :: "'a rolemgr_scheme client_env \<Rightarrow> nat \<Rightarrow> 'a rolemgr_scheme \<Rightarrow> 'a rolemgr_scheme option" where
  "rolemgr_use_hint e r s = do {
     m \<leftarrow> rm_state s;
     x \<leftarrow> role_store s r;
     if role_service x \<noteq> None \<or> hint_dev x = 0 then Some s
     else if hint_device_id m (device_id s) x = 0 then Some s
     else do {
       dev \<leftarrow> jd_device_lookup (hint_device_id m (device_id s) x) s;
       case dev of None \<Rightarrow> Some s
       | Some a \<Rightarrow> do {
           d \<leftarrow> dev_store s a;
           case nth_of_class (role_class x) (hint_srvo x) 0 (dv_services d) of
             None \<Rightarrow> Some s
           | Some i \<Rightarrow> if sv_flags (dv_services d ! i) AND ROLE_ASSIGNED = 0 then rolemgr_set e r (Some (a, i)) s else Some s } } }"

definition free_for :: "32 word \<Rightarrow> jd_device_service \<Rightarrow> bool" where
  "free_for cls sv \<longleftrightarrow> sv_class sv = cls \<and> sv_flags sv AND ROLE_ASSIGNED = 0"

fun find_service_for :: "(nat \<Rightarrow> jd_device option) \<Rightarrow> 32 word \<Rightarrow> nat list \<Rightarrow> serv_ptr option option" where
  "find_service_for st cls [] = Some None"
| "find_service_for st cls (a # as) = do {
     d \<leftarrow> st a;
     case find (\<lambda>i. free_for cls (dv_services d ! i)) [1..<num_services d] of
       Some i \<Rightarrow> Some (Some (a, i))
     | None \<Rightarrow> find_service_for st cls as }"

definition autobind_role :: "'a rolemgr_scheme client_env \<Rightarrow> nat \<Rightarrow> 'a rolemgr_scheme \<Rightarrow> 'a rolemgr_scheme option" where
  "autobind_role e r s = do {
     m \<leftarrow> rm_state s;
     x \<leftarrow> role_store s r;
     if role_service x \<noteq> None \<or> (hint_dev x \<noteq> 0 \<and> force_hints m) then Some s
     else do {
       f \<leftarrow> find_service_for (dev_store s) (role_class x) (jd_devices s);
       case f of None \<Rightarrow> Some s | Some sp \<Rightarrow> rolemgr_set e r (Some sp) s } }"

definition rolemgr_autobind :: "'a rolemgr_scheme client_env \<Rightarrow> 'a rolemgr_scheme \<Rightarrow> 'a rolemgr_scheme option" where
  "rolemgr_autobind e s = do {
     m \<leftarrow> rm_state s;
     if auto_bind_enabled m = 0 then Some s
     else do {
       s \<leftarrow> LOCK s;
       s \<leftarrow> for_roles (rolemgr_use_hint e) s;
       s \<leftarrow> for_roles (autobind_role e) s;
       UNLOCK s } }"

section \<open>Listing\<close>

text \<open>\<open>name\<close> is the memory the name is compared with, \<open>name_len\<close> its length as \<open>size_t\<close>.\<close>

fun role_lookup_in :: "(nat \<Rightarrow> jd_role option) \<Rightarrow> mem \<Rightarrow> nat \<Rightarrow> nat list \<Rightarrow> nat option option" where
  "role_lookup_in st name name_len [] = Some None"
| "role_lookup_in st name name_len (r # rs) = do {
     x \<leftarrow> st r;
     same \<leftarrow> memeq (role_name x @ [0]) name name_len;
     found \<leftarrow> (if same then map_option (\<lambda>b. b = 0) (rd8 (role_name x @ [0]) name_len) else Some False);
     if found then Some (Some r) else role_lookup_in st name name_len rs }"

definition rolemgr_lookup :: "mem \<Rightarrow> nat \<Rightarrow> 'a rolemgr_scheme \<Rightarrow> nat option option" where
  "rolemgr_lookup name name_len s = do { m \<leftarrow> rm_state s; role_lookup_in (role_store s) name name_len (rm_roles m) }"

definition rolemgr_serialize_role :: "role_codes \<Rightarrow> nat \<Rightarrow> 'a rolemgr_scheme \<Rightarrow> mem option" where
  "rolemgr_serialize_role k r s = do {
     x \<leftarrow> role_store s r;
     (dev, idx) \<leftarrow> (case role_service x of None \<Rightarrow> Some (0, 0)
        | Some sp \<Rightarrow> do {
            a \<leftarrow> jd_service_parent sp s;
            d \<leftarrow> dev_store s a;
            sv \<leftarrow> service_at sp s;
            Some (dv_identifier d, sv_index sv) });
     Some (role_report_header k dev (role_class x) idx @ role_name x) }"

definition rolemgr_serialized_role_size :: "role_codes \<Rightarrow> nat \<Rightarrow> 'a rolemgr_scheme \<Rightarrow> nat option" where
  "rolemgr_serialized_role_size k r s = do {
     x \<leftarrow> role_store s r;
     Some (length (role_report_header k 0 0 0) + length (role_name x)) }"

fun first_visible :: "(nat \<Rightarrow> jd_role option) \<Rightarrow> nat list \<Rightarrow> nat option option" where
  "first_visible st [] = Some None"
| "first_visible st (r # rs) = do { x \<leftarrow> st r; if role_hidden x then first_visible st rs else Some (Some r) }"

definition next_visible :: "nat option \<Rightarrow> 'a rolemgr_scheme \<Rightarrow> nat option option" where
  "next_visible p s = do {
     m \<leftarrow> rm_state s;
     case p of None \<Rightarrow> Some None | Some r \<Rightarrow> first_visible (role_store s) (dropWhile (\<lambda>x. x \<noteq> r) (rm_roles m)) }"

text \<open>Setting \<open>list_ptr\<close> to the next visible role from \<open>q\<close> on; with none left the pipe is closed.\<close>

definition list_from :: "nat option \<Rightarrow> role_mgr \<Rightarrow> 'a rolemgr_scheme \<Rightarrow> 'a rolemgr_scheme option" where
  "list_from q m s = do {
     p \<leftarrow> next_visible q s;
     let s = set_rm (m\<lparr>list_ptr := p\<rparr>) s;
     if p = None then map_option fst (jd_opipe_close (list_pipe m) s) else Some s }"

text \<open>One round of the loop that lists the roles; the flag says that it goes on.\<close>

definition list_step :: "role_codes \<Rightarrow> nat \<Rightarrow> role_mgr \<Rightarrow> 'a rolemgr_scheme \<Rightarrow> ('a rolemgr_scheme \<times> bool) option" where
  "list_step k r m s = do {
     sz \<leftarrow> rolemgr_serialized_role_size k r s;
     (d, err) \<leftarrow> jd_opipe_check_space (now_us s) sz (op_store s (list_pipe m));
     let s = set_opipe (list_pipe m) d s;
     if err = JD_PIPE_TRY_AGAIN then Some (s, False)
     else if err \<noteq> 0 then do {
       (s, _) \<leftarrow> jd_opipe_close (list_pipe m) (set_rm (m\<lparr>list_ptr := None\<rparr>) s);
       Some (s, False) }
     else do {
       tmp \<leftarrow> rolemgr_serialize_role k r s;
       (d, err) \<leftarrow> jd_opipe_write (now_us s) tmp (op_store s (list_pipe m));
       jd_assert (err = 0);
       nx \<leftarrow> next_in (rm_roles m) r;
       s \<leftarrow> list_from nx m (set_opipe (list_pipe m) d s);
       Some (s, True) } }"

partial_function (option) list_loop :: "role_codes \<Rightarrow> 'a rolemgr_scheme \<Rightarrow> 'a rolemgr_scheme option" where
  "list_loop k s = do {
     m \<leftarrow> rm_state s;
     case list_ptr m of None \<Rightarrow> Some s
     | Some r \<Rightarrow> do {
         (s, go) \<leftarrow> list_step k r m s;
         if go then list_loop k s else Some s } }"

definition rolemgr_process ::
  "'a rolemgr_scheme client_env \<Rightarrow> role_codes \<Rightarrow> 'a rolemgr_scheme \<Rightarrow> 'a rolemgr_scheme option" where
  "rolemgr_process e k s = do {
     s \<leftarrow> list_loop k s;
     m \<leftarrow> rm_state s;
     let (due, t) = jd_should_sample (now_us s) (next_autobind m) AUTOBIND_US;
     let s = set_rm (m\<lparr>next_autobind := t\<rparr>) s;
     s \<leftarrow> (if due then rolemgr_autobind e s else Some s);
     m \<leftarrow> rm_state s;
     let (due, t) = jd_should_sample (now_us s) (changed_timeout m) 50000;
     let m = m\<lparr>changed_timeout := t\<rparr>;
     if due \<and> rm_changed m then do {
       (ev, s) \<leftarrow> jd_send_event_ext (EVENT_QUEUE_SIZE k) (rm_index m) (EV_CHANGE k) [] (ev_state s) (set_rm (m\<lparr>rm_changed := False\<rparr>) s);
       Some (s\<lparr>ev_state := ev\<rparr>) }
     else Some (set_rm m s) }"

section \<open>Commands\<close>

definition rolemgr_set_role ::
  "'a rolemgr_scheme client_env \<Rightarrow> role_codes \<Rightarrow> jd_frame \<Rightarrow> 'a rolemgr_scheme \<Rightarrow> 'a rolemgr_scheme option" where
  "rolemgr_set_role e k pkt s = do {
     let data = drop 4 (frm_data pkt);
     let name_len = sub32 (pkt_service_size pkt) (set_role_size k);
     r \<leftarrow> rolemgr_lookup (drop (set_role_size k) data) name_len s;
     case r of None \<Rightarrow> Some s
     | Some r \<Rightarrow>
         if set_role_device_id k data = 0 then rolemgr_set e r None s
         else do {
           dev \<leftarrow> jd_device_lookup (set_role_device_id k data) s;
           serv \<leftarrow> jd_device_get_service dev (set_role_service_idx k data) s;
           case serv of None \<Rightarrow> Some s | Some sp \<Rightarrow> rolemgr_set e r (Some sp) s } }"

text \<open>The bytes of the struct that the register table describes: \<open>SRV_COMMON\<close> and the two registers.\<close>

definition rolemgr_regs :: "role_codes \<Rightarrow> nat list" where
  "rolemgr_regs k = [T_REG_BYTES * 4096 + 0xff0, 6, 4096 + REG_AUTO_BIND k, 4096 + REG_ALL_ROLES_ALLOCATED k, JD_REG_END]"

definition rm_image :: "role_mgr \<Rightarrow> mem" where
  "rm_image m = replicate 4 0 @ [of_nat (rm_index m), 0, auto_bind_enabled m, all_roles_allocated m]"

definition rolemgr_registers ::
  "sys_consts \<Rightarrow> role_codes \<Rightarrow> jd_frame \<Rightarrow> 'a rolemgr_scheme \<Rightarrow> 'a rolemgr_scheme option" where
  "rolemgr_registers c k pkt s = do {
     m \<leftarrow> rm_state s;
     (img, s, _) \<leftarrow> service_handle_register_final c (rm_image m) pkt (rolemgr_regs k) s;
     Some (set_rm (m\<lparr>auto_bind_enabled := img ! 6, all_roles_allocated := img ! 7\<rparr>) s) }"

definition rolemgr_handle_packet ::
  "'a rolemgr_scheme client_env \<Rightarrow> role_codes \<Rightarrow> jd_frame \<Rightarrow> 'a rolemgr_scheme \<Rightarrow> 'a rolemgr_scheme option" where
  "rolemgr_handle_packet e k pkt s = do {
     m \<leftarrow> rm_state s;
     jd_assert (\<not> rm_locked m);
     if pkt_service_command pkt = CMD_CLEAR_ALL_ROLES k then for_roles (\<lambda>r. rolemgr_set e r None) s
     else if pkt_service_command pkt = CMD_SET_ROLE k then rolemgr_set_role e k pkt s
     else if pkt_service_command pkt = CMD_LIST_ROLES k then do {
       (s, r) \<leftarrow> jd_opipe_open_cmd (list_pipe m) pkt s;
       if r = 0 then list_from (first_in (rm_roles m)) m s else Some s }
     else do {
       s \<leftarrow> rolemgr_update_allocated s;
       rolemgr_registers (ce_sys e) k pkt s } }"

text \<open>\<open>SRV_ALLOC\<close> allocates the service; \<open>pipe\<close> is the address of \<open>list_pipe\<close> in the new struct.\<close>

definition jd_role_manager_init :: "32 word \<Rightarrow> nat \<Rightarrow> 'a rolemgr_scheme \<Rightarrow> 'a rolemgr_scheme option" where
  "jd_role_manager_init role_manager_class pipe s = do {
     (s, idx) \<leftarrow> jd_allocate_service role_manager_class s;
     Some (set_rm \<lparr>rm_index = idx, auto_bind_enabled = 1, all_roles_allocated = 0, rm_changed = False, rm_locked = False,
       force_hints = False, rm_roles = [], next_autobind = now_us s + AUTOBIND_US, changed_timeout = 0, list_pipe = pipe,
       list_ptr = None, app_device_id = 0\<rparr> s) }"

section \<open>Devices that disappear\<close>

definition clear_if_parent :: "'a rolemgr_scheme client_env \<Rightarrow> nat \<Rightarrow> nat \<Rightarrow> 'a rolemgr_scheme \<Rightarrow> 'a rolemgr_scheme option" where
  "clear_if_parent e dev r s = do {
     x \<leftarrow> role_store s r;
     case role_service x of None \<Rightarrow> Some s
     | Some sp \<Rightarrow> do {
         a \<leftarrow> jd_service_parent sp s;
         if a = dev then rolemgr_set e r None s else Some s } }"

definition rolemgr_device_destroyed :: "'a rolemgr_scheme client_env \<Rightarrow> nat \<Rightarrow> 'a rolemgr_scheme \<Rightarrow> 'a rolemgr_scheme option" where
  "rolemgr_device_destroyed e dev s = do {
     s \<leftarrow> LOCK s;
     s \<leftarrow> for_roles (clear_if_parent e dev) s;
     UNLOCK s }"

section \<open>The interface of the application\<close>

definition stop_list :: "'a rolemgr_scheme \<Rightarrow> 'a rolemgr_scheme option" where
  "stop_list s = do {
     m \<leftarrow> rm_state s;
     jd_assert (\<not> rm_locked m);
     if list_ptr m \<noteq> None then map_option fst (jd_opipe_close (list_pipe m) (set_rm (m\<lparr>list_ptr := None\<rparr>) s))
     else Some s }"

definition jd_role_set_hints :: "bool \<Rightarrow> 64 word \<Rightarrow> 'a rolemgr_scheme \<Rightarrow> 'a rolemgr_scheme option" where
  "jd_role_set_hints force app_dev s = do {
     m \<leftarrow> rm_state s;
     Some (set_rm (m\<lparr>app_device_id := app_dev, force_hints := force\<rparr>) s) }"

fun strcmp :: "mem \<Rightarrow> mem \<Rightarrow> int" where
  "strcmp [] [] = 0"
| "strcmp [] (y # ys) = -1"
| "strcmp (x # xs) [] = 1"
| "strcmp (x # xs) (y # ys) = (if x < y then -1 else if x > y then 1 else strcmp xs ys)"

text \<open>The hint in the name: the kind of device and the text of the offset.\<close>

definition parse_hint :: "mem \<Rightarrow> (nat \<times> nat) option" where
  "parse_hint name =
     (case dropWhile (\<lambda>b. b \<noteq> 0x5b) name of
        [] \<Rightarrow> Some (0, 0)
      | _ # q \<Rightarrow> do {
          app \<leftarrow> jd_starts_with (Some (q @ [0])) (Some (ascii ''app:'' @ [0]));
          int \<leftarrow> (if app then Some False else jd_starts_with (Some (q @ [0])) (Some (ascii ''int:'' @ [0])));
          if app \<or> int then do {
            n \<leftarrow> jd_atoi (drop 4 (q @ [0]));
            Some (if app then JD_ROLE_HINT_APP else JD_ROLE_HINT_INT, nat (n mod 256)) }
          else Some (0, 0) })"

fun link_role :: "(nat \<Rightarrow> jd_role option) \<Rightarrow> nat \<Rightarrow> mem \<Rightarrow> nat list \<Rightarrow> nat list option" where
  "link_role st r name [] = Some [r]"
| "link_role st r name (q # qs) = do {
     x \<leftarrow> st q;
     if strcmp name (role_name x) < 0 then Some (r # q # qs)
     else do { l \<leftarrow> link_role st r name qs; Some (q # l) } }"

definition jd_role_alloc :: "mem \<Rightarrow> 32 word \<Rightarrow> 'a rolemgr_scheme \<Rightarrow> ('a rolemgr_scheme \<times> nat) option" where
  "jd_role_alloc name cls s = do {
     found \<leftarrow> rolemgr_lookup (name @ [0]) (length name) s;
     jd_assert (found = None);
     s \<leftarrow> stop_list s;
     let r = next_addr s;
     (hd, ho) \<leftarrow> parse_hint name;
     m \<leftarrow> rm_state s;
     l \<leftarrow> link_role (role_store s) r name (rm_roles m);
     Some ((set_rm (m\<lparr>rm_roles := l, rm_changed := True\<rparr>) s)
       \<lparr>role_store := (role_store s)(r \<mapsto> \<lparr>role_name = name, role_class = cls, role_hidden = False, hint_dev = hd,
          hint_srvo = ho, role_service = None\<rparr>), next_addr := r + 1\<rparr>, r) }"

definition jd_role_free :: "'a rolemgr_scheme client_env \<Rightarrow> nat option \<Rightarrow> 'a rolemgr_scheme \<Rightarrow> 'a rolemgr_scheme option" where
  "jd_role_free e role s =
     (case role of None \<Rightarrow> Some s
      | Some r \<Rightarrow> do {
          s \<leftarrow> stop_list s;
          s \<leftarrow> LOCK s;
          s \<leftarrow> rolemgr_set e r None s;
          s \<leftarrow> UNLOCK s;
          m \<leftarrow> rm_state s;
          jd_assert (r \<in> set (rm_roles m));
          Some ((set_rm (m\<lparr>rm_roles := remove1 r (rm_roles m)\<rparr>) s)\<lparr>role_store := (role_store s)(r := None)\<rparr>) })"

fun free_roles :: "nat list \<Rightarrow> 'a rolemgr_scheme \<Rightarrow> 'a rolemgr_scheme option" where
  "free_roles [] s = Some s"
| "free_roles (r # rs) s = do {
     x \<leftarrow> role_store s r;
     s \<leftarrow> (case role_service x of None \<Rightarrow> Some s | Some sp \<Rightarrow> set_flags sp (\<lambda>v. v AND NOT ROLE_ASSIGNED) s);
     m \<leftarrow> rm_state s;
     free_roles rs ((set_rm (m\<lparr>rm_roles := rs\<rparr>) s)\<lparr>role_store := (role_store s)(r := None)\<rparr>) }"

definition jd_role_free_all :: "'a rolemgr_scheme client_env \<Rightarrow> 'a rolemgr_scheme \<Rightarrow> 'a rolemgr_scheme option" where
  "jd_role_free_all e s = do {
     s \<leftarrow> stop_list s;
     s \<leftarrow> LOCK s;
     s \<leftarrow> for_roles (\<lambda>r. rolemgr_set e r None) s;
     s \<leftarrow> UNLOCK s;
     m \<leftarrow> rm_state s;
     s \<leftarrow> free_roles (rm_roles m) s;
     m \<leftarrow> rm_state s;
     Some (set_rm (m\<lparr>rm_changed := True\<rparr>) s) }"

definition jd_role_force_autobind :: "'a rolemgr_scheme client_env \<Rightarrow> 'a rolemgr_scheme \<Rightarrow> 'a rolemgr_scheme option" where
  "jd_role_force_autobind e s = rolemgr_autobind e s"

fun role_of :: "(nat \<Rightarrow> jd_role option) \<Rightarrow> serv_ptr option \<Rightarrow> nat list \<Rightarrow> nat option option" where
  "role_of st serv [] = Some None"
| "role_of st serv (r # rs) = do { x \<leftarrow> st r; if role_service x = serv then Some (Some r) else role_of st serv rs }"

definition jd_role_by_service :: "serv_ptr option \<Rightarrow> 'a rolemgr_scheme \<Rightarrow> nat option option" where
  "jd_role_by_service serv s = do { m \<leftarrow> rm_state s; role_of (role_store s) serv (rm_roles m) }"

text \<open>The client side of the device together with its role manager.\<close>

definition with_roles :: "'a rolemgr_scheme client_env \<Rightarrow> 'a rolemgr_scheme client_env" where
  "with_roles e = e\<lparr>device_destroyed := rolemgr_device_destroyed e\<rparr>"

section \<open>Flags\<close>

definition assigned :: "'a client_scheme \<Rightarrow> serv_ptr set" where
  "assigned s = {sp. \<exists>sv. service_at sp s = Some sv \<and> sv_flags sv AND ROLE_ASSIGNED \<noteq> 0}"

definition same_shape :: "'a client_scheme \<Rightarrow> 'a client_scheme \<Rightarrow> bool" where
  "same_shape s t \<longleftrightarrow> same_table s t \<and> client.more t = client.more s \<and> event_scope t = event_scope s \<and>
     jd_client_listeners t = jd_client_listeners s \<and> next_addr t = next_addr s"

lemma assigned_bit: "(v :: byte) AND ROLE_ASSIGNED \<noteq> 0 \<longleftrightarrow> bit v 0"
  by (simp add: ROLE_ASSIGNED_def and_one_eq bit_0 odd_iff_mod_2_eq_one)

lemma set_flags_ok:
  assumes "client_inv X s" "service_at sp s \<noteq> None"
  shows "\<exists>t. set_flags sp f s = Some t \<and> client_inv X t \<and> same_shape s t \<and>
    service_at sp t = map_option (\<lambda>sv. sv\<lparr>sv_flags := f (sv_flags sv)\<rparr>) (service_at sp s) \<and>
    (\<forall>sp'. sp' \<noteq> sp \<longrightarrow> service_at sp' t = service_at sp' s)"
proof -
  obtain d where d: "dev_store s (fst sp) = Some d" "snd sp < num_services d" using assms(2) unfolding service_at_iff by auto
  let ?sv = "dv_services d ! snd sp"
  let ?d = "d\<lparr>dv_services := (dv_services d)[snd sp := ?sv\<lparr>sv_flags := f (sv_flags ?sv)\<rparr>]\<rparr>"
  let ?t = "set_device (fst sp) ?d s"
  have "dev_ok (next_addr s) ?d"
    using client_inv_dev_ok [OF assms(1) d(1)] d(2) by (auto simp: dev_ok_def num_services_def nth_list_update)
  then have "client_inv X ?t" using client_inv_set_device [OF assms(1) d(1)] by simp
  moreover have "(map (\<lambda>sv. sv\<lparr>sv_flags := 0\<rparr>) (dv_services d))[snd sp := ?sv\<lparr>sv_flags := 0\<rparr>] = map (\<lambda>sv. sv\<lparr>sv_flags := 0\<rparr>) (dv_services d)"
    using d(2) by (simp add: list_update_same_conv num_services_def)
  then have fr: "dev_frame ?d = dev_frame d" by (simp add: dev_frame_def map_update)
  moreover have "table ?t = table s" using d(1) fr by (auto simp: table_def set_device_def)
  moreover have "query_addrs ?t = query_addrs s" using d(1) by (auto simp: query_addrs_def set_device_def fun_eq_iff)
  ultimately show ?thesis
    using d by (auto simp: set_flags_def same_shape_def same_table_def service_at_def num_services_def set_device_def prod_eq_iff)
qed

lemma assigned_set:
  assumes "service_at sp t = map_option (\<lambda>sv. sv\<lparr>sv_flags := f (sv_flags sv)\<rparr>) (service_at sp s)" "service_at sp s \<noteq> None"
    "\<forall>sp'. sp' \<noteq> sp \<longrightarrow> service_at sp' t = service_at sp' s"
  shows "\<forall>v. f v = v OR ROLE_ASSIGNED \<Longrightarrow> assigned t = insert sp (assigned s)"
    "\<forall>v. f v = v AND NOT ROLE_ASSIGNED \<Longrightarrow> assigned t = assigned s - {sp}"
proof -
  have b: "bit (v OR ROLE_ASSIGNED) 0" "\<not> bit (v AND NOT ROLE_ASSIGNED) 0" for v :: byte
    by (simp_all add: ROLE_ASSIGNED_def bit_simps)
  have o: "sp' \<in> assigned t \<longleftrightarrow> sp' \<in> assigned s" if "sp' \<noteq> sp" for sp'
    using assms(3) [rule_format, OF that] by (simp add: assigned_def)
  show "\<forall>v. f v = v OR ROLE_ASSIGNED \<Longrightarrow> assigned t = insert sp (assigned s)"
  proof -
    assume "\<forall>v. f v = v OR ROLE_ASSIGNED"
    then have "sp \<in> assigned t" using assms(1,2) b(1) by (auto simp: assigned_def assigned_bit)
    with o show ?thesis by (intro set_eqI) (metis insert_iff)
  qed
  show "\<forall>v. f v = v AND NOT ROLE_ASSIGNED \<Longrightarrow> assigned t = assigned s - {sp}"
  proof -
    assume "\<forall>v. f v = v AND NOT ROLE_ASSIGNED"
    then have "sp \<notin> assigned t" using assms(1,2) b(2) by (auto simp: assigned_def assigned_bit)
    with o show ?thesis by (intro set_eqI) (metis Diff_iff singletonD singletonI)
  qed
qed

text \<open>Writing to the role manager leaves the device table alone.\<close>

lemma rm_fields [simp]:
  "dev_store (set_rm m s) = dev_store s" "jd_devices (set_rm m s) = jd_devices s" "device_id (set_rm m s) = device_id s"
  "now_us (set_rm m s) = now_us s" "next_addr (set_rm m s) = next_addr s" "event_scope (set_rm m s) = event_scope s"
  "jd_client_listeners (set_rm m s) = jd_client_listeners s" "role_store (set_rm m s) = role_store s"
  "rm_state (set_rm m s) = Some m" "rolemgr.more (set_rm m s) = rolemgr.more s"
  by (simp_all add: set_rm_def)

lemma store_only [simp]:
  "service_at sp (set_rm m s) = service_at sp s" "service_at sp (s\<lparr>role_store := st\<rparr>) = service_at sp s"
  "table (set_rm m s) = table s" "table (s\<lparr>role_store := st\<rparr>) = table s"
  "query_addrs (set_rm m s) = query_addrs s" "query_addrs (s\<lparr>role_store := st\<rparr>) = query_addrs s"
  "devs_ok (set_rm m s) = devs_ok s" "devs_ok (s\<lparr>role_store := st\<rparr>) = devs_ok s"
  by (simp_all add: service_at_def table_def query_addrs_def devs_ok_def fun_eq_iff)

lemma rm_client [simp]:
  "client_inv X (set_rm m s) = client_inv X s" "client_inv X (s\<lparr>role_store := st\<rparr>) = client_inv X s"
  "same_table s (set_rm m t) = same_table s t" "same_table s (t\<lparr>role_store := st\<rparr>) = same_table s t"
  "same_table (set_rm m s) t = same_table s t" "same_table (s\<lparr>role_store := st\<rparr>) t = same_table s t"
  "assigned (set_rm m s) = assigned s" "assigned (s\<lparr>role_store := st\<rparr>) = assigned s"
  by (simp_all add: client_inv_def same_table_def assigned_def)

section \<open>The invariant of the roles\<close>

definition role_ok :: "'a client_scheme \<Rightarrow> jd_role \<Rightarrow> bool" where
  "role_ok s x \<longleftrightarrow> 0 \<notin> set (role_name x) \<and> (\<forall>sp. role_service x = Some sp \<longrightarrow> service_at sp s \<noteq> None)"

definition names_of :: "(nat \<Rightarrow> jd_role option) \<Rightarrow> nat list \<Rightarrow> mem list" where
  "names_of st l = map (\<lambda>r. role_name (the (st r))) l"

definition roles_inv :: "'a rolemgr_scheme \<Rightarrow> bool" where
  "roles_inv s \<longleftrightarrow> (\<exists>m. rm_state s = Some m \<and> distinct (rm_roles m) \<and> dom (role_store s) = set (rm_roles m) \<and>
     sorted_wrt (\<lambda>a b. strcmp a b < 0) (names_of (role_store s) (rm_roles m)) \<and>
     (\<forall>r. list_ptr m = Some r \<longrightarrow> r \<in> set (rm_roles m)) \<and>
     (\<forall>r x. role_store s r = Some x \<longrightarrow> r < next_addr s \<and> role_ok s x))"

definition unref :: "nat \<Rightarrow> 'a rolemgr_scheme \<Rightarrow> bool" where
  "unref a s \<longleftrightarrow> (\<forall>r x sp. role_store s r = Some x \<longrightarrow> role_service x = Some sp \<longrightarrow> fst sp \<noteq> a)"

definition unlocked :: "'a rolemgr_scheme \<Rightarrow> bool" where
  "unlocked s \<longleftrightarrow> (\<exists>m. rm_state s = Some m \<and> \<not> rm_locked m)"

definition same_roles :: "'a rolemgr_scheme \<Rightarrow> 'a rolemgr_scheme \<Rightarrow> bool" where
  "same_roles s t \<longleftrightarrow> rm_state t = rm_state s \<and> role_store t = role_store s \<and> next_addr s \<le> next_addr t \<and>
     (\<forall>a. map_option dv_services (dev_store t a) = map_option dv_services (dev_store s a))"

lemma more_cong:
  "client.more t = client.more s \<Longrightarrow> rm_state t = rm_state s \<and> role_store t = role_store s \<and> rolemgr.more t = rolemgr.more s"
  by (cases s rule: rolemgr.cases_scheme, cases t rule: rolemgr.cases_scheme) simp

lemma same_services_at:
  assumes "\<forall>a. map_option dv_services (dev_store t a) = map_option dv_services (dev_store s a)"
  shows "service_at sp t = service_at sp s"
  using assms [rule_format, of "fst sp"]
  by (cases "dev_store s (fst sp)"; cases "dev_store t (fst sp)") (auto simp: service_at_def num_services_def)

lemma assigned_same:
  assumes "\<forall>a. map_option dv_services (dev_store t a) = map_option dv_services (dev_store s a)"
  shows "assigned t = assigned s"
  by (simp add: assigned_def same_services_at [OF assms])

lemma roles_inv_cong:
  assumes "roles_inv s" "rm_state t = rm_state s" "role_store t = role_store s" "next_addr s \<le> next_addr t"
    "\<And>sp. service_at sp s \<noteq> None \<Longrightarrow> service_at sp t \<noteq> None"
  shows "roles_inv t"
  using assms by (fastforce simp: roles_inv_def role_ok_def)

lemma role_service_valid:
  assumes "roles_inv s" "role_store s r = Some x" "role_service x = Some sp"
  shows "service_at sp s \<noteq> None"
proof -
  have "role_ok s x" using assms(1,2) unfolding roles_inv_def by blast
  then show ?thesis using assms(3) unfolding role_ok_def by blast
qed

lemma same_roles_inv: "roles_inv s \<Longrightarrow> same_roles s t \<Longrightarrow> roles_inv t"
  using roles_inv_cong [of s t] same_services_at [of t s] by (auto simp: same_roles_def)

lemma names_of_upd: "st r = Some x \<Longrightarrow> role_name y = role_name x \<Longrightarrow> names_of (st(r \<mapsto> y)) l = names_of st l"
  by (auto simp: names_of_def)

section \<open>Loops over the roles\<close>

text \<open>The rule for a loop over the roles: \<open>Q pre s\<close> holds after the roles \<open>pre\<close> have been visited.\<close>

lemma walk_roles_rule:
  assumes "distinct l" "l = pre @ rest" "Q pre s"
    and roles: "\<And>p s. Q p s \<Longrightarrow> \<exists>m. rm_state s = Some m \<and> rm_roles m = l"
    and step: "\<And>p r q s. l = p @ r # q \<Longrightarrow> Q p s \<Longrightarrow> \<exists>t. f r s = Some t \<and> Q (p @ [r]) t"
  shows "\<exists>t. walk_roles f (first_in rest) s = Some t \<and> Q l t"
  using assms(2,3)
proof (induction rest arbitrary: pre s)
  case Nil
  then show ?case by (subst walk_roles.simps) (simp add: first_in_def)
next
  case (Cons r rest)
  obtain t where t: "f r s = Some t" "Q (pre @ [r]) t" using step Cons.prems by blast
  obtain m where m: "rm_state t = Some m" "rm_roles m = l" using roles t(2) by blast
  have "next_in l r = Some (first_in rest)" using Cons.prems(1) assms(1) next_in_append [of r pre rest] by simp
  moreover obtain u where "walk_roles f (first_in rest) t = Some u" "Q l u"
    using Cons.IH [of "pre @ [r]" t] Cons.prems(1) t(2) by auto
  ultimately show ?case using t(1) m by (subst walk_roles.simps) (simp add: first_in_def)
qed

lemma for_roles_rule:
  assumes "rm_state s = Some m" "distinct (rm_roles m)" "Q [] s"
    "\<And>p s. Q p s \<Longrightarrow> \<exists>m'. rm_state s = Some m' \<and> rm_roles m' = rm_roles m"
    "\<And>p r q s. rm_roles m = p @ r # q \<Longrightarrow> Q p s \<Longrightarrow> \<exists>t. f r s = Some t \<and> Q (p @ [r]) t"
  shows "\<exists>t. for_roles f s = Some t \<and> Q (rm_roles m) t"
  using walk_roles_rule [of "rm_roles m" "[]" "rm_roles m" Q s f] assms by (simp add: for_roles_def)

section \<open>Listeners that respect the roles\<close>

definition role_event_valid :: "client_event \<Rightarrow> 'a rolemgr_scheme \<Rightarrow> bool" where
  "role_event_valid ev s \<longleftrightarrow>
     (case ev of EV_ROLE_CHANGED sp r \<Rightarrow> (\<exists>x. role_store s r = Some x \<and> role_service x = sp) | _ \<Rightarrow> event_valid ev s)"

lemma event_valid_role: "event_valid ev s \<Longrightarrow> role_event_valid ev s"
  by (cases ev) (simp_all add: role_event_valid_def, simp add: event_valid_def)

lemma role_event_valid_same: "role_event_valid ev s \<Longrightarrow> same_table s t \<Longrightarrow> same_roles s t \<Longrightarrow> role_event_valid ev t"
  using event_valid_same by (cases ev) (auto simp: role_event_valid_def same_roles_def)

text \<open>
  A listener may keep state of its own that follows the roles: \<open>linv\<close> is its invariant, and \<open>pend r sp\<close> the state in
  which role \<open>r\<close> has been bound to \<open>sp\<close> and the listener does not know it yet.  The event that says so
  restores the invariant.  Listeners must not change the table or the roles.
\<close>

locale role_listener =
  fixes e :: "'a rolemgr_scheme client_env"
    and linv :: "'a rolemgr_scheme \<Rightarrow> bool"
    and pend :: "nat \<Rightarrow> serv_ptr option \<Rightarrow> 'a rolemgr_scheme \<Rightarrow> bool"
  assumes call:
      "client_inv X s \<Longrightarrow> roles_inv s \<Longrightarrow> event_scope s = 0 \<Longrightarrow> role_event_valid ev s \<Longrightarrow>
        linv s \<or> (\<exists>r sp. ev = EV_ROLE_CHANGED sp r \<and> pend r sp s) \<Longrightarrow>
        \<exists>t. listener_call e l ev s = Some t \<and> client_inv X t \<and> linv t \<and> event_scope t = 0 \<and> same_table s t \<and> same_roles s t"
    and subscribed: "pend r sp s \<Longrightarrow> jd_client_listeners s \<noteq> []"
    and change:
      "linv s \<Longrightarrow> role_store s r = Some x \<Longrightarrow> role_store t = (role_store s)(r \<mapsto> x\<lparr>role_service := sp\<rparr>) \<Longrightarrow>
        rolemgr.more t = rolemgr.more s \<Longrightarrow> jd_client_listeners t = jd_client_listeners s \<Longrightarrow> pend r sp t"
    and core:
      "linv s \<Longrightarrow> role_store t = role_store s \<Longrightarrow> rolemgr.more t = rolemgr.more s \<Longrightarrow>
        jd_client_listeners t = jd_client_listeners s \<Longrightarrow> linv t"
    and create:
      "linv s \<Longrightarrow> role_store s r = None \<Longrightarrow> role_service x = None \<Longrightarrow> role_store t = (role_store s)(r \<mapsto> x) \<Longrightarrow>
        rolemgr.more t = rolemgr.more s \<Longrightarrow> jd_client_listeners t = jd_client_listeners s \<Longrightarrow> linv t"
begin

definition role_good :: "nat set \<Rightarrow> 'a rolemgr_scheme \<Rightarrow> bool" where
  "role_good X s \<longleftrightarrow> client_inv X s \<and> roles_inv s \<and> linv s \<and> event_scope s = 0"

definition same_all :: "'a rolemgr_scheme \<Rightarrow> 'a rolemgr_scheme \<Rightarrow> bool" where
  "same_all s t \<longleftrightarrow> same_table s t \<and> same_roles s t"

lemma same_all_trans: "same_all s t \<Longrightarrow> same_all t u \<Longrightarrow> same_all s u"
  using same_table_trans by (auto simp: same_all_def same_roles_def)

lemma calls_ok:
  assumes "role_good X s" "role_event_valid ev s"
  shows "\<exists>t. foldM (\<lambda>l. listener_call e l ev) ls s = Some t \<and> role_good X t \<and> same_all s t"
  using assms
proof (induction ls arbitrary: s)
  case Nil
  then show ?case by (simp add: same_all_def same_roles_def)
next
  case (Cons l ls)
  obtain t where t: "listener_call e l ev s = Some t" "client_inv X t" "linv t" "event_scope t = 0" "same_all s t"
    using call [of X s ev l] Cons.prems by (auto simp: role_good_def same_all_def)
  then have "role_good X t" using same_roles_inv [of s t] Cons.prems(1) by (simp add: role_good_def same_all_def)
  moreover have "role_event_valid ev t" using role_event_valid_same [OF Cons.prems(2)] t(5) by (simp add: same_all_def)
  ultimately obtain u where "foldM (\<lambda>l. listener_call e l ev) ls t = Some u" "role_good X u" "same_all t u"
    using Cons.IH by blast
  then show ?case using t(1) same_all_trans [OF t(5)] by auto
qed

lemma role_changed_ok:
  assumes "client_inv X s" "roles_inv s" "event_scope s = 0" "pend r (role_service x) s" "role_store s r = Some x"
  shows "\<exists>t. rolemgr_role_changed e r s = Some t \<and> role_good X t \<and> same_all s t"
proof -
  let ?ev = "EV_ROLE_CHANGED (role_service x) r"
  have valid: "role_event_valid ?ev s" using assms(5) by (simp add: role_event_valid_def)
  let ?s = "s\<lparr>event_scope := 0\<rparr>"
  have s: "?s = s" using assms(3) by simp
  obtain l ls where ls: "jd_client_listeners s = l # ls" using subscribed [OF assms(4)] by (cases "jd_client_listeners s") auto
  obtain t where t: "listener_call e l ?ev s = Some t" "client_inv X t" "linv t" "event_scope t = 0" "same_all s t"
    using call [OF assms(1,2,3) valid, of l] assms(4) by (auto simp: same_all_def)
  then have "role_good X t" using same_roles_inv [of s t] assms(2) by (simp add: role_good_def same_all_def)
  moreover have "role_event_valid ?ev t" using role_event_valid_same [OF valid] t(5) by (simp add: same_all_def)
  ultimately obtain u where u: "foldM (\<lambda>l. listener_call e l ?ev) ls t = Some u" "role_good X u" "same_all t u"
    using calls_ok by blast
  have "rolemgr_role_changed e r s = Some (u\<lparr>event_scope := 0\<rparr>)"
    using assms(3,5) ls t(1) u(1,2)
    by (simp add: s rolemgr_role_changed_def EVENT_ENTER_def EVENT_LEAVE_def jd_client_emit_event_def jd_assert_def
        jd_client_log_event_def role_good_def)
  moreover have "u\<lparr>event_scope := 0\<rparr> = u" using u(2) by (simp add: role_good_def)
  ultimately show ?thesis using u(2) same_all_trans [OF t(5) u(3)] by simp
qed

end

context role_listener
begin

text \<open>What \<open>rolemgr_set\<close> does.\<close>

definition bound_to :: "nat \<Rightarrow> jd_role \<Rightarrow> serv_ptr option \<Rightarrow> 'a rolemgr_scheme \<Rightarrow> 'a rolemgr_scheme \<Rightarrow> bool" where
  "bound_to r x serv s t \<longleftrightarrow> same_table s t \<and> role_store t = (role_store s)(r \<mapsto> x\<lparr>role_service := serv\<rparr>) \<and>
     (\<exists>m b. rm_state s = Some m \<and> rm_state t = Some (m\<lparr>rm_changed := b\<rparr>)) \<and>
     assigned t = (if role_service x = serv then assigned s
       else (assigned s - set_option (role_service x)) \<union> set_option serv)"

lemma roles_inv_bind:
  assumes "roles_inv s" "role_store s r = Some x" "rm_state s = Some m" "\<forall>sp. serv = Some sp \<longrightarrow> service_at sp t \<noteq> None"
    "rm_state t = Some (m\<lparr>rm_changed := True\<rparr>)" "role_store t = (role_store s)(r \<mapsto> x\<lparr>role_service := serv\<rparr>)"
    "next_addr t = next_addr s" "\<And>sp. service_at sp s \<noteq> None \<Longrightarrow> service_at sp t \<noteq> None"
  shows "roles_inv t"
  using assms names_of_upd [of "role_store s" r x "x\<lparr>role_service := serv\<rparr>"]
  by (fastforce simp: roles_inv_def role_ok_def)

lemma same_shape_trans: "same_shape s t \<Longrightarrow> same_shape t u \<Longrightarrow> same_shape s u"
  using same_table_trans by (auto simp: same_shape_def)

lemma unassign_ok:
  assumes "client_inv X s" "\<forall>sp. old = Some sp \<longrightarrow> service_at sp s \<noteq> None"
  shows "\<exists>t. (case old of None \<Rightarrow> Some s | Some sp \<Rightarrow> set_flags sp (\<lambda>v. v AND NOT ROLE_ASSIGNED) s) = Some t \<and>
    client_inv X t \<and> same_shape s t \<and> assigned t = assigned s - set_option old"
proof (cases old)
  case None
  then show ?thesis using assms by (simp add: same_shape_def)
next
  case (Some sp)
  then show ?thesis
    using set_flags_ok [OF assms(1), of sp "\<lambda>v. v AND NOT ROLE_ASSIGNED"] assms(2) assigned_set(2) [of sp _ "\<lambda>v. v AND NOT ROLE_ASSIGNED" s]
    by fastforce
qed

lemma assign_ok:
  assumes "client_inv X s" "\<forall>sp. serv = Some sp \<longrightarrow> service_at sp s \<noteq> None"
  shows "\<exists>t. (case serv of None \<Rightarrow> Some s
      | Some sp \<Rightarrow> do { s \<leftarrow> set_flags sp (\<lambda>v. v OR ROLE_ASSIGNED) s; jd_service_parent sp s; Some s }) = Some t \<and>
    client_inv X t \<and> same_shape s t \<and> assigned t = assigned s \<union> set_option serv"
proof (cases serv)
  case None
  then show ?thesis using assms by (simp add: same_shape_def)
next
  case (Some sp)
  obtain t where t: "set_flags sp (\<lambda>v. v OR ROLE_ASSIGNED) s = Some t" "client_inv X t" "same_shape s t"
    "service_at sp t = map_option (\<lambda>sv. sv\<lparr>sv_flags := sv_flags sv OR ROLE_ASSIGNED\<rparr>) (service_at sp s)"
    "\<forall>sp'. sp' \<noteq> sp \<longrightarrow> service_at sp' t = service_at sp' s"
    using set_flags_ok [OF assms(1), of sp "\<lambda>v. v OR ROLE_ASSIGNED"] assms(2) Some by blast
  have ne: "service_at sp s \<noteq> None" using assms(2) Some by simp
  then obtain sv where "service_at sp t = Some sv" using t(4) by auto
  then have "jd_service_parent sp t = Some (fst sp)" using service_at_index(2) [OF t(2)] by simp
  moreover have "assigned t = insert sp (assigned s)" using assigned_set(1) [OF t(4) ne t(5)] by simp
  ultimately show ?thesis using t(1-3) Some by simp
qed

lemma rolemgr_set_ok:
  assumes "role_good X s" "role_store s r = Some x" "\<forall>sp. serv = Some sp \<longrightarrow> service_at sp s \<noteq> None"
  shows "\<exists>t. rolemgr_set e r serv s = Some t \<and> role_good X t \<and> bound_to r x serv s t"
proof -
  obtain m where m: "rm_state s = Some m" using assms(1) by (auto simp: role_good_def roles_inv_def)
  show ?thesis
  proof (cases "role_service x = serv")
    case True
    then have "x\<lparr>role_service := serv\<rparr> = x" by simp
    moreover have "m\<lparr>rm_changed := rm_changed m\<rparr> = m" by simp
    ultimately have "bound_to r x serv s s" using True m assms(2) unfolding bound_to_def by (metis fun_upd_triv same_table_refl)
    then show ?thesis using True assms(1,2) by (simp add: rolemgr_set_def)
  next
    case False
    have inv: "client_inv X s" "roles_inv s" "linv s" "event_scope s = 0" using assms(1) by (simp_all add: role_good_def)
    have old: "\<forall>sp. role_service x = Some sp \<longrightarrow> service_at sp s \<noteq> None"
      using inv(2) assms(2) by (auto simp: roles_inv_def role_ok_def)
    obtain t1 where t1: "(case role_service x of None \<Rightarrow> Some s | Some sp \<Rightarrow> set_flags sp (\<lambda>v. v AND NOT ROLE_ASSIGNED) s) = Some t1"
      "client_inv X t1" "same_shape s t1" "assigned t1 = assigned s - set_option (role_service x)"
      using unassign_ok [OF inv(1) old] by blast
    have keep1: "service_at sp t1 \<noteq> None \<longleftrightarrow> service_at sp s \<noteq> None" for sp
      using same_table_store(2) t1(3) unfolding same_shape_def by blast
    have serv1: "\<forall>sp. serv = Some sp \<longrightarrow> service_at sp t1 \<noteq> None" unfolding keep1 by (rule assms(3))
    obtain t2 where t2: "(case serv of None \<Rightarrow> Some t1
        | Some sp \<Rightarrow> do { s \<leftarrow> set_flags sp (\<lambda>v. v OR ROLE_ASSIGNED) t1; jd_service_parent sp s; Some s }) = Some t2"
      "client_inv X t2" "same_shape t1 t2" "assigned t2 = assigned t1 \<union> set_option serv"
      using assign_ok [OF t1(2) serv1] by (elim exE conjE) (rule that)
    have sh: "same_shape s t2" using same_shape_trans t1(3) t2(3) by blast
    have keep: "service_at sp t2 \<noteq> None \<longleftrightarrow> service_at sp s \<noteq> None" for sp
      using same_table_store(2) sh unfolding same_shape_def by blast
    have more: "rm_state t2 = rm_state s" "role_store t2 = role_store s" "rolemgr.more t2 = rolemgr.more s"
      "jd_client_listeners t2 = jd_client_listeners s" "next_addr t2 = next_addr s" "event_scope t2 = 0"
      using sh inv(4) more_cong [of t2 s] by (simp_all add: same_shape_def)
    define t3 where "t3 = (set_rm (m\<lparr>rm_changed := True\<rparr>) t2)\<lparr>role_store := (role_store t2)(r \<mapsto> x\<lparr>role_service := serv\<rparr>)\<rparr>"
    have at: "service_at sp t3 = service_at sp t2" for sp by (simp add: t3_def)
    have t3: "client_inv X t3" "event_scope t3 = 0" "same_table t2 t3" "assigned t3 = assigned t2" "rm_state t3 = Some (m\<lparr>rm_changed := True\<rparr>)"
      "role_store t3 = (role_store s)(r \<mapsto> x\<lparr>role_service := serv\<rparr>)" "next_addr t3 = next_addr s"
      using t2(2) more by (simp_all add: t3_def)
    have "roles_inv t3"
    proof (rule roles_inv_bind [OF inv(2) assms(2) m _ t3(5,6,7)])
      show "\<forall>sp. serv = Some sp \<longrightarrow> service_at sp t3 \<noteq> None" unfolding at keep by (rule assms(3))
      show "service_at sp s \<noteq> None \<Longrightarrow> service_at sp t3 \<noteq> None" for sp unfolding at keep .
    qed
    moreover have "pend r serv t3"
      using change [OF inv(3) assms(2) t3(6)] more by (simp add: t3_def)
    ultimately obtain t where t: "rolemgr_role_changed e r t3 = Some t" "role_good X t" "same_all t3 t"
      using role_changed_ok [of X t3 r "x\<lparr>role_service := serv\<rparr>"] t3(1,2,6) by auto
    have "rolemgr_set e r serv s = Some t"
      using False assms(2) t1(1) t2(1) m more(1,2) t(1) by (simp add: rolemgr_set_def t3_def)
    moreover have "bound_to r x serv s t"
    proof -
      have "same_table s t" using sh t3(3) t(3) same_table_trans unfolding same_shape_def same_all_def by blast
      moreover have "assigned t = assigned t3" using t(3) assigned_same by (auto simp: same_all_def same_roles_def)
      ultimately show ?thesis
        using False t(3) t3(4,5,6) t2(4) t1(4) m unfolding bound_to_def same_all_def same_roles_def by auto
    qed
    ultimately show ?thesis using t(2) by blast
  qed
qed

end

section \<open>Steps that change bindings only\<close>

definition role_frame :: "jd_role \<Rightarrow> jd_role" where
  "role_frame x = x\<lparr>role_service := None\<rparr>"

definition binds :: "'a rolemgr_scheme \<Rightarrow> 'a rolemgr_scheme \<Rightarrow> bool" where
  "binds s t \<longleftrightarrow> same_table s t \<and> (\<exists>m b. rm_state s = Some m \<and> rm_state t = Some (m\<lparr>rm_changed := b\<rparr>)) \<and>
     (\<forall>r. map_option role_frame (role_store t r) = map_option role_frame (role_store s r))"

lemma binds_refl: "rm_state s = Some m \<Longrightarrow> binds s s"
  by (auto simp: binds_def intro: exI [of _ "rm_changed m"])

lemma binds_trans: "binds s t \<Longrightarrow> binds t u \<Longrightarrow> binds s u"
  using same_table_trans by (fastforce simp: binds_def)

lemma binds_role:
  assumes "binds s t" "role_store s r = Some x"
  obtains y where "role_store t r = Some y" "role_frame y = role_frame x"
proof -
  have "map_option role_frame (role_store t r) = Some (role_frame x)" using assms by (simp add: binds_def)
  then show ?thesis using that by auto
qed

lemma binds_None: "binds s t \<Longrightarrow> role_store t r = None \<longleftrightarrow> role_store s r = None"
  unfolding binds_def by (metis map_option_is_None)

lemma role_frameD:
  assumes "role_frame y = role_frame x"
  shows "role_class y = role_class x" "hint_dev y = hint_dev x" "hint_srvo y = hint_srvo x" "role_name y = role_name x"
  using arg_cong [OF assms, of role_class] arg_cong [OF assms, of hint_dev] arg_cong [OF assms, of hint_srvo]
    arg_cong [OF assms, of role_name] by (simp_all add: role_frame_def)

lemma unlocked_rm [simp]: "unlocked (set_rm m s) \<longleftrightarrow> \<not> rm_locked m"
  by (simp add: unlocked_def)

lemma roles_inv_rm:
  "roles_inv s \<Longrightarrow> rm_state s = Some m \<Longrightarrow> rm_roles m' = rm_roles m \<Longrightarrow> \<forall>r. list_ptr m' = Some r \<longrightarrow> r \<in> set (rm_roles m) \<Longrightarrow>
    roles_inv (set_rm m' s)"
  by (auto simp: roles_inv_def role_ok_def)

context role_listener
begin

lemma bound_to_binds: "role_store s r = Some x \<Longrightarrow> bound_to r x serv s t \<Longrightarrow> binds s t"
  by (auto simp: bound_to_def binds_def role_frame_def)

lemma role_good_rm:
  assumes "role_good X s" "rm_state s = Some m" "rm_roles m' = rm_roles m" "\<forall>r. list_ptr m' = Some r \<longrightarrow> r \<in> set (rm_roles m)"
  shows "role_good X (set_rm m' s)"
  using assms roles_inv_rm [of s m m'] core [of s "set_rm m' s"] by (simp add: role_good_def)

lemma role_goodD:
  assumes "role_good X s"
  obtains m where "rm_state s = Some m" "distinct (rm_roles m)" "dom (role_store s) = set (rm_roles m)"
    "\<forall>r. list_ptr m = Some r \<longrightarrow> r \<in> set (rm_roles m)"
  using assms by (auto simp: role_good_def roles_inv_def)

lemma lock_ok:
  assumes "role_good X s" "unlocked s"
  obtains m where "rm_state s = Some m" "LOCK s = Some (set_rm (m\<lparr>rm_locked := True\<rparr>) s)"
    "role_good X (set_rm (m\<lparr>rm_locked := True\<rparr>) s)"
proof -
  obtain m where m: "rm_state s = Some m" "\<forall>r. list_ptr m = Some r \<longrightarrow> r \<in> set (rm_roles m)" using role_goodD [OF assms(1)] by metis
  then have "LOCK s = Some (set_rm (m\<lparr>rm_locked := True\<rparr>) s)"
    using assms(2) by (auto simp: LOCK_def unlocked_def jd_assert_def)
  moreover have "role_good X (set_rm (m\<lparr>rm_locked := True\<rparr>) s)" by (rule role_good_rm [OF assms(1) m(1)]) (use m(2) in simp_all)
  ultimately show ?thesis using that m(1) by blast
qed

text \<open>What a locked loop over the roles keeps.\<close>

lemma unlock_ok:
  assumes "role_good X t" "binds (set_rm (m\<lparr>rm_locked := True\<rparr>) s) t" "rm_state s = Some m" "\<not> rm_locked m"
  shows "\<exists>u. UNLOCK t = Some u \<and> role_good X u \<and> unlocked u \<and> binds s u \<and> role_store u = role_store t \<and> dev_store u = dev_store t \<and>
    jd_devices u = jd_devices t"
proof -
  obtain b where b: "rm_state t = Some (m\<lparr>rm_locked := True, rm_changed := b\<rparr>)" using assms(2) by (auto simp: binds_def)
  let ?u = "set_rm (m\<lparr>rm_changed := b\<rparr>) t"
  have "m\<lparr>rm_changed := b, rm_locked := False\<rparr> = m\<lparr>rm_changed := b\<rparr>" using assms(4) by simp
  then have "UNLOCK t = Some ?u" using b by (simp add: UNLOCK_def jd_assert_def)
  moreover have "role_good X ?u"
    by (rule role_good_rm [OF assms(1) b]) (use role_goodD [OF assms(1)] b in auto)
  ultimately show ?thesis using assms(2,3,4) by (auto simp: binds_def)
qed

lemma role_loop:
  assumes "role_good X s" "rm_state s = Some m" "P [] s"
    and step: "\<And>p r x s'. role_good X s' \<Longrightarrow> role_store s' r = Some x \<Longrightarrow> binds s s' \<Longrightarrow> P p s' \<Longrightarrow>
      \<exists>t. f r s' = Some t \<and> role_good X t \<and> binds s' t \<and> P (p @ [r]) t"
  shows "\<exists>t. for_roles f s = Some t \<and> role_good X t \<and> binds s t \<and> P (rm_roles m) t"
proof -
  let ?Q = "\<lambda>p s'. role_good X s' \<and> binds s s' \<and> P p s'"
  have dist: "distinct (rm_roles m)" and dom: "dom (role_store s) = set (rm_roles m)"
    using role_goodD [OF assms(1)] assms(2) by auto
  have "\<exists>t. for_roles f s = Some t \<and> ?Q (rm_roles m) t"
  proof (rule for_roles_rule [of s m ?Q f])
    show "?Q [] s" using assms(1,3) binds_refl [OF assms(2)] by simp
    fix p s' assume "?Q p s'"
    then show "\<exists>m'. rm_state s' = Some m' \<and> rm_roles m' = rm_roles m" using assms(2) by (auto simp: binds_def)
  next
    fix p r q s' assume l: "rm_roles m = p @ r # q" and q: "?Q p s'"
    have "r \<in> dom (role_store s)" using dom l by simp
    then obtain x where x: "role_store s' r = Some x" using q binds_role [of s s' r] by (auto simp: dom_def)
    then show "\<exists>t. f r s' = Some t \<and> ?Q (p @ [r]) t" using step [of s' r x p] q binds_trans by blast
  qed (use dist assms(2) in simp_all)
  then show ?thesis by blast
qed

lemma locked_loop:
  assumes "role_good X s" "unlocked s" "\<And>s'. P [] s'"
    and step: "\<And>p r x s'. role_good X s' \<Longrightarrow> role_store s' r = Some x \<Longrightarrow> P p s' \<Longrightarrow>
      \<exists>t. f r s' = Some t \<and> role_good X t \<and> binds s' t \<and> P (p @ [r]) t"
    and stable: "\<And>p s' u. P p s' \<Longrightarrow> role_store u = role_store s' \<Longrightarrow> dev_store u = dev_store s' \<Longrightarrow> jd_devices u = jd_devices s' \<Longrightarrow> P p u"
  shows "\<exists>t. do { s \<leftarrow> LOCK s; s \<leftarrow> for_roles f s; UNLOCK s } = Some t \<and> role_good X t \<and> unlocked t \<and> binds s t \<and>
    (\<exists>m. rm_state t = Some m \<and> P (rm_roles m) t)"
proof -
  obtain m where m: "rm_state s = Some m" "LOCK s = Some (set_rm (m\<lparr>rm_locked := True\<rparr>) s)"
    "role_good X (set_rm (m\<lparr>rm_locked := True\<rparr>) s)"
    using lock_ok [OF assms(1,2)] by metis
  let ?s = "set_rm (m\<lparr>rm_locked := True\<rparr>) s"
  obtain t where t: "for_roles f ?s = Some t" "role_good X t" "binds ?s t" "P (rm_roles m) t"
    using role_loop [OF m(3), of "m\<lparr>rm_locked := True\<rparr>" P f] assms(3) step by auto
  have "\<not> rm_locked m" using assms(2) m(1) by (simp add: unlocked_def)
  from unlock_ok [OF t(2,3) m(1) this] obtain u where u: "UNLOCK t = Some u" "role_good X u" "unlocked u" "binds s u"
    "role_store u = role_store t" "dev_store u = dev_store t" "jd_devices u = jd_devices t" by blast
  moreover have "\<exists>m'. rm_state u = Some m' \<and> P (rm_roles m') u"
    using u(4) m(1) stable [OF t(4) u(5,6,7)] by (auto simp: binds_def)
  ultimately show ?thesis using m(2) t(1) by simp
qed

end

section \<open>No pointer survives its device\<close>

context role_listener
begin

lemma clear_if_parent_ok:
  assumes "role_good X s" "role_store s r = Some x"
  shows "\<exists>t y. clear_if_parent e a r s = Some t \<and> role_good X t \<and> binds s t \<and> role_store t = (role_store s)(r \<mapsto> y) \<and>
    (\<forall>sp. role_service y = Some sp \<longrightarrow> fst sp \<noteq> a)"
proof -
  have refl: "binds s s" using role_goodD [OF assms(1)] binds_refl by metis
  have upd: "role_store s = (role_store s)(r \<mapsto> x)" using assms(2) by (metis fun_upd_triv)
  show ?thesis
  proof (cases "role_service x")
    case None
    then show ?thesis using assms refl upd by (auto simp: clear_if_parent_def)
  next
    case (Some sp)
    have "service_at sp s \<noteq> None" using assms Some role_service_valid [of s r x sp] by (simp add: role_good_def)
    then have par: "jd_service_parent sp s = Some (fst sp)"
      using service_at_index(2) [of X s sp] assms(1) by (auto simp: role_good_def)
    obtain t where t: "rolemgr_set e r None s = Some t" "role_good X t" "bound_to r x None s t"
      using rolemgr_set_ok [OF assms, of None] by auto
    show ?thesis
    proof (cases "fst sp = a")
      case True
      then show ?thesis using assms(2) Some par t bound_to_binds [OF assms(2) t(3)] by (auto simp: clear_if_parent_def bound_to_def)
    next
      case False
      then have "clear_if_parent e a r s = Some s" using assms(2) Some par by (simp add: clear_if_parent_def)
      then show ?thesis using assms(1) refl upd Some False by (intro exI [of _ s] exI [of _ x]) simp
    qed
  qed
qed

lemma device_destroyed_ok:
  assumes "role_good X s" "unlocked s"
  shows "\<exists>t. rolemgr_device_destroyed e a s = Some t \<and> role_good X t \<and> unlocked t \<and> same_table s t \<and> unref a t"
proof -
  let ?P = "\<lambda>p s'. \<forall>r \<in> set p. \<forall>x sp. role_store s' r = Some x \<longrightarrow> role_service x = Some sp \<longrightarrow> fst sp \<noteq> a"
  have "\<exists>t. clear_if_parent e a r s' = Some t \<and> role_good X t \<and> binds s' t \<and> ?P (p @ [r]) t"
    if "role_good X s'" "role_store s' r = Some x" "?P p s'" for p r x s'
    using clear_if_parent_ok [OF that(1,2), of a] that(3) by fastforce
  then obtain t where t: "rolemgr_device_destroyed e a s = Some t" "role_good X t" "unlocked t" "binds s t"
    "\<exists>m. rm_state t = Some m \<and> ?P (rm_roles m) t"
    using locked_loop [OF assms, of ?P "clear_if_parent e a"] by (auto simp: rolemgr_device_destroyed_def)
  moreover have "unref a t"
  proof -
    obtain m where m: "rm_state t = Some m" "dom (role_store t) = set (rm_roles m)" using role_goodD [OF t(2)] by metis
    then have "?P (rm_roles m) t" using t(5) by auto
    then show ?thesis unfolding unref_def m(2) [symmetric] by (metis domI)
  qed
  ultimately show ?thesis by (auto simp: binds_def)
qed

end

sublocale role_listener \<subseteq> table: client_hooks "with_roles e" "\<lambda>s. roles_inv s \<and> linv s \<and> unlocked s" unref
proof
  fix X s ev l
  assume s: "client_inv X s" "roles_inv s \<and> linv s \<and> unlocked s" "event_scope s = 0" "event_valid ev s"
  then obtain t where t: "listener_call e l ev s = Some t" "client_inv X t" "linv t" "event_scope t = 0" "same_table s t" "same_roles s t"
    using call [of X s ev l] event_valid_role by blast
  moreover have "roles_inv t" using same_roles_inv s(2) t(6) by blast
  moreover have "unlocked t" "unref a s \<longrightarrow> unref a t" for a using s(2) t(6) by (auto simp: unlocked_def unref_def same_roles_def)
  ultimately show "\<exists>t. listener_call (with_roles e) l ev s = Some t \<and> client_inv X t \<and> (roles_inv t \<and> linv t \<and> unlocked t) \<and>
      event_scope t = 0 \<and> same_table s t \<and> (\<forall>a. unref a s \<longrightarrow> unref a t)"
    by (simp add: with_roles_def)
next
  fix X s a
  assume "client_inv X s" "roles_inv s \<and> linv s \<and> unlocked s" "event_scope s = 0"
  then show "\<exists>t. device_destroyed (with_roles e) a s = Some t \<and> client_inv X t \<and> (roles_inv t \<and> linv t \<and> unlocked t) \<and>
      event_scope t = 0 \<and> same_table s t \<and> unref a t"
    using device_destroyed_ok [of X s a] by (auto simp: role_good_def with_roles_def)
next
  fix s t :: "'a rolemgr_scheme"
  assume s: "roles_inv s \<and> linv s \<and> unlocked s" "same_services s t"
  then have m: "rm_state t = rm_state s" "role_store t = role_store s" "rolemgr.more t = rolemgr.more s"
    using more_cong [of t s] by (simp_all add: same_services_def)
  moreover have "same_roles s t" using s(2) m by (simp add: same_services_def same_roles_def)
  ultimately show "roles_inv t \<and> linv t \<and> unlocked t"
    using s same_roles_inv [of s t] core [of s t] by (simp add: same_services_def unlocked_def)
next
  fix a and s t :: "'a rolemgr_scheme"
  assume "unref a s" "same_services s t"
  then show "unref a t" using more_cong [of t s] by (simp add: same_services_def unref_def)
next
  fix s :: "'a rolemgr_scheme" and a d
  assume s: "roles_inv s \<and> linv s \<and> unlocked s" "dev_store s a = None"
  have eqs: "rm_state (set_device a d s) = rm_state s" "role_store (set_device a d s) = role_store s"
    "rolemgr.more (set_device a d s) = rolemgr.more s" "jd_client_listeners (set_device a d s) = jd_client_listeners s"
    by (simp_all add: set_device_def)
  have "service_at sp (set_device a d s) \<noteq> None" if "service_at sp s \<noteq> None" for sp
    using that s(2) unfolding service_at_iff by (auto simp: set_device_def)
  then have "roles_inv (set_device a d s)" using roles_inv_cong [of s "set_device a d s"] s(1) eqs by simp
  then show "roles_inv (set_device a d s) \<and> linv (set_device a d s) \<and> unlocked (set_device a d s)"
    using s(1) core [of s "set_device a d s"] eqs by (simp add: unlocked_def)
next
  fix s :: "'a rolemgr_scheme" and a
  let ?t = "s\<lparr>dev_store := (dev_store s)(a := None)\<rparr>"
  assume s: "roles_inv s \<and> linv s \<and> unlocked s" "unref a s"
  have "service_at sp ?t \<noteq> None" if "service_at sp s \<noteq> None" "fst sp \<noteq> a" for sp
    using that unfolding service_at_iff by auto
  then have "roles_inv ?t" using s by (fastforce simp: roles_inv_def role_ok_def unref_def)
  then show "roles_inv ?t \<and> linv ?t \<and> unlocked ?t" using s(1) core [of s ?t] by (simp add: unlocked_def)
qed

section \<open>Automatic binding\<close>

definition class_at :: "serv_ptr \<Rightarrow> 'a client_scheme \<Rightarrow> 32 word option" where
  "class_at sp s = map_option sv_class (service_at sp s)"

lemma class_at_same:
  assumes "same_table s t"
  shows "class_at sp t = class_at sp s"
proof (cases "dev_store s (fst sp)")
  case None
  moreover have "dev_store t (fst sp) = None" using same_table_store(1) [OF assms, of "fst sp"] None by simp
  ultimately show ?thesis by (simp add: class_at_def service_at_def)
next
  case (Some d)
  have "table t = table s" using assms by (simp add: same_table_def)
  then obtain d' where d': "dev_store t (fst sp) = Some d'" "dev_frame d' = dev_frame d"
    using table_SomeD [of s t "fst sp" d] Some by auto
  have eq: "map sv_class (dv_services d') = map sv_class (dv_services d)"
    using arg_cong [OF d'(2), of "\<lambda>x. map sv_class (dv_services x)"] by (simp add: dev_frame_def comp_def)
  have len: "length (dv_services d') = length (dv_services d)" using arg_cong [OF eq, of length] by simp
  have "snd sp < length (dv_services d) \<Longrightarrow> sv_class (dv_services d' ! snd sp) = sv_class (dv_services d ! snd sp)"
    using arg_cong [OF eq, of "\<lambda>l. l ! snd sp"] len by simp
  then show ?thesis using Some d'(1) len by (simp add: class_at_def service_at_def num_services_def)
qed

text \<open>Bindings are only added, each to a free service of the class of the role, and no service twice.\<close>

definition service_of :: "nat \<Rightarrow> 'a rolemgr_scheme \<Rightarrow> serv_ptr option" where
  "service_of r s = Option.bind (role_store s r) role_service"

definition new_binding :: "'a rolemgr_scheme \<Rightarrow> 'a rolemgr_scheme \<Rightarrow> nat \<Rightarrow> serv_ptr \<Rightarrow> bool" where
  "new_binding s t r sp \<longleftrightarrow> service_of r s = None \<and> service_of r t = Some sp"

definition grows :: "'a rolemgr_scheme \<Rightarrow> 'a rolemgr_scheme \<Rightarrow> bool" where
  "grows s t \<longleftrightarrow> assigned s \<subseteq> assigned t \<and> (\<forall>r sp. service_of r s = Some sp \<longrightarrow> service_of r t = Some sp) \<and>
     (\<forall>r sp. new_binding s t r sp \<longrightarrow> sp \<notin> assigned s \<and> sp \<in> assigned t \<and>
        class_at sp s = map_option role_class (role_store s r)) \<and>
     (\<forall>r r' sp. new_binding s t r sp \<longrightarrow> new_binding s t r' sp \<longrightarrow> r = r')"

lemma grows_refl: "grows s s"
  by (auto simp: grows_def new_binding_def)

lemma grows_trans:
  assumes "grows s t" "grows t u" "binds s t"
  shows "grows s u"
proof -
  have cls: "class_at sp t = class_at sp s" for sp using class_at_same [of s t sp] assms(3) by (simp add: binds_def)
  have rc: "map_option role_class (role_store t r) = map_option role_class (role_store s r)" for r
  proof -
    have "map_option role_frame (role_store t r) = map_option role_frame (role_store s r)" using assms(3) by (simp add: binds_def)
    then show ?thesis by (cases "role_store s r"; cases "role_store t r") (auto dest: role_frameD)
  qed
  have split: "new_binding s t r sp \<or> new_binding t u r sp" if "new_binding s u r sp" for r sp
    using that assms(1,2) unfolding new_binding_def grows_def by (metis not_Some_eq)
  have "sp \<notin> assigned s \<and> sp \<in> assigned u \<and> class_at sp s = map_option role_class (role_store s r)" if "new_binding s u r sp" for r sp
    using split [OF that] assms(1,2) cls rc unfolding grows_def by (metis subset_iff)
  moreover have "r = r'" if "new_binding s u r sp" "new_binding s u r' sp" for r r' sp
    using split [OF that(1)] split [OF that(2)] assms(1,2) unfolding grows_def by metis
  moreover have "assigned s \<subseteq> assigned u" "\<forall>r sp. service_of r s = Some sp \<longrightarrow> service_of r u = Some sp"
    using assms(1,2) by (auto simp: grows_def)
  ultimately show ?thesis unfolding grows_def by (intro conjI allI impI) metis+
qed

lemma nth_of_class_ok:
  "nth_of_class cls off i svs = Some j \<Longrightarrow> i \<le> j \<and> j < i + length svs \<and> sv_class (svs ! (j - i)) = cls"
proof (induction cls off i svs rule: nth_of_class.induct)
  case (2 cls off i sv svs)
  have "Suc i \<le> j \<and> j < Suc i + length svs \<and> sv_class (svs ! (j - Suc i)) = cls \<or> j = i \<and> sv_class sv = cls"
    using 2 by (auto split: if_splits)
  then show ?case by (auto simp: nth_Cons')
qed simp

lemma find_service_for_ok:
  assumes "set l \<subseteq> dom st"
  shows "\<exists>f. find_service_for st cls l = Some f \<and>
    (case f of
       None \<Rightarrow> \<forall>a \<in> set l. \<forall>d i. st a = Some d \<longrightarrow> 1 \<le> i \<longrightarrow> i < num_services d \<longrightarrow> \<not> free_for cls (dv_services d ! i)
     | Some (a, i) \<Rightarrow> \<exists>d. a \<in> set l \<and> st a = Some d \<and> 1 \<le> i \<and> i < num_services d \<and> free_for cls (dv_services d ! i))"
  using assms
proof (induction l)
  case (Cons a l)
  then obtain d where d: "st a = Some d" by auto
  show ?case
  proof (cases "find (\<lambda>i. free_for cls (dv_services d ! i)) [1..<num_services d]")
    case None
    then have no: "1 \<le> i \<longrightarrow> i < num_services d \<longrightarrow> \<not> free_for cls (dv_services d ! i)" for i by (auto simp: find_None_iff)
    obtain f where f: "find_service_for st cls l = Some f" "case f of
       None \<Rightarrow> \<forall>a \<in> set l. \<forall>d i. st a = Some d \<longrightarrow> 1 \<le> i \<longrightarrow> i < num_services d \<longrightarrow> \<not> free_for cls (dv_services d ! i)
     | Some (a, i) \<Rightarrow> \<exists>d. a \<in> set l \<and> st a = Some d \<and> 1 \<le> i \<and> i < num_services d \<and> free_for cls (dv_services d ! i)"
      using Cons by auto
    then show ?thesis using None d no by (cases f) auto
  next
    case (Some i)
    then have "i \<in> set [1..<num_services d]" "free_for cls (dv_services d ! i)" using find_SomeD by fastforce+
    with Some d show ?thesis by auto
  qed
qed simp

text \<open>A role that stays unbound has no choice: its hints are binding or every service of its class is taken.\<close>

definition settled :: "nat \<Rightarrow> 'a rolemgr_scheme \<Rightarrow> bool" where
  "settled r s \<longleftrightarrow> (\<forall>m x. rm_state s = Some m \<longrightarrow> role_store s r = Some x \<longrightarrow>
     role_service x \<noteq> None \<or> (hint_dev x \<noteq> 0 \<and> force_hints m) \<or>
     (\<forall>a \<in> set (jd_devices s). \<forall>i \<ge> 1. class_at (a, i) s = Some (role_class x) \<longrightarrow> (a, i) \<in> assigned s))"

lemma settled_grows:
  assumes "settled r s" "binds s t" "grows s t"
  shows "settled r t"
proof -
  obtain m b where m: "rm_state s = Some m" "rm_state t = Some (m\<lparr>rm_changed := b\<rparr>)" using assms(2) by (auto simp: binds_def)
  have st: "same_table s t" using assms(2) by (simp add: binds_def)
  have "role_service y \<noteq> None \<or> (hint_dev y \<noteq> 0 \<and> force_hints m) \<or>
      (\<forall>a \<in> set (jd_devices t). \<forall>i \<ge> 1. class_at (a, i) t = Some (role_class y) \<longrightarrow> (a, i) \<in> assigned t)"
    if y: "role_store t r = Some y" for y
  proof -
    have "map_option role_frame (role_store t r) = map_option role_frame (role_store s r)" using assms(2) by (simp add: binds_def)
    then obtain x where x: "role_store s r = Some x" "role_frame x = role_frame y" using y by (cases "role_store s r") auto
    have keep: "role_service y \<noteq> None" if bound: "role_service x \<noteq> None"
    proof -
      obtain sp where "service_of r s = Some sp" using bound x(1) by (cases "role_service x") (auto simp: service_of_def)
      then have "service_of r t = Some sp" using assms(3) unfolding grows_def by blast
      then show ?thesis using y by (simp add: service_of_def)
    qed
    from assms(1) m(1) x(1) have "role_service x \<noteq> None \<or> (hint_dev x \<noteq> 0 \<and> force_hints m) \<or>
        (\<forall>a \<in> set (jd_devices s). \<forall>i \<ge> 1. class_at (a, i) s = Some (role_class x) \<longrightarrow> (a, i) \<in> assigned s)"
      by (simp add: settled_def)
    moreover have "jd_devices t = jd_devices s" "assigned s \<subseteq> assigned t" using st assms(3) by (simp_all add: same_table_def grows_def)
    ultimately show ?thesis using keep role_frameD(1,2) [OF x(2)] class_at_same [OF st] by (metis subset_iff)
  qed
  then show ?thesis using m(2) by (auto simp: settled_def)
qed

lemma free_unassigned: "dev_store s a = Some d \<Longrightarrow> i < num_services d \<Longrightarrow> free_for cls (dv_services d ! i) \<longleftrightarrow>
    class_at (a, i) s = Some cls \<and> (a, i) \<notin> assigned s"
  by (auto simp: free_for_def class_at_def assigned_def service_at_def)

context role_listener
begin

lemma bind_free_ok:
  assumes "role_good X s" "role_store s r = Some x" "role_service x = None" "class_at sp s = Some (role_class x)" "sp \<notin> assigned s"
  shows "\<exists>t. rolemgr_set e r (Some sp) s = Some t \<and> role_good X t \<and> binds s t \<and> grows s t \<and> service_of r t = Some sp"
proof -
  have "service_at sp s \<noteq> None" using assms(4) by (auto simp: class_at_def)
  then obtain t where t: "rolemgr_set e r (Some sp) s = Some t" "role_good X t" "bound_to r x (Some sp) s t"
    using rolemgr_set_ok [OF assms(1,2), of "Some sp"] by blast
  have a: "assigned t = insert sp (assigned s)" and st: "role_store t = (role_store s)(r \<mapsto> x\<lparr>role_service := Some sp\<rparr>)"
    using t(3) assms(3) by (simp_all add: bound_to_def)
  have "service_of r t = Some sp" "service_of r s = None" "\<And>q. q \<noteq> r \<Longrightarrow> service_of q t = service_of q s"
    using st assms(2,3) by (simp_all add: service_of_def)
  then have "grows s t" using a assms(2,4,5) unfolding grows_def new_binding_def
    by (intro conjI allI impI) (metis insertI1 insert_subset subset_insertI option.inject option.distinct(1) option.simps(9))+
  then show ?thesis using t bound_to_binds [OF assms(2) t(3)] \<open>service_of r t = Some sp\<close> by blast
qed

lemma use_hint_ok:
  assumes "role_good X s" "role_store s r = Some x"
  shows "\<exists>t. rolemgr_use_hint e r s = Some t \<and> role_good X t \<and> binds s t \<and> grows s t"
proof -
  obtain m where m: "rm_state s = Some m" using role_goodD [OF assms(1)] by metis
  have triv: "?thesis" if "rolemgr_use_hint e r s = Some s"
    using that assms(1) binds_refl [OF m] grows_refl by auto
  let ?id = "hint_device_id m (device_id s) x"
  show ?thesis
  proof (cases "role_service x \<noteq> None \<or> hint_dev x = 0 \<or> ?id = 0")
    case True
    then show ?thesis using triv m assms(2) by (auto simp: rolemgr_use_hint_def)
  next
    case False
    have "client_inv X s" using assms(1) by (simp add: role_good_def)
    then consider (dev) a d where "jd_device_lookup ?id s = Some (Some a)" "dev_store s a = Some d" | (none) "jd_device_lookup ?id s = Some None"
      using jd_device_lookup_cases by blast
    then show ?thesis
    proof cases
      case none
      then show ?thesis using triv m assms(2) False by (simp add: rolemgr_use_hint_def)
    next
      case dev
      show ?thesis
      proof (cases "nth_of_class (role_class x) (hint_srvo x) 0 (dv_services d)")
        case None
        then show ?thesis using triv dev m assms(2) False by (simp add: rolemgr_use_hint_def)
      next
        case (Some i)
        have i: "i < num_services d" "sv_class (dv_services d ! i) = role_class x"
          using nth_of_class_ok [OF Some] by (simp_all add: num_services_def)
        show ?thesis
        proof (cases "sv_flags (dv_services d ! i) AND ROLE_ASSIGNED = 0")
          case True
          have "class_at (a, i) s = Some (role_class x)" "(a, i) \<notin> assigned s"
            using free_unassigned [OF dev(2) i(1), of "role_class x"] i(2) True by (auto simp: free_for_def)
          moreover have "role_service x = None" using False by blast
          ultimately show ?thesis
            using bind_free_ok [OF assms, of "(a, i)"] False True Some dev m assms(2) by (auto simp: rolemgr_use_hint_def)
        next
          case F: False
          then show ?thesis using triv Some dev m assms(2) False by (simp add: rolemgr_use_hint_def)
        qed
      qed
    qed
  qed
qed

lemma autobind_role_ok:
  assumes "role_good X s" "role_store s r = Some x"
  shows "\<exists>t. autobind_role e r s = Some t \<and> role_good X t \<and> binds s t \<and> grows s t \<and> settled r t"
proof -
  obtain m where m: "rm_state s = Some m" using role_goodD [OF assms(1)] by metis
  have inv: "client_inv X s" using assms(1) by (simp add: role_good_def)
  have triv: "?thesis" if "autobind_role e r s = Some s" "settled r s"
    using that assms(1) binds_refl [OF m] grows_refl by auto
  show ?thesis
  proof (cases "role_service x \<noteq> None \<or> (hint_dev x \<noteq> 0 \<and> force_hints m)")
    case True
    then show ?thesis using triv m assms(2) by (auto simp: autobind_role_def settled_def)
  next
    case False
    have "set (jd_devices s) \<subseteq> dom (dev_store s)" using client_inv_dom [OF inv] by auto
    then obtain f where f: "find_service_for (dev_store s) (role_class x) (jd_devices s) = Some f"
      "case f of None \<Rightarrow> \<forall>a \<in> set (jd_devices s). \<forall>d i. dev_store s a = Some d \<longrightarrow> 1 \<le> i \<longrightarrow> i < num_services d \<longrightarrow>
            \<not> free_for (role_class x) (dv_services d ! i)
        | Some (a, i) \<Rightarrow> \<exists>d. a \<in> set (jd_devices s) \<and> dev_store s a = Some d \<and> 1 \<le> i \<and> i < num_services d \<and>
            free_for (role_class x) (dv_services d ! i)"
      using find_service_for_ok [of "jd_devices s" "dev_store s" "role_class x"] by blast
    show ?thesis
    proof (cases f)
      case None
      have "(a, i) \<in> assigned s" if a: "a \<in> set (jd_devices s)" and i: "1 \<le> i" "class_at (a, i) s = Some (role_class x)" for a i
      proof -
        obtain d where d: "dev_store s a = Some d" "i < num_services d"
          using i(2) by (auto simp: class_at_def service_at_def split: bind_splits if_splits)
        then have "\<not> free_for (role_class x) (dv_services d ! i)" using f(2) None a i(1) by auto
        then show ?thesis using free_unassigned [OF d] i(2) by auto
      qed
      then have "settled r s" using m assms(2) by (auto simp: settled_def)
      then show ?thesis using triv f(1) None m assms(2) False by (simp add: autobind_role_def)
    next
      case (Some sp)
      then obtain d where "dev_store s (fst sp) = Some d" "snd sp < num_services d" "free_for (role_class x) (dv_services d ! snd sp)"
        using f(2) by auto
      then have sp: "class_at sp s = Some (role_class x)" "sp \<notin> assigned s" using free_unassigned by (metis prod.collapse)+
      have un: "role_service x = None" using False by blast
      obtain t where t: "rolemgr_set e r (Some sp) s = Some t" "role_good X t" "binds s t" "grows s t" "service_of r t = Some sp"
        using bind_free_ok [OF assms un sp] by blast
      then have "settled r t" by (auto simp: settled_def service_of_def)
      then show ?thesis using t(1-4) False f(1) Some m assms(2) by (auto simp: autobind_role_def)
    qed
  qed
qed

lemma autobind_ok:
  assumes "role_good X s" "unlocked s"
  shows "\<exists>t. rolemgr_autobind e s = Some t \<and> role_good X t \<and> unlocked t \<and> binds s t \<and> grows s t \<and>
    (\<forall>m. rm_state s = Some m \<longrightarrow> auto_bind_enabled m \<noteq> 0 \<longrightarrow> (\<forall>r \<in> set (rm_roles m). settled r t))"
proof -
  obtain m where m: "rm_state s = Some m" "LOCK s = Some (set_rm (m\<lparr>rm_locked := True\<rparr>) s)"
    "role_good X (set_rm (m\<lparr>rm_locked := True\<rparr>) s)"
    using lock_ok [OF assms] by metis
  show ?thesis
  proof (cases "auto_bind_enabled m = 0")
    case True
    then show ?thesis using m(1) assms binds_refl grows_refl by (auto simp: rolemgr_autobind_def)
  next
    case False
    let ?s = "set_rm (m\<lparr>rm_locked := True\<rparr>) s"
    have gs: "grows s u = grows ?s u" for u
      by (simp add: grows_def new_binding_def service_of_def class_at_def)
    have "\<exists>u. rolemgr_use_hint e r s' = Some u \<and> role_good X u \<and> binds s' u \<and> grows ?s u"
      if "role_good X s'" "role_store s' r = Some x" "binds ?s s'" "grows ?s s'" for r x s'
      using use_hint_ok [OF that(1,2)] grows_trans [OF that(4) _ that(3)] by blast
    then obtain t where t: "for_roles (rolemgr_use_hint e) ?s = Some t" "role_good X t" "binds ?s t" "grows ?s t"
      using role_loop [OF m(3), of "m\<lparr>rm_locked := True\<rparr>" "\<lambda>p s'. grows ?s s'" "rolemgr_use_hint e"] grows_refl [of ?s] by auto
    obtain b where b: "rm_state t = Some (m\<lparr>rm_locked := True, rm_changed := b\<rparr>)" using t(3) by (auto simp: binds_def)
    let ?P = "\<lambda>p s'. grows t s' \<and> (\<forall>r \<in> set p. settled r s')"
    have "\<exists>u. autobind_role e r s' = Some u \<and> role_good X u \<and> binds s' u \<and> ?P (p @ [r]) u"
      if "role_good X s'" "role_store s' r = Some x" "binds t s'" "?P p s'" for p r x s'
      using autobind_role_ok [OF that(1,2)] grows_trans [of t s'] settled_grows [of _ s'] that(3,4) by fastforce
    then obtain u where u: "for_roles (autobind_role e) t = Some u" "role_good X u" "binds t u" "grows t u" "\<forall>r \<in> set (rm_roles m). settled r u"
      using role_loop [OF t(2) b, of ?P "autobind_role e"] grows_refl [of t] by auto
    have bu: "binds ?s u" using t(3) u(3) binds_trans by blast
    have "\<not> rm_locked m" using assms(2) m(1) by (simp add: unlocked_def)
    from unlock_ok [OF u(2) bu m(1) this] obtain v where v: "UNLOCK u = Some v" "role_good X v" "unlocked v" "binds s v"
      "role_store v = role_store u" "dev_store v = dev_store u" "jd_devices v = jd_devices u" by blast
    have at: "service_at sp v = service_at sp u" for sp using v(6) by (simp add: service_at_def)
    then have as: "assigned v = assigned u" "class_at sp v = class_at sp u" for sp by (simp_all add: assigned_def class_at_def)
    have gu: "grows s u" using grows_trans [OF t(4) u(4) t(3)] gs by simp
    then have "grows s v" using v(5) as by (simp add: grows_def new_binding_def service_of_def)
    moreover have "settled r v" if "r \<in> set (rm_roles m)" for r
    proof -
      obtain b1 b2 where "rm_state v = Some (m\<lparr>rm_changed := b1\<rparr>)" "rm_state u = Some (m\<lparr>rm_locked := True, rm_changed := b2\<rparr>)"
        using v(4) bu m(1) by (auto simp: binds_def)
      then show ?thesis using u(5) that v(5,7) as by (auto simp: settled_def)
    qed
    ultimately show ?thesis using False m(1,2) t(1) u(1) v(1-4) by (auto simp: rolemgr_autobind_def)
  qed
qed

end

section \<open>Names\<close>

lemma strcmp_eq_0: "strcmp a b = 0 \<longleftrightarrow> a = b"
  by (induction a b rule: strcmp.induct) auto

lemma strcmp_less_iff: "strcmp a b < 0 \<longleftrightarrow> strcmp b a > 0"
  by (induction a b rule: strcmp.induct) auto

lemma strcmp_Cons_less: "strcmp (x # xs) (y # ys) < 0 \<longleftrightarrow> x < y \<or> x = y \<and> strcmp xs ys < 0"
  by auto

lemma strcmp_trans: "strcmp a b < 0 \<Longrightarrow> strcmp b c < 0 \<Longrightarrow> strcmp a c < 0"
proof (induction a b arbitrary: c rule: strcmp.induct)
  case (4 x xs y ys)
  show ?case
  proof (cases c)
    case (Cons z zs)
    have xy: "x < y \<or> x = y \<and> strcmp xs ys < 0" and yz: "y < z \<or> y = z \<and> strcmp ys zs < 0"
      using "4.prems" unfolding Cons strcmp_Cons_less by blast+
    have ih: "x = y \<Longrightarrow> strcmp xs ys < 0 \<Longrightarrow> strcmp ys zs < 0 \<Longrightarrow> strcmp xs zs < 0" using "4.IH" [of zs] by simp
    then have "x < z \<or> x = z \<and> strcmp xs zs < 0" using xy yz by (metis order.strict_trans)
    then show ?thesis unfolding Cons strcmp_Cons_less .
  qed (use "4.prems" in simp)
next
  case (2 y ys)
  then show ?case by (cases c) simp_all
qed simp_all

text \<open>A role is found exactly by its name.\<close>

lemma memeq_name:
  assumes "0 \<notin> set a" "0 \<notin> set b"
  shows "\<exists>same. memeq (a @ [0]) (b @ [0]) (length b) = Some same \<and>
    (same \<longleftrightarrow> length b \<le> length a \<and> take (length b) a = b)"
  using assms
proof (induction b arbitrary: a)
  case (Cons y b)
  then show ?case by (cases a) auto
qed auto

lemma role_lookup_in_ok:
  assumes "\<forall>r \<in> set l. \<exists>x. st r = Some x \<and> 0 \<notin> set (role_name x)" "0 \<notin> set name"
  shows "role_lookup_in st (name @ [0]) (length name) l = Some (find (\<lambda>r. role_name (the (st r)) = name) l)"
  using assms(1)
proof (induction l)
  case (Cons r l)
  obtain x where x: "st r = Some x" "0 \<notin> set (role_name x)" using Cons.prems by auto
  obtain same where same: "memeq (role_name x @ [0]) (name @ [0]) (length name) = Some same"
    "same \<longleftrightarrow> length name \<le> length (role_name x) \<and> take (length name) (role_name x) = name"
    using memeq_name [OF x(2) assms(2)] by blast
  have "(if same then map_option (\<lambda>b. b = 0) (rd8 (role_name x @ [0]) (length name)) else Some False) = Some (role_name x = name)"
  proof (cases "same")
    case False
    then have "role_name x \<noteq> name" using same(2) by auto
    then show ?thesis using False by simp
  next
    case True
    then have t: "length name \<le> length (role_name x)" "take (length name) (role_name x) = name" using same(2) by auto
    show ?thesis
    proof (cases "length name = length (role_name x)")
      case True
      then have "role_name x = name" using t(2) by simp
      then show ?thesis using \<open>same\<close> by (simp add: rd8_def)
    next
      case False
      then have lt: "length name < length (role_name x)" using t(1) by simp
      then have "role_name x ! length name \<noteq> 0" using x(2) nth_mem by metis
      moreover have "role_name x \<noteq> name" using lt by auto
      ultimately show ?thesis using lt \<open>same\<close> by (simp add: rd8_def nth_append)
    qed
  qed
  then show ?case using Cons x(1) same(1) by simp
qed simp

lemma link_role_ok:
  assumes "\<forall>q \<in> set l. \<exists>x. st q = Some x" "sorted_wrt (\<lambda>a b. strcmp a b < 0) (names_of st l)" "name \<notin> set (names_of st l)"
  shows "\<exists>xs ys. l = xs @ ys \<and> link_role st r name l = Some (xs @ r # ys) \<and>
    (\<forall>q \<in> set xs. strcmp (role_name (the (st q))) name < 0) \<and> (\<forall>q \<in> set ys. strcmp name (role_name (the (st q))) < 0)"
  using assms
proof (induction l)
  case (Cons q l)
  then obtain x where x: "st q = Some x" by auto
  then have ne: "name \<noteq> role_name x" using Cons.prems(3) by (simp add: names_of_def)
  show ?case
  proof (cases "strcmp name (role_name x) < 0")
    case True
    then have "\<forall>p \<in> set (q # l). strcmp name (role_name (the (st p))) < 0"
      using Cons.prems(2) x strcmp_trans by (auto simp: names_of_def)
    then show ?thesis using True x by (intro exI [of _ "[]"] exI [of _ "q # l"]) simp
  next
    case False
    then have "strcmp (role_name x) name < 0" using ne strcmp_less_iff [of name "role_name x"] strcmp_less_iff [of "role_name x" name]
        strcmp_eq_0 [of name "role_name x"] by linarith
    moreover obtain xs ys where "l = xs @ ys" "link_role st r name l = Some (xs @ r # ys)"
      "\<forall>q \<in> set xs. strcmp (role_name (the (st q))) name < 0" "\<forall>q \<in> set ys. strcmp name (role_name (the (st q))) < 0"
      using Cons by (auto simp: names_of_def)
    ultimately show ?thesis using False x by (intro exI [of _ "q # xs"] exI [of _ ys]) simp
  qed
qed simp

end
