(* ===== verification/Jd_Binding.thy ===== *)
theory Jd_Binding
  imports Jd_Role
begin

text \<open>
  The commands of the role manager and the interface of the application keep the invariant of the roles.  With
  the routing of packets they are the steps of a state machine; the invariant holds in all its states.
\<close>

section \<open>What the transport leaves alone\<close>

lemma upper_fields:
  assumes "pipe_upper t = pipe_upper s"
  shows "dev_store t = dev_store s" "jd_devices t = jd_devices s" "next_addr t = next_addr s" "event_scope t = event_scope s"
    "jd_client_listeners t = jd_client_listeners s" "rm_state t = rm_state s" "role_store t = role_store s"
    "rolemgr.more t = rolemgr.more s" "device_id t = device_id s" "now_us t = now_us s"
proof -
  have "pipes.more t = pipes.more s" "device_id t = device_id s" "now_us t = now_us s" using assms by (simp_all add: pipe_upper_def)
  then show "dev_store t = dev_store s" "jd_devices t = jd_devices s" "next_addr t = next_addr s" "event_scope t = event_scope s"
    "jd_client_listeners t = jd_client_listeners s" "rm_state t = rm_state s" "role_store t = role_store s"
    "rolemgr.more t = rolemgr.more s" "device_id t = device_id s" "now_us t = now_us s"
    by (cases s rule: rolemgr.cases_scheme, cases t rule: rolemgr.cases_scheme, simp)+
qed

lemma client_inv_eq:
  assumes "dev_store t = dev_store s" "jd_devices t = jd_devices s" "next_addr t = next_addr s" "device_id t = device_id s"
  shows "client_inv X t = client_inv X s" "service_at sp t = service_at sp s"
  using assms by (simp_all add: client_inv_def table_def devs_ok_def service_at_def)

lemma client_inv_addr:
  assumes "client_inv X s" "dev_store t = dev_store s" "jd_devices t = jd_devices s" "next_addr s \<le> next_addr t" "device_id t = device_id s"
  shows "client_inv X t"
proof -
  have "a < next_addr t \<and> dev_ok (next_addr t) d" if "dev_store s a = Some d" for a d
  proof -
    have "a < next_addr s" "dev_ok (next_addr s) d" using assms(1) that by (auto simp: client_inv_def devs_ok_def)
    then show ?thesis using assms(4) by (auto simp: dev_ok_def)
  qed
  then show ?thesis using assms by (simp add: client_inv_def devs_ok_def table_def)
qed

context role_listener
begin

lemma role_good_eq:
  assumes "role_good X s" "dev_store t = dev_store s" "jd_devices t = jd_devices s" "next_addr t = next_addr s"
    "device_id t = device_id s" "event_scope t = event_scope s" "jd_client_listeners t = jd_client_listeners s"
    "rm_state t = rm_state s" "role_store t = role_store s" "rolemgr.more t = rolemgr.more s"
  shows "role_good X t"
proof -
  have "service_at sp t = service_at sp s" for sp using client_inv_eq(2) assms by blast
  then have "roles_inv t" using roles_inv_cong [of s t] assms by (simp add: role_good_def)
  moreover have "linv t" using core [of s t] assms by (simp add: role_good_def)
  moreover have "client_inv X t" using client_inv_eq(1) [of t s X] assms by (simp add: role_good_def)
  ultimately show ?thesis using assms(1,6) by (simp add: role_good_def)
qed

lemma role_good_upper: "role_good X s \<Longrightarrow> pipe_upper t = pipe_upper s \<Longrightarrow> role_good X t"
  using role_good_eq [of X s t] upper_fields [of t s] by simp

lemma list_rm:
  assumes "role_good X s" "rm_state s = Some m" "\<forall>r. p = Some r \<longrightarrow> r \<in> set (rm_roles m)"
  shows "role_good X (set_rm (m\<lparr>list_ptr := p\<rparr>) s)"
  using role_good_rm [OF assms(1,2), of "m\<lparr>list_ptr := p\<rparr>"] assms(3) by simp

end

section \<open>Listing\<close>

lemma first_visible_in: "first_visible st l = Some (Some r) \<Longrightarrow> r \<in> set l"
  by (induction l) (auto simp: bind_Some_iff split: if_splits)

lemma next_visible_in:
  assumes "next_visible p s = Some (Some r)" "rm_state s = Some m"
  shows "r \<in> set (rm_roles m)"
proof -
  obtain q where "first_visible (role_store s) (dropWhile (\<lambda>x. x \<noteq> q) (rm_roles m)) = Some (Some r)"
    using assms by (auto simp: next_visible_def split: option.splits)
  from first_visible_in [OF this] show ?thesis by (rule set_dropWhileD)
qed

context role_listener
begin

definition safe :: "'a rolemgr_scheme \<Rightarrow> bool" where
  "safe s \<longleftrightarrow> role_good {} s \<and> unlocked s"

lemma safe_upper: "safe s \<Longrightarrow> pipe_upper t = pipe_upper s \<Longrightarrow> safe t"
  using role_good_upper [of "{}" s t] upper_fields(6) [of t s] by (simp add: safe_def unlocked_def)

lemma safe_rm:
  assumes "safe s" "rm_state s = Some m" "rm_roles m' = rm_roles m" "\<forall>r. list_ptr m' = Some r \<longrightarrow> r \<in> set (rm_roles m)"
    "rm_locked m' = rm_locked m"
  shows "safe (set_rm m' s)"
  using role_good_rm [of "{}" s m m'] assms by (simp add: safe_def unlocked_def)

lemma safe_binds: "role_good {} t \<Longrightarrow> binds s t \<Longrightarrow> unlocked s \<Longrightarrow> safe t"
  by (auto simp: safe_def binds_def unlocked_def)

lemma safeD:
  assumes "safe s"
  obtains m where "rm_state s = Some m" "\<not> rm_locked m" "\<forall>r. list_ptr m = Some r \<longrightarrow> r \<in> set (rm_roles m)"
    "dom (role_store s) = set (rm_roles m)" "distinct (rm_roles m)"
proof -
  obtain m where "rm_state s = Some m" "distinct (rm_roles m)" "dom (role_store s) = set (rm_roles m)"
    "\<forall>r. list_ptr m = Some r \<longrightarrow> r \<in> set (rm_roles m)"
    using assms role_goodD [of "{}" s] unfolding safe_def by metis
  moreover then have "\<not> rm_locked m" using assms by (simp add: safe_def unlocked_def)
  ultimately show ?thesis using that by blast
qed

lemma close_safe:
  "safe s \<Longrightarrow> map_option fst (jd_opipe_close a s) = Some t \<Longrightarrow> safe t"
  using jd_opipe_close_upper safe_upper by fastforce

lemma list_ptr_safe:
  "safe s \<Longrightarrow> rm_state s = Some m \<Longrightarrow> \<forall>r. p = Some r \<longrightarrow> r \<in> set (rm_roles m) \<Longrightarrow> safe (set_rm (m\<lparr>list_ptr := p\<rparr>) s)"
  by (rule safe_rm) simp_all

lemma set_opipe_safe: "safe s \<Longrightarrow> rm_state s = Some m \<Longrightarrow> safe (set_opipe a d s) \<and> rm_state (set_opipe a d s) = Some m"
  using safe_upper [of s "set_opipe a d s"] upper_fields(6) [of "set_opipe a d s" s] by simp

lemma list_from_safe:
  assumes "list_from q m s = Some t" "safe s" "rm_state s = Some m"
  shows "safe t"
proof -
  obtain p where p: "next_visible q s = Some p"
    "(if p = None then map_option fst (jd_opipe_close (list_pipe m) (set_rm (m\<lparr>list_ptr := p\<rparr>) s))
      else Some (set_rm (m\<lparr>list_ptr := p\<rparr>) s)) = Some t"
    using assms(1) unfolding list_from_def Let_def bind_Some_iff by blast
  have "\<forall>x. p = Some x \<longrightarrow> x \<in> set (rm_roles m)" using next_visible_in [OF _ assms(3), of q] p(1) by simp
  then have "safe (set_rm (m\<lparr>list_ptr := p\<rparr>) s)" by (rule list_ptr_safe [OF assms(2,3)])
  then show ?thesis using p(2) close_safe by (auto split: if_splits)
qed

lemma list_step_safe:
  assumes "list_step k r m s = Some (t, go)" "safe s" "rm_state s = Some m"
  shows "safe t"
proof -
  obtain sz d err where d: "jd_opipe_check_space (now_us s) sz (op_store s (list_pipe m)) = Some (d, err)"
    "rolemgr_serialized_role_size k r s = Some sz"
    using assms(1) by (auto simp: list_step_def bind_Some_iff)
  define s1 where "s1 = set_opipe (list_pipe m) d s"
  have s1: "safe s1" "rm_state s1 = Some m" using set_opipe_safe [OF assms(2,3)] by (simp_all add: s1_def)
  have close: "safe u" if "jd_opipe_close (list_pipe m) (set_rm (m\<lparr>list_ptr := None\<rparr>) s1) = Some (u, x)" for u x
    using close_safe [OF list_ptr_safe [OF s1, of None], of "list_pipe m" u] that by simp
  have nxt: "safe u" if "list_from q m (set_opipe (list_pipe m) d2 s1) = Some u" for q d2 u
    using list_from_safe [OF that] set_opipe_safe [OF s1] by blast
  show ?thesis
    using assms(1) s1(1) unfolding list_step_def d bind.bind_lunit Let_def prod.case s1_def [symmetric]
    by (auto simp: bind_Some_iff split: if_splits dest: close nxt)
qed

lemma list_loop_safe:
  assumes "list_loop k s = Some t" "safe s"
  shows "safe t"
proof -
  have "safe s \<longrightarrow> safe t"
  proof (rule list_loop.raw_induct [where P = "\<lambda>_ s t. safe s \<longrightarrow> safe t", OF _ assms(1)], intro impI)
    fix loop k and s t :: "'a rolemgr_scheme"
    assume ih: "\<And>k u v. loop k u = Some v \<Longrightarrow> safe u \<longrightarrow> safe v" and "safe s"
      and body: "do { m \<leftarrow> rm_state s; case list_ptr m of None \<Rightarrow> Some s
        | Some r \<Rightarrow> do { (s, go) \<leftarrow> list_step k r m s; if go then loop k s else Some s } } = Some t"
    obtain m where m: "rm_state s = Some m" using safeD [OF \<open>safe s\<close>] by metis
    show "safe t"
    proof (cases "list_ptr m")
      case None
      then show ?thesis using body m \<open>safe s\<close> by simp
    next
      case (Some r)
      then obtain u go where u: "list_step k r m s = Some (u, go)" "(if go then loop k u else Some u) = Some t"
        using body m by (auto simp: bind_Some_iff)
      have "safe u" by (rule list_step_safe [OF u(1) \<open>safe s\<close> m])
      then show ?thesis using u(2) ih [of k u t] by (cases go) simp_all
    qed
  qed
  then show ?thesis using assms(2) by blast
qed

end

section \<open>Every operation of the role manager keeps the invariant\<close>

context role_listener
begin

lemma autobind_safe: "safe s \<Longrightarrow> \<exists>t. rolemgr_autobind e s = Some t \<and> safe t"
  using autobind_ok [of "{}" s] by (auto simp: safe_def)

lemma rolemgr_process_safe:
  assumes "rolemgr_process e k s = Some t" "safe s"
  shows "safe t"
proof -
  obtain s1 m where s1: "list_loop k s = Some s1" "rm_state s1 = Some m"
    using assms(1) by (auto simp: rolemgr_process_def bind_Some_iff)
  obtain due t1 where d1: "jd_should_sample (now_us s1) (next_autobind m) AUTOBIND_US = (due, t1)" by fastforce
  obtain s2 m2 where s2: "(if due then rolemgr_autobind e (set_rm (m\<lparr>next_autobind := t1\<rparr>) s1)
      else Some (set_rm (m\<lparr>next_autobind := t1\<rparr>) s1)) = Some s2" "rm_state s2 = Some m2"
    using assms(1) s1 d1 by (auto simp: rolemgr_process_def Let_def bind_Some_iff split: if_splits)
  obtain due2 t2 where d2: "jd_should_sample (now_us s2) (changed_timeout m2) 50000 = (due2, t2)" by fastforce
  let ?m = "m2\<lparr>changed_timeout := t2\<rparr>"
  have rest: "(if due2 \<and> rm_changed m2 then do {
       (ev, s) \<leftarrow> jd_send_event_ext (EVENT_QUEUE_SIZE k) (rm_index m2) (EV_CHANGE k) [] (ev_state s2) (set_rm (?m\<lparr>rm_changed := False\<rparr>) s2);
       Some (s\<lparr>ev_state := ev\<rparr>) } else Some (set_rm ?m s2)) = Some t"
    using assms(1) s1 d1 s2 d2 by (auto simp: rolemgr_process_def Let_def set_rm_def split: if_splits)
  have "safe s1" by (rule list_loop_safe [OF s1(1) assms(2)])
  then have "safe (set_rm (m\<lparr>next_autobind := t1\<rparr>) s1)" by (rule safe_rm [OF _ s1(2)]) (use safeD [OF \<open>safe s1\<close>] s1(2) in auto)
  then have "safe s2" using s2(1) autobind_safe [of "set_rm (m\<lparr>next_autobind := t1\<rparr>) s1"] by (cases due) auto
  have ptr: "\<forall>r. list_ptr m2 = Some r \<longrightarrow> r \<in> set (rm_roles m2)" using safeD [OF \<open>safe s2\<close>] s2(2) by auto
  have a: "safe (set_rm ?m s2)" "safe (set_rm (?m\<lparr>rm_changed := False\<rparr>) s2)"
    by (rule safe_rm [OF \<open>safe s2\<close> s2(2)]; use ptr in simp)+
  show ?thesis
  proof (cases "due2 \<and> rm_changed m2")
    case True
    then obtain ev u where u: "jd_send_event_ext (EVENT_QUEUE_SIZE k) (rm_index m2) (EV_CHANGE k) [] (ev_state s2)
        (set_rm (?m\<lparr>rm_changed := False\<rparr>) s2) = Some (ev, u)" "t = u\<lparr>ev_state := ev\<rparr>"
      using rest by (auto simp: bind_Some_iff)
    have "safe u" by (rule safe_upper [OF a(2)]) (rule bus_pipe_upper [OF jd_send_event_ext_upper [OF u(1)]])
    then show ?thesis using role_good_eq [of "{}" u t] u(2) by (simp add: safe_def unlocked_def)
  qed (use rest a(1) in auto)
qed

lemma set_role_safe:
  assumes "rolemgr_set_role e k p s = Some t" "safe s"
  shows "safe t"
proof -
  have bind: "safe u" if set: "rolemgr_set e r serv s = Some u" and x: "role_store s r = Some x" and sp: "\<forall>sp. serv = Some sp \<longrightarrow> service_at sp s \<noteq> None"
    for u r serv x
  proof -
    obtain v where "rolemgr_set e r serv s = Some v" "role_good {} v" "bound_to r x serv s v"
      using rolemgr_set_ok [of "{}" s r x serv] assms(2) x sp unfolding safe_def by blast
    then show ?thesis using set safe_binds [of u s] bound_to_binds [OF x] assms(2) by (auto simp: safe_def)
  qed
  let ?data = "drop 4 (frm_data p)"
  obtain r where look: "rolemgr_lookup (drop (set_role_size k) ?data) (sub32 (pkt_service_size p) (set_role_size k)) s = Some r"
    using assms(1) by (auto simp: rolemgr_set_role_def Let_def bind_Some_iff)
  show ?thesis
  proof (cases r)
    case None
    then show ?thesis using assms look by (simp add: rolemgr_set_role_def Let_def)
  next
    case (Some r)
    obtain m where m: "rm_state s = Some m" "dom (role_store s) = set (rm_roles m)" using safeD [OF assms(2)] by metis
    have "role_lookup_in (role_store s) n l rs = Some (Some r) \<Longrightarrow> r \<in> set rs" for n l rs
      by (induction rs) (auto simp: bind_Some_iff split: if_splits)
    then have "r \<in> dom (role_store s)" using look Some m by (auto simp: rolemgr_lookup_def)
    then obtain x where x: "role_store s r = Some x" by auto
    show ?thesis
    proof (cases "set_role_device_id k ?data = 0")
      case True
      then show ?thesis using assms(1) look Some bind [of r None t x] x by (simp add: rolemgr_set_role_def Let_def)
    next
      case False
      then obtain dev serv where ds: "jd_device_lookup (set_role_device_id k ?data) s = Some dev"
        "jd_device_get_service dev (set_role_service_idx k ?data) s = Some serv"
        "(case serv of None \<Rightarrow> Some s | Some sp \<Rightarrow> rolemgr_set e r (Some sp) s) = Some t"
        using assms(1) look Some by (auto simp: rolemgr_set_role_def Let_def bind_Some_iff)
      have "\<forall>sp. serv = Some sp \<longrightarrow> service_at sp s \<noteq> None"
        using ds(2) unfolding service_at_iff by (auto simp: jd_device_get_service_def bind_Some_iff split: option.splits if_splits)
      then show ?thesis using ds(3) bind [OF _ x] assms(2) by (cases serv) auto
    qed
  qed
qed

lemma clear_all_safe:
  assumes "safe s"
  shows "\<exists>t. for_roles (\<lambda>r. rolemgr_set e r None) s = Some t \<and> safe t \<and> (\<forall>r. service_of r t = None)"
proof -
  obtain m where m: "rm_state s = Some m" "dom (role_store s) = set (rm_roles m)" using safeD [OF assms] by metis
  let ?P = "\<lambda>p s'. \<forall>r \<in> set p. service_of r s' = None"
  have "\<exists>t. rolemgr_set e r None s' = Some t \<and> role_good {} t \<and> binds s' t \<and> ?P (p @ [r]) t"
    if s': "role_good {} s'" "role_store s' r = Some x" "?P p s'" for p r x s'
  proof -
    obtain t where t: "rolemgr_set e r None s' = Some t" "role_good {} t" "bound_to r x None s' t"
      using rolemgr_set_ok [OF s'(1,2), of None] by auto
    have "?P (p @ [r]) t" using t(3) s'(3) by (auto simp: bound_to_def service_of_def)
    then show ?thesis using t bound_to_binds [OF s'(2) t(3)] by blast
  qed
  then obtain t where t: "for_roles (\<lambda>r. rolemgr_set e r None) s = Some t" "role_good {} t" "binds s t" "?P (rm_roles m) t"
    using role_loop [of "{}" s m ?P "\<lambda>r. rolemgr_set e r None"] assms m(1) by (auto simp: safe_def)
  have "service_of r t = None" for r
  proof (cases "role_store s r")
    case None
    then have "role_store t r = None" using binds_None [OF t(3)] by simp
    then show ?thesis by (simp add: service_of_def)
  qed (use t(4) m(2) in auto)
  then show ?thesis using t safe_binds [OF t(2,3)] assms by (auto simp: safe_def)
qed

lemma registers_safe:
  assumes "rolemgr_registers c k p s = Some t" "safe s"
  shows "safe t"
proof -
  obtain m img u r where u: "rm_state s = Some m" "service_handle_register_final c (rm_image m) p (rolemgr_regs k) s = Some (img, u, r)"
    "t = set_rm (m\<lparr>auto_bind_enabled := img ! 6, all_roles_allocated := img ! 7\<rparr>) u"
    using assms(1) by (auto simp: rolemgr_registers_def bind_Some_iff)
  have up: "pipe_upper u = pipe_upper s" by (rule bus_pipe_upper [OF service_handle_register_final_upper [OF u(2)]])
  then have "safe u" "rm_state u = Some m" using safe_upper [OF assms(2)] upper_fields(6) [OF up] u(1) by simp_all
  then show ?thesis unfolding u(3) by (rule safe_rm) (use safeD [OF \<open>safe u\<close>] \<open>rm_state u = Some m\<close> in auto)
qed

lemma update_allocated_safe:
  assumes "rolemgr_update_allocated s = Some t" "safe s"
  shows "safe t"
proof -
  obtain m b where m: "rm_state s = Some m" "t = set_rm (m\<lparr>all_roles_allocated := b\<rparr>) s"
    using assms(1) by (auto simp: rolemgr_update_allocated_def bind_Some_iff)
  show ?thesis unfolding m(2) by (rule safe_rm [OF assms(2) m(1)]) (use safeD [OF assms(2)] m(1) in auto)
qed

lemma rolemgr_handle_packet_safe:
  assumes "rolemgr_handle_packet e k p s = Some t" "safe s"
  shows "safe t"
proof -
  obtain m where m: "rm_state s = Some m" "\<not> rm_locked m" using safeD [OF assms(2)] by metis
  let ?cmd = "pkt_service_command p"
  consider (clear) "?cmd = CMD_CLEAR_ALL_ROLES k" | (set) "?cmd \<noteq> CMD_CLEAR_ALL_ROLES k" "?cmd = CMD_SET_ROLE k"
    | (list) "?cmd \<noteq> CMD_CLEAR_ALL_ROLES k" "?cmd \<noteq> CMD_SET_ROLE k" "?cmd = CMD_LIST_ROLES k"
    | (reg) "?cmd \<noteq> CMD_CLEAR_ALL_ROLES k" "?cmd \<noteq> CMD_SET_ROLE k" "?cmd \<noteq> CMD_LIST_ROLES k" by blast
  then show ?thesis
  proof cases
    case clear
    then show ?thesis using assms m clear_all_safe [OF assms(2)] by (auto simp: rolemgr_handle_packet_def jd_assert_def)
  next
    case set
    then show ?thesis using assms m set_role_safe by (simp add: rolemgr_handle_packet_def jd_assert_def)
  next
    case list
    obtain u r where u: "jd_opipe_open_cmd (list_pipe m) p s = Some (u, r)"
      using assms(1) m list by (auto simp: rolemgr_handle_packet_def jd_assert_def bind_Some_iff)
    have up: "pipe_upper u = pipe_upper s" by (rule jd_opipe_open_cmd_upper [OF u])
    have su: "safe u" "rm_state u = Some m" using safe_upper [OF assms(2) up] upper_fields(6) [OF up] m(1) by simp_all
    show ?thesis using assms(1) m list u su list_from_safe [OF _ su] by (auto simp: rolemgr_handle_packet_def jd_assert_def split: if_splits)
  next
    case reg
    then obtain u where "rolemgr_update_allocated s = Some u" "rolemgr_registers (ce_sys e) k p u = Some t"
      using assms(1) m by (auto simp: rolemgr_handle_packet_def jd_assert_def bind_Some_iff)
    then show ?thesis using update_allocated_safe registers_safe assms(2) by blast
  qed
qed

end

section \<open>Creating and freeing roles\<close>

context role_listener
begin

lemma stop_list_safe:
  assumes "stop_list s = Some t" "safe s"
  shows "safe t" "role_store t = role_store s" "next_addr t = next_addr s" "event_scope t = event_scope s"
    "\<exists>m m'. rm_state s = Some m \<and> rm_state t = Some m' \<and> rm_roles m' = rm_roles m \<and> list_ptr m' = None"
proof -
  obtain m where m: "rm_state s = Some m" "\<not> rm_locked m" using safeD [OF assms(2)] by metis
  have "safe t \<and> role_store t = role_store s \<and> next_addr t = next_addr s \<and> event_scope t = event_scope s \<and>
      (\<exists>m'. rm_state t = Some m' \<and> rm_roles m' = rm_roles m \<and> list_ptr m' = None)"
  proof (cases "list_ptr m")
    case None
    then show ?thesis using assms m by (simp add: stop_list_def jd_assert_def)
  next
    case (Some r)
    let ?s = "set_rm (m\<lparr>list_ptr := None\<rparr>) s"
    obtain x where x: "jd_opipe_close (list_pipe m) ?s = Some (t, x)"
      using assms(1) m Some by (auto simp: stop_list_def jd_assert_def)
    have up: "pipe_upper t = pipe_upper ?s" by (rule jd_opipe_close_upper [OF x])
    have "safe ?s" by (rule list_ptr_safe [OF assms(2) m(1)]) simp
    then show ?thesis using safe_upper [OF _ up] upper_fields(3,4,6,7) [OF up] by simp
  qed
  then show "safe t" "role_store t = role_store s" "next_addr t = next_addr s" "event_scope t = event_scope s"
    "\<exists>m m'. rm_state s = Some m \<and> rm_state t = Some m' \<and> rm_roles m' = rm_roles m \<and> list_ptr m' = None"
    using m(1) by auto
qed

lemma role_names_ok:
  assumes "safe s" "rm_state s = Some m" "r \<in> set (rm_roles m)"
  shows "\<exists>x. role_store s r = Some x \<and> 0 \<notin> set (role_name x)"
proof -
  obtain x where "role_store s r = Some x" using safeD [OF assms(1)] assms(2,3) by (metis domD option.inject)
  then show ?thesis using assms(1) by (auto simp: safe_def role_good_def roles_inv_def role_ok_def)
qed

lemma jd_role_alloc_safe:
  assumes "jd_role_alloc name cls s = Some (t, r)" "safe s" "0 \<notin> set name"
  shows "safe t" "role_store s r = None" "\<exists>x. role_store t = (role_store s)(r \<mapsto> x) \<and> role_name x = name \<and> role_class x = cls \<and> role_service x = None"
proof -
  obtain u m hn ho l where u: "rolemgr_lookup (name @ [0]) (length name) s = Some None" "stop_list s = Some u" "rm_state u = Some m"
    "link_role (role_store u) (next_addr u) name (rm_roles m) = Some l" "r = next_addr u"
    "t = (set_rm (m\<lparr>rm_roles := l, rm_changed := True\<rparr>) u)\<lparr>role_store := (role_store u)(r \<mapsto> \<lparr>role_name = name, role_class = cls,
       role_hidden = False, hint_dev = hn, hint_srvo = ho, role_service = None\<rparr>), next_addr := r + 1\<rparr>"
    using assms(1) by (auto simp: jd_role_alloc_def bind_Some_iff Let_def jd_assert_def split: if_splits)
  note stop = stop_list_safe [OF u(2) assms(2)]
  have inv: "client_inv {} u" "roles_inv u" "linv u" "event_scope u = 0" "unlocked u" using stop(1) by (simp_all add: safe_def role_good_def)
  obtain m0 where m0: "rm_state s = Some m0" "rm_roles m0 = rm_roles m" using stop(5) u(3) by auto
  have dom: "dom (role_store u) = set (rm_roles m)" "distinct (rm_roles m)" using safeD [OF stop(1)] u(3) by auto
  have names: "\<forall>q \<in> set (rm_roles m). \<exists>x. role_store u q = Some x \<and> 0 \<notin> set (role_name x)" using role_names_ok [OF stop(1) u(3)] by blast
  have fresh: "role_store u r = None" using inv(2) u(5) by (cases "role_store u r") (auto simp: roles_inv_def)
  have srt: "sorted_wrt (\<lambda>a b. strcmp a b < 0) (names_of (role_store u) (rm_roles m))" using inv(2) u(3) by (auto simp: roles_inv_def)
  have "find (\<lambda>q. role_name (the (role_store u q)) = name) (rm_roles m) = None"
    using u(1) m0 role_lookup_in_ok [OF names assms(3)] stop(2) by (simp add: rolemgr_lookup_def)
  then have new: "name \<notin> set (names_of (role_store u) (rm_roles m))" by (auto simp: names_of_def find_None_iff)
  obtain xs ys where l: "rm_roles m = xs @ ys" "l = xs @ r # ys" "\<forall>q \<in> set xs. strcmp (role_name (the (role_store u q))) name < 0"
    "\<forall>q \<in> set ys. strcmp name (role_name (the (role_store u q))) < 0"
  proof -
    have "\<forall>q \<in> set (rm_roles m). \<exists>x. role_store u q = Some x" using names by blast
    from link_role_ok [OF this srt new, of r] show ?thesis using that u(4,5) by auto
  qed
  define x where "x = \<lparr>role_name = name, role_class = cls, role_hidden = False, hint_dev = hn, hint_srvo = ho, role_service = None\<rparr>"
  have rs: "role_store t = (role_store u)(r \<mapsto> x)" by (simp add: u(6) x_def)
  have notin: "r \<notin> set xs" "r \<notin> set ys" using fresh dom(1) l(1) by auto
  have "names_of (role_store t) l = names_of (role_store u) xs @ name # names_of (role_store u) ys"
    using notin unfolding rs l(2) by (auto simp: names_of_def x_def)
  moreover have "names_of (role_store u) (rm_roles m) = names_of (role_store u) xs @ names_of (role_store u) ys" using l(1) by (simp add: names_of_def)
  ultimately have "sorted_wrt (\<lambda>a b. strcmp a b < 0) (names_of (role_store t) l)"
    using srt l(3,4) by (auto simp: sorted_wrt_append names_of_def)
  moreover have at: "service_at sp t = service_at sp u" for sp by (simp add: u(6) service_at_def)
  ultimately have "roles_inv t"
    using inv(2) u(3,5) dom l(1,2) notin assms(3) by (auto simp: u(6) roles_inv_def role_ok_def x_def less_Suc_eq)
  moreover have "linv t" by (rule create [OF inv(3) fresh _ rs]) (simp_all add: x_def u(6))
  moreover have "client_inv {} t"
    by (rule client_inv_addr [OF inv(1)]) (simp_all add: u(5,6))
  ultimately show "safe t" using inv(4,5) u(3) by (simp add: safe_def role_good_def u(6) unlocked_def)
  show "role_store s r = None" using fresh stop(2) by simp
  show "\<exists>x. role_store t = (role_store s)(r \<mapsto> x) \<and> role_name x = name \<and> role_class x = cls \<and> role_service x = None"
    using rs stop(2) by (auto simp: x_def)
qed

lemma jd_role_set_hints_safe: "jd_role_set_hints f a s = Some t \<Longrightarrow> safe s \<Longrightarrow> safe t"
proof -
  assume h: "jd_role_set_hints f a s = Some t" and s: "safe s"
  obtain m where m: "rm_state s = Some m" "t = set_rm (m\<lparr>app_device_id := a, force_hints := f\<rparr>) s"
    using h by (auto simp: jd_role_set_hints_def bind_Some_iff)
  show ?thesis unfolding m(2) by (rule safe_rm [OF s m(1)]) (use safeD [OF s] m(1) in auto)
qed

text \<open>After a role is freed the list and the store are again in step.\<close>

lemma jd_role_free_inv:
  assumes "jd_role_free e (Some r) s = Some t" "safe s"
  shows "client_inv {} t \<and> roles_inv t \<and> unlocked t \<and> role_store t r = None"
proof -
  obtain u where u: "stop_list s = Some u" using assms(1) by (auto simp: jd_role_free_def bind_Some_iff)
  have su: "role_good {} u" "unlocked u" using stop_list_safe(1) [OF u assms(2)] by (simp_all add: safe_def)
  obtain m where m: "rm_state u = Some m" "LOCK u = Some (set_rm (m\<lparr>rm_locked := True\<rparr>) u)" "role_good {} (set_rm (m\<lparr>rm_locked := True\<rparr>) u)"
    using lock_ok [OF su] by metis
  let ?u = "set_rm (m\<lparr>rm_locked := True\<rparr>) u"
  obtain v where v: "rolemgr_set e r None ?u = Some v" using assms(1) u m(2) by (auto simp: jd_role_free_def bind_Some_iff)
  then obtain x where x: "role_store ?u r = Some x" by (auto simp: rolemgr_set_def bind_Some_iff)
  have bt: "role_good {} v" "binds ?u v" using rolemgr_set_ok [OF m(3) x, of None] v bound_to_binds [OF x] by auto
  have "\<not> rm_locked m" using su(2) m(1) by (simp add: unlocked_def)
  from unlock_ok [OF bt m(1) this] obtain w where w: "UNLOCK v = Some w" "role_good {} w" "unlocked w" "binds u w" by blast
  obtain mw where mw: "rm_state w = Some mw" "distinct (rm_roles mw)" "dom (role_store w) = set (rm_roles mw)" using role_goodD [OF w(2)] by metis
  have t: "t = (set_rm (mw\<lparr>rm_roles := remove1 r (rm_roles mw)\<rparr>) w)\<lparr>role_store := (role_store w)(r := None)\<rparr>" "r \<in> set (rm_roles mw)"
    using assms(1) u m(2) v w(1) mw(1) by (auto simp: jd_role_free_def bind_Some_iff jd_assert_def split: if_splits)
  have names: "names_of ((role_store w)(r := None)) (remove1 r (rm_roles mw)) = names_of (role_store w) (remove1 r (rm_roles mw))"
    using mw(2) by (auto simp: names_of_def)
  have "list_ptr mw = None"
    using stop_list_safe(5) [OF u assms(2)] m(1) mw(1) w(4) by (auto simp: binds_def)
  moreover have "sorted_wrt (\<lambda>a b. strcmp a b < 0) (names_of ((role_store w)(r := None)) (remove1 r (rm_roles mw)))"
    unfolding names unfolding names_of_def
    by (rule sorted_wrt_remove1) (use w(2) mw(1) in \<open>auto simp: role_good_def roles_inv_def names_of_def\<close>)
  ultimately have "roles_inv t"
    using w(2) mw(1-3) by (auto simp: t(1) role_good_def roles_inv_def role_ok_def)
  then show ?thesis using w(2,3) mw(1) by (simp add: t(1) role_good_def unlocked_def)
qed

end

end
