(* ===== verification/Jd_Hclient.thy ===== *)
theory Jd_Hclient
  imports Jd_Binding
begin

text \<open>
  The client objects of the application, client/hclient.c: each has a role and follows the binding of that role
  through the events of the client core.  Threads and mutexes are those of the platform; the model is the thread
  that runs the main loop, and locking a mutex that this thread holds already is \<open>None\<close>.  The queue of callback
  events does not exist in the code yet (\<open>jdc_emit_event\<close> drops its event), and the functions whose body is
  \<open>TODO\<close> panic.
\<close>

definition JDC_STATUS_UNBOUND :: int where "JDC_STATUS_UNBOUND = -1"
definition JDC_STATUS_NOT_IMPL :: int where "JDC_STATUS_NOT_IMPL = -3"
definition JDC_TIMEOUT_DEFAULT :: nat where "JDC_TIMEOUT_DEFAULT = 200"

record reg_query =
  hq_asker :: nat
  hq_dst :: mem
  hq_code :: nat
  hq_dst_size :: nat
  hq_ok :: bool

record jdc_client =
  jc_locked :: bool
  jc_role :: nat
  jc_service :: "serv_ptr option"
  jc_userdata :: nat
  jc_queries :: "reg_query list"
  jc_write_timeout :: nat
  jc_read_timeout :: nat
  jc_read_flags :: byte
  jc_write_flags :: byte
  jc_streaming :: nat

record hclient = rolemgr +
  client_list :: "nat list"
  jdc_store :: "nat \<Rightarrow> jdc_client option"
  client_mut :: bool
  resumed :: "reg_query list"

definition set_jdc :: "nat \<Rightarrow> jdc_client \<Rightarrow> 'a hclient_scheme \<Rightarrow> 'a hclient_scheme" where
  "set_jdc a c s = s\<lparr>jdc_store := (jdc_store s)(a \<mapsto> c)\<rparr>"

section \<open>Creation and accessors\<close>

definition jdc_start_threads :: "nat \<Rightarrow> 'a hclient_scheme \<Rightarrow> 'a hclient_scheme" where
  "jdc_start_threads handler s = jd_client_subscribe handler (s\<lparr>client_mut := False\<rparr>)"

definition jdc_create :: "32 word \<Rightarrow> mem \<Rightarrow> 'a hclient_scheme \<Rightarrow> ('a hclient_scheme \<times> nat) option" where
  "jdc_create cls name s = do {
     jd_assert (\<not> client_mut s);
     (s, role) \<leftarrow> jd_role_alloc name cls s;
     let a = next_addr s;
     Some (s\<lparr>jdc_store := (jdc_store s)(a \<mapsto> \<lparr>jc_locked = False, jc_role = role, jc_service = None, jc_userdata = 0,
         jc_queries = [], jc_write_timeout = JDC_TIMEOUT_DEFAULT, jc_read_timeout = JDC_TIMEOUT_DEFAULT, jc_read_flags = 0,
         jc_write_flags = 0, jc_streaming = 0\<rparr>),
       client_list := a # client_list s, next_addr := a + 1\<rparr>, a) }"

definition jdc_configure_read :: "byte \<Rightarrow> nat \<Rightarrow> jdc_client \<Rightarrow> jdc_client" where
  "jdc_configure_read flags timeout_ms c = c\<lparr>jc_read_flags := flags, jc_read_timeout := timeout_ms\<rparr>"

definition jdc_configure_write :: "byte \<Rightarrow> nat \<Rightarrow> jdc_client \<Rightarrow> jdc_client" where
  "jdc_configure_write flags timeout_ms c = c\<lparr>jc_write_flags := flags, jc_read_timeout := timeout_ms\<rparr>"

definition jdc_set_streaming :: "bool \<Rightarrow> jdc_client \<Rightarrow> jdc_client" where
  "jdc_set_streaming enabled c = c\<lparr>jc_streaming := (if enabled then 1 else 0)\<rparr>"

definition jdc_set_userdata :: "nat \<Rightarrow> jdc_client \<Rightarrow> jdc_client" where
  "jdc_set_userdata userdata c = c\<lparr>jc_userdata := userdata\<rparr>"

definition jdc_get_userdata :: "jdc_client \<Rightarrow> nat" where
  "jdc_get_userdata c = jc_userdata c"

definition jdc_get_name :: "nat \<Rightarrow> 'a hclient_scheme \<Rightarrow> mem option" where
  "jdc_get_name a s = do { c \<leftarrow> jdc_store s a; x \<leftarrow> role_store s (jc_role c); Some (role_name x) }"

definition jdc_get_service_class :: "nat \<Rightarrow> 'a hclient_scheme \<Rightarrow> 32 word option" where
  "jdc_get_service_class a s = do { c \<leftarrow> jdc_store s a; x \<leftarrow> role_store s (jc_role c); Some (role_class x) }"

definition jdc_get_binding_info :: "nat \<Rightarrow> 'a hclient_scheme \<Rightarrow> (64 word \<times> nat \<times> int) option" where
  "jdc_get_binding_info a s = do {
     c \<leftarrow> jdc_store s a;
     jd_assert (\<not> jc_locked c);
     case jc_service c of
       None \<Rightarrow> Some (0, 0, JDC_STATUS_UNBOUND)
     | Some sp \<Rightarrow> do {
         dev \<leftarrow> jd_service_parent sp s;
         d \<leftarrow> dev_store s dev;
         sv \<leftarrow> service_at sp s;
         Some (dv_identifier d, sv_index sv, 0) } }"

definition jdc_is_bound :: "nat \<Rightarrow> 'a hclient_scheme \<Rightarrow> bool option" where
  "jdc_is_bound a s = map_option (\<lambda>c. jc_service c \<noteq> None) (jdc_store s a)"

section \<open>Events\<close>

fun find_client ::
  "(nat \<Rightarrow> jdc_client option) \<Rightarrow> nat option \<Rightarrow> serv_ptr option \<Rightarrow> nat list \<Rightarrow> nat option option" where
  "find_client st role serv [] = Some None"
| "find_client st role serv (p # ps) = do {
     c \<leftarrow> st p;
     if role \<noteq> None \<and> Some (jc_role c) \<noteq> role then find_client st role serv ps
     else if serv \<noteq> None \<and> jc_service c \<noteq> serv then find_client st role serv ps
     else Some (Some p) }"

definition find_and_lock ::
  "nat option \<Rightarrow> serv_ptr option \<Rightarrow> 'a hclient_scheme \<Rightarrow> ('a hclient_scheme \<times> nat option) option" where
  "find_and_lock role serv s = do {
     jd_assert (\<not> client_mut s);
     p \<leftarrow> find_client (jdc_store s) role serv (client_list s);
     case p of None \<Rightarrow> Some (s, None)
     | Some a \<Rightarrow> do {
         c \<leftarrow> jdc_store s a;
         jd_assert (\<not> jc_locked c);
         Some (set_jdc a (c\<lparr>jc_locked := True\<rparr>) s, Some a) } }"

definition unlock_client :: "nat \<Rightarrow> 'a hclient_scheme \<Rightarrow> 'a hclient_scheme option" where
  "unlock_client a s = do { c \<leftarrow> jdc_store s a; Some (set_jdc a (c\<lparr>jc_locked := False\<rparr>) s) }"

text \<open>The loop over the waiting queries: those that are answered, in the order of the loop, and the rest, which
  is linked in reverse order.  \<open>data\<close> is the value of the register, \<open>None\<close> when it is not implemented.\<close>

fun answer_queries :: "nat \<Rightarrow> mem option \<Rightarrow> reg_query list \<Rightarrow> reg_query list \<Rightarrow> reg_query list \<Rightarrow>
    (reg_query list \<times> reg_query list) option" where
  "answer_queries code data [] ready rest = Some (ready, rest)"
| "answer_queries code data (r # rs) ready rest =
     (if hq_code r = code then do {
        r \<leftarrow> (case data of None \<Rightarrow> Some (r\<lparr>hq_ok := False\<rparr>)
              | Some m \<Rightarrow> do {
                  let sz = min (length m) (hq_dst_size r);
                  d \<leftarrow> wr_mem (hq_dst r) 0 (take sz m);
                  Some (r\<lparr>hq_ok := True, hq_dst_size := sz, hq_dst := d\<rparr>) });
        answer_queries code data rs (ready @ [r]) rest }
      else answer_queries code data rs ready (r # rest))"

definition register_event :: "bool \<Rightarrow> serv_ptr \<Rightarrow> nat \<Rightarrow> 'a hclient_scheme \<Rightarrow> 'a hclient_scheme option" where
  "register_event implemented sp qa s = do {
     (s, p) \<leftarrow> find_and_lock None (Some sp) s;
     case p of None \<Rightarrow> Some s
     | Some a \<Rightarrow> do {
         c \<leftarrow> jdc_store s a;
         d \<leftarrow> dev_store s (fst sp);
         reg \<leftarrow> find (\<lambda>q. rq_addr q = qa) (dv_queries d);
         data \<leftarrow> (if implemented then map_option (\<lambda>b. Some (take (rq_resp_size reg) b)) (jd_register_data reg) else Some None);
         (ready, rest) \<leftarrow> answer_queries (rq_reg_code reg) data (jc_queries c) [] [];
         unlock_client a ((set_jdc a (c\<lparr>jc_queries := rest\<rparr>) s)\<lparr>resumed := resumed s @ ready\<rparr>) } }"

definition role_event :: "serv_ptr option \<Rightarrow> nat \<Rightarrow> 'a hclient_scheme \<Rightarrow> 'a hclient_scheme option" where
  "role_event serv role s = do {
     (s, p) \<leftarrow> find_and_lock (Some role) None s;
     case p of None \<Rightarrow> Some s
     | Some a \<Rightarrow> do {
         c \<leftarrow> jdc_store s a;
         unlock_client a (set_jdc a (c\<lparr>jc_service := serv\<rparr>) s) } }"

text \<open>A packet of a bound service only leads to callback events.\<close>

definition packet_event :: "serv_ptr \<Rightarrow> jd_frame \<Rightarrow> 'a hclient_scheme \<Rightarrow> 'a hclient_scheme option" where
  "packet_event sp p s =
     (if \<not> jd_is_report p then Some s
      else do {
        (s, a) \<leftarrow> find_and_lock None (Some sp) s;
        case a of None \<Rightarrow> Some s | Some a \<Rightarrow> unlock_client a s })"

definition jdc_event_handler :: "client_event \<Rightarrow> 'a hclient_scheme \<Rightarrow> 'a hclient_scheme option" where
  "jdc_event_handler ev s =
     (case ev of
        EV_SERVICE_PACKET sp p \<Rightarrow> packet_event sp p s
      | EV_SERVICE_REGISTER_CHANGED sp q \<Rightarrow> register_event True sp q s
      | EV_SERVICE_REGISTER_NOT_IMPLEMENTED sp q \<Rightarrow> register_event False sp q s
      | EV_ROLE_CHANGED serv r \<Rightarrow> role_event serv r s
      | _ \<Rightarrow> Some s)"

definition jdc_get_register ::
  "sys_consts \<Rightarrow> nat \<Rightarrow> nat \<Rightarrow> nat \<Rightarrow> 'a hclient_scheme \<Rightarrow> ('a hclient_scheme \<times> int) option" where
  "jdc_get_register c a regcode refresh_ms s = do {
     cl \<leftarrow> jdc_store s a;
     jd_assert (\<not> jc_locked cl);
     case jc_service cl of
       None \<Rightarrow> Some (s, JDC_STATUS_UNBOUND)
     | Some sp \<Rightarrow> do {
         (s, q) \<leftarrow> jd_service_query c sp regcode refresh_ms s;
         jd_assert (jd_register_not_implemented q);
         Some (s, JDC_STATUS_NOT_IMPL) } }"

text \<open>The environment of the client core in which the handler of this file is the listener.\<close>

definition hc_env :: "sys_consts \<Rightarrow> ctl_consts \<Rightarrow> 'a hclient_scheme client_env" where
  "hc_env c k = \<lparr>ce_sys = c, ce_ctl = k, listener_call = (\<lambda>l ev s. jdc_event_handler ev s), device_destroyed = (\<lambda>a s. None)\<rparr>"

section \<open>The clients follow their roles\<close>

definition jdc_ok :: "jdc_client \<Rightarrow> bool" where
  "jdc_ok c \<longleftrightarrow> \<not> jc_locked c \<and> (\<forall>q \<in> set (jc_queries c). hq_dst_size q \<le> length (hq_dst q))"

definition hc_base :: "'a hclient_scheme \<Rightarrow> bool" where
  "hc_base s \<longleftrightarrow> \<not> client_mut s \<and> jd_client_listeners s \<noteq> [] \<and> dom (jdc_store s) = set (client_list s) \<and>
     (\<forall>a c. jdc_store s a = Some c \<longrightarrow> jdc_ok c) \<and>
     (\<forall>a b c d. jdc_store s a = Some c \<longrightarrow> jdc_store s b = Some d \<longrightarrow> jc_role c = jc_role d \<longrightarrow> a = b)"

definition follows :: "'a hclient_scheme \<Rightarrow> jdc_client \<Rightarrow> bool" where
  "follows s c \<longleftrightarrow> (\<exists>x. role_store s (jc_role c) = Some x \<and> jc_service c = role_service x)"

definition hc_inv :: "'a hclient_scheme \<Rightarrow> bool" where
  "hc_inv s \<longleftrightarrow> hc_base s \<and> (\<forall>a c. jdc_store s a = Some c \<longrightarrow> follows s c)"

definition hc_pend :: "nat \<Rightarrow> serv_ptr option \<Rightarrow> 'a hclient_scheme \<Rightarrow> bool" where
  "hc_pend r sp s \<longleftrightarrow> hc_base s \<and> (\<exists>x. role_store s r = Some x \<and> role_service x = sp) \<and>
     (\<forall>a c. jdc_store s a = Some c \<longrightarrow> jc_role c \<noteq> r \<longrightarrow> follows s c)"

lemma find_client_ok:
  assumes "set l \<subseteq> dom st"
  shows "\<exists>p. find_client st role serv l = Some p \<and>
    (case p of
       None \<Rightarrow> \<forall>a \<in> set l. \<forall>c. st a = Some c \<longrightarrow> (role \<noteq> None \<and> Some (jc_role c) \<noteq> role) \<or> (serv \<noteq> None \<and> jc_service c \<noteq> serv)
     | Some a \<Rightarrow> \<exists>c. a \<in> set l \<and> st a = Some c \<and> (role \<noteq> None \<longrightarrow> Some (jc_role c) = role) \<and> (serv \<noteq> None \<longrightarrow> jc_service c = serv))"
  using assms
proof (induction l)
  case (Cons p l)
  then obtain c where c: "st p = Some c" by auto
  obtain q where q: "find_client st role serv l = Some q" "case q of
       None \<Rightarrow> \<forall>a \<in> set l. \<forall>c. st a = Some c \<longrightarrow> (role \<noteq> None \<and> Some (jc_role c) \<noteq> role) \<or> (serv \<noteq> None \<and> jc_service c \<noteq> serv)
     | Some a \<Rightarrow> \<exists>c. a \<in> set l \<and> st a = Some c \<and> (role \<noteq> None \<longrightarrow> Some (jc_role c) = role) \<and> (serv \<noteq> None \<longrightarrow> jc_service c = serv)"
    using Cons by auto
  show ?case
  proof (cases "(role \<noteq> None \<and> Some (jc_role c) \<noteq> role) \<or> (serv \<noteq> None \<and> jc_service c \<noteq> serv)")
    case True
    then have "find_client st role serv (p # l) = Some q" using c q(1) by auto
    then show ?thesis using q(2) c True by (intro exI [of _ q]) (cases q, auto)
  next
    case False
    then have "find_client st role serv (p # l) = Some (Some p)" using c by auto
    then show ?thesis using c False by auto
  qed
qed simp

lemma find_and_lock_ok:
  assumes "hc_base s"
  obtains (none) "find_and_lock role serv s = Some (s, None)"
      "\<And>a c. jdc_store s a = Some c \<Longrightarrow> (role \<noteq> None \<and> Some (jc_role c) \<noteq> role) \<or> (serv \<noteq> None \<and> jc_service c \<noteq> serv)"
  | (found) a c where "find_and_lock role serv s = Some (set_jdc a (c\<lparr>jc_locked := True\<rparr>) s, Some a)" "jdc_store s a = Some c"
      "role \<noteq> None \<longrightarrow> Some (jc_role c) = role" "jdc_ok c"
proof -
  have dom: "set (client_list s) = dom (jdc_store s)" and mut: "\<not> client_mut s" using assms by (simp_all add: hc_base_def)
  then obtain p where p: "find_client (jdc_store s) role serv (client_list s) = Some p" "case p of
       None \<Rightarrow> \<forall>a \<in> set (client_list s). \<forall>c. jdc_store s a = Some c \<longrightarrow> (role \<noteq> None \<and> Some (jc_role c) \<noteq> role) \<or> (serv \<noteq> None \<and> jc_service c \<noteq> serv)
     | Some a \<Rightarrow> \<exists>c. a \<in> set (client_list s) \<and> jdc_store s a = Some c \<and> (role \<noteq> None \<longrightarrow> Some (jc_role c) = role) \<and> (serv \<noteq> None \<longrightarrow> jc_service c = serv)"
    using find_client_ok [of "client_list s" "jdc_store s" role serv] by auto
  show ?thesis
  proof (cases p)
    case None
    have "find_and_lock role serv s = Some (s, None)" using p(1) None mut by (simp add: find_and_lock_def jd_assert_def)
    moreover have "(role \<noteq> None \<and> Some (jc_role c) \<noteq> role) \<or> (serv \<noteq> None \<and> jc_service c \<noteq> serv)" if "jdc_store s a = Some c" for a c
      using p(2) None that dom by auto
    ultimately show ?thesis by (rule none)
  next
    case (Some a)
    then obtain c where c: "jdc_store s a = Some c" "role \<noteq> None \<longrightarrow> Some (jc_role c) = role" using p(2) by auto
    have ok: "jdc_ok c" using assms c(1) by (simp add: hc_base_def)
    then have "find_and_lock role serv s = Some (set_jdc a (c\<lparr>jc_locked := True\<rparr>) s, Some a)"
      using p(1) Some c(1) mut by (simp add: find_and_lock_def jd_assert_def jdc_ok_def)
    then show ?thesis using found c ok by blast
  qed
qed

lemma answer_queries_ok:
  assumes "\<forall>q \<in> set qs \<union> set rest. hq_dst_size q \<le> length (hq_dst q)"
  shows "\<exists>ready rest'. answer_queries code data qs r0 rest = Some (ready, rest') \<and>
    (\<forall>q \<in> set rest'. hq_dst_size q \<le> length (hq_dst q))"
  using assms
proof (induction qs arbitrary: r0 rest)
  case (Cons q qs)
  show ?case
  proof (cases "hq_code q = code")
    case True
    then obtain q' where q': "(case data of None \<Rightarrow> Some (q\<lparr>hq_ok := False\<rparr>)
              | Some m \<Rightarrow> do {
                  let sz = min (length m) (hq_dst_size q);
                  d \<leftarrow> wr_mem (hq_dst q) 0 (take sz m);
                  Some (q\<lparr>hq_ok := True, hq_dst_size := sz, hq_dst := d\<rparr>) }) = Some q'"
      using Cons.prems by (cases data) (auto simp: wr_mem_def Let_def min.coboundedI2)
    have "\<forall>q \<in> set qs \<union> set rest. hq_dst_size q \<le> length (hq_dst q)" using Cons.prems by simp
    from Cons.IH [OF this, of "r0 @ [q']"] show ?thesis using True q' by simp
  next
    case False
    have "\<forall>x \<in> set qs \<union> set (q # rest). hq_dst_size x \<le> length (hq_dst x)" using Cons.prems by simp
    from Cons.IH [OF this, of r0] show ?thesis using False by simp
  qed
qed simp

text \<open>Writing to one client that keeps its role.\<close>

lemma hc_base_set:
  assumes "hc_base s" "jdc_store s a = Some c" "jc_role c' = jc_role c" "jdc_ok c'"
  shows "hc_base (s\<lparr>resumed := rs, jdc_store := (jdc_store s)(a \<mapsto> c')\<rparr>)"
  using assms unfolding hc_base_def by (auto split: if_splits)

definition hc_only :: "'a hclient_scheme \<Rightarrow> 'a hclient_scheme \<Rightarrow> bool" where
  "hc_only s t \<longleftrightarrow> (\<exists>st rs. t = s\<lparr>resumed := rs, jdc_store := st\<rparr>)"

lemma hc_only_refl [simp]: "hc_only s s"
  by (auto simp: hc_only_def intro!: exI [of _ "jdc_store s"] exI [of _ "resumed s"])

lemma hc_onlyD:
  assumes "hc_only s t"
  shows "event_scope t = event_scope s" "same_table s t" "same_roles s t" "client_inv X t = client_inv X s"
    "jd_client_listeners t = jd_client_listeners s" "role_store t = role_store s"
proof -
  obtain st rs where t: "t = s\<lparr>resumed := rs, jdc_store := st\<rparr>" using assms by (auto simp: hc_only_def)
  show "event_scope t = event_scope s" "same_table s t" "same_roles s t" "client_inv X t = client_inv X s"
    "jd_client_listeners t = jd_client_listeners s" "role_store t = role_store s"
    by (simp_all add: t same_table_def same_roles_def client_inv_def table_def query_addrs_def devs_ok_def)
qed

lemma jdc_unlocked: "jdc_ok c \<Longrightarrow> c\<lparr>jc_locked := False\<rparr> = c"
  by (simp add: jdc_ok_def)

lemma packet_event_ok:
  assumes "hc_base s"
  shows "packet_event sp p s = Some s"
  using assms
proof (cases rule: find_and_lock_ok [where role = None and serv = "Some sp"])
  case (found a c)
  then show ?thesis
    by (auto simp: packet_event_def unlock_client_def set_jdc_def jdc_unlocked fun_upd_idem intro!: hclient.equality)
qed (simp add: packet_event_def)

lemma register_event_ok:
  assumes "hc_base s" "client_inv X s" "service_at sp s \<noteq> None" "qa \<in> query_addrs s (fst sp)"
  shows "\<exists>t. register_event implemented sp qa s = Some t \<and> hc_only s t \<and> hc_base t \<and>
    (\<forall>a. map_option (\<lambda>c. (jc_role c, jc_service c)) (jdc_store t a) = map_option (\<lambda>c. (jc_role c, jc_service c)) (jdc_store s a))"
  using assms(1)
proof (cases rule: find_and_lock_ok [where role = None and serv = "Some sp"])
  case none
  then show ?thesis using assms(1) by (simp add: register_event_def)
next
  case (found a c)
  obtain d where d: "dev_store s (fst sp) = Some d" using assms(3) unfolding service_at_iff by auto
  obtain q0 where "q0 \<in> set (dv_queries d)" "rq_addr q0 = qa" using assms(4) d by (auto simp: query_addrs_def)
  then obtain q where q: "find (\<lambda>q. rq_addr q = qa) (dv_queries d) = Some q"
    by (cases "find (\<lambda>q. rq_addr q = qa) (dv_queries d)") (auto simp: find_None_iff)
  have "q \<in> set (dv_queries d)" using find_SomeD [OF q] by simp
  then have "query_ok q" using client_inv_dev_ok [OF assms(2) d] by (simp add: dev_ok_def)
  then obtain b where b: "jd_register_data q = Some b" by (rule query_okD)
  define data where "data = (if implemented then Some (take (rq_resp_size q) b) else None)"
  obtain ready rest where aq: "answer_queries (rq_reg_code q) data (jc_queries c) [] [] = Some (ready, rest)"
    "\<forall>q \<in> set rest. hq_dst_size q \<le> length (hq_dst q)"
    using answer_queries_ok [of "jc_queries c" "[]" "rq_reg_code q" data "[]"] found(4) by (auto simp: jdc_ok_def)
  let ?t = "s\<lparr>resumed := resumed s @ ready, jdc_store := (jdc_store s)(a \<mapsto> c\<lparr>jc_queries := rest\<rparr>)\<rparr>"
  have "c\<lparr>jc_queries := rest, jc_locked := False\<rparr> = c\<lparr>jc_queries := rest\<rparr>" using found(4) by (simp add: jdc_ok_def)
  then have "register_event implemented sp qa s = Some ?t"
    using found(1) d q b aq(1) by (cases implemented) (simp_all add: register_event_def data_def unlock_client_def set_jdc_def)
  moreover have "hc_base ?t" by (rule hc_base_set [OF assms(1) found(2)]) (use found(4) aq(2) in \<open>simp_all add: jdc_ok_def\<close>)
  ultimately show ?thesis using found(2) by (auto simp: hc_only_def)
qed

lemma role_event_ok:
  assumes "hc_base s"
  shows "\<exists>t. role_event serv r s = Some t \<and> hc_only s t \<and> hc_base t \<and>
    (\<forall>a. jdc_store t a = map_option (\<lambda>c. if jc_role c = r then c\<lparr>jc_service := serv\<rparr> else c) (jdc_store s a))"
  using assms
proof (cases rule: find_and_lock_ok [where role = "Some r" and serv = None])
  case none
  then have "jdc_store s a = map_option (\<lambda>c. if jc_role c = r then c\<lparr>jc_service := serv\<rparr> else c) (jdc_store s a)" for a
    by (cases "jdc_store s a") auto
  then show ?thesis using none(1) assms by (simp add: role_event_def)
next
  case (found a c)
  let ?c = "c\<lparr>jc_service := serv\<rparr>"
  let ?t = "s\<lparr>resumed := resumed s, jdc_store := (jdc_store s)(a \<mapsto> ?c)\<rparr>"
  have "c\<lparr>jc_service := serv, jc_locked := False\<rparr> = ?c" using found(4) by (simp add: jdc_ok_def)
  then have "role_event serv r s = Some ?t"
    using found(1) by (simp add: role_event_def unlock_client_def set_jdc_def)
  moreover have "hc_base ?t" by (rule hc_base_set [OF assms found(2)]) (use found(4) in \<open>simp_all add: jdc_ok_def\<close>)
  moreover have "jdc_store ?t b = map_option (\<lambda>c. if jc_role c = r then c\<lparr>jc_service := serv\<rparr> else c) (jdc_store s b)" for b
  proof (cases "b = a")
    case True
    then show ?thesis using found(2,3) by simp
  next
    case False
    have "jc_role d \<noteq> r" if "jdc_store s b = Some d" for d
      using assms that found(2,3) False unfolding hc_base_def by (metis option.distinct(1) option.inject)
    then show ?thesis using False by (cases "jdc_store s b") auto
  qed
  moreover have "hc_only s ?t" unfolding hc_only_def by blast
  ultimately show ?thesis by blast
qed

text \<open>The event handler is a listener as the role manager expects it.\<close>

lemma hc_inv_bindings:
  assumes "hc_inv s" "hc_base t" "role_store t = role_store s"
    "\<forall>a. map_option (\<lambda>c. (jc_role c, jc_service c)) (jdc_store t a) = map_option (\<lambda>c. (jc_role c, jc_service c)) (jdc_store s a)"
  shows "hc_inv t"
proof -
  have "follows t c" if c: "jdc_store t a = Some c" for a c
  proof -
    obtain d where "jdc_store s a = Some d" "jc_role c = jc_role d" "jc_service c = jc_service d"
      using assms(4) [rule_format, of a] c by (cases "jdc_store s a") auto
    then show ?thesis using assms(1,3) by (auto simp: hc_inv_def follows_def)
  qed
  then show ?thesis using assms(2) by (simp add: hc_inv_def)
qed

lemma hc_pend_of_inv: "hc_inv s \<Longrightarrow> role_store s r = Some x \<Longrightarrow> hc_pend r (role_service x) s"
  by (auto simp: hc_inv_def hc_pend_def)

lemma handler_ok:
  assumes "client_inv X s" "role_event_valid ev s" "hc_inv s \<or> (\<exists>r sp. ev = EV_ROLE_CHANGED sp r \<and> hc_pend r sp s)"
  shows "\<exists>t. jdc_event_handler ev s = Some t \<and> hc_only s t \<and> hc_inv t"
proof (cases "\<exists>serv r. ev = EV_ROLE_CHANGED serv r")
  case True
  then obtain serv r where ev: "ev = EV_ROLE_CHANGED serv r" by blast
  then obtain x where x: "role_store s r = Some x" "role_service x = serv" using assms(2) by (auto simp: role_event_valid_def)
  have p: "hc_pend r serv s" using assms(3) ev x hc_pend_of_inv by auto
  then have "hc_base s" by (simp add: hc_pend_def)
  then obtain t where t: "role_event serv r s = Some t" "hc_only s t" "hc_base t"
    "\<forall>a. jdc_store t a = map_option (\<lambda>c. if jc_role c = r then c\<lparr>jc_service := serv\<rparr> else c) (jdc_store s a)"
    using role_event_ok by blast
  have "follows t c" if c: "jdc_store t a = Some c" for a c
  proof -
    obtain d where d: "jdc_store s a = Some d" "c = (if jc_role d = r then d\<lparr>jc_service := serv\<rparr> else d)"
      using t(4) [rule_format, of a] c by (cases "jdc_store s a") auto
    show ?thesis using p d x hc_onlyD(6) [OF t(2)] by (cases "jc_role d = r") (auto simp: follows_def hc_pend_def)
  qed
  then show ?thesis using t ev by (simp add: jdc_event_handler_def hc_inv_def)
next
  case False
  then have inv: "hc_inv s" and base: "hc_base s" using assms(3) by (auto simp: hc_inv_def)
  have valid: "event_valid ev s" using assms(2) False by (cases ev) (auto simp: role_event_valid_def)
  have reg: "\<exists>t. register_event b sp q s = Some t \<and> hc_only s t \<and> hc_inv t" if "service_at sp s \<noteq> None" "q \<in> query_addrs s (fst sp)" for b sp q
    using register_event_ok [OF base assms(1) that, of b] hc_inv_bindings [OF inv] hc_onlyD(6) by blast
  show ?thesis
    using valid False inv packet_event_ok [OF base] reg by (cases ev) (auto simp: jdc_event_handler_def event_valid_def)
qed

lemma hc_more:
  assumes "rolemgr.more t = rolemgr.more s"
  shows "client_mut t = client_mut s" "client_list t = client_list s" "jdc_store t = jdc_store s"
  using assms by (cases s rule: hclient.cases_scheme, cases t rule: hclient.cases_scheme, simp)+

lemma hc_base_cong: "rolemgr.more t = rolemgr.more s \<Longrightarrow> jd_client_listeners t = jd_client_listeners s \<Longrightarrow> hc_base s \<Longrightarrow> hc_base t"
  using hc_more [of t s] by (simp add: hc_base_def)

interpretation hc: role_listener "hc_env c k" hc_inv hc_pend for c k
proof
  fix X s ev l
  assume "client_inv X s" "event_scope s = 0" "role_event_valid ev s" "hc_inv s \<or> (\<exists>r sp. ev = EV_ROLE_CHANGED sp r \<and> hc_pend r sp s)"
  then show "\<exists>t. listener_call (hc_env c k) l ev s = Some t \<and> client_inv X t \<and> hc_inv t \<and> event_scope t = 0 \<and> same_table s t \<and> same_roles s t"
    using handler_ok [of X s ev] hc_onlyD by (fastforce simp: hc_env_def)
next
  fix r sp and s :: "'a hclient_scheme"
  assume "hc_pend r sp s"
  then show "jd_client_listeners s \<noteq> []" by (simp add: hc_pend_def hc_base_def)
next
  fix s t :: "'a hclient_scheme" and r x sp
  assume s: "hc_inv s" "role_store s r = Some x" "role_store t = (role_store s)(r \<mapsto> x\<lparr>role_service := sp\<rparr>)"
    "rolemgr.more t = rolemgr.more s" "jd_client_listeners t = jd_client_listeners s"
  then have "hc_base t" using hc_base_cong by (auto simp: hc_inv_def)
  then show "hc_pend r sp t" using s hc_more(3) [OF s(4)] by (auto simp: hc_pend_def hc_inv_def follows_def)
next
  fix s t :: "'a hclient_scheme"
  assume s: "hc_inv s" "role_store t = role_store s" "rolemgr.more t = rolemgr.more s" "jd_client_listeners t = jd_client_listeners s"
  then have "hc_base t" using hc_base_cong by (auto simp: hc_inv_def)
  then show "hc_inv t" using s hc_more(3) [OF s(3)] by (auto simp: hc_inv_def follows_def)
next
  fix s t :: "'a hclient_scheme" and r x
  assume s: "hc_inv s" "role_store s r = None" "role_store t = (role_store s)(r \<mapsto> x)"
    "rolemgr.more t = rolemgr.more s" "jd_client_listeners t = jd_client_listeners s"
  then have "hc_base t" using hc_base_cong by (auto simp: hc_inv_def)
  moreover have "follows t c" if "jdc_store s a = Some c" for a c
    using s(1,2,3) that by (fastforce simp: hc_inv_def follows_def)
  ultimately show "hc_inv t" using hc_more(3) [OF s(4)] by (simp add: hc_inv_def)
qed

end
