(* ===== verification/Jd_Reach.thy ===== *)
theory Jd_Reach
  imports Jd_Hclient
begin

text \<open>
  The client side as a state machine: routing, role manager and client objects together, from start-up through any
  sequence of packets, polls, commands and calls of the application.  The invariants of the parts hold in every state
  it reaches, so that no step follows a dangling pointer and the clients always know the binding of their role.
\<close>

section \<open>Queries\<close>

context role_listener
begin

lemma write_safe:
  assumes "safe s" "dev_store s a = Some d" "dv_identifier d' = dv_identifier d" "dv_services d' = dv_services d"
    "dev_ok n d'" "next_addr s \<le> n"
  shows "safe ((set_device a d' s)\<lparr>next_addr := n\<rparr>)"
proof -
  let ?s = "s\<lparr>next_addr := n\<rparr>" and ?t = "(set_device a d' s)\<lparr>next_addr := n\<rparr>"
  have g: "client_inv {} s" "roles_inv s" "linv s" "event_scope s = 0" "unlocked s" using assms(1) by (simp_all add: safe_def role_good_def)
  have t: "?t = set_device a d' ?s" by (simp add: set_device_def)
  have "client_inv {} ?s" by (rule client_inv_addr [OF g(1)]) (use assms(6) in simp_all)
  then have "client_inv {} ?t" unfolding t by (rule client_inv_set_device) (use assms in simp_all)
  moreover have "service_at sp ?t = service_at sp s" for sp
    using service_at_set_device [of ?s a d d' sp] assms(2,4) unfolding t by (simp add: service_at_def)
  then have "roles_inv ?t" using roles_inv_cong [OF g(2), of ?t] assms(6) by (simp add: set_device_def)
  moreover have "linv ?t" by (rule core [OF g(3)]) (simp_all add: set_device_def)
  ultimately show ?thesis using g(4,5) by (simp add: safe_def role_good_def unlocked_def set_device_def)
qed

lemma send_cmd_safe:
  assumes "jd_service_send_cmd sp cmd m s = Some (t, r)" "safe s"
  shows "safe t" "pipe_upper t = pipe_upper s"
proof -
  obtain p f r' where "jd_send_pkt p s = Some (t, f, r')"
    using assms(1) by (auto simp: jd_service_send_cmd_def Let_def bind_Some_iff)
  then show "pipe_upper t = pipe_upper s" by (rule bus_pipe_upper [OF jd_send_pkt_upper])
  then show "safe t" using safe_upper [OF assms(2)] by simp
qed

lemma query_entry_safe:
  assumes "safe s" "service_at sp s = Some sv" "dev_store s (fst sp) = Some d"
  shows "safe ((set_device (fst sp) (d\<lparr>dv_queries := \<lparr>rq_addr = next_addr s, rq_reg_code = u16 reg, rq_service_index = of_nat (sv_index sv),
      rq_resp_size = 0, rq_last_query_ms = 0, rq_value = Inline [0, 0, 0, 0]\<rparr> # dv_queries d\<rparr>) s)\<lparr>next_addr := next_addr s + 1\<rparr>)"
proof -
  have "client_inv {} s" using assms(1) by (simp add: safe_def role_good_def)
  then have "dev_ok (next_addr s) d" using client_inv_dev_ok assms(3) by blast
  then show ?thesis by (intro write_safe [OF assms(1,3)]) (auto simp: dev_ok_def num_services_def query_ok_def)
qed

lemma query_update_safe:
  assumes "safe s" "dev_store s a = Some d" "q0 \<in> set (dv_queries d)" "rq_addr q0 = rq_addr q" "query_ok q" "set_query a q s = Some t"
  shows "safe t"
proof -
  let ?d = "d\<lparr>dv_queries := map (\<lambda>p. if rq_addr p = rq_addr q then q else p) (dv_queries d)\<rparr>"
  have "client_inv {} s" using assms(1) by (simp add: safe_def role_good_def)
  then have "dev_ok (next_addr s) ?d" using dev_ok_set_query [OF _ assms(5,3,4)] client_inv_dev_ok assms(2) by blast
  then have "safe ((set_device a ?d s)\<lparr>next_addr := next_addr s\<rparr>)" by (intro write_safe [OF assms(1,2)]) simp_all
  moreover have "t = (set_device a ?d s)\<lparr>next_addr := next_addr s\<rparr>" using assms(2,6) by (auto simp: set_query_def set_device_def)
  ultimately show ?thesis by simp
qed

lemma query_safe:
  assumes "jd_service_query c sp reg refresh s = Some (t, q)" "safe s"
  shows "safe t"
proof -
  have inv: "client_inv {} s" using assms(2) by (simp add: safe_def role_good_def)
  obtain sv where sv: "service_at sp s = Some sv"
    using assms(1) by (auto simp: jd_service_query_def jd_service_query_lookup_def jd_service_parent_def bind_Some_iff)
  then have at: "service_at sp s \<noteq> None" by simp
  have par: "jd_service_parent sp s = Some (fst sp)" using service_at_index(2) [OF inv sv] .
  obtain d where d: "dev_store s (fst sp) = Some d"
    "jd_service_query_lookup sp reg s = Some (find (is_query_for reg (snd sp)) (dv_queries d))"
    using query_lookup_ok [OF inv at] by blast
  let ?n = "\<lparr>rq_addr = next_addr s, rq_reg_code = u16 reg, rq_service_index = of_nat (sv_index sv),
      rq_resp_size = 0, rq_last_query_ms = 0, rq_value = Inline [0, 0, 0, 0]\<rparr>"
  obtain s1 q1 d1 where s1: "(case find (is_query_for reg (snd sp)) (dv_queries d) of Some q \<Rightarrow> Some (s, q)
      | None \<Rightarrow> Some ((set_device (fst sp) (d\<lparr>dv_queries := ?n # dv_queries d\<rparr>) s)\<lparr>next_addr := next_addr s + 1\<rparr>, ?n)) = Some (s1, q1)"
    "safe s1" "dev_store s1 (fst sp) = Some d1" "q1 \<in> set (dv_queries d1)"
  proof (cases "find (is_query_for reg (snd sp)) (dv_queries d)")
    case None
    then show ?thesis using that query_entry_safe [OF assms(2) sv d(1), of reg] by (simp add: set_device_def)
  next
    case (Some q)
    then show ?thesis using that assms(2) d(1) find_SomeD [OF Some] by simp
  qed
  let ?send = "\<not> jd_register_not_implemented q1 \<and>
    (rq_last_query_ms q1 = 0 \<or> (refresh \<noteq> 0 \<and> is_before (rq_last_query_ms q1 + of_nat refresh) (now_ms s1)))"
  have run: "(if ?send then do {
       (s, _) \<leftarrow> jd_service_send_cmd sp (JD_GET c reg) [] s1;
       let q = q1\<lparr>rq_last_query_ms := now_ms s\<rparr>;
       s \<leftarrow> set_query (fst sp) q s;
       Some (s, q) } else Some (s1, q1)) = Some (t, q)"
    using assms(1) by (simp only: jd_service_query_def d par sv bind.bind_lunit Let_def s1(1) prod.case)
  show ?thesis
  proof (cases ?send)
    case True
    then obtain u r where u: "jd_service_send_cmd sp (JD_GET c reg) [] s1 = Some (u, r)"
      "set_query (fst sp) (q1\<lparr>rq_last_query_ms := now_ms u\<rparr>) u = Some t"
      using run by (auto simp: Let_def bind_Some_iff)
    note su = send_cmd_safe [OF u(1) s1(2)]
    have "client_inv {} s1" using s1(2) by (simp add: safe_def role_good_def)
    then have "query_ok (q1\<lparr>rq_last_query_ms := w\<rparr>)" for w
      using client_inv_dev_ok s1(3,4) by (fastforce simp: dev_ok_def query_ok_def split: reg_value.splits)
    then show ?thesis using query_update_safe [OF su(1) _ s1(4) _ _ u(2)] upper_fields(1) [OF su(2)] s1(3) by simp
  next
    case False
    then show ?thesis using run s1(2) by auto
  qed
qed

end

lemma jd_role_alloc_more:
  assumes "jd_role_alloc name cls s = Some (t, r)"
  shows "rolemgr.more t = rolemgr.more s"
proof -
  obtain u where u: "stop_list s = Some u" "rolemgr.more t = rolemgr.more u"
    using assms by (auto simp: jd_role_alloc_def bind_Some_iff Let_def)
  obtain m where m: "rm_state s = Some m" using u(1) by (auto simp: stop_list_def bind_Some_iff)
  show ?thesis
  proof (cases "list_ptr m")
    case (Some q)
    then obtain x where "jd_opipe_close (list_pipe m) (set_rm (m\<lparr>list_ptr := None\<rparr>) s) = Some (u, x)"
      using u(1) m by (auto simp: stop_list_def jd_assert_def bind_Some_iff split: if_splits)
    from upper_fields(8) [OF jd_opipe_close_upper [OF this]] show ?thesis using u(2) by simp
  qed (use u m in \<open>auto simp: stop_list_def jd_assert_def split: if_splits\<close>)
qed

section \<open>Clients of the application\<close>

abbreviation hc_safe :: "'a hclient_scheme \<Rightarrow> bool" where
  "hc_safe \<equiv> role_listener.safe hc_inv"

lemma hc_safe_iff:
  "hc_safe s \<longleftrightarrow> client_inv {} s \<and> roles_inv s \<and> hc_inv s \<and> event_scope s = 0 \<and> unlocked s"
  by (auto simp: hc.safe_def hc.role_good_def)

lemma jdc_create_safe:
  assumes "jdc_create cls name s = Some (t, a)" "hc_safe s" "0 \<notin> set name"
  shows "hc_safe t"
proof -
  obtain u r where u: "jd_role_alloc name cls s = Some (u, r)" "a = next_addr u"
    "t = u\<lparr>jdc_store := (jdc_store u)(a \<mapsto> \<lparr>jc_locked = False, jc_role = r, jc_service = None, jc_userdata = 0,
         jc_queries = [], jc_write_timeout = JDC_TIMEOUT_DEFAULT, jc_read_timeout = JDC_TIMEOUT_DEFAULT, jc_read_flags = 0,
         jc_write_flags = 0, jc_streaming = 0\<rparr>), client_list := a # client_list u, next_addr := a + 1\<rparr>"
    using assms(1) by (auto simp: jdc_create_def bind_Some_iff jd_assert_def Let_def split: if_splits)
  note alloc = hc.jd_role_alloc_safe [OF u(1) assms(2,3)]
  obtain x where x: "role_store u = (role_store s)(r \<mapsto> x)" "role_service x = None" using alloc(3) by auto
  have su: "client_inv {} u" "roles_inv u" "hc_inv u" "event_scope u = 0" "unlocked u" using alloc(1) by (simp_all add: hc_safe_iff)
  have "client_inv {} t" by (rule client_inv_addr [OF su(1)]) (simp_all add: u(2,3))
  moreover have "roles_inv t"
    by (rule roles_inv_cong [OF su(2)]) (simp_all add: u(2,3) service_at_def)
  moreover have "unlocked t" "event_scope t = 0" using su(4,5) by (simp_all add: u(3) unlocked_def)
  moreover have "hc_inv t"
  proof -
    have "jdc_store u = jdc_store s" "hc_inv s" using jd_role_alloc_more [OF u(1)] hc_more(3) assms(2) by (auto simp: hc_safe_iff)
    then have "jc_role c \<noteq> r" if "jdc_store u b = Some c" for b c using that alloc(2) by (fastforce simp: hc_inv_def follows_def)
    then show ?thesis using su(3) x
      by (auto simp: u(3) hc_inv_def hc_base_def follows_def jdc_ok_def dest: sym [of r])
  qed
  ultimately show ?thesis by (simp add: hc_safe_iff)
qed

section \<open>The state machine\<close>

text \<open>The static variables before the start.\<close>

definition hc_start :: "'a hclient_scheme \<Rightarrow> bool" where
  "hc_start s \<longleftrightarrow> jd_client_listeners s = [] \<and> event_scope s = 0 \<and> jd_devices s = [] \<and> dev_store s = Map.empty \<and>
     rm_state s = None \<and> role_store s = Map.empty \<and> client_list s = [] \<and> jdc_store s = Map.empty"

text \<open>What the other parts of the device do - the transport, pipes, the clock, services - is any change that leaves the
  state of the client side and the identifier of the device alone.\<close>

definition elsewhere :: "'a hclient_scheme \<Rightarrow> 'a hclient_scheme \<Rightarrow> bool" where
  "elsewhere s t \<longleftrightarrow> device_id t = device_id s \<and> svcs.more t = svcs.more s"

abbreviation hc_events :: "sys_consts \<Rightarrow> ctl_consts \<Rightarrow> 'a hclient_scheme client_env" where
  "hc_events c k \<equiv> with_roles (hc_env c k)"

text \<open>Setters of the application and what they write.\<close>

inductive setter :: "(jdc_client \<Rightarrow> jdc_client) \<Rightarrow> bool" where
  "setter (jdc_configure_read flags timeout)"
| "setter (jdc_configure_write flags timeout)"
| "setter (jdc_set_streaming enabled)"
| "setter (jdc_set_userdata d)"

inductive hc_step :: "sys_consts \<Rightarrow> ctl_consts \<Rightarrow> role_codes \<Rightarrow> 'a hclient_scheme \<Rightarrow> 'a hclient_scheme \<Rightarrow> bool" for c k rc where
  packet: "pkt_ok p \<Longrightarrow> jd_client_handle_packet (hc_events c k) p s = Some t \<Longrightarrow> hc_step c k rc s t"
| poll: "jd_client_process (hc_events c k) s = Some t \<Longrightarrow> hc_step c k rc s t"
| manager: "rolemgr_process (hc_env c k) rc s = Some t \<Longrightarrow> hc_step c k rc s t"
| command: "rolemgr_handle_packet (hc_env c k) rc p s = Some t \<Longrightarrow> hc_step c k rc s t"
| autobind: "jd_role_force_autobind (hc_env c k) s = Some t \<Longrightarrow> hc_step c k rc s t"
| hints: "jd_role_set_hints f dev s = Some t \<Longrightarrow> hc_step c k rc s t"
| create: "0 \<notin> set name \<Longrightarrow> jdc_create cls name s = Some (t, a) \<Longrightarrow> hc_step c k rc s t"
| configure: "jdc_store s a = Some j \<Longrightarrow> setter f \<Longrightarrow> hc_step c k rc s (set_jdc a (f j) s)"
| read: "jdc_get_register c a reg refresh s = Some (t, r) \<Longrightarrow> hc_step c k rc s t"
| send: "jd_service_send_cmd sp cmd m s = Some (t, r) \<Longrightarrow> hc_step c k rc s t"
| other: "elsewhere s t \<Longrightarrow> hc_step c k rc s t"

inductive hc_reach :: "sys_consts \<Rightarrow> ctl_consts \<Rightarrow> role_codes \<Rightarrow> 'a hclient_scheme \<Rightarrow> bool" for c k rc where
  start: "hc_start s \<Longrightarrow> jd_role_manager_init cls pipe (jdc_start_threads handler s) = Some t \<Longrightarrow> hc_reach c k rc t"
| step: "hc_reach c k rc s \<Longrightarrow> hc_step c k rc s t \<Longrightarrow> hc_reach c k rc t"

lemma elsewhere_fields:
  assumes "elsewhere s t"
  shows "dev_store t = dev_store s" "jd_devices t = jd_devices s" "next_addr t = next_addr s" "event_scope t = event_scope s"
    "jd_client_listeners t = jd_client_listeners s" "rm_state t = rm_state s" "role_store t = role_store s"
    "rolemgr.more t = rolemgr.more s" "device_id t = device_id s"
  using assms by (cases s rule: hclient.cases_scheme, cases t rule: hclient.cases_scheme, simp add: elsewhere_def)+

lemma start_safe:
  assumes "hc_start s" "jd_role_manager_init cls pipe (jdc_start_threads handler s) = Some t"
  shows "hc_safe t"
proof -
  have t: "dev_store t = Map.empty" "jd_devices t = []" "event_scope t = 0" "role_store t = Map.empty" "jd_client_listeners t = [handler]"
    "client_mut t = False" "client_list t = []" "jdc_store t = Map.empty" "\<exists>m. rm_state t = Some m \<and> rm_roles m = [] \<and> list_ptr m = None \<and> \<not> rm_locked m"
    using assms by (auto simp: hc_start_def jd_role_manager_init_def jd_allocate_service_def jdc_start_threads_def jd_client_subscribe_def
      set_rm_def split: if_splits)
  then show ?thesis
    by (auto simp: hc_safe_iff client_inv_def table_inv_def table_def devs_ok_def roles_inv_def names_of_def hc_inv_def hc_base_def unlocked_def)
qed

lemma setter_keeps: "setter f \<Longrightarrow> jc_role (f j) = jc_role j \<and> jc_service (f j) = jc_service j \<and> jc_locked (f j) = jc_locked j \<and> jc_queries (f j) = jc_queries j"
  by (induction rule: setter.induct)
    (simp_all add: jdc_configure_read_def jdc_configure_write_def jdc_set_streaming_def jdc_set_userdata_def)

lemma configure_safe:
  assumes "hc_safe s" "jdc_store s a = Some j" "setter f"
  shows "hc_safe (set_jdc a (f j) s)"
proof -
  let ?t = "set_jdc a (f j) s"
  have only: "hc_only s ?t" by (auto simp: hc_only_def set_jdc_def intro!: exI [of _ "resumed s"])
  have base: "hc_base s" "hc_inv s" using assms(1) by (simp_all add: hc_safe_iff hc_inv_def)
  have "jdc_ok j" using base(1) assms(2) by (simp add: hc_base_def)
  then have "hc_base (s\<lparr>resumed := resumed s, jdc_store := (jdc_store s)(a \<mapsto> f j)\<rparr>)"
    using hc_base_set [OF base(1) assms(2), of "f j" "resumed s"] setter_keeps [OF assms(3)] by (simp add: jdc_ok_def)
  then have "hc_inv ?t"
    using hc_inv_bindings [OF base(2), of ?t] hc_onlyD(6) [OF only] setter_keeps [OF assms(3)] assms(2) by (simp add: set_jdc_def)
  then show ?thesis
    using assms(1) hc_onlyD [OF only] same_roles_inv [of s ?t] by (auto simp: hc_safe_iff unlocked_def set_jdc_def)
qed

lemma read_safe:
  assumes "jdc_get_register c a reg refresh s = Some (t, r)" "hc_safe s"
  shows "hc_safe t"
proof -
  obtain j where j: "jdc_store s a = Some j" "(case jc_service j of None \<Rightarrow> Some (s, JDC_STATUS_UNBOUND)
      | Some sp \<Rightarrow> do { (s, q) \<leftarrow> jd_service_query c sp reg refresh s; jd_assert (jd_register_not_implemented q); Some (s, JDC_STATUS_NOT_IMPL) })
      = Some (t, r)"
    using assms(1) by (auto simp: jdc_get_register_def bind_Some_iff jd_assert_def split: if_splits)
  show ?thesis
  proof (cases "jc_service j")
    case (Some sp)
    then obtain q where "jd_service_query c sp reg refresh s = Some (t, q)" using j(2) by (auto simp: bind_Some_iff)
    then show ?thesis by (rule hc.query_safe) (rule assms(2))
  qed (use j assms(2) in simp)
qed

lemma step_safe:
  assumes "hc_step c k rc s t" "hc_safe s"
  shows "hc_safe t"
  using assms
proof (induction rule: hc_step.induct)
  case (packet p s t)
  then show ?case using hc.table.handle_packet_ok [of s p c k] by (auto simp: hc_safe_iff)
next
  case (poll s t)
  then show ?case using hc.table.process_ok [of s c k] by (auto simp: hc_safe_iff)
next
  case (autobind s t)
  then show ?case using hc.autobind_safe [of s c k] by (auto simp: jd_role_force_autobind_def)
next
  case (other s t)
  note eq = elsewhere_fields [OF other(1)]
  show ?case using hc.role_good_eq [of "{}" s t] other(2) eq by (auto simp: hc.safe_def unlocked_def)
next
  case (send sp cmd m s t r)
  then show ?case by (blast intro: hc.send_cmd_safe(1))
qed (blast intro: hc.rolemgr_process_safe hc.rolemgr_handle_packet_safe hc.jd_role_set_hints_safe jdc_create_safe configure_safe read_safe)+

lemma reach_safe: "hc_reach c k rc s \<Longrightarrow> hc_safe s"
  by (induction rule: hc_reach.induct) (blast intro: start_safe step_safe)+

section \<open>Properties\<close>


text \<open>C7: no role is ever bound to a service that is gone: the device of the service is in the table, so it has not been
  freed, and the service is one of those it announced.\<close>

theorem bindings_are_live:
  assumes "hc_reach c k rc s" "role_store s r = Some x" "role_service x = Some (a, i)"
  shows "a \<in> set (jd_devices s) \<and> (\<exists>d. dev_store s a = Some d \<and> i < num_services d \<and> sv_index (dv_services d ! i) = i)"
proof -
  have inv: "client_inv {} s" "roles_inv s" using reach_safe [OF assms(1)] by (simp_all add: hc_safe_iff)
  have "service_at (a, i) s \<noteq> None" using role_service_valid [OF inv(2) assms(2,3)] .
  then obtain d where d: "dev_store s a = Some d" "i < num_services d" unfolding service_at_iff by auto
  then show ?thesis using client_inv_dom [OF inv(1), of a] client_inv_dev_ok [OF inv(1) d(1)] by (auto simp: dev_ok_def)
qed

text \<open>C8: every client object knows the binding of its role: its service is the one the role manager has bound, and the
  binding information that the application reads is the identifier of the device and the index of that service.\<close>

theorem clients_follow_roles:
  assumes "hc_reach c k rc s" "jdc_store s a = Some j"
  shows "\<exists>x. role_store s (jc_role j) = Some x \<and> jc_service j = role_service x \<and>
    (case role_service x of
       None \<Rightarrow> jdc_get_binding_info a s = Some (0, 0, JDC_STATUS_UNBOUND)
     | Some (dev, i) \<Rightarrow> \<exists>d. dev_store s dev = Some d \<and> jdc_get_binding_info a s = Some (dv_identifier d, i, 0))"
proof -
  have inv: "client_inv {} s" "roles_inv s" "hc_inv s" using reach_safe [OF assms(1)] by (simp_all add: hc_safe_iff)
  then obtain x where x: "role_store s (jc_role j) = Some x" "jc_service j = role_service x"
    using assms(2) by (fastforce simp: hc_inv_def follows_def)
  have ok: "\<not> jc_locked j" using inv(3) assms(2) by (simp add: hc_inv_def hc_base_def jdc_ok_def)
  show ?thesis
  proof (cases "role_service x")
    case None
    then show ?thesis using x ok assms(2) by (auto simp: jdc_get_binding_info_def jd_assert_def)
  next
    case (Some sp)
    obtain sv where sv: "service_at sp s = Some sv" using role_service_valid [OF inv(2) x(1) Some] by auto
    then obtain d where d: "dev_store s (fst sp) = Some d" using service_at_iff [of sp s] by auto
    have "jdc_get_binding_info a s = Some (dv_identifier d, snd sp, 0)"
      using Some x(2) ok assms(2) sv d service_at_index [OF inv(1) sv] by (simp add: jdc_get_binding_info_def jd_assert_def)
    then show ?thesis using x Some d by (auto split: prod.split)
  qed
qed


text \<open>C10: automatic binding keeps every binding and adds only bindings of a role to a service of its class that was free, no
  service twice; afterwards a role is unbound only when its hints are binding or every service of its class, on every
  device, is taken.\<close>

theorem autobind_complete:
  assumes "hc_reach c k rc s" "rm_state s = Some m" "auto_bind_enabled m \<noteq> 0"
  shows "\<exists>t. rolemgr_autobind (hc_env c k) s = Some t \<and> jd_devices t = jd_devices s \<and>
    (\<forall>r sp. service_of r s = Some sp \<longrightarrow> service_of r t = Some sp) \<and>
    (\<forall>r sp. new_binding s t r sp \<longrightarrow> sp \<notin> assigned s \<and> class_at sp s = map_option role_class (role_store s r)) \<and>
    (\<forall>r r' sp. new_binding s t r sp \<longrightarrow> new_binding s t r' sp \<longrightarrow> r = r') \<and> (\<forall>r\<in>set (rm_roles m). settled r t)"
proof -
  have "role_listener.role_good hc_inv {} s" "unlocked s" using reach_safe [OF assms(1)] by (simp_all add: hc.safe_def)
  from hc.autobind_ok [OF this] obtain t where "rolemgr_autobind (hc_env c k) s = Some t" "binds s t" "grows s t"
    "\<forall>r\<in>set (rm_roles m). settled r t" using assms(2,3) by blast
  then show ?thesis unfolding grows_def by (auto simp: binds_def same_table_def)
qed

text \<open>C13: a collection keeps every device that has not expired, in its place, and removes only expired ones; while there
  is an expired device it removes at least one, so that repeated collections remove them all.\<close>

theorem gc_progress:
  assumes "hc_reach c k rc s"
  shows "\<exists>t. jd_device_gc (hc_events c k) (s\<lparr>event_scope := 1\<rparr>) = Some t \<and> set (jd_devices t) \<subseteq> set (jd_devices s) \<and>
    filter (\<lambda>a. \<not> expired s a) (jd_devices t) = filter (\<lambda>a. \<not> expired s a) (jd_devices s) \<and>
    ((\<exists>a\<in>set (jd_devices s). expired s a) \<longrightarrow> length (jd_devices t) < length (jd_devices s))"
proof -
  let ?s = "s\<lparr>event_scope := 1\<rparr>"
  have s: "client_inv {} s" "roles_inv s \<and> hc_inv s \<and> unlocked s" using reach_safe [OF assms] by (simp_all add: hc_safe_iff)
  have "hc.table.good {} ?s" using s hc.table.scope_core(1) by (simp add: hc.table.good_def)
  from hc.table.gc_ok [OF this, of c k] obtain t where t: "jd_device_gc (hc_events c k) ?s = Some t"
    "jd_devices t = gc_list (expired ?s) (jd_devices ?s)" by (auto simp: hc.table.gc_result_def)
  have "expired ?s = expired s" by (simp add: expired_def table_def fun_eq_iff)
  then have l: "jd_devices t = gc_list (expired s) (jd_devices s)" using t(2) by simp
  have "set (jd_devices t) \<subseteq> set (jd_devices s)"
    using set_gc_skip(1) [of "expired s" "dropWhile (expired s) (jd_devices s)"] set_dropWhileD by (fastforce simp: l gc_list_def)
  then show ?thesis using t(1) l filter_gc_list gc_list_progress by metis
qed

section \<open>Examples\<close>

text \<open>A device that starts, creates a client for the role \<open>b\<close> of class \<open>0x42\<close>, hears a device with such a service and binds it.\<close>

definition sample_start :: hclient where
  "sample_start = rolemgr.extend (client.extend (svcs.extend quiet_state (client.fields [] 0 0 [] Map.empty 1))
     (rolemgr.fields None Map.empty)) (hclient.fields [] Map.empty False [])"

definition sample_announce :: jd_frame where
  "sample_announce = \<lparr>frm_crc = 0, frm_size = 12, frm_flags = 0, frm_device_identifier = 0x77,
     frm_data = pkt_header 8 0 0 @ [1, 0, 0, 0, 0x42, 0, 0, 0]\<rparr>"

abbreviation "sample_steady \<equiv> env_ctl quiet_env"

definition sample_rc :: role_codes where
  "sample_rc = \<lparr>CMD_CLEAR_ALL_ROLES = 0x84, CMD_SET_ROLE = 0x81, CMD_LIST_ROLES = 0x83, REG_AUTO_BIND = 0x80, REG_ALL_ROLES_ALLOCATED = 0x181,
     EV_CHANGE = 3, EVENT_QUEUE_SIZE = 32, set_role_size = 9, set_role_device_id = (\<lambda>m. le_word (take 8 m)),
     set_role_service_idx = (\<lambda>m. unat (m ! 8)), role_report_header = (\<lambda>d cls i. le_bytes 8 d @ le_bytes 4 cls @ [of_nat i])\<rparr>"

lemma sample_start_fields [simp]:
  "jd_client_listeners sample_start = []" "event_scope sample_start = 0" "jd_devices sample_start = []" "dev_store sample_start = Map.empty"
  "next_addr sample_start = 1" "rm_state sample_start = None" "role_store sample_start = Map.empty" "client_list sample_start = []"
  "jdc_store sample_start = Map.empty" "client_mut sample_start = False" "services sample_start = services quiet_state"
  "now_us sample_start = now_us quiet_state" "device_id sample_start = device_id quiet_state" "next_gc sample_start = 0"
  by (simp_all add: sample_start_def svcs.defs client.defs rolemgr.defs hclient.defs)

definition sample_boot :: hclient where
  "sample_boot = the (jd_role_manager_init 0x1e4b7e66 0 (jdc_start_threads 0 sample_start))"

lemma sample_boot_run: "jd_role_manager_init 0x1e4b7e66 0 (jdc_start_threads 0 sample_start) = Some sample_boot"
  by (simp add: sample_boot_def jd_role_manager_init_def jd_allocate_service_def jdc_start_threads_def jd_client_subscribe_def JD_MAX_SERVICES_def)

lemma quiet_now [simp]: "now_us quiet_state = 0"
  by (simp add: quiet_state_def svcs.defs pipes.defs sample_pipes_def bus.defs bus_init_def bus_zero_def jd_phys_start_def
      set_tick_timer_def has_status_def Let_def)

lemmas boot_defs = sample_boot_def jd_role_manager_init_def jd_allocate_service_def jdc_start_threads_def jd_client_subscribe_def
  JD_MAX_SERVICES_def set_rm_def

lemma sample_boot_fields [simp]:
  "jd_client_listeners sample_boot = [0]" "event_scope sample_boot = 0" "jd_devices sample_boot = []" "dev_store sample_boot = Map.empty"
  "next_addr sample_boot = 1" "role_store sample_boot = Map.empty" "client_list sample_boot = []" "now_us sample_boot = 0"
  "jdc_store sample_boot = Map.empty" "client_mut sample_boot = False" "device_id sample_boot = 7" "next_gc sample_boot = 0"
  "rm_state sample_boot = Some \<lparr>rm_index = 4, auto_bind_enabled = 1, all_roles_allocated = 0, rm_changed = False, rm_locked = False,
     force_hints = False, rm_roles = [], next_autobind = AUTOBIND_US, changed_timeout = 0, list_pipe = 0, list_ptr = None, app_device_id = 0\<rparr>"
  by (simp_all add: boot_defs)

lemma sample_boot_reach: "hc_reach sample_sys sample_steady sample_rc sample_boot"
  by (rule hc_reach.start [OF _ sample_boot_run]) (simp add: hc_start_def)

definition sample_created :: hclient where
  "sample_created = fst (the (jdc_create 0x42 [0x62] sample_boot))"

lemma sample_created_eq: "jdc_create 0x42 [0x62] sample_boot = Some (sample_created, 2)"
  by (simp add: sample_created_def jdc_create_def jd_assert_def jd_role_alloc_def rolemgr_lookup_def stop_list_def parse_hint_def Let_def)

lemma sample_created_fields [simp]:
  "jd_client_listeners sample_created = [0]" "event_scope sample_created = 0" "jd_devices sample_created = []"
  "dev_store sample_created = Map.empty" "next_addr sample_created = 3" "client_list sample_created = [2]" "now_us sample_created = 0"
  "role_store sample_created = [1 \<mapsto> \<lparr>role_name = [0x62], role_class = 0x42, role_hidden = False, hint_dev = 0, hint_srvo = 0, role_service = None\<rparr>]"
  "client_mut sample_created = False" "device_id sample_created = 7"
  "jdc_store sample_created = [Suc (Suc 0) \<mapsto> \<lparr>jc_locked = False, jc_role = 1, jc_service = None, jc_userdata = 0,
         jc_queries = [], jc_write_timeout = JDC_TIMEOUT_DEFAULT, jc_read_timeout = JDC_TIMEOUT_DEFAULT, jc_read_flags = 0,
         jc_write_flags = 0, jc_streaming = 0\<rparr>]"
  "rm_state sample_created = Some \<lparr>rm_index = 4, auto_bind_enabled = 1, all_roles_allocated = 0, rm_changed = True, rm_locked = False,
     force_hints = False, rm_roles = [1], next_autobind = AUTOBIND_US, changed_timeout = 0, list_pipe = 0, list_ptr = None, app_device_id = 0\<rparr>"
  by (simp_all add: sample_created_def jdc_create_def jd_assert_def jd_role_alloc_def rolemgr_lookup_def stop_list_def parse_hint_def Let_def
      set_rm_def)

lemma sample_created_reach: "hc_reach sample_sys sample_steady sample_rc sample_created"
  by (rule hc_reach.step [OF sample_boot_reach]) (rule hc_step.create [OF _ sample_created_eq], simp)

lemma sample_announce_fields [simp]:
  "pkt_service_size sample_announce = 8" "pkt_service_index sample_announce = 0" "pkt_service_command sample_announce = 0"
  "frm_device_identifier sample_announce = 0x77" "flag_set sample_announce f = False" "jd_is_command sample_announce = False"
  "pkt_ok sample_announce" "is_announce sample_announce" "\<not> jd_is_event sample_announce"
  by (simp_all add: sample_announce_def pkt_header_def pkt_service_size_def pkt_service_index_def pkt_service_command_def flag_set_def
      jd_is_command_def pkt_ok_def is_announce_def jd_is_event_def)

definition sample_announced :: jd_device where
  "sample_announced = the (new_device sample_announce 0)"

lemma sample_announced_eq: "new_device sample_announce 0 = Some sample_announced"
  by (simp add: sample_announced_def new_device_def rd_mem_def Let_def) (simp add: sample_announce_def pkt_header_def)

lemma sample_announced_fields [simp]:
  "dv_identifier sample_announced = 0x77" "dv_announce_flags sample_announced = 1" "dv_queries sample_announced = []"
  "dv_services sample_announced = [\<lparr>sv_class = 0, sv_index = 0, sv_flags = 0\<rparr>, \<lparr>sv_class = 0x42, sv_index = 1, sv_flags = 0\<rparr>]"
  by (simp_all add: sample_announced_def new_device_def rd_mem_def Let_def)
   (simp_all add: sample_announce_def pkt_header_def announced_service_def upt_rec)

lemma quiet_emit:
  assumes "jd_client_listeners s = [0]" "event_scope s = 1" "jd_client_log_event ev (s\<lparr>event_scope := 0\<rparr>) = Some ()"
    "jdc_event_handler ev (s\<lparr>event_scope := 0\<rparr>) = Some (s\<lparr>event_scope := 0\<rparr>)"
  shows "jd_client_emit_event (hc_events c k) ev s = Some s"
proof -
  have "s\<lparr>event_scope := 1\<rparr> = s" using assms(2) by simp
  then show ?thesis
    using assms by (simp add: jd_client_emit_event_def jd_assert_def EVENT_LEAVE_def EVENT_ENTER_def with_roles_def hc_env_def)
qed

definition sample_linked :: hclient where
  "sample_linked = sample_created\<lparr>event_scope := 1, dev_store := [3 \<mapsto> sample_announced], jd_devices := [3], next_addr := 4\<rparr>"

lemma sample_alloc:
  "jd_device_alloc (hc_events c k) sample_announce (sample_created\<lparr>event_scope := Suc 0\<rparr>) = Some (sample_linked, 3)"
proof -
  have "jd_client_emit_event (hc_events c k) (EV_DEVICE_CREATED 3 sample_announce) sample_linked = Some sample_linked"
    by (rule quiet_emit) (simp_all add: sample_linked_def jd_client_log_event_def jdc_event_handler_def)
  then show ?thesis by (simp add: jd_device_alloc_def sample_announced_eq Let_def set_device_def sample_linked_def)
qed

definition sample_entered :: hclient where
  "sample_entered = sample_linked\<lparr>dev_store := [3 \<mapsto> sample_announced\<lparr>dv_expires := EXPIRES_USEC\<rparr>]\<rparr>"

lemma sample_handle_announce:
  "handle_announce (hc_events c k) None sample_announce (sample_created\<lparr>event_scope := Suc 0\<rparr>) = Some (sample_entered, 3)"
proof -
  have "rd_mem (frm_data sample_announce) 4 2 = Some [1, 0]" by (simp add: rd_mem_def sample_announce_def pkt_header_def)
  then show ?thesis by (simp add: handle_announce_def sample_alloc) (simp add: sample_linked_def sample_entered_def set_device_def)
qed

lemma sample_heard_eq:
  "jd_client_handle_packet (hc_events sample_sys k) sample_announce sample_created = Some (sample_entered\<lparr>event_scope := 0\<rparr>)"
proof -
  have get: "\<not> JD_IS_GET sample_sys 0" by (simp add: JD_IS_GET_def sample_sys_def drop_bit_eq_div)
  have "handle_register (hc_events sample_sys k) (3, 0) sample_announce sample_entered = Some sample_entered"
    using get by (simp add: handle_register_def with_roles_def hc_env_def) (simp add: sample_sys_def)
  then have rep: "handle_report (hc_events sample_sys k) None None sample_announce (sample_created\<lparr>event_scope := Suc 0\<rparr>) =
      Some (sample_entered, Some 3, Some (3, 0), False)"
    by (simp add: handle_report_def sample_handle_announce handle_event_def)
  have "jd_client_emit_event (hc_events sample_sys k) (EV_SERVICE_PACKET (3, 0) sample_announce) sample_entered = Some sample_entered"
    by (rule quiet_emit)
      (simp_all add: sample_entered_def sample_linked_def jd_client_log_event_def jdc_event_handler_def packet_event_def jd_is_report_def
        find_and_lock_def jd_assert_def)
  then show ?thesis
    using rep by (simp add: jd_client_handle_packet_def EVENT_ENTER_def EVENT_LEAVE_def jd_device_lookup_def jd_device_get_service_def)
      (simp add: sample_entered_def sample_linked_def)
qed

definition sample_heard :: hclient where
  "sample_heard = sample_entered\<lparr>event_scope := 0\<rparr>"

lemma sample_heard_reach: "hc_reach sample_sys sample_steady sample_rc sample_heard"
  unfolding sample_heard_def by (rule hc_reach.step [OF sample_created_reach]) (rule hc_step.packet [OF _ sample_heard_eq], simp)

lemma sample_heard_fields [simp]:
  "jd_client_listeners sample_heard = [0]" "event_scope sample_heard = 0" "jd_devices sample_heard = [3]"
  "dev_store sample_heard = [3 \<mapsto> sample_announced\<lparr>dv_expires := EXPIRES_USEC\<rparr>]" "client_list sample_heard = [2]"
  "role_store sample_heard = role_store sample_created" "client_mut sample_heard = False" "jdc_store sample_heard = jdc_store sample_created"
  "rm_state sample_heard = rm_state sample_created"
  by (simp_all add: sample_heard_def sample_entered_def sample_linked_def)

lemma walk_roles_eqs:
  "walk_roles f None s = Some s"
  "walk_roles f (Some r) s = do { s \<leftarrow> f r s; m \<leftarrow> rm_state s; nx \<leftarrow> next_in (rm_roles m) r; walk_roles f nx s }"
  by (subst walk_roles.simps, simp)+

lemma sample_bind:
  "\<exists>t. jd_role_force_autobind (hc_env c k) sample_heard = Some t \<and> map_option role_service (role_store t 1) = Some (Some (3, 1))"
  by (simp add: jd_role_force_autobind_def rolemgr_autobind_def LOCK_def UNLOCK_def jd_assert_def for_roles_def first_in_def walk_roles_eqs
      rolemgr_use_hint_def autobind_role_def num_services_def free_for_def upt_rec rolemgr_set_def set_flags_def set_device_def jd_service_parent_def
      service_at_def rolemgr_role_changed_def EVENT_ENTER_def EVENT_LEAVE_def jd_client_emit_event_def jd_client_log_event_def hc_env_def
      jdc_event_handler_def role_event_def find_and_lock_def set_jdc_def unlock_client_def set_rm_def)


theorem bindings_are_live_witness:
  "\<exists>t :: hclient. hc_reach sample_sys sample_steady sample_rc t \<and> service_of 1 t = Some (3, 1) \<and> 3 \<in> set (jd_devices t)"
proof -
  obtain t where t: "jd_role_force_autobind (hc_env sample_sys sample_steady) sample_heard = Some t"
    "map_option role_service (role_store t 1) = Some (Some (3, 1))" using sample_bind by blast
  have r: "hc_reach sample_sys sample_steady sample_rc t" by (rule hc_reach.step [OF sample_heard_reach]) (rule hc_step.autobind [OF t(1)])
  obtain x where x: "role_store t 1 = Some x" "role_service x = Some (3, 1)" using t(2) by auto
  then have "service_of 1 t = Some (3, 1)" by (simp add: service_of_def)
  then show ?thesis using bindings_are_live [OF r x] r by blast
qed

theorem clients_follow_roles_witness: "jdc_get_binding_info 2 sample_heard = Some (0, 0, JDC_STATUS_UNBOUND)"
  using clients_follow_roles [OF sample_heard_reach, of 2] by (simp split: option.splits)


theorem autobind_complete_witness:
  "\<exists>t. rolemgr_autobind (hc_env sample_sys sample_steady) sample_heard = Some t \<and> settled 1 t"
  using autobind_complete [OF sample_heard_reach] by fastforce

theorem gc_progress_witness:
  "\<exists>t. jd_device_gc (hc_events sample_sys sample_steady) (sample_heard\<lparr>now_us := 3000000, event_scope := 1\<rparr>) = Some t \<and> jd_devices t = []"
proof -
  let ?s = "sample_heard\<lparr>now_us := 3000000\<rparr>"
  have "elsewhere sample_heard ?s" by (cases sample_heard rule: hclient.cases) (simp add: elsewhere_def)
  then have "hc_reach sample_sys sample_steady sample_rc ?s" by (rule hc_reach.step [OF sample_heard_reach hc_step.other])
  moreover have "expired ?s 3" by (simp add: expired_def table_def dev_frame_def EXPIRES_USEC_def in_past_def is_before_def)
  ultimately show ?thesis using gc_progress [of sample_sys sample_steady sample_rc ?s] by (simp, blast)
qed

end
