(* ===== verification/Jd_Ledstrip.thy ===== *)
theory Jd_Ledstrip
  imports Jd_Register Jd_Util "HOL-Library.Signed_Division"
begin

text \<open>
  The LED strip service, services/ledstrip.c with services/led\_internal.h: the interpreter of light programs over the
  buffer of pixels, the limit of the current and the registers.  The build without a power pin (\<open>PIN_PWR\<close> negative) is
  modelled.  The transmission to the strip is the result of \<open>ledstrip_process\<close>; switching the clock of the processor has
  no effect on the state.
\<close>

section \<open>Data\<close>

definition LIGHT_PROG_SET_ALL :: nat where "LIGHT_PROG_SET_ALL = 0xD0"
definition LIGHT_PROG_FADE :: nat where "LIGHT_PROG_FADE = 0xD1"
definition LIGHT_PROG_FADE_HSV :: nat where "LIGHT_PROG_FADE_HSV = 0xD2"
definition LIGHT_PROG_ROTATE_FWD :: nat where "LIGHT_PROG_ROTATE_FWD = 0xD3"
definition LIGHT_PROG_ROTATE_BACK :: nat where "LIGHT_PROG_ROTATE_BACK = 0xD4"
definition LIGHT_PROG_SHOW :: nat where "LIGHT_PROG_SHOW = 0xD5"
definition LIGHT_PROG_RANGE :: nat where "LIGHT_PROG_RANGE = 0xD6"
definition LIGHT_PROG_MODE :: nat where "LIGHT_PROG_MODE = 0xD7"
definition LIGHT_PROG_MODE1 :: nat where "LIGHT_PROG_MODE1 = 0xD8"
definition LIGHT_MODE_REPLACE :: nat where "LIGHT_MODE_REPLACE = 0"
definition LIGHT_MODE_ADD_RGB :: nat where "LIGHT_MODE_ADD_RGB = 1"
definition LIGHT_MODE_SUBTRACT_RGB :: nat where "LIGHT_MODE_SUBTRACT_RGB = 2"
definition LIGHT_MODE_MULTIPLY_RGB :: nat where "LIGHT_MODE_MULTIPLY_RGB = 3"
definition LIGHT_MODE_LAST :: nat where "LIGHT_MODE_LAST = 3"
definition LIGHT_PROG_COLN :: nat where "LIGHT_PROG_COLN = 0xC0"
definition LIGHT_PROG_COL1 :: nat where "LIGHT_PROG_COL1 = 0xC1"
definition LIGHT_PROG_COL2 :: nat where "LIGHT_PROG_COL2 = 0xC2"
definition LIGHT_PROG_COL3 :: nat where "LIGHT_PROG_COL3 = 0xC3"
definition LIGHT_PROG_COL1_SET :: nat where "LIGHT_PROG_COL1_SET = 0xCF"
definition DEFAULT_INTENSITY :: nat where "DEFAULT_INTENSITY = 15"

lemmas light_codes = LIGHT_PROG_SET_ALL_def LIGHT_PROG_FADE_def LIGHT_PROG_FADE_HSV_def LIGHT_PROG_ROTATE_FWD_def
  LIGHT_PROG_ROTATE_BACK_def LIGHT_PROG_SHOW_def LIGHT_PROG_RANGE_def LIGHT_PROG_MODE_def LIGHT_PROG_MODE1_def
  LIGHT_PROG_COLN_def LIGHT_PROG_COL1_def LIGHT_PROG_COL2_def LIGHT_PROG_COL3_def LIGHT_PROG_COL1_SET_def

definition PX_WORDS :: "nat \<Rightarrow> nat" where
  "PX_WORDS num_pixels = (num_pixels * 3 + 3) div 4"

record RGB =
  rgb_r :: byte
  rgb_g :: byte
  rgb_b :: byte

datatype prog_item = PROG_EOF | PROG_CMD nat | PROG_NUMBER nat | PROG_COLOR_BLOCK nat

record ledstrip =
  ls_index :: nat
  requested_intensity :: nat
  intensity :: nat
  ledstrip_type :: nat
  ls_variant :: nat
  numpixels :: nat
  maxpower :: nat
  maxpixels :: nat
  num_repeats :: nat
  pxbuffer :: mem
  in_tx :: bool
  dirty :: bool
  inited :: bool
  prog_mode :: nat
  prog_tmpmode :: nat
  range_start :: nat
  range_end :: nat
  range_len :: nat
  range_ptr :: nat
  auto_refresh :: "32 word"
  prog_ptr :: nat
  prog_size :: nat
  prog_next_step :: "32 word"
  prog_data :: mem

section \<open>Colors\<close>

definition rgb :: "nat \<Rightarrow> nat \<Rightarrow> nat \<Rightarrow> RGB" where
  "rgb r g b = \<lparr>rgb_r = of_nat r, rgb_g = of_nat g, rgb_b = of_nat b\<rparr>"

definition hsv :: "byte \<Rightarrow> byte \<Rightarrow> byte \<Rightarrow> RGB" where
  "hsv hue sat v =
     (let hue = unat hue * 192 div 256;
          invsat = 255 - unat sat;
          brightness_floor = unat v * invsat div 256;
          color_amplitude = unat v - brightness_floor;
          sect = hue div 64;
          offset = hue mod 64;
          up = offset * color_amplitude div 64 + brightness_floor;
          down = (63 - offset) * color_amplitude div 64 + brightness_floor
      in if sect = 0 then rgb down up brightness_floor
         else if sect = 1 then rgb brightness_floor down up
         else rgb up brightness_floor down)"

definition mulcol :: "int \<Rightarrow> int \<Rightarrow> int" where
  "mulcol c m =
     (let c2 = c * m div 128 in
      if m < 128 \<and> c = c2 then c2 - 1 else if m > 128 \<and> c = c2 then c2 + 1 else c2)"

definition clamp :: "int \<Rightarrow> int" where
  "clamp c = (if c < 0 then 0 else if c > 255 then 255 else c)"

definition mix_mode :: "nat \<Rightarrow> byte \<Rightarrow> byte \<Rightarrow> byte" where
  "mix_mode mode p c =
     of_int (clamp (if mode = LIGHT_MODE_ADD_RGB then uint p + uint c
       else if mode = LIGHT_MODE_SUBTRACT_RGB then uint p - uint c
       else if mode = LIGHT_MODE_MULTIPLY_RGB then mulcol (uint p) (uint c) else uint p))"

section \<open>Pixels\<close>

definition reset_range :: "ledstrip \<Rightarrow> ledstrip" where
  "reset_range s = s\<lparr>range_ptr := range_start s\<rparr>"

definition set_next :: "RGB \<Rightarrow> ledstrip \<Rightarrow> (ledstrip \<times> bool) option" where
  "set_next c s =
     (if range_ptr s \<ge> range_end s then Some (s, False)
      else do {
        let i = range_ptr s * 3;
        p \<leftarrow> rd_mem (pxbuffer s) i 3;
        let new = (if prog_tmpmode s = LIGHT_MODE_REPLACE then [rgb_r c, rgb_g c, rgb_b c]
          else [mix_mode (prog_tmpmode s) (p ! 0) (rgb_r c), mix_mode (prog_tmpmode s) (p ! 1) (rgb_g c),
                mix_mode (prog_tmpmode s) (p ! 2) (rgb_b c)]);
        px \<leftarrow> wr_mem (pxbuffer s) i new;
        Some (s\<lparr>range_ptr := u16 (range_ptr s + 1), pxbuffer := px\<rparr>, True) })"

section \<open>Reading the program\<close>

definition prog_fetch_color :: "ledstrip \<Rightarrow> (ledstrip \<times> RGB) option" where
  "prog_fetch_color s =
     (if prog_ptr s + 3 > prog_size s then Some (s, rgb 0 0 0)
      else do {
        d \<leftarrow> rd_mem (prog_data s) (prog_ptr s) 3;
        Some (s\<lparr>prog_ptr := u8 (prog_ptr s + 3)\<rparr>, \<lparr>rgb_r = d ! 0, rgb_g = d ! 1, rgb_b = d ! 2\<rparr>) })"

text \<open>One byte of the program; the pointer moves behind it.\<close>

definition next_byte :: "ledstrip \<Rightarrow> (ledstrip \<times> nat) option" where
  "next_byte s = do { b \<leftarrow> rd8 (prog_data s) (prog_ptr s); Some (s\<lparr>prog_ptr := u8 (prog_ptr s + 1)\<rparr>, unat b) }"

definition prog_fetch :: "ledstrip \<Rightarrow> (ledstrip \<times> prog_item) option" where
  "prog_fetch s =
     (if prog_ptr s \<ge> prog_size s then Some (s, PROG_EOF)
      else do {
        (s, c) \<leftarrow> next_byte s;
        if c < 0x80 then Some (s, PROG_NUMBER c)
        else if c < 0xc0 then do { (s, b) \<leftarrow> next_byte s; Some (s, PROG_NUMBER (c mod 64 * 256 + b)) }
        else if c = LIGHT_PROG_COL1 then Some (s, PROG_COLOR_BLOCK 1)
        else if c = LIGHT_PROG_COL2 then Some (s, PROG_COLOR_BLOCK 2)
        else if c = LIGHT_PROG_COL3 then Some (s, PROG_COLOR_BLOCK 3)
        else if c = LIGHT_PROG_COLN then do { (s, b) \<leftarrow> next_byte s; Some (s, PROG_COLOR_BLOCK b) }
        else Some (s, PROG_CMD c) })"

definition prog_fetch_num :: "nat \<Rightarrow> ledstrip \<Rightarrow> (ledstrip \<times> nat) option" where
  "prog_fetch_num defl s = do {
     (t, r) \<leftarrow> prog_fetch s;
     Some (case r of PROG_NUMBER n \<Rightarrow> (t, n) | _ \<Rightarrow> (t\<lparr>prog_ptr := prog_ptr s\<rparr>, defl)) }"

fun skip_colors :: "nat \<Rightarrow> ledstrip \<Rightarrow> ledstrip option" where
  "skip_colors 0 s = Some s"
| "skip_colors (Suc n) s = do { (s, _) \<leftarrow> prog_fetch_color s; skip_colors n s }"

text \<open>The loop that skips to the next command; 0 is the end of the program.\<close>

partial_function (option) prog_fetch_cmd :: "ledstrip \<Rightarrow> (ledstrip \<times> nat) option" where
  "prog_fetch_cmd s = do {
     (s, r) \<leftarrow> prog_fetch s;
     case r of
       PROG_CMD c \<Rightarrow> Some (s, c)
     | PROG_COLOR_BLOCK n \<Rightarrow> do { s \<leftarrow> skip_colors n s; prog_fetch_cmd s }
     | PROG_NUMBER _ \<Rightarrow> prog_fetch_cmd s
     | PROG_EOF \<Rightarrow> Some (s, 0) }"

section \<open>Commands\<close>

fun set_colors :: "nat \<Rightarrow> bool \<Rightarrow> ledstrip \<Rightarrow> (ledstrip \<times> bool) option" where
  "set_colors 0 ok s = Some (s, ok)"
| "set_colors (Suc n) ok s = do {
     (s, c) \<leftarrow> prog_fetch_color s;
     (s, ok) \<leftarrow> set_next c s;
     set_colors n ok s }"

partial_function (option) set_loop :: "nat \<Rightarrow> nat \<Rightarrow> ledstrip \<Rightarrow> ledstrip option" where
  "set_loop start len s = do {
     (s, ok) \<leftarrow> set_colors len False (s\<lparr>prog_ptr := start\<rparr>);
     if ok then set_loop start len s else Some s }"

definition prog_set :: "nat \<Rightarrow> ledstrip \<Rightarrow> ledstrip option" where
  "prog_set len s = set_loop (prog_ptr s) len (reset_range s)"

text \<open>The inner loop of \<open>prog_fade\<close> moves \<open>n\<close> colors on; \<open>MIX\<close> is the mixture at the position \<open>fade1\<close> of 65536.\<close>

fun fade_colors :: "nat \<Rightarrow> RGB \<Rightarrow> RGB \<Rightarrow> ledstrip \<Rightarrow> (ledstrip \<times> RGB \<times> RGB) option" where
  "fade_colors 0 col0 col1 s = Some (s, col0, col1)"
| "fade_colors (Suc n) col0 col1 s = do { (s, c) \<leftarrow> prog_fetch_color s; fade_colors n col1 c s }"

definition MIX :: "nat \<Rightarrow> byte \<Rightarrow> byte \<Rightarrow> nat" where
  "MIX fade1 c0 c1 = u32 (unat c0 * (0xffff - fade1) + unat c1 * fade1 + 0x8000) div 65536"

definition fade_mix :: "bool \<Rightarrow> nat \<Rightarrow> RGB \<Rightarrow> RGB \<Rightarrow> RGB" where
  "fade_mix usehsv fade1 col0 col1 =
     (let c = rgb (MIX fade1 (rgb_r col0) (rgb_r col1)) (MIX fade1 (rgb_g col0) (rgb_g col1)) (MIX fade1 (rgb_b col0) (rgb_b col1))
      in if usehsv then hsv (rgb_r c) (rgb_g c) (rgb_b c) else c)"

partial_function (option) fade_loop :: "bool \<Rightarrow> nat \<Rightarrow> nat \<Rightarrow> nat \<Rightarrow> RGB \<Rightarrow> RGB \<Rightarrow> ledstrip \<Rightarrow> ledstrip option" where
  "fade_loop usehsv colstep colidx colpos col0 col1 s = do {
     let i = colpos div 65536;
     (s, col0, col1) \<leftarrow> fade_colors (i - colidx) col0 col1 s;
     (s, ok) \<leftarrow> set_next (fade_mix usehsv (colpos mod 65536) col0 col1) s;
     if ok then fade_loop usehsv colstep (max colidx i) (u32 (colpos + colstep)) col0 col1 s else Some s }"

definition prog_fade :: "nat \<Rightarrow> bool \<Rightarrow> ledstrip \<Rightarrow> ledstrip option" where
  "prog_fade len usehsv s =
     (if len < 2 then prog_set len s
      else do {
        let endp = u8 (prog_ptr s + 3 * len);
        (s, col0) \<leftarrow> prog_fetch_color s;
        (s, col1) \<leftarrow> prog_fetch_color s;
        jd_assert (range_len s \<noteq> 0);
        let colstep = u32 ((len - 1) * 65536) div range_len s;
        s \<leftarrow> fade_loop usehsv colstep 0 0 col0 col1 (reset_range s);
        Some (s\<lparr>prog_ptr := endp\<rparr>) })"

text \<open>The loop of \<open>prog_rot\<close> on the positions of its four pointers; it swaps single bytes.\<close>

partial_function (option) rot_loop :: "nat \<Rightarrow> nat \<Rightarrow> nat \<Rightarrow> nat \<Rightarrow> mem \<Rightarrow> mem option" where
  "rot_loop fst_p middle last_p next_p m =
     (if fst_p = next_p then Some m
      else do {
        a \<leftarrow> rd8 m fst_p;
        b \<leftarrow> rd8 m next_p;
        m \<leftarrow> wr8 m fst_p b;
        m \<leftarrow> wr8 m next_p a;
        if next_p + 1 = last_p then rot_loop (fst_p + 1) middle last_p middle m
        else if fst_p + 1 = middle then rot_loop (fst_p + 1) (next_p + 1) last_p (next_p + 1) m
        else rot_loop (fst_p + 1) middle last_p (next_p + 1) m })"

definition prog_rot :: "nat \<Rightarrow> ledstrip \<Rightarrow> ledstrip option" where
  "prog_rot shift s =
     (if shift = 0 \<or> shift \<ge> range_len s then Some s
      else do {
        m \<leftarrow> rot_loop (range_start s * 3) ((range_start s + shift) * 3) (range_end s * 3) ((range_start s + shift) * 3) (pxbuffer s);
        Some (s\<lparr>pxbuffer := m\<rparr>) })"

definition fetch_mode :: "ledstrip \<Rightarrow> (ledstrip \<times> nat) option" where
  "fetch_mode s = do {
     (s, m) \<leftarrow> prog_fetch_num 0 s;
     Some (s, if m > LIGHT_MODE_LAST then 0 else m) }"

definition reset_prog :: "32 word \<Rightarrow> ledstrip \<Rightarrow> ledstrip" where
  "reset_prog now s = s\<lparr>prog_ptr := 0, range_start := 0, range_end := numpixels s, range_len := numpixels s,
     prog_tmpmode := 0, prog_mode := 0, prog_next_step := now\<rparr>"

text \<open>\<open>while (k >= len) k -= len\<close>\<close>

function sub_while :: "nat \<Rightarrow> nat \<Rightarrow> nat" where
  "sub_while k len = (if len = 0 \<or> k < len then k else sub_while (k - len) len)"
  by auto
termination by (relation "measure fst") auto

declare sub_while.simps [simp del]

text \<open>One command other than \<open>LIGHT_PROG_SHOW\<close>; the flag says that the rest of the loop body is skipped (\<open>continue\<close>).\<close>

definition prog_command :: "nat \<Rightarrow> ledstrip \<Rightarrow> (ledstrip \<times> bool) option" where
  "prog_command cmd s =
     (if cmd = LIGHT_PROG_COL1_SET then do {
        (s, n) \<leftarrow> prog_fetch_num 0 s;
        (s, c) \<leftarrow> prog_fetch_color (s\<lparr>range_ptr := u16 (range_start s + n)\<rparr>);
        (s, _) \<leftarrow> set_next c s;
        Some (s, False) }
      else if cmd = LIGHT_PROG_FADE \<or> cmd = LIGHT_PROG_FADE_HSV \<or> cmd = LIGHT_PROG_SET_ALL then do {
        (s, r) \<leftarrow> prog_fetch s;
        case r of
          PROG_COLOR_BLOCK len \<Rightarrow>
            if len = 0 then Some (s, True)
            else do {
              s \<leftarrow> (if cmd = LIGHT_PROG_SET_ALL then prog_set len s else prog_fade len (cmd = LIGHT_PROG_FADE_HSV) s);
              Some (s, False) }
        | _ \<Rightarrow> Some (s, True) }
      else if cmd = LIGHT_PROG_ROTATE_BACK \<or> cmd = LIGHT_PROG_ROTATE_FWD then do {
        (s, k) \<leftarrow> prog_fetch_num 1 s;
        if range_len s = 0 then Some (s, True)
        else do {
          let k = sub_while k (range_len s);
          let k = (if cmd = LIGHT_PROG_ROTATE_FWD \<and> k \<noteq> 0 then range_len s - k else k);
          s \<leftarrow> prog_rot k s;
          Some (s, False) } }
      else if cmd = LIGHT_PROG_MODE1 then do { (s, m) \<leftarrow> fetch_mode s; Some (s\<lparr>prog_tmpmode := m\<rparr>, False) }
      else if cmd = LIGHT_PROG_MODE then do { (s, m) \<leftarrow> fetch_mode s; Some (s\<lparr>prog_mode := m\<rparr>, False) }
      else if cmd = LIGHT_PROG_RANGE then do {
        (s, start) \<leftarrow> prog_fetch_num 0 s;
        (s, len) \<leftarrow> prog_fetch_num (numpixels s) s;
        let start = min start (numpixels s);
        let end_p = min (start + len) (numpixels s);
        Some (s\<lparr>range_start := start, range_end := end_p, range_len := end_p - start\<rparr>, False) }
      else Some (s, False))"

partial_function (option) prog_loop :: "ledstrip \<Rightarrow> ledstrip option" where
  "prog_loop s = do {
     (s, cmd) \<leftarrow> prog_fetch_cmd s;
     if cmd = 0 then Some s
     else if cmd = LIGHT_PROG_SHOW then do {
       (s, k) \<leftarrow> prog_fetch_num 50 s;
       Some (s\<lparr>prog_next_step := prog_next_step s + of_nat (k * 1000), dirty := True\<rparr>) }
     else do {
       (s, skip) \<leftarrow> prog_command cmd s;
       prog_loop (if skip \<or> cmd = LIGHT_PROG_MODE1 then s else s\<lparr>prog_tmpmode := prog_mode s\<rparr>) } }"

definition prog_process :: "32 word \<Rightarrow> ledstrip \<Rightarrow> ledstrip option" where
  "prog_process now s =
     (if in_tx s \<or> in_future now (prog_next_step s) then Some s
      else if prog_ptr s \<ge> prog_size s then
        (if num_repeats s \<noteq> 1
         then prog_loop (reset_prog now (if num_repeats s \<noteq> 0 then s\<lparr>num_repeats := num_repeats s - 1\<rparr> else s))
         else Some s)
      else prog_loop s)"

section \<open>The current\<close>

definition SCALE0 :: "nat \<Rightarrow> nat \<Rightarrow> nat" where
  "SCALE0 c i = (c mod 256) * (1 + i mod 256) div 256"

text \<open>The current of the pixels at an intensity, in micro-amperes, and what the power budget leaves for it.\<close>

definition px_current :: "mem \<Rightarrow> nat \<Rightarrow> int" where
  "px_current d i = 46 * int (sum_list (map (\<lambda>v. SCALE0 (unat v) i) d))"

definition current_limit :: "ledstrip \<Rightarrow> int" where
  "current_limit s = int (maxpower s) * 1000 - (14000 + 930 * int (numpixels s))"

definition limit_intensity :: "ledstrip \<Rightarrow> ledstrip option" where
  "limit_intensity s = do {
     d \<leftarrow> rd_mem (pxbuffer s) 0 (numpixels s * 3);
     let prev = intensity s;
     let inten = min (prev + (1 + prev div 32)) (requested_intensity s);
     let full = 46 * int (sum_list (map unat d));
     let limit = current_limit s;
     if px_current d inten \<le> limit then Some (s\<lparr>intensity := inten\<rparr>)
     else if px_current d prev \<le> limit then Some s
     else do {
       jd_assert (full div 256 \<noteq> 0);
       let inten = limit sdiv (full div 256) - 1;
       Some (s\<lparr>intensity := u8 (nat (if inten < 0 then 0 else inten))\<rparr>) } }"

definition is_enabled :: "ledstrip \<Rightarrow> bool" where
  "is_enabled s \<longleftrightarrow> numpixels s > 0 \<and> requested_intensity s > 0"

definition px_tx_done :: "ledstrip \<Rightarrow> ledstrip" where
  "px_tx_done s = s\<lparr>in_tx := False\<rparr>"

section \<open>The service\<close>

text \<open>\<open>available\<close> is \<open>jd_available_memory()\<close>; \<open>jd_alloc\<close> takes a number of bytes and clears them.\<close>

definition px_alloc_buffer :: "nat \<Rightarrow> ledstrip \<Rightarrow> ledstrip" where
  "px_alloc_buffer available s =
     (if maxpixels s \<noteq> 0 then s
      else let maxpix = nat (min (int (available div 3) - 1) 4096 mod 65536)
        in s\<lparr>maxpixels := maxpix, pxbuffer := replicate (PX_WORDS maxpix) 0\<rparr>)"

text \<open>The pixels and the intensity that are sent to the strip, if any.\<close>

definition ledstrip_process :: "nat \<Rightarrow> 32 word \<Rightarrow> ledstrip \<Rightarrow> (ledstrip \<times> (mem \<times> nat) option) option" where
  "ledstrip_process available now s = do {
     s \<leftarrow> prog_process now (px_alloc_buffer available s);
     let s = (if in_past now (auto_refresh s) \<and> inited s then s\<lparr>dirty := True\<rparr> else s);
     if \<not> is_enabled s then Some (s, None)
     else if dirty s \<and> \<not> in_tx s then do {
       s \<leftarrow> limit_intensity (s\<lparr>dirty := False, auto_refresh := now + 64 * 1024, in_tx := True\<rparr>);
       d \<leftarrow> rd_mem (pxbuffer s) 0 (numpixels s * 3);
       Some (s, Some (d, intensity s)) }
     else Some (s, None) }"

definition sync_config :: "ledstrip \<Rightarrow> ledstrip" where
  "sync_config s = (if \<not> is_enabled s then s else s\<lparr>inited := True\<rparr>)"

definition handle_run_cmd :: "32 word \<Rightarrow> jd_frame \<Rightarrow> ledstrip \<Rightarrow> ledstrip option" where
  "handle_run_cmd now pkt s = do {
     d \<leftarrow> rd_mem (frm_data pkt) 4 (pkt_service_size pkt);
     m \<leftarrow> wr_mem (prog_data s) 0 d;
     Some (sync_config (reset_prog now (s\<lparr>prog_size := pkt_service_size pkt, prog_data := m\<rparr>))) }"

record ledstrip_codes =
  CMD_RUN :: nat
  REG_BRIGHTNESS :: nat
  REG_ACTUAL_BRIGHTNESS :: nat
  REG_LIGHT_TYPE :: nat
  REG_LED_VARIANT :: nat
  REG_NUM_PIXELS :: nat
  REG_MAX_POWER :: nat
  REG_MAX_PIXELS :: nat
  REG_NUM_REPEATS :: nat

definition ledstrip_regs :: "ledstrip_codes \<Rightarrow> nat list" where
  "ledstrip_regs k = [T_REG_BYTES * 4096 + 0xff0, 6, 4096 + REG_BRIGHTNESS k, 4096 + REG_ACTUAL_BRIGHTNESS k, 4096 + REG_LIGHT_TYPE k,
     4096 + REG_LED_VARIANT k, 3 * 4096 + REG_NUM_PIXELS k, 3 * 4096 + REG_MAX_POWER k, 3 * 4096 + REG_MAX_PIXELS k,
     3 * 4096 + REG_NUM_REPEATS k, JD_REG_END]"

text \<open>The bytes of the struct that the register table describes.\<close>

definition le16 :: "nat \<Rightarrow> mem" where
  "le16 n = [of_nat n, of_nat (n div 256)]"

definition rd16 :: "mem \<Rightarrow> nat \<Rightarrow> nat" where
  "rd16 m i = unat (m ! i) + 256 * unat (m ! (i + 1))"

definition ls_image :: "ledstrip \<Rightarrow> mem" where
  "ls_image s = replicate 4 0 @ [of_nat (ls_index s), 0, of_nat (requested_intensity s), of_nat (intensity s), of_nat (ledstrip_type s),
     of_nat (ls_variant s)] @ le16 (numpixels s) @ le16 (maxpower s) @ le16 (maxpixels s) @ le16 (num_repeats s)"

definition ls_from_image :: "mem \<Rightarrow> ledstrip \<Rightarrow> ledstrip" where
  "ls_from_image m s = s\<lparr>requested_intensity := unat (m ! 6), intensity := unat (m ! 7), ledstrip_type := unat (m ! 8),
     ls_variant := unat (m ! 9), numpixels := rd16 m 10, maxpower := rd16 m 12, maxpixels := rd16 m 14, num_repeats := rd16 m 16\<rparr>"

definition ledstrip_handle_packet ::
  "sys_consts \<Rightarrow> ledstrip_codes \<Rightarrow> 32 word \<Rightarrow> jd_frame \<Rightarrow> ledstrip \<Rightarrow> 'a bus_scheme \<Rightarrow> (ledstrip \<times> 'a bus_scheme) option" where
  "ledstrip_handle_packet c k now pkt s b =
     (if pkt_service_command pkt = CMD_RUN k then map_option (\<lambda>s. (s, b)) (handle_run_cmd now pkt s)
      else do {
        (img, b, r) \<leftarrow> service_handle_register_final c (ls_image s) pkt (ledstrip_regs k) b;
        let s = ls_from_image img s;
        Some (if r = int (REG_BRIGHTNESS k) then s\<lparr>intensity := requested_intensity s\<rparr>
          else if r = int (REG_NUM_PIXELS k) then s\<lparr>numpixels := min (numpixels s) (maxpixels s)\<rparr>
          else s, b) })"

definition ledstrip_init :: "nat \<Rightarrow> nat \<Rightarrow> nat \<Rightarrow> nat \<Rightarrow> nat \<Rightarrow> ledstrip" where
  "ledstrip_init idx default_ledstrip_type default_num_pixels default_max_power var =
     \<lparr>ls_index = idx, requested_intensity = DEFAULT_INTENSITY, intensity = DEFAULT_INTENSITY, ledstrip_type = u8 default_ledstrip_type,
      ls_variant = u8 var, numpixels = u16 default_num_pixels, maxpower = u16 default_max_power, maxpixels = 0, num_repeats = 1,
      pxbuffer = [], in_tx = False, dirty = False, inited = False, prog_mode = 0, prog_tmpmode = 0, range_start = 0, range_end = 0,
      range_len = 0, range_ptr = 0, auto_refresh = 0, prog_ptr = 0, prog_size = 0, prog_next_step = 0, prog_data = replicate 237 0\<rparr>"

section \<open>Rotation\<close>

text \<open>The memory is \<open>P @ Q @ R\<close> from \<open>first\<close> on, with \<open>middle\<close> behind \<open>P\<close> and \<open>next\<close> behind \<open>Q\<close>; what is left to do turns it
  into \<open>R @ Q @ P\<close>.\<close>

lemma swap_step:
  "do { a \<leftarrow> rd8 m (length pre); b \<leftarrow> rd8 m (length pre + Suc (length P) + length Q); m \<leftarrow> wr8 m (length pre) b;
        wr8 m (length pre + Suc (length P) + length Q) a } = Some ((pre @ [r]) @ P @ (Q @ [p]) @ R @ post)"
  if "m = pre @ (p # P) @ Q @ (r # R) @ post"
proof -
  let ?i = "length pre" and ?j = "length pre + Suc (length P) + length Q"
  have b: "?i < length m" "?j < length m" "m ! ?i = p" "m ! ?j = r" by (auto simp: that nth_append)
  have "m[?i := r] = (pre @ [r]) @ P @ Q @ (r # R) @ post" by (simp add: that list_update_append)
  then have "m[?i := r, ?j := p] = (pre @ [r]) @ P @ (Q @ [p]) @ R @ post" by (simp add: list_update_append)
  then show ?thesis using b by simp
qed

lemma rot_loop_ok:
  assumes "m = pre @ P @ Q @ R @ post" "P = [] \<and> Q = [] \<or> P \<noteq> [] \<and> R \<noteq> []"
  shows "rot_loop (length pre) (length pre + length P) (length pre + length P + length Q + length R) (length pre + length P + length Q) m =
    Some (pre @ R @ Q @ P @ post)"
  using assms
proof (induction "length P + length Q + length R" arbitrary: pre P Q R m rule: less_induct)
  case less
  show ?case
  proof (cases "P = []")
    case True
    then show ?thesis using less.prems by (subst rot_loop.simps) simp
  next
    case False
    then obtain p P' r R' where PR: "P = p # P'" "R = r # R'" using less.prems(2) by (cases P; cases R) auto
    let ?m = "(pre @ [r]) @ P' @ (Q @ [p]) @ R' @ post"
    have swap: "do { a \<leftarrow> rd8 m (length pre); b \<leftarrow> rd8 m (length pre + length P + length Q); m \<leftarrow> wr8 m (length pre) b;
        wr8 m (length pre + length P + length Q) a } = Some ?m"
      using swap_step [of m pre p P' Q r R' post] less.prems(1) PR by simp
    have unfold: "rot_loop (length pre) (length pre + length P) (length pre + length P + length Q + length R) (length pre + length P + length Q) m =
      (if R' = [] then rot_loop (length (pre @ [r])) (length (pre @ [r]) + length P') (length (pre @ [r]) + length P' + 0 + length (Q @ [p]))
          (length (pre @ [r]) + length P' + 0) ?m
       else if P' = [] then rot_loop (length (pre @ [r])) (length (pre @ [r]) + length (Q @ [p])) (length (pre @ [r]) + length (Q @ [p]) + 0 + length R')
          (length (pre @ [r]) + length (Q @ [p]) + 0) ?m
       else rot_loop (length (pre @ [r])) (length (pre @ [r]) + length P') (length (pre @ [r]) + length P' + length (Q @ [p]) + length R')
          (length (pre @ [r]) + length P' + length (Q @ [p])) ?m)"
      using swap by (subst rot_loop.simps) (auto simp: PR bind_Some_iff ac_simps)
    show ?thesis
    proof (cases "R' = []")
      case True
      then show ?thesis using unfold less.hyps [of P' "[]" "Q @ [p]" ?m "pre @ [r]"] PR by auto
    next
      case R': False
      show ?thesis
      proof (cases "P' = []")
        case True
        then show ?thesis using unfold R' less.hyps [of "Q @ [p]" "[]" R' ?m "pre @ [r]"] PR by auto
      next
        case False
        then show ?thesis using unfold R' less.hyps [of P' "Q @ [p]" R' ?m "pre @ [r]"] PR by auto
      qed
    qed
  qed
qed

lemma prog_rot_ok:
  assumes "range_len s = range_end s - range_start s" "0 < shift" "shift < range_len s" "3 * range_end s \<le> length (pxbuffer s)"
  shows "prog_rot shift s = Some (s\<lparr>pxbuffer := take (3 * range_start s) (pxbuffer s) @
    rotate (3 * shift) (take (3 * range_len s) (drop (3 * range_start s) (pxbuffer s))) @ drop (3 * range_end s) (pxbuffer s)\<rparr>)"
proof -
  let ?m = "pxbuffer s" let ?seg = "take (3 * range_len s) (drop (3 * range_start s) ?m)"
  let ?pre = "take (3 * range_start s) ?m" and ?P = "take (3 * shift) ?seg" and ?R = "drop (3 * shift) ?seg" and ?post = "drop (3 * range_end s) ?m"
  have e: "range_end s = range_start s + range_len s" using assms(1,3) by simp
  then have "?m = ?pre @ ?seg @ ?post" by (metis append_take_drop_id add_mult_distrib2 drop_drop add.commute)
  then have m: "?m = ?pre @ ?P @ [] @ ?R @ ?post" by (metis append_Nil append_assoc append_take_drop_id)
  have len: "length ?pre = 3 * range_start s" "length ?P = 3 * shift" "length ?R = 3 * range_len s - 3 * shift"
    using assms(2-4) e by (auto simp: min_def)
  then have "?P \<noteq> []" "?R \<noteq> []" using assms(2,3) by fastforce+
  then have "rot_loop (range_start s * 3) ((range_start s + shift) * 3) (range_end s * 3) ((range_start s + shift) * 3) ?m =
      Some (?pre @ ?R @ [] @ ?P @ ?post)"
    using rot_loop_ok [OF m] len assms(3) e by (simp add: algebra_simps)
  moreover have "rotate (3 * shift) ?seg = ?R @ ?P" using len assms(3) by (simp add: rotate_drop_take)
  ultimately show ?thesis using assms(2,3) by (simp add: prog_rot_def)
qed

section \<open>Programs that end\<close>

text \<open>The program is inside its buffer and the range inside the buffer of pixels.\<close>

definition ls_inv :: "ledstrip \<Rightarrow> bool" where
  "ls_inv s \<longleftrightarrow> length (prog_data s) = 237 \<and> prog_size s \<le> 236 \<and> prog_ptr s < 256 \<and> numpixels s < 65536 \<and>
     3 * numpixels s \<le> length (pxbuffer s) \<and> range_end s < 65536 \<and> 3 * range_end s \<le> length (pxbuffer s) \<and>
     range_start s \<le> range_end s \<and> range_len s = range_end s - range_start s"

definition prog_byte :: "ledstrip \<Rightarrow> nat \<Rightarrow> nat" where
  "prog_byte s i = unat (prog_data s ! i)"

text \<open>A color block does not reach beyond position 255, to which the pointer into the program can point.\<close>

definition no_wrap :: "ledstrip \<Rightarrow> bool" where
  "no_wrap s \<longleftrightarrow> (\<forall>i < prog_size s. prog_byte s i = LIGHT_PROG_COLN \<longrightarrow> i + 2 + 3 * prog_byte s (i + 1) < 256)"

definition has_cmd :: "ledstrip \<Rightarrow> nat \<Rightarrow> bool" where
  "has_cmd s c \<longleftrightarrow> (\<exists>i < prog_size s. prog_byte s i = c)"

text \<open>A program that fades does not change the range, which is that of the whole strip.\<close>

definition fades_ok :: "ledstrip \<Rightarrow> bool" where
  "fades_ok s \<longleftrightarrow> (has_cmd s LIGHT_PROG_FADE \<or> has_cmd s LIGHT_PROG_FADE_HSV \<longrightarrow> \<not> has_cmd s LIGHT_PROG_RANGE \<and> 0 < numpixels s)"

definition range_ok :: "ledstrip \<Rightarrow> bool" where
  "range_ok s \<longleftrightarrow> (has_cmd s LIGHT_PROG_FADE \<or> has_cmd s LIGHT_PROG_FADE_HSV \<longrightarrow> 0 < range_len s)"

text \<open>What running a command leaves alone.\<close>

definition same_prog :: "ledstrip \<Rightarrow> ledstrip \<Rightarrow> bool" where
  "same_prog s t \<longleftrightarrow> prog_data t = prog_data s \<and> prog_size t = prog_size s \<and> numpixels t = numpixels s \<and>
     length (pxbuffer t) = length (pxbuffer s) \<and> maxpower t = maxpower s \<and> maxpixels t = maxpixels s"

definition advances :: "ledstrip \<Rightarrow> ledstrip \<Rightarrow> bool" where
  "advances s t \<longleftrightarrow> same_prog s t \<and> ls_inv t \<and> prog_ptr s \<le> prog_ptr t \<and> (range_ok s \<longrightarrow> range_ok t)"

lemma advances_trans: "advances s t \<Longrightarrow> advances t u \<Longrightarrow> advances s u"
  by (auto simp: advances_def same_prog_def)

lemma same_prog_cmd: "same_prog s t \<Longrightarrow> has_cmd t c = has_cmd s c" "same_prog s t \<Longrightarrow> no_wrap t = no_wrap s"
    "same_prog s t \<Longrightarrow> fades_ok t = fades_ok s"
  by (simp_all add: same_prog_def has_cmd_def prog_byte_def no_wrap_def fades_ok_def)

subsection \<open>Reading\<close>

lemma prog_ptr_advances:
  assumes "ls_inv s" "prog_ptr s \<le> p" "p < 256"
  shows "advances s (s\<lparr>prog_ptr := p\<rparr>)"
  using assms by (auto simp: advances_def same_prog_def ls_inv_def range_ok_def has_cmd_def prog_byte_def)

lemma prog_fetch_color_ok:
  assumes "ls_inv s"
  obtains p c where "prog_fetch_color s = Some (s\<lparr>prog_ptr := p\<rparr>, c)" "prog_ptr s \<le> p" "p < 256"
proof (cases "prog_ptr s + 3 > prog_size s")
  case True
  then show ?thesis using that [of "prog_ptr s" "rgb 0 0 0"] assms by (simp add: prog_fetch_color_def ls_inv_def)
next
  case False
  then have "prog_fetch_color s = Some (s\<lparr>prog_ptr := prog_ptr s + 3\<rparr>,
      \<lparr>rgb_r = prog_data s ! prog_ptr s, rgb_g = prog_data s ! (prog_ptr s + 1), rgb_b = prog_data s ! (prog_ptr s + 2)\<rparr>)"
    using assms by (simp add: prog_fetch_color_def ls_inv_def)
  then show ?thesis using that False assms by (simp add: ls_inv_def)
qed

lemma skip_colors_ok:
  assumes "ls_inv s"
  shows "\<exists>p. skip_colors n s = Some (s\<lparr>prog_ptr := p\<rparr>) \<and> prog_ptr s \<le> p \<and> p < 256"
  using assms
proof (induction n arbitrary: s)
  case 0
  then show ?case by (auto simp: ls_inv_def intro!: exI [of _ "prog_ptr s"])
next
  case (Suc n)
  obtain p c where p: "prog_fetch_color s = Some (s\<lparr>prog_ptr := p\<rparr>, c)" "prog_ptr s \<le> p" "p < 256"
    using prog_fetch_color_ok [OF Suc.prems] .
  have "ls_inv (s\<lparr>prog_ptr := p\<rparr>)" using prog_ptr_advances [OF Suc.prems p(2,3)] by (simp add: advances_def)
  from Suc.IH [OF this] obtain q where "skip_colors n (s\<lparr>prog_ptr := p\<rparr>) = Some (s\<lparr>prog_ptr := q\<rparr>)" "p \<le> q" "q < 256" by auto
  then show ?case using p by (intro exI [of _ q]) simp
qed

lemma prog_fetch_ok:
  assumes "ls_inv s" "no_wrap s"
  obtains (eof) "prog_fetch s = Some (s, PROG_EOF)" "prog_size s \<le> prog_ptr s"
  | (cmd) c where "prog_fetch s = Some (s\<lparr>prog_ptr := prog_ptr s + 1\<rparr>, PROG_CMD c)" "prog_ptr s < prog_size s" "has_cmd s c" "c \<noteq> 0"
  | (num) p n where "prog_fetch s = Some (s\<lparr>prog_ptr := p\<rparr>, PROG_NUMBER n)" "prog_ptr s < prog_size s" "prog_ptr s < p" "p < 256" "n < 16384"
  | (colors) p n where "prog_fetch s = Some (s\<lparr>prog_ptr := p\<rparr>, PROG_COLOR_BLOCK n)" "prog_ptr s < prog_size s" "prog_ptr s < p" "p + 3 * n < 256"
proof -
  let ?p = "prog_ptr s"
  have len: "length (prog_data s) = 237" "prog_size s \<le> 236" using assms(1) by (simp_all add: ls_inv_def)
  show ?thesis
  proof (cases "prog_size s \<le> ?p")
    case True
    then show ?thesis using eof by (simp add: prog_fetch_def)
  next
    case False
    let ?c = "prog_byte s ?p" and ?d = "prog_byte s (?p + 1)" and ?s1 = "s\<lparr>prog_ptr := ?p + 1\<rparr>"
    have n1: "next_byte s = Some (?s1, ?c)" using False len by (simp add: next_byte_def prog_byte_def)
    have n2: "next_byte ?s1 = Some (s\<lparr>prog_ptr := ?p + 2\<rparr>, ?d)" using False len by (simp add: next_byte_def prog_byte_def)
    have c: "?c < 256" "?d < 256" by (simp_all add: prog_byte_def unat_byte_lt)
    have wrap: "?c = 0xc0 \<Longrightarrow> ?p + 2 + 3 * ?d < 256" using assms(2) False by (auto simp: no_wrap_def LIGHT_PROG_COLN_def)
    have fetch: "prog_fetch s = (if ?c < 0x80 then Some (?s1, PROG_NUMBER ?c)
        else if ?c < 0xc0 then Some (s\<lparr>prog_ptr := ?p + 2\<rparr>, PROG_NUMBER (?c mod 64 * 256 + ?d))
        else if ?c = 0xc1 then Some (?s1, PROG_COLOR_BLOCK 1) else if ?c = 0xc2 then Some (?s1, PROG_COLOR_BLOCK 2)
        else if ?c = 0xc3 then Some (?s1, PROG_COLOR_BLOCK 3) else if ?c = 0xc0 then Some (s\<lparr>prog_ptr := ?p + 2\<rparr>, PROG_COLOR_BLOCK ?d)
        else Some (?s1, PROG_CMD ?c))"
      using False n1 n2 by (simp add: prog_fetch_def light_codes)
    have "?c mod 64 < 64" by simp
    then have big: "?c mod 64 * 256 + ?d < 16384" using c(2) by linarith
    have p: "?p < prog_size s" "?p < 236" using False len by simp_all
    then have here: "has_cmd s ?c" by (auto simp: has_cmd_def)
    consider "?c < 0x80" | "0x80 \<le> ?c" "?c < 0xc0" | "?c = 0xc0" | "?c = 0xc1" | "?c = 0xc2" | "?c = 0xc3" | "0xc3 < ?c" by linarith
    then show ?thesis
    proof cases
      case 1
      then show ?thesis using num [of "?p + 1" ?c] fetch p by simp
    next
      case 2
      then show ?thesis using num [of "?p + 2" "?c mod 64 * 256 + ?d"] fetch p big by simp
    next
      case 3
      then show ?thesis using colors [of "?p + 2" ?d] fetch p wrap by simp
    next
      case 7
      then show ?thesis using cmd [of ?c] fetch p here by simp
    qed (use colors [of "?p + 1"] fetch p in simp_all)
  qed
qed

lemma prog_fetch_num_ok:
  assumes "ls_inv s" "no_wrap s"
  obtains p n where "prog_fetch_num defl s = Some (s\<lparr>prog_ptr := p\<rparr>, n)" "prog_ptr s \<le> p" "p < 256" "n < 16384 \<or> n = defl"
proof -
  have p: "prog_ptr s < 256" using assms(1) by (simp add: ls_inv_def)
  show ?thesis
    using assms
  proof (cases rule: prog_fetch_ok)
    case (num q n)
    then show ?thesis using that [of q n] by (simp add: prog_fetch_num_def)
  qed (use that [of "prog_ptr s" defl] p in \<open>simp_all add: prog_fetch_num_def\<close>)
qed

lemma prog_fetch_cmd_ok:
  assumes "ls_inv s" "no_wrap s"
  shows "\<exists>p c. prog_fetch_cmd s = Some (s\<lparr>prog_ptr := p\<rparr>, c) \<and> p < 256 \<and> prog_ptr s \<le> p \<and>
    (c \<noteq> 0 \<longrightarrow> prog_ptr s < p \<and> prog_ptr s < prog_size s \<and> has_cmd s c)"
  using assms
proof (induction "prog_size s - prog_ptr s" arbitrary: s rule: less_induct)
  case less
  have again: "\<exists>p c. prog_fetch_cmd (s\<lparr>prog_ptr := q\<rparr>) = Some (s\<lparr>prog_ptr := p\<rparr>, c) \<and> p < 256 \<and> prog_ptr s \<le> p \<and>
      (c \<noteq> 0 \<longrightarrow> prog_ptr s < p \<and> prog_ptr s < prog_size s \<and> has_cmd s c)"
    if q: "prog_ptr s < q" "q < 256" "prog_ptr s < prog_size s" for q
  proof -
    let ?t = "s\<lparr>prog_ptr := q\<rparr>"
    have a: "advances s ?t" using prog_ptr_advances [of s q] less.prems(1) q by simp
    then have t: "ls_inv ?t" "no_wrap ?t" "has_cmd ?t c = has_cmd s c" for c
      using same_prog_cmd [of s ?t] less.prems(2) by (auto simp: advances_def)
    have "prog_size ?t - prog_ptr ?t < prog_size s - prog_ptr s" using q by simp
    from less.hyps [OF this t(1,2)] obtain p c where "prog_fetch_cmd ?t = Some (s\<lparr>prog_ptr := p\<rparr>, c)" "p < 256" "q \<le> p"
      "c \<noteq> 0 \<longrightarrow> has_cmd s c" using t(3) by auto
    then show ?thesis using q by (intro exI [of _ p] exI [of _ c]) auto
  qed
  from less.prems show ?case
  proof (cases rule: prog_fetch_ok)
    case eof
    then show ?thesis using less.prems(1)
      by (subst prog_fetch_cmd.simps) (auto simp: ls_inv_def intro!: exI [of _ "prog_ptr s"])
  next
    case (cmd c)
    then show ?thesis using less.prems(1)
      by (subst prog_fetch_cmd.simps) (intro exI [of _ "prog_ptr s + 1"] exI [of _ c], simp add: ls_inv_def)
  next
    case (num p n)
    then show ?thesis using again [of p] by (subst prog_fetch_cmd.simps) simp
  next
    case (colors p n)
    have "ls_inv (s\<lparr>prog_ptr := p\<rparr>)" using prog_ptr_advances [of s p] less.prems(1) colors by (simp add: advances_def)
    from skip_colors_ok [OF this, of n] obtain q where "skip_colors n (s\<lparr>prog_ptr := p\<rparr>) = Some (s\<lparr>prog_ptr := q\<rparr>)" "p \<le> q" "q < 256" by auto
    then show ?thesis using again [of q] colors by (subst prog_fetch_cmd.simps) simp
  qed
qed

subsection \<open>Writing pixels\<close>

text \<open>A write changes the pixels and the position in the range only.\<close>

definition paints :: "ledstrip \<Rightarrow> ledstrip \<Rightarrow> bool" where
  "paints s t \<longleftrightarrow> (\<exists>p r px. t = s\<lparr>prog_ptr := p, range_ptr := r, pxbuffer := px\<rparr> \<and> p < 256 \<and> length px = length (pxbuffer s))"

lemma paints_inv: "paints s t \<Longrightarrow> ls_inv s \<Longrightarrow> ls_inv t"
  by (auto simp: paints_def ls_inv_def)

lemma paints_advances: "paints s t \<Longrightarrow> ls_inv s \<Longrightarrow> prog_ptr s \<le> prog_ptr t \<Longrightarrow> advances s t"
  using paints_inv [of s t] by (auto simp: paints_def advances_def same_prog_def range_ok_def has_cmd_def prog_byte_def)

lemma paintsI:
  "t = s\<lparr>prog_ptr := p, range_ptr := r, pxbuffer := px\<rparr> \<Longrightarrow> p < 256 \<Longrightarrow> length px = length (pxbuffer s) \<Longrightarrow> paints s t"
  unfolding paints_def by blast

lemma paints_trans:
  assumes "paints s t" "paints t u"
  shows "paints s u"
proof -
  obtain p r px where t: "t = s\<lparr>prog_ptr := p, range_ptr := r, pxbuffer := px\<rparr>" "length px = length (pxbuffer s)"
    using assms(1) unfolding paints_def by blast
  obtain p' r' px' where u: "u = t\<lparr>prog_ptr := p', range_ptr := r', pxbuffer := px'\<rparr>" "p' < 256" "length px' = length (pxbuffer t)"
    using assms(2) unfolding paints_def by blast
  show ?thesis by (rule paintsI [where p = p' and r = r' and px = px']) (use t u in simp_all)
qed

lemma paints_refl: "ls_inv s \<Longrightarrow> paints s s"
  by (rule paintsI [where p = "prog_ptr s" and r = "range_ptr s" and px = "pxbuffer s"]) (simp_all add: ls_inv_def)

lemma paints_ptr: "p < 256 \<Longrightarrow> paints s (s\<lparr>prog_ptr := p\<rparr>)"
  by (rule paintsI [where p = p and r = "range_ptr s" and px = "pxbuffer s"]) simp_all

lemma set_next_ok:
  assumes "ls_inv s"
  obtains (full) "set_next c s = Some (s, False)" "range_end s \<le> range_ptr s"
  | (next_px) t where "set_next c s = Some (t, True)" "paints s t" "range_ptr s < range_end s" "range_ptr t = range_ptr s + 1"
      "prog_ptr t = prog_ptr s" "range_end t = range_end s"
proof (cases "range_ptr s \<ge> range_end s")
  case True
  then show ?thesis using full by (simp add: set_next_def)
next
  case False
  have b: "range_ptr s * 3 + 3 \<le> length (pxbuffer s)" "range_end s < 65536" "prog_ptr s < 256" using False assms by (simp_all add: ls_inv_def)
  then obtain px where "set_next c s = Some (s\<lparr>range_ptr := range_ptr s + 1, pxbuffer := px\<rparr>, True)" "length px = length (pxbuffer s)"
    using False by (simp add: set_next_def Let_def)
  moreover from this have "paints s (s\<lparr>range_ptr := range_ptr s + 1, pxbuffer := px\<rparr>)"
    using b(3) by (intro paintsI [where p = "prog_ptr s" and r = "range_ptr s + 1" and px = px]) simp_all
  ultimately show ?thesis using next_px False by simp
qed

lemma set_colors_ok:
  assumes "ls_inv s"
  shows "\<exists>t ok'. set_colors n ok s = Some (t, ok') \<and> paints s t \<and> prog_ptr s \<le> prog_ptr t \<and> range_ptr s \<le> range_ptr t \<and>
    (0 < n \<longrightarrow> ok' \<longrightarrow> range_ptr s < range_ptr t) \<and> (0 < n \<longrightarrow> ok' \<longrightarrow> range_ptr s < range_end s)"
  using assms
proof (induction n arbitrary: s ok)
  case 0
  then show ?case using paints_refl by simp
next
  case (Suc n)
  obtain p c where p: "prog_fetch_color s = Some (s\<lparr>prog_ptr := p\<rparr>, c)" "prog_ptr s \<le> p" "p < 256"
    using prog_fetch_color_ok [OF Suc.prems] .
  let ?s = "s\<lparr>prog_ptr := p\<rparr>"
  have s: "ls_inv ?s" "paints s ?s" using paints_ptr [OF p(3)] paints_inv Suc.prems by blast+
  from s(1) show ?case
  proof (cases rule: set_next_ok [where c = c])
    case full
    obtain t ok' where "set_colors n False ?s = Some (t, ok')" "paints ?s t" "p \<le> prog_ptr t" "range_ptr s \<le> range_ptr t"
      "0 < n \<longrightarrow> ok' \<longrightarrow> range_ptr s < range_ptr t" "0 < n \<longrightarrow> ok' \<longrightarrow> range_ptr s < range_end s" "n = 0 \<longrightarrow> \<not> ok'"
      using Suc.IH [OF s(1), of False] by (cases n) auto
    then show ?thesis using p full paints_trans [OF s(2)] by auto
  next
    case (next_px u)
    obtain t ok' where "set_colors n True u = Some (t, ok')" "paints u t" "p \<le> prog_ptr t" "range_ptr s < range_ptr t"
      using Suc.IH [of u True] paints_inv [OF next_px(2) s(1)] next_px(4,5) by auto
    then show ?thesis using p next_px paints_trans [OF s(2)] paints_trans [OF next_px(2)] by auto
  qed
qed

lemma set_loop_ok:
  assumes "ls_inv s" "0 < len" "start < 256"
  shows "\<exists>t. set_loop start len s = Some t \<and> paints s t \<and> start \<le> prog_ptr t"
  using assms(1)
proof (induction "range_end s - range_ptr s" arbitrary: s rule: less_induct)
  case less
  let ?s = "s\<lparr>prog_ptr := start\<rparr>"
  have s: "ls_inv ?s" "paints s ?s" using paints_ptr [OF assms(3)] paints_inv less.prems by blast+
  obtain t ok where t: "set_colors len False ?s = Some (t, ok)" "paints ?s t" "start \<le> prog_ptr t" "ok \<longrightarrow> range_ptr s < range_ptr t"
    "ok \<longrightarrow> range_ptr s < range_end s"
    using set_colors_ok [OF s(1), of len False] assms(2) by auto
  have st: "paints s t" "ls_inv t" "range_end t = range_end s"
    using paints_trans [OF s(2) t(2)] paints_inv [OF t(2) s(1)] t(2) by (auto simp: paints_def)
  show ?case
  proof (cases ok)
    case True
    then have "range_end t - range_ptr t < range_end s - range_ptr s" using st(3) t(4,5) by linarith
    then obtain u where "set_loop start len t = Some u" "paints t u" "start \<le> prog_ptr u"
      using less.hyps [of t] st(2) by blast
    then show ?thesis using True t(1) paints_trans [OF st(1)] by (subst set_loop.simps) auto
  next
    case False
    then show ?thesis using t(1,3) st(1) by (subst set_loop.simps) simp
  qed
qed

lemma reset_range_paints: "ls_inv s \<Longrightarrow> paints s (reset_range s)"
  by (rule paintsI [where p = "prog_ptr s" and r = "range_start s" and px = "pxbuffer s"]) (simp_all add: reset_range_def ls_inv_def)

lemma prog_set_ok:
  assumes "ls_inv s" "0 < len"
  shows "\<exists>t. prog_set len s = Some t \<and> advances s t"
proof -
  have r: "paints s (reset_range s)" "ls_inv (reset_range s)" using reset_range_paints paints_inv assms(1) by blast+
  obtain t where t: "set_loop (prog_ptr s) len (reset_range s) = Some t" "paints (reset_range s) t" "prog_ptr s \<le> prog_ptr t"
    using set_loop_ok [OF r(2) assms(2), of "prog_ptr s"] assms(1) by (auto simp: ls_inv_def)
  then show ?thesis using paints_advances [OF paints_trans [OF r(1) t(2)] assms(1)] by (simp add: prog_set_def)
qed

lemma fade_colors_ok:
  assumes "ls_inv s"
  shows "\<exists>p c0 c1. fade_colors n col0 col1 s = Some (s\<lparr>prog_ptr := p\<rparr>, c0, c1) \<and> prog_ptr s \<le> p \<and> p < 256"
  using assms
proof (induction n arbitrary: s col0 col1)
  case 0
  then show ?case by (auto simp: ls_inv_def intro!: exI [of _ "prog_ptr s"])
next
  case (Suc n)
  obtain p c where p: "prog_fetch_color s = Some (s\<lparr>prog_ptr := p\<rparr>, c)" "prog_ptr s \<le> p" "p < 256"
    using prog_fetch_color_ok [OF Suc.prems] .
  have "ls_inv (s\<lparr>prog_ptr := p\<rparr>)" using paints_inv [OF paints_ptr [OF p(3)] Suc.prems] .
  from Suc.IH [OF this, of col1 c] obtain q c0 c1
    where "fade_colors n col1 c (s\<lparr>prog_ptr := p\<rparr>) = Some (s\<lparr>prog_ptr := q\<rparr>, c0, c1)" "p \<le> q" "q < 256" by auto
  then show ?case using p by (intro exI [of _ q]) simp
qed

lemma fade_loop_ok:
  assumes "ls_inv s"
  shows "\<exists>t. fade_loop h colstep colidx colpos col0 col1 s = Some t \<and> paints s t"
  using assms
proof (induction "range_end s - range_ptr s" arbitrary: s colidx colpos col0 col1 rule: less_induct)
  case less
  let ?i = "colpos div 65536"
  obtain p c0 c1 where p: "fade_colors (?i - colidx) col0 col1 s = Some (s\<lparr>prog_ptr := p\<rparr>, c0, c1)" "p < 256"
    using fade_colors_ok [OF less.prems] by blast
  let ?s = "s\<lparr>prog_ptr := p\<rparr>" let ?c = "fade_mix h (colpos mod 65536) c0 c1"
  have s: "paints s ?s" "ls_inv ?s" using paints_ptr [OF p(2)] paints_inv less.prems by blast+
  from s(2) show ?case
  proof (cases rule: set_next_ok [where c = ?c])
    case full
    then show ?thesis using p(1) s(1) by (subst fade_loop.simps) (simp add: Let_def)
  next
    case (next_px t)
    have "range_end t - range_ptr t < range_end s - range_ptr s" using next_px(3,4,6) by simp
    then obtain u where "fade_loop h colstep (max colidx ?i) (u32 (colpos + colstep)) c0 c1 t = Some u" "paints t u"
      using less.hyps paints_inv [OF next_px(2) s(2)] by blast
    then show ?thesis using p(1) next_px(1) paints_trans [OF paints_trans [OF s(1) next_px(2)]] by (subst fade_loop.simps) (simp add: Let_def)
  qed
qed

text \<open>A fade of two or more colors returns, with the pointer moved on modulo 256.\<close>

lemma prog_fade_returns:
  assumes "ls_inv s" "2 \<le> len" "0 < range_len s"
  shows "\<exists>t. prog_fade len h s = Some t \<and> paints s t \<and> prog_ptr t = u8 (prog_ptr s + 3 * len)"
proof -
  obtain p c0 where p: "prog_fetch_color s = Some (s\<lparr>prog_ptr := p\<rparr>, c0)" "p < 256" using prog_fetch_color_ok [OF assms(1)] by blast
  have s1: "paints s (s\<lparr>prog_ptr := p\<rparr>)" "ls_inv (s\<lparr>prog_ptr := p\<rparr>)" using paints_ptr [OF p(2)] paints_inv assms(1) by blast+
  obtain q c1 where "prog_fetch_color (s\<lparr>prog_ptr := p\<rparr>) = Some (s\<lparr>prog_ptr := p, prog_ptr := q\<rparr>, c1)" "q < 256"
    using prog_fetch_color_ok [OF s1(2)] by blast
  then have q: "prog_fetch_color (s\<lparr>prog_ptr := p\<rparr>) = Some (s\<lparr>prog_ptr := q\<rparr>, c1)" "q < 256" by simp_all
  let ?s = "s\<lparr>prog_ptr := q\<rparr>"
  have s2: "paints s ?s" "ls_inv ?s" using paints_ptr [OF q(2)] paints_inv assms(1) by blast+
  have s3: "paints s (reset_range ?s)" "ls_inv (reset_range ?s)"
    using reset_range_paints [OF s2(2)] paints_trans [OF s2(1)] paints_inv [OF _ assms(1)] by blast+
  let ?step = "u32 ((len - 1) * 65536) div range_len s"
  obtain t where t: "fade_loop h ?step 0 0 c0 c1 (reset_range ?s) = Some t" "paints (reset_range ?s) t" using fade_loop_ok [OF s3(2)] by blast
  let ?t = "t\<lparr>prog_ptr := u8 (prog_ptr s + 3 * len)\<rparr>"
  have "u8 (prog_ptr s + 3 * len) < 256" by (simp add: u8_def)
  from paints_trans [OF paints_trans [OF s3(1) t(2)] paints_ptr [OF this]] have "paints s ?t" .
  moreover have "prog_fade len h s = Some ?t" using p(1) q(1) t(1) assms(2,3) by (simp add: prog_fade_def Let_def)
  ultimately show ?thesis by auto
qed

lemma prog_fade_ok:
  assumes "ls_inv s" "0 < len" "0 < range_len s" "prog_ptr s + 3 * len < 256"
  shows "\<exists>t. prog_fade len h s = Some t \<and> advances s t"
proof (cases "len < 2")
  case True
  then show ?thesis using prog_set_ok [OF assms(1,2)] by (simp add: prog_fade_def)
next
  case False
  then obtain t where "prog_fade len h s = Some t" "paints s t" "prog_ptr t = prog_ptr s + 3 * len"
    using prog_fade_returns [OF assms(1) _ assms(3), of len h] assms(4) by auto
  then show ?thesis using paints_advances [OF _ assms(1)] by auto
qed

lemma sub_while_mod: "0 < len \<Longrightarrow> sub_while k len = k mod len"
proof (induction k len rule: sub_while.induct)
  case (1 k len)
  then show ?case by (subst sub_while.simps) (auto simp: le_mod_geq)
qed

lemma prog_rot_advances:
  assumes "ls_inv s"
  shows "\<exists>t. prog_rot k s = Some t \<and> advances s t"
proof (cases "k = 0 \<or> k \<ge> range_len s")
  case True
  then show ?thesis using paints_advances [OF paints_refl] assms by (simp add: prog_rot_def)
next
  case False
  let ?px = "take (3 * range_start s) (pxbuffer s) @ rotate (3 * k) (take (3 * range_len s) (drop (3 * range_start s) (pxbuffer s))) @
    drop (3 * range_end s) (pxbuffer s)"
  have b: "range_len s = range_end s - range_start s" "3 * range_end s \<le> length (pxbuffer s)" "range_start s \<le> range_end s"
    using assms by (simp_all add: ls_inv_def)
  then have "length (take (3 * range_len s) (drop (3 * range_start s) (pxbuffer s))) = 3 * range_len s" by simp
  then have "length ?px = length (pxbuffer s)" using b by simp
  then have "paints s (s\<lparr>pxbuffer := ?px\<rparr>)"
    using assms by (intro paintsI [where p = "prog_ptr s" and r = "range_ptr s" and px = ?px]) (simp_all add: ls_inv_def)
  then show ?thesis using prog_rot_ok [of s k] False b paints_advances [OF _ assms] by simp
qed

subsection \<open>Commands\<close>

lemma ex_flag [simp]: "Ex Not" "\<exists>b. b"
  by auto

lemma map_option_bind: "map_option f x = do { y \<leftarrow> x; Some (f y) }"
  by (cases x) simp_all

lemma fetch_mode_ok:
  assumes "ls_inv s" "no_wrap s"
  obtains p m where "fetch_mode s = Some (s\<lparr>prog_ptr := p\<rparr>, m)" "prog_ptr s \<le> p" "p < 256" "m \<le> LIGHT_MODE_LAST"
proof -
  obtain p n where p: "prog_fetch_num 0 s = Some (s\<lparr>prog_ptr := p\<rparr>, n)" "prog_ptr s \<le> p" "p < 256"
    using prog_fetch_num_ok [OF assms] by blast
  then show ?thesis using that [of p "if n > LIGHT_MODE_LAST then 0 else n"] by (simp add: fetch_mode_def)
qed

lemma color_command:
  "prog_command cmd s = do {
     (s, r) \<leftarrow> prog_fetch s;
     case r of
       PROG_COLOR_BLOCK len \<Rightarrow>
         if len = 0 then Some (s, True)
         else map_option (\<lambda>t. (t, False)) (if cmd = LIGHT_PROG_SET_ALL then prog_set len s else prog_fade len (cmd = LIGHT_PROG_FADE_HSV) s)
     | _ \<Rightarrow> Some (s, True) }"
  if "cmd = LIGHT_PROG_FADE \<or> cmd = LIGHT_PROG_FADE_HSV \<or> cmd = LIGHT_PROG_SET_ALL"
proof -
  have "cmd \<noteq> LIGHT_PROG_COL1_SET" using that by (auto simp: light_codes)
  then show ?thesis unfolding prog_command_def map_option_bind using that by simp
qed

lemma rotate_command:
  "prog_command cmd s = do {
     (s, k) \<leftarrow> prog_fetch_num 1 s;
     if range_len s = 0 then Some (s, True)
     else map_option (\<lambda>t. (t, False)) (prog_rot
       (let k = sub_while k (range_len s) in if cmd = LIGHT_PROG_ROTATE_FWD \<and> k \<noteq> 0 then range_len s - k else k) s) }"
  if "cmd = LIGHT_PROG_ROTATE_BACK \<or> cmd = LIGHT_PROG_ROTATE_FWD"
proof -
  have "cmd \<noteq> LIGHT_PROG_COL1_SET" "\<not> (cmd = LIGHT_PROG_FADE \<or> cmd = LIGHT_PROG_FADE_HSV \<or> cmd = LIGHT_PROG_SET_ALL)"
    using that by (auto simp: light_codes)
  then show ?thesis unfolding prog_command_def map_option_bind Let_def using that by simp
qed

lemma color_command_ok:
  assumes "ls_inv s" "no_wrap s" "range_ok s" "has_cmd s cmd"
    "cmd = LIGHT_PROG_FADE \<or> cmd = LIGHT_PROG_FADE_HSV \<or> cmd = LIGHT_PROG_SET_ALL"
  shows "\<exists>t skip. prog_command cmd s = Some (t, skip) \<and> advances s t"
proof -
  have fades: "0 < range_len s" if "cmd \<noteq> LIGHT_PROG_SET_ALL" using assms(3,4,5) that by (auto simp: range_ok_def)
  show ?thesis
    using assms(1,2)
  proof (cases rule: prog_fetch_ok)
    case eof
    then have "prog_command cmd s = Some (s, True)" by (simp add: color_command [OF assms(5)])
    then show ?thesis using assms(1) paints_advances [OF paints_refl] by blast
  next
    case (cmd c)
    then show ?thesis using assms(1) prog_ptr_advances [of s "prog_ptr s + 1"] by (simp add: color_command [OF assms(5)] ls_inv_def)
  next
    case (num p n)
    then show ?thesis using prog_ptr_advances [OF assms(1), of p] by (simp add: color_command [OF assms(5)])
  next
    case (colors p n)
    let ?s = "s\<lparr>prog_ptr := p\<rparr>"
    have s: "advances s ?s" "ls_inv ?s" using prog_ptr_advances [OF assms(1), of p] colors by (simp_all add: advances_def)
    have run: "prog_command cmd s = (if n = 0 then Some (?s, True) else
        map_option (\<lambda>t. (t, False)) (if cmd = LIGHT_PROG_SET_ALL then prog_set n ?s else prog_fade n (cmd = LIGHT_PROG_FADE_HSV) ?s))"
      using colors(1) by (simp add: color_command [OF assms(5)])
    show ?thesis
    proof (cases "n = 0")
      case True
      then show ?thesis using run s(1) by simp
    next
      case False
      have "\<exists>t. (if cmd = LIGHT_PROG_SET_ALL then prog_set n ?s else prog_fade n (cmd = LIGHT_PROG_FADE_HSV) ?s) = Some t \<and> advances ?s t"
        using prog_set_ok [OF s(2), of n] prog_fade_ok [OF s(2), of n "cmd = LIGHT_PROG_FADE_HSV"] False fades colors(4) by simp
      then show ?thesis using run False advances_trans [OF s(1)] by auto
    qed
  qed
qed

lemma range_command_ok:
  assumes "ls_inv s" "no_wrap s" "fades_ok s" "has_cmd s LIGHT_PROG_RANGE"
  shows "\<exists>t. prog_command LIGHT_PROG_RANGE s = Some (t, False) \<and> advances s t"
proof -
  obtain p n where p: "prog_fetch_num 0 s = Some (s\<lparr>prog_ptr := p\<rparr>, n)" "prog_ptr s \<le> p" "p < 256" "n < 16384 \<or> n = 0"
    using prog_fetch_num_ok [OF assms(1,2)] by blast
  let ?s = "s\<lparr>prog_ptr := p\<rparr>"
  have "advances s ?s" using prog_ptr_advances assms(1) p by blast
  then have s: "ls_inv ?s" "no_wrap ?s" using same_prog_cmd assms(2) by (auto simp: advances_def)
  obtain q k where "prog_fetch_num (numpixels s) ?s = Some (?s\<lparr>prog_ptr := q\<rparr>, k)" "prog_ptr ?s \<le> q" "q < 256"
    using prog_fetch_num_ok [OF s, of "numpixels s"] .
  then have q: "prog_fetch_num (numpixels s) ?s = Some (s\<lparr>prog_ptr := q\<rparr>, k)" "p \<le> q" "q < 256" by simp_all
  let ?a = "min n (numpixels s)" and ?b = "min (min n (numpixels s) + k) (numpixels s)"
  let ?t = "s\<lparr>prog_ptr := q, range_start := ?a, range_end := ?b, range_len := ?b - ?a\<rparr>"
  have "\<not> has_cmd s LIGHT_PROG_FADE" "\<not> has_cmd s LIGHT_PROG_FADE_HSV" using assms(3,4) by (auto simp: fades_ok_def)
  then have "range_ok ?t" by (auto simp: range_ok_def has_cmd_def prog_byte_def)
  moreover have "3 * ?b \<le> length (pxbuffer s)"
    by (rule order_trans [of _ "3 * numpixels s"]) (use assms(1) in \<open>simp_all add: ls_inv_def\<close>)
  then have "ls_inv ?t" using assms(1) q by (simp add: ls_inv_def min_less_iff_disj)
  ultimately have "advances s ?t" using p(2) q(2) by (simp add: advances_def same_prog_def)
  moreover have "prog_command LIGHT_PROG_RANGE s = Some (?t, False)" using p(1) q(1) by (simp add: prog_command_def light_codes Let_def)
  ultimately show ?thesis by blast
qed

lemma rotate_command_ok:
  assumes "ls_inv s" "no_wrap s" "cmd = LIGHT_PROG_ROTATE_BACK \<or> cmd = LIGHT_PROG_ROTATE_FWD"
  shows "\<exists>t skip. prog_command cmd s = Some (t, skip) \<and> advances s t"
proof -
  obtain p n where p: "prog_fetch_num 1 s = Some (s\<lparr>prog_ptr := p\<rparr>, n)" "prog_ptr s \<le> p" "p < 256"
    using prog_fetch_num_ok [OF assms(1,2)] by blast
  let ?s = "s\<lparr>prog_ptr := p\<rparr>"
  have s: "advances s ?s" "ls_inv ?s" using prog_ptr_advances [OF assms(1) p(2,3)] by (simp_all add: advances_def)
  let ?k = "let k = sub_while n (range_len s) in if cmd = LIGHT_PROG_ROTATE_FWD \<and> k \<noteq> 0 then range_len s - k else k"
  have run: "prog_command cmd s = (if range_len s = 0 then Some (?s, True) else map_option (\<lambda>t. (t, False)) (prog_rot ?k ?s))"
    using p(1) by (simp add: rotate_command [OF assms(3)] Let_def)
  obtain t where "prog_rot ?k ?s = Some t" "advances ?s t" using prog_rot_advances [OF s(2)] by blast
  then show ?thesis using run s(1) advances_trans [OF s(1)] by auto
qed

lemma advances_modes: "advances s (t\<lparr>prog_tmpmode := m\<rparr>) = advances s t" "advances s (t\<lparr>prog_mode := m\<rparr>) = advances s t"
  by (simp_all add: advances_def same_prog_def ls_inv_def range_ok_def has_cmd_def prog_byte_def)

lemma pixel_command_ok:
  assumes "ls_inv s" "no_wrap s"
  shows "\<exists>t. prog_command LIGHT_PROG_COL1_SET s = Some (t, False) \<and> advances s t"
proof -
  obtain p n where p: "prog_fetch_num 0 s = Some (s\<lparr>prog_ptr := p\<rparr>, n)" "prog_ptr s \<le> p" "p < 256"
    using prog_fetch_num_ok [OF assms] by blast
  let ?s = "s\<lparr>prog_ptr := p, range_ptr := u16 (range_start s + n)\<rparr>"
  have s: "paints s ?s" "ls_inv ?s"
    using paintsI [where p = p and r = "u16 (range_start s + n)" and px = "pxbuffer s" and s = s and t = ?s] p(3) paints_inv assms(1)
    by auto
  obtain q c where q: "prog_fetch_color ?s = Some (?s\<lparr>prog_ptr := q\<rparr>, c)" "prog_ptr ?s \<le> q" "q < 256"
    using prog_fetch_color_ok [OF s(2)] .
  let ?t = "?s\<lparr>prog_ptr := q\<rparr>"
  have t: "paints s ?t" "ls_inv ?t" using paints_trans [OF s(1) paints_ptr [OF q(3)]] paints_inv assms(1) by blast+
  have "\<exists>u b. set_next c ?t = Some (u, b) \<and> paints s u \<and> prog_ptr u = q"
    using t(2)
  proof (cases rule: set_next_ok [where c = c])
    case full
    then show ?thesis using t(1) by auto
  next
    case (next_px u)
    then show ?thesis using paints_trans [OF t(1)] by auto
  qed
  then obtain u b where u: "set_next c ?t = Some (u, b)" "paints s u" "prog_ptr u = q" by blast
  have "advances s u" using paints_advances [OF u(2) assms(1)] u(3) p(2) q(2) by simp
  moreover have "prog_command LIGHT_PROG_COL1_SET s = Some (u, False)" using p(1) q(1) u(1) by (simp add: prog_command_def)
  ultimately show ?thesis by blast
qed

lemma prog_command_ok:
  assumes "ls_inv s" "no_wrap s" "fades_ok s" "range_ok s" "has_cmd s cmd"
  shows "\<exists>t skip. prog_command cmd s = Some (t, skip) \<and> advances s t"
proof -
  obtain p m where p: "fetch_mode s = Some (s\<lparr>prog_ptr := p\<rparr>, m)" "prog_ptr s \<le> p" "p < 256" using fetch_mode_ok [OF assms(1,2)] by blast
  consider "cmd = LIGHT_PROG_FADE \<or> cmd = LIGHT_PROG_FADE_HSV \<or> cmd = LIGHT_PROG_SET_ALL"
    | "cmd = LIGHT_PROG_ROTATE_BACK \<or> cmd = LIGHT_PROG_ROTATE_FWD" | "cmd = LIGHT_PROG_RANGE" | "cmd = LIGHT_PROG_COL1_SET"
    | "cmd = LIGHT_PROG_MODE" | "cmd = LIGHT_PROG_MODE1" | (other) "prog_command cmd s = Some (s, False)"
    unfolding prog_command_def by argo
  then show ?thesis
  proof cases
    case 1
    then show ?thesis using color_command_ok assms by blast
  next
    case 2
    then show ?thesis using rotate_command_ok assms by blast
  next
    case 3
    then show ?thesis using range_command_ok assms by blast
  next
    case 4
    then show ?thesis using pixel_command_ok assms by blast
  next
    case other
    then show ?thesis using paints_advances [OF paints_refl] assms(1) by blast
  qed (use p prog_ptr_advances [OF assms(1)] in \<open>simp_all add: prog_command_def light_codes advances_modes\<close>)
qed

lemma prog_loop_ok:
  assumes "ls_inv s" "no_wrap s" "fades_ok s" "range_ok s"
  shows "\<exists>t. prog_loop s = Some t \<and> advances s t"
  using assms
proof (induction "256 - prog_ptr s" arbitrary: s rule: less_induct)
  case less
  obtain p c where p: "prog_fetch_cmd s = Some (s\<lparr>prog_ptr := p\<rparr>, c)" "p < 256" "prog_ptr s \<le> p"
    "c \<noteq> 0 \<Longrightarrow> prog_ptr s < p" "c \<noteq> 0 \<Longrightarrow> has_cmd s c" using prog_fetch_cmd_ok [OF less.prems(1,2)] by blast
  let ?s = "s\<lparr>prog_ptr := p\<rparr>"
  have a: "advances s ?s" using prog_ptr_advances less.prems(1) p by blast
  then have s: "ls_inv ?s" "no_wrap ?s" "fades_ok ?s" "range_ok ?s" using same_prog_cmd less.prems by (auto simp: advances_def)
  show ?case
  proof (cases "c = 0 \<or> c = LIGHT_PROG_SHOW")
    case True
    obtain q n where q: "prog_fetch_num 50 ?s = Some (?s\<lparr>prog_ptr := q\<rparr>, n)" "prog_ptr ?s \<le> q" "q < 256"
      using prog_fetch_num_ok [OF s(1,2)] by blast
    have "advances s (?s\<lparr>prog_ptr := q\<rparr>)" using advances_trans [OF a] prog_ptr_advances [OF s(1) q(2,3)] by blast
    then have "advances s (?s\<lparr>prog_ptr := q, prog_next_step := x, dirty := True\<rparr>)" for x
      by (simp add: advances_def same_prog_def ls_inv_def range_ok_def has_cmd_def prog_byte_def)
    then show ?thesis using True a p(1) q(1) by (subst prog_loop.simps) auto
  next
    case False
    then have "has_cmd ?s c" using p(5) by (simp add: has_cmd_def prog_byte_def)
    from prog_command_ok [OF s this] obtain t skip where t: "prog_command c ?s = Some (t, skip)" "advances ?s t" by blast
    let ?t = "if skip \<or> c = LIGHT_PROG_MODE1 then t else t\<lparr>prog_tmpmode := prog_mode t\<rparr>"
    have at: "advances ?s ?t" using t(2) by (simp add: advances_modes)
    then have "prog_ptr s < prog_ptr ?t" "ls_inv ?t" "no_wrap ?t" "fades_ok ?t" "range_ok ?t"
      using same_prog_cmd [of ?s ?t] s p(4) False by (auto simp: advances_def)
    moreover from this have "256 - prog_ptr ?t < 256 - prog_ptr s" using p(2,4) False by linarith
    ultimately obtain u where "prog_loop ?t = Some u" "advances ?t u" using less.hyps by blast
    then show ?thesis using p(1) t(1) False advances_trans [OF a] advances_trans [OF at]
      by (subst prog_loop.simps) (auto split: if_splits)
  qed
qed

section \<open>The service in operation\<close>

text \<open>A program that \<open>no_wrap\<close> and \<open>fades_ok\<close> accept on a strip of \<open>n\<close> pixels.\<close>

definition light_program_ok :: "nat \<Rightarrow> mem \<Rightarrow> bool" where
  "light_program_ok n d \<longleftrightarrow> length d \<le> 236 \<and>
     (\<forall>i \<in> set [0..<length d]. unat (d ! i) = LIGHT_PROG_COLN \<longrightarrow> i + 1 < length d \<and> i + 2 + 3 * unat (d ! (i + 1)) < 256) \<and>
     (LIGHT_PROG_FADE \<in> unat ` set d \<or> LIGHT_PROG_FADE_HSV \<in> unat ` set d \<longrightarrow> LIGHT_PROG_RANGE \<notin> unat ` set d \<and> 0 < n)"

definition strip_ok :: "ledstrip \<Rightarrow> bool" where
  "strip_ok s \<longleftrightarrow> ls_inv s \<and> no_wrap s \<and> fades_ok s \<and> range_ok s \<and> maxpixels s \<noteq> 0 \<and> 256 \<le> current_limit s"

datatype ls_event = Ls_process "32 word" | Ls_tx_done | Ls_run "32 word" jd_frame

fun ls_event_step :: "ls_event \<Rightarrow> ledstrip \<Rightarrow> ledstrip option" where
  "ls_event_step (Ls_process now) s = map_option fst (ledstrip_process 0 now s)"
| "ls_event_step Ls_tx_done s = Some (px_tx_done s)"
| "ls_event_step (Ls_run now pkt) s = handle_run_cmd now pkt s"

fun ls_run :: "ls_event list \<Rightarrow> ledstrip \<Rightarrow> ledstrip option" where
  "ls_run [] s = Some s"
| "ls_run (e # es) s = do { s \<leftarrow> ls_event_step e s; ls_run es s }"

fun ls_event_ok :: "nat \<Rightarrow> ls_event \<Rightarrow> bool" where
  "ls_event_ok n (Ls_run _ pkt) \<longleftrightarrow> 4 + pkt_service_size pkt \<le> length (frm_data pkt) \<and>
     light_program_ok n (take (pkt_service_size pkt) (drop 4 (frm_data pkt)))"
| "ls_event_ok n _ \<longleftrightarrow> True"

lemma prog_process_ok:
  assumes "ls_inv s" "no_wrap s" "fades_ok s" "range_ok s"
  shows "\<exists>t. prog_process now s = Some t \<and> same_prog s t \<and> ls_inv t \<and> range_ok t"
proof -
  have runs: "\<exists>t. prog_loop u = Some t \<and> same_prog s t \<and> ls_inv t \<and> range_ok t" if "same_prog s u" "ls_inv u" "range_ok u" for u
    using prog_loop_ok [of u] same_prog_cmd [OF that(1)] assms that by (auto simp: advances_def same_prog_def)
  have reset: "same_prog s (reset_prog now u) \<and> ls_inv (reset_prog now u) \<and> range_ok (reset_prog now u)"
    if "u = s \<or> u = s\<lparr>num_repeats := n\<rparr>" for u n
    using assms that by (auto simp: reset_prog_def same_prog_def ls_inv_def fades_ok_def range_ok_def has_cmd_def prog_byte_def)
  have "same_prog s s" by (simp add: same_prog_def)
  then show ?thesis unfolding prog_process_def using assms runs reset by (auto split: if_splits)
qed

lemma sum_scale_le: "sum_list (map (\<lambda>v. SCALE0 (unat v) i) d) \<le> sum_list (map unat d)" for d :: mem
proof (rule sum_list_mono)
  fix v :: byte
  have "unat v * (1 + i mod 256) div 256 \<le> unat v * 256 div 256" by (intro div_le_mono mult_le_mono2) simp
  then show "SCALE0 (unat v) i \<le> unat v" using unat_byte_lt [of v] by (simp add: SCALE0_def)
qed

lemma limit_intensity_ok:
  assumes "3 * numpixels s \<le> length (pxbuffer s)" "256 \<le> current_limit s"
  shows "\<exists>i. limit_intensity s = Some (s\<lparr>intensity := i\<rparr>)"
proof -
  let ?d = "take (numpixels s * 3) (pxbuffer s)" let ?full = "46 * int (sum_list (map unat ?d))"
  have rd: "rd_mem (pxbuffer s) 0 (numpixels s * 3) = Some ?d" using assms(1) by simp
  have "?full div 256 \<noteq> 0" if "px_current ?d (intensity s) > current_limit s"
  proof -
    have "px_current ?d (intensity s) \<le> ?full" using sum_scale_le [of "intensity s" ?d] by (simp add: px_current_def)
    then have "256 \<le> ?full" using that assms(2) by linarith
    then show ?thesis by (simp add: zdiv_mono1 [of 256 _ 256, simplified] pos_imp_zdiv_pos_iff)
  qed
  then show ?thesis unfolding limit_intensity_def rd
    by (auto simp: Let_def jd_assert_def not_le split: if_splits intro: exI [of _ "intensity s"])
qed

text \<open>The predicates of the invariant see neither the flags, the intensity nor the times.\<close>

lemmas strip_preds = ls_inv_def no_wrap_def fades_ok_def range_ok_def has_cmd_def prog_byte_def

lemma strip_frame [simp]:
  "strip_ok (s\<lparr>dirty := b\<rparr>) = strip_ok s" "strip_ok (s\<lparr>in_tx := b\<rparr>) = strip_ok s" "strip_ok (s\<lparr>auto_refresh := x\<rparr>) = strip_ok s"
  "strip_ok (s\<lparr>intensity := i\<rparr>) = strip_ok s" "strip_ok (s\<lparr>inited := b\<rparr>) = strip_ok s"
  by (simp_all add: strip_ok_def strip_preds current_limit_def)

lemma prog_process_keeps:
  assumes "strip_ok s"
  obtains t where "prog_process now s = Some t" "strip_ok t" "numpixels t = numpixels s"
proof -
  obtain t where t: "prog_process now s = Some t" "same_prog s t" "ls_inv t" "range_ok t"
    using prog_process_ok [of s now] assms by (auto simp: strip_ok_def)
  have "strip_ok t" using assms t(2-4) same_prog_cmd [OF t(2)] by (auto simp: strip_ok_def same_prog_def current_limit_def)
  then show ?thesis using that [OF t(1)] t(2) by (simp add: same_prog_def)
qed

lemma ledstrip_process_keeps:
  assumes "strip_ok s"
  shows "\<exists>t tx. ledstrip_process available now s = Some (t, tx) \<and> strip_ok t \<and> numpixels t = numpixels s"
proof -
  obtain u where u: "prog_process now s = Some u" "strip_ok u" "numpixels u = numpixels s" using prog_process_keeps [OF assms] .
  define v where "v = (if in_past now (auto_refresh u) \<and> inited u then u\<lparr>dirty := True\<rparr> else u)"
  have v: "strip_ok v" "numpixels v = numpixels s" using u by (simp_all add: v_def)
  define w where "w = v\<lparr>dirty := False, auto_refresh := now + 65536, in_tx := True\<rparr>"
  have "strip_ok w" "numpixels w = numpixels s" using v by (simp_all add: w_def)
  then have w: "strip_ok w" "numpixels w = numpixels s" "3 * numpixels w \<le> length (pxbuffer w)" "256 \<le> current_limit w"
    by (simp_all add: strip_ok_def ls_inv_def)
  obtain i where i: "limit_intensity w = Some (w\<lparr>intensity := i\<rparr>)" using limit_intensity_ok [OF w(3,4)] by blast
  have "px_alloc_buffer available s = s" using assms by (simp add: px_alloc_buffer_def strip_ok_def)
  then have "ledstrip_process available now s = (if is_enabled v \<and> dirty v \<and> \<not> in_tx v
      then Some (w\<lparr>intensity := i\<rparr>, Some (take (numpixels w * 3) (pxbuffer w), i)) else Some (v, None))"
    unfolding ledstrip_process_def Let_def v_def [symmetric] using u(1) w(3) i by (simp add: v_def [symmetric] w_def [symmetric] mult.commute)
  then show ?thesis using v w(1,2) by simp
qed

lemma handle_run_cmd_keeps:
  assumes "strip_ok s" "ls_event_ok (numpixels s) (Ls_run now pkt)"
  shows "\<exists>t. handle_run_cmd now pkt s = Some t \<and> strip_ok t \<and> numpixels t = numpixels s"
proof -
  define n d where "n = pkt_service_size pkt" and "d = take (pkt_service_size pkt) (drop 4 (frm_data pkt))"
  have ok: "light_program_ok (numpixels s) d" using assms(2) by (simp add: d_def)
  have "length d = n" using assms(2) by (auto simp: n_def d_def)
  moreover have "length d \<le> 236" using ok by (simp add: light_program_ok_def)
  ultimately have len: "length d = n" "n \<le> 236" "length (prog_data s) = 237" "3 * numpixels s \<le> length (pxbuffer s)" "numpixels s < 65536"
    using assms(1) by (simp_all add: strip_ok_def ls_inv_def)
  have rd: "rd_mem (frm_data pkt) 4 n = Some d" using assms(2) by (simp add: n_def d_def)
  let ?t = "reset_prog now (s\<lparr>prog_size := n, prog_data := d @ drop n (prog_data s)\<rparr>)"
  have run: "handle_run_cmd now pkt s = Some (sync_config ?t)" using rd len by (simp add: handle_run_cmd_def patch_def n_def [symmetric])
  have nth: "prog_byte ?t i = unat (d ! i)" if "i < n" for i using that len(1) by (simp add: prog_byte_def reset_prog_def nth_append)
  have size: "prog_size ?t = n" by (simp add: reset_prog_def)
  have cmd: "has_cmd ?t c \<longleftrightarrow> c \<in> unat ` set d" for c
  proof -
    have "has_cmd ?t c \<longleftrightarrow> (\<exists>i<n. unat (d ! i) = c)" unfolding has_cmd_def size using nth by metis
    also have "\<dots> \<longleftrightarrow> c \<in> unat ` set d" using len(1) by (auto simp: set_conv_nth)
    finally show ?thesis .
  qed
  have "fades_ok ?t" "range_ok ?t" using ok cmd by (auto simp: light_program_ok_def fades_ok_def range_ok_def reset_prog_def)
  moreover have "no_wrap ?t" unfolding no_wrap_def size
  proof (intro allI impI)
    fix i assume i: "i < n" "prog_byte ?t i = LIGHT_PROG_COLN"
    then have "i + 1 < n \<and> i + 2 + 3 * unat (d ! (i + 1)) < 256" using ok len(1) nth [of i] by (auto simp: light_program_ok_def)
    then show "i + 2 + 3 * prog_byte ?t (i + 1) < 256" using nth by simp
  qed
  moreover have "ls_inv ?t" using len by (simp add: ls_inv_def reset_prog_def)
  ultimately have "strip_ok ?t" using assms(1) by (simp add: strip_ok_def reset_prog_def current_limit_def)
  then show ?thesis using run by (simp add: sync_config_def) (simp add: reset_prog_def)
qed

lemma ls_event_keeps:
  assumes "strip_ok s" "ls_event_ok (numpixels s) e"
  shows "\<exists>t. ls_event_step e s = Some t \<and> strip_ok t \<and> numpixels t = numpixels s"
proof (cases e)
  case (Ls_process now)
  then show ?thesis using ledstrip_process_keeps [OF assms(1), of 0 now] by auto
next
  case Ls_tx_done
  then show ?thesis using assms(1) by (simp add: px_tx_done_def)
next
  case (Ls_run now pkt)
  then show ?thesis using handle_run_cmd_keeps assms by simp
qed

subsection \<open>Properties\<close>

text \<open>C18: The LED strip service never stops.  From a state with the program and the range inside their buffers, in every
  sequence of process calls, ends of transmissions and run commands whose programs have no color block beyond position 255 and
  no change of the range beside a fade, every call returns, nothing outside the program and the pixels is read or written,
  nothing is divided by zero, and the invariant holds again.\<close>

theorem light_service_runs:
  assumes "strip_ok s" "list_all (ls_event_ok (numpixels s)) es"
  shows "\<exists>t. ls_run es s = Some t \<and> strip_ok t \<and> numpixels t = numpixels s"
  using assms
proof (induction es arbitrary: s)
  case (Cons e es)
  obtain t where t: "ls_event_step e s = Some t" "strip_ok t" "numpixels t = numpixels s"
    using ls_event_keeps [of s e] Cons.prems by auto
  then show ?case using Cons.IH [of t] Cons.prems(2) by auto
qed simp

lemma strip_ok_idle:
  assumes "prog_size s = 0" "ls_inv s" "maxpixels s \<noteq> 0" "256 \<le> current_limit s"
  shows "strip_ok s"
  using assms by (simp add: strip_ok_def no_wrap_def fades_ok_def range_ok_def has_cmd_def)

definition sample_strip :: ledstrip where
  "sample_strip = (ledstrip_init 1 0 3 500 1)\<lparr>maxpixels := 8, pxbuffer := replicate 24 0\<rparr>"

definition light_run_frame :: "mem \<Rightarrow> jd_frame" where
  "light_run_frame d = zero_frame\<lparr>frm_data := [of_nat (length d), 1, 0x81, 0] @ d\<rparr>"

text \<open>A fade between two colors over the strip, shown for 10 milliseconds.\<close>

definition sample_events :: "ls_event list" where
  "sample_events = [Ls_run 0 (light_run_frame [0xD1, 0xC2, 255, 0, 0, 0, 0, 255, 0xD5, 10]), Ls_process 1, Ls_tx_done, Ls_process 20000]"

theorem light_service_runs_witness:
  "strip_ok sample_strip \<and> list_all (ls_event_ok (numpixels sample_strip)) sample_events \<and>
   (\<exists>t. ls_run sample_events sample_strip = Some t \<and> strip_ok t \<and> numpixels t = numpixels sample_strip)"
proof -
  have "ls_inv sample_strip" by (simp add: sample_strip_def ledstrip_init_def ls_inv_def)
  moreover have "256 \<le> current_limit sample_strip" "prog_size sample_strip = 0" "maxpixels sample_strip \<noteq> 0"
    by (simp_all add: sample_strip_def ledstrip_init_def current_limit_def)
  ultimately have 1: "strip_ok sample_strip" using strip_ok_idle by blast
  have 2: "list_all (ls_event_ok (numpixels sample_strip)) sample_events"
    by (simp add: sample_events_def light_run_frame_def pkt_service_size_def light_program_ok_def light_codes sample_strip_def
      ledstrip_init_def upt_rec)
  show ?thesis using 1 2 light_service_runs [OF 1 2] by blast
qed

text \<open>C19: A rotation of the range by \<open>shift\<close> pixels, done in place by single swaps, is the rotation of the list of its bytes by
  three times as many; every pixel outside of the range stays.\<close>

theorem prog_rot_rotates:
  assumes "range_len s = range_end s - range_start s" "3 * range_end s \<le> length (pxbuffer s)" "range_start s \<le> range_end s"
  shows "prog_rot shift s = Some (s\<lparr>pxbuffer := take (3 * range_start s) (pxbuffer s) @
    (if shift < range_len s then rotate (3 * shift) else id) (take (3 * range_len s) (drop (3 * range_start s) (pxbuffer s))) @
    drop (3 * range_end s) (pxbuffer s)\<rparr>)"
proof (cases "0 < shift \<and> shift < range_len s")
  case True
  then show ?thesis using prog_rot_ok [OF assms(1) _ _ assms(2)] by simp
next
  case False
  have e: "3 * range_end s = 3 * range_len s + 3 * range_start s" using assms(1,3) by simp
  have "drop (3 * range_end s) (pxbuffer s) = drop (3 * range_len s) (drop (3 * range_start s) (pxbuffer s))" by (simp add: e)
  then have "take (3 * range_start s) (pxbuffer s) @ take (3 * range_len s) (drop (3 * range_start s) (pxbuffer s)) @
      drop (3 * range_end s) (pxbuffer s) = pxbuffer s" by (simp only: append_take_drop_id)
  then show ?thesis using False by (auto simp: prog_rot_def)
qed

theorem prog_rot_rotates_witness:
  "prog_rot 1 (sample_strip\<lparr>pxbuffer := map of_nat [0..<24], range_start := 1, range_end := 4, range_len := 3\<rparr>) =
   Some (sample_strip\<lparr>pxbuffer := map of_nat ([0..<3] @ [6..<12] @ [3..<6] @ [12..<24]), range_start := 1, range_end := 4, range_len := 3\<rparr>)"
  using prog_rot_rotates [of "sample_strip\<lparr>pxbuffer := map of_nat [0..<24], range_start := 1, range_end := 4, range_len := 3\<rparr>" 1]
  by (simp add: take_map drop_map rotate_map [symmetric] upt_rec numeral_eq_Suc rotate1_def)

section \<open>A program that never ends\<close>

text \<open>The program \<open>fade\<close> of a block of 255 colors, none of which is in the program.\<close>

definition stuck :: "ledstrip \<Rightarrow> bool" where
  "stuck s \<longleftrightarrow> ls_inv s \<and> prog_ptr s = 0 \<and> prog_size s = 3 \<and> take 3 (prog_data s) = [0xD1, 0xC0, 0xFF] \<and> 0 < range_len s"

lemma stuck_step:
  assumes "stuck s"
  shows "\<exists>t u skip. prog_fetch_cmd s = Some (t, LIGHT_PROG_FADE) \<and> prog_command LIGHT_PROG_FADE t = Some (u, skip) \<and>
    stuck u \<and> stuck (u\<lparr>prog_tmpmode := prog_mode u\<rparr>)"
proof -
  have s: "ls_inv s" "prog_ptr s = 0" "prog_size s = 3" "0 < range_len s" "take 3 (prog_data s) = [0xD1, 0xC0, 0xFF]"
    using assms by (simp_all add: stuck_def)
  have d: "prog_data s ! 0 = 0xD1" "prog_data s ! 1 = 0xC0" "prog_data s ! 2 = 0xFF" "length (prog_data s) = 237"
    using s(5) nth_take [of 0 3 "prog_data s"] nth_take [of 1 3 "prog_data s"] nth_take [of 2 3 "prog_data s"] s(1)
    by (simp_all add: ls_inv_def)
  let ?t = "s\<lparr>prog_ptr := 1\<rparr>" let ?u = "s\<lparr>prog_ptr := 3\<rparr>"
  have "prog_fetch s = Some (?t, PROG_CMD LIGHT_PROG_FADE)" using s d by (simp add: prog_fetch_def next_byte_def light_codes)
  then have fetch: "prog_fetch_cmd s = Some (?t, LIGHT_PROG_FADE)" by (subst prog_fetch_cmd.simps) simp
  have block: "prog_fetch ?t = Some (?u, PROG_COLOR_BLOCK 255)" using s d d(3) [unfolded numeral_2_eq_2] by (simp add: prog_fetch_def next_byte_def light_codes)
  have "ls_inv ?u" using s(1) by (simp add: ls_inv_def)
  from prog_fade_returns [OF this, of 255 False] obtain v where v: "prog_fade 255 False ?u = Some v" "paints ?u v" "prog_ptr v = 0"
    using s(4) by (auto simp: u8_def)
  have "ls_inv v" using paints_inv [OF v(2)] \<open>ls_inv ?u\<close> by blast
  then have "stuck v" using v(2,3) s by (auto simp: paints_def stuck_def)
  moreover from this have "stuck (v\<lparr>prog_tmpmode := prog_mode v\<rparr>)" by (auto simp: stuck_def ls_inv_def)
  moreover have "prog_command LIGHT_PROG_FADE ?t = Some (v, False)" using block v(1) by (simp add: color_command light_codes)
  ultimately show ?thesis using fetch by blast
qed

lemma prog_loop_stuck:
  assumes "prog_loop s = Some t"
  shows "\<not> stuck s"
proof (rule prog_loop.raw_induct [where P = "\<lambda>s t. \<not> stuck s", OF _ assms], rule notI)
  fix f s t
  assume IH: "\<And>s t. f s = Some t \<Longrightarrow> \<not> stuck s" and "stuck s"
    and body: "do {
     (s, cmd) \<leftarrow> prog_fetch_cmd s;
     if cmd = 0 then Some s
     else if cmd = LIGHT_PROG_SHOW then do {
       (s, k) \<leftarrow> prog_fetch_num 50 s;
       Some (s\<lparr>prog_next_step := prog_next_step s + of_nat (k * 1000), dirty := True\<rparr>) }
     else do {
       (s, skip) \<leftarrow> prog_command cmd s;
       f (if skip \<or> cmd = LIGHT_PROG_MODE1 then s else s\<lparr>prog_tmpmode := prog_mode s\<rparr>) } } = Some t"
  obtain u v skip where "prog_fetch_cmd s = Some (u, LIGHT_PROG_FADE)" "prog_command LIGHT_PROG_FADE u = Some (v, skip)"
    "stuck v" "stuck (v\<lparr>prog_tmpmode := prog_mode v\<rparr>)" using stuck_step [OF \<open>stuck s\<close>] by blast
  then show False using body IH by (auto simp: light_codes split: if_splits)
qed



section \<open>The limit of the current\<close>

text \<open>The current at an intensity is at most the share \<open>(1 + i) / 256\<close> of the full current.\<close>

lemma px_current_share:
  assumes "i < 256"
  shows "256 * px_current d i \<le> 46 * int (sum_list (map unat d)) * (1 + int i)"
proof (induction d)
  case Nil
  then show ?case by (simp add: px_current_def)
next
  case (Cons v d)
  have "256 * SCALE0 (unat v) i \<le> unat v * (1 + i)" using assms unat_byte_lt [of v] by (simp add: SCALE0_def)
  from of_nat_mono [OF this, where ?'a = int] have "256 * int (SCALE0 (unat v) i) \<le> int (unat v) * (1 + int i)" by (simp add: algebra_simps)
  then show ?case using Cons by (simp add: px_current_def algebra_simps)
qed

lemma px_current_le_full: "px_current d i \<le> 46 * int (sum_list (map unat d))"
  using sum_scale_le [of i d] by (simp add: px_current_def)

lemma lowered_intensity:
  fixes full limit q :: int
  assumes "0 \<le> limit" "limit < full" "65536 \<le> full" "q = full div 256" "inten = limit div q - 1"
  shows "inten < 256" "0 \<le> inten \<Longrightarrow> full * (1 + inten) \<le> 256 * (limit + 256)"
proof -
  have q: "256 \<le> q" "full < 256 * q + 256" using assms(3,4) by presburger+
  have "limit < (257::int) * q" using assms(2) q by linarith
  moreover have le: "q * (limit div q) \<le> limit" using mult_div_mod_eq [of q limit] pos_mod_sign [of q limit] q(1) by linarith
  moreover have "q * 257 \<le> q * (limit div q)" if "257 \<le> limit div q" using that q(1) by (intro mult_left_mono) simp_all
  ultimately have "limit div q < 257" by (cases "257 \<le> limit div q") simp_all
  then show i: "inten < 256" using assms(5) by simp
  assume "0 \<le> inten"
  have "q * (1 + inten) \<le> limit" using le by (simp add: assms(5))
  moreover have "full * (1 + inten) \<le> (256 * q + 256) * (1 + inten)" using q(2) \<open>0 \<le> inten\<close> by (intro mult_right_mono) simp_all
  ultimately show "full * (1 + inten) \<le> 256 * (limit + 256)" using i by (simp add: algebra_simps)
qed

text \<open>C20: \<open>limit_intensity\<close> keeps the power budget.  When the budget covers the chip and the idle pixels, and the pixels at full
  intensity take 65.536 mA or more, it returns, the intensity stays a byte, and the current of the pixels at the new intensity
  is at most what the budget leaves plus 256 micro-amperes.\<close>

theorem limit_intensity_bound:
  assumes "3 * numpixels s \<le> length (pxbuffer s)" "intensity s < 256" "requested_intensity s < 256" "0 \<le> current_limit s"
    "65536 \<le> 46 * int (sum_list (map unat (take (3 * numpixels s) (pxbuffer s))))"
  shows "\<exists>i. limit_intensity s = Some (s\<lparr>intensity := i\<rparr>) \<and> i < 256 \<and>
    px_current (take (3 * numpixels s) (pxbuffer s)) i \<le> current_limit s + 256"
proof -
  let ?d = "take (3 * numpixels s) (pxbuffer s)"
  define full limit where "full = 46 * int (sum_list (map unat ?d))" and "limit = current_limit s"
  let ?new = "min (intensity s + (1 + intensity s div 32)) (requested_intensity s)"
  have rd: "rd_mem (pxbuffer s) 0 (numpixels s * 3) = Some ?d" using assms(1) by (simp add: mult.commute)
  have pos: "0 < full div 256" using assms(5) by (simp add: full_def pos_imp_zdiv_pos_iff)
  have run: "limit_intensity s = (if px_current ?d ?new \<le> limit then Some (s\<lparr>intensity := ?new\<rparr>)
      else if px_current ?d (intensity s) \<le> limit then Some s
      else Some (s\<lparr>intensity := u8 (nat (limit sdiv (full div 256) - 1))\<rparr>))"
    using pos by (simp add: limit_intensity_def rd Let_def jd_assert_def full_def limit_def)
  consider "px_current ?d ?new \<le> limit" | "px_current ?d (intensity s) \<le> limit" "limit < px_current ?d ?new"
    | "limit < px_current ?d (intensity s)" "limit < px_current ?d ?new" by linarith
  then show ?thesis
  proof cases
    case 1
    then show ?thesis using run assms(3) by (intro exI [of _ ?new]) (simp add: limit_def)
  next
    case 2
    then show ?thesis using run assms(2) by (intro exI [of _ "intensity s"]) (simp add: limit_def)
  next
    case 3
    define inten where "inten = limit div (full div 256) - 1"
    have sdiv: "limit sdiv (full div 256) - 1 = inten"
      using pos assms(4) by (cases "limit = 0") (simp_all add: inten_def limit_def signed_divide_int_def)
    have "limit < full" using 3(1) px_current_le_full [of ?d "intensity s"] by (simp add: full_def)
    note low = lowered_intensity [OF assms(4) [folded limit_def] this assms(5) [folded full_def] refl inten_def]
    have i: "nat inten < 256" "u8 (nat inten) = nat inten" using low(1) by simp_all
    have "px_current ?d (nat inten) \<le> limit + 256"
    proof (cases "0 \<le> inten")
      case True
      then have "256 * px_current ?d (nat inten) \<le> full * (1 + inten)" using px_current_share [OF i(1), of ?d] by (simp only: full_def) simp
      from order_trans [OF this low(2) [OF True]] show ?thesis by simp
    next
      case False
      then show ?thesis using px_current_share [of 0 ?d] assms(4) by (simp add: px_current_def SCALE0_def limit_def)
    qed
    then show ?thesis using run 3 sdiv i by (intro exI [of _ "nat inten"]) (simp add: limit_def)
  qed
qed

definition bright_strip :: ledstrip where
  "bright_strip = (ledstrip_init 1 0 8 100 1)\<lparr>maxpixels := 8, pxbuffer := replicate 24 255, requested_intensity := 255, intensity := 200\<rparr>"

theorem limit_intensity_bound_witness:
  "\<exists>i. limit_intensity bright_strip = Some (bright_strip\<lparr>intensity := i\<rparr>) \<and> i < 256 \<and> px_current (replicate 24 255) i \<le> 78816"
  using limit_intensity_bound [of bright_strip]
  by (simp add: bright_strip_def ledstrip_init_def current_limit_def sum_list_replicate)

end
