(* ===== verification/Jd_Sensor.thy ===== *)
theory Jd_Sensor
  imports Jd_Register Jd_Event Jd_Util "HOL-Library.Signed_Division"
begin

text \<open>
  The framework of the sensor services: services/jd\_sensor.c, the environment sensors of services/jd\_env.c and the button of
  services/button.c.  The driver of a sensor, a struct of function pointers, is the parameter \<open>api\<close> over the state \<open>'h\<close> of the
  hardware; a null pointer is \<open>None\<close>.  Codes generated into jacdac/dist/c are the record \<open>sensor_codes\<close>.
\<close>

section \<open>Data\<close>

record sensor_range =
  sr_range :: int
  sr_config :: "32 word"
  sr_scale :: "32 word"

record 'h sensor_api =
  api_init :: "('h \<Rightarrow> 'h) option"
  api_process :: "('h \<Rightarrow> 'h) option"
  api_sleep :: "('h \<Rightarrow> 'h) option"
  api_get_reading :: "'h \<Rightarrow> 'h \<times> mem option"
  api_get_range :: "('h \<Rightarrow> 'h \<times> 32 word) option"
  api_set_range :: "(32 word \<Rightarrow> 'h \<Rightarrow> 'h) option"
  api_ranges :: "sensor_range list option"

record sensor =
  sn_index :: nat
  streaming_samples :: nat
  got_query :: bool
  jd_inited :: bool
  got_reading :: bool
  reading_pending :: bool
  streaming_interval :: "32 word"
  next_streaming :: "32 word"

record sensor_codes =
  REG_STREAMING_SAMPLES :: nat
  REG_STREAMING_INTERVAL :: nat
  REG_INTENSITY :: nat
  REG_STATUS_CODE :: nat
  REG_READING_RANGE :: nat
  REG_SUPPORTED_RANGES :: nat
  REG_READING :: nat
  REG_READING_ERROR :: nat
  REG_MIN_READING :: nat
  REG_MAX_READING :: nat
  EV_STATUS_CODE_CHANGED :: nat
  ST_SLEEPING :: "32 word"
  ST_INITIALIZING :: "32 word"
  ST_READY :: "32 word"
  EV_QUEUE_SIZE :: nat

text \<open>The hardware, the event queue and the transport around a sensor.\<close>

record 'h world =
  wd_hw :: 'h
  wd_events :: event_info
  wd_bus :: bus

abbreviation world_now :: "'h world \<Rightarrow> 32 word" where
  "world_now w \<equiv> now_us (wd_bus w)"

definition world_send :: "(bus \<Rightarrow> (bus \<times> int) option) \<Rightarrow> 'h world \<Rightarrow> 'h world option" where
  "world_send f w = map_option (\<lambda>(b, _). w\<lparr>wd_bus := b\<rparr>) (f (wd_bus w))"

definition world_event :: "sensor_codes \<Rightarrow> nat \<Rightarrow> nat \<Rightarrow> mem \<Rightarrow> 'h world \<Rightarrow> 'h world option" where
  "world_event k i ev d w =
     map_option (\<lambda>(q, b). w\<lparr>wd_events := q, wd_bus := b\<rparr>) (jd_send_event_ext (EV_QUEUE_SIZE k) i ev d (wd_events w) (wd_bus w))"

section \<open>jd\_sensor.c\<close>

definition sensor_regs :: "sensor_codes \<Rightarrow> nat list" where
  "sensor_regs k = [T_REG_BYTES * 4096 + 0xff0, 6, 4096 + REG_STREAMING_SAMPLES k, 5 * 4096 + REG_STREAMING_INTERVAL k, JD_REG_END]"

text \<open>The bytes of the struct that the register table describes.\<close>

definition sn_image :: "sensor \<Rightarrow> mem" where
  "sn_image s = replicate 4 0 @ [of_nat (sn_index s), 0, of_nat (streaming_samples s),
     of_bool (got_query s) + 2 * of_bool (jd_inited s) + 4 * of_bool (got_reading s) + 8 * of_bool (reading_pending s)] @
     le_bytes 4 (streaming_interval s)"

definition sn_from_image :: "mem \<Rightarrow> sensor \<Rightarrow> sensor" where
  "sn_from_image m s = s\<lparr>streaming_samples := unat (m ! 6), streaming_interval := le_word (take 4 (drop 8 m))\<rparr>"

definition get_status_code :: "sensor_codes \<Rightarrow> sensor \<Rightarrow> 32 word" where
  "get_status_code k s =
     (if \<not> jd_inited s then ST_SLEEPING k else if \<not> got_reading s then ST_INITIALIZING k else ST_READY k)"

definition sensor_send_status :: "sensor_codes \<Rightarrow> sensor \<Rightarrow> 'h world \<Rightarrow> 'h world option" where
  "sensor_send_status k s w = world_event k (sn_index s) (EV_STATUS_CODE_CHANGED k) (le_bytes 4 (get_status_code k s)) w"

text \<open>The number of ranges before the terminator; without one the loop reads past the array.\<close>

fun ranges_len :: "sensor_range list \<Rightarrow> nat option" where
  "ranges_len [] = None"
| "ranges_len (r # rs) = (if sr_range r = 0 then Some 0 else map_option Suc (ranges_len rs))"

definition respond_ranges ::
  "sys_consts \<Rightarrow> sensor_codes \<Rightarrow> 'h sensor_api \<Rightarrow> sensor \<Rightarrow> 'h world \<Rightarrow> ('h world \<times> int) option" where
  "respond_ranges c k a s w =
     (case api_ranges a of
        None \<Rightarrow> Some (w, 0)
      | Some rs \<Rightarrow> do {
          len \<leftarrow> ranges_len rs;
          let buf = concat (map (\<lambda>r. le_bytes 4 (of_int (sr_range r) :: 32 word)) (take len rs));
          w \<leftarrow> world_send (jd_send (sn_index s) (JD_GET c (REG_SUPPORTED_RANGES k)) buf) w;
          Some (w, - int (REG_SUPPORTED_RANGES k)) })"

definition sensor_set_intensity ::
  "sensor_codes \<Rightarrow> 'h sensor_api option \<Rightarrow> jd_frame \<Rightarrow> sensor \<Rightarrow> 'h world \<Rightarrow> (sensor \<times> 'h world) option" where
  "sensor_set_intensity k api pkt s w = do {
     b \<leftarrow> rd8 (frm_data pkt) 4;
     if b \<noteq> 0 then Some (s\<lparr>got_query := True\<rparr>, w)
     else do {
       let s = s\<lparr>got_query := False, streaming_samples := 0\<rparr>;
       case api of
         None \<Rightarrow> Some (s, w)
       | Some a \<Rightarrow> (case api_sleep a of
           None \<Rightarrow> Some (s, w)
         | Some sleep \<Rightarrow>
             if jd_inited s then do {
               let s = s\<lparr>got_reading := False, jd_inited := False\<rparr>;
               w \<leftarrow> sensor_send_status k s (w\<lparr>wd_hw := sleep (wd_hw w)\<rparr>);
               Some (s, w) }
             else Some (s, w)) } }"

text \<open>The effect of a write to one of the two registers.\<close>

definition sensor_written :: "sensor_codes \<Rightarrow> 32 word \<Rightarrow> int \<Rightarrow> sensor \<Rightarrow> sensor" where
  "sensor_written k now r s =
     (if r = int (REG_STREAMING_SAMPLES k) then
        (if streaming_samples s \<noteq> 0
         then s\<lparr>streaming_interval := if streaming_interval s = 0 then 100 else streaming_interval s, next_streaming := now, got_query := True\<rparr>
         else s)
      else if r = int (REG_STREAMING_INTERVAL k) then
        (let s = (if streaming_interval s < 20 then s\<lparr>streaming_interval := 20\<rparr> else s)
         in if streaming_interval s > 100000 then s\<lparr>streaming_interval := 100000\<rparr> else s)
      else s)"

definition sensor_handle_packet ::
  "sys_consts \<Rightarrow> sensor_codes \<Rightarrow> 'h sensor_api option \<Rightarrow> jd_frame \<Rightarrow> sensor \<Rightarrow> 'h world \<Rightarrow> (sensor \<times> 'h world \<times> int) option" where
  "sensor_handle_packet c k api pkt s w =
     (let cmd = pkt_service_command pkt in
      if cmd = JD_GET c (REG_INTENSITY k) then do {
        w \<leftarrow> world_send (jd_respond_u8 pkt (of_bool (jd_inited s))) w;
        Some (s, w, - int (REG_INTENSITY k)) }
      else if cmd = JD_GET c (REG_STATUS_CODE k) then do {
        w \<leftarrow> world_send (jd_respond_u32 pkt (get_status_code k s)) w;
        Some (s, w, - int (REG_STATUS_CODE k)) }
      else if cmd = JD_GET c (REG_READING_RANGE k) then do {
        a \<leftarrow> api;
        case api_get_range a of
          None \<Rightarrow> Some (s, w, 0)
        | Some get_range \<Rightarrow> do {
            let (h, v) = get_range (wd_hw w);
            w \<leftarrow> world_send (jd_respond_u32 pkt v) (w\<lparr>wd_hw := h\<rparr>);
            Some (s, w, - int (REG_READING_RANGE k)) } }
      else if cmd = JD_SET c (REG_READING_RANGE k) then do {
        a \<leftarrow> api;
        case api_set_range a of
          None \<Rightarrow> Some (s, w, 0)
        | Some set_range \<Rightarrow> do {
            d \<leftarrow> rd_mem (frm_data pkt) 4 4;
            Some (s, w\<lparr>wd_hw := set_range (le_word d) (wd_hw w)\<rparr>, int (REG_READING_RANGE k)) } }
      else if cmd = JD_GET c (REG_SUPPORTED_RANGES k) then do {
        a \<leftarrow> api;
        (w, r) \<leftarrow> respond_ranges c k a s w;
        Some (s, w, r) }
      else if cmd = JD_SET c (REG_INTENSITY k) then do {
        (s, w) \<leftarrow> sensor_set_intensity k api pkt s w;
        Some (s, w, int (REG_INTENSITY k)) }
      else do {
        (img, b, r) \<leftarrow> service_handle_register c (sn_image s) pkt (sensor_regs k) (wd_bus w);
        Some (sensor_written k (world_now w) r (sn_from_image img s), w\<lparr>wd_bus := b\<rparr>, r) })"

definition sensor_get_reading ::
  "sensor_codes \<Rightarrow> 'h sensor_api option \<Rightarrow> sensor \<Rightarrow> 'h world \<Rightarrow> (sensor \<times> 'h world \<times> mem option) option" where
  "sensor_get_reading k api s w = do {
     a \<leftarrow> api;
     if \<not> jd_inited s then Some (s, w, None)
     else do {
       let (h, r) = api_get_reading a (wd_hw w);
       let w = w\<lparr>wd_hw := h\<rparr>;
       if r \<noteq> None \<and> \<not> got_reading s then do {
         let s = s\<lparr>got_reading := True\<rparr>;
         w \<leftarrow> sensor_send_status k s w;
         Some (s, w, r) }
       else Some (s, w, r) } }"

text \<open>The index of the range that is found, -1 when it is before the array.\<close>

fun range_scan :: "nat \<Rightarrow> sensor_range list \<Rightarrow> int \<Rightarrow> int option" where
  "range_scan i [] requested = None"
| "range_scan i (r # rs) requested =
     (if sr_range r = 0 then Some (int i - 1)
      else if sr_range r \<ge> requested then Some (int i)
      else range_scan (i + 1) rs requested)"

definition sensor_lookup_range :: "sensor_range list \<Rightarrow> int \<Rightarrow> int option" where
  "sensor_lookup_range ranges requested = range_scan 0 ranges requested"

definition sensor_maybe_init ::
  "sensor_codes \<Rightarrow> 'h sensor_api option \<Rightarrow> sensor \<Rightarrow> 'h world \<Rightarrow> (sensor \<times> 'h world \<times> bool) option" where
  "sensor_maybe_init k api s w =
     (if got_query s \<and> \<not> jd_inited s then do {
        let s = s\<lparr>got_reading := False, jd_inited := True\<rparr>;
        w \<leftarrow> (case Option.bind api api_init of
            None \<Rightarrow> Some w
          | Some init \<Rightarrow> map_option (\<lambda>w. w\<lparr>wd_hw := init (wd_hw w)\<rparr>) (sensor_send_status k s w));
        let (s, w) = (case api of
            None \<Rightarrow> (s\<lparr>got_reading := True\<rparr>, w)
          | Some a \<Rightarrow> let (h, r) = api_get_reading a (wd_hw w) in
              (if r \<noteq> None then s\<lparr>got_reading := True\<rparr> else s, w\<lparr>wd_hw := h\<rparr>));
        w \<leftarrow> sensor_send_status k s w;
        Some (s, w, True) }
      else Some (s, w, False))"

definition sensor_process ::
  "sensor_codes \<Rightarrow> 'h sensor_api option \<Rightarrow> sensor \<Rightarrow> 'h world \<Rightarrow> (sensor \<times> 'h world) option" where
  "sensor_process k api s w = do {
     (s, w, _) \<leftarrow> sensor_maybe_init k api s w;
     Some (s, case Option.bind api api_process of
         Some process \<Rightarrow> if jd_inited s then w\<lparr>wd_hw := process (wd_hw w)\<rparr> else w
       | None \<Rightarrow> w) }"

definition sensor_should_stream :: "32 word \<Rightarrow> sensor \<Rightarrow> sensor \<times> bool" where
  "sensor_should_stream now s =
     (if streaming_samples s = 0 then (s, False)
      else (case jd_should_sample now (next_streaming s) (streaming_interval s * 1000) of (due, t) \<Rightarrow>
        let s = s\<lparr>next_streaming := t\<rparr> in
        if due then (s\<lparr>streaming_samples := streaming_samples s - 1\<rparr>, True) else (s, False)))"

definition sensor_process_simple ::
  "sys_consts \<Rightarrow> sensor_codes \<Rightarrow> 'h sensor_api option \<Rightarrow> mem \<Rightarrow> sensor \<Rightarrow> 'h world \<Rightarrow> (sensor \<times> 'h world) option" where
  "sensor_process_simple c k api sample s w = do {
     (s, w) \<leftarrow> sensor_process k api s w;
     let (s, due) = sensor_should_stream (world_now w) s;
     w \<leftarrow> (if due then world_send (jd_send (sn_index s) (JD_GET c (REG_READING k)) sample) w else Some w);
     Some (s, w) }"

definition sensor_handle_packet_simple ::
  "sys_consts \<Rightarrow> sensor_codes \<Rightarrow> 'h sensor_api option \<Rightarrow> jd_frame \<Rightarrow> mem \<Rightarrow> sensor \<Rightarrow> 'h world \<Rightarrow> (sensor \<times> 'h world \<times> int) option" where
  "sensor_handle_packet_simple c k api pkt sample s w = do {
     (s, w, r) \<leftarrow> sensor_handle_packet c k api pkt s w;
     (s, w, r) \<leftarrow> (if pkt_service_command pkt = JD_GET c (REG_READING k) then do {
         w \<leftarrow> world_send (jd_send (pkt_service_index pkt) (pkt_service_command pkt) sample) w;
         Some (s\<lparr>got_query := True\<rparr>, w, - int (REG_READING k)) }
       else Some (s, w, r));
     w \<leftarrow> (if r = 0 then world_send (jd_send_not_implemented c pkt) w else Some w);
     Some (s, w, r) }"

definition sensor_should_send_threshold_event :: "32 word \<Rightarrow> 32 word \<Rightarrow> 32 word \<Rightarrow> bool \<Rightarrow> 32 word \<times> bool" where
  "sensor_should_send_threshold_event now block debounce_ms cond_ok =
     (if block = 0 \<or> in_past now block then
        (if cond_ok then (if block = 0 then (now + push_bit 10 debounce_ms, True) else (now, False)) else (0, False))
      else (block, False))"

section \<open>jd\_env.c\<close>

record env_reading =
  env_value :: int
  env_error :: int
  env_min_value :: int
  env_max_value :: int

text \<open>A reading is the 16 bytes of its struct.\<close>

definition env_sensor_process ::
  "sys_consts \<Rightarrow> sensor_codes \<Rightarrow> 'h sensor_api option \<Rightarrow> sensor \<Rightarrow> 'h world \<Rightarrow> (sensor \<times> 'h world) option" where
  "env_sensor_process c k api s w = do {
     (s, w) \<leftarrow> sensor_process k api s w;
     let (s, due) = sensor_should_stream (world_now w) s;
     if due then do {
       (s, w, r) \<leftarrow> sensor_get_reading k api s w;
       case r of
         None \<Rightarrow> Some (s, w)
       | Some env \<Rightarrow> do {
           v \<leftarrow> rd_mem env 0 4;
           w \<leftarrow> world_send (jd_send (sn_index s) (JD_GET c (REG_READING k)) v) w;
           e \<leftarrow> rd_mem env 4 4;
           w \<leftarrow> world_send (jd_send (sn_index s) (JD_GET c (REG_READING_ERROR k)) e) w;
           Some (s, w) } }
     else Some (s, w) }"

definition env_sensor_handle_packet ::
  "sys_consts \<Rightarrow> sensor_codes \<Rightarrow> 'h sensor_api option \<Rightarrow> jd_frame \<Rightarrow> sensor \<Rightarrow> 'h world \<Rightarrow> (sensor \<times> 'h world \<times> int) option" where
  "env_sensor_handle_packet c k api pkt s w = do {
     (s, w, r) \<leftarrow> sensor_handle_packet c k api pkt s w;
     if r \<noteq> 0 then Some (s, w, r)
     else do {
       let cmd = pkt_service_command pkt;
       let off = (if cmd = JD_GET c (REG_READING k) then Some 0
         else if cmd = JD_GET c (REG_READING_ERROR k) then Some 1
         else if cmd = JD_GET c (REG_MIN_READING k) then Some 2
         else if cmd = JD_GET c (REG_MAX_READING k) then Some (3 :: nat) else None);
       case off of
         None \<Rightarrow> map_option (\<lambda>w. (s, w, 0)) (world_send (jd_send_not_implemented c pkt) w)
       | Some off \<Rightarrow> do {
           (s, w, r) \<leftarrow> sensor_get_reading k api (s\<lparr>got_query := True\<rparr>) w;
           case r of
             None \<Rightarrow> Some (s, w, 0)
           | Some env \<Rightarrow> do {
               tmp \<leftarrow> rd_mem env (4 * off) 4;
               w \<leftarrow> world_send (jd_send (pkt_service_index pkt) cmd tmp) w;
               Some (s, w, - int (cmd mod 4096)) } } } }"

text \<open>An \<open>int32_t\<close> result; signed overflow is undefined in C.\<close>

definition int32 :: "int \<Rightarrow> int option" where
  "int32 x = (if - (2 ^ 31) \<le> x \<and> x < 2 ^ 31 then Some x else None)"

definition table_at :: "int list \<Rightarrow> nat \<Rightarrow> int option" where
  "table_at t i = (if i < length t then Some (t ! i) else None)"

function error_scan :: "int \<Rightarrow> int list \<Rightarrow> int \<Rightarrow> nat \<Rightarrow> int option" where
  "error_scan val t prev idx =
     (if idx + 1 < length t \<and> 0 < idx then
        (if t ! idx = -1 \<and> t ! (idx + 1) = -1 then Some (t ! (idx - 1))
         else if val \<le> t ! idx then do {
           size \<leftarrow> int32 (t ! idx - prev);
           pos \<leftarrow> int32 (val - prev);
           diff \<leftarrow> int32 (t ! (idx + 1) - t ! (idx - 1));
           prod \<leftarrow> int32 (pos * diff);
           jd_assert (size \<noteq> 0);
           int32 (prod sdiv size + t ! (idx - 1)) }
         else error_scan val t (t ! idx) (idx + 2))
      else None)"
  by auto
termination by (relation "measure (\<lambda>(v, t, p, i). length t - i)") auto

declare error_scan.simps [simp del]

definition env_extrapolate_error :: "int \<Rightarrow> int list \<Rightarrow> int option" where
  "env_extrapolate_error val t = do {
     prev \<leftarrow> table_at t 0;
     if val < prev then table_at t 1 else error_scan val t prev 2 }"

definition env_set_value :: "env_reading \<Rightarrow> int \<Rightarrow> int list \<Rightarrow> env_reading option" where
  "env_set_value env val t = map_option (\<lambda>e. env\<lparr>env_value := val, env_error := e\<rparr>) (env_extrapolate_error val t)"

text \<open>\<open>ABSHUM(t, h)\<close> of the temperatures in degrees and the humidities, cut to integers.\<close>

definition abs_hum :: "int list" where
  "abs_hum = [-25600, 614, -20480, 921, -15360, 1638, -10240, 2355, -5120, 3481, 0, 4915, 5120, 6963, 10240, 9625, 15360, 13107,
     20480, 17715, 25600, 23552, 30720, 31129, 35840, 40550, 40960, 52326, 46080, 66969, 51200, 84992, -1, -1]"

definition env_absolute_humidity :: "int \<Rightarrow> int \<Rightarrow> int option" where
  "env_absolute_humidity temp humidity = do {
     maxval \<leftarrow> env_extrapolate_error temp abs_hum;
     prod \<leftarrow> int32 (maxval * humidity);
     Some (prod sdiv 100 div 1024) }"

section \<open>button.c\<close>

record button =
  bt_sensor :: sensor
  bt_pressed :: byte
  bt_backlight :: byte
  prev_pressed :: byte
  next_hold :: "32 word"
  press_time :: "32 word"
  nextSample :: "32 word"

record button_codes =
  bt_codes :: sensor_codes
  BUTTON_EV_DOWN :: nat
  BUTTON_EV_UP :: nat
  BUTTON_EV_HOLD :: nat

datatype button_event = Down | Up "32 word" | Hold "32 word"

text \<open>What \<open>update\<close> does with the level it has read, and the events it sends.\<close>

definition button_changes :: "32 word \<Rightarrow> byte \<Rightarrow> button \<Rightarrow> button \<times> button_event list" where
  "button_changes now level b =
     (let b = b\<lparr>bt_pressed := level\<rparr>;
          (b, change) = (if level \<noteq> prev_pressed b then
              (let b = b\<lparr>prev_pressed := level, bt_backlight := level\<rparr> in
               if level \<noteq> 0 then (b\<lparr>press_time := now, next_hold := 500000\<rparr>, [Down])
               else (b, [Up ((now - press_time b) div 1000)]))
            else (b, []));
          presslen = now - press_time b
      in if level \<noteq> 0 \<and> presslen \<ge> next_hold b
         then (b\<lparr>next_hold := next_hold b + 500000\<rparr>, change @ [Hold (presslen div 1000)])
         else (b, change))"

fun send_button_events :: "button_codes \<Rightarrow> nat \<Rightarrow> button_event list \<Rightarrow> 'h world \<Rightarrow> 'h world option" where
  "send_button_events k i [] w = Some w"
| "send_button_events k i (e # es) w = do {
     w \<leftarrow> (case e of
         Down \<Rightarrow> world_event (bt_codes k) i (BUTTON_EV_DOWN k) [] w
       | Up n \<Rightarrow> world_event (bt_codes k) i (BUTTON_EV_UP k) (le_bytes 4 n) w
       | Hold n \<Rightarrow> world_event (bt_codes k) i (BUTTON_EV_HOLD k) (le_bytes 4 n) w);
     send_button_events k i es w }"

definition button_update :: "button_codes \<Rightarrow> byte \<Rightarrow> button \<Rightarrow> 'h world \<Rightarrow> (button \<times> 'h world) option" where
  "button_update k level b w =
     (case button_changes (world_now w) level b of (b, es) \<Rightarrow>
        map_option (\<lambda>w. (b, w)) (send_button_events k (sn_index (bt_sensor b)) es w))"

text \<open>The sample of 16 bits that a button streams and answers.\<close>

definition button_sample :: "button \<Rightarrow> mem" where
  "button_sample b = le_bytes 2 (if bt_pressed b \<noteq> 0 then 0xffff else 0 :: 16 word)"

definition button_process :: "sys_consts \<Rightarrow> button_codes \<Rightarrow> byte \<Rightarrow> button \<Rightarrow> 'h world \<Rightarrow> (button \<times> 'h world) option" where
  "button_process c k level b w = do {
     let (due, t) = jd_should_sample (world_now w) (nextSample b) 9000;
     let b = b\<lparr>nextSample := t\<rparr>;
     (b, w) \<leftarrow> (if due then button_update k level b w else Some (b, w));
     (s, w) \<leftarrow> sensor_process_simple c (bt_codes k) None (button_sample b) (bt_sensor b) w;
     Some (b\<lparr>bt_sensor := s\<rparr>, w) }"

definition button_handle_packet :: "sys_consts \<Rightarrow> button_codes \<Rightarrow> jd_frame \<Rightarrow> button \<Rightarrow> 'h world \<Rightarrow> (button \<times> 'h world) option" where
  "button_handle_packet c k pkt b w = do {
     (s, w, _) \<leftarrow> sensor_handle_packet_simple c (bt_codes k) None pkt (button_sample b) (bt_sensor b) w;
     Some (b\<lparr>bt_sensor := s\<rparr>, w) }"

definition sensor_new :: "nat \<Rightarrow> sensor" where
  "sensor_new i = \<lparr>sn_index = i, streaming_samples = 0, got_query = False, jd_inited = False, got_reading = False,
     reading_pending = False, streaming_interval = 0, next_streaming = 0\<rparr>"

definition button_new :: "nat \<Rightarrow> button" where
  "button_new i = \<lparr>bt_sensor = sensor_new i, bt_pressed = 0, bt_backlight = 0, prev_pressed = 0, next_hold = 0, press_time = 0, nextSample = 0\<rparr>"

definition button_init :: "button_codes \<Rightarrow> nat \<Rightarrow> byte \<Rightarrow> 'h world \<Rightarrow> (button \<times> 'h world) option" where
  "button_init k i level w = button_update k level (button_new i) w"

section \<open>Ranges\<close>

lemma range_scan_eq:
  assumes "\<forall>r \<in> set rs. sr_range r \<noteq> 0" "sr_range z = 0"
  shows "range_scan i (rs @ z # junk) req =
    Some (if \<exists>r \<in> set rs. req \<le> sr_range r then int (i + length (takeWhile (\<lambda>r. sr_range r < req) rs)) else int (i + length rs) - 1)"
  using assms by (induction rs arbitrary: i) auto

text \<open>For a list of ranges in ascending order with its terminator, \<open>sensor_lookup_range\<close> returns one of them: the smallest one
  that is at least the requested range, or the last one when none is.\<close>

theorem lookup_range_closest:
  assumes "rs \<noteq> []" "sorted (map sr_range rs)" "\<forall>r \<in> set rs. sr_range r \<noteq> 0" "sr_range z = 0"
  shows "\<exists>i < length rs. sensor_lookup_range (rs @ z # junk) req = Some (int i) \<and>
    (\<forall>j < length rs. req \<le> sr_range (rs ! j) \<longrightarrow> req \<le> sr_range (rs ! i) \<and> sr_range (rs ! i) \<le> sr_range (rs ! j)) \<and>
    ((\<forall>j < length rs. sr_range (rs ! j) < req) \<longrightarrow> i = length rs - 1)"
proof (cases "\<exists>r \<in> set rs. req \<le> sr_range r")
  case True
  let ?i = "length (takeWhile (\<lambda>r. sr_range r < req) rs)"
  have i: "?i < length rs" using True by (induction rs) auto
  have at: "req \<le> sr_range (rs ! ?i)" using nth_length_takeWhile [OF i] by simp
  have "sr_range (rs ! ?i) \<le> sr_range (rs ! j)" if "j < length rs" "req \<le> sr_range (rs ! j)" for j
  proof -
    have "?i \<le> j" using that by (metis leI nth_mem set_takeWhileD takeWhile_nth not_less)
    then show ?thesis using sorted_nth_mono [OF assms(2), of ?i j] that(1) i by simp
  qed
  then show ?thesis using True i at range_scan_eq [OF assms(3,4), of 0 junk req] by (intro exI [of _ ?i]) (force simp: sensor_lookup_range_def)
next
  case False
  have "sensor_lookup_range (rs @ z # junk) req = Some (int (length rs - 1))"
    using False range_scan_eq [OF assms(3,4), of 0 junk req] assms(1) by (cases rs) (auto simp: sensor_lookup_range_def)
  moreover have "sr_range (rs ! j) < req" if "j < length rs" for j using False nth_mem [OF that] by (meson not_le)
  moreover from this have "\<not> req \<le> sr_range (rs ! j)" if "j < length rs" for j using that by (simp add: not_le)
  moreover have "length rs - 1 < length rs" using assms(1) by simp
  ultimately show ?thesis by blast
qed

section \<open>Streaming\<close>

text \<open>Polls of a sensor at the given times: what is left and how many readings are sent.\<close>

fun stream_run :: "32 word list \<Rightarrow> sensor \<Rightarrow> sensor \<times> nat" where
  "stream_run [] s = (s, 0)"
| "stream_run (t # ts) s =
     (case sensor_should_stream t s of (s, due) \<Rightarrow> (case stream_run ts s of (s, n) \<Rightarrow> (s, n + of_bool due)))"

text \<open>Every poll is more than \<open>p\<close> microseconds after the one before it.\<close>

fun spaced :: "nat \<Rightarrow> 32 word \<Rightarrow> 32 word list \<Rightarrow> bool" where
  "spaced p t [] \<longleftrightarrow> True"
| "spaced p t (u # us) \<longleftrightarrow> p < unat (u - t) \<and> unat (u - t) \<le> 2147483648 \<and> spaced p u us"

lemma unat_minus_le: "unat (b :: 32 word) \<le> unat a \<Longrightarrow> unat (a - b) = unat a - unat b"
  by (simp add: unat_sub word_le_nat_alt)

lemma unat_minus_gt: "unat (a :: 32 word) < unat b \<Longrightarrow> unat (a - b) = 4294967296 + unat a - unat b"
  by (simp add: unat_sub_if_size word_size word_le_nat_alt)

lemma unat_plus_32: "unat (a + b :: 32 word) = (unat a + unat b) mod 4294967296"
  by (simp add: unat_word_ariths)

lemma wrapped_small:
  fixes a p :: nat
  assumes "e = (a + p) mod 4294967296" "2147483648 \<le> a" "p < 2147483648" "e < 2147483648" "a < 4294967296"
  shows "e \<le> p"
  using assms by (cases "a + p < 4294967296") (simp, simp add: mod_if, linarith)

text \<open>After a sample at \<open>t\<close> the next one is due at most a period later.\<close>

lemma should_sample_due:
  assumes "\<not> in_future t u" "unat p < 2147483648"
  obtains e where "jd_should_sample t u p = (True, t + e)" "unat e \<le> unat p"
proof -
  have far: "2147483648 \<le> unat (u - t)" using assms(1) by (simp add: in_future_def is_before_iff)
  show ?thesis
  proof (cases "in_future t (u + p)")
    case True
    let ?e = "u + p - t"
    have e: "?e = (u - t) + p" by simp
    have "unat ?e = (unat (u - t) + unat p) mod 4294967296" unfolding e by (rule unat_plus_32)
    moreover have "unat ?e < 2147483648" using True by (simp add: in_future_def is_before_iff)
    ultimately have "unat ?e \<le> unat p" using wrapped_small [of "unat ?e" "unat (u - t)" "unat p"] far assms(2) unsigned_less [of "u - t"] by simp
    moreover have "jd_should_sample t u p = (True, t + ?e)" using assms(1) True by (simp add: jd_should_sample_def)
    ultimately show ?thesis using that by blast
  next
    case False
    then have "jd_should_sample t u p = (True, t + p)" using assms(1) by (simp add: jd_should_sample_def)
    then show ?thesis using that by blast
  qed
qed

lemma spaced_due:
  assumes "unat e \<le> p" "p < unat (u - t)" "unat (u - t) \<le> 2147483648"
  shows "\<not> in_future u (t + e)"
proof -
  have e: "t + e - u = e - (u - t)" by simp
  have "unat (t + e - u) = 4294967296 + unat e - unat (u - t)" unfolding e using assms by (intro unat_minus_gt) simp
  then show ?thesis using assms by (simp add: in_future_def is_before_iff)
qed

lemma stream_run_sum: "stream_run ts s = (s', n) \<Longrightarrow> n + streaming_samples s' = streaming_samples s"
  by (induction ts arbitrary: s n) (auto simp: sensor_should_stream_def Let_def split: prod.splits if_splits)

lemma stream_run_spaced:
  assumes "unat (streaming_interval s * 1000) < 2147483648" "next_streaming s = t + e" "unat e \<le> unat (streaming_interval s * 1000)"
    "spaced (unat (streaming_interval s * 1000)) t ts"
  shows "snd (stream_run ts s) = min (length ts) (streaming_samples s)"
  using assms
proof (induction ts arbitrary: s t e)
  case (Cons u ts)
  let ?p = "streaming_interval s * 1000"
  show ?case
  proof (cases "streaming_samples s = 0")
    case True
    then show ?thesis using stream_run_sum [of "u # ts" s] by (cases "stream_run (u # ts) s") auto
  next
    case False
    have "\<not> in_future u (next_streaming s)" using spaced_due [of e "unat ?p" u t] Cons.prems by simp
    from should_sample_due [OF this Cons.prems(1)] obtain d where
      d: "jd_should_sample u (next_streaming s) ?p = (True, u + d)" "unat d \<le> unat ?p" .
    let ?s = "s\<lparr>next_streaming := u + d, streaming_samples := streaming_samples s - 1\<rparr>"
    have "sensor_should_stream u s = (?s, True)" using False d(1) by (simp add: sensor_should_stream_def)
    then show ?thesis using Cons.IH [of ?s u d] Cons.prems d(2) False by (auto simp: min_def split: prod.splits)
  qed
qed simp

lemma interval_us:
  assumes "(i :: 32 word) \<le> 100000"
  shows "unat (i * 1000) = 1000 * unat i" "unat (i * 1000) < 2147483648"
proof -
  have "unat i \<le> 100000" using assms by (simp add: word_le_nat_alt)
  then show "unat (i * 1000) = 1000 * unat i" "unat (i * 1000) < 2147483648" by (simp_all add: unat_word_ariths)
qed


section \<open>Thresholds\<close>

fun threshold_run :: "32 word \<Rightarrow> 32 word \<Rightarrow> (32 word \<times> bool) list \<Rightarrow> bool list" where
  "threshold_run deb block [] = []"
| "threshold_run deb block ((t, ok) # ps) =
     (case sensor_should_send_threshold_event t block deb ok of (block, ev) \<Rightarrow> ev # threshold_run deb block ps)"

lemma length_threshold_run [simp]: "length (threshold_run deb block ps) = length ps"
  by (induction deb block ps rule: threshold_run.induct) (auto split: prod.splits)

text \<open>While the block is set, an event takes a poll behind the block at which the condition does not hold.\<close>

lemma blocked_run:
  assumes "block \<noteq> 0" "\<forall>p \<in> set ps. fst p \<noteq> 0" "j < length ps" "threshold_run deb block ps ! j"
  shows "\<exists>l m. l \<le> m \<and> m < j \<and> in_past (fst (ps ! l)) block \<and> \<not> snd (ps ! m)"
  using assms
proof (induction ps arbitrary: block j)
  case (Cons p ps)
  obtain t ok where p: "p = (t, ok)" by (cases p)
  have t: "t \<noteq> 0" using Cons.prems(2) p by simp
  obtain j' where j: "j = Suc j'" using Cons.prems(1,4) p
    by (cases j) (auto simp: sensor_should_send_threshold_event_def split: if_splits)
  show ?case
  proof (cases "in_past t block")
    case past: True
    show ?thesis
    proof (cases ok)
      case True
      then have "threshold_run deb t ps ! j'" using Cons.prems(1,4) past j p by (simp add: sensor_should_send_threshold_event_def)
      then obtain m where "m < j'" "\<not> snd (ps ! m)" using Cons.IH [of t j'] t Cons.prems(2,3) j by auto
      then show ?thesis using past p j by (intro exI [of _ 0] exI [of _ "Suc m"]) simp
    next
      case False
      then show ?thesis using past p j by (intro exI [of _ 0]) simp
    qed
  next
    case False
    then have "threshold_run deb block ps ! j'" using Cons.prems(1,4) j p by (simp add: sensor_should_send_threshold_event_def)
    then obtain l m where "l \<le> m" "m < j'" "in_past (fst (ps ! l)) block" "\<not> snd (ps ! m)"
      using Cons.IH [of block j'] Cons.prems(1,2,3) j by auto
    then show ?thesis using j by (intro exI [of _ "Suc l"] exI [of _ "Suc m"]) simp
  qed
qed simp

text \<open>C25: Threshold events are debounced: between two events there is a poll after the end of the debounce time of the first one,
  and at it or later one at which the condition did not hold.  The clock must not read 0 at a poll or at the end of the debounce
  time, since 0 is the mark of a free block.\<close>

theorem threshold_debounced:
  assumes "\<forall>p \<in> set ps. fst p \<noteq> 0 \<and> fst p + push_bit 10 deb \<noteq> 0" "i < j" "j < length ps"
    "threshold_run deb block ps ! i" "threshold_run deb block ps ! j"
  shows "\<exists>l m. i < l \<and> l \<le> m \<and> m < j \<and> in_past (fst (ps ! l)) (fst (ps ! i) + push_bit 10 deb) \<and> \<not> snd (ps ! m)"
  using assms
proof (induction ps arbitrary: block i j)
  case (Cons p ps)
  obtain t ok where p: "p = (t, ok)" by (cases p)
  obtain j' where j: "j = Suc j'" using Cons.prems(2) by (cases j) auto
  obtain b ev where b: "sensor_should_send_threshold_event t block deb ok = (b, ev)" by (cases "sensor_should_send_threshold_event t block deb ok")
  show ?case
  proof (cases i)
    case 0
    then have "b = t + push_bit 10 deb" using Cons.prems(4) b p by (auto simp: sensor_should_send_threshold_event_def split: if_splits)
    moreover have "threshold_run deb b ps ! j'" using Cons.prems(5) b p j by simp
    ultimately obtain l m where "l \<le> m" "m < j'" "in_past (fst (ps ! l)) (t + push_bit 10 deb)" "\<not> snd (ps ! m)"
      using blocked_run [of b ps j' deb] Cons.prems(1,3) p j by auto
    then show ?thesis using 0 p j by (intro exI [of _ "Suc l"] exI [of _ "Suc m"]) simp
  next
    case (Suc i')
    then obtain l m where "i' < l" "l \<le> m" "m < j'" "in_past (fst (ps ! l)) (fst (ps ! i') + push_bit 10 deb)" "\<not> snd (ps ! m)"
      using Cons.IH [of i' j' b] Cons.prems b p j by auto
    then show ?thesis using Suc j by (intro exI [of _ "Suc l"] exI [of _ "Suc m"]) simp
  qed
qed simp

section \<open>The life of a sensor\<close>

text \<open>A sensor with a reading is initialized, and its streaming interval is not set yet or between 20 and 100000 milliseconds.\<close>

definition sensor_inv :: "sensor \<Rightarrow> bool" where
  "sensor_inv s \<longleftrightarrow> (got_reading s \<longrightarrow> jd_inited s) \<and> streaming_samples s < 256 \<and>
     (streaming_interval s = 0 \<and> streaming_samples s = 0 \<or> 20 \<le> streaming_interval s \<and> streaming_interval s \<le> 100000)"

text \<open>The status of a sensor changes only in a step that ends by sending it.\<close>

definition announced :: "sensor_codes \<Rightarrow> sensor \<Rightarrow> sensor \<Rightarrow> 'h world \<Rightarrow> bool" where
  "announced k s s' w' \<longleftrightarrow> get_status_code k s' = get_status_code k s \<or> (\<exists>w. sensor_send_status k s' w = Some w')"

definition sensor_codes_ok :: "sys_consts \<Rightarrow> sensor_codes \<Rightarrow> bool" where
  "sensor_codes_ok c k \<longleftrightarrow> sys_consts_ok c \<and> 0 < REG_STREAMING_SAMPLES k \<and> REG_STREAMING_SAMPLES k < 0xf00 \<and>
     0 < REG_STREAMING_INTERVAL k \<and> REG_STREAMING_INTERVAL k < 0xf00 \<and> REG_STREAMING_SAMPLES k \<noteq> REG_STREAMING_INTERVAL k"

lemma sensor_reg_find:
  assumes "sensor_codes_ok c k" "reg < 0xf00"
  shows "reg_find reg (sensor_regs k) 0 0 = Some (if reg = REG_STREAMING_SAMPLES k then Some (1, 1, 6, 0)
    else if reg = REG_STREAMING_INTERVAL k then Some (5, 4, 8, 0) else None)"
proof -
  let ?a = "REG_STREAMING_SAMPLES k" and ?b = "REG_STREAMING_INTERVAL k"
  have k: "?a < 0xf00" "?b < 0xf00" using assms(1) by (simp_all add: sensor_codes_ok_def)
  have d: "(4096 + ?a) div 4096 = 1" "(4096 + ?a) mod 4096 = ?a" "(20480 + ?b) div 4096 = 5" "(20480 + ?b) mod 4096 = ?b"
    "4096 + ?a \<noteq> 0xff1" "20480 + ?b \<noteq> 0xff1"
    using k div_mult_self1 [of 4096 ?b 5] mod_mult_self1 [of ?b 5 4096] by (simp_all add: add.commute)
  show ?thesis using assms(2) d by (simp add: sensor_regs_def reg_types regSize_def reg_align_def reg_advance_def Let_def)
qed

lemma sn_image_simps [simp]: "length (sn_image s) = 12" "sn_image s ! 6 = of_nat (streaming_samples s)"
    "take 4 (drop 8 (sn_image s)) = le_bytes 4 (streaming_interval s)"
  by (simp_all add: sn_image_def numeral_eq_Suc)

lemma sn_from_own_image: "streaming_samples s < 256 \<Longrightarrow> sn_from_image (sn_image s) s = s"
  by (simp add: sn_from_image_def unat_of_nat_byte)

text \<open>What a register command does to a sensor.\<close>

lemma sensor_register:
  assumes "sensor_codes_ok c k" "streaming_samples s < 256"
    "service_handle_register c (sn_image s) pkt (sensor_regs k) b = Some (img, b', r)"
  obtains (same) "sn_from_image img s = s" "r \<le> 0"
  | (samples) x where "sn_from_image img s = s\<lparr>streaming_samples := x\<rparr>" "x < 256" "r = int (REG_STREAMING_SAMPLES k)"
  | (interval) x where "sn_from_image img s = s\<lparr>streaming_interval := x\<rparr>" "r = int (REG_STREAMING_INTERVAL k)"
proof -
  let ?cmd = "pkt_service_command pkt" let ?reg = "JD_REG_CODE ?cmd"
  consider "img = sn_image s" "r = 0" | d where "reg_find ?reg (sensor_regs k) 0 0 = Some (Some d)" "?reg < 0xf00"
      "JD_IS_GET c ?cmd" "reg_read pkt d ?reg (sn_image s) b = Some (img, b', r)"
    | d where "reg_find ?reg (sensor_regs k) 0 0 = Some (Some d)" "?reg < 0xf00" "pkt_service_size pkt \<noteq> 0"
      "reg_write pkt d ?reg (sn_image s) b = Some (img, b', r)"
  proof (cases "?reg < 0xf00")
    case True
    let ?d = "if ?reg = REG_STREAMING_SAMPLES k then Some (1 :: nat, 1 :: nat, 6 :: nat, 0 :: nat) else if ?reg = REG_STREAMING_INTERVAL k then Some (5, 4, 8, 0) else None"
    from sensor_reg_find [OF assms(1) True] have find: "reg_find ?reg (sensor_regs k) 0 0 = Some ?d" .
    show ?thesis
    proof (cases ?d)
      case None
      then show ?thesis using that(1) assms(3) unfolding service_handle_register_def Let_def find by (simp split: if_splits)
    next
      case (Some d)
      then show ?thesis using that(1) that(2) [of d] that(3) [of d] True assms(3) unfolding service_handle_register_def Let_def find
        by (simp split: if_splits)
    qed
  next
    case False
    then show ?thesis using that(1) assms(3) by (simp add: service_handle_register_def Let_def split: if_splits)
  qed
  then show ?thesis
  proof cases
    case 1
    then show ?thesis using same sn_from_own_image [OF assms(2)] by simp
  next
    case (2 d)
    then have "img = sn_image s" "r \<le> 0" by (auto simp: reg_read_def bind_Some_iff split: if_splits prod.splits)
    then show ?thesis using same sn_from_own_image [OF assms(2)] by simp
  next
    case (3 d)
    note find = sensor_reg_find [OF assms(1) 3(2)]
    show ?thesis
    proof (cases "?reg = REG_STREAMING_SAMPLES k")
      case True
      then have "d = (1, 1, 6, 0)" using 3(1) find by simp
      then obtain v where v: "img = patch (sn_image s) 6 v" "length v = 1" "r = int (REG_STREAMING_SAMPLES k)"
        using 3(3,4) True by (auto simp: reg_write_def reg_types Let_def bind_Some_iff rd_mem_Some_iff wr_mem_Some_iff)
      obtain x where "v = [x]" using v(2) by (cases v) auto
      then have "sn_from_image img s = s\<lparr>streaming_samples := unat x\<rparr>" using v(1) by (simp add: sn_from_image_def patch_def nth_append)
      then show ?thesis using samples unat_byte_lt v(3) by blast
    next
      case False
      then have d: "d = (5, 4, 8, 0)" "?reg = REG_STREAMING_INTERVAL k" using 3(1) find by (auto split: if_splits)
      then have "img ! 6 = sn_image s ! 6" "r = int (REG_STREAMING_INTERVAL k)"
        using 3(4) by (auto simp: reg_write_def reg_types Let_def bind_Some_iff wr_mem_Some_iff nth_patch_disjoint split: if_splits)
      then have "sn_from_image img s = s\<lparr>streaming_interval := le_word (take 4 (drop 8 img))\<rparr>"
        using assms(2) by (simp add: sn_from_image_def unat_of_nat_byte)
      then show ?thesis using interval \<open>r = int (REG_STREAMING_INTERVAL k)\<close> by blast
    qed
  qed
qed

text \<open>The operations of the framework as steps.\<close>

inductive sensor_step ::
  "sys_consts \<Rightarrow> sensor_codes \<Rightarrow> 'h sensor_api option \<Rightarrow> sensor \<times> 'h world \<Rightarrow> sensor \<times> 'h world \<Rightarrow> bool"
  for c k api where
  packet: "sensor_handle_packet c k api pkt s w = Some (s', w', r) \<Longrightarrow> sensor_step c k api (s, w) (s', w')"
| reading: "sensor_get_reading k api s w = Some (s', w', r) \<Longrightarrow> sensor_step c k api (s, w) (s', w')"
| maybe_init: "sensor_maybe_init k api s w = Some (s', w', r) \<Longrightarrow> sensor_step c k api (s, w) (s', w')"
| query: "sensor_step c k api (s, w) (s\<lparr>got_query := True\<rparr>, w)"
| stream: "sensor_should_stream (world_now w) s = (s', r) \<Longrightarrow> sensor_step c k api (s, w) (s', w)"
| elsewhere: "sensor_step c k api (s, w) (s, w')"

inductive_cases sensor_stepE: "sensor_step c k api (s, w) (s', w')"

lemma sensor_written_ok:
  assumes "sensor_inv s" "x < 256"
  shows "sensor_inv (sensor_written k now (int (REG_STREAMING_SAMPLES k)) (s\<lparr>streaming_samples := x\<rparr>))"
    "REG_STREAMING_SAMPLES k \<noteq> REG_STREAMING_INTERVAL k \<Longrightarrow>
      sensor_inv (sensor_written k now (int (REG_STREAMING_INTERVAL k)) (s\<lparr>streaming_interval := y\<rparr>))"
  using assms by (auto simp: sensor_written_def sensor_inv_def Let_def not_less)

lemma get_status_cong:
  "jd_inited s' = jd_inited s \<Longrightarrow> got_reading s' = got_reading s \<Longrightarrow> get_status_code k s' = get_status_code k s"
  by (simp add: get_status_code_def)

lemma set_intensity_keeps:
  assumes "sensor_set_intensity k api pkt s w = Some (s', w')" "sensor_inv s"
  shows "sensor_inv s' \<and> announced k s s' w'"
  using assms by (auto simp: sensor_set_intensity_def Let_def bind_Some_iff sensor_inv_def announced_def
    split: if_splits option.splits intro: get_status_cong)

lemma written_status: "get_status_code k (sensor_written k' now r s) = get_status_code k s"
  by (auto simp: sensor_written_def Let_def intro!: get_status_cong)

lemma handle_packet_cases:
  assumes "sensor_handle_packet c k api pkt s w = Some (s', w', r)"
  shows "s' = s \<or> sensor_set_intensity k api pkt s w = Some (s', w') \<or>
    (\<exists>img b. service_handle_register c (sn_image s) pkt (sensor_regs k) (wd_bus w) = Some (img, b, r) \<and>
      s' = sensor_written k (world_now w) r (sn_from_image img s))"
proof -
  let ?cmd = "pkt_service_command pkt"
  let ?a = "?cmd = JD_GET c (REG_INTENSITY k)" and ?b = "?cmd = JD_GET c (REG_STATUS_CODE k)" and ?c = "?cmd = JD_GET c (REG_READING_RANGE k)"
    and ?d = "?cmd = JD_SET c (REG_READING_RANGE k)" and ?e = "?cmd = JD_GET c (REG_SUPPORTED_RANGES k)" and ?f = "?cmd = JD_SET c (REG_INTENSITY k)"
  consider ?a | "\<not> ?a" ?b | "\<not> ?a" "\<not> ?b" ?c | "\<not> ?a" "\<not> ?b" "\<not> ?c" ?d | "\<not> ?a" "\<not> ?b" "\<not> ?c" "\<not> ?d" ?e
    | "\<not> ?a" "\<not> ?b" "\<not> ?c" "\<not> ?d" "\<not> ?e" ?f | "\<not> ?a" "\<not> ?b" "\<not> ?c" "\<not> ?d" "\<not> ?e" "\<not> ?f" by argo
  then show ?thesis
    by cases (use assms in \<open>auto simp: sensor_handle_packet_def Let_def bind_Some_iff case_prod_unfold split: option.splits\<close>)
qed

lemma handle_packet_keeps:
  assumes "sensor_codes_ok c k" "sensor_handle_packet c k api pkt s w = Some (s', w', r)" "sensor_inv s"
  shows "sensor_inv s' \<and> announced k s s' w'"
proof -
  consider "s' = s" | "sensor_set_intensity k api pkt s w = Some (s', w')"
    | img b where "service_handle_register c (sn_image s) pkt (sensor_regs k) (wd_bus w) = Some (img, b, r)"
        "s' = sensor_written k (world_now w) r (sn_from_image img s)"
    using handle_packet_cases [OF assms(2)] by blast
  then show ?thesis
  proof cases
    case 1
    then show ?thesis using assms(3) by (simp add: announced_def)
  next
    case 2
    then show ?thesis using set_intensity_keeps assms(3) by blast
  next
    case (3 img b)
    have n: "streaming_samples s < 256" "REG_STREAMING_SAMPLES k \<noteq> REG_STREAMING_INTERVAL k" "0 < REG_STREAMING_SAMPLES k" "0 < REG_STREAMING_INTERVAL k"
      using assms(1,3) by (simp_all add: sensor_inv_def sensor_codes_ok_def)
    have "get_status_code k s' = get_status_code k s" unfolding 3(2) written_status by (simp add: get_status_code_def sn_from_image_def)
    moreover have "sensor_inv s'"
      using assms(1) n(1) 3(1)
    proof (cases rule: sensor_register)
      case same
      then have "s' = s" using 3(2) n(3,4) by (simp add: sensor_written_def)
      then show ?thesis using assms(3) by simp
    qed (use 3(2) sensor_written_ok [OF assms(3)] n in simp_all)
    ultimately show ?thesis by (simp add: announced_def)
  qed
qed

lemma get_reading_keeps:
  assumes "sensor_get_reading k api s w = Some (s', w', r)" "sensor_inv s"
  shows "sensor_inv s' \<and> announced k s s' w'"
  using assms by (auto simp: sensor_get_reading_def Let_def bind_Some_iff sensor_inv_def announced_def split: if_splits prod.splits)

lemma maybe_init_keeps:
  assumes "sensor_maybe_init k api s w = Some (s', w', r)" "sensor_inv s"
  shows "sensor_inv s' \<and> announced k s s' w'"
  using assms by (auto simp: sensor_maybe_init_def Let_def bind_Some_iff sensor_inv_def announced_def split: if_splits prod.splits option.splits)

lemma should_stream_keeps:
  assumes "sensor_should_stream now s = (s', r)" "sensor_inv s"
  shows "sensor_inv s' \<and> get_status_code k s' = get_status_code k s"
  using assms by (auto simp: sensor_should_stream_def Let_def sensor_inv_def get_status_code_def split: if_splits prod.splits)

lemma sensor_step_keeps:
  assumes "sensor_codes_ok c k" "sensor_step c k api (s, w) (s', w')" "sensor_inv s"
  shows "sensor_inv s' \<and> announced k s s' w'"
  using assms(2)
proof (rule sensor_stepE, goal_cases)
  case 1
  then show ?thesis using handle_packet_keeps assms(1,3) by blast
next
  case 2
  then show ?thesis using get_reading_keeps assms(3) by blast
next
  case 3
  then show ?thesis using maybe_init_keeps assms(3) by blast
next
  case 4
  then show ?thesis using assms(3) by (simp add: sensor_inv_def announced_def get_status_code_def)
next
  case 5
  then show ?thesis using should_stream_keeps [of _ s s' _ k] assms(3) by (auto simp: announced_def)
next
  case 6
  then show ?thesis using assms(3) by (simp add: announced_def)
qed

text \<open>C23: Clients always know the state of a sensor.  From start-up on, through every sequence of packets, readings, initializations
  and streaming, a sensor that has a reading is initialized, its streaming interval stays in its bounds, and every step that
  changes the status of the sensor ends with the event that reports the new status.\<close>

theorem sensor_status_announced:
  assumes "sensor_codes_ok c k" "(sensor_step c k api)\<^sup>*\<^sup>* (sensor_new i, w0) (s, w)" "sensor_step c k api (s, w) (s', w')"
  shows "sensor_inv s' \<and> (get_status_code k s' \<noteq> get_status_code k s \<longrightarrow> (\<exists>w1. sensor_send_status k s' w1 = Some w'))"
proof -
  have "sensor_inv (fst (s, w))" using assms(2)
  proof (induction rule: rtranclp_induct)
    case base
    then show ?case by (simp add: sensor_inv_def sensor_new_def)
  next
    case (step x y)
    then show ?case using sensor_step_keeps [OF assms(1), of api "fst x" "snd x" "fst y" "snd y"] by simp
  qed
  then show ?thesis using sensor_step_keeps [OF assms(1,3)] by (auto simp: announced_def)
qed

section \<open>Interpolation\<close>

text \<open>A table of points and errors, and the interpolation on it.\<close>

definition error_table :: "(int \<times> int) list \<Rightarrow> int list" where
  "error_table ps = concat (map (\<lambda>(x, e). [x, e]) ps) @ [-1, -1]"

fun interpolate :: "int \<Rightarrow> int \<Rightarrow> int \<Rightarrow> (int \<times> int) list \<Rightarrow> int" where
  "interpolate v p e [] = e"
| "interpolate v p e ((q, f) # ps) = (if v \<le> q then (v - p) * (f - e) sdiv (q - p) + e else interpolate v q f ps)"

text \<open>The points ascend and the products stay in 32 bits.\<close>

fun points_ok :: "int \<Rightarrow> int \<Rightarrow> (int \<times> int) list \<Rightarrow> bool" where
  "points_ok p e [] \<longleftrightarrow> \<bar>e\<bar> < 2 ^ 30"
| "points_ok p e ((q, f) # ps) \<longleftrightarrow> p < q \<and> q - p < 2 ^ 31 \<and> (q \<noteq> -1 \<or> f \<noteq> -1) \<and> \<bar>e\<bar> < 2 ^ 30 \<and>
     (q - p) * \<bar>f - e\<bar> < 2 ^ 31 \<and> points_ok q f ps"

lemma sdiv_part:
  fixes d :: int
  assumes "0 \<le> pos" "pos \<le> sz" "0 < sz"
  shows "min 0 d \<le> pos * d sdiv sz" "pos * d sdiv sz \<le> max 0 d"
proof -
  have b: "0 \<le> pos * \<bar>d\<bar> div sz" "pos * \<bar>d\<bar> div sz \<le> \<bar>d\<bar>"
    using assms zdiv_mono1 [of "pos * \<bar>d\<bar>" "sz * \<bar>d\<bar>" sz] by (simp_all add: pos_imp_zdiv_nonneg_iff mult_right_mono)
  have "pos * d sdiv sz = sgn d * (pos * \<bar>d\<bar> div sz)"
    using assms by (cases "pos = 0") (simp_all add: signed_divide_int_def sgn_mult abs_mult)
  then show "min 0 d \<le> pos * d sdiv sz" "pos * d sdiv sz \<le> max 0 d" using b by (auto simp: sgn_if)
qed

lemma sdiv_full: "0 < (sz :: int) \<Longrightarrow> sz * d sdiv sz = d"
  by (simp add: signed_divide_int_def sgn_mult abs_mult) (metis abs_sgn mult.commute mult_sgn_abs)

lemma int32_abs: "\<bar>x\<bar> < 2 ^ 31 \<Longrightarrow> int32 x = Some x"
  by (auto simp: int32_def)

lemma error_scan_interpolates:
  assumes "points_ok p e ps" "p \<le> v"
  shows "error_scan v (pre @ [p, e] @ error_table ps) p (length pre + 2) = Some (interpolate v p e ps)"
  using assms
proof (induction ps arbitrary: pre p e)
  case Nil
  then show ?case by (subst error_scan.simps) (simp add: error_table_def nth_append)
next
  case (Cons r ps)
  obtain q f where r: "r = (q, f)" by (cases r)
  have pt: "p < q" "q - p < 2 ^ 31" "q \<noteq> -1 \<or> f \<noteq> -1" "\<bar>e\<bar> < 2 ^ 30" "(q - p) * \<bar>f - e\<bar> < 2 ^ 31" "points_ok q f ps"
    using Cons.prems(1) r by auto
  have t: "error_table (r # ps) = [q, f] @ error_table ps" by (simp add: error_table_def r)
  have f: "\<bar>f\<bar> < 2 ^ 30" using pt(6) by (cases ps) auto
  show ?case
  proof (cases "v \<le> q")
    case True
    have "\<bar>(v - p) * (f - e)\<bar> \<le> (q - p) * \<bar>f - e\<bar>" using True Cons.prems(2) by (simp add: abs_mult mult_right_mono)
    then have "int32 ((v - p) * (f - e)) = Some ((v - p) * (f - e))" using pt(5) by (intro int32_abs) linarith
    moreover have "\<bar>(v - p) * (f - e) sdiv (q - p)\<bar> \<le> \<bar>f - e\<bar>"
      using sdiv_part [of "v - p" "q - p" "f - e"] True Cons.prems(2) pt(1) by auto
    then have "int32 ((v - p) * (f - e) sdiv (q - p) + e) = Some ((v - p) * (f - e) sdiv (q - p) + e)"
      using sdiv_part [of "v - p" "q - p" "f - e"] True Cons.prems(2) pt(1,4) f by (auto simp: int32_def)
    moreover have "int32 (q - p) = Some (q - p)" "int32 (v - p) = Some (v - p)" "int32 (f - e) = Some (f - e)"
      using pt(1,2,4) f True Cons.prems(2) by (auto simp: int32_def)
    ultimately show ?thesis using True pt(1,3) unfolding t by (subst error_scan.simps) (auto simp: r nth_append)
  next
    case False
    have "error_scan v (pre @ [p, e] @ error_table (r # ps)) p (length pre + 2) =
        error_scan v ((pre @ [p, e]) @ [q, f] @ error_table ps) q (length (pre @ [p, e]) + 2)"
      using False pt(3) unfolding t by (subst error_scan.simps) (auto simp: nth_append)
    then show ?thesis using Cons.IH [OF pt(6), of "pre @ [p, e]"] False r by simp
  qed
qed

lemma interpolate_bounds:
  assumes "points_ok p e ps" "p \<le> v" "\<forall>(x, y) \<in> set ((p, e) # ps). lo \<le> y \<and> y \<le> hi"
  shows "lo \<le> interpolate v p e ps \<and> interpolate v p e ps \<le> hi"
  using assms
proof (induction v p e ps rule: interpolate.induct)
  case (2 v p e q f ps)
  show ?case
  proof (cases "v \<le> q")
    case True
    then show ?thesis using sdiv_part [of "v - p" "q - p" "f - e"] 2(2-4) by (auto simp: min_def max_def split: if_splits)
  qed (use 2 in auto)
qed simp

lemma interpolate_point:
  assumes "points_ok p e ps" "(x, y) \<in> set ((p, e) # ps)"
  shows "interpolate x p e ps = y \<and> p \<le> x"
  using assms
proof (induction ps arbitrary: p e)
  case (Cons r ps)
  obtain q f where r: "r = (q, f)" by (cases r)
  show ?case
  proof (cases "(x, y) = (p, e)")
    case True
    then show ?thesis using Cons.prems(1) r by (simp add: signed_divide_int_def)
  next
    case False
    then have q: "interpolate x q f ps = y" "q \<le> x" using Cons.IH [of q f] Cons.prems r by auto
    moreover have "interpolate x p e (r # ps) = interpolate x q f ps" if "x \<le> q"
    proof -
      have "x = q" using that q by simp
      moreover have "interpolate q q f ps = f" using Cons.prems(1) r by (cases ps) (auto simp: signed_divide_int_def)
      ultimately show ?thesis using Cons.prems(1) r sdiv_full [of "q - p" "f - e"] by simp
    qed
    ultimately show ?thesis using Cons.prems(1) r by auto
  qed
qed simp

text \<open>C26: \<open>env_extrapolate_error\<close> interpolates.  On a table with ascending points whose differences multiply within 32 bits it
  returns for every value, with the first error below the first point and the interpolation between neighbours otherwise; the
  result is within the bounds of the errors of the table, and at a point of the table it is the error of that point.\<close>

theorem extrapolate_error_interpolates:
  assumes "points_ok p e ps"
  shows "\<exists>r. env_extrapolate_error v (error_table ((p, e) # ps)) = Some r \<and>
    r = (if v < p then e else interpolate v p e ps) \<and>
    (\<forall>lo hi. (\<forall>(x, y) \<in> set ((p, e) # ps). lo \<le> y \<and> y \<le> hi) \<longrightarrow> lo \<le> r \<and> r \<le> hi) \<and>
    (\<forall>y. (v, y) \<in> set ((p, e) # ps) \<longrightarrow> r = y)"
proof -
  let ?r = "if v < p then e else interpolate v p e ps"
  have "env_extrapolate_error v (error_table ((p, e) # ps)) = Some ?r"
    using error_scan_interpolates [OF assms, of v "[]"] by (auto simp: env_extrapolate_error_def table_at_def error_table_def numeral_2_eq_2)
  moreover have "lo \<le> ?r \<and> ?r \<le> hi" if "\<forall>(x, y) \<in> set ((p, e) # ps). lo \<le> y \<and> y \<le> hi" for lo hi
    using interpolate_bounds [OF assms _ that, of v] that by auto
  moreover have "?r = y" if "(v, y) \<in> set ((p, e) # ps)" for y using interpolate_point [OF assms that] by simp
  ultimately show ?thesis by blast
qed

theorem extrapolate_error_interpolates_witness:
  "env_extrapolate_error 15 (error_table [(0, 10), (20, 30), (40, -30)]) = Some 25"
proof -
  have "points_ok 0 10 [(20, 30), (40, -30)]" by simp
  then show ?thesis using extrapolate_error_interpolates [of 0 10 "[(20, 30), (40, -30)]" 15] by (auto simp: signed_divide_int_def)
qed

definition abs_hum_points :: "(int \<times> int) list" where
  "abs_hum_points = [(-25600, 614), (-20480, 921), (-15360, 1638), (-10240, 2355), (-5120, 3481), (0, 4915), (5120, 6963), (10240, 9625),
     (15360, 13107), (20480, 17715), (25600, 23552), (30720, 31129), (35840, 40550), (40960, 52326), (46080, 66969), (51200, 84992)]"

lemma abs_hum_table: "abs_hum = error_table abs_hum_points"
  by (simp add: abs_hum_def error_table_def abs_hum_points_def)

lemma abs_hum_eq: "env_extrapolate_error v abs_hum = Some (if v < -25600 then 614 else interpolate v (-25600) 614 (tl abs_hum_points))"
proof -
  have ok: "points_ok (-25600) 614 (tl abs_hum_points)" by (simp add: abs_hum_points_def)
  have t: "abs_hum = [] @ [-25600, 614] @ error_table (tl abs_hum_points)" by (simp add: abs_hum_def error_table_def abs_hum_points_def)
  show ?thesis
    using error_scan_interpolates [OF ok, of v "[]"] unfolding t by (auto simp: env_extrapolate_error_def table_at_def numeral_2_eq_2)
qed

lemma sdiv_nonneg: "0 \<le> (a :: int) \<Longrightarrow> 0 < b \<Longrightarrow> a sdiv b = a div b"
  by (cases "a = 0") (simp_all add: signed_divide_int_def)

lemma absolute_humidity_cool:
  assumes "temp \<le> 20480" "0 \<le> humidity" "humidity \<le> 102400"
  shows "\<exists>m. env_extrapolate_error temp abs_hum = Some m \<and> 0 \<le> m \<and> m \<le> 17715 \<and>
    env_absolute_humidity temp humidity = Some (m * humidity div 102400)"
proof -
  define m where "m = (if temp < -25600 then 614 else interpolate temp (-25600) 614 (tl abs_hum_points))"
  let ?low = "[(-20480, 921), (-15360, 1638), (-10240, 2355), (-5120, 3481), (0, 4915), (5120, 6963), (10240, 9625), (15360, 13107), (20480, 17715)] :: (int \<times> int) list"
  have "interpolate temp (-25600) 614 (tl abs_hum_points) = interpolate temp (-25600) 614 ?low"
    using assms(1) by (simp add: abs_hum_points_def)
  then have m: "0 \<le> m" "m \<le> 17715" using interpolate_bounds [of "-25600" 614 ?low temp 0 17715] by (auto simp: m_def)
  have "m * humidity \<le> 17715 * 102400" using m assms(2,3) by (intro mult_mono) auto
  moreover have nn: "0 \<le> m * humidity" using m(1) assms(2) by (rule mult_nonneg_nonneg)
  ultimately have fits: "int32 (m * humidity) = Some (m * humidity)" by (intro int32_abs) simp
  have "m * humidity sdiv 100 div 1024 = m * humidity div 102400"
    using sdiv_nonneg [OF nn, of 100] zdiv_zmult2_eq [of 1024 "m * humidity" 100] by simp
  then show ?thesis using fits m by (intro exI [of _ m]) (simp add: env_absolute_humidity_def abs_hum_eq m_def [symmetric])
qed

text \<open>\<open>env_absolute_humidity\<close> multiplies two numbers with ten fractional bits each in 32 bits: from 25 degrees on the product for
  a humidity of 100 percent overflows.\<close>

theorem absolute_humidity_overflow:
  assumes "25600 \<le> temp"
  shows "env_absolute_humidity temp 102400 = None"
proof -
  let ?high = "[(30720, 31129), (35840, 40550), (40960, 52326), (46080, 66969), (51200, 84992)] :: (int \<times> int) list"
  let ?m = "interpolate temp (-25600) 614 (tl abs_hum_points)"
  have "?m = (if temp \<le> 25600 then 23552 else interpolate temp 25600 23552 ?high)"
    using assms by (simp add: abs_hum_points_def signed_divide_int_def)
  moreover have "23552 \<le> interpolate temp 25600 23552 ?high" using interpolate_bounds [of 25600 23552 ?high temp 23552 84992] assms by simp
  ultimately have m: "23552 \<le> ?m" by simp
  have "23552 * 102400 \<le> ?m * 102400" using m by simp
  then have "int32 (?m * 102400) = None" by (simp add: int32_def)
  then show ?thesis using assms by (simp add: env_absolute_humidity_def abs_hum_eq)
qed

theorem absolute_humidity_overflow_witness: "env_absolute_humidity 30720 102400 = None"
  using absolute_humidity_overflow [of 30720] by simp

section \<open>Buttons\<close>

fun button_run :: "(32 word \<times> bool) list \<Rightarrow> button \<Rightarrow> button_event list" where
  "button_run [] b = []"
| "button_run ((t, on) # ps) b = (case button_changes t (of_bool on) b of (b, es) \<Rightarrow> es @ button_run ps b)"

text \<open>Presses and releases alternate, and the \<open>n\<close>-th hold event of a press reports at least \<open>n\<close> half seconds.\<close>

fun presses_ok :: "bool \<Rightarrow> nat \<Rightarrow> button_event list \<Rightarrow> bool" where
  "presses_ok down n [] \<longleftrightarrow> True"
| "presses_ok down n (Down # es) \<longleftrightarrow> \<not> down \<and> presses_ok True 0 es"
| "presses_ok down n (Up _ # es) \<longleftrightarrow> down \<and> presses_ok False 0 es"
| "presses_ok down n (Hold l # es) \<longleftrightarrow> down \<and> 500 * (n + 1) \<le> unat l \<and> presses_ok True (n + 1) es"

definition button_rep :: "bool \<Rightarrow> nat \<Rightarrow> button \<Rightarrow> bool" where
  "button_rep down n b \<longleftrightarrow> prev_pressed b = of_bool down \<and> (down \<longrightarrow> unat (next_hold b) = 500000 * (n + 1))"

lemma next_hold_step: "unat (h :: 32 word) = 500000 * (n + 1) \<Longrightarrow> n < 8000 \<Longrightarrow> unat (h + 500000) = 500000 * (n + 2)"
  by (simp add: unat_plus_32)

lemma hold_length: "(h :: 32 word) \<le> l \<Longrightarrow> unat h = 500000 * (n + 1) \<Longrightarrow> 500 * (n + 1) \<le> unat (l div 1000)"
  using div_le_mono [of "unat h" "unat l" 1000] by (simp add: word_le_nat_alt unat_div)

lemma button_run_ok:
  assumes "button_rep down n b" "n + length ps < 8000"
  shows "presses_ok down n (button_run ps b)"
  using assms
proof (induction ps arbitrary: b down n)
  case (Cons p ps)
  obtain t on where p: "p = (t, on)" by (cases p)
  show ?case
  proof (cases "on = down")
    case True
    show ?thesis
    proof (cases "down \<and> next_hold b \<le> t - press_time b")
      case True
      let ?b = "b\<lparr>bt_pressed := 1, next_hold := next_hold b + 500000\<rparr>"
      have "button_changes t (of_bool on) b = (?b, [Hold ((t - press_time b) div 1000)])"
        using True \<open>on = down\<close> Cons.prems(1) by (simp add: button_changes_def button_rep_def Let_def)
      moreover have "button_rep True (n + 1) ?b" using Cons.prems True next_hold_step [of "next_hold b" n] by (simp add: button_rep_def)
      ultimately show ?thesis using Cons.IH [of True "n + 1" ?b] Cons.prems True p hold_length [of "next_hold b" "t - press_time b" n]
        by (simp add: button_rep_def)
    next
      case False
      then have "button_changes t (of_bool on) b = (b\<lparr>bt_pressed := of_bool on\<rparr>, [])"
        using \<open>on = down\<close> Cons.prems(1) by (auto simp: button_changes_def button_rep_def Let_def)
      then show ?thesis using Cons.IH [of down n "b\<lparr>bt_pressed := of_bool on\<rparr>"] Cons.prems p by (simp add: button_rep_def)
    qed
  next
    case False
    show ?thesis
    proof (cases on)
      case True
      let ?b = "b\<lparr>bt_pressed := 1, prev_pressed := 1, bt_backlight := 1, press_time := t, next_hold := 500000\<rparr>"
      have "button_changes t (of_bool on) b = (?b, [Down])"
        using True False Cons.prems(1) by (simp add: button_changes_def button_rep_def Let_def)
      moreover have "button_rep True 0 ?b" by (simp add: button_rep_def)
      ultimately show ?thesis using Cons.IH [of True 0 ?b] Cons.prems False True p by simp
    next
      case off: False
      let ?b = "b\<lparr>bt_pressed := 0, prev_pressed := 0, bt_backlight := 0\<rparr>"
      have "button_changes t (of_bool on) b = (?b, [Up ((t - press_time b) div 1000)])"
        using off False Cons.prems(1) by (simp add: button_changes_def button_rep_def Let_def)
      moreover have "button_rep False 0 ?b" by (simp add: button_rep_def)
      ultimately show ?thesis using Cons.IH [of False 0 ?b] Cons.prems False off p by simp
    qed
  qed
qed simp

text \<open>The events of a button are well formed.  In every run of fewer than 8000 samples from start-up on, presses and releases
  alternate, beginning with a press, hold events come only while the button is down, and the \<open>n\<close>-th hold event of a press reports
  a time of at least \<open>n\<close> half seconds.\<close>

theorem button_events_ok:
  assumes "length ps < 8000"
  shows "presses_ok False 0 (button_run ps (button_new i))"
  using button_run_ok [of False 0 "button_new i" ps] assms by (simp add: button_rep_def button_new_def)

section \<open>Examples\<close>

definition sample_sensor_codes :: sensor_codes where
  "sample_sensor_codes = \<lparr>REG_STREAMING_SAMPLES = 3, REG_STREAMING_INTERVAL = 4, REG_INTENSITY = 1, REG_STATUS_CODE = 0x103,
     REG_READING_RANGE = 8, REG_SUPPORTED_RANGES = 0x10a, REG_READING = 0x101, REG_READING_ERROR = 0x106, REG_MIN_READING = 0x104,
     REG_MAX_READING = 0x105, EV_STATUS_CODE_CHANGED = 4, ST_SLEEPING = 3, ST_INITIALIZING = 1, ST_READY = 0, EV_QUEUE_SIZE = 128\<rparr>"

definition sample_world :: "unit world" where
  "sample_world = \<lparr>wd_hw = (), wd_events = \<lparr>ev_buffer = None, qptr = 0, ev_counter = 0\<rparr>, wd_bus = bus_init 7 1 64 64 False 64\<rparr>"

lemma sample_init_event: "sensor_send_status sample_sensor_codes ((sensor_new 1)\<lparr>got_query := True, jd_inited := True, got_reading := True\<rparr>) sample_world \<noteq> None"
  by code_simp

theorem lookup_range_closest_witness:
  "sensor_lookup_range [\<lparr>sr_range = 2, sr_config = 0, sr_scale = 1\<rparr>, \<lparr>sr_range = 4, sr_config = 8, sr_scale = 2\<rparr>,
     \<lparr>sr_range = 8, sr_config = 16, sr_scale = 4\<rparr>, \<lparr>sr_range = 0, sr_config = 0, sr_scale = 0\<rparr>] 3 = Some 1"
proof -
  let ?rs = "[\<lparr>sr_range = 2, sr_config = 0, sr_scale = 1\<rparr>, \<lparr>sr_range = 4, sr_config = 8, sr_scale = 2\<rparr>, \<lparr>sr_range = 8, sr_config = 16, sr_scale = 4\<rparr>]"
  obtain i where i: "i < 3" "sensor_lookup_range (?rs @ \<lparr>sr_range = 0, sr_config = 0, sr_scale = 0\<rparr> # []) 3 = Some (int i)"
      "\<forall>j < length ?rs. 3 \<le> sr_range (?rs ! j) \<longrightarrow> 3 \<le> sr_range (?rs ! i) \<and> sr_range (?rs ! i) \<le> sr_range (?rs ! j)"
    using lookup_range_closest [of ?rs "\<lparr>sr_range = 0, sr_config = 0, sr_scale = 0\<rparr>" "[]" 3] by auto
  have "i = 0 \<or> i = 1 \<or> i = 2" using i(1) by auto
  then show ?thesis using i(2) i(3) [rule_format, of 1] by auto
qed

definition asked_sensor :: sensor where
  "asked_sensor = (sensor_new 1)\<lparr>streaming_samples := 2\<rparr>"


theorem threshold_debounced_witness:
  "threshold_run 1 0 [(10, True), (2000, False), (3000, True)] = [True, False, True] \<and>
   (\<exists>l m. 0 < l \<and> l \<le> m \<and> m < 2 \<and> in_past (fst ([(10, True), (2000, False), (3000, True)] ! l)) (10 + push_bit 10 1) \<and>
     \<not> snd ([(10 :: 32 word, True), (2000, False), (3000, True)] ! m))"
proof -
  have run: "threshold_run 1 0 [(10, True), (2000, False), (3000, True)] = [True, False, True]"
    by (simp add: sensor_should_send_threshold_event_def in_past_def is_before_def push_bit_eq_mult)
  then show ?thesis using threshold_debounced [of "[(10, True), (2000, False), (3000, True)]" 1 0 2 0] by (simp add: push_bit_eq_mult)
qed

theorem button_events_ok_witness:
  "button_run [(0, False), (9000, True), (600000, True), (700000, False)] (button_new 1) = [Down, Hold 591, Up 691] \<and>
   presses_ok False 0 [Down, Hold 591, Up 691]"
proof -
  have run: "button_run [(0, False), (9000, True), (600000, True), (700000, False)] (button_new 1) = [Down, Hold 591, Up 691]"
    by (simp add: button_changes_def button_new_def Let_def)
  then show ?thesis using button_events_ok [of "[(0, False), (9000, True), (600000, True), (700000, False)]" 1] by simp
qed

theorem sensor_status_announced_witness:
  "\<exists>s w. sensor_step sample_sys sample_sensor_codes None ((sensor_new 1)\<lparr>got_query := True\<rparr>, sample_world) (s, w) \<and>
     get_status_code sample_sensor_codes s = 0 \<and> (\<exists>w1. sensor_send_status sample_sensor_codes s w1 = Some w)"
proof -
  let ?c = sample_sys and ?k = sample_sensor_codes
  let ?s = "(sensor_new 1)\<lparr>got_query := True, jd_inited := True, got_reading := True\<rparr>"
  obtain w where w: "sensor_send_status ?k ?s sample_world = Some w" using sample_init_event by blast
  then have "sensor_maybe_init ?k None ((sensor_new 1)\<lparr>got_query := True\<rparr>) sample_world = Some (?s, w, True)"
    by (simp add: sensor_maybe_init_def sensor_new_def)
  then have step: "sensor_step ?c ?k None ((sensor_new 1)\<lparr>got_query := True\<rparr>, sample_world) (?s, w)" by (rule sensor_step.maybe_init)
  have ok: "sensor_codes_ok ?c ?k" using sample_sys_ok by (simp add: sensor_codes_ok_def sample_sensor_codes_def)
  have "(sensor_step ?c ?k None)\<^sup>*\<^sup>* (sensor_new 1, sample_world) ((sensor_new 1)\<lparr>got_query := True\<rparr>, sample_world)"
    by (rule r_into_rtranclp, rule sensor_step.query)
  from sensor_status_announced [OF ok this step] step show ?thesis
    by (intro exI [of _ ?s] exI [of _ w]) (auto simp: get_status_code_def sensor_new_def sample_sensor_codes_def)
qed

text \<open>A service without a driver dereferences the null pointer when it is asked for its range.\<close>

lemma range_query_null_api:
  assumes "pkt_service_command pkt = JD_GET c (REG_READING_RANGE k)" "REG_READING_RANGE k < 4096" "sys_consts_ok c"
    "REG_INTENSITY k < 4096" "REG_STATUS_CODE k < 4096" "distinct [REG_INTENSITY k, REG_STATUS_CODE k, REG_READING_RANGE k]"
  shows "sensor_handle_packet c k None pkt s w = None"
  using assms or_reg(1) [of "CMD_GET_REGISTER c"] by (simp add: sensor_handle_packet_def JD_GET_def sys_consts_ok_def)

end
