(* ===== verification/Jd_Power.thy ===== *)
theory Jd_Power
  imports Jd_Sensor
begin

text \<open>
  The power service, services/power.c: the limiter that feeds the bus, its reaction to overload and to other power supplies, and
  the pulses that keep battery packs awake.  The build with \<open>JD_RAW_FRAME\<close> and \<open>JD_DCFG\<close> is modelled.  Pins are part of the
  hardware state; the levels that are read are the record \<open>power_in\<close>.  The codes of jacdac/dist/c are the record \<open>power_codes\<close>.
\<close>

section \<open>Data\<close>

record power_config =
  pin_fault :: nat
  pin_en :: nat
  pin_pulse :: nat
  en_active_high :: nat
  fault_ignore_ms :: nat

record power =
  pw_index :: nat
  allowed :: nat
  power_status :: nat
  max_power :: nat
  pulse_duration :: nat
  pulse_period :: "32 word"
  prev_power_status :: nat
  hw_watchdog_pulse_status :: bool
  led_pulse_pin :: nat
  det_pin :: nat
  next_shutdown :: "32 word"
  last_pulse :: "32 word"
  next_leds :: "32 word"
  power_switch_time :: "32 word"
  power_on_complete :: "32 word"
  re_enable :: "32 word"
  hw_watchdog_pulse :: "32 word"
  led_pulse_on :: "32 word"
  led_pulse_off :: "32 word"

record power_codes =
  PWR_DISALLOWED :: nat
  PWR_POWERING :: nat
  PWR_OVERLOAD :: nat
  PWR_OVERPROVISION :: nat
  REG_ALLOWED :: nat
  REG_POWER_STATUS :: nat
  REG_POWER_MAX :: nat
  REG_KEEP_ON_DURATION :: nat
  REG_KEEP_ON_PERIOD :: nat
  CMD_SHUTDOWN :: nat
  EV_POWER_STATUS_CHANGED :: nat
  PWR_EV_QUEUE_SIZE :: nat
  NO_PIN :: nat
  PWR_GLOW :: "nat \<Rightarrow> 32 word"

text \<open>The output latches and directions of the pins, the raw frame of the transport, the status light, the longest sleep.\<close>

record power_hw =
  pin_latch :: "nat \<Rightarrow> nat"
  pin_is_out :: "nat \<Rightarrow> bool"
  rawFrame :: "mem option"
  rawFrameSending :: bool
  hw_glow :: "32 word"
  hw_max_sleep :: "32 word"

record power_in =
  in_fault :: bool
  in_power :: bool

type_synonym pworld = "power_hw world"

definition OVERLOAD_MS :: "32 word" where "OVERLOAD_MS = 2000"

definition MS :: "32 word \<Rightarrow> 32 word" where
  "MS v = push_bit 10 v"

definition shutdown_frame :: mem where
  "shutdown_frame = [0x15, 0x59, 0x04, 0x05, 0x5A, 0xC9, 0xA4, 0x1F, 0xAA, 0xAA, 0xAA, 0xAA, 0x00, 0x3D, 0x80, 0x00]"

definition HW_WATCHDOG :: "power_config \<Rightarrow> bool" where
  "HW_WATCHDOG cfg \<longleftrightarrow> en_active_high cfg = 3"

definition pin_set :: "nat \<Rightarrow> nat \<Rightarrow> power_hw \<Rightarrow> power_hw" where
  "pin_set p v h = h\<lparr>pin_latch := (pin_latch h)(p := v)\<rparr>"

definition pin_dir :: "nat \<Rightarrow> bool \<Rightarrow> power_hw \<Rightarrow> power_hw" where
  "pin_dir p output h = h\<lparr>pin_is_out := (pin_is_out h)(p := output)\<rparr>"

definition upd_hw :: "(power_hw \<Rightarrow> power_hw) \<Rightarrow> pworld \<Rightarrow> pworld" where
  "upd_hw f w = w\<lparr>wd_hw := f (wd_hw w)\<rparr>"

text \<open>\<open>jd_random_around\<close> with the seed in the transport.\<close>

definition random_around :: "32 word \<Rightarrow> pworld \<Rightarrow> 32 word \<times> pworld" where
  "random_around v w =
     (case jd_random_around (rnd_seed (wd_bus w)) v of (r, seed) \<Rightarrow> (r, w\<lparr>wd_bus := (wd_bus w)\<lparr>rnd_seed := seed\<rparr>\<rparr>))"

section \<open>Operations\<close>

definition set_limiter :: "power_codes \<Rightarrow> power_config \<Rightarrow> power \<Rightarrow> power_hw \<Rightarrow> power_hw" where
  "set_limiter k cfg s h =
     (let onoff = (power_status s = PWR_POWERING k) in
      if HW_WATCHDOG cfg then h
      else if en_active_high cfg = 2 then
        (if onoff then
           pin_dir (pin_fault cfg) False (pin_dir (pin_fault cfg) True (pin_set (pin_fault cfg) 1 (pin_set (pin_en cfg) 0 h)))
         else pin_set (pin_en cfg) 1 h)
      else pin_set (pin_en cfg) (of_bool (if en_active_high cfg \<noteq> 0 then onoff else \<not> onoff)) h)"

definition set_leds :: "power_codes \<Rightarrow> power \<Rightarrow> power_hw \<Rightarrow> power_hw" where
  "set_leds k s h = h\<lparr>hw_glow := PWR_GLOW k (power_status s)\<rparr>"

definition shutdown_pending :: "power_hw \<Rightarrow> bool" where
  "shutdown_pending h \<longleftrightarrow> rawFrame h \<noteq> None \<or> rawFrameSending h"

definition send_shutdown :: "pworld \<Rightarrow> pworld" where
  "send_shutdown w = (let w = upd_hw (\<lambda>h. h\<lparr>rawFrame := Some shutdown_frame\<rparr>) w in w\<lparr>wd_bus := jd_packet_ready (wd_bus w)\<rparr>)"

text \<open>The parts of \<open>power_process\<close>, in its order.\<close>

definition power_detect :: "power_codes \<Rightarrow> power_in \<Rightarrow> power \<Rightarrow> power" where
  "power_detect k i s =
     (if \<not> in_power i then (if power_status s = PWR_POWERING k then s\<lparr>power_status := PWR_DISALLOWED k\<rparr> else s)
      else if allowed s \<noteq> 0 \<and> power_status s = PWR_DISALLOWED k then s\<lparr>power_status := PWR_POWERING k\<rparr>
      else s)"

definition power_led_pulse :: "power_codes \<Rightarrow> 32 word \<Rightarrow> power \<Rightarrow> power_hw \<Rightarrow> power \<times> power_hw" where
  "power_led_pulse k now s h =
     (let (due, t) = jd_should_sample now (led_pulse_on s) (push_bit 20 2);
          s = s\<lparr>led_pulse_on := t\<rparr>;
          s = (if due then s\<lparr>led_pulse_off := now + push_bit 10 50\<rparr> else s);
          h = (if due \<and> power_status s = PWR_POWERING k then pin_dir (led_pulse_pin s) True (pin_set (led_pulse_pin s) 0 h) else h)
      in if in_past now (led_pulse_off s)
         then (s\<lparr>led_pulse_off := now + push_bit 20 50\<rparr>, pin_dir (led_pulse_pin s) False h)
         else (s, h))"

definition power_watchdog :: "power_codes \<Rightarrow> power_config \<Rightarrow> 32 word \<Rightarrow> power \<Rightarrow> power_hw \<Rightarrow> power \<times> power_hw" where
  "power_watchdog k cfg now s h =
     (if \<not> HW_WATCHDOG cfg then (s, h)
      else (case jd_should_sample now (hw_watchdog_pulse s) 9500 of (due, t) \<Rightarrow>
        let s = s\<lparr>hw_watchdog_pulse := t\<rparr> in
        if \<not> due then (s, h)
        else if power_status s = PWR_OVERLOAD k \<or> power_status s = PWR_POWERING k
        then (s\<lparr>hw_watchdog_pulse_status := \<not> hw_watchdog_pulse_status s\<rparr>, pin_set (pin_en cfg) (of_bool (hw_watchdog_pulse_status s)) h)
        else (s, pin_set (pin_en cfg) 0 h)))"

definition power_leds :: "power_codes \<Rightarrow> 32 word \<Rightarrow> power \<Rightarrow> power_hw \<Rightarrow> power \<times> power_hw" where
  "power_leds k now s h =
     (case jd_should_sample now (next_leds s) (256 * 1024) of (due, t) \<Rightarrow>
        (s\<lparr>next_leds := t\<rparr>, if due then set_leds k s h else h))"

definition power_keep_on :: "power_config \<Rightarrow> 32 word \<Rightarrow> power \<Rightarrow> power_hw \<Rightarrow> power \<times> power_hw" where
  "power_keep_on cfg now s h =
     (if pulse_period s \<noteq> 0 \<and> pulse_duration s \<noteq> 0 then
        (let pulse_delta = now - last_pulse s;
             again = pulse_delta > pulse_period s * 1000;
             pulse_delta = (if again then 0 else pulse_delta);
             s = (if again then s\<lparr>last_pulse := now\<rparr> else s)
         in (s, pin_set (pin_pulse cfg) (of_bool (pulse_delta < of_nat (pulse_duration s * 1000))) h))
      else (s, h))"

text \<open>The reaction to the status; the flag says that the function returns early.\<close>

definition power_react :: "power_codes \<Rightarrow> power_config \<Rightarrow> power_in \<Rightarrow> power \<Rightarrow> pworld \<Rightarrow> power \<times> pworld \<times> bool" where
  "power_react k cfg i s w =
     (let now = world_now w;
          s = (if HW_WATCHDOG cfg \<and> power_status s = PWR_OVERLOAD k \<and> in_fault i then s\<lparr>power_status := PWR_POWERING k\<rparr> else s)
      in if power_status s = PWR_POWERING k then
           (if prev_power_status s = PWR_POWERING k then
              (if \<not> in_fault i then
                 (let s = s\<lparr>power_status := PWR_OVERLOAD k\<rparr>;
                      (r, w) = random_around (OVERLOAD_MS * 1000) w;
                      s = s\<lparr>re_enable := now + r\<rparr>
                  in (s\<lparr>power_on_complete := 0\<rparr>, upd_hw (set_limiter k cfg s) w, False))
               else (s\<lparr>power_on_complete := 0\<rparr>, w, False))
            else if power_on_complete s = 0 then
              (let t = now + MS (of_nat (if fault_ignore_ms cfg \<noteq> 0 then fault_ignore_ms cfg else 16))
               in (s\<lparr>power_on_complete := if t = 0 then 1 else t\<rparr>, upd_hw (set_limiter k cfg s) w, True))
            else if in_future now (power_on_complete s) then (s, w, True)
            else (s\<lparr>power_on_complete := 0\<rparr>, w, False))
         else (s\<lparr>power_on_complete := 0\<rparr>, if prev_power_status s \<noteq> power_status s then upd_hw (set_limiter k cfg s) w else w, False))"

definition power_report :: "power_codes \<Rightarrow> power \<Rightarrow> pworld \<Rightarrow> (power \<times> pworld) option" where
  "power_report k s w =
     (if prev_power_status s \<noteq> power_status s then do {
        let s = s\<lparr>prev_power_status := power_status s\<rparr>;
        (q, b) \<leftarrow> jd_send_event_ext (PWR_EV_QUEUE_SIZE k) (pw_index s) (EV_POWER_STATUS_CHANGED k) [of_nat (power_status s)] (wd_events w) (wd_bus w);
        Some (s, w\<lparr>wd_events := q, wd_bus := b\<rparr>) }
      else Some (s, w))"

definition power_timers :: "power_codes \<Rightarrow> power \<Rightarrow> pworld \<Rightarrow> power \<times> pworld" where
  "power_timers k s w =
     (let now = world_now w in
      if in_past now (next_shutdown s) then
        (let (r, w) = random_around (MS 512) w;
             s = s\<lparr>next_shutdown := now + r\<rparr>
         in (s, if power_status s = PWR_OVERLOAD k \<or> power_status s = PWR_POWERING k then send_shutdown w else w))
      else if allowed s = 0 then (s, w)
      else if power_status s \<noteq> PWR_POWERING k \<and> in_past now (re_enable s) \<or>
          power_status s = PWR_OVERPROVISION k \<and> in_past now (power_switch_time s)
      then (s\<lparr>re_enable := now + MS (128 * 1024), power_status := PWR_POWERING k, next_shutdown := now\<rparr>, w)
      else (s, w))"

definition power_process :: "power_codes \<Rightarrow> power_config \<Rightarrow> power_in \<Rightarrow> power \<Rightarrow> pworld \<Rightarrow> (power \<times> pworld) option" where
  "power_process k cfg i s w = do {
     let now = world_now w;
     let w = (if en_active_high cfg < 2 then upd_hw (\<lambda>h. h\<lparr>hw_max_sleep := min (hw_max_sleep h) 1000\<rparr>) w else w);
     let s = power_detect k i s;
     let (s, h) = power_led_pulse k now s (wd_hw w);
     let (s, h) = power_watchdog k cfg now s h;
     let (s, h) = power_leds k now s h;
     let (s, h) = power_keep_on cfg now s h;
     let (s, w, early) = power_react k cfg i s (w\<lparr>wd_hw := h\<rparr>);
     if early then Some (s, w)
     else do {
       (s, w) \<leftarrow> power_report k s w;
       Some (power_timers k s w) } }"

definition power_regs :: "power_codes \<Rightarrow> nat list" where
  "power_regs k = [T_REG_BYTES * 4096 + 0xff0, 6, 4096 + REG_ALLOWED k, 4096 + REG_POWER_STATUS k, 3 * 4096 + REG_POWER_MAX k,
     3 * 4096 + REG_KEEP_ON_DURATION k, 5 * 4096 + REG_KEEP_ON_PERIOD k, JD_REG_END]"

definition pw_image :: "power \<Rightarrow> mem" where
  "pw_image s = replicate 4 0 @ [of_nat (pw_index s), 0, of_nat (allowed s), of_nat (power_status s)] @
     le_bytes 2 (of_nat (max_power s) :: 16 word) @ le_bytes 2 (of_nat (pulse_duration s) :: 16 word) @ le_bytes 4 (pulse_period s)"

definition pw_from_image :: "mem \<Rightarrow> power \<Rightarrow> power" where
  "pw_from_image m s = s\<lparr>allowed := unat (m ! 6), power_status := unat (m ! 7), max_power := unat (le_word (take 2 (drop 8 m)) :: 16 word),
     pulse_duration := unat (le_word (take 2 (drop 10 m)) :: 16 word), pulse_period := le_word (take 4 (drop 12 m))\<rparr>"

text \<open>The switch on the register that was written.\<close>

definition power_written :: "power_codes \<Rightarrow> int \<Rightarrow> power \<Rightarrow> power" where
  "power_written k r s =
     (if r = int (REG_ALLOWED k) then s\<lparr>power_status := if allowed s \<noteq> 0 then PWR_POWERING k else PWR_DISALLOWED k\<rparr>
      else if r = int (REG_KEEP_ON_PERIOD k) \<or> r = int (REG_KEEP_ON_DURATION k) then
        (if pulse_period s \<noteq> 0 \<and> pulse_duration s \<noteq> 0 then
           (let s = (if pulse_duration s > 1000 then s\<lparr>pulse_duration := 1000\<rparr> else s)
            in if pulse_period s < of_nat (pulse_duration s * 10) then s\<lparr>pulse_period := of_nat (pulse_duration s * 10)\<rparr> else s)
         else s)
      else s)"

definition power_shutdown :: "power_codes \<Rightarrow> power \<Rightarrow> pworld \<Rightarrow> power \<times> pworld" where
  "power_shutdown k s w =
     (let now = world_now w;
          (s, w) = (if (power_status s = PWR_POWERING k \<or> power_status s = PWR_OVERLOAD k) \<and> \<not> shutdown_pending (wd_hw w) \<and> power_on_complete s = 0
            then (let (r, w) = random_around (MS (8 * 1024)) w
                  in (s\<lparr>power_status := PWR_OVERPROVISION k, power_switch_time := now + r\<rparr>, w))
            else (s, w));
          (r, w) = random_around (MS 256) w
      in (s\<lparr>re_enable := now + MS 1024 + r\<rparr>, w))"

definition power_block :: "sys_consts \<Rightarrow> power_codes \<Rightarrow> power_config \<Rightarrow> jd_frame \<Rightarrow> pworld \<Rightarrow> (pworld \<times> bool) option" where
  "power_block c k cfg pkt w =
     (if pin_pulse cfg = NO_PIN k then do {
        (b, r) \<leftarrow> jd_block_register c pkt (REG_KEEP_ON_DURATION k) (wd_bus w);
        (b, r) \<leftarrow> (if r \<noteq> 0 then Some (b, r) else jd_block_register c pkt (REG_KEEP_ON_PERIOD k) b);
        Some (w\<lparr>wd_bus := b\<rparr>, r \<noteq> 0) }
      else Some (w, False))"

definition power_handle_packet ::
  "sys_consts \<Rightarrow> power_codes \<Rightarrow> power_config \<Rightarrow> jd_frame \<Rightarrow> power \<Rightarrow> pworld \<Rightarrow> (power \<times> pworld) option" where
  "power_handle_packet c k cfg pkt s w =
     (if pkt_service_command pkt = JD_SET c (REG_POWER_MAX k) then Some (s, w)
      else if pkt_service_command pkt = CMD_SHUTDOWN k then
        (if flag_set pkt JD_FRAME_FLAG_LOOPBACK then Some (s, w) else Some (power_shutdown k s w))
      else do {
        (w, blocked) \<leftarrow> power_block c k cfg pkt w;
        if blocked then Some (s, w)
        else do {
          (img, b, r) \<leftarrow> service_handle_register_final c (pw_image s) pkt (power_regs k) (wd_bus w);
          Some (power_written k r (pw_from_image img s), w\<lparr>wd_bus := b\<rparr>) } })"

definition power_init :: "power_codes \<Rightarrow> power_config \<Rightarrow> nat \<Rightarrow> pworld \<Rightarrow> power \<times> pworld" where
  "power_init k cfg idx w =
     (let now = world_now w;
          s = \<lparr>pw_index = idx, allowed = 0, power_status = PWR_POWERING k, max_power = 0, pulse_duration = 0, pulse_period = 0,
            prev_power_status = 0, hw_watchdog_pulse_status = False, led_pulse_pin = 0, det_pin = 0, next_shutdown = 0, last_pulse = 0,
            next_leds = 0, power_switch_time = 0, power_on_complete = 0, re_enable = 0, hw_watchdog_pulse = 0, led_pulse_on = 0,
            led_pulse_off = 0\<rparr>;
          w = upd_hw (\<lambda>h. pin_dir (pin_pulse cfg) True (pin_set (pin_pulse cfg) 1 (pin_dir (pin_en cfg) True (pin_dir (pin_fault cfg) False h)))) w;
          w = upd_hw (set_limiter k cfg s) w;
          (r, w) = random_around (MS 256) w;
          s = s\<lparr>next_shutdown := now + r, allowed := 1, max_power := 900, led_pulse_pin := NO_PIN k, det_pin := NO_PIN k\<rparr>
      in (if pin_pulse cfg \<noteq> NO_PIN k
          then s\<lparr>pulse_duration := 600, pulse_period := 20000, last_pulse := now - 600 * 1000\<rparr> else s, w))"

section \<open>The limiter\<close>

definition limiter_on :: "power_config \<Rightarrow> power_hw \<Rightarrow> bool" where
  "limiter_on cfg h \<longleftrightarrow> pin_latch h (pin_en cfg) = (if en_active_high cfg = 1 then 1 else 0)"

definition power_codes_ok :: "power_codes \<Rightarrow> bool" where
  "power_codes_ok k \<longleftrightarrow> distinct [PWR_DISALLOWED k, PWR_POWERING k, PWR_OVERLOAD k, PWR_OVERPROVISION k] \<and>
     EV_POWER_STATUS_CHANGED k < 256 \<and> 12 \<le> PWR_EV_QUEUE_SIZE k \<and> PWR_EV_QUEUE_SIZE k \<le> 240 \<and> 4 dvd PWR_EV_QUEUE_SIZE k"

text \<open>The pins are different ones and the limiter is a switch.\<close>

definition pins_ok :: "power_config \<Rightarrow> power \<Rightarrow> bool" where
  "pins_ok cfg s \<longleftrightarrow> pin_en cfg \<noteq> pin_fault cfg \<and> pin_en cfg \<noteq> pin_pulse cfg \<and> pin_en cfg \<noteq> led_pulse_pin s \<and> en_active_high cfg \<le> 2"

text \<open>The limiter is on while the status in force is powering, and while the power ramps up.\<close>

definition power_inv :: "power_codes \<Rightarrow> power_config \<Rightarrow> power \<Rightarrow> power_hw \<Rightarrow> bool" where
  "power_inv k cfg s h \<longleftrightarrow> pins_ok cfg s \<and> pw_index s < 256 \<and>
     (limiter_on cfg h \<longleftrightarrow> prev_power_status s = PWR_POWERING k \<or> power_on_complete s \<noteq> 0)"

lemma set_limiter_on: "pins_ok cfg s \<Longrightarrow> limiter_on cfg (set_limiter k cfg s h) \<longleftrightarrow> power_status s = PWR_POWERING k"
  by (auto simp: set_limiter_def limiter_on_def pins_ok_def HW_WATCHDOG_def pin_set_def pin_dir_def Let_def)

lemma random_around_frame: "random_around v w = (r, w') \<Longrightarrow> wd_hw w' = wd_hw w \<and> wd_events w' = wd_events w \<and> world_now w' = world_now w \<and>
    (main_ok (wd_bus w') \<longleftrightarrow> main_ok (wd_bus w))"
  by (auto simp: random_around_def main_ok_def bus_inv_def split: prod.splits)

lemma random_around_bounds:
  assumes "random_around v w = (r, w')" "unat v < 2147483648"
  shows "unat v - unat v div 2 \<le> unat r" "unat r \<le> unat v + (unat v + 1) div 2"
  using jd_random_around_range [OF assms(2), of "rnd_seed (wd_bus w)"] assms(1) by (auto simp: random_around_def split: prod.splits)

text \<open>What comes before the reaction to the status leaves the limiter alone.\<close>

definition same_limits :: "power_config \<Rightarrow> power \<times> power_hw \<Rightarrow> power \<times> power_hw \<Rightarrow> bool" where
  "same_limits cfg x y \<longleftrightarrow> (case x of (s, h) \<Rightarrow> case y of (s', h') \<Rightarrow>
     limiter_on cfg h' = limiter_on cfg h \<and> power_status s' = power_status s \<and> prev_power_status s' = prev_power_status s \<and>
     power_on_complete s' = power_on_complete s \<and> pins_ok cfg s' = pins_ok cfg s \<and> pw_index s' = pw_index s \<and> allowed s' = allowed s \<and>
     re_enable s' = re_enable s \<and> power_switch_time s' = power_switch_time s)"

lemma led_pulse_limits: "pins_ok cfg s \<Longrightarrow> same_limits cfg (s, h) (power_led_pulse k now s h)"
  by (auto simp: power_led_pulse_def same_limits_def limiter_on_def pins_ok_def pin_set_def pin_dir_def Let_def split: prod.splits)

lemma watchdog_limits: "pins_ok cfg s \<Longrightarrow> power_watchdog k cfg now s h = (s, h)"
  by (simp add: power_watchdog_def HW_WATCHDOG_def pins_ok_def)

lemma leds_limits: "same_limits cfg (s, h) (power_leds k now s h)"
  by (auto simp: power_leds_def same_limits_def limiter_on_def pins_ok_def set_leds_def split: prod.splits)

lemma keep_on_limits: "pins_ok cfg s \<Longrightarrow> same_limits cfg (s, h) (power_keep_on cfg now s h)"
  by (auto simp: power_keep_on_def same_limits_def limiter_on_def pins_ok_def pin_set_def Let_def)

lemma before_react:
  assumes "pins_ok cfg s"
  obtains u w' where "power_process k cfg i s w = (let (s, w, early) = power_react k cfg i u w' in
      if early then Some (s, w) else do { (s, w) \<leftarrow> power_report k s w; Some (power_timers k s w) })"
    "same_limits cfg (power_detect k i s, wd_hw w) (u, wd_hw w')" "wd_events w' = wd_events w" "wd_bus w' = wd_bus w"
proof -
  define now where "now = world_now w"
  define w1 where "w1 = (if en_active_high cfg < 2 then upd_hw (\<lambda>h. h\<lparr>hw_max_sleep := min (hw_max_sleep h) 1000\<rparr>) w else w)"
  have w1: "limiter_on cfg (wd_hw w1) = limiter_on cfg (wd_hw w)" "wd_events w1 = wd_events w" "wd_bus w1 = wd_bus w"
    by (simp_all add: w1_def upd_hw_def limiter_on_def)
  define s1 where "s1 = power_detect k i s"
  have p1: "pins_ok cfg s1" using assms by (simp add: s1_def power_detect_def pins_ok_def)
  obtain s2 h2 where s2: "power_led_pulse k now s1 (wd_hw w1) = (s2, h2)" by fastforce
  have l2: "same_limits cfg (s1, wd_hw w1) (s2, h2)" using led_pulse_limits [OF p1] s2 by metis
  then have p2: "pins_ok cfg s2" using p1 by (simp add: same_limits_def)
  obtain s3 h3 where s3: "power_leds k now s2 h2 = (s3, h3)" by fastforce
  have l3: "same_limits cfg (s2, h2) (s3, h3)" using leds_limits s3 by metis
  then have p3: "pins_ok cfg s3" using p2 by (simp add: same_limits_def)
  obtain s4 h4 where s4: "power_keep_on cfg now s3 h3 = (s4, h4)" by fastforce
  have l4: "same_limits cfg (s3, h3) (s4, h4)" using keep_on_limits [OF p3] s4 by metis
  have "power_process k cfg i s w = (let (s, w, early) = power_react k cfg i s4 (w1\<lparr>wd_hw := h4\<rparr>) in
      if early then Some (s, w) else do { (s, w) \<leftarrow> power_report k s w; Some (power_timers k s w) })"
    unfolding power_process_def Let_def now_def [symmetric] w1_def [symmetric] s1_def [symmetric]
    by (simp add: s2 watchdog_limits [OF p2] s3 s4)
  moreover have "same_limits cfg (s1, wd_hw w) (s4, wd_hw (w1\<lparr>wd_hw := h4\<rparr>))" using l2 l3 l4 w1(1) by (simp add: same_limits_def)
  ultimately show ?thesis using that w1(2,3) s1_def by simp
qed

lemma react_limits:
  assumes "power_codes_ok k" "power_inv k cfg u (wd_hw w)" "power_react k cfg i u w = (s, w', early)"
    "power_on_complete u \<noteq> 0 \<Longrightarrow> power_status u \<noteq> PWR_POWERING k \<Longrightarrow> prev_power_status u \<noteq> power_status u"
  shows "pins_ok cfg s" "pw_index s = pw_index u" "wd_events w' = wd_events w" "main_ok (wd_bus w') = main_ok (wd_bus w)"
    "early \<Longrightarrow> power_inv k cfg s (wd_hw w')"
    "\<not> early \<Longrightarrow> power_on_complete s = 0 \<and> (limiter_on cfg (wd_hw w') \<longleftrightarrow> power_status s = PWR_POWERING k)"
proof -
  have wd: "\<not> HW_WATCHDOG cfg" and p: "pins_ok cfg u" using assms(2) by (auto simp: power_inv_def pins_ok_def HW_WATCHDOG_def)
  have on: "limiter_on cfg (wd_hw w) \<longleftrightarrow> prev_power_status u = PWR_POWERING k \<or> power_on_complete u \<noteq> 0" using assms(2) by (simp add: power_inv_def)
  have ov: "PWR_OVERLOAD k \<noteq> PWR_POWERING k" using assms(1) by (auto simp: power_codes_ok_def)
  have lim: "pins_ok cfg v \<Longrightarrow> limiter_on cfg (wd_hw (upd_hw (set_limiter k cfg v) x)) \<longleftrightarrow> power_status v = PWR_POWERING k" for v x
    by (simp add: upd_hw_def set_limiter_on)
  have fr: "wd_events (upd_hw f x) = wd_events x" "wd_bus (upd_hw f x) = wd_bus x" for f x by (simp_all add: upd_hw_def)
  have pin: "pins_ok cfg (u\<lparr>power_status := a, re_enable := b\<rparr>)" "pins_ok cfg (u\<lparr>power_status := a, re_enable := b, power_on_complete := c\<rparr>)"
    "pins_ok cfg (u\<lparr>power_on_complete := c\<rparr>)" for a b c using p by (simp_all add: pins_ok_def)
  obtain r v where rv: "random_around (OVERLOAD_MS * 1000) w = (r, v)" by fastforce
  note rnd = random_around_frame [OF rv]
  consider "power_status u = PWR_POWERING k" "prev_power_status u = PWR_POWERING k" "\<not> in_fault i"
    | "power_status u = PWR_POWERING k" "prev_power_status u = PWR_POWERING k" "in_fault i"
    | "power_status u = PWR_POWERING k" "prev_power_status u \<noteq> PWR_POWERING k" "power_on_complete u = 0"
    | "power_status u = PWR_POWERING k" "prev_power_status u \<noteq> PWR_POWERING k" "power_on_complete u \<noteq> 0"
    | "power_status u \<noteq> PWR_POWERING k" by blast
  then have "pins_ok cfg s \<and> pw_index s = pw_index u \<and> wd_events w' = wd_events w \<and> main_ok (wd_bus w') = main_ok (wd_bus w) \<and>
    (early \<longrightarrow> power_inv k cfg s (wd_hw w')) \<and>
    (\<not> early \<longrightarrow> power_on_complete s = 0 \<and> (limiter_on cfg (wd_hw w') \<longleftrightarrow> power_status s = PWR_POWERING k))"
  proof cases
    case 1
    then show ?thesis using assms(3) wd rv rnd ov pin by (auto simp: power_react_def Let_def lim fr)
  next
    case 2
    then show ?thesis using assms(3) wd on pin by (auto simp: power_react_def Let_def)
  next
    case 3
    then show ?thesis using assms(2,3) wd p pin by (auto simp: power_react_def Let_def lim fr power_inv_def split: if_splits)
  next
    case 4
    then show ?thesis using assms(2,3) wd on p pin by (auto simp: power_react_def Let_def split: if_splits)
  next
    case 5
    then show ?thesis using assms(3,4) wd on p pin by (auto simp: power_react_def Let_def lim fr split: if_splits)
  qed
  then show "pins_ok cfg s" "pw_index s = pw_index u" "wd_events w' = wd_events w" "main_ok (wd_bus w') = main_ok (wd_bus w)"
    "early \<Longrightarrow> power_inv k cfg s (wd_hw w')"
    "\<not> early \<Longrightarrow> power_on_complete s = 0 \<and> (limiter_on cfg (wd_hw w') \<longleftrightarrow> power_status s = PWR_POWERING k)" by blast+
qed

text \<open>The service may use the transport and the event queue.\<close>

definition world_ok :: "power_codes \<Rightarrow> pworld \<Rightarrow> bool" where
  "world_ok k w \<longleftrightarrow> main_ok (wd_bus w) \<and> (\<exists>es. ev_queue (PWR_EV_QUEUE_SIZE k) es (wd_events w))"

lemma report_ok:
  assumes "power_codes_ok k" "world_ok k w" "pw_index s < 256"
  obtains w' where "power_report k s w = Some (s\<lparr>prev_power_status := power_status s\<rparr>, w')" "world_ok k w'" "wd_hw w' = wd_hw w" "world_now w' = world_now w"
proof (cases "prev_power_status s = power_status s")
  case True
  moreover from this have "s\<lparr>prev_power_status := power_status s\<rparr> = s" by (metis power.surjective power.update_convs(7))
  ultimately show ?thesis using that [of w] assms(2) by (simp add: power_report_def)
next
  case False
  obtain es where es: "ev_queue (PWR_EV_QUEUE_SIZE k) es (wd_events w)" "main_ok (wd_bus w)" using assms(2) by (auto simp: world_ok_def)
  have q: "PWR_EV_QUEUE_SIZE k \<le> 240" "4 dvd PWR_EV_QUEUE_SIZE k" "EV_POWER_STATUS_CHANGED k < 256"
    "length [of_nat (power_status s) :: byte] + 8 \<le> PWR_EV_QUEUE_SIZE k" using assms(1) by (auto simp: power_codes_ok_def)
  obtain e t n pad where e: "jd_send_event_ext (PWR_EV_QUEUE_SIZE k) (pw_index s) (EV_POWER_STATUS_CHANGED k) [of_nat (power_status s)]
      (wd_events w) (wd_bus w) = Some (e, t)" "main_ok t" "ev_queue (PWR_EV_QUEUE_SIZE k) (drop n es @ [pad]) e"
      "jd_send (pw_index s) (JD_CMD_EVENT_MK (ev_counter (wd_events w) + 1) (EV_POWER_STATUS_CHANGED k)) [of_nat (power_status s)] (wd_bus w) = Some (t, 0)"
    using send_event_queues [OF es q(1-3) assms(3) q(4)] by blast
  then have "power_report k s w = Some (s\<lparr>prev_power_status := power_status s\<rparr>, w\<lparr>wd_events := e, wd_bus := t\<rparr>)"
    using False by (simp add: power_report_def)
  moreover have "now_us t = now_us (wd_bus w)" using jd_send_now e(4) by fastforce
  ultimately show ?thesis using that e(2,3) by (auto simp: world_ok_def)
qed

lemma timers_limits:
  assumes "power_timers k s w = (s', w')"
  shows "limiter_on cfg (wd_hw w') = limiter_on cfg (wd_hw w)" "pins_ok cfg s' = pins_ok cfg s" "prev_power_status s' = prev_power_status s"
    "power_on_complete s' = power_on_complete s" "pw_index s' = pw_index s" "world_ok k w' = world_ok k w"
proof -
  obtain r v where rv: "random_around (MS 512) w = (r, v)" by fastforce
  note rnd = random_around_frame [OF rv]
  have ready: "main_ok (jd_packet_ready b) = main_ok b" for b :: bus
    using bus_inv_core [OF jd_packet_ready_core, of b] jd_packet_ready_core [of b] by (auto simp: main_ok_def same_core_def)
  have send: "limiter_on cfg (wd_hw (send_shutdown v)) = limiter_on cfg (wd_hw w)" "world_ok k (send_shutdown v) = world_ok k w"
    "limiter_on cfg (wd_hw v) = limiter_on cfg (wd_hw w)" "world_ok k v = world_ok k w"
    using rnd ready by (simp_all add: send_shutdown_def upd_hw_def limiter_on_def world_ok_def Let_def)
  consider t where "s' = s\<lparr>next_shutdown := t\<rparr>" "w' = v \<or> w' = send_shutdown v"
    | "s' = s" "w' = w" | t x u where "s' = s\<lparr>re_enable := t, power_status := x, next_shutdown := u\<rparr>" "w' = w"
    using assms rv by (auto simp: power_timers_def Let_def split: if_splits)
  then have "limiter_on cfg (wd_hw w') = limiter_on cfg (wd_hw w) \<and> pins_ok cfg s' = pins_ok cfg s \<and> prev_power_status s' = prev_power_status s \<and>
    power_on_complete s' = power_on_complete s \<and> pw_index s' = pw_index s \<and> world_ok k w' = world_ok k w"
    by cases (use send in \<open>auto simp: pins_ok_def\<close>)
  then show "limiter_on cfg (wd_hw w') = limiter_on cfg (wd_hw w)" "pins_ok cfg s' = pins_ok cfg s" "prev_power_status s' = prev_power_status s"
    "power_on_complete s' = power_on_complete s" "pw_index s' = pw_index s" "world_ok k w' = world_ok k w" by blast+
qed

section \<open>Properties\<close>

lemma packets_keep_limiter:
  assumes "power_handle_packet c k cfg pkt s w = Some (s', w')"
  shows "power_inv k cfg s' (wd_hw w') = power_inv k cfg s (wd_hw w)"
proof -
  have sh: "power_inv k cfg (fst (power_shutdown k s w)) (wd_hw (snd (power_shutdown k s w))) = power_inv k cfg s (wd_hw w)"
    using random_around_frame [of "MS (8 * 1024)"] random_around_frame [of "MS 256"]
    by (auto simp: power_shutdown_def Let_def power_inv_def pins_ok_def split: prod.splits)
  have wr: "power_inv k cfg (power_written k r (pw_from_image img s)) h = power_inv k cfg s h" for r img h
    by (auto simp: power_written_def pw_from_image_def power_inv_def pins_ok_def Let_def)
  have bl: "wd_hw x = wd_hw w" if "power_block c k cfg pkt w = Some (x, b)" for x b
    using that by (auto simp: power_block_def bind_Some_iff split: if_splits)
  consider "s' = s" "w' = w" | "power_shutdown k s w = (s', w')" | x b where "power_block c k cfg pkt w = Some (x, b)" "s' = s" "w' = x"
    | x b img y r where "power_block c k cfg pkt w = Some (x, b)" "s' = power_written k r (pw_from_image img s)" "w' = x\<lparr>wd_bus := y\<rparr>"
    using assms unfolding power_handle_packet_def
    by (auto simp only: bind_Some_iff split_paired_all split: if_split_asm)
  then show ?thesis
  proof cases
    case 2
    then show ?thesis using sh by simp
  next
    case (3 x b)
    then show ?thesis using bl [OF 3(1)] by simp
  next
    case (4 x b img y r)
    then show ?thesis using bl [OF 4(1)] wr [of r img] by simp
  qed simp
qed



lemma disallowed_process:
  assumes "pins_ok cfg s" "power_status s = PWR_DISALLOWED k" "prev_power_status s = PWR_DISALLOWED k" "allowed s = 0"
    "power_codes_ok k"
  shows "\<exists>s' w'. power_process k cfg i s w = Some (s', w') \<and> (limiter_on cfg (wd_hw w') \<longleftrightarrow> limiter_on cfg (wd_hw w)) \<and>
    pins_ok cfg s' \<and> power_status s' = PWR_DISALLOWED k \<and> prev_power_status s' = PWR_DISALLOWED k \<and> allowed s' = 0"
proof -
  obtain u v where u: "power_process k cfg i s w = (let (s, w, early) = power_react k cfg i u v in
      if early then Some (s, w) else do { (s, w) \<leftarrow> power_report k s w; Some (power_timers k s w) })"
    "same_limits cfg (power_detect k i s, wd_hw w) (u, wd_hw v)"
    using before_react [OF assms(1)] by blast
  have k: "PWR_DISALLOWED k \<noteq> PWR_POWERING k" "PWR_DISALLOWED k \<noteq> PWR_OVERLOAD k" using assms(5) by (auto simp: power_codes_ok_def)
  have wd: "\<not> HW_WATCHDOG cfg" using assms(1) by (simp add: pins_ok_def HW_WATCHDOG_def)
  have "power_detect k i s = s" using assms(2,4) k by (simp add: power_detect_def)
  then have st: "power_status u = PWR_DISALLOWED k" "prev_power_status u = PWR_DISALLOWED k" "allowed u = 0" "pins_ok cfg u"
    "limiter_on cfg (wd_hw v) \<longleftrightarrow> limiter_on cfg (wd_hw w)" using u(2) assms(1-4) by (simp_all add: same_limits_def)
  let ?u = "u\<lparr>power_on_complete := 0\<rparr>"
  have "power_react k cfg i u v = (?u, v, False)" using st(1,2) k wd by (simp add: power_react_def Let_def)
  moreover have "power_report k ?u v = Some (?u, v)" using st(1,2) by (simp add: power_report_def)
  moreover obtain s' w' where s': "power_timers k ?u v = (s', w')" by fastforce
  ultimately have "power_process k cfg i s w = Some (s', w')" using u(1) by simp
  moreover have "power_status s' = PWR_DISALLOWED k" "allowed s' = 0"
    using s' st(1,3) k by (auto simp: power_timers_def Let_def split: if_splits prod.splits)
  moreover have "pins_ok cfg ?u" using st(4) by (simp add: pins_ok_def)
  ultimately show ?thesis using timers_limits(1) [OF s', of cfg] timers_limits(2) [OF s', of cfg] timers_limits(3) [OF s'] st by auto
qed

text \<open>A race leaves the power on.  When power is allowed and disallowed again while it still ramps up, the status is back at the
  one in force before, so that the limiter is not switched off: power is disallowed and the limiter stays on, in the next call
  of \<open>power_process\<close> and in all later ones.\<close>

theorem disallowed_power_stays_on:
  assumes "power_codes_ok k" "pins_ok cfg s" "power_status s = PWR_DISALLOWED k" "prev_power_status s = PWR_DISALLOWED k"
    "power_on_complete s = 0" "in_power i"
  shows "\<exists>s1 w1. power_process k cfg i (power_written k (int (REG_ALLOWED k)) (s\<lparr>allowed := 1\<rparr>)) w = Some (s1, w1) \<and>
    (\<forall>i' w2. wd_hw w2 = wd_hw w1 \<longrightarrow> (\<exists>s3 w3. power_process k cfg i' (power_written k (int (REG_ALLOWED k)) (s1\<lparr>allowed := 0\<rparr>)) w2 = Some (s3, w3) \<and>
      power_status s3 = PWR_DISALLOWED k \<and> limiter_on cfg (wd_hw w3) \<and>
      (\<forall>i'' w4. wd_hw w4 = wd_hw w3 \<longrightarrow> (\<exists>s5 w5. power_process k cfg i'' s3 w4 = Some (s5, w5) \<and>
        power_status s5 = PWR_DISALLOWED k \<and> limiter_on cfg (wd_hw w5)))))"
proof -
  have k: "PWR_DISALLOWED k \<noteq> PWR_POWERING k" using assms(1) by (auto simp: power_codes_ok_def)
  let ?s = "power_written k (int (REG_ALLOWED k)) (s\<lparr>allowed := 1\<rparr>)"
  have s: "power_status ?s = PWR_POWERING k" "prev_power_status ?s = PWR_DISALLOWED k" "power_on_complete ?s = 0" "pins_ok cfg ?s"
    using assms by (simp_all add: power_written_def pins_ok_def)
  obtain u v where u: "power_process k cfg i ?s w = (let (s, w, early) = power_react k cfg i u v in
      if early then Some (s, w) else do { (s, w) \<leftarrow> power_report k s w; Some (power_timers k s w) })"
    "same_limits cfg (power_detect k i ?s, wd_hw w) (u, wd_hw v)" using before_react [OF s(4)] by blast
  have "power_detect k i ?s = ?s" using s(1) k assms(6) by (simp add: power_detect_def)
  then have st: "power_status u = PWR_POWERING k" "prev_power_status u = PWR_DISALLOWED k" "power_on_complete u = 0" "pins_ok cfg u"
    using u(2) s by (simp_all add: same_limits_def)
  have wd: "\<not> HW_WATCHDOG cfg" using st(4) by (simp add: pins_ok_def HW_WATCHDOG_def)
  obtain t where "power_react k cfg i u v = (u\<lparr>power_on_complete := t\<rparr>, upd_hw (set_limiter k cfg u) v, True)"
    using st k wd by (simp add: power_react_def Let_def)
  then have run: "power_process k cfg i ?s w = Some (u\<lparr>power_on_complete := t\<rparr>, upd_hw (set_limiter k cfg u) v)" using u(1) by simp
  let ?u = "power_written k (int (REG_ALLOWED k)) (u\<lparr>power_on_complete := t, allowed := 0\<rparr>)"
  have on: "limiter_on cfg (wd_hw (upd_hw (set_limiter k cfg u) v))" using set_limiter_on [OF st(4)] st(1) by (simp add: upd_hw_def)
  have d: "pins_ok cfg ?u" "power_status ?u = PWR_DISALLOWED k" "prev_power_status ?u = PWR_DISALLOWED k" "allowed ?u = 0"
    using st by (simp_all add: power_written_def pins_ok_def)
  have step: "\<exists>s3 w3. power_process k cfg i' (power_written k (int (REG_ALLOWED k)) (u\<lparr>power_on_complete := t\<rparr>\<lparr>allowed := 0\<rparr>)) w2 = Some (s3, w3) \<and>
      power_status s3 = PWR_DISALLOWED k \<and> limiter_on cfg (wd_hw w3) \<and>
      (\<forall>i'' w4. wd_hw w4 = wd_hw w3 \<longrightarrow> (\<exists>s5 w5. power_process k cfg i'' s3 w4 = Some (s5, w5) \<and>
        power_status s5 = PWR_DISALLOWED k \<and> limiter_on cfg (wd_hw w5)))"
    if hw: "wd_hw w2 = wd_hw (upd_hw (set_limiter k cfg u) v)" for i' w2
  proof -
    obtain s3 w3 where s3: "power_process k cfg i' ?u w2 = Some (s3, w3)" "limiter_on cfg (wd_hw w3)" "pins_ok cfg s3"
      "power_status s3 = PWR_DISALLOWED k" "prev_power_status s3 = PWR_DISALLOWED k" "allowed s3 = 0"
      using disallowed_process [OF d assms(1), of i' w2] on hw by auto
    moreover have "\<exists>s5 w5. power_process k cfg i'' s3 w4 = Some (s5, w5) \<and> power_status s5 = PWR_DISALLOWED k \<and> limiter_on cfg (wd_hw w5)"
      if "wd_hw w4 = wd_hw w3" for i'' w4
      using disallowed_process [OF s3(3-6) assms(1), of i'' w4] that s3(2) by auto
    ultimately show ?thesis by (intro exI [of _ s3] exI [of _ w3]) auto
  qed
  show ?thesis
    by (intro exI [of _ "u\<lparr>power_on_complete := t\<rparr>"] exI [of _ "upd_hw (set_limiter k cfg u) v"] conjI allI impI run step)
qed

section \<open>The keep-on pulse\<close>

text \<open>The pulse loads a resistor: it is on for a second at most and a tenth of the time.\<close>

definition pulse_ok :: "power \<Rightarrow> bool" where
  "pulse_ok s \<longleftrightarrow> (pulse_period s \<noteq> 0 \<and> pulse_duration s \<noteq> 0 \<longrightarrow> pulse_duration s \<le> 1000 \<and> 10 * pulse_duration s \<le> unat (pulse_period s))"

lemma power_written_pulse:
  assumes "pulse_duration s < 65536" "r = int (REG_KEEP_ON_PERIOD k) \<or> r = int (REG_KEEP_ON_DURATION k)" "r \<noteq> int (REG_ALLOWED k)"
  shows "pulse_ok (power_written k r s)"
proof -
  define n where "n = (if pulse_duration s > 1000 then 1000 else pulse_duration s)"
  have n: "unat (of_nat (n * 10) :: 32 word) = n * 10"
    unfolding unat_of_nat_32 by (rule mod_less) (simp add: n_def)
  have "power_written k r s = (if pulse_period s \<noteq> 0 \<and> pulse_duration s \<noteq> 0
      then (if pulse_period s < of_nat (n * 10) then s\<lparr>pulse_duration := n, pulse_period := of_nat (n * 10)\<rparr> else s\<lparr>pulse_duration := n\<rparr>) else s)"
    using assms(2,3) by (auto simp: power_written_def Let_def n_def)
  then show ?thesis using n by (auto simp: pulse_ok_def n_def word_less_nat_alt not_less split: if_splits)
qed

section \<open>Examples\<close>

definition sample_power_codes :: power_codes where
  "sample_power_codes = \<lparr>PWR_DISALLOWED = 0, PWR_POWERING = 1, PWR_OVERLOAD = 2, PWR_OVERPROVISION = 3, REG_ALLOWED = 1, REG_POWER_STATUS = 0x181,
     REG_POWER_MAX = 7, REG_KEEP_ON_DURATION = 0x80, REG_KEEP_ON_PERIOD = 0x81, CMD_SHUTDOWN = 0x80, EV_POWER_STATUS_CHANGED = 3,
     PWR_EV_QUEUE_SIZE = 128, NO_PIN = 255, PWR_GLOW = (\<lambda>_. 0)\<rparr>"

definition sample_power_config :: power_config where
  "sample_power_config = \<lparr>pin_fault = 1, pin_en = 2, pin_pulse = 3, en_active_high = 1, fault_ignore_ms = 0\<rparr>"

definition sample_power :: power where
  "sample_power = fst (power_init sample_power_codes sample_power_config 1
     \<lparr>wd_hw = \<lparr>pin_latch = (\<lambda>_. 0), pin_is_out = (\<lambda>_. False), rawFrame = None, rawFrameSending = False, hw_glow = 0, hw_max_sleep = 0\<rparr>,
      wd_events = \<lparr>ev_buffer = None, qptr = 0, ev_counter = 0\<rparr>, wd_bus = bus_init 7 1 64 64 False 64\<rparr>)"

definition power_world :: "nat \<Rightarrow> pworld" where
  "power_world en = \<lparr>wd_hw = \<lparr>pin_latch = (\<lambda>p. if p = 2 then en else 0), pin_is_out = (\<lambda>_. False), rawFrame = None, rawFrameSending = False, hw_glow = 0, hw_max_sleep = 0\<rparr>,
      wd_events = \<lparr>ev_buffer = None, qptr = 0, ev_counter = 0\<rparr>, wd_bus = bus_init 7 1 64 64 False 64\<rparr>"

lemma sample_power_ok: "power_codes_ok sample_power_codes" "world_ok sample_power_codes (power_world en)"
    "pins_ok sample_power_config sample_power" "pw_index sample_power = 1"
  using sample_main_ok
  by (simp_all add: power_codes_ok_def sample_power_codes_def world_ok_def power_world_def ev_queue_def pins_ok_def sample_power_config_def
    sample_power_def power_init_def Let_def random_around_def split: prod.splits)

lemma sample_power_inv:
  "en = of_bool (p = 1 \<or> t \<noteq> 0) \<Longrightarrow> power_inv sample_power_codes sample_power_config
     (sample_power\<lparr>power_status := x, prev_power_status := p, power_on_complete := t\<rparr>) (wd_hw (power_world en))"
  using sample_power_ok(3,4)
  by (auto simp: power_inv_def limiter_on_def pins_ok_def power_world_def sample_power_config_def sample_power_codes_def)



theorem disallowed_power_stays_on_witness:
  "\<exists>s1 w1 s3 w3. power_process sample_power_codes sample_power_config \<lparr>in_fault = True, in_power = True\<rparr>
       (power_written sample_power_codes 1 (sample_power\<lparr>power_status := 0, prev_power_status := 0, power_on_complete := 0, allowed := 1\<rparr>)) (power_world 0) = Some (s1, w1) \<and>
     power_process sample_power_codes sample_power_config \<lparr>in_fault = True, in_power = True\<rparr>
       (power_written sample_power_codes 1 (s1\<lparr>allowed := 0\<rparr>)) w1 = Some (s3, w3) \<and>
     power_status s3 = 0 \<and> limiter_on sample_power_config (wd_hw w3)"
proof -
  let ?s = "sample_power\<lparr>power_status := 0, prev_power_status := 0, power_on_complete := 0\<rparr>"
  have p: "pins_ok sample_power_config ?s" using sample_power_ok(3) by (simp add: pins_ok_def)
  have c: "PWR_DISALLOWED sample_power_codes = 0" "REG_ALLOWED sample_power_codes = 1" by (simp_all add: sample_power_codes_def)
  show ?thesis
    using disallowed_power_stays_on [OF sample_power_ok(1) p, of "\<lparr>in_fault = True, in_power = True\<rparr>" "power_world 0"] c by auto blast
qed

end
