(* ===== verification/Jd_Lstore.thy ===== *)
theory Jd_Lstore
  imports Jd_Crc32 Jd_Text
begin

text \<open>
  The log store on a memory card: storage/lstore.c with the formats of storage/jd\_storage.h.  A log is a ring of blocks with
  checksums in a file of the card; entries are collected in a buffer and written by the main loop from a second one.  The build
  without the FAT file system (\<open>JD_LSTORE_FF\<close> 0) and without output in the panic handler (\<open>JD_SD_PANIC\<close> 0) is modelled.  The
  driver of the card and \<open>jd_f_create\<close>, which are not part of the repository, are the record \<open>disk_ops\<close>.
\<close>

section \<open>Data\<close>

definition SECTOR_SHIFT :: nat where "SECTOR_SHIFT = 9"
definition SECTOR_SIZE :: nat where "SECTOR_SIZE = 512"
definition JD_LSTORE_FLUSH_SECONDS :: "32 word" where "JD_LSTORE_FLUSH_SECONDS = 10"
definition JD_LSTORE_FILE_SIZE :: nat where "JD_LSTORE_FILE_SIZE = 65 * 1024 * 1024"
definition JD_LSTORE_NUM_FILES :: nat where "JD_LSTORE_NUM_FILES = 2"
definition JD_LSTORE_TYPE_DEVINFO :: nat where "JD_LSTORE_TYPE_DEVINFO = 1"
definition JD_LSTORE_MAGIC0 :: "32 word" where "JD_LSTORE_MAGIC0 = 0x0a4c444a"
definition JD_LSTORE_MAGIC1 :: "32 word" where "JD_LSTORE_MAGIC1 = 0xb5d1841e"
definition JD_LSTORE_VERSION :: "32 word" where "JD_LSTORE_VERSION = 5"
definition JD_LSTORE_BLOCK_OVERHEAD :: nat where "JD_LSTORE_BLOCK_OVERHEAD = 24"
definition JD_LSTORE_ENTRY_HEADER_SIZE :: nat where "JD_LSTORE_ENTRY_HEADER_SIZE = 4"

lemmas lstore_consts = SECTOR_SHIFT_def SECTOR_SIZE_def JD_LSTORE_BLOCK_OVERHEAD_def JD_LSTORE_ENTRY_HEADER_SIZE_def

text \<open>Reading and writing sectors of 512 bytes, and creating a file: its size and its first sector.\<close>

record 'd disk_ops =
  ff_disk_read :: "'d \<Rightarrow> nat \<Rightarrow> nat \<Rightarrow> mem option"
  ff_disk_write :: "nat \<Rightarrow> mem \<Rightarrow> 'd \<Rightarrow> 'd option"
  jd_f_create :: "nat \<Rightarrow> nat \<Rightarrow> (nat \<times> nat) option"

text \<open>A log file; the buffers are there once it is mounted.\<close>

record lfile =
  lf_block :: "mem option"
  lf_block_alt :: "mem option"
  sector_off :: nat
  lf_size :: nat
  header_blocks :: nat
  data_blocks :: nat
  block_shift :: nat
  needs_flushing :: nat
  block_magic0 :: "32 word"
  block_magic1 :: "32 word"
  block_generation :: "32 word"
  block_ptr :: nat
  data_ptr :: nat

record 'd lstore =
  ls_disk :: 'd
  flush_timer :: "32 word"
  ls_logs :: "lfile list"

text \<open>Fields of a block and of the header of a file.\<close>

definition rd_u32 :: "mem \<Rightarrow> nat \<Rightarrow> 32 word" where
  "rd_u32 m off = le_word (take 4 (drop off m))"

definition wr_u32 :: "mem \<Rightarrow> nat \<Rightarrow> 32 word \<Rightarrow> mem" where
  "wr_u32 m off v = patch m off (le_bytes 4 v)"

definition blk_magic0 :: "mem \<Rightarrow> 32 word" where "blk_magic0 m = rd_u32 m 0"
definition blk_generation :: "mem \<Rightarrow> 32 word" where "blk_generation m = rd_u32 m 4"
definition blk_timestamp :: "mem \<Rightarrow> 64 word" where "blk_timestamp m = le_word (take 8 (drop 8 m))"

definition block_size :: "lfile \<Rightarrow> nat" where
  "block_size f = 2 ^ block_shift f"

definition block_data_size :: "lfile \<Rightarrow> nat" where
  "block_data_size f = block_size f - JD_LSTORE_BLOCK_OVERHEAD"

text \<open>\<open>block_footer(f)->block_magic1\<close> and \<open>block_footer(f)->crc32\<close> of the block \<open>m\<close>.\<close>

definition foot_magic1 :: "lfile \<Rightarrow> mem \<Rightarrow> 32 word" where "foot_magic1 f m = rd_u32 m (block_size f - 8)"
definition foot_crc32 :: "lfile \<Rightarrow> mem \<Rightarrow> 32 word" where "foot_crc32 f m = rd_u32 m (block_size f - 4)"

section \<open>Sectors and blocks\<close>

definition read_sectors :: "'d disk_ops \<Rightarrow> lfile \<Rightarrow> nat \<Rightarrow> nat \<Rightarrow> 'd \<Rightarrow> mem option" where
  "read_sectors ops f sector_addr num_sectors d = ff_disk_read ops d (u32 (sector_off f + sector_addr)) num_sectors"

definition write_sectors :: "'d disk_ops \<Rightarrow> lfile \<Rightarrow> nat \<Rightarrow> mem \<Rightarrow> 'd \<Rightarrow> 'd option" where
  "write_sectors ops f sector_addr src d = ff_disk_write ops (u32 (sector_off f + sector_addr)) src d"

text \<open>The loop that computes the logarithm.\<close>

function log_shift :: "nat \<Rightarrow> nat \<Rightarrow> nat" where
  "log_shift sh n = (if 2 ^ sh < n then log_shift (sh + 1) n else sh)"
  by auto
termination
proof (relation "measure (\<lambda>(sh, n). n - sh)")
  fix sh n :: nat
  assume "2 ^ sh < n"
  with less_exp [of sh] have "sh < n" by (rule order.strict_trans)
  then show "((sh + 1, n), sh, n) \<in> measure (\<lambda>(sh, n). n - sh)" by simp
qed simp

declare log_shift.simps [simp del]

definition validate_header :: "lfile \<Rightarrow> mem \<Rightarrow> lfile \<times> bool" where
  "validate_header f hdr =
     (if rd_u32 hdr 0 = JD_LSTORE_MAGIC0 \<and> rd_u32 hdr 4 = JD_LSTORE_MAGIC1 then
        (if rd_u32 hdr 8 \<noteq> JD_LSTORE_VERSION then (f, False)
         else if rd_u32 hdr 12 \<noteq> of_nat SECTOR_SIZE then (f, False)
         else let spb = rd_u32 hdr 16; num_blocks = rd_u32 hdr 24 in
           if unat (spb * num_blocks) > lf_size f div SECTOR_SIZE then (f, False)
           else let sh = log_shift 0 (unat spb) in
             if unat spb > 8 \<or> 2 ^ sh \<noteq> unat spb then (f, False)
             else (f\<lparr>block_shift := sh + SECTOR_SHIFT\<rparr>, True))
      else (f, False))"

definition strcpy_n :: "mem \<Rightarrow> nat \<Rightarrow> nat \<Rightarrow> mem \<Rightarrow> mem" where
  "strcpy_n dst off sz src = patch dst off (if length src \<ge> sz - 1 then take (sz - 1) src else src @ [0])"

definition block_valid :: "lfile \<Rightarrow> mem \<Rightarrow> bool" where
  "block_valid f m \<longleftrightarrow> blk_magic0 m = block_magic0 f \<and> foot_magic1 f m = block_magic1 f \<and>
     jd_crc32 (take (block_size f - 4) m) = foot_crc32 f m"

text \<open>The block that is read, with the header cleared when it is not valid.\<close>

definition read_block :: "'d disk_ops \<Rightarrow> lfile \<Rightarrow> nat \<Rightarrow> 'd \<Rightarrow> mem option" where
  "read_block ops f idx d = do {
     jd_assert (idx < data_blocks f);
     let sh = block_shift f - SECTOR_SHIFT;
     m \<leftarrow> read_sectors ops f (u32 ((header_blocks f + idx) * 2 ^ sh)) (2 ^ sh) d;
     Some (if block_valid f m then m else patch m 0 (replicate 16 0)) }"

definition write_block :: "'d disk_ops \<Rightarrow> lfile \<Rightarrow> nat \<Rightarrow> mem \<Rightarrow> 'd \<Rightarrow> 'd option" where
  "write_block ops f idx m d = do {
     jd_assert (idx < data_blocks f);
     let sh = block_shift f - SECTOR_SHIFT;
     write_sectors ops f (u32 ((header_blocks f + idx) * 2 ^ sh)) m d }"

definition block_lt :: "mem \<Rightarrow> mem \<Rightarrow> bool" where
  "block_lt a b \<longleftrightarrow> blk_generation a < blk_generation b \<or> blk_generation a = blk_generation b \<and> blk_timestamp a < blk_timestamp b"

text \<open>The binary search of \<open>find_boundry\<close>.\<close>

function boundry_loop :: "'d disk_ops \<Rightarrow> lfile \<Rightarrow> 'd \<Rightarrow> mem \<Rightarrow> nat \<Rightarrow> nat \<Rightarrow> nat option" where
  "boundry_loop ops f d start_hd l r =
     (if l < r then do {
        let m = (l + r) div 2 + 1;
        b \<leftarrow> read_block ops f m d;
        if block_lt start_hd b then boundry_loop ops f d start_hd m r else boundry_loop ops f d start_hd l (m - 1) }
      else Some l)"
  by auto
termination by (relation "measure (\<lambda>(ops, f, d, s, l, r). r - l)") auto

declare boundry_loop.simps [simp del]

definition find_boundry :: "'d disk_ops \<Rightarrow> lfile \<Rightarrow> 'd \<Rightarrow> lfile option" where
  "find_boundry ops f d = do {
     start_hd \<leftarrow> read_block ops f 0 d;
     if blk_magic0 start_hd = 0 then Some (f\<lparr>block_generation := 1, block_ptr := 0\<rparr>)
     else do {
       l \<leftarrow> boundry_loop ops f d start_hd 0 (data_blocks f - 1);
       b \<leftarrow> read_block ops f l d;
       let gen = blk_generation b + 1;
       jd_assert (gen < 0xffffffff);
       Some (f\<lparr>block_generation := gen, block_ptr := if l + 1 = block_ptr f then 0 else l + 1\<rparr>) } }"

partial_function (option) random_magic :: "32 word \<Rightarrow> (32 word \<times> 32 word) option" where
  "random_magic seed =
     (case jd_random seed of (r, seed) \<Rightarrow> if r \<noteq> 0 \<and> r + 1 \<noteq> 0 then Some (r, seed) else random_magic seed)"

text \<open>\<open>fill_devinfo\<close> from the identifier of the device, its class and its firmware version.\<close>

definition fill_devinfo :: "64 word \<Rightarrow> mem \<Rightarrow> mem \<Rightarrow> mem" where
  "fill_devinfo dev name version =
     strcpy_n (strcpy_n (patch (replicate 136 0) 0 (le_bytes 8 dev)) 8 64 name) 72 32 version"

definition new_header :: "lfile \<Rightarrow> mem \<Rightarrow> nat \<Rightarrow> 32 word \<Rightarrow> 32 word \<Rightarrow> mem \<Rightarrow> mem" where
  "new_header f devinfo bl_shift magic0 magic1 name =
     (let hdr = replicate SECTOR_SIZE 0;
          hdr = wr_u32 hdr 0 JD_LSTORE_MAGIC0;
          hdr = wr_u32 hdr 4 JD_LSTORE_MAGIC1;
          hdr = wr_u32 hdr 8 JD_LSTORE_VERSION;
          hdr = wr_u32 hdr 12 (of_nat SECTOR_SIZE);
          hdr = wr_u32 hdr 16 (of_nat (2 ^ bl_shift));
          hdr = wr_u32 hdr 20 1;
          hdr = wr_u32 hdr 24 (of_nat (lf_size f div 2 ^ (bl_shift + SECTOR_SHIFT)));
          hdr = wr_u32 hdr 32 magic0;
          hdr = wr_u32 hdr 36 magic1;
          hdr = patch hdr 64 devinfo
      in strcpy_n hdr 200 32 name)"

text \<open>The buffer that is prepared for writing.\<close>

definition fresh_block :: "lfile \<Rightarrow> mem" where
  "fresh_block f = wr_u32 (wr_u32 (replicate (block_size f) 0) 0 (block_magic0 f)) (block_size f - 8) (block_magic1 f)"

text \<open>The first part of \<open>mount_log\<close>: the header of the file is read, and replaced when it is not valid.\<close>

definition mount_header ::
  "'d disk_ops \<Rightarrow> mem \<Rightarrow> mem \<Rightarrow> nat \<Rightarrow> lfile \<Rightarrow> 'd \<Rightarrow> 32 word \<Rightarrow> (lfile \<times> mem \<times> 'd \<times> 32 word) option" where
  "mount_header ops devinfo name bl_shift f d seed = do {
     hdr \<leftarrow> read_sectors ops f 0 1 d;
     let (f1, ok) = validate_header f hdr;
     if ok then Some (f1, hdr, d, seed)
     else do {
       (m0, seed) \<leftarrow> random_magic seed;
       (m1, seed) \<leftarrow> random_magic seed;
       let hdr = new_header f devinfo bl_shift m0 m1 name;
       d \<leftarrow> write_sectors ops f 0 hdr d;
       let (f2, ok) = validate_header (f\<lparr>block_shift := bl_shift + SECTOR_SHIFT\<rparr>) hdr;
       jd_assert ok;
       Some (f2, hdr, d, seed) } }"

definition mount_log ::
  "'d disk_ops \<Rightarrow> mem \<Rightarrow> mem \<Rightarrow> nat \<Rightarrow> lfile \<Rightarrow> 'd \<Rightarrow> 32 word \<Rightarrow> (lfile \<times> 'd \<times> 32 word) option" where
  "mount_log ops devinfo name bl_shift f d seed = do {
     (f, hdr, d, seed) \<leftarrow> mount_header ops devinfo name bl_shift f d seed;
     let f = f\<lparr>header_blocks := unat (rd_u32 hdr 20), data_blocks := unat (rd_u32 hdr 24 - rd_u32 hdr 20),
       block_magic0 := rd_u32 hdr 32, block_magic1 := rd_u32 hdr 36\<rparr>;
     f \<leftarrow> find_boundry ops f d;
     Some (f\<lparr>lf_block := Some (fresh_block f), lf_block_alt := Some (fresh_block f)\<rparr>, d, seed) }"

section \<open>Writing\<close>

definition request_flush :: "lfile \<Rightarrow> (lfile \<times> int) option" where
  "request_flush f = do {
     jd_assert (data_ptr f \<noteq> 0);
     if needs_flushing f \<noteq> 0 then Some (f, -1)
     else Some (f\<lparr>lf_block := lf_block_alt f, lf_block_alt := lf_block f, needs_flushing := 1, data_ptr := 0\<rparr>, 0) }"

text \<open>The checksum of a block that is about to be written.\<close>

definition seal_block :: "lfile \<Rightarrow> mem \<Rightarrow> mem" where
  "seal_block f m = wr_u32 m (block_size f - 4) (jd_crc32 (take (block_size f - 4) m))"

definition flush_to_disk_core :: "'d disk_ops \<Rightarrow> lfile \<Rightarrow> 'd \<Rightarrow> (lfile \<times> 'd) option" where
  "flush_to_disk_core ops f d = do {
     m \<leftarrow> lf_block_alt f;
     let m = seal_block f m;
     d \<leftarrow> write_block ops f (block_ptr f) m d;
     let m = patch m 16 (replicate (block_data_size f) 0);
     let f = f\<lparr>lf_block_alt := Some m, block_ptr := u32 (block_ptr f + 1)\<rparr>;
     (f, d) \<leftarrow> (if block_ptr f \<ge> data_blocks f then do {
         hdr \<leftarrow> read_sectors ops f 0 1 d;
         d \<leftarrow> write_sectors ops f 0 (wr_u32 hdr 28 (rd_u32 hdr 28 + 1)) d;
         Some (f\<lparr>block_ptr := 0\<rparr>, d) }
       else Some (f, d));
     Some (f\<lparr>needs_flushing := 0\<rparr>, d) }"

text \<open>The part of \<open>flush_to_disk\<close> with interrupts disabled; the flag says that the block has to be written.\<close>

definition flush_begin :: "lfile \<Rightarrow> (lfile \<times> bool) option" where
  "flush_begin f = do {
     f \<leftarrow> (if data_ptr f \<noteq> 0 \<and> needs_flushing f = 0 then map_option fst (request_flush f) else Some f);
     if needs_flushing f \<noteq> 0 then do { jd_assert (needs_flushing f = 1); Some (f\<lparr>needs_flushing := 2\<rparr>, True) }
     else Some (f, False) }"

definition flush_to_disk :: "'d disk_ops \<Rightarrow> lfile \<Rightarrow> 'd \<Rightarrow> (lfile \<times> 'd) option" where
  "flush_to_disk ops f d = do {
     (f, write) \<leftarrow> flush_begin f;
     if write then flush_to_disk_core ops f d else Some (f, d) }"

text \<open>Storing an entry in the buffer: the header of four bytes and the data.\<close>

definition put_entry :: "nat \<Rightarrow> 16 word \<Rightarrow> mem \<Rightarrow> lfile \<Rightarrow> lfile option" where
  "put_entry tp tdelta data f = do {
     m \<leftarrow> lf_block f;
     m \<leftarrow> wr_mem m (16 + data_ptr f) ([of_nat tp, of_nat (length data)] @ le_bytes 2 tdelta);
     m \<leftarrow> wr_mem m (16 + data_ptr f + 4) data;
     Some (f\<lparr>lf_block := Some m, data_ptr := data_ptr f + JD_LSTORE_ENTRY_HEADER_SIZE + length data\<rparr>) }"

definition start_block :: "64 word \<Rightarrow> lfile \<Rightarrow> lfile option" where
  "start_block now f = do {
     m \<leftarrow> lf_block f;
     Some (f\<lparr>lf_block := Some (patch (wr_u32 m 4 (block_generation f)) 8 (le_bytes 8 now))\<rparr>) }"

text \<open>The loop of \<open>jd_lstore_append\<close> runs again only with a buffer that was just exchanged.\<close>

partial_function (option) append_loop :: "64 word \<Rightarrow> nat \<Rightarrow> mem \<Rightarrow> lfile \<Rightarrow> (lfile \<times> int) option" where
  "append_loop now tp data f = do {
     f \<leftarrow> (if data_ptr f = 0 then start_block now f else Some f);
     m \<leftarrow> lf_block f;
     let delta = sint (now - blk_timestamp m);
     if delta \<ge> 0 \<and> delta \<le> 0xffff \<and> data_ptr f + JD_LSTORE_ENTRY_HEADER_SIZE + length data \<le> block_data_size f
     then map_option (\<lambda>f. (f, 0)) (put_entry tp (of_int delta) data f)
     else do {
       let f = (if delta < 0 then f\<lparr>block_generation := block_generation f + 1\<rparr> else f);
       (f, res) \<leftarrow> request_flush f;
       if res \<noteq> 0 then Some (f, res) else append_loop now tp data f } }"

definition file_append :: "64 word \<Rightarrow> nat \<Rightarrow> mem \<Rightarrow> lfile \<Rightarrow> (lfile \<times> int) option" where
  "file_append now tp data f =
     (if lf_block f = None then Some (f, -10)
      else do {
        jd_assert (tp < 256);
        jd_assert (length data < 256);
        append_loop now tp data f })"

definition jd_lstore_append :: "64 word \<Rightarrow> nat \<Rightarrow> nat \<Rightarrow> mem \<Rightarrow> 'd lstore \<Rightarrow> ('d lstore \<times> int) option" where
  "jd_lstore_append now logidx tp data s = do {
     jd_assert (logidx < JD_LSTORE_NUM_FILES);
     (f, r) \<leftarrow> file_append now tp data (ls_logs s ! logidx);
     Some (s\<lparr>ls_logs := (ls_logs s)[logidx := f]\<rparr>, r) }"

function jd_lstore_append_frag :: "64 word \<Rightarrow> nat \<Rightarrow> nat \<Rightarrow> mem \<Rightarrow> 'd lstore \<Rightarrow> ('d lstore \<times> int) option" where
  "jd_lstore_append_frag now logidx tp data s =
     (if length data > 0xff then do {
        (s, r) \<leftarrow> jd_lstore_append now logidx tp (take 0xff data) s;
        if r \<noteq> 0 then Some (s, r) else jd_lstore_append_frag now logidx tp (drop 0xff data) s }
      else jd_lstore_append now logidx tp data s)"
  by pat_completeness auto
termination by (relation "measure (\<lambda>(now, i, tp, data, s). length data)") auto

declare jd_lstore_append_frag.simps [simp del]

section \<open>The store\<close>

definition flush_file :: "'d disk_ops \<Rightarrow> nat \<Rightarrow> 'd lstore \<Rightarrow> 'd lstore option" where
  "flush_file ops i s = do {
     (f, d) \<leftarrow> flush_to_disk ops (ls_logs s ! i) (ls_disk s);
     Some (s\<lparr>ls_logs := (ls_logs s)[i := f], ls_disk := d\<rparr>) }"

definition jd_lstore_is_enabled :: "'d lstore \<Rightarrow> bool" where
  "jd_lstore_is_enabled s \<longleftrightarrow> lf_block (ls_logs s ! 0) \<noteq> None"

definition jd_lstore_process :: "'d disk_ops \<Rightarrow> 32 word \<Rightarrow> 'd lstore \<Rightarrow> 'd lstore option" where
  "jd_lstore_process ops now_ms s =
     (if \<not> jd_lstore_is_enabled s then Some s
      else (case jd_should_sample_ms now_ms (flush_timer s) (JD_LSTORE_FLUSH_SECONDS * 1000) of (force, t) \<Rightarrow> do {
        let s = s\<lparr>flush_timer := t\<rparr>;
        s \<leftarrow> (if needs_flushing (ls_logs s ! 0) \<noteq> 0 \<or> force then flush_file ops 0 s else Some s);
        (if needs_flushing (ls_logs s ! 1) \<noteq> 0 \<or> force then flush_file ops 1 s else Some s) }))"

definition jd_lstore_force_flush :: "'d disk_ops \<Rightarrow> 'd lstore \<Rightarrow> 'd lstore option" where
  "jd_lstore_force_flush ops s =
     (if \<not> jd_lstore_is_enabled s then Some s
      else do {
        s \<leftarrow> flush_file ops 0 s;
        s \<leftarrow> flush_file ops 1 s;
        s \<leftarrow> flush_file ops 0 s;
        flush_file ops 1 s })"

definition lfile_new :: "nat \<Rightarrow> nat \<Rightarrow> lfile" where
  "lfile_new sz off = \<lparr>lf_block = None, lf_block_alt = None, sector_off = off, lf_size = sz, header_blocks = 0, data_blocks = 0, block_shift = 0,
     needs_flushing = 0, block_magic0 = 0, block_magic1 = 0, block_generation = 0, block_ptr = 0, data_ptr = 0\<rparr>"

text \<open>\<open>purpose i\<close> is the name of the \<open>i\<close>-th log.\<close>

definition jd_lstore_init ::
  "'d disk_ops \<Rightarrow> mem \<Rightarrow> mem \<Rightarrow> mem \<Rightarrow> 64 word \<Rightarrow> 'd \<Rightarrow> 32 word \<Rightarrow> ('d lstore \<times> 32 word) option" where
  "jd_lstore_init ops devinfo purpose0 purpose1 now d seed = do {
     (sz0, off0) \<leftarrow> jd_f_create ops 0 JD_LSTORE_FILE_SIZE;
     (sz1, off1) \<leftarrow> jd_f_create ops 1 JD_LSTORE_FILE_SIZE;
     (f0, d, seed) \<leftarrow> mount_log ops devinfo purpose0 3 (lfile_new sz0 off0) d seed;
     (f1, d, seed) \<leftarrow> mount_log ops devinfo purpose1 0 (lfile_new sz1 off1) d seed;
     let s = \<lparr>ls_disk = d, flush_timer = 0, ls_logs = [f0, f1]\<rparr>;
     (s, _) \<leftarrow> jd_lstore_append now 0 JD_LSTORE_TYPE_DEVINFO devinfo s;
     (s, _) \<leftarrow> jd_lstore_append now 1 JD_LSTORE_TYPE_DEVINFO devinfo s;
     Some (s, seed) }"

section \<open>Blocks as lists of entries\<close>

text \<open>An entry is its type, the time it was logged and its data; \<open>decode\<close> reads the data area of a block with the time stamp
  \<open>ts\<close> up to an entry of type 0.\<close>

type_synonym entry = "nat \<times> 64 word \<times> mem"

definition log_entry_bytes :: "64 word \<Rightarrow> entry \<Rightarrow> mem" where
  "log_entry_bytes ts e =
     (case e of (tp, t, data) \<Rightarrow> [of_nat tp, of_nat (length data)] @ le_bytes 2 (ucast (t - ts) :: 16 word) @ data)"

definition entry_ok :: "64 word \<Rightarrow> entry \<Rightarrow> bool" where
  "entry_ok ts e = (case e of (tp, t, data) \<Rightarrow> 0 < tp \<and> tp < 256 \<and> length data < 256 \<and> unat (t - ts) \<le> 0xffff)"

definition ser :: "64 word \<Rightarrow> entry list \<Rightarrow> mem" where
  "ser ts es = concat (map (log_entry_bytes ts) es)"

function decode :: "64 word \<Rightarrow> mem \<Rightarrow> entry list" where
  "decode ts bs =
     (if length bs < 4 \<or> bs ! 0 = 0 then []
      else (unat (bs ! 0), ts + ucast (le_word (take 2 (drop 2 bs)) :: 16 word), take (unat (bs ! 1)) (drop 4 bs))
        # decode ts (drop (4 + unat (bs ! 1)) bs))"
  by auto
termination by (relation "measure (\<lambda>(ts, bs). length bs)") auto

declare decode.simps [simp del]

lemma ser_append [simp]: "ser ts (es @ es') = ser ts es @ ser ts es'" and ser_Nil [simp]: "ser ts [] = []"
  and ser_Cons: "ser ts (e # es) = log_entry_bytes ts e @ ser ts es"
  by (simp_all add: ser_def)

lemma length_log_entry_bytes: "length (log_entry_bytes ts (tp, t, data)) = 4 + length data"
  by (simp add: log_entry_bytes_def)

lemma ser_eq_Nil_iff [simp]: "ser ts es = [] \<longleftrightarrow> es = []"
  by (cases es) (auto simp: ser_Cons log_entry_bytes_def)

lemma ucast_ucast_small:
  fixes w :: "64 word"
  assumes "unat w \<le> 0xffff"
  shows "ucast (ucast w :: 16 word) = w"
  using assms by (intro word_unat_eq_iff [THEN iffD2]) (simp add: unsigned_ucast_eq unsigned_take_bit_eq take_bit_nat_eq_self)

lemma decode_ser:
  "list_all (entry_ok ts) es \<Longrightarrow> decode ts (ser ts es @ replicate k 0) = es"
proof (induction es)
  case Nil
  show ?case by (cases k; subst decode.simps) simp_all
next
  case (Cons e es)
  obtain tp t data where e: "e = (tp, t, data)" by (cases e)
  let ?td = "ucast (t - ts) :: 16 word"
  let ?bs = "ser ts (e # es) @ replicate k 0"
  have bs: "?bs = of_nat tp # of_nat (length data) # le_bytes 2 ?td @ data @ ser ts es @ replicate k 0"
    by (simp add: e ser_Cons log_entry_bytes_def)
  have ok: "0 < tp" "tp < 256" "length data < 256" "unat (t - ts) \<le> 0xffff"
    using Cons.prems by (simp_all add: e entry_ok_def)
  have es: "list_all (entry_ok ts) es" using Cons.prems by simp
  have tp: "unat (of_nat tp :: 8 word) = tp" and len: "unat (of_nat (length data) :: 8 word) = length data"
    using ok by (simp_all add: unat_of_nat)
  have nz: "(of_nat tp :: 8 word) \<noteq> 0" using tp ok by (metis less_irrefl unat_0)
  have time: "ts + ucast ?td = t" using ucast_ucast_small [OF ok(4)] by simp
  show ?case
    unfolding bs using nz Cons.IH [OF es]
    by (subst decode.simps) (simp add: tp len time e drop_Cons')
qed

text \<open>A buffer \<open>m\<close> with the entries \<open>es\<close>, and a mounted file with the entries \<open>cur\<close> in its current buffer and the entries \<open>pend\<close> in
  the buffer that waits for the card.\<close>

definition buf_ok :: "lfile \<Rightarrow> mem \<Rightarrow> entry list \<Rightarrow> bool" where
  "buf_ok f m es \<longleftrightarrow> length m = block_size f \<and> blk_magic0 m = block_magic0 f \<and> foot_magic1 f m = block_magic1 f \<and>
     length (ser (blk_timestamp m) es) \<le> block_data_size f \<and> list_all (entry_ok (blk_timestamp m)) es \<and>
     take (block_data_size f) (drop 16 m) =
       ser (blk_timestamp m) es @ replicate (block_data_size f - length (ser (blk_timestamp m) es)) 0"

definition lf_ok :: "lfile \<Rightarrow> entry list \<Rightarrow> entry list \<Rightarrow> bool" where
  "lf_ok f cur pend \<longleftrightarrow> 9 \<le> block_shift f \<and> block_shift f \<le> 12 \<and>
     (\<exists>m. lf_block f = Some m \<and> buf_ok f m cur \<and> data_ptr f = length (ser (blk_timestamp m) cur)) \<and>
     (\<exists>a. lf_block_alt f = Some a \<and> buf_ok f a pend) \<and> (needs_flushing f = 0 \<longrightarrow> pend = [])"

lemma block_size_bounds:
  assumes "9 \<le> block_shift f"
  shows "512 \<le> block_size f"
proof -
  have "(2::nat) ^ 9 \<le> 2 ^ block_shift f" using assms by (intro power_increasing) simp_all
  then show ?thesis by (simp add: block_size_def)
qed

lemma buf_ok_cong:
  "buf_ok f m es \<Longrightarrow> block_shift g = block_shift f \<Longrightarrow> block_magic0 g = block_magic0 f \<Longrightarrow> block_magic1 g = block_magic1 f
     \<Longrightarrow> buf_ok g m es"
  by (simp add: buf_ok_def block_size_def block_data_size_def foot_magic1_def)

lemma buf_ok_upd [simp]:
  "buf_ok (f\<lparr>needs_flushing := x\<rparr>) m es = buf_ok f m es"
  "buf_ok (f\<lparr>lf_block_alt := b\<rparr>) m es = buf_ok f m es"
  "buf_ok (f\<lparr>block_ptr := i\<rparr>) m es = buf_ok f m es"
  "buf_ok (f\<lparr>data_blocks := n\<rparr>) m es = buf_ok f m es"
  by (simp_all add: buf_ok_def block_size_def block_data_size_def foot_magic1_def)

lemma rd_u32_patch:
  assumes "off + length src \<le> length m" "p + 4 \<le> off \<or> off + length src \<le> p"
  shows "rd_u32 (patch m off src) p = rd_u32 m p"
  using assms by (simp add: rd_u32_def take_drop_patch_disjoint)

lemma timestamp_patch:
  assumes "off + length src \<le> length m" "16 \<le> off \<or> off + length src \<le> 8"
  shows "blk_timestamp (patch m off src) = blk_timestamp m"
  using assms by (simp add: blk_timestamp_def take_drop_patch_disjoint)

lemma rd_wr_u32: "off + 4 \<le> length m \<Longrightarrow> rd_u32 (wr_u32 m off v) off = v"
  using take_drop_patch_same [of off "le_bytes 4 v" m] by (simp add: rd_u32_def wr_u32_def)

text \<open>Starting a block stamps an empty buffer.\<close>

lemma start_block_ok:
  assumes "buf_ok f m []" "9 \<le> block_shift f" "lf_block f = Some m"
  obtains m' where "start_block now f = Some (f\<lparr>lf_block := Some m'\<rparr>)" "buf_ok f m' []" "blk_timestamp m' = now"
proof -
  define m1 where "m1 = wr_u32 m 4 (block_generation f)"
  define m' where "m' = patch m1 8 (le_bytes 8 now)"
  have sz: "512 \<le> block_size f" using assms(2) by (rule block_size_bounds)
  have len: "length m = block_size f" using assms(1) by (simp add: buf_ok_def)
  have len1: "length m1 = block_size f" using sz len by (simp add: m1_def wr_u32_def)
  have "take n (drop p m') = take n (drop p m)" if "p \<ge> 16 \<or> p + n \<le> 4" for n p
    using that sz len len1 by (auto simp: m'_def m1_def wr_u32_def take_drop_patch_disjoint)
  note same = this
  have "take 4 (drop (block_size f - 8) m') = take 4 (drop (block_size f - 8) m)" using sz by (intro same) linarith
  then have "buf_ok f m' []"
    using assms(1) sz len len1 same [of 0 4] same [of 16 "block_data_size f"]
    by (simp add: buf_ok_def blk_magic0_def foot_magic1_def rd_u32_def m'_def)
  moreover have "blk_timestamp m' = now"
    using take_drop_patch_same [of 8 "le_bytes 8 now" m1] sz len1 by (simp add: blk_timestamp_def m'_def)
  ultimately show ?thesis
    using that [of m'] assms(3) by (simp add: start_block_def m'_def m1_def)
qed

lemma patch_data_area:
  assumes "length m = 16 + n + k" "take n (drop 16 m) = xs @ replicate (n - length xs) 0" "length xs + length ys \<le> n"
  shows "take n (drop 16 (patch m (16 + length xs) ys)) = (xs @ ys) @ replicate (n - length (xs @ ys)) 0"
proof (rule nth_equalityI)
  fix i
  assume i: "i < length (take n (drop 16 (patch m (16 + length xs) ys)))"
  with assms have "i < n" by simp
  moreover have "m ! (16 + i) = (xs @ replicate (n - length xs) 0) ! i"
    using assms \<open>i < n\<close> by (metis (no_types, lifting) add_leD1 drop_drop le_add1 length_drop nth_drop nth_take trans_le_add1)
  ultimately show "take n (drop 16 (patch m (16 + length xs) ys)) ! i = ((xs @ ys) @ replicate (n - length (xs @ ys)) 0) ! i"
    using assms by (auto simp: patch_nth nth_append)
qed (use assms in simp)

lemma start_block_generation:
  assumes "start_block now f = Some f'" "lf_block f = Some m" "16 \<le> length m"
  shows "map_option blk_generation (lf_block f') = Some (block_generation f)"
proof -
  define m1 where "m1 = wr_u32 m 4 (block_generation f)"
  have "length m1 = length m" using assms(3) by (simp add: m1_def wr_u32_def)
  then have "blk_generation (patch m1 8 (le_bytes 8 now)) = blk_generation m1"
    using assms(3) by (simp add: blk_generation_def rd_u32_patch)
  also have "\<dots> = block_generation f" using assms(3) by (simp add: blk_generation_def m1_def rd_wr_u32)
  finally show ?thesis using assms(1,2) by (auto simp: start_block_def m1_def)
qed

text \<open>Storing an entry that fits extends the list of entries of the buffer.\<close>

lemma put_entry_ok:
  assumes ok: "buf_ok f m es" and shift: "9 \<le> block_shift f" and m: "lf_block f = Some m"
    and dp: "data_ptr f = length (ser (blk_timestamp m) es)" and e: "entry_ok (blk_timestamp m) (tp, now, data)"
    and fit: "data_ptr f + 4 + length data \<le> block_data_size f"
  obtains m' where "put_entry tp (ucast (now - blk_timestamp m)) data f =
      Some (f\<lparr>lf_block := Some m', data_ptr := data_ptr f + 4 + length data\<rparr>)"
    "buf_ok f m' (es @ [(tp, now, data)])" "blk_timestamp m' = blk_timestamp m"
proof -
  define ts where "ts = blk_timestamp m"
  define eb where "eb = log_entry_bytes ts (tp, now, data)"
  define m' where "m' = patch m (16 + data_ptr f) eb"
  have sz: "block_size f = block_data_size f + 24"
    using block_size_bounds [OF shift] by (simp add: block_data_size_def JD_LSTORE_BLOCK_OVERHEAD_def)
  have leb: "length eb = 4 + length data" by (simp add: eb_def length_log_entry_bytes)
  have len: "length m = block_size f" using ok by (simp add: buf_ok_def)
  define eh where "eh = [of_nat tp, of_nat (length data)] @ le_bytes 2 (ucast (now - ts) :: 16 word)"
  have eh: "length eh = 4" "eb = eh @ data" by (simp_all add: eh_def eb_def log_entry_bytes_def)
  have "patch (patch m (16 + data_ptr f) eh) (16 + data_ptr f + 4) data = m'"
    unfolding m'_def eh(2) eh(1) [symmetric] using fit sz len eh(1) by (intro patch_patch_append) simp
  then have put: "put_entry tp (ucast (now - ts)) data f = Some (f\<lparr>lf_block := Some m', data_ptr := data_ptr f + 4 + length data\<rparr>)"
    unfolding put_entry_def eh_def [symmetric]
    using fit sz len m eh(1) by (simp add: JD_LSTORE_ENTRY_HEADER_SIZE_def)
  have ts': "blk_timestamp m' = ts" using fit sz len leb by (simp add: m'_def ts_def timestamp_patch)
  have "take (block_data_size f) (drop 16 m') = (ser ts es @ eb) @ replicate (block_data_size f - length (ser ts es @ eb)) 0"
    unfolding m'_def dp ts_def [symmetric]
    using ok fit sz len leb dp by (intro patch_data_area [of m _ 8]) (simp_all add: buf_ok_def ts_def)
  moreover have "length m' = block_size f" using fit sz len leb by (simp add: m'_def)
  moreover have "blk_magic0 m' = block_magic0 f" "foot_magic1 f m' = block_magic1 f"
    using ok fit sz len leb by (simp_all add: m'_def buf_ok_def blk_magic0_def foot_magic1_def rd_u32_patch)
  ultimately have "buf_ok f m' (es @ [(tp, now, data)])"
    using ok e fit leb dp ts' by (simp add: buf_ok_def ts_def ser_Cons eb_def)
  with put ts' that show ?thesis by (simp add: ts_def)
qed

lemma sint_small:
  fixes w :: "64 word"
  assumes "0 \<le> sint w" "sint w \<le> 0xffff"
  shows "unat w \<le> 0xffff" "(of_int (sint w) :: 16 word) = ucast w"
proof -
  have "uint w = uint (word_of_int (sint w) :: 64 word)" by simp
  also have "\<dots> = sint w" using assms by (simp only: uint_word_of_int) simp
  finally have *: "sint w = uint w" by simp
  then show "unat w \<le> 0xffff" using assms by (simp only: unat_eq_nat_uint nat_le_iff)
  show "(of_int (sint w) :: 16 word) = ucast w" unfolding * by simp
qed

lemma lf_okE:
  assumes "lf_ok f cur pend"
  obtains m a where "9 \<le> block_shift f" "block_shift f \<le> 12" "lf_block f = Some m" "buf_ok f m cur"
    "data_ptr f = length (ser (blk_timestamp m) cur)" "lf_block_alt f = Some a" "buf_ok f a pend" "needs_flushing f = 0 \<longrightarrow> pend = []"
  using assms by (auto simp: lf_ok_def)

text \<open>An entry that fits into the current buffer is stored there.\<close>

lemma append_put:
  assumes f: "9 \<le> block_shift f" "block_shift f \<le> 12" "lf_block f = Some m" "buf_ok f m cur"
    "data_ptr f = length (ser (blk_timestamp m) cur)" "lf_block_alt f = Some a" "buf_ok f a pend" "needs_flushing f = 0 \<longrightarrow> pend = []"
    and e: "0 < tp" "tp < 256" "length data < 256"
    and delta: "0 \<le> sint (now - blk_timestamp m)" "sint (now - blk_timestamp m) \<le> 0xffff"
    and fit: "data_ptr f + 4 + length data \<le> block_data_size f"
  obtains f' where "put_entry tp (of_int (sint (now - blk_timestamp m))) data f = Some f'" "lf_ok f' (cur @ [(tp, now, data)]) pend"
    "needs_flushing f' = needs_flushing f" "block_ptr f' = block_ptr f" "lf_block_alt f' = lf_block_alt f"
proof -
  have ent: "entry_ok (blk_timestamp m) (tp, now, data)" using e sint_small(1) [OF delta] by (simp add: entry_ok_def)
  obtain m' where m': "put_entry tp (ucast (now - blk_timestamp m)) data f =
      Some (f\<lparr>lf_block := Some m', data_ptr := data_ptr f + 4 + length data\<rparr>)"
    "buf_ok f m' (cur @ [(tp, now, data)])" "blk_timestamp m' = blk_timestamp m"
    using put_entry_ok [OF f(4,1,3,5) ent fit] .
  define f' where "f' = f\<lparr>lf_block := Some m', data_ptr := data_ptr f + 4 + length data\<rparr>"
  have "lf_ok f' (cur @ [(tp, now, data)]) pend"
    unfolding lf_ok_def using f m'(3) buf_ok_cong [OF m'(2), of f'] buf_ok_cong [OF f(7), of f']
    by (simp add: f'_def ser_Cons length_log_entry_bytes)
  with m'(1) show ?thesis using that [of f'] sint_small(2) [OF delta] by (simp add: f'_def)
qed

text \<open>With an empty current buffer an entry is always stored.\<close>

lemma append_empty:
  assumes ok: "lf_ok f [] pend" and e: "0 < tp" "tp < 256" "length data < 256"
  obtains f' where "append_loop now tp data f = Some (f', 0)" "lf_ok f' [(tp, now, data)] pend"
    "needs_flushing f' = needs_flushing f" "block_ptr f' = block_ptr f" "lf_block_alt f' = lf_block_alt f"
proof -
  obtain m a where f: "9 \<le> block_shift f" "block_shift f \<le> 12" "lf_block f = Some m" "buf_ok f m []"
    "data_ptr f = length (ser (blk_timestamp m) [])" "lf_block_alt f = Some a" "buf_ok f a pend" "needs_flushing f = 0 \<longrightarrow> pend = []"
    using ok by (rule lf_okE)
  obtain m' where m': "start_block now f = Some (f\<lparr>lf_block := Some m'\<rparr>)" "buf_ok f m' []" "blk_timestamp m' = now"
    using start_block_ok [OF f(4,1,3)] .
  define g where "g = f\<lparr>lf_block := Some m'\<rparr>"
  have data: "data_ptr g + 4 + length data \<le> block_data_size g"
    using block_size_bounds [OF f(1)] e(3) f(5) by (simp add: g_def block_data_size_def block_size_def JD_LSTORE_BLOCK_OVERHEAD_def)
  obtain f' where f': "put_entry tp (of_int (sint (now - blk_timestamp m'))) data g = Some f'" "lf_ok f' ([] @ [(tp, now, data)]) pend"
    "needs_flushing f' = needs_flushing g" "block_ptr f' = block_ptr g" "lf_block_alt f' = lf_block_alt g"
  proof (rule append_put [of g m' "[]" a pend tp data now, OF _ _ _ _ _ _ _ _ e _ _ data])
    show "buf_ok g m' []" "buf_ok g a pend" using m'(2) f(7) by (auto intro: buf_ok_cong simp: g_def)
  qed (use f m'(3) in \<open>simp_all add: g_def\<close>)
  have "append_loop now tp data f = Some (f', 0)"
    by (subst append_loop.simps) (use f m' f'(1) data in \<open>simp add: g_def [symmetric] JD_LSTORE_ENTRY_HEADER_SIZE_def; simp add: g_def\<close>)
  with f' show ?thesis using that by (simp add: g_def)
qed

text \<open>The entry fits into the current block.\<close>

definition fits :: "lfile \<Rightarrow> 64 word \<Rightarrow> mem \<Rightarrow> bool" where
  "fits f now data \<longleftrightarrow> data_ptr f = 0 \<or>
     (case lf_block f of None \<Rightarrow> False
      | Some m \<Rightarrow> 0 \<le> sint (now - blk_timestamp m) \<and> sint (now - blk_timestamp m) \<le> 0xffff \<and>
          data_ptr f + 4 + length data \<le> block_data_size f)"

lemma request_flush_ok:
  assumes "lf_ok f cur pend" "cur \<noteq> []" "needs_flushing f = 0"
  obtains f' where "request_flush f = Some (f', 0)" "lf_ok f' [] cur" "needs_flushing f' = 1" "block_ptr f' = block_ptr f"
    "f' = f\<lparr>lf_block := lf_block_alt f, lf_block_alt := lf_block f, needs_flushing := 1, data_ptr := 0\<rparr>"
proof -
  define f' where "f' = f\<lparr>lf_block := lf_block_alt f, lf_block_alt := lf_block f, needs_flushing := 1, data_ptr := 0\<rparr>"
  obtain m a where f: "9 \<le> block_shift f" "block_shift f \<le> 12" "lf_block f = Some m" "buf_ok f m cur"
    "data_ptr f = length (ser (blk_timestamp m) cur)" "lf_block_alt f = Some a" "buf_ok f a pend" "needs_flushing f = 0 \<longrightarrow> pend = []"
    using assms(1) by (rule lf_okE)
  have "lf_ok f' [] cur"
    unfolding lf_ok_def using f assms(3) buf_ok_cong [OF f(4), of f'] buf_ok_cong [OF f(7), of f'] by (simp add: f'_def)
  then show ?thesis using that [of f'] f(5) assms(2,3) by (simp add: f'_def request_flush_def)
qed

lemma lf_ok_generation [simp]: "lf_ok (f\<lparr>block_generation := g\<rparr>) cur pend = lf_ok f cur pend"
  by (simp add: lf_ok_def buf_ok_def block_size_def block_data_size_def foot_magic1_def)

lemma append_full:
  assumes "lf_ok f cur pend" "\<not> fits f now data"
  shows "append_loop now tp data f = do {
     (f, res) \<leftarrow> request_flush (f\<lparr>block_generation := block_generation f +
       (if sint (now - blk_timestamp (the (lf_block f))) < 0 then 1 else 0)\<rparr>);
     if res \<noteq> 0 then Some (f, res) else append_loop now tp data f }"
proof -
  obtain m where "lf_block f = Some m" using assms(1) by (rule lf_okE)
  then show ?thesis
    using assms(2) by (subst append_loop.simps) (auto simp: fits_def Let_def JD_LSTORE_ENTRY_HEADER_SIZE_def)
qed

text \<open>An entry that does not fit: the full buffer is handed over, or the entry is rejected.\<close>

lemma append_overflow:
  assumes ok: "lf_ok f cur pend" and full: "\<not> fits f now data" and cur: "cur \<noteq> []" and e: "0 < tp" "tp < 256" "length data < 256"
  shows "\<exists>f' r. append_loop now tp data f = Some (f', r) \<and> block_ptr f' = block_ptr f \<and>
     (needs_flushing f \<noteq> 0 \<longrightarrow> lf_block_alt f' = lf_block_alt f) \<and>
     (if needs_flushing f = 0 then r = 0 \<and> lf_ok f' [(tp, now, data)] cur \<and> needs_flushing f' = 1
      else r = -1 \<and> lf_ok f' cur pend \<and> needs_flushing f' = needs_flushing f)"
proof -
  define g where "g = f\<lparr>block_generation := block_generation f + (if sint (now - blk_timestamp (the (lf_block f))) < 0 then 1 else 0)\<rparr>"
  have g: "lf_ok g cur pend" "needs_flushing g = needs_flushing f" "block_ptr g = block_ptr f" "lf_block_alt g = lf_block_alt f"
    using ok by (simp_all add: g_def)
  show ?thesis
  proof (cases "needs_flushing f = 0")
    case True
    obtain h where h: "request_flush g = Some (h, 0)" "lf_ok h [] cur" "needs_flushing h = 1" "block_ptr h = block_ptr g"
      using request_flush_ok [OF g(1) cur] g(2) True by metis
    obtain f' where f': "append_loop now tp data h = Some (f', 0)" "lf_ok f' [(tp, now, data)] cur"
      "needs_flushing f' = needs_flushing h" "block_ptr f' = block_ptr h"
      using append_empty [OF h(2) e, of now] by metis
    show ?thesis using True append_full [OF ok full, folded g_def] h f' g by simp
  next
    case False
    have "data_ptr g \<noteq> 0" using full by (auto simp: fits_def g_def)
    then have "request_flush g = Some (g, -1)" using False g(2) by (simp add: request_flush_def)
    then show ?thesis using False append_full [OF ok full, folded g_def] g by simp
  qed
qed

text \<open>C15: Appending an entry to a mounted log always returns, and does to the lists of entries in the two buffers what is expected of it: an entry
  that fits is added to the current block; one that does not fit starts a new block, and the full block is handed over to be
  written, if the other buffer is free; if it is not, the entry is rejected with -1 and no entry is lost or changed.  A block that waits for
  the card is never touched.\<close>

theorem lstore_append_refines:
  assumes ok: "lf_ok f cur pend" and e: "0 < tp" "tp < 256" "length data < 256"
  shows "\<exists>f' r. file_append now tp data f = Some (f', r) \<and> block_ptr f' = block_ptr f \<and>
     (needs_flushing f \<noteq> 0 \<longrightarrow> lf_block_alt f' = lf_block_alt f) \<and>
     (if fits f now data then r = 0 \<and> lf_ok f' (cur @ [(tp, now, data)]) pend \<and> needs_flushing f' = needs_flushing f
      else if needs_flushing f = 0 then r = 0 \<and> lf_ok f' [(tp, now, data)] cur \<and> needs_flushing f' = 1
      else r = -1 \<and> lf_ok f' cur pend \<and> needs_flushing f' = needs_flushing f)"
proof -
  obtain m a where f: "9 \<le> block_shift f" "block_shift f \<le> 12" "lf_block f = Some m" "buf_ok f m cur"
    "data_ptr f = length (ser (blk_timestamp m) cur)" "lf_block_alt f = Some a" "buf_ok f a pend" "needs_flushing f = 0 \<longrightarrow> pend = []"
    using ok by (rule lf_okE)
  have start: "file_append now tp data f = append_loop now tp data f" using f(3) e by (simp add: file_append_def)
  consider (empty) "data_ptr f = 0" | (fit) "data_ptr f \<noteq> 0" "fits f now data" | (full) "\<not> fits f now data" by blast
  then show ?thesis
  proof cases
    case empty
    with f(5) have cur: "cur = []" by simp
    obtain f' where f': "append_loop now tp data f = Some (f', 0)" "lf_ok f' [(tp, now, data)] pend"
      "needs_flushing f' = needs_flushing f" "block_ptr f' = block_ptr f" "lf_block_alt f' = lf_block_alt f"
      using append_empty [OF ok [unfolded cur] e, of now] .
    have "fits f now data" using empty by (simp add: fits_def)
    with cur f' start show ?thesis by simp
  next
    case fit
    then have *: "0 \<le> sint (now - blk_timestamp m)" "sint (now - blk_timestamp m) \<le> 0xffff" "data_ptr f + 4 + length data \<le> block_data_size f"
      using f(3) by (simp_all add: fits_def)
    obtain f' where f': "put_entry tp (of_int (sint (now - blk_timestamp m))) data f = Some f'" "lf_ok f' (cur @ [(tp, now, data)]) pend"
      "needs_flushing f' = needs_flushing f" "block_ptr f' = block_ptr f" "lf_block_alt f' = lf_block_alt f"
      using append_put [OF f e *] .
    have "append_loop now tp data f = Some (f', 0)"
      using f(3) f'(1) * fit(1) by (subst append_loop.simps) (simp add: JD_LSTORE_ENTRY_HEADER_SIZE_def)
    with f' fit(2) start show ?thesis by simp
  next
    case full
    have "cur \<noteq> []" using full f(5) by (auto simp: fits_def)
    with append_overflow [OF ok full _ e] full start show ?thesis by simp
  qed
qed

section \<open>Mounting\<close>

lemma fresh_block_ok:
  assumes "9 \<le> block_shift f"
  shows "buf_ok f (fresh_block f) []"
proof -
  define m0 where "m0 = wr_u32 (replicate (block_size f) 0) 0 (block_magic0 f)"
  have sz: "512 \<le> block_size f" using assms by (rule block_size_bounds)
  then have len: "length m0 = block_size f" by (simp add: m0_def wr_u32_def)
  have fb: "fresh_block f = patch m0 (block_size f - 8) (le_bytes 4 (block_magic1 f))"
    by (simp add: fresh_block_def m0_def wr_u32_def)
  have "rd_u32 (fresh_block f) 0 = rd_u32 m0 0" unfolding fb using sz len by (intro rd_u32_patch) simp_all
  also have "\<dots> = block_magic0 f" using sz by (simp add: m0_def rd_wr_u32)
  finally have magic0: "blk_magic0 (fresh_block f) = block_magic0 f" by (simp add: blk_magic0_def)
  have "take (block_data_size f) (drop 16 (fresh_block f)) = take (block_data_size f) (drop 16 m0)"
    unfolding fb using sz len by (intro take_drop_patch_disjoint) (simp_all add: block_data_size_def JD_LSTORE_BLOCK_OVERHEAD_def)
  also have "\<dots> = take (block_data_size f) (drop 16 (replicate (block_size f) 0))"
    unfolding m0_def wr_u32_def using sz by (intro take_drop_patch_disjoint) simp_all
  also have "\<dots> = replicate (block_data_size f) 0"
    using sz by (simp add: block_data_size_def JD_LSTORE_BLOCK_OVERHEAD_def)
  finally have data: "take (block_data_size f) (drop 16 (fresh_block f)) = replicate (block_data_size f) 0" .
  have "foot_magic1 f (fresh_block f) = block_magic1 f"
    using sz rd_wr_u32 [of "block_size f - 8" m0 "block_magic1 f"] len by (simp add: foot_magic1_def fresh_block_def m0_def)
  with magic0 data len sz show ?thesis by (simp add: buf_ok_def fb)
qed

lemma fresh_block_timestamp:
  assumes "9 \<le> block_shift f"
  shows "blk_timestamp (fresh_block f) = 0"
proof -
  have sz: "512 \<le> block_size f" using assms by (rule block_size_bounds)
  have "blk_timestamp (fresh_block f) = blk_timestamp (wr_u32 (replicate (block_size f) 0) 0 (block_magic0 f))"
    unfolding fresh_block_def wr_u32_def [of _ "block_size f - 8"] using sz by (intro timestamp_patch) (simp_all add: wr_u32_def, linarith)
  also have "\<dots> = blk_timestamp (replicate (block_size f) 0)"
    unfolding wr_u32_def using sz by (intro timestamp_patch) simp_all
  also have "\<dots> = 0" using sz by (simp add: blk_timestamp_def min_def numeral_eq_Suc)
  finally show ?thesis .
qed

text \<open>The header that is written to a new log is accepted, so that mounting never ends in the panic after it.\<close>

lemma length_strcpy_n: "off + sz \<le> length m \<Longrightarrow> 0 < sz \<Longrightarrow> length (strcpy_n m off sz src) = length m"
  by (simp add: strcpy_n_def)

lemma rd_u32_strcpy_n: "off + sz \<le> length m \<Longrightarrow> 0 < sz \<Longrightarrow> p + 4 \<le> off \<Longrightarrow> rd_u32 (strcpy_n m off sz src) p = rd_u32 m p"
  by (simp add: strcpy_n_def rd_u32_patch)

lemma length_wr_u32 [simp]: "off + 4 \<le> length m \<Longrightarrow> length (wr_u32 m off v) = length m"
  by (simp add: wr_u32_def)

lemma rd_wr_u32_other: "off + 4 \<le> length m \<Longrightarrow> p + 4 \<le> off \<or> off + 4 \<le> p \<Longrightarrow> rd_u32 (wr_u32 m off v) p = rd_u32 m p"
  by (simp add: wr_u32_def rd_u32_patch)

lemma new_header_fields:
  assumes "length devinfo = 136"
  shows "rd_u32 (new_header f devinfo bl_shift m0 m1 name) 0 = JD_LSTORE_MAGIC0"
    "rd_u32 (new_header f devinfo bl_shift m0 m1 name) 4 = JD_LSTORE_MAGIC1"
    "rd_u32 (new_header f devinfo bl_shift m0 m1 name) 8 = JD_LSTORE_VERSION"
    "rd_u32 (new_header f devinfo bl_shift m0 m1 name) 12 = of_nat SECTOR_SIZE"
    "rd_u32 (new_header f devinfo bl_shift m0 m1 name) 16 = of_nat (2 ^ bl_shift)"
    "rd_u32 (new_header f devinfo bl_shift m0 m1 name) 24 = of_nat (lf_size f div 2 ^ (bl_shift + SECTOR_SHIFT))"
  using assms by (simp_all add: new_header_def Let_def rd_u32_strcpy_n rd_u32_patch rd_wr_u32_other rd_wr_u32 SECTOR_SIZE_def)

lemma log_shift_power: "j \<le> k \<Longrightarrow> log_shift j (2 ^ k) = k"
proof (induction "k - j" arbitrary: j)
  case 0
  then show ?case by (subst log_shift.simps) simp
next
  case (Suc n)
  then have "j < k" by simp
  then have "(2::nat) ^ j < 2 ^ k" by simp
  with Suc.hyps(1) [of "j + 1"] Suc.hyps(2) \<open>j < k\<close> show ?case by (subst log_shift.simps) simp
qed

theorem new_header_valid:
  assumes devinfo: "length devinfo = 136" and sh: "bl_shift \<le> 3" and sz: "lf_size f < 2 ^ 32"
  shows "validate_header f (new_header f devinfo bl_shift m0 m1 name) = (f\<lparr>block_shift := bl_shift + SECTOR_SHIFT\<rparr>, True)"
proof -
  define q where "q = lf_size f div 2 ^ (bl_shift + SECTOR_SHIFT)"
  have p: "(2::nat) ^ bl_shift \<le> 2 ^ 3" using sh by (intro power_increasing) simp_all
  have "2 ^ bl_shift * q = 2 ^ bl_shift * (lf_size f div SECTOR_SIZE div 2 ^ bl_shift)"
    by (simp add: q_def power_add SECTOR_SHIFT_def SECTOR_SIZE_def div_mult2_eq [symmetric] mult.commute)
  then have le: "2 ^ bl_shift * q \<le> lf_size f div SECTOR_SIZE" by (metis mult.commute div_times_less_eq_dividend)
  then have "2 ^ bl_shift * q < 2 ^ 32" using sz by (meson div_le_dividend le_less_trans)
  then have "unat (of_nat (2 ^ bl_shift) * of_nat q :: 32 word) = 2 ^ bl_shift * q"
    unfolding of_nat_mult [symmetric] by (simp add: unat_of_nat del: of_nat_mult of_nat_power)
  moreover have "unat (of_nat (2 ^ bl_shift) :: 32 word) = 2 ^ bl_shift" using p by (simp add: unat_of_nat del: of_nat_power)
  ultimately show ?thesis
    using le p by (simp add: validate_header_def new_header_fields [OF devinfo] q_def [symmetric] Let_def log_shift_power del: of_nat_power)
qed

lemma validate_header_shift:
  assumes "validate_header f hdr = (f', True)"
  shows "\<exists>sh \<le> 3. f' = f\<lparr>block_shift := sh + SECTOR_SHIFT\<rparr>"
proof -
  define sh where "sh = log_shift 0 (unat (rd_u32 hdr 16))"
  have *: "2 ^ sh = unat (rd_u32 hdr 16)" "unat (rd_u32 hdr 16) \<le> 8" "f' = f\<lparr>block_shift := sh + SECTOR_SHIFT\<rparr>"
    using assms by (auto simp: validate_header_def sh_def Let_def split: if_splits)
  then have "(2::nat) ^ sh \<le> 2 ^ 3" by simp
  then have "sh \<le> 3" by (rule power_le_imp_le_exp [rotated]) simp
  with *(3) show ?thesis by blast
qed

lemma mount_header_shift:
  assumes "mount_header ops devinfo name bl_shift f d seed = Some (f', hdr, d', seed')"
  shows "\<exists>sh \<le> 3. f' = f\<lparr>block_shift := sh + SECTOR_SHIFT\<rparr>"
  using assms
  by (auto simp: mount_header_def Let_def split: bind_splits prod.splits if_splits dest!: validate_header_shift)

lemma find_boundry_keeps:
  assumes "find_boundry ops f d = Some f'"
  shows "\<exists>g p. f' = f\<lparr>block_generation := g, block_ptr := p\<rparr>"
  using assms by (auto simp: find_boundry_def Let_def split: bind_splits if_splits)

text \<open>A log that was mounted, whether it was there before or is new, has two empty buffers.\<close>

lemma mount_log_ok:
  assumes mount: "mount_log ops devinfo name bl_shift f d seed = Some (f', d', seed')"
    and f: "needs_flushing f = 0" "data_ptr f = 0"
  shows "lf_ok f' [] []" "needs_flushing f' = 0"
proof -
  obtain g0 hdr sd g2 where g0: "mount_header ops devinfo name bl_shift f d seed = Some (g0, hdr, d', sd)"
    and g: "find_boundry ops (g0\<lparr>header_blocks := unat (rd_u32 hdr 20), data_blocks := unat (rd_u32 hdr 24 - rd_u32 hdr 20),
       block_magic0 := rd_u32 hdr 32, block_magic1 := rd_u32 hdr 36\<rparr>) d' = Some g2"
    and f': "f' = g2\<lparr>lf_block := Some (fresh_block g2), lf_block_alt := Some (fresh_block g2)\<rparr>"
    using mount by (auto simp: mount_log_def Let_def split: bind_splits prod.splits)
  from mount_header_shift [OF g0] obtain sh where "sh \<le> 3" "g0 = f\<lparr>block_shift := sh + SECTOR_SHIFT\<rparr>" by blast
  with f find_boundry_keeps [OF g] have g2: "9 \<le> block_shift g2" "block_shift g2 \<le> 12" "needs_flushing g2 = 0" "data_ptr g2 = 0"
    by (auto simp: SECTOR_SHIFT_def)
  have "buf_ok f' (fresh_block g2) []" using fresh_block_ok [OF g2(1)] by (rule buf_ok_cong) (simp_all add: f')
  with f' g2 show "lf_ok f' [] []" "needs_flushing f' = 0" by (simp_all add: lf_ok_def)
qed

section \<open>Flushing\<close>

lemma flush_begin_writes:
  assumes "lf_ok f cur pend" "cur \<noteq> [] \<or> needs_flushing f \<noteq> 0"
  shows "flush_begin f = None \<or> (\<exists>h. flush_begin f = Some (h, True) \<and> block_ptr h = block_ptr f \<and> data_blocks h = data_blocks f)"
proof (cases "needs_flushing f = 0")
  case True
  with assms(2) have "cur \<noteq> []" by simp
  from request_flush_ok [OF assms(1) this True] obtain f' where "request_flush f = Some (f', 0)"
    "f' = f\<lparr>lf_block := lf_block_alt f, lf_block_alt := lf_block f, needs_flushing := 1, data_ptr := 0\<rparr>" by metis
  moreover have "data_ptr f \<noteq> 0" using assms(1) \<open>cur \<noteq> []\<close> by (auto simp: lf_ok_def)
  ultimately show ?thesis using True by (simp add: flush_begin_def)
next
  case False
  then show ?thesis by (simp add: flush_begin_def jd_assert_def)
qed

section \<open>Finding the end of the log\<close>

lemma boundry_loop_finds:
  assumes rd: "\<forall>i < n. read_block ops f i d = Some (B i)"
    and newer: "\<forall>i. 0 < i \<and> i < p \<longrightarrow> block_lt s (B i)" and older: "\<forall>i. p \<le> i \<and> i < n \<longrightarrow> \<not> block_lt s (B i)"
  shows "l < p \<Longrightarrow> p \<le> r + 1 \<Longrightarrow> r < n \<Longrightarrow> boundry_loop ops f d s l r = Some (p - 1)"
proof (induction "r - l" arbitrary: l r rule: less_induct)
  case less
  show ?case
  proof (cases "l < r")
    case True
    define m where "m = (l + r) div 2 + 1"
    have m: "l < m" "m \<le> r" using True by (simp_all add: m_def)
    have lt: "block_lt s (B m) \<longleftrightarrow> m < p" using newer older m less.prems by (metis gr_zeroI le_less_trans linorder_not_less not_less_zero)
    have "boundry_loop ops f d s l r = (if m < p then boundry_loop ops f d s m r else boundry_loop ops f d s l (m - 1))"
      using True rd m less.prems(3) lt by (subst boundry_loop.simps) (simp only: m_def [symmetric] Let_def, simp)
    also have "\<dots> = Some (p - 1)" using m less.prems less.hyps [of r m] less.hyps [of "m - 1" l] by auto
    finally show ?thesis .
  next
    case False
    with less.prems have "l = p - 1" by simp
    with False show ?thesis by (subst boundry_loop.simps) simp
  qed
qed

text \<open>The blocks of the log as it is found: \<open>B i\<close> is the block that is read at \<open>i\<close>, and block \<open>p\<close> is the first that is older than block 0.\<close>

definition ring_at :: "'d disk_ops \<Rightarrow> lfile \<Rightarrow> 'd \<Rightarrow> (nat \<Rightarrow> mem) \<Rightarrow> nat \<Rightarrow> bool" where
  "ring_at ops f d B p \<longleftrightarrow> 0 < p \<and> p \<le> data_blocks f \<and> (\<forall>i < data_blocks f. read_block ops f i d = Some (B i)) \<and> blk_magic0 (B 0) \<noteq> 0 \<and>
     (\<forall>i. 0 < i \<and> i < p \<longrightarrow> block_lt (B 0) (B i)) \<and> (\<forall>i. p \<le> i \<and> i < data_blocks f \<longrightarrow> \<not> block_lt (B 0) (B i)) \<and>
     blk_generation (B (p - 1)) < 0xfffffffe"

lemma word_Suc_below:
  fixes x :: "32 word"
  assumes "x < 0xfffffffe"
  shows "x < x + 1" "x + 1 < 0xffffffff"
proof -
  have x: "unat x < 0xfffffffe" using assms by (simp add: word_less_nat_alt)
  then have "unat (x + 1) = unat x + 1" by (simp add: unat_word_ariths)
  with x show "x < x + 1" "x + 1 < 0xffffffff" by (simp_all add: word_less_nat_alt)
qed

lemma find_boundry_ring:
  assumes ring: "ring_at ops f d B p" and f: "block_ptr f = 0"
  shows "find_boundry ops f d = Some (f\<lparr>block_generation := blk_generation (B (p - 1)) + 1, block_ptr := p\<rparr>)"
proof -
  have rd: "\<forall>i < data_blocks f. read_block ops f i d = Some (B i)" and p: "0 < p" "p \<le> data_blocks f"
    using ring by (simp_all add: ring_at_def)
  have "boundry_loop ops f d (B 0) 0 (data_blocks f - 1) = Some (p - 1)"
    using ring p by (intro boundry_loop_finds [of "data_blocks f" _ _ _ B]) (simp_all add: ring_at_def)
  moreover have "read_block ops f 0 d = Some (B 0)" "read_block ops f (p - 1) d = Some (B (p - 1))" using rd p by simp_all
  ultimately show ?thesis using ring p f by (simp add: find_boundry_def ring_at_def word_Suc_below)
qed

text \<open>C17: When blocks 0 to p - 1 of a log were written after block 0 and the others before it or not at all, the binary search of \<open>find_boundry\<close>
  ends, and the log is continued at block p with a generation that is newer than that of the block before it.\<close>

theorem find_boundry_continues:
  assumes "ring_at ops f d B p" "p < data_blocks f" "block_ptr f = 0"
  shows "\<exists>f'. find_boundry ops f d = Some f' \<and> block_ptr f' = p \<and> block_ptr f' < data_blocks f' \<and>
     blk_generation (B (p - 1)) < block_generation f'"
proof -
  have "blk_generation (B (p - 1)) < blk_generation (B (p - 1)) + 1"
    using assms(1) by (simp add: ring_at_def word_Suc_below)
  with find_boundry_ring [OF assms(1,3)] assms(2) show ?thesis by simp
qed

text \<open>C39: A log in which every block was written since block 0 is not continued at all: \<open>find_boundry\<close> compares the position
  with \<open>block_ptr\<close>, which is 0, where the number of blocks is meant, and the first block that is flushed fails the assertion of
  \<open>write_block\<close>.\<close>

theorem full_log_panics:
  assumes "ring_at ops f d B (data_blocks f)" "block_ptr f = 0"
  shows "\<exists>f'. find_boundry ops f d = Some f' \<and>
     (\<forall>g d' cur pend. lf_ok g cur pend \<and> (cur \<noteq> [] \<or> needs_flushing g \<noteq> 0) \<and> block_ptr g = block_ptr f' \<and> data_blocks g = data_blocks f'
        \<longrightarrow> flush_to_disk ops g d' = None)"
proof -
  define f' where "f' = f\<lparr>block_generation := blk_generation (B (data_blocks f - 1)) + 1, block_ptr := data_blocks f\<rparr>"
  have core: "flush_to_disk_core ops h d' = None" if "data_blocks h \<le> block_ptr h" for h d'
    using that by (simp add: flush_to_disk_core_def write_block_def Let_def split: Option.bind_splits)
  have "flush_to_disk ops g d' = None"
    if "lf_ok g cur pend" "cur \<noteq> [] \<or> needs_flushing g \<noteq> 0" "block_ptr g = block_ptr f'" "data_blocks g = data_blocks f'" for g d' cur pend
  proof -
    have "flush_begin g = None \<or> (\<exists>h. flush_begin g = Some (h, True) \<and> block_ptr h = block_ptr g \<and> data_blocks h = data_blocks g)"
      using that(1,2) by (rule flush_begin_writes)
    then show ?thesis using that(3,4) core by (auto simp: flush_to_disk_def f'_def)
  qed
  with find_boundry_ring [OF assms] show ?thesis unfolding f'_def by blast
qed

section \<open>What was flushed can be read\<close>

text \<open>What the code relies on from the driver of a card with \<open>cap\<close> sectors: sector \<open>i\<close> holds the 512 bytes \<open>sec d i\<close>, reading returns the
  sectors, and writing replaces them and leaves all others as they are.\<close>

definition disk_ok :: "'d disk_ops \<Rightarrow> ('d \<Rightarrow> nat \<Rightarrow> mem) \<Rightarrow> nat \<Rightarrow> bool" where
  "disk_ok ops sec cap \<longleftrightarrow> (\<forall>d i. length (sec d i) = SECTOR_SIZE) \<and>
     (\<forall>d s n. s + n \<le> cap \<longrightarrow> ff_disk_read ops d s n = Some (concat (map (sec d) [s..<s + n]))) \<and>
     (\<forall>d s n src. length src = n * SECTOR_SIZE \<and> s + n \<le> cap \<longrightarrow>
        (\<exists>d'. ff_disk_write ops s src d = Some d' \<and>
           (\<forall>i. sec d' i = (if s \<le> i \<and> i < s + n then take SECTOR_SIZE (drop ((i - s) * SECTOR_SIZE) src) else sec d i))))"

lemma concat_sectors:
  "length src = n * k \<Longrightarrow> j \<le> n \<Longrightarrow> concat (map (\<lambda>i. take k (drop ((i - s) * k) src)) [s..<s + j]) = take (j * k) src"
proof (induction j)
  case (Suc j)
  then have "concat (map (\<lambda>i. take k (drop ((i - s) * k) src)) [s..<s + Suc j]) = take (j * k) src @ take k (drop (j * k) src)"
    by simp
  also have "\<dots> = take (Suc j * k) src" by (simp add: take_add [symmetric] add.commute)
  finally show ?case .
qed simp

lemma disk_write:
  assumes "disk_ok ops sec cap" "length src = n * SECTOR_SIZE" "s + n \<le> cap"
  obtains d' where "ff_disk_write ops s src d = Some d'" "ff_disk_read ops d' s n = Some src"
    "\<And>s' n'. s' + n' \<le> cap \<Longrightarrow> s' + n' \<le> s \<or> s + n \<le> s' \<Longrightarrow> ff_disk_read ops d' s' n' = ff_disk_read ops d s' n'"
proof -
  obtain d' where d': "ff_disk_write ops s src d = Some d'"
    "\<And>i. sec d' i = (if s \<le> i \<and> i < s + n then take SECTOR_SIZE (drop ((i - s) * SECTOR_SIZE) src) else sec d i)"
    using assms unfolding disk_ok_def by blast
  have rd: "ff_disk_read ops e s' n' = Some (concat (map (sec e) [s'..<s' + n']))" if "s' + n' \<le> cap" for e s' n'
    using assms(1) that unfolding disk_ok_def by blast
  have "map (sec d') [s..<s + n] = map (\<lambda>i. take SECTOR_SIZE (drop ((i - s) * SECTOR_SIZE) src)) [s..<s + n]"
    by (simp add: d'(2))
  then have "ff_disk_read ops d' s n = Some src"
    using rd [OF assms(3), of d'] concat_sectors [OF assms(2) order.refl, of s] assms(2) by (simp del: map_eq_conv)
  moreover have "ff_disk_read ops d' s' n' = ff_disk_read ops d s' n'" if "s' + n' \<le> cap" "s' + n' \<le> s \<or> s + n \<le> s'" for s' n'
  proof -
    have "map (sec d') [s'..<s' + n'] = map (sec d) [s'..<s' + n']" using that(2) by (auto simp: d'(2))
    with rd [OF that(1)] show ?thesis by (simp del: map_eq_conv)
  qed
  ultimately show ?thesis using that [OF d'(1)] by blast
qed

text \<open>The file lies on the card, with at least one block for the header.\<close>

definition placed :: "lfile \<Rightarrow> nat \<Rightarrow> bool" where
  "placed f cap \<longleftrightarrow> cap \<le> 2 ^ 32 \<and> 1 \<le> header_blocks f \<and>
     sector_off f + (header_blocks f + data_blocks f) * 2 ^ (block_shift f - SECTOR_SHIFT) \<le> cap"

text \<open>The first sector of block \<open>i\<close>.\<close>

definition block_sector :: "lfile \<Rightarrow> nat \<Rightarrow> nat" where
  "block_sector f i = sector_off f + (header_blocks f + i) * 2 ^ (block_shift f - SECTOR_SHIFT)"

lemma block_sector_placed:
  assumes "placed f cap" "i < data_blocks f"
  shows "block_sector f i + 2 ^ (block_shift f - SECTOR_SHIFT) \<le> cap" "sector_off f + 1 \<le> block_sector f i"
    "u32 (sector_off f + u32 ((header_blocks f + i) * 2 ^ (block_shift f - SECTOR_SHIFT))) = block_sector f i"
    "j < i \<Longrightarrow> block_sector f j + 2 ^ (block_shift f - SECTOR_SHIFT) \<le> block_sector f i"
proof -
  define k :: nat where "k = 2 ^ (block_shift f - SECTOR_SHIFT)"
  have k: "1 \<le> k" by (simp add: k_def)
  have mult: "(header_blocks f + a) * k + k \<le> (header_blocks f + b) * k" if "a < b" for a b
    using mult_le_mono1 [of "header_blocks f + a + 1" "header_blocks f + b" k] that by (simp add: add_mult_distrib)
  have cap: "cap \<le> 2 ^ 32" "sector_off f + (header_blocks f + data_blocks f) * k \<le> cap" "1 \<le> header_blocks f"
    using assms(1) by (simp_all add: placed_def k_def)
  show 1: "block_sector f i + 2 ^ (block_shift f - SECTOR_SHIFT) \<le> cap"
    using mult [OF assms(2)] cap by (simp add: block_sector_def k_def [symmetric])
  have "1 * 1 \<le> (header_blocks f + i) * k" using cap(3) k by (intro mult_le_mono) simp_all
  then show "sector_off f + 1 \<le> block_sector f i" by (simp add: block_sector_def k_def [symmetric])
  have "block_sector f i < 2 ^ 32" using 1 cap(1) k by (simp add: k_def [symmetric])
  then show "u32 (sector_off f + u32 ((header_blocks f + i) * 2 ^ (block_shift f - SECTOR_SHIFT))) = block_sector f i"
    by (simp add: block_sector_def)
  show "j < i \<Longrightarrow> block_sector f j + 2 ^ (block_shift f - SECTOR_SHIFT) \<le> block_sector f i"
    using mult [of j i] by (simp add: block_sector_def k_def [symmetric])
qed

lemma seal_block_ok:
  assumes ok: "buf_ok f m es" and shift: "9 \<le> block_shift f"
  shows "buf_ok f (seal_block f m) es" "block_valid f (seal_block f m)"
proof -
  define c where "c = jd_crc32 (take (block_size f - 4) m)"
  have sz: "512 \<le> block_size f" using shift by (rule block_size_bounds)
  have len: "length m = block_size f" using ok by (simp add: buf_ok_def)
  have seal: "seal_block f m = patch m (block_size f - 4) (le_bytes 4 c)" by (simp add: seal_block_def wr_u32_def c_def)
  have ts: "blk_timestamp (seal_block f m) = blk_timestamp m" unfolding seal using sz len by (intro timestamp_patch) (simp_all only: length_le_bytes, linarith+)
  have data: "take (block_data_size f) (drop 16 (seal_block f m)) = take (block_data_size f) (drop 16 m)"
    unfolding seal using sz len by (intro take_drop_patch_disjoint) (simp_all add: block_data_size_def JD_LSTORE_BLOCK_OVERHEAD_def)
  have magic: "rd_u32 (seal_block f m) 0 = rd_u32 m 0" "rd_u32 (seal_block f m) (block_size f - 8) = rd_u32 m (block_size f - 8)"
    unfolding seal using sz len by (intro rd_u32_patch; simp)+
  have ln: "length (seal_block f m) = block_size f" using sz len by (simp add: seal)
  show "buf_ok f (seal_block f m) es"
    using ok ts data magic ln by (simp add: buf_ok_def blk_magic0_def foot_magic1_def)
  have "foot_crc32 f (seal_block f m) = c" unfolding foot_crc32_def seal_block_def c_def using sz len by (intro rd_wr_u32) simp
  moreover have "take (block_size f - 4) (seal_block f m) = take (block_size f - 4) m" using len by (simp add: seal patch_def)
  ultimately show "block_valid f (seal_block f m)"
    using ok magic by (simp add: block_valid_def c_def buf_ok_def blk_magic0_def foot_magic1_def)
qed

lemma clear_block_ok:
  assumes ok: "buf_ok f m es" and shift: "9 \<le> block_shift f"
  shows "buf_ok f (patch m 16 (replicate (block_data_size f) 0)) []"
proof -
  define z :: mem where "z = replicate (block_data_size f) 0"
  have z: "length z = block_data_size f" by (simp add: z_def)
  have sz: "block_size f = block_data_size f + 24"
    using block_size_bounds [OF shift] by (simp add: block_data_size_def JD_LSTORE_BLOCK_OVERHEAD_def)
  have len: "length m = block_size f" using ok by (simp add: buf_ok_def)
  have "take (block_data_size f) (drop 16 (patch m 16 z)) = z"
    using take_drop_patch_same [of 16 z m] z sz len by simp
  moreover have "rd_u32 (patch m 16 z) 0 = rd_u32 m 0" "rd_u32 (patch m 16 z) (block_size f - 8) = rd_u32 m (block_size f - 8)"
    using z sz len by (intro rd_u32_patch; simp)+
  ultimately show ?thesis
    using ok z sz len by (simp add: buf_ok_def z_def [symmetric] blk_magic0_def foot_magic1_def)
qed

text \<open>Writing a block and reading blocks.\<close>

lemma write_block_ok:
  assumes disk: "disk_ok ops sec cap" and f: "placed f cap" "idx < data_blocks f" "9 \<le> block_shift f" "length m = block_size f"
  obtains d' where "write_block ops f idx m d = Some d'"
    "read_block ops f idx d' = Some (if block_valid f m then m else patch m 0 (replicate 16 0))"
    "\<And>i. i < data_blocks f \<Longrightarrow> i \<noteq> idx \<Longrightarrow> read_block ops f i d' = read_block ops f i d"
proof -
  define k :: nat where "k = 2 ^ (block_shift f - SECTOR_SHIFT)"
  have "(2::nat) ^ block_shift f = 2 ^ (block_shift f - SECTOR_SHIFT) * 2 ^ SECTOR_SHIFT"
    using f(3) by (subst power_add [symmetric]) (simp add: SECTOR_SHIFT_def)
  then have m: "length m = k * SECTOR_SIZE" using f(4) by (simp add: k_def block_size_def SECTOR_SHIFT_def SECTOR_SIZE_def)
  note pl = block_sector_placed [OF f(1), folded k_def]
  obtain d' where d': "ff_disk_write ops (block_sector f idx) m d = Some d'" "ff_disk_read ops d' (block_sector f idx) k = Some m"
    "\<And>s' n'. s' + n' \<le> cap \<Longrightarrow> s' + n' \<le> block_sector f idx \<or> block_sector f idx + k \<le> s' \<Longrightarrow> ff_disk_read ops d' s' n' = ff_disk_read ops d s' n'"
    by (rule disk_write [OF disk m pl(1) [OF f(2)], of d]) blast
  have rd: "read_block ops f i e = do { m \<leftarrow> ff_disk_read ops e (block_sector f i) k; Some (if block_valid f m then m else patch m 0 (replicate 16 0)) }"
    if "i < data_blocks f" for i e
    using that pl(3) [OF that] by (simp add: read_block_def read_sectors_def k_def)
  show ?thesis
  proof (rule that)
    show "write_block ops f idx m d = Some d'" using f(2) pl(3) [OF f(2)] d'(1) by (simp add: write_block_def write_sectors_def k_def)
    show "read_block ops f idx d' = Some (if block_valid f m then m else patch m 0 (replicate 16 0))" using rd [OF f(2)] d'(2) by simp
    show "read_block ops f i d' = read_block ops f i d" if "i < data_blocks f" "i \<noteq> idx" for i
    proof -
      have "block_sector f i + k \<le> block_sector f idx \<or> block_sector f idx + k \<le> block_sector f i"
        using that f(2) pl(4) by (meson linorder_neqE_nat)
      then show ?thesis using d'(3) [OF pl(1) [OF that(1)]] rd that(1) by simp
    qed
  qed
qed

text \<open>The counter of rewrites in the header of the file is updated without changing a block.\<close>

lemma bump_rewrites_ok:
  assumes disk: "disk_ok ops sec cap" and f: "placed f cap" "0 < data_blocks f"
  obtains hdr d' where "read_sectors ops f 0 1 d = Some hdr" "write_sectors ops f 0 (wr_u32 hdr 28 v) d = Some d'"
    "\<And>i. i < data_blocks f \<Longrightarrow> read_block ops f i d' = read_block ops f i d"
proof -
  define hdr where "hdr = sec d (sector_off f)"
  have cap: "sector_off f + 1 \<le> cap" "cap \<le> 2 ^ 32"
    using block_sector_placed(1,2) [OF f] f(1) by (simp_all add: placed_def)
  have rd: "ff_disk_read ops d s n = Some (concat (map (sec d) [s..<s + n]))" if "s + n \<le> cap" for s n
    using disk that unfolding disk_ok_def by blast
  have "length hdr = SECTOR_SIZE" using disk by (simp add: disk_ok_def hdr_def)
  then have len: "length (wr_u32 hdr 28 v) = 1 * SECTOR_SIZE" by (simp add: wr_u32_def SECTOR_SIZE_def)
  obtain d' where d': "ff_disk_write ops (sector_off f) (wr_u32 hdr 28 v) d = Some d'"
    "\<And>s' n'. s' + n' \<le> cap \<Longrightarrow> s' + n' \<le> sector_off f \<or> sector_off f + 1 \<le> s' \<Longrightarrow> ff_disk_read ops d' s' n' = ff_disk_read ops d s' n'"
    by (rule disk_write [OF disk len cap(1), of d]) blast
  show ?thesis
  proof (rule that)
    show "read_sectors ops f 0 1 d = Some hdr" using rd [OF cap(1)] cap by (simp add: read_sectors_def hdr_def)
    show "write_sectors ops f 0 (wr_u32 hdr 28 v) d = Some d'" using d'(1) cap by (simp add: write_sectors_def)
    show "read_block ops f i d' = read_block ops f i d" if "i < data_blocks f" for i
      using that block_sector_placed [OF f(1) that] d'(2) [of "block_sector f i" "2 ^ (block_shift f - SECTOR_SHIFT)"]
      by (simp add: read_block_def read_sectors_def)
  qed
qed

lemma read_block_cong:
  "sector_off g = sector_off f \<Longrightarrow> header_blocks g = header_blocks f \<Longrightarrow> data_blocks g = data_blocks f \<Longrightarrow> block_shift g = block_shift f \<Longrightarrow>
   block_magic0 g = block_magic0 f \<Longrightarrow> block_magic1 g = block_magic1 f \<Longrightarrow> read_block ops g i d = read_block ops f i d"
  by (simp add: read_block_def read_sectors_def block_valid_def foot_magic1_def foot_crc32_def block_size_def)

lemma placed_blocks:
  assumes "placed f cap"
  shows "data_blocks f < 4294967296"
proof -
  have "1 + data_blocks f \<le> (header_blocks f + data_blocks f) * 2 ^ (block_shift f - SECTOR_SHIFT)"
    using assms mult_le_mono [of "1 + data_blocks f" "header_blocks f + data_blocks f" 1 "2 ^ (block_shift f - SECTOR_SHIFT)"]
    by (simp add: placed_def)
  with assms show ?thesis by (simp add: placed_def)
qed

lemma buf_ok_decode:
  "buf_ok f m es \<Longrightarrow> decode (blk_timestamp m) (take (block_data_size f) (drop 16 m)) = es"
  by (simp add: buf_ok_def decode_ser)

lemma lf_ok_cleared:
  assumes "lf_ok f cur pend" "buf_ok f a []"
  shows "lf_ok (f\<lparr>lf_block_alt := Some a, block_ptr := p, needs_flushing := 0\<rparr>) cur []"
proof -
  obtain m where "9 \<le> block_shift f" "block_shift f \<le> 12" "lf_block f = Some m" "buf_ok f m cur" "data_ptr f = length (ser (blk_timestamp m) cur)"
    using assms(1) by (rule lf_okE)
  with assms(2) show ?thesis unfolding lf_ok_def by (auto intro: buf_ok_cong)
qed

text \<open>The part of a flush with interrupts disabled marks the block that is written.\<close>

lemma flush_begin_ok:
  assumes f: "placed f cap" and ok: "lf_ok f cur pend" "needs_flushing f \<le> 1" "needs_flushing f = 1 \<or> cur \<noteq> []"
  obtains h where "flush_begin f = Some (h, True)" "lf_ok h (if needs_flushing f = 1 then cur else []) (if needs_flushing f = 1 then pend else cur)"
    "block_ptr h = block_ptr f" "placed h cap" "data_blocks h = data_blocks f" "\<And>i d. read_block ops h i d = read_block ops f i d"
    "\<And>m. block_valid h m = block_valid f m" "block_data_size h = block_data_size f"
proof (cases "needs_flushing f = 1")
  case True
  show ?thesis
  proof (rule that)
    show "flush_begin f = Some (f\<lparr>needs_flushing := 2\<rparr>, True)" using True by (simp add: flush_begin_def)
    show "lf_ok (f\<lparr>needs_flushing := 2\<rparr>) (if needs_flushing f = 1 then cur else []) (if needs_flushing f = 1 then pend else cur)"
      using ok(1) True by (auto simp: lf_ok_def intro: buf_ok_cong)
    show "read_block ops (f\<lparr>needs_flushing := 2\<rparr>) i d = read_block ops f i d" for i d by (rule read_block_cong) simp_all
  qed (use f in \<open>simp_all add: placed_def block_valid_def foot_magic1_def foot_crc32_def block_size_def block_data_size_def\<close>)
next
  case False
  with ok(2,3) have nf: "needs_flushing f = 0" "cur \<noteq> []" by simp_all
  obtain f' where f': "request_flush f = Some (f', 0)" "lf_ok f' [] cur"
    "f' = f\<lparr>lf_block := lf_block_alt f, lf_block_alt := lf_block f, needs_flushing := 1, data_ptr := 0\<rparr>"
    using request_flush_ok [OF ok(1) nf(2,1)] by metis
  have dp: "data_ptr f \<noteq> 0" using ok(1) nf(2) by (auto simp: lf_ok_def)
  show ?thesis
  proof (rule that)
    show "flush_begin f = Some (f'\<lparr>needs_flushing := 2\<rparr>, True)" using nf dp f'(1,3) by (simp add: flush_begin_def)
    show "lf_ok (f'\<lparr>needs_flushing := 2\<rparr>) (if needs_flushing f = 1 then cur else []) (if needs_flushing f = 1 then pend else cur)"
      using f'(2) False by (auto simp: lf_ok_def intro: buf_ok_cong)
    show "read_block ops (f'\<lparr>needs_flushing := 2\<rparr>) i d = read_block ops f i d" for i d by (rule read_block_cong) (simp_all add: f'(3))
  qed (use f f'(3) in \<open>simp_all add: placed_def block_valid_def foot_magic1_def foot_crc32_def block_size_def block_data_size_def\<close>)
qed

text \<open>The write of \<open>flush_to_disk_core\<close>, the buffer that is cleared and the next position.\<close>

lemma flush_core_ok:
  assumes disk: "disk_ok ops sec cap" and f: "placed f cap" "block_ptr f < data_blocks f"
    and a: "lf_block_alt f = Some a" "buf_ok f a es" "9 \<le> block_shift f"
  obtains d' where "flush_to_disk_core ops f d = Some (f\<lparr>lf_block_alt := Some (patch (seal_block f a) 16 (replicate (block_data_size f) 0)),
      block_ptr := (if block_ptr f + 1 = data_blocks f then 0 else block_ptr f + 1), needs_flushing := 0\<rparr>, d')"
    "read_block ops f (block_ptr f) d' = Some (seal_block f a)"
    "\<And>i. i < data_blocks f \<Longrightarrow> i \<noteq> block_ptr f \<Longrightarrow> read_block ops f i d' = read_block ops f i d"
proof -
  note seal = seal_block_ok [OF a(2,3)]
  have "length (seal_block f a) = block_size f" using seal(1) by (simp add: buf_ok_def)
  then obtain d1 where d1: "write_block ops f (block_ptr f) (seal_block f a) d = Some d1"
    "read_block ops f (block_ptr f) d1 = Some (seal_block f a)"
    "\<And>i. i < data_blocks f \<Longrightarrow> i \<noteq> block_ptr f \<Longrightarrow> read_block ops f i d1 = read_block ops f i d"
    using write_block_ok [OF disk f a(3), of "seal_block f a" d] seal(2) by metis
  define g where "g = f\<lparr>lf_block_alt := Some (patch (seal_block f a) 16 (replicate (block_data_size f) 0)), block_ptr := block_ptr f + 1\<rparr>"
  have ptr: "u32 (block_ptr f + 1) = block_ptr f + 1" using placed_blocks [OF f(1)] f(2) by simp
  have core: "flush_to_disk_core ops f d = do {
      (f, d) \<leftarrow> (if block_ptr g \<ge> data_blocks f then do {
         hdr \<leftarrow> read_sectors ops g 0 1 d1;
         d \<leftarrow> write_sectors ops g 0 (wr_u32 hdr 28 (rd_u32 hdr 28 + 1)) d1;
         Some (g\<lparr>block_ptr := 0\<rparr>, d) }
       else Some (g, d1));
      Some (f\<lparr>needs_flushing := 0\<rparr>, d) }"
    using a(1) d1(1) ptr by (simp add: flush_to_disk_core_def g_def Let_def)
  show ?thesis
  proof (cases "block_ptr f + 1 = data_blocks f")
    case True
    have g: "placed g cap" "0 < data_blocks g" using f by (simp_all add: g_def placed_def)
    have rd: "read_block ops g i e = read_block ops f i e" for i e by (rule read_block_cong) (simp_all add: g_def)
    define hdr where "hdr = the (read_sectors ops g 0 1 d1)"
    obtain d2 where d2: "read_sectors ops g 0 1 d1 = Some hdr" "write_sectors ops g 0 (wr_u32 hdr 28 (rd_u32 hdr 28 + 1)) d1 = Some d2"
      "\<And>i. i < data_blocks f \<Longrightarrow> read_block ops f i d2 = read_block ops f i d1"
      by (rule bump_rewrites_ok [OF disk g, of d1 "rd_u32 hdr 28 + 1"]) (simp_all add: rd hdr_def, simp add: g_def)
    show ?thesis
      using True core d1 d2 f(2) by (intro that [of d2]) (simp_all add: g_def)
  next
    case False
    then show ?thesis using core d1 f(2) by (intro that [of d1]) (simp_all add: g_def)
  qed
qed

text \<open>C16: Flushing a log returns, and no entry is lost on the way: the block at \<open>block_ptr\<close> can be read afterwards, its checksum is right and
  it decodes to exactly the entries, with their types, times and data, that waited in the buffer; every other block of the log is as it was, and the
  position moves on cyclically.\<close>

theorem lstore_flush_roundtrip:
  assumes disk: "disk_ok ops sec cap" and f: "placed f cap" "block_ptr f < data_blocks f"
    and ok: "lf_ok f cur pend" "needs_flushing f \<le> 1" "needs_flushing f = 1 \<or> cur \<noteq> []"
  shows "\<exists>f' d' m. flush_to_disk ops f d = Some (f', d') \<and> needs_flushing f' = 0 \<and>
     lf_ok f' (if needs_flushing f = 1 then cur else []) [] \<and>
     block_ptr f' = (if block_ptr f + 1 = data_blocks f then 0 else block_ptr f + 1) \<and>
     read_block ops f (block_ptr f) d' = Some m \<and> block_valid f m \<and>
     decode (blk_timestamp m) (take (block_data_size f) (drop 16 m)) = (if needs_flushing f = 1 then pend else cur) \<and>
     (\<forall>i < data_blocks f. i \<noteq> block_ptr f \<longrightarrow> read_block ops f i d' = read_block ops f i d)"
proof -
  obtain h where h: "flush_begin f = Some (h, True)" "lf_ok h (if needs_flushing f = 1 then cur else []) (if needs_flushing f = 1 then pend else cur)"
    "block_ptr h = block_ptr f" "placed h cap" "data_blocks h = data_blocks f" "\<And>i d. read_block ops h i d = read_block ops f i d"
    "\<And>m. block_valid h m = block_valid f m" "block_data_size h = block_data_size f"
    using flush_begin_ok [OF f(1) ok] by metis
  obtain m a where m: "9 \<le> block_shift h" "lf_block_alt h = Some a" "buf_ok h a (if needs_flushing f = 1 then pend else cur)"
    using h(2) by (rule lf_okE)
  obtain d' where d': "flush_to_disk_core ops h d = Some (h\<lparr>lf_block_alt := Some (patch (seal_block h a) 16 (replicate (block_data_size h) 0)),
      block_ptr := (if block_ptr h + 1 = data_blocks h then 0 else block_ptr h + 1), needs_flushing := 0\<rparr>, d')"
    "read_block ops h (block_ptr h) d' = Some (seal_block h a)"
    "\<And>i. i < data_blocks h \<Longrightarrow> i \<noteq> block_ptr h \<Longrightarrow> read_block ops h i d' = read_block ops h i d"
    using flush_core_ok [OF disk h(4) _ m(2,3,1), of d] h(3,5) f(2) by metis
  note seal = seal_block_ok [OF m(3,1)]
  have "decode (blk_timestamp (seal_block h a)) (take (block_data_size f) (drop 16 (seal_block h a))) = (if needs_flushing f = 1 then pend else cur)"
    using buf_ok_decode [OF seal(1)] h(8) by simp
  moreover have "lf_ok (h\<lparr>lf_block_alt := Some (patch (seal_block h a) 16 (replicate (block_data_size h) 0)),
      block_ptr := p, needs_flushing := 0\<rparr>) (if needs_flushing f = 1 then cur else []) []" for p
    using h(2) clear_block_ok [OF seal(1) m(1)] by (rule lf_ok_cleared)
  ultimately show ?thesis
    using h d' seal(2) by (simp add: flush_to_disk_def)
qed

section \<open>Concrete logs\<close>

text \<open>A card in memory, a file of three blocks on it, and a block with a given time stamp.\<close>

definition ram_sec :: "(nat \<Rightarrow> mem) \<Rightarrow> nat \<Rightarrow> mem" where
  "ram_sec d i = take SECTOR_SIZE (d i @ replicate SECTOR_SIZE 0)"

definition ram_ops :: "(nat \<Rightarrow> mem) disk_ops" where
  "ram_ops = \<lparr>ff_disk_read = (\<lambda>d s n. Some (concat (map (ram_sec d) [s..<s + n]))),
     ff_disk_write = (\<lambda>s src d. Some (\<lambda>i. if s \<le> i \<and> i < s + length src div SECTOR_SIZE
       then take SECTOR_SIZE (drop ((i - s) * SECTOR_SIZE) src) else d i)),
     jd_f_create = (\<lambda>i sz. Some (sz, 0))\<rparr>"

lemma ram_disk_ok: "disk_ok ram_ops ram_sec cap"
proof -
  have chunk: "length (take SECTOR_SIZE (drop ((i - s) * SECTOR_SIZE) src)) = SECTOR_SIZE"
    if "length src = n * SECTOR_SIZE" "s \<le> i" "i < s + n" for src :: mem and i s n
  proof -
    have "((i - s) + 1) * SECTOR_SIZE \<le> n * SECTOR_SIZE" using that by (intro mult_le_mono1) simp
    with that(1) show ?thesis by (simp add: add_mult_distrib)
  qed
  show ?thesis
    unfolding disk_ok_def by (auto simp: ram_ops_def ram_sec_def SECTOR_SIZE_def dest: chunk [unfolded SECTOR_SIZE_def])
qed

definition demo_log :: lfile where
  "demo_log = (lfile_new 1536 0)\<lparr>header_blocks := 1, data_blocks := 2, block_shift := 9, block_magic0 := 7, block_magic1 := 9\<rparr>"

definition demo_mounted :: lfile where
  "demo_mounted = demo_log\<lparr>lf_block := Some (fresh_block demo_log), lf_block_alt := Some (fresh_block demo_log), block_generation := 1\<rparr>"

lemma demo_mounted_ok: "lf_ok demo_mounted [] []"
proof -
  have "buf_ok demo_log (fresh_block demo_log) []" by (rule fresh_block_ok) (simp add: demo_log_def)
  then show ?thesis by (auto simp: lf_ok_def demo_mounted_def demo_log_def lfile_new_def intro: buf_ok_cong)
qed

theorem lstore_append_refines_witness:
  "\<exists>f' r. file_append 5 1 [1, 2, 3] demo_mounted = Some (f', r) \<and> r = 0 \<and> lf_ok f' [(1, 5, [1, 2, 3])] []"
proof -
  have "fits demo_mounted 5 [1, 2, 3]" by (simp add: fits_def demo_mounted_def demo_log_def lfile_new_def)
  with lstore_append_refines [OF demo_mounted_ok, of 1 "[1, 2, 3]" 5] show ?thesis by auto
qed

lemma demo_sel [simp]:
  "block_shift demo_log = 9" "block_shift demo_mounted = 9" "block_magic0 demo_mounted = block_magic0 demo_log" "block_magic0 demo_log = 7"
  "block_magic1 demo_mounted = block_magic1 demo_log" "data_ptr demo_mounted = 0" "block_ptr demo_mounted = 0" "block_ptr demo_log = 0"
  "data_blocks demo_mounted = 2" "data_blocks demo_log = 2" "header_blocks demo_mounted = 1" "header_blocks demo_log = 1" "sector_off demo_log = 0"
  "sector_off demo_mounted = 0" "needs_flushing demo_mounted = 0" "block_generation demo_mounted = 1"
  "lf_block demo_mounted = Some (fresh_block demo_log)" "lf_block_alt demo_mounted = Some (fresh_block demo_log)"
  by (simp_all add: demo_mounted_def demo_log_def lfile_new_def)

lemma demo_fresh: "buf_ok demo_mounted (fresh_block demo_log) []" "buf_ok demo_log (fresh_block demo_log) []"
  using fresh_block_ok [of demo_log] by (auto intro: buf_ok_cong)

text \<open>A file with an entry that was not written yet.\<close>

definition demo_logged :: lfile where
  "demo_logged = the (put_entry 1 5 [1, 2, 3] demo_mounted)"

lemma demo_fresh_timestamp [simp]: "blk_timestamp (fresh_block demo_log) = 0"
  by (rule fresh_block_timestamp) simp

lemma demo_logged_ok:
  "lf_ok demo_logged [(1, 5, [1, 2, 3])] []" "block_ptr demo_logged = 0" "data_blocks demo_logged = 2" "needs_flushing demo_logged = 0" "placed demo_logged 100"
proof -
  obtain m' where m': "put_entry 1 (ucast (5 - blk_timestamp (fresh_block demo_log))) [1, 2, 3] demo_mounted =
      Some (demo_mounted\<lparr>lf_block := Some m', data_ptr := data_ptr demo_mounted + 4 + length [1, 2, 3 :: 8 word]\<rparr>)"
    "buf_ok demo_mounted m' ([] @ [(1, 5, [1, 2, 3])])" "blk_timestamp m' = blk_timestamp (fresh_block demo_log)"
    by (rule put_entry_ok [of demo_mounted "fresh_block demo_log" "[]" 1 5 "[1, 2, 3]", OF demo_fresh(1)])
      (simp_all add: entry_ok_def block_data_size_def block_size_def JD_LSTORE_BLOCK_OVERHEAD_def)
  have logged: "demo_logged = demo_mounted\<lparr>lf_block := Some m', data_ptr := 7\<rparr>"
    using m'(1) by (simp add: demo_logged_def)
  have "buf_ok demo_logged m' [(1, 5, [1, 2, 3])]" "buf_ok demo_logged (fresh_block demo_log) []"
    using m'(2) demo_fresh(1) by (auto intro: buf_ok_cong simp: logged)
  then show "lf_ok demo_logged [(1, 5, [1, 2, 3])] []"
    using m'(3) by (simp add: lf_ok_def logged ser_Cons length_log_entry_bytes)
  show "block_ptr demo_logged = 0" "data_blocks demo_logged = 2" "needs_flushing demo_logged = 0" "placed demo_logged 100"
    by (simp_all add: logged placed_def SECTOR_SHIFT_def)
qed

theorem lstore_flush_roundtrip_witness:
  "\<exists>f' d' m. flush_to_disk ram_ops demo_logged (\<lambda>i. []) = Some (f', d') \<and> block_ptr f' = 1 \<and>
     read_block ram_ops demo_logged 0 d' = Some m \<and> block_valid demo_logged m \<and>
     decode (blk_timestamp m) (take (block_data_size demo_logged) (drop 16 m)) = [(1, 5, [1, 2, 3])]"
  using lstore_flush_roundtrip [OF ram_disk_ok demo_logged_ok(5) _ demo_logged_ok(1), of "\<lambda>i. []"]
  by (simp add: demo_logged_ok) blast

text \<open>A card on which block 0 was written at time 5, with the given second block.\<close>

definition demo_block :: "64 word \<Rightarrow> mem" where
  "demo_block t = seal_block demo_log (the (lf_block (the (start_block t demo_mounted))))"

definition demo_disk :: "mem \<Rightarrow> nat \<Rightarrow> mem" where
  "demo_disk b i = (if i = 1 then demo_block 5 else if i = 2 then b else replicate 512 0)"

lemma demo_block_ok:
  "length (demo_block t) = 512" "block_valid demo_log (demo_block t)" "blk_magic0 (demo_block t) = 7"
  "blk_generation (demo_block t) = 1" "blk_timestamp (demo_block t) = t"
proof -
  obtain m' where m': "start_block t demo_mounted = Some (demo_mounted\<lparr>lf_block := Some m'\<rparr>)" "buf_ok demo_mounted m' []" "blk_timestamp m' = t"
    by (rule start_block_ok [OF demo_fresh(1)]) simp_all
  have db: "demo_block t = seal_block demo_log m'" by (simp add: demo_block_def m'(1))
  have sz: "block_size demo_log = 512" by (simp add: block_size_def demo_log_def)
  have buf: "buf_ok demo_log m' []" using m'(2) by (rule buf_ok_cong) simp_all
  have seal: "buf_ok demo_log (demo_block t) []" "block_valid demo_log (demo_block t)"
    using seal_block_ok [OF buf] by (simp_all add: db)
  show "length (demo_block t) = 512" "blk_magic0 (demo_block t) = 7" "block_valid demo_log (demo_block t)"
    using seal sz by (simp_all add: buf_ok_def)
  have len: "length m' = 512" using buf sz by (simp add: buf_ok_def)
  show "blk_timestamp (demo_block t) = t"
    unfolding db seal_block_def wr_u32_def using len sz m'(3) by (simp add: timestamp_patch)
  have "blk_generation m' = 1"
    using start_block_generation [OF m'(1)] demo_fresh(2) sz by (simp add: buf_ok_def)
  then show "blk_generation (demo_block t) = 1"
    unfolding db seal_block_def wr_u32_def blk_generation_def using len sz by (simp add: rd_u32_patch)
qed

lemma demo_read:
  assumes "i < 2" "length b = 512"
  shows "read_block ram_ops demo_log i (demo_disk b) =
     Some (let m = (if i = 0 then demo_block 5 else b) in if block_valid demo_log m then m else patch m 0 (replicate 16 0))"
  using assms demo_block_ok(1) [of 5]
  by (cases "i = 0") (simp_all add: read_block_def read_sectors_def ram_ops_def ram_sec_def demo_disk_def SECTOR_SIZE_def SECTOR_SHIFT_def Let_def)

text \<open>The second block was never written, and the log goes on there.\<close>

lemma demo_ring_new: "ring_at ram_ops demo_log (demo_disk (replicate 512 0)) (\<lambda>i. if i = 0 then demo_block 5 else replicate 512 0) 1"
proof -
  have z: "rd_u32 (replicate 512 0) off = 0" if "off \<in> {0, 4}" for off using that by (auto simp: rd_u32_def numeral_eq_Suc)
  have "\<not> block_valid demo_log (replicate 512 0)" using z [of 0] by (simp add: block_valid_def blk_magic0_def)
  moreover have "patch (replicate 512 0) 0 (replicate 16 0) = replicate 512 0" by (simp add: patch_def replicate_add [symmetric])
  moreover have "\<not> block_lt (demo_block 5) (replicate 512 0)"
    using z [of 4] by (simp add: block_lt_def demo_block_ok) (simp add: blk_generation_def)
  ultimately show ?thesis
    by (auto simp: ring_at_def demo_read demo_block_ok Let_def)
qed

theorem find_boundry_continues_witness:
  "\<exists>f'. find_boundry ram_ops demo_log (demo_disk (replicate 512 0)) = Some f' \<and> block_ptr f' = 1 \<and> block_ptr f' < data_blocks f' \<and>
     1 < block_generation f'"
  using find_boundry_continues [OF demo_ring_new] by (simp add: demo_block_ok)

text \<open>The second block was written after the first.\<close>

lemma demo_ring_full: "ring_at ram_ops demo_log (demo_disk (demo_block 6)) (\<lambda>i. if i = 0 then demo_block 5 else demo_block 6) 2"
  by (auto simp: ring_at_def demo_read demo_block_ok block_lt_def Let_def)

theorem full_log_panics_witness:
  "\<exists>f'. find_boundry ram_ops demo_log (demo_disk (demo_block 6)) = Some f' \<and>
     flush_to_disk ram_ops (demo_logged\<lparr>block_ptr := block_ptr f', data_blocks := data_blocks f'\<rparr>) (demo_disk (demo_block 6)) = None"
proof -
  have "lf_ok (demo_logged\<lparr>block_ptr := i, data_blocks := n\<rparr>) [(1, 5, [1, 2, 3])] []" for i n
    using demo_logged_ok(1) by (auto simp: lf_ok_def intro: buf_ok_cong)
  then show ?thesis
    using full_log_panics [of ram_ops demo_log "demo_disk (demo_block 6)" "\<lambda>i. if i = 0 then demo_block 5 else demo_block 6"] demo_ring_full
    by fastforce
qed

end
