(* ===== verification/Spec2Isabelle.thy ===== *)
theory Spec2Isabelle
  imports Jd_Link Jd_Bqueue Jd_Usb Jd_Event Jd_Register Jd_Dmesg Jd_Pipe Jd_Fstor Jd_Control Jd_Crc32 Jd_Seen Jd_Reach Jd_Ledstrip Jd_Power Jd_Lstore
begin

text \<open>
  A verification development for jacdac-c, the C implementation of the Jacdac bus for microcontrollers.

  \<^bold>\<open>The program.\<close>  A device is a main loop and a set of interrupt handlers around a single-wire bus.  The
  physical layer (source/jd\_physical.c) sends and receives frames with a UART and one timer; outgoing
  packets are collected into frames and queued (source/interfaces/tx\_queue.c), incoming frames are queued
  for the main loop (source/interfaces/simple\_rx.c); both queues are byte rings (source/jd\_queue.c).  The
  main loop (source/jd\_services.c) takes a frame, hands each of its packets to the application, the pipes
  (source/jd\_opipe.c, source/jd\_ipipe.c), the client side and the addressed services, and then lets every
  service, the event queue (source/interfaces/event\_queue.c) and the pipes work.  Services answer through
  source/jd\_send\_util.c and keep their registers in structs that \<open>service_handle_register\<close> reads and
  writes.  Service 0 is the control service (source/jd\_control.c).  The client side keeps a table of the other devices with a
  cache of their registers and tells listeners what happens to them (client/routing.c), binds named roles to services
  of these devices (client/rolemgr.c) and gives the application client objects that follow their roles
  (client/hclient.c).  Beside this there are the USB bridge
  (source/jd\_usb.c), the log (source/jd\_dmesg.c), the settings in flash (source/jd\_fstor.c), the device and
  service configuration (source/jd\_dcfg.c, source/jd\_srvcfg.c), the log store on a memory card (storage/lstore.c) and
  the utilities (source/jd\_util.c, storage/crc32.c).  The services that come with the library (services/) are built on
  these parts: a framework for sensors, and among others the LED strip and the power service.

  \<^bold>\<open>Theories.\<close>  Each theory models the files it names, function by function and under their names.
  \<^item> Jd\_Prelude: machine integers, checked memory, little-endian words, the wrap-around clock; shared lemmas.
  \<^item> Jd\_Util: hashes, random numbers, CRC-16 and sampling of jd\_util.c.  The generator never sticks at zero,
    randomised delays stay in their bounds, the CRC is CRC-16-CCITT.
  \<^item> Jd\_Frame: frames and the packets in them (jd\_util.c).  Packing and unpacking are inverse, unpacking ends.
  \<^item> Jd\_Fifo: the contract of a bounded queue as the locales \<open>fifo\<close> and \<open>bounded_fifo\<close>; Jd\_Queue and Jd\_Bqueue
    interpret it for the frame ring and the byte ring.
  \<^item> Jd\_Bus: the transport (physical layer, transmit and receive queue and the part of the USB bridge they
    call) as operations on one record, because these files call each other in a circle.  Jd\_Link: the
    transport as a state machine whose steps are calls and interrupts; no reachable state panics, frames keep
    their order, the frame on the wire stays in place, only checked frames are received.
  \<^item> Jd\_Text, Jd\_Printf, Jd\_Dmesg: text conversions, the formatted printer and the log.
  \<^item> Jd\_Usb: the byte stream of the USB bridge in both directions.
  \<^item> Jd\_Event: the event queue, refined to a retransmission pass over a list of events.
  \<^item> Jd\_Register: replies and registers; set and get are inverse, registers do not overlap.
  \<^item> Jd\_Pipe: the stop-and-wait pipes; payloads arrive once and in order, retries are bounded.
  \<^item> Jd\_Kv: the contract of a persistent store as the locale \<open>kv_store\<close>; Jd\_Fstor: the settings in flash,
    which interpret it, through garbage collections and restarts.
  \<^item> Jd\_Dcfg: the device configuration; lookup equals linear search and strings stay in their block once
    validation has passed.  Jd\_Srvcfg: services started from it; the start always ends.
  \<^item> Jd\_Services: service table, announcements, dispatch, main loop and millisecond clock; every packet of a
    frame is handled once and in order, class commands reach every service of the class, the clock does not
    drift.  Jd\_Control: the control service with its flood of test packets.
  \<^item> Jd\_Client: the device table, register queries and packet routing of the client side; the locale \<open>client_hooks\<close> is what it
    relies on of listeners and of the role manager, and its operations keep the table well formed under it.  Jd\_Seen: what a listener
    sees; events arrive once and in order, register reports are cached exactly.
  \<^item> Jd\_Upper: sending and pipes leave the state above them alone.  Jd\_Role: the role manager; the locale \<open>role_listener\<close> is
    what it relies on of listeners, it provides \<open>client_hooks\<close> to the routing (a sublocale), and automatic binding
    is complete.  Jd\_Binding: the commands of the role manager keep its invariant.
  \<^item> Jd\_Hclient: the client objects, whose event handler interprets \<open>role_listener\<close>.  Jd\_Reach: routing, roles and client
    objects as one state machine; in no state it reaches a pointer dangles or a step panics, and the clients
    know the binding of their role.
  \<^item> Jd\_Ledstrip: the LED strip service (services/ledstrip.c, services/led\_internal.h) with its interpreter of light
    programs.  The service runs every accepted program inside its buffers, the rotation of pixels is that of
    lists, the current limit is kept, and one program of three bytes is shown to run for ever.
  \<^item> Jd\_Sensor: the framework of sensor services (services/jd\_sensor.c), environment sensors (services/jd\_env.c) and the button
    (services/button.c).  Status changes are reported, streaming sends exactly what was asked for, threshold events are
    debounced, errors are interpolated.  Jd\_Power: the power service (services/power.c); the limiter follows the
    status, an overload cuts the power, and one race leaves it on.
  \<^item> Jd\_Crc32: the checksums of storage/crc32.c against their bitwise definitions.  Jd\_Lstore: the log store (storage/lstore.c).  Appending
    is the expected operation on two lists of entries, a flushed block is read back as exactly the entries that were
    appended, the search for the end of a log is right while the last block was not the last one written, and otherwise the log cannot be
    continued.

  \<^bold>\<open>State and errors.\<close>  The static variables of a file are a record; records extend each other where files
  share state (the transport is extended by the pipes, these by the service core, this by the device table, the role
  manager and the client objects; the transport separately by the USB bridge).  Allocated objects of the client side are in
  stores, maps from addresses that are never used twice, so that reading a freed object is noticed.  Functions return the new state.  \<open>None\<close> is a panic, a failed assertion, an access
  outside of the memory the function owns, or a loop that does not end.

  \<^bold>\<open>Configuration.\<close>  The build modelled is a client with a USB bridge: \<open>JD_CLIENT\<close>, \<open>JD_SEND_FRAME\<close>,
  \<open>JD_RX_QUEUE\<close>, \<open>JD_PHYSICAL\<close>, \<open>JD_USB_BRIDGE\<close>, \<open>JD_PIPES\<close>, \<open>JD_MS_TIMER\<close>, \<open>JD_ADVANCED_STRING\<close>,
  \<open>JD_FREE_SUPPORTED\<close> and \<open>JD_DCFG\<close> are 1; \<open>JD_LORA\<close>, \<open>JD_NET_BRIDGE\<close>, \<open>JD_RAW_FRAME\<close>, \<open>JD_DEVICESCRIPT\<close>,
  \<open>JD_HANDLE_ALL_PACKETS\<close>, \<open>JD_SETTINGS_LARGE\<close>, \<open>JD_CONFIG_STATUS\<close>, \<open>JD_LSTORE\<close> and \<open>JD_WIFI\<close> are 0; pointers have
  32 bits.  Two theories model other builds of their own files: Jd\_Lstore is that with \<open>JD_LSTORE\<close> 1, \<open>JD_LSTORE_FF\<close> 0 and \<open>JD_SD_PANIC\<close> 0,
  and the shutdown frames of Jd\_Power need \<open>JD_RAW_FRAME\<close> 1.

  \<^bold>\<open>Parameters.\<close>  Code outside of the repository is a parameter: the protocol constants generated into
  jacdac/dist/c (records \<open>usb_consts\<close>, \<open>sys_consts\<close>, \<open>ctl_consts\<close>, \<open>ctrl_codes\<close>, \<open>role_codes\<close>, \<open>ledstrip_codes\<close>,
  \<open>sensor_codes\<close>, \<open>power_codes\<close>), the UART, timer and flash drivers, the driver of the memory card (\<open>disk_ops\<close>, with what is relied on as
  \<open>disk_ok\<close>), the drivers of sensors (\<open>sensor_api\<close>), the application.  Calls through function pointers (services, pipe handlers, configuration functions, listeners) are
  parameters of the functions that make them, and so are the calls of the service core into the client side.

  \<^bold>\<open>Bounds.\<close>  The packet loop has 60 rounds, more than the 59 packets of four bytes that fit behind each other
  in 240 bytes.  The event loops have one round more than the bytes in the queue, and an event has eight.
  The start of services has 102 rounds, since no configuration key has an index above 100.  The scan
  of a configuration has one round more than its entries.  Loops over services have \<open>JD_MAX_SERVICES\<close> rounds.  The
  choice of a free port, the main loop, the sleep loop and the loops over devices and roles, whose bodies call
  listeners, may run for ever and are partial functions, and so are the interpreter of light programs and the loop that
  appends to the log store, for which the theorems show where they end.

  \<^bold>\<open>Not modelled.\<close>  The FAT file system, the speech synthesis and the color sensor are vendored code, and with the file system the search for
  a contiguous log file on a volume is left out.  The drivers of sensors and buses and the services that only pass values to
  a driver are sequences of transactions with chips and pins; their registers are those of Jd\_Register, and the sensors
  among them use the framework of Jd\_Sensor.  The output of the log store in the panic handler talks to the card bit by bit.  Number
  formats (source/jd\_numfmt.c, through \<open>double\<close>) and large settings are not modelled yet.  Threads are not modelled:
  the client objects are seen from the thread of the main loop, and the functions of client/hclient.c that only panic are left out.  Logging, LED blinks and power management have no effect on the modelled
  state; \<open>jd_print_double\<close> is a parameter of the printer.
\<close>

end
